(* ===== verification/N8n_Prelude.thy ===== *)
theory N8n_Prelude
  imports Complex_Main "HOL-Library.AList"
begin

text \<open>
  Shared vocabulary of the development: JavaScript errors as values, plain objects and
  \<^verbatim>\<open>Map\<close>s as association lists in insertion order, \<^verbatim>\<open>Set\<close>s as lists without
  duplicates in insertion order, arrays with holes, decimal numerals, and the generic facts on
  reachability that the graph searches share.
\<close>

named_theorems js_simps
named_theorems wf_intros

section \<open>Errors as values\<close>

text \<open>
  A \<^verbatim>\<open>throw\<close> of the program is a value \<open>Inl e\<close>; the constructors are the error classes
  the modelled code throws (\<open>TypeError\<close> stands for the engine's own error on a property access
  of \<^verbatim>\<open>undefined\<close>, \<open>PlainError\<close> for \<^verbatim>\<open>Error\<close> itself).
\<close>

datatype js_error =
    AssertionError string
  | TypeError string
  | ApplicationError string
  | UserError string
  | UnexpectedError string
  | OperationalError string
  | WorkflowHasIssues
  | NodeError string
  | PlainError string
  | FilterError string

type_synonym 'a res = "js_error + 'a"

definition bindE :: "'a res \<Rightarrow> ('a \<Rightarrow> 'b res) \<Rightarrow> 'b res" where
  "bindE m f = (case m of Inl e \<Rightarrow> Inl e | Inr x \<Rightarrow> f x)"

lemma bindE_simps [simp]:
  "bindE (Inl e) f = Inl e"
  "bindE (Inr x) f = f x"
  by (simp_all add: bindE_def)

lemma bindE_cong [fundef_cong]:
  "m = m' \<Longrightarrow> (\<And>x. m' = Inr x \<Longrightarrow> f x = f' x) \<Longrightarrow> bindE m f = bindE m' f'"
  by (cases m') simp_all

lemma bindE_eq_Inr: "bindE m f = Inr y \<longleftrightarrow> (\<exists>x. m = Inr x \<and> f x = Inr y)"
  by (cases m) simp_all

lemma bindE_eq_Inl: "bindE m f = Inl e \<longleftrightarrow> m = Inl e \<or> (\<exists>x. m = Inr x \<and> f x = Inl e)"
  by (cases m) simp_all

definition assertE :: "bool \<Rightarrow> string \<Rightarrow> unit res" where
  "assertE b msg = (if b then Inr () else Inl (AssertionError msg))"

lemma assertE_simps [simp]:
  "assertE True msg = Inr ()"
  "assertE False msg = Inl (AssertionError msg)"
  by (simp_all add: assertE_def)

lemma assertE_eq_Inr [simp]: "assertE b msg = Inr u \<longleftrightarrow> b"
  by (simp add: assertE_def)

text \<open>A \<^verbatim>\<open>for ... of\<close> loop over a state, stopped by the first error.\<close>

fun foldE :: "('a \<Rightarrow> 's \<Rightarrow> 's res) \<Rightarrow> 'a list \<Rightarrow> 's \<Rightarrow> 's res" where
  "foldE f [] s = Inr s"
| "foldE f (x # xs) s = bindE (f x s) (foldE f xs)"

lemma foldE_append: "foldE f (xs @ ys) s = bindE (foldE f xs s) (foldE f ys)"
proof (induction xs arbitrary: s)
  case (Cons x xs)
  then show ?case by (cases "f x s") simp_all
qed simp

lemma foldE_cong [fundef_cong]:
  assumes "xs = ys" and "s = t" and "\<And>x a. x \<in> set ys \<Longrightarrow> f x a = g x a"
  shows "foldE f xs s = foldE g ys t"
  unfolding assms(1,2) using assms(3)
proof (induction ys arbitrary: t)
  case (Cons y ys)
  then show ?case by (cases "g y t") simp_all
qed simp

text \<open>An invariant kept by every iteration holds at the end of the loop.\<close>

lemma foldE_invariant:
  assumes "foldE f xs s = Inr t" and "I s"
    and "\<And>x a b. x \<in> set xs \<Longrightarrow> I a \<Longrightarrow> f x a = Inr b \<Longrightarrow> I b"
  shows "I t"
  using assms
proof (induction xs arbitrary: s)
  case (Cons x xs)
  then obtain a where a: "f x s = Inr a" and "foldE f xs a = Inr t"
    by (auto simp: bindE_eq_Inr)
  moreover have "I a" using Cons.prems a by auto
  ultimately show ?case using Cons.IH Cons.prems(3) by auto
qed simp

text \<open>A loop whose body never fails on states satisfying the invariant does not fail.\<close>

lemma foldE_total:
  assumes "I s"
    and "\<And>x a. x \<in> set xs \<Longrightarrow> I a \<Longrightarrow> \<exists>b. f x a = Inr b \<and> I b"
  shows "\<exists>t. foldE f xs s = Inr t \<and> I t"
  using assms
proof (induction xs arbitrary: s)
  case (Cons x xs)
  then obtain b where "f x s = Inr b" "I b" by (metis list.set_intros(1))
  moreover have "\<exists>t. foldE f xs b = Inr t \<and> I t"
    by (rule Cons.IH) (use \<open>I b\<close> Cons.prems(2) in auto)
  ultimately show ?case by simp
qed simp

text \<open>A loop that collects values: what it must add and what it may add, added up.\<close>

lemma foldE_collect:
  assumes "\<And>x a. x \<in> set xs \<Longrightarrow> \<exists>b. f x a = Inr b \<and> set a \<union> L x \<subseteq> set b \<and> set b \<subseteq> set a \<union> U x
      \<and> (distinct a \<longrightarrow> distinct b)"
  shows "\<exists>b. foldE f xs a = Inr b \<and> set a \<union> (\<Union>x\<in>set xs. L x) \<subseteq> set b
      \<and> set b \<subseteq> set a \<union> (\<Union>x\<in>set xs. U x) \<and> (distinct a \<longrightarrow> distinct b)"
  using assms
proof (induction xs arbitrary: a)
  case (Cons x xs)
  from Cons.prems [of x a] obtain b where b: "f x a = Inr b" "set a \<union> L x \<subseteq> set b"
      "set b \<subseteq> set a \<union> U x" "distinct a \<longrightarrow> distinct b" by auto
  from Cons.IH [of b] Cons.prems obtain c where "foldE f xs b = Inr c"
      "set b \<union> (\<Union>x\<in>set xs. L x) \<subseteq> set c" "set c \<subseteq> set b \<union> (\<Union>x\<in>set xs. U x)"
      "distinct b \<longrightarrow> distinct c" by auto
  with b show ?case by auto
qed simp

section \<open>Objects, Maps and Sets\<close>

text \<open>
  A \<^verbatim>\<open>Map\<close> is an association list in insertion order: \<open>AList.update\<close> overwrites in place or
  appends, \<open>AList.delete\<close> removes. A plain object is the same list, but its keys are enumerated
  with the array indices first, in ascending order, as \<^verbatim>\<open>Object.keys\<close> and \<^verbatim>\<open>for ... in\<close> do.
  Only own properties are modelled (no prototype chain).
\<close>

type_synonym ('k, 'v) jsmap = "('k \<times> 'v) list"
type_synonym 'v obj = "(string, 'v) jsmap"

abbreviation mget :: "('k, 'v) jsmap \<Rightarrow> 'k \<Rightarrow> 'v option" where
  "mget m k \<equiv> map_of m k"

abbreviation mset_at :: "'k \<Rightarrow> 'v \<Rightarrow> ('k, 'v) jsmap \<Rightarrow> ('k, 'v) jsmap" where
  "mset_at \<equiv> AList.update"

abbreviation mdel :: "'k \<Rightarrow> ('k, 'v) jsmap \<Rightarrow> ('k, 'v) jsmap" where
  "mdel \<equiv> AList.delete"

definition mhas :: "('k, 'v) jsmap \<Rightarrow> 'k \<Rightarrow> bool" where
  "mhas m k = (map_of m k \<noteq> None)"

lemma mhas_iff: "mhas m k \<longleftrightarrow> k \<in> fst ` set m"
  by (simp add: mhas_def map_of_eq_None_iff)

lemma mget_set [simp]: "mget (mset_at k v m) k' = (if k' = k then Some v else mget m k')"
  by (simp add: update_conv')

lemma mget_del [simp]: "mget (mdel k m) k' = (if k' = k then None else mget m k')"
  by (simp add: delete_conv')

lemma keys_del [simp]: "map fst (mdel k m) = filter (\<lambda>k'. k' \<noteq> k) (map fst m)"
  by (induction m) auto

lemma keys_set: "map fst (mset_at k v m) = (if k \<in> fst ` set m then map fst m else map fst m @ [k])"
  by (induction m) auto

lemma mset_at_new: "k \<notin> fst ` set m \<Longrightarrow> mset_at k v m = m @ [(k, v)]"
  by (induction m) auto

lemma values_set_subset: "snd ` set (mset_at k v m) \<subseteq> insert v (snd ` set m)"
  by (induction m) auto

definition digit_char :: "nat \<Rightarrow> char" where
  "digit_char n = char_of (48 + n)"

definition is_digit :: "char \<Rightarrow> bool" where
  "is_digit c = (48 \<le> (of_char c :: nat) \<and> (of_char c :: nat) \<le> 57)"

definition digit_val :: "char \<Rightarrow> nat" where
  "digit_val c = of_char c - 48"

definition parse_nat :: "string \<Rightarrow> nat" where
  "parse_nat s = foldl (\<lambda>a c. 10 * a + digit_val c) 0 s"

text \<open>An array index: a canonical decimal numeral below \<open>2 ^ 32 - 1\<close>.\<close>

definition is_array_index :: "string \<Rightarrow> bool" where
  "is_array_index s = (s \<noteq> [] \<and> list_all is_digit s \<and> (s = ''0'' \<or> hd s \<noteq> CHR ''0'')
     \<and> parse_nat s < 4294967295)"

definition obj_keys :: "'v obj \<Rightarrow> string list" where
  "obj_keys ob = sort_key parse_nat (filter is_array_index (map fst ob))
     @ filter (\<lambda>k. \<not> is_array_index k) (map fst ob)"

lemma set_obj_keys [simp]: "set (obj_keys ob) = fst ` set ob"
  by (auto simp: obj_keys_def)

lemma distinct_obj_keys [simp]: "distinct (map fst ob) \<Longrightarrow> distinct (obj_keys ob)"
  by (auto simp: obj_keys_def)

lemma obj_keys_empty [simp]: "obj_keys [] = []"
  by (simp add: obj_keys_def)

lemma length_obj_keys [simp]: "length (obj_keys ob) = length ob"
proof -
  have "length (filter is_array_index (map fst ob))
      + length (filter (\<lambda>k. \<not> is_array_index k) (map fst ob)) = length ob"
    by (induction ob) auto
  then show ?thesis by (simp add: obj_keys_def)
qed

definition obj_entries :: "'v obj \<Rightarrow> (string \<times> 'v) list" where
  "obj_entries ob = List.map_filter (\<lambda>k. map_option (Pair k) (map_of ob k)) (obj_keys ob)"

definition obj_values :: "'v obj \<Rightarrow> 'v list" where
  "obj_values ob = List.map_filter (map_of ob) (obj_keys ob)"

lemma set_map_filter: "set (List.map_filter f xs) = {y. \<exists>x\<in>set xs. f x = Some y}"
  by (force simp: List.map_filter_def)

lemma set_obj_entries: "set (obj_entries ob) = {(k, v). map_of ob k = Some v}"
proof -
  have "k \<in> fst ` set ob" if "map_of ob k = Some v" for k v
    using map_of_SomeD [OF that] by force
  then show ?thesis by (fastforce simp: obj_entries_def set_map_filter)
qed

lemma set_obj_values: "set (obj_values ob) = ran (map_of ob)"
proof -
  have "k \<in> fst ` set ob" if "map_of ob k = Some v" for k v
    using map_of_SomeD [OF that] by force
  then show ?thesis by (fastforce simp: obj_values_def set_map_filter ran_def)
qed

lemma set_obj_entries_distinct: "distinct (map fst ob) \<Longrightarrow> set (obj_entries ob) = set ob"
  by (auto simp: set_obj_entries dest: map_of_SomeD)

text \<open>\<^verbatim>\<open>Set\<close>: a list without duplicates, in insertion order.\<close>

definition sadd :: "'a \<Rightarrow> 'a list \<Rightarrow> 'a list" where
  "sadd x xs = (if x \<in> set xs then xs else xs @ [x])"

lemma set_sadd [simp]: "set (sadd x xs) = insert x (set xs)"
  by (auto simp: sadd_def)

lemma distinct_sadd [simp]: "distinct xs \<Longrightarrow> distinct (sadd x xs)"
  by (simp add: sadd_def)

definition mk_set :: "'a list \<Rightarrow> 'a list" where
  "mk_set xs = foldl (\<lambda>acc x. sadd x acc) [] xs"

lemma foldl_sadd: "set (foldl (\<lambda>acc x. sadd x acc) ys xs) = set ys \<union> set xs"
  by (induction xs arbitrary: ys) auto

lemma distinct_foldl_sadd: "distinct ys \<Longrightarrow> distinct (foldl (\<lambda>acc x. sadd x acc) ys xs)"
  by (induction xs arbitrary: ys) auto

lemma set_mk_set [simp]: "set (mk_set xs) = set xs"
  by (simp add: mk_set_def foldl_sadd)

lemma distinct_mk_set [simp]: "distinct (mk_set xs)"
  by (simp add: mk_set_def distinct_foldl_sadd)

lemma mk_set_eq_Nil [simp]: "mk_set xs = [] \<longleftrightarrow> xs = []"
  by (metis set_empty set_mk_set)

section \<open>Arrays\<close>

text \<open>
  \<^verbatim>\<open>a[i] = x\<close> beyond the end extends the array with holes; a hole (and an explicit
  \<^verbatim>\<open>null\<close> or \<^verbatim>\<open>undefined\<close>) is \<open>None\<close>.
\<close>

definition arr_get :: "'a list \<Rightarrow> nat \<Rightarrow> 'a option" where
  "arr_get xs i = (if i < length xs then Some (xs ! i) else None)"

definition arr_put :: "nat \<Rightarrow> 'a option \<Rightarrow> 'a option list \<Rightarrow> 'a option list" where
  "arr_put i x xs = (if i < length xs then xs[i := x] else xs @ replicate (i - length xs) None @ [x])"

text \<open>\<^verbatim>\<open>Array.prototype.at\<close>: a negative index counts from the end.\<close>

definition arr_at :: "'a list \<Rightarrow> int \<Rightarrow> 'a option" where
  "arr_at xs i = (let j = (if i < 0 then int (length xs) + i else i)
     in if 0 \<le> j \<and> j < int (length xs) then Some (xs ! nat j) else None)"

lemma arr_get_Some: "arr_get xs i = Some x \<longleftrightarrow> i < length xs \<and> xs ! i = x"
  by (auto simp: arr_get_def)

lemma arr_get_None: "arr_get xs i = None \<longleftrightarrow> length xs \<le> i"
  by (auto simp: arr_get_def)

lemma arr_get_put:
  "arr_get (arr_put i x xs) j =
     (if j = i then Some x else if j < length xs then Some (xs ! j)
      else if j < i then Some None else None)"
  by (auto simp: arr_get_def arr_put_def nth_append nth_Cons' nth_list_update)

lemma length_arr_put: "length (arr_put i x xs) = max (length xs) (Suc i)"
  by (auto simp: arr_put_def)

lemma arr_at_nonneg: "arr_at xs (int i) = arr_get xs i"
  by (simp add: arr_at_def arr_get_def)

lemma arr_at_last: "arr_at xs (- 1) = (if xs = [] then None else Some (last xs))"
  by (cases xs rule: rev_cases) (auto simp: arr_at_def nth_append)

definition index_of :: "'a \<Rightarrow> 'a list \<Rightarrow> nat option" where
  "index_of x xs = (if x \<in> set xs then Some (length (takeWhile (\<lambda>y. y \<noteq> x) xs)) else None)"

fun remove_at :: "nat \<Rightarrow> 'a list \<Rightarrow> 'a list" where
  "remove_at i [] = []"
| "remove_at 0 (x # xs) = xs"
| "remove_at (Suc i) (x # xs) = x # remove_at i xs"

definition enumerate0 :: "'a list \<Rightarrow> (nat \<times> 'a) list" where
  "enumerate0 xs = zip [0..<length xs] xs"

lemma set_enumerate0: "(i, x) \<in> set (enumerate0 xs) \<longleftrightarrow> i < length xs \<and> xs ! i = x"
proof -
  have "(i, x) \<in> set (enumerate0 xs) \<longleftrightarrow> (\<exists>j<length xs. i = [0..<length xs] ! j \<and> x = xs ! j)"
    by (auto simp: enumerate0_def set_zip)
  then show ?thesis by (auto simp: nth_upt)
qed

lemma snd_enumerate0 [simp]: "map snd (enumerate0 xs) = xs"
  by (simp add: enumerate0_def)

text \<open>\<^verbatim>\<open>t.includes(s)\<close> and \<^verbatim>\<open>t.endsWith(s)\<close>\<close>

definition contains :: "string \<Rightarrow> string \<Rightarrow> bool" where
  "contains s t = list_ex (\<lambda>k. take (length s) (drop k t) = s) [0..<Suc (length t)]"

definition ends_with :: "string \<Rightarrow> string \<Rightarrow> bool" where
  "ends_with s t = (length s \<le> length t \<and> drop (length t - length s) t = s)"

section \<open>Numerals in keys\<close>

fun show_nat :: "nat \<Rightarrow> string" where
  "show_nat n = (if n < 10 then [digit_char n] else show_nat (n div 10) @ [digit_char (n mod 10)])"

declare show_nat.simps [simp del]

lemma digit_val_char: "n < 10 \<Longrightarrow> digit_val (digit_char n) = n"
  by (simp add: digit_val_def digit_char_def)

lemma is_digit_char: "n < 10 \<Longrightarrow> is_digit (digit_char n)"
  by (simp add: is_digit_def digit_char_def)

lemma parse_show_nat [simp]: "parse_nat (show_nat n) = n"
proof (induction n rule: show_nat.induct)
  case (1 n)
  show ?case
  proof (cases "n < 10")
    case True
    then show ?thesis by (subst show_nat.simps) (simp add: parse_nat_def digit_val_char)
  next
    case False
    then have "parse_nat (show_nat (n div 10)) = n div 10" using "1.IH" by simp
    with False show ?thesis
      by (subst show_nat.simps) (simp add: parse_nat_def digit_val_char)
  qed
qed

lemma inj_show_nat: "inj show_nat"
  by (metis injI parse_show_nat)

lemma show_nat_eq [simp]: "show_nat m = show_nat n \<longleftrightarrow> m = n"
  by (metis parse_show_nat)

lemma show_nat_digits: "c \<in> set (show_nat n) \<Longrightarrow> is_digit c"
proof (induction n arbitrary: c rule: show_nat.induct)
  case (1 n)
  show ?case
  proof (cases "n < 10")
    case True
    with "1.prems" have "c = digit_char n" by (simp add: show_nat.simps [of n])
    with True show ?thesis by (simp add: is_digit_char)
  next
    case False
    with "1.prems" have "c \<in> set (show_nat (n div 10)) \<or> c = digit_char (n mod 10)"
      by (auto simp: show_nat.simps [of n])
    then show ?thesis using "1.IH" [OF False] by (auto simp: is_digit_char)
  qed
qed

section \<open>Reachability\<close>

lemma rtrancl_closed:
  assumes "(x, y) \<in> R\<^sup>*" and "x \<in> S" and "\<And>a b. a \<in> S \<Longrightarrow> (a, b) \<in> R \<Longrightarrow> b \<in> S"
  shows "y \<in> S"
  using assms by (induction rule: rtrancl_induct) auto

lemma trancl_closed:
  assumes "(x, y) \<in> R\<^sup>+" and "\<And>b. (x, b) \<in> R \<Longrightarrow> b \<in> S"
    and "\<And>a b. a \<in> S \<Longrightarrow> (a, b) \<in> R \<Longrightarrow> b \<in> S"
  shows "y \<in> S"
  using assms by (induction rule: trancl_induct) auto

text \<open>
  A path that avoids leaving \<open>S\<close> and ends elsewhere than \<open>a\<close> can be cut so that it leaves \<open>a\<close> once.
\<close>

definition leaving :: "('a \<times> 'a) set \<Rightarrow> 'a set \<Rightarrow> ('a \<times> 'a) set" where
  "leaving R S = {(x, y) \<in> R. x \<notin> S}"

lemma leaving_last:
  assumes "(a, b) \<in> (leaving R S)\<^sup>*" and "a \<noteq> b"
  shows "a \<notin> S \<and> (\<exists>c. (a, c) \<in> R \<and> (c, b) \<in> (leaving R (insert a S))\<^sup>*)"
proof -
  have "(x, b) \<in> (leaving R (insert a S))\<^sup>* \<or>
      (a \<notin> S \<and> (\<exists>c. (a, c) \<in> R \<and> (c, b) \<in> (leaving R (insert a S))\<^sup>*))"
    if "(x, b) \<in> (leaving R S)\<^sup>*" for x
    using that
  proof (induction rule: converse_rtrancl_induct)
    case (step x y)
    show ?case
    proof (cases "x = a")
      case True
      with step show ?thesis by (auto simp: leaving_def)
    next
      case False
      with step.hyps(1) have "(x, y) \<in> leaving R (insert a S)" by (auto simp: leaving_def)
      with step.IH show ?thesis by (auto intro: converse_rtrancl_into_rtrancl)
    qed
  qed simp
  from this [OF assms(1)] show ?thesis
  proof
    assume "(a, b) \<in> (leaving R (insert a S))\<^sup>*"
    with assms(2) show ?thesis by (auto elim: converse_rtranclE simp: leaving_def)
  qed
qed

lemma leaving_subset: "leaving R S \<subseteq> R"
  by (auto simp: leaving_def)

lemma leaving_empty [simp]: "leaving R {} = R"
  by (simp add: leaving_def)

text \<open>
  The contract of a complete graph search: what it returns is reachable, it holds the successors
  of the start, and it is closed under successors. Any search with this contract returns exactly
  the nodes at the end of a non-empty path.
\<close>

locale closure_search =
  fixes E :: "('a \<times> 'a) set" and result :: "'a \<Rightarrow> 'a set" and dom_ok :: "'a \<Rightarrow> bool"
  assumes sound: "dom_ok x \<Longrightarrow> y \<in> result x \<Longrightarrow> (x, y) \<in> E\<^sup>+"
    and start: "dom_ok x \<Longrightarrow> (x, y) \<in> E \<Longrightarrow> y \<in> result x"
    and closed: "dom_ok x \<Longrightarrow> y \<in> result x \<Longrightarrow> (y, z) \<in> E \<Longrightarrow> z \<in> result x"
begin

lemma result_eq_trancl: "dom_ok x \<Longrightarrow> result x = E\<^sup>+ `` {x}"
  using sound start closed trancl_closed [of x _ E "result x"] by blast

lemma in_own_result_iff_cycle: "dom_ok x \<Longrightarrow> x \<in> result x \<longleftrightarrow> (x, x) \<in> E\<^sup>+"
  by (simp add: result_eq_trancl)

lemma result_trans:
  "dom_ok x \<Longrightarrow> dom_ok y \<Longrightarrow> y \<in> result x \<Longrightarrow> result y \<subseteq> result x"
  by (auto simp: result_eq_trancl intro: trancl_trans)

end

end
