(* ===== verification/N8n_Types.thy ===== *)
theory N8n_Types
  imports N8n_Prelude
begin

text \<open>
  The data the engine works on (\<^verbatim>\<open>packages/workflow/src/interfaces.ts\<close>): nodes, connections,
  items, run data. Objects the code compares with \<open>===\<close> carry their identity as a field
  (\<open>n_ref\<close>), so that equality of records is identity of objects.
\<close>

section \<open>JSON values\<close>

datatype json =
    JNull
  | JUndef
  | JBool bool
  | JNum rat
  | JStr string
  | JArr "json list"
  | JObj "(string \<times> json) list"

text \<open>A value as a condition.\<close>

fun truthy :: "json \<Rightarrow> bool" where
  "truthy JNull = False"
| "truthy JUndef = False"
| "truthy (JBool b) = b"
| "truthy (JNum k) = (k \<noteq> 0)"
| "truthy (JStr s) = (s \<noteq> [])"
| "truthy (JArr vs) = True"
| "truthy (JObj ps) = True"

section \<open>Nodes\<close>

type_synonym conn_type = string

abbreviation Main :: conn_type where "Main \<equiv> ''main''"
abbreviation AiTool :: conn_type where "AiTool \<equiv> ''ai_tool''"

datatype on_error = ContinueErrorOutput | ContinueRegularOutput | StopWorkflow

text \<open>\<^verbatim>\<open>INode\<close>; an optional property is an \<open>option\<close>, \<open>None\<close> for an absent one.\<close>

record inode =
  n_ref :: nat
  n_id :: string
  n_name :: string
  n_type :: string
  n_typeVersion :: rat
  n_position :: "int \<times> int"
  n_disabled :: "bool option"
  n_retryOnFail :: "bool option"
  n_maxTries :: "int option"
  n_waitBetweenTries :: "int option"
  n_alwaysOutputData :: "bool option"
  n_executeOnce :: "bool option"
  n_onError :: "on_error option"
  n_continueOnFail :: "bool option"
  n_parameters :: "json obj"
  n_rewireOutputLogTo :: "conn_type option"
  n_forceCustomOperation :: "(string \<times> string) option"
  n_customTelemetryTags :: "(string option \<times> string) list option"

text \<open>\<^verbatim>\<open>node.disabled\<close> in a condition: \<open>undefined\<close> is falsy.\<close>

definition disabled :: "inode \<Rightarrow> bool" where
  "disabled n = (n_disabled n = Some True)"

section \<open>Connections\<close>

text \<open>
  \<^verbatim>\<open>IConnections\<close>: node name, then connection type, then the index of the output (or input),
  then the list of connections; the list at an index may be \<^verbatim>\<open>null\<close>.
\<close>

record iconn =
  ic_node :: string
  ic_type :: conn_type
  ic_index :: nat

type_synonym node_inputs = "iconn list option list"
type_synonym iconnections = "node_inputs obj obj"

section \<open>Items and run data\<close>

record source_data =
  s_previousNode :: string
  s_previousNodeOutput :: "nat option"
  s_previousNodeRun :: "nat option"

record paired_item =
  p_item :: nat
  p_input :: "nat option"
  p_sourceOverwrite :: "source_data option"

datatype paired = PairedNone | PairedOne paired_item | PairedMany "paired_item list" | PairedIndex nat

text \<open>
  \<^verbatim>\<open>INodeExecutionData\<close>; the properties the engine only passes on (binary data, redaction
  markers, evaluation data) are kept together in \<open>i_rest\<close>.
\<close>

record item =
  i_json :: "json obj"
  i_error :: "string option"
  i_pairedItem :: paired
  i_rest :: "json obj"

text \<open>An item made of a \<^verbatim>\<open>json\<close> object only.\<close>

definition json_item :: "json obj \<Rightarrow> item" where
  "json_item j = \<lparr>i_json = j, i_error = None, i_pairedItem = PairedNone, i_rest = []\<rparr>"

type_synonym items = "item list"

text \<open>\<^verbatim>\<open>ITaskDataConnections\<close>: per connection type, the items of every index (or \<^verbatim>\<open>null\<close>).\<close>

type_synonym task_data_conns = "items option list obj"

datatype exec_status = StSuccess | StError | StWaiting | StRunning | StCanceled | StNew

text \<open>
  \<^verbatim>\<open>ITaskMetadata\<close>: the properties the engine reads or writes; the others are \<open>md_rest\<close>.
  \<open>'act\<close> is the type of the actions an agent node requests.
\<close>

record action =
  a_nodeName :: string
  a_type :: conn_type
  a_input :: "json obj"
  a_id :: string
  a_parentNodeName :: "string option"
  a_itemIndex :: "nat option"

record sub_action =
  sa_action :: action
  sa_nodeName :: string
  sa_runIndex :: nat

record sub_exec_data =
  sd_actions :: "sub_action list"
  sd_metadata :: "json obj"

record metadata =
  md_subNodeExecutionData :: "sub_exec_data option"
  md_preserveSourceOverwrite :: "bool option"
  md_preservedSourceOverwrite :: "source_data option"
  md_nodeWasResumed :: "bool option"
  md_tracing :: "json obj option"
  md_rest :: "json obj"

definition empty_metadata :: metadata where
  "empty_metadata = \<lparr>md_subNodeExecutionData = None, md_preserveSourceOverwrite = None,
     md_preservedSourceOverwrite = None, md_nodeWasResumed = None, md_tracing = None, md_rest = []\<rparr>"

record task_data =
  td_executionIndex :: "nat option"
  td_source :: "source_data option list"
  td_hints :: "json list"
  td_status :: "exec_status option"
  td_data :: "task_data_conns option"
  td_inputOverride :: "task_data_conns option"
  td_error :: "string option"
  td_metadata :: "metadata option"
  td_usedDynamicCredentials :: "bool option"

type_synonym run_data = "task_data list obj"
type_synonym pin_data = "items obj"

text \<open>\<^verbatim>\<open>IExecuteData\<close>: an entry of the node execution stack.\<close>

record exec_data =
  ed_node :: inode
  ed_data :: task_data_conns
  ed_source :: "source_data option list obj option"
  ed_runIndex :: "nat option"
  ed_metadata :: "metadata option"

text \<open>The waiting entries of a node are keyed by run index; integer keys enumerate in ascending order.\<close>

type_synonym waiting = "(nat, task_data_conns) jsmap obj"
type_synonym waiting_source = "(nat, source_data option list obj) jsmap obj"

definition int_keys :: "(nat, 'v) jsmap \<Rightarrow> nat list" where
  "int_keys m = sort (map fst m)"

lemma set_int_keys [simp]: "set (int_keys m) = fst ` set m"
  by (simp add: int_keys_def)

lemma length_int_keys [simp]: "length (int_keys m) = length m"
  by (simp add: int_keys_def)

lemma sorted_int_keys [simp]: "sorted (int_keys m)"
  by (simp add: int_keys_def)

end
