(* ===== verification/Marking_Search.thy ===== *)
theory Marking_Search
  imports N8n_Prelude
begin

text \<open>
  The searches of the engine that share one set of visited things all have the same shape: a loop
  over candidates that skips a marked one, marks the others and searches on from them before it
  goes to the next candidate. The locale states that shape (its two equations and its induction
  rule); a provider is a recursive function of the model. What it marks is proved once, here.
\<close>

locale marking_search =
  fixes key :: "'c \<Rightarrow> 'k"
    and next_of :: "'c \<Rightarrow> 'c list res"
    and loop :: "'c list \<Rightarrow> 'k list \<Rightarrow> 'k list res"
  assumes loop_Nil: "loop [] acc = Inr acc"
    and loop_Cons: "loop (c # cs) acc =
      (if key c \<in> set acc then loop cs acc
       else bindE (next_of c) (\<lambda>ds. bindE (loop ds (acc @ [key c])) (loop cs)))"
    and loop_induct: "\<And>P cs acc. (\<And>acc. P [] acc) \<Longrightarrow>
      (\<And>c cs acc. (key c \<in> set acc \<Longrightarrow> P cs acc) \<Longrightarrow>
        (\<And>ds. key c \<notin> set acc \<Longrightarrow> next_of c = Inr ds \<Longrightarrow> P ds (acc @ [key c])) \<Longrightarrow>
        (\<And>ds acc'. key c \<notin> set acc \<Longrightarrow> next_of c = Inr ds \<Longrightarrow>
           loop ds (acc @ [key c]) = Inr acc' \<Longrightarrow> P cs acc') \<Longrightarrow> P (c # cs) acc) \<Longrightarrow> P cs acc"
    and next_key: "key c = key d \<Longrightarrow> next_of c = next_of d"
begin

definition step :: "('c \<times> 'c) set" where
  "step = {(c, d). \<exists>ds. next_of c = Inr ds \<and> d \<in> set ds}"

lemma loop_extends: "loop cs acc = Inr r \<Longrightarrow> set acc \<union> key ` set cs \<subseteq> set r"
proof (induction cs acc arbitrary: r rule: loop_induct)
  case (2 c cs acc)
  show ?case
  proof (cases "key c \<in> set acc")
    case True
    with 2 show ?thesis by (fastforce simp: loop_Cons)
  next
    case False
    with "2.prems" obtain ds acc' where n: "next_of c = Inr ds"
      and l: "loop ds (acc @ [key c]) = Inr acc'" and r: "loop cs acc' = Inr r"
      by (auto simp: loop_Cons bindE_eq_Inr)
    from "2.IH"(2) [OF False n l] "2.IH"(3) [OF False n l r] show ?thesis by auto
  qed
qed (simp add: loop_Nil)

lemma loop_distinct: "loop cs acc = Inr r \<Longrightarrow> distinct acc \<Longrightarrow> distinct r"
proof (induction cs acc arbitrary: r rule: loop_induct)
  case (2 c cs acc)
  show ?case
  proof (cases "key c \<in> set acc")
    case True
    with 2 show ?thesis by (simp add: loop_Cons)
  next
    case False
    with "2.prems" obtain ds acc' where n: "next_of c = Inr ds"
      and l: "loop ds (acc @ [key c]) = Inr acc'" and r: "loop cs acc' = Inr r"
      by (auto simp: loop_Cons bindE_eq_Inr)
    have "distinct (acc @ [key c])" using "2.prems" False by simp
    with "2.IH"(2) [OF False n l] have "distinct acc'" by simp
    with "2.IH"(3) [OF False n l r] show ?thesis by simp
  qed
qed (simp add: loop_Nil)

lemma loop_sound:
  "loop cs acc = Inr r \<Longrightarrow> k \<in> set r \<Longrightarrow> k \<in> set acc \<or> (\<exists>c\<in>set cs. \<exists>d. (c, d) \<in> step\<^sup>* \<and> key d = k)"
proof (induction cs acc arbitrary: r rule: loop_induct)
  case (2 c cs acc)
  show ?case
  proof (cases "key c \<in> set acc")
    case True
    with 2 show ?thesis by (fastforce simp: loop_Cons)
  next
    case False
    with "2.prems" obtain ds acc' where n: "next_of c = Inr ds"
      and l: "loop ds (acc @ [key c]) = Inr acc'" and r: "loop cs acc' = Inr r"
      by (auto simp: loop_Cons bindE_eq_Inr)
    from "2.IH"(3) [OF False n l r "2.prems"(2)] consider
        "k \<in> set acc'" | "\<exists>e\<in>set cs. \<exists>d. (e, d) \<in> step\<^sup>* \<and> key d = k" by blast
    then show ?thesis
    proof cases
      case 1
      from "2.IH"(2) [OF False n l 1] consider "k \<in> set acc" | "k = key c"
        | e d where "e \<in> set ds" "(e, d) \<in> step\<^sup>*" "key d = k" by auto
      then show ?thesis
      proof cases
        case 3
        then have "(c, d) \<in> step\<^sup>*"
          using n by (auto simp: step_def intro: converse_rtrancl_into_rtrancl)
        with 3 show ?thesis by auto
      qed auto
    qed auto
  qed
qed (simp add: loop_Nil)

text \<open>Every key marked by the search had its successors marked as well.\<close>

lemma loop_closed:
  "loop cs acc = Inr r \<Longrightarrow> key c \<in> set r \<Longrightarrow> key c \<in> set acc \<or>
     (\<exists>ds. next_of c = Inr ds \<and> key ` set ds \<subseteq> set r)"
proof (induction cs acc arbitrary: r rule: loop_induct)
  case (2 e cs acc)
  show ?case
  proof (cases "key e \<in> set acc")
    case True
    with 2 show ?thesis by (auto simp: loop_Cons)
  next
    case False
    with "2.prems" obtain ds acc' where n: "next_of e = Inr ds"
      and l: "loop ds (acc @ [key e]) = Inr acc'" and r: "loop cs acc' = Inr r"
      by (auto simp: loop_Cons bindE_eq_Inr)
    have sub: "set acc' \<subseteq> set r" using loop_extends [OF r] by simp
    have ds: "key ` set ds \<subseteq> set acc'" using loop_extends [OF l] by simp
    from "2.IH"(3) [OF False n l r "2.prems"(2)] consider
        "key c \<in> set acc'" | "\<exists>ds. next_of c = Inr ds \<and> key ` set ds \<subseteq> set r" by blast
    then show ?thesis
    proof cases
      case 1
      from "2.IH"(2) [OF False n l 1] consider "key c \<in> set acc" | "key c = key e"
        | "\<exists>ds. next_of c = Inr ds \<and> key ` set ds \<subseteq> set acc'" by auto
      then show ?thesis
      proof cases
        case 2
        with n next_key [of c e] have "next_of c = Inr ds" by simp
        with ds sub show ?thesis by blast
      qed (use sub in blast)+
    qed simp
  qed
qed (simp add: loop_Nil)

lemma loop_complete:
  assumes "loop cs [] = Inr r" and "c \<in> set cs" and "(c, d) \<in> step\<^sup>*"
  shows "key d \<in> set r"
  using assms(3)
proof (induction rule: rtrancl_induct)
  case base
  with assms show ?case using loop_extends by blast
next
  case (step d e)
  from loop_closed [OF assms(1) step.IH] step.hyps(2) show ?case
    by (auto simp: step_def)
qed

lemma loop_result:
  "loop cs [] = Inr r \<Longrightarrow> set r = {key d |d. \<exists>c\<in>set cs. (c, d) \<in> step\<^sup>*}"
  using loop_sound [of cs "[]" r] loop_complete [of cs r] by fastforce

lemma loop_total:
  assumes "\<And>c. c \<in> S \<Longrightarrow> \<exists>ds. next_of c = Inr ds \<and> set ds \<subseteq> S" and "set cs \<subseteq> S"
  shows "\<exists>r. loop cs acc = Inr r"
  using assms(2)
proof (induction cs acc rule: loop_induct)
  case (2 c cs acc)
  show ?case
  proof (cases "key c \<in> set acc")
    case True
    with 2 show ?thesis by (simp add: loop_Cons)
  next
    case False
    from "2.prems" assms(1) [of c] obtain ds where n: "next_of c = Inr ds" and "set ds \<subseteq> S"
      by auto
    with "2.IH"(2) [OF False n] obtain acc' where l: "loop ds (acc @ [key c]) = Inr acc'" by blast
    with "2.IH"(3) [OF False n l] "2.prems" n False show ?thesis by (simp add: loop_Cons)
  qed
qed (simp add: loop_Nil)

end

end
