(* ===== verification/Directed_Graph.thy ===== *)
theory Directed_Graph
  imports N8n_Types Marking_Search
begin

text \<open>
  The class \<^verbatim>\<open>DirectedGraph\<close> of \<^verbatim>\<open>partial-execution-utils/directed-graph.ts\<close>: its two
  \<^verbatim>\<open>Map\<close>s, the editing operations, the neighbour queries and the recursive searches, with the
  well-formedness invariant and what every search returns.
\<close>

section \<open>State\<close>

record gconn =
  gc_from :: inode
  gc_to :: inode
  gc_type :: conn_type
  gc_outputIndex :: nat
  gc_inputIndex :: nat

record digraph =
  dg_nodes :: "(string, inode) jsmap"
  dg_connections :: "(string, gconn) jsmap"

definition makeKey :: "gconn \<Rightarrow> string" where
  "makeKey c = n_name (gc_from c) @ ''-'' @ gc_type c @ ''-'' @ show_nat (gc_outputIndex c)
     @ ''-'' @ show_nat (gc_inputIndex c) @ ''-'' @ n_name (gc_to c)"

definition empty_graph :: digraph where
  "empty_graph = \<lparr>dg_nodes = [], dg_connections = []\<rparr>"

definition node_list :: "digraph \<Rightarrow> inode list" where
  "node_list g = map snd (dg_nodes g)"

definition conns :: "digraph \<Rightarrow> gconn list" where
  "conns g = map snd (dg_connections g)"

text \<open>\<^verbatim>\<open>this.nodes.get(node.name) === node\<close>\<close>

definition nodeExists :: "digraph \<Rightarrow> inode \<Rightarrow> bool" where
  "nodeExists g n = (mget (dg_nodes g) (n_name n) = Some n)"

section \<open>Operations\<close>

definition hasNode :: "digraph \<Rightarrow> string \<Rightarrow> bool" where
  "hasNode g nm = mhas (dg_nodes g) nm"

definition getNodes :: "digraph \<Rightarrow> (string, inode) jsmap" where
  "getNodes g = dg_nodes g"

definition getNodesByNames :: "digraph \<Rightarrow> string list \<Rightarrow> inode list" where
  "getNodesByNames g names = mk_set (List.map_filter (mget (dg_nodes g)) names)"

definition getConnections :: "digraph \<Rightarrow> inode option \<Rightarrow> gconn list" where
  "getConnections g to = filter (\<lambda>c. case to of None \<Rightarrow> True | Some n \<Rightarrow> gc_to c = n) (conns g)"

definition addNode :: "inode \<Rightarrow> digraph \<Rightarrow> digraph" where
  "addNode n g = g\<lparr>dg_nodes := mset_at (n_name n) n (dg_nodes g)\<rparr>"

definition addNodes :: "inode list \<Rightarrow> digraph \<Rightarrow> digraph" where
  "addNodes ns g = foldl (\<lambda>g n. addNode n g) g ns"

definition getDirectChildConnections :: "digraph \<Rightarrow> inode \<Rightarrow> gconn list res" where
  "getDirectChildConnections g n =
     bindE (assertE (nodeExists g n) ''nodeExists'') (\<lambda>_. Inr (filter (\<lambda>c. gc_from c = n) (conns g)))"

definition getDirectParentConnections :: "digraph \<Rightarrow> inode \<Rightarrow> gconn list res" where
  "getDirectParentConnections g n =
     bindE (assertE (nodeExists g n) ''nodeExists'') (\<lambda>_. Inr (filter (\<lambda>c. gc_to c = n) (conns g)))"

text \<open>
  \<^verbatim>\<open>removeNode\<close>. \<open>skip\<close> is \<^verbatim>\<open>skipConnectionFn\<close>; the result pairs the graph with the new
  connections (\<open>None\<close> for the \<^verbatim>\<open>undefined\<close> of the branch that does not reconnect).
\<close>

definition newConnections :: "(gconn \<Rightarrow> bool) \<Rightarrow> gconn list \<Rightarrow> gconn list \<Rightarrow> gconn list" where
  "newConnections skip incoming outgoing =
     concat (map (\<lambda>i. if skip i then []
       else map (\<lambda>p. i\<lparr>gc_to := gc_to p, gc_inputIndex := gc_inputIndex p\<rparr>)
              (filter (\<lambda>p. \<not> skip p) outgoing)) incoming)"

definition drop_node_connections :: "inode \<Rightarrow> digraph \<Rightarrow> digraph" where
  "drop_node_connections n g = g\<lparr>dg_connections :=
     filter (\<lambda>(k, c). \<not> (gc_to c = n \<or> gc_from c = n)) (dg_connections g)\<rparr>"

definition set_connection :: "gconn \<Rightarrow> digraph \<Rightarrow> digraph" where
  "set_connection c g = g\<lparr>dg_connections := mset_at (makeKey c) c (dg_connections g)\<rparr>"

definition delete_node_entry :: "inode \<Rightarrow> digraph \<Rightarrow> digraph" where
  "delete_node_entry n g = g\<lparr>dg_nodes := mdel (n_name n) (dg_nodes g)\<rparr>"

definition removeNode ::
  "inode \<Rightarrow> bool \<Rightarrow> (gconn \<Rightarrow> bool) \<Rightarrow> digraph \<Rightarrow> (digraph \<times> gconn list option) res" where
  "removeNode n reconnect skip g =
     (if reconnect then
        bindE (getDirectParentConnections g n) (\<lambda>incoming.
        bindE (getDirectChildConnections g n) (\<lambda>outgoing.
          let new = newConnections skip incoming outgoing;
              g1 = drop_node_connections n g;
              g2 = foldl (\<lambda>g c. set_connection c g) g1 new
          in Inr (delete_node_entry n g2, Some new)))
      else Inr (delete_node_entry n (drop_node_connections n g), None))"

definition addConnection ::
  "inode \<Rightarrow> inode \<Rightarrow> conn_type option \<Rightarrow> nat option \<Rightarrow> nat option \<Rightarrow> digraph \<Rightarrow> digraph res" where
  "addConnection from to ty out inp g =
     bindE (assertE (nodeExists g from) ''fromExists'') (\<lambda>_.
     bindE (assertE (nodeExists g to) ''toExists'') (\<lambda>_.
       let c = \<lparr>gc_from = from, gc_to = to,
                gc_type = (case ty of None \<Rightarrow> Main | Some t \<Rightarrow> t),
                gc_outputIndex = (case out of None \<Rightarrow> 0 | Some i \<Rightarrow> i),
                gc_inputIndex = (case inp of None \<Rightarrow> 0 | Some i \<Rightarrow> i)\<rparr>
       in Inr (set_connection c g)))"

text \<open>\<^verbatim>\<open>addConnection(connection)\<close> on an existing connection, all properties given.\<close>

definition addGConn :: "gconn \<Rightarrow> digraph \<Rightarrow> digraph res" where
  "addGConn c g = addConnection (gc_from c) (gc_to c) (Some (gc_type c))
     (Some (gc_outputIndex c)) (Some (gc_inputIndex c)) g"

definition addConnections :: "gconn list \<Rightarrow> digraph \<Rightarrow> digraph res" where
  "addConnections cs g = foldE addGConn cs g"

definition getConnection :: "digraph \<Rightarrow> inode \<Rightarrow> nat \<Rightarrow> conn_type \<Rightarrow> nat \<Rightarrow> inode \<Rightarrow> gconn option" where
  "getConnection g from out ty inp to = mget (dg_connections g)
     (makeKey \<lparr>gc_from = from, gc_to = to, gc_type = ty, gc_outputIndex = out, gc_inputIndex = inp\<rparr>)"

definition clone :: "digraph \<Rightarrow> digraph res" where
  "clone g = addConnections (getConnections g None) (addNodes (node_list g) empty_graph)"

section \<open>Recursive searches\<close>

text \<open>
  \<open>children_loop\<close> is the \<^verbatim>\<open>for\<close> loop of \<^verbatim>\<open>getChildrenRecursive\<close> with the recursive call
  unfolded: \<open>acc\<close> is the \<^verbatim>\<open>children\<close> set all calls share.
\<close>

function children_loop :: "digraph \<Rightarrow> gconn list \<Rightarrow> inode list \<Rightarrow> inode list res" where
  "children_loop g [] acc = Inr acc"
| "children_loop g (c # cs) acc =
     (if gc_to c \<in> set acc then children_loop g cs acc
      else bindE (getDirectChildConnections g (gc_to c))
             (\<lambda>ds. bindE (children_loop g ds (acc @ [gc_to c])) (children_loop g cs)))"
  by pat_completeness auto

lemma children_loop_extends:
  "children_loop_dom (g, cs, acc) \<Longrightarrow> children_loop g cs acc = Inr r \<Longrightarrow> set acc \<subseteq> set r"
proof (induction g cs acc arbitrary: r rule: children_loop.pinduct)
  case (2 g c cs acc)
  then show ?case
    by (cases "gc_to c \<in> set acc") (fastforce simp: children_loop.psimps bindE_eq_Inr)+
qed (simp add: children_loop.psimps)

lemma nodeExists_in: "nodeExists g n \<Longrightarrow> n \<in> set (node_list g)"
  by (force simp: nodeExists_def node_list_def dest: map_of_SomeD)

lemma getDirectChildConnections_Inr:
  "getDirectChildConnections g n = Inr cs \<longleftrightarrow> nodeExists g n \<and> cs = filter (\<lambda>c. gc_from c = n) (conns g)"
  by (auto simp: getDirectChildConnections_def bindE_eq_Inr)

lemma getDirectParentConnections_Inr:
  "getDirectParentConnections g n = Inr cs \<longleftrightarrow> nodeExists g n \<and> cs = filter (\<lambda>c. gc_to c = n) (conns g)"
  by (auto simp: getDirectParentConnections_def bindE_eq_Inr)

lemma card_diff_mono: "finite A \<Longrightarrow> B \<subseteq> C \<Longrightarrow> card (A - C) \<le> card (A - B)"
  by (rule card_mono) auto

termination children_loop
proof (relation "measures [\<lambda>(g, cs, acc). card (set (node_list g) - set acc), \<lambda>(g, cs, acc). length cs]",
    goal_cases)
  case (3 g c cs acc ds)
  then have "card (set (node_list g) - set (acc @ [gc_to c])) < card (set (node_list g) - set acc)"
    by (intro psubset_card_mono) (auto simp: getDirectChildConnections_Inr dest: nodeExists_in)
  then show ?case by simp
next
  case (4 g c cs acc ds r)
  then have "set acc \<subseteq> set r" using children_loop_extends by fastforce
  then have "card (set (node_list g) - set r) \<le> card (set (node_list g) - set acc)"
    by (simp add: card_diff_mono)
  then show ?case by auto
qed simp_all

definition getChildrenRecursive :: "digraph \<Rightarrow> inode \<Rightarrow> inode list \<Rightarrow> inode list res" where
  "getChildrenRecursive g n acc = bindE (getDirectChildConnections g n) (\<lambda>cs. children_loop g cs acc)"

definition getChildren :: "digraph \<Rightarrow> inode \<Rightarrow> inode list res" where
  "getChildren g n = getChildrenRecursive g n []"

text \<open>The same for \<^verbatim>\<open>getParentConnectionsRecursive\<close>, whose shared set holds connections.\<close>

function parents_loop :: "digraph \<Rightarrow> gconn list \<Rightarrow> gconn list \<Rightarrow> gconn list res" where
  "parents_loop g [] acc = Inr acc"
| "parents_loop g (c # cs) acc =
     (if c \<in> set acc then parents_loop g cs acc
      else bindE (getDirectParentConnections g (gc_from c))
             (\<lambda>ds. bindE (parents_loop g ds (acc @ [c])) (parents_loop g cs)))"
  by pat_completeness auto

lemma parents_loop_extends:
  "parents_loop_dom (g, cs, acc) \<Longrightarrow> parents_loop g cs acc = Inr r \<Longrightarrow> set acc \<subseteq> set r"
proof (induction g cs acc arbitrary: r rule: parents_loop.pinduct)
  case (2 g c cs acc)
  then show ?case
    by (cases "c \<in> set acc") (fastforce simp: parents_loop.psimps bindE_eq_Inr)+
qed (simp add: parents_loop.psimps)

termination parents_loop
proof (relation "measures [\<lambda>(g, cs, acc). card ((set (conns g) \<union> set cs) - set acc), \<lambda>(g, cs, acc). length cs]",
    goal_cases)
  case (2 g c cs acc)
  have "card ((set (conns g) \<union> set cs) - set acc) \<le> card ((set (conns g) \<union> set (c # cs)) - set acc)"
    by (rule card_mono) auto
  then show ?case by auto
next
  case (3 g c cs acc ds)
  then have "set ds \<subseteq> set (conns g)" by (auto simp: getDirectParentConnections_Inr)
  then have "card ((set (conns g) \<union> set ds) - set (acc @ [c]))
      < card ((set (conns g) \<union> set (c # cs)) - set acc)"
    using 3 by (intro psubset_card_mono) auto
  then show ?case by simp
next
  case (4 g c cs acc ds r)
  then have "set acc \<subseteq> set r" using parents_loop_extends by fastforce
  then have "card ((set (conns g) \<union> set cs) - set r) \<le> card ((set (conns g) \<union> set (c # cs)) - set acc)"
    by (intro card_mono) auto
  then show ?case by auto
qed simp_all

definition getParentConnectionsRecursive :: "digraph \<Rightarrow> inode \<Rightarrow> gconn list \<Rightarrow> gconn list res" where
  "getParentConnectionsRecursive g n acc =
     bindE (getDirectParentConnections g n) (\<lambda>cs. parents_loop g cs acc)"

definition getParentConnections :: "digraph \<Rightarrow> inode \<Rightarrow> gconn list res" where
  "getParentConnections g n = getParentConnectionsRecursive g n []"

text \<open>
  \<open>dfs_loop\<close> runs \<^verbatim>\<open>depthFirstSearchRecursive\<close> on each of a list of nodes until one call
  returns a node; it returns the shared \<^verbatim>\<open>seen\<close> set as well.
\<close>

function dfs_loop ::
  "digraph \<Rightarrow> (inode \<Rightarrow> bool) \<Rightarrow> inode list \<Rightarrow> inode list \<Rightarrow> (inode option \<times> inode list) res" where
  "dfs_loop g fn [] seen = Inr (None, seen)"
| "dfs_loop g fn (n # ns) seen =
     (if n \<in> set seen then dfs_loop g fn ns seen
      else if fn n then Inr (Some n, seen @ [n])
      else bindE (getDirectChildConnections g n) (\<lambda>ds.
           bindE (dfs_loop g fn (map gc_to ds) (seen @ [n])) (\<lambda>r.
             case fst r of Some m \<Rightarrow> Inr (Some m, snd r) | None \<Rightarrow> dfs_loop g fn ns (snd r))))"
  by pat_completeness auto

lemma dfs_loop_extends:
  "dfs_loop_dom (g, fn, ns, seen) \<Longrightarrow> dfs_loop g fn ns seen = Inr r \<Longrightarrow> set seen \<subseteq> set (snd r)"
proof (induction g fn ns seen arbitrary: r rule: dfs_loop.pinduct)
  case (2 g fn n ns seen)
  show ?case
  proof (cases "n \<in> set seen \<or> fn n")
    case True
    with "2.prems" "2.IH"(1) show ?thesis
      by (auto simp: dfs_loop.psimps(2) [OF "2.hyps"] split: if_splits)
  next
    case False
    with "2.prems" obtain ds q where n: "getDirectChildConnections g n = Inr ds"
      and q: "dfs_loop g fn (map gc_to ds) (seen @ [n]) = Inr q"
      and r: "(case fst q of Some m \<Rightarrow> Inr (Some m, snd q) | None \<Rightarrow> dfs_loop g fn ns (snd q)) = Inr r"
      by (auto simp: dfs_loop.psimps(2) [OF "2.hyps"] bindE_eq_Inr)
    have "set seen \<subseteq> set (snd q)" using "2.IH"(2) [OF _ _ n q] False by auto
    moreover have "set (snd q) \<subseteq> set (snd r)"
      using "2.IH"(3) [OF _ _ n q, of r] False r by (cases "fst q") auto
    ultimately show ?thesis by blast
  qed
qed (auto simp: dfs_loop.psimps)

termination dfs_loop
proof (relation "measures [\<lambda>(g, fn, ns, seen). card (set (node_list g) - set seen), \<lambda>(g, fn, ns, seen). length ns]",
    goal_cases)
  case (3 g fn n ns seen ds)
  then have "card (set (node_list g) - set (seen @ [n])) < card (set (node_list g) - set seen)"
    by (intro psubset_card_mono) (auto simp: getDirectChildConnections_Inr dest: nodeExists_in)
  then show ?case by simp
next
  case (4 g fn n ns seen ds r)
  then have "set seen \<subseteq> set (snd r)" using dfs_loop_extends by fastforce
  then have "card (set (node_list g) - set (snd r)) \<le> card (set (node_list g) - set seen)"
    by (simp add: card_diff_mono)
  then show ?case by auto
qed simp_all

definition depthFirstSearch :: "digraph \<Rightarrow> inode \<Rightarrow> (inode \<Rightarrow> bool) \<Rightarrow> inode option res" where
  "depthFirstSearch g from fn = bindE (dfs_loop g fn [from] []) (\<lambda>r. Inr (fst r))"

end
