(* ===== verification/Graph_Search.thy ===== *)
theory Graph_Search
  imports Directed_Graph
begin

text \<open>
  The invariant of \<^verbatim>\<open>DirectedGraph\<close> and what its queries compute: every editing operation
  keeps the invariant, and the recursive searches return the reachable nodes or connections.
\<close>

section \<open>The invariant\<close>

text \<open>
  Both maps have one entry per key, a node is stored under its name, a connection under its key,
  and both ends of a connection are nodes of the graph (the same objects).
\<close>

definition wf_graph :: "digraph \<Rightarrow> bool" where
  "wf_graph g \<longleftrightarrow> distinct (map fst (dg_nodes g)) \<and> distinct (map fst (dg_connections g)) \<and>
     (\<forall>(k, n) \<in> set (dg_nodes g). k = n_name n) \<and>
     (\<forall>(k, c) \<in> set (dg_connections g). k = makeKey c \<and> nodeExists g (gc_from c) \<and> nodeExists g (gc_to c))"

definition edges :: "digraph \<Rightarrow> (inode \<times> inode) set" where
  "edges g = {(gc_from c, gc_to c) |c. c \<in> set (conns g)}"

text \<open>The invariant read through lookups, the form the proofs use.\<close>

lemma wf_graph_lookup:
  "wf_graph g \<longleftrightarrow> distinct (map fst (dg_nodes g)) \<and> distinct (map fst (dg_connections g)) \<and>
     (\<forall>k n. mget (dg_nodes g) k = Some n \<longrightarrow> n_name n = k) \<and>
     (\<forall>k c. mget (dg_connections g) k = Some c \<longrightarrow>
        makeKey c = k \<and> nodeExists g (gc_from c) \<and> nodeExists g (gc_to c))"
  unfolding wf_graph_def by (intro conj_cong refl) (simp_all add: Ball_def eq_commute)

lemma wf_graphI:
  assumes "distinct (map fst (dg_nodes g))" and "distinct (map fst (dg_connections g))"
    and "\<And>k n. mget (dg_nodes g) k = Some n \<Longrightarrow> n_name n = k"
    and "\<And>k c. mget (dg_connections g) k = Some c \<Longrightarrow>
           makeKey c = k \<and> nodeExists g (gc_from c) \<and> nodeExists g (gc_to c)"
  shows "wf_graph g"
  using assms by (simp add: wf_graph_lookup)

lemma wf_graphD:
  assumes "wf_graph g"
  shows "distinct (map fst (dg_nodes g))" and "distinct (map fst (dg_connections g))"
    and "mget (dg_nodes g) k = Some n \<Longrightarrow> n_name n = k"
    and "mget (dg_connections g) k' = Some c \<Longrightarrow> makeKey c = k'"
    and "mget (dg_connections g) k' = Some c \<Longrightarrow> nodeExists g (gc_from c)"
    and "mget (dg_connections g) k' = Some c \<Longrightarrow> nodeExists g (gc_to c)"
  using assms by (simp_all add: wf_graph_lookup)

lemma conns_iff: "c \<in> set (conns g) \<longleftrightarrow> (\<exists>k. (k, c) \<in> set (dg_connections g))"
  by (force simp: conns_def)

lemma wf_graph_conn:
  "wf_graph g \<Longrightarrow> c \<in> set (conns g) \<Longrightarrow> nodeExists g (gc_from c) \<and> nodeExists g (gc_to c)"
  by (auto simp: wf_graph_def conns_iff)

lemma wf_graph_edges: "wf_graph g \<Longrightarrow> (a, b) \<in> edges g \<Longrightarrow> nodeExists g a \<and> nodeExists g b"
  using wf_graph_conn by (auto simp: edges_def)

lemma wf_nodeExists_iff: "wf_graph g \<Longrightarrow> nodeExists g n \<longleftrightarrow> n \<in> set (node_list g)"
  by (force simp: wf_graph_def nodeExists_def node_list_def dest: map_of_SomeD)

lemma wf_distinct_nodes: "wf_graph g \<Longrightarrow> distinct (node_list g)"
proof -
  assume wf: "wf_graph g"
  then have "map fst (dg_nodes g) = map n_name (node_list g)"
    by (auto simp: wf_graph_def node_list_def)
  with wf show ?thesis by (metis distinct_map wf_graph_def)
qed

lemma wf_conn_lookup:
  "wf_graph g \<Longrightarrow> c \<in> set (conns g) \<longleftrightarrow> mget (dg_connections g) (makeKey c) = Some c"
  by (force simp: wf_graph_def conns_iff dest: map_of_SomeD)

lemma wf_distinct_conns: "wf_graph g \<Longrightarrow> distinct (conns g)"
proof -
  assume wf: "wf_graph g"
  then have "map fst (dg_connections g) = map makeKey (conns g)"
    by (auto simp: wf_graph_def conns_def)
  with wf show ?thesis by (metis distinct_map wf_graph_def)
qed

lemma rtrancl_nodeExists:
  "(a, b) \<in> (edges g)\<^sup>* \<Longrightarrow> wf_graph g \<Longrightarrow> nodeExists g a \<Longrightarrow> nodeExists g b"
  by (induction rule: rtrancl_induct) (auto dest: wf_graph_edges)

section \<open>Editing keeps the invariant\<close>

lemma wf_empty_graph [simp, wf_intros]: "wf_graph empty_graph"
  by (simp add: wf_graph_def empty_graph_def)

lemma nodeExists_addNode:
  "nodeExists (addNode n g) m \<longleftrightarrow> (if n_name m = n_name n then m = n else nodeExists g m)"
  by (auto simp: nodeExists_def addNode_def)

lemma conns_addNode [simp]: "conns (addNode n g) = conns g"
  by (simp add: conns_def addNode_def)

lemma edges_addNode [simp]: "edges (addNode n g) = edges g"
  by (simp add: edges_def)

text \<open>A node may be added if no other object has its name in the graph.\<close>

definition addable :: "inode \<Rightarrow> digraph \<Rightarrow> bool" where
  "addable n g \<longleftrightarrow> mget (dg_nodes g) (n_name n) = None \<or> nodeExists g n"

lemma wf_addNode [wf_intros]:
  assumes "wf_graph g" and "addable n g"
  shows "wf_graph (addNode n g)"
proof (rule wf_graphI)
  have keep: "nodeExists g m \<Longrightarrow> nodeExists (addNode n g) m" for m
    using assms(2) by (auto simp: addNode_def addable_def nodeExists_def)
  show "makeKey c = k \<and> nodeExists (addNode n g) (gc_from c) \<and> nodeExists (addNode n g) (gc_to c)"
    if "mget (dg_connections (addNode n g)) k = Some c" for k c
    using that wf_graphD(4-6) [OF assms(1)] keep by (auto simp: addNode_def)
  show "n_name m = k" if "mget (dg_nodes (addNode n g)) k = Some m" for k m
    using that wf_graphD(3) [OF assms(1)] by (auto simp: addNode_def split: if_splits)
qed (use wf_graphD(1,2) [OF assms(1)] in \<open>simp_all add: addNode_def distinct_update\<close>)

lemma set_connection_nodes [simp]:
  "dg_nodes (set_connection c g) = dg_nodes g" "nodeExists (set_connection c g) n = nodeExists g n"
  by (simp_all add: set_connection_def nodeExists_def)

lemma set_connection_lookup:
  "mget (dg_connections (set_connection c g)) k = (if k = makeKey c then Some c else mget (dg_connections g) k)"
  by (simp add: set_connection_def)

lemma wf_set_connection [wf_intros]:
  assumes "wf_graph g" and "nodeExists g (gc_from c)" and "nodeExists g (gc_to c)"
  shows "wf_graph (set_connection c g)"
proof (rule wf_graphI)
  show "makeKey d = k \<and> nodeExists (set_connection c g) (gc_from d) \<and> nodeExists (set_connection c g) (gc_to d)"
    if "mget (dg_connections (set_connection c g)) k = Some d" for k d
    using that wf_graphD(4-6) [OF assms(1)] assms(2,3)
    by (auto simp: set_connection_lookup split: if_splits)
qed (use wf_graphD(1-3) [OF assms(1)] in \<open>simp_all add: set_connection_def distinct_update\<close>)

lemma addGConn_Inr:
  "addGConn c g = Inr g' \<longleftrightarrow> nodeExists g (gc_from c) \<and> nodeExists g (gc_to c) \<and> g' = set_connection c g"
  by (cases c) (auto simp: addGConn_def addConnection_def bindE_eq_Inr)

lemma wf_addGConn: "wf_graph g \<Longrightarrow> addGConn c g = Inr g' \<Longrightarrow> wf_graph g'"
  by (auto simp: addGConn_Inr intro: wf_intros)

lemma conns_set_connection_subset: "set (conns (set_connection c g)) \<subseteq> insert c (set (conns g))"
  using values_set_subset by (force simp: conns_def set_connection_def)

lemma in_conns_set_connection [simp]: "c \<in> set (conns (set_connection c g))"
proof -
  have "mget (dg_connections (set_connection c g)) (makeKey c) = Some c"
    by (simp add: set_connection_lookup)
  then show ?thesis by (metis conns_iff map_of_SomeD)
qed

lemma conns_set_connection:
  "wf_graph g \<Longrightarrow> set (conns (set_connection c g)) = insert c {d \<in> set (conns g). makeKey d \<noteq> makeKey c}"
proof -
  assume wf: "wf_graph g"
  have look: "e \<in> set (conns h) \<longleftrightarrow> mget (dg_connections h) (makeKey e) = Some e"
    if "distinct (map fst (dg_connections h))" "\<And>k d. mget (dg_connections h) k = Some d \<Longrightarrow> makeKey d = k"
    for e h using that(1) that(2) [of _ e] by (auto simp: conns_iff)
  have "e \<in> set (conns (set_connection c g))
      \<longleftrightarrow> mget (dg_connections (set_connection c g)) (makeKey e) = Some e" for e
    by (rule look) (use wf_graphD(2,4) [OF wf] in
      \<open>auto simp: set_connection_def distinct_update split: if_splits\<close>)
  moreover have "e \<in> set (conns g) \<longleftrightarrow> mget (dg_connections g) (makeKey e) = Some e" for e
    by (rule look) (use wf_graphD(2,4) [OF wf] in auto)
  ultimately show ?thesis by (auto simp: set_connection_lookup split: if_splits)
qed

lemma wf_removeNode_plain:
  assumes "wf_graph g" and "nodeExists g n"
  shows "wf_graph (delete_node_entry n (drop_node_connections n g))"
proof (rule wf_graphI)
  let ?g = "delete_node_entry n (drop_node_connections n g)"
  have look: "mget (dg_connections ?g) k = Some c \<Longrightarrow> mget (dg_connections g) k = Some c \<and> gc_to c \<noteq> n \<and> gc_from c \<noteq> n"
    for k c using wf_graphD(2) [OF assms(1)]
    by (simp add: delete_node_entry_def drop_node_connections_def distinct_map_filter)
  have keep: "nodeExists ?g m" if "nodeExists g m" and "m \<noteq> n" for m
    using that assms(2) by (auto simp: nodeExists_def delete_node_entry_def drop_node_connections_def)
  show "makeKey c = k \<and> nodeExists ?g (gc_from c) \<and> nodeExists ?g (gc_to c)"
    if "mget (dg_connections ?g) k = Some c" for k c
    using look [OF that] wf_graphD(4-6) [OF assms(1)] keep by blast
  show "n_name m = k" if "mget (dg_nodes ?g) k = Some m" for k m
    using that wf_graphD(3) [OF assms(1)]
    by (simp add: delete_node_entry_def drop_node_connections_def split: if_splits)
qed (use wf_graphD(1,2) [OF assms(1)] in
  \<open>simp_all add: delete_node_entry_def drop_node_connections_def distinct_delete distinct_map_filter\<close>)

section \<open>The searches\<close>

interpretation children: marking_search gc_to "\<lambda>c. getDirectChildConnections g (gc_to c)" "children_loop g"
  for g
proof (unfold_locales, goal_cases)
  case (3 P cs acc)
  have "g' = g \<Longrightarrow> P cs acc" for g'
  proof (induction g' cs acc rule: children_loop.induct)
    case (2 g' c cs acc)
    show ?case by (rule 3(2)) (use 2 in auto)
  qed (use 3(1) in simp)
  then show ?case by simp
qed auto

interpretation parents: marking_search "\<lambda>c. c" "\<lambda>c. getDirectParentConnections g (gc_from c)" "parents_loop g"
  for g
proof (unfold_locales, goal_cases)
  case (3 P cs acc)
  have "g' = g \<Longrightarrow> P cs acc" for g'
  proof (induction g' cs acc rule: parents_loop.induct)
    case (2 g' c cs acc)
    show ?case by (rule 3(2)) (use 2 in auto)
  qed (use 3(1) in simp)
  then show ?case by simp
qed auto

text \<open>Chains of connections, forwards and backwards.\<close>

lemma children_step: "(c, d) \<in> children.step g \<longleftrightarrow> nodeExists g (gc_to c) \<and> d \<in> set (conns g) \<and> gc_from d = gc_to c"
  by (auto simp: children.step_def getDirectChildConnections_Inr)

lemma parents_step: "(c, d) \<in> parents.step g \<longleftrightarrow> nodeExists g (gc_from c) \<and> d \<in> set (conns g) \<and> gc_to d = gc_from c"
  by (auto simp: parents.step_def getDirectParentConnections_Inr)

lemma children_chain_path: "(c, d) \<in> (children.step g)\<^sup>* \<Longrightarrow> (gc_to c, gc_to d) \<in> (edges g)\<^sup>*"
proof (induction rule: rtrancl_induct)
  case (step d e)
  then have "(gc_to d, gc_to e) \<in> edges g" by (force simp: children_step edges_def)
  with step.IH show ?case by simp
qed simp

lemma path_children_chain:
  "(a, b) \<in> (edges g)\<^sup>* \<Longrightarrow> wf_graph g \<Longrightarrow> c \<in> set (conns g) \<Longrightarrow> gc_to c = a \<Longrightarrow>
   \<exists>d. (c, d) \<in> (children.step g)\<^sup>* \<and> d \<in> set (conns g) \<and> gc_to d = b"
proof (induction rule: rtrancl_induct)
  case (step b e)
  then obtain d where d: "(c, d) \<in> (children.step g)\<^sup>*" "d \<in> set (conns g)" "gc_to d = b" by blast
  from step.hyps(2) obtain f where f: "f \<in> set (conns g)" "gc_from f = b" "gc_to f = e"
    by (auto simp: edges_def)
  with d wf_graph_conn [OF step.prems(1) d(2)] have "(d, f) \<in> children.step g" by (simp add: children_step)
  with d(1) have "(c, f) \<in> (children.step g)\<^sup>*" by simp
  with f show ?case by blast
qed blast

lemma getChildren_total:
  assumes "wf_graph g" and "nodeExists g n"
  shows "\<exists>xs. getChildren g n = Inr xs"
proof -
  have "\<exists>r. children_loop g (filter (\<lambda>c. gc_from c = n) (conns g)) [] = Inr r"
    by (rule children.loop_total [where S = "set (conns g)"])
       (use assms wf_graph_conn in \<open>auto simp: getDirectChildConnections_Inr\<close>)
  with assms(2) show ?thesis
    by (simp add: getChildren_def getChildrenRecursive_def getDirectChildConnections_def)
qed

lemma getChildren_loop:
  "getChildren g n = Inr xs \<longleftrightarrow>
   nodeExists g n \<and> children_loop g (filter (\<lambda>c. gc_from c = n) (conns g)) [] = Inr xs"
  by (auto simp: getChildren_def getChildrenRecursive_def bindE_eq_Inr getDirectChildConnections_Inr)

lemma getChildren_distinct: "getChildren g n = Inr xs \<Longrightarrow> distinct xs"
  using children.loop_distinct by (auto simp: getChildren_loop)

lemma getChildren_set:
  assumes "wf_graph g" and "getChildren g n = Inr xs"
  shows "set xs = (edges g)\<^sup>+ `` {n}"
proof -
  from assms(2) have r: "children_loop g (filter (\<lambda>c. gc_from c = n) (conns g)) [] = Inr xs"
    by (simp add: getChildren_loop)
  show ?thesis unfolding children.loop_result [OF r]
  proof (rule set_eqI, rule iffI)
    fix m assume "m \<in> {gc_to d |d. \<exists>c\<in>set (filter (\<lambda>c. gc_from c = n) (conns g)). (c, d) \<in> (children.step g)\<^sup>*}"
    then obtain c d where c: "c \<in> set (conns g)" "gc_from c = n" and "(c, d) \<in> (children.step g)\<^sup>*"
      and "m = gc_to d" by auto
    then have "(gc_to c, m) \<in> (edges g)\<^sup>*" by (simp add: children_chain_path)
    moreover have "(n, gc_to c) \<in> edges g" using c by (auto simp: edges_def)
    ultimately show "m \<in> (edges g)\<^sup>+ `` {n}" by (simp add: rtrancl_into_trancl2)
  next
    fix m assume "m \<in> (edges g)\<^sup>+ `` {n}"
    then obtain b where "(n, b) \<in> edges g" and b: "(b, m) \<in> (edges g)\<^sup>*"
      by (metis Image_singleton_iff tranclD)
    then obtain c where c: "c \<in> set (conns g)" "gc_from c = n" "gc_to c = b" by (auto simp: edges_def)
    with path_children_chain [OF b assms(1) c(1,3)]
    show "m \<in> {gc_to d |d. \<exists>c\<in>set (filter (\<lambda>c. gc_from c = n) (conns g)). (c, d) \<in> (children.step g)\<^sup>*}"
      by auto
  qed
qed

interpretation graph_children: closure_search "edges g"
  "\<lambda>n. case getChildren g n of Inl e \<Rightarrow> {} | Inr xs \<Rightarrow> set xs" "\<lambda>n. wf_graph g \<and> nodeExists g n"
  for g
proof (unfold_locales, goal_cases)
  case (1 x y)
  then show ?case by (auto simp: getChildren_set split: sum.splits)
next
  case (2 x y)
  then show ?case using getChildren_total [of g x] by (auto simp: getChildren_set)
next
  case (3 x y z)
  then show ?case by (auto simp: getChildren_set split: sum.splits)
qed

lemma parents_chain_path: "(c, d) \<in> (parents.step g)\<^sup>* \<Longrightarrow> c \<in> set (conns g) \<Longrightarrow>
   d \<in> set (conns g) \<and> (gc_to d, gc_to c) \<in> (edges g)\<^sup>*"
proof (induction rule: rtrancl_induct)
  case (step d e)
  then have "(gc_to e, gc_to d) \<in> edges g" by (force simp: parents_step edges_def)
  with step show ?case by (auto simp: parents_step intro: converse_rtrancl_into_rtrancl)
qed simp

lemma path_parents_chain:
  "(a, n) \<in> (edges g)\<^sup>* \<Longrightarrow> wf_graph g \<Longrightarrow> d \<in> set (conns g) \<Longrightarrow> gc_to d = a \<Longrightarrow>
   \<exists>c\<in>set (conns g). gc_to c = n \<and> (c, d) \<in> (parents.step g)\<^sup>*"
proof (induction arbitrary: d rule: converse_rtrancl_induct)
  case (step a b)
  then obtain e where e: "e \<in> set (conns g)" "gc_from e = a" "gc_to e = b" by (auto simp: edges_def)
  then obtain c where c: "c \<in> set (conns g)" "gc_to c = n" "(c, e) \<in> (parents.step g)\<^sup>*"
    using step by blast
  have "(e, d) \<in> parents.step g"
    using e step.prems wf_graph_conn [OF step.prems(1) e(1)] by (simp add: parents_step)
  with c(3) have "(c, d) \<in> (parents.step g)\<^sup>*" by simp
  with c(1,2) show ?case by blast
qed auto

lemma getParentConnections_total:
  assumes "wf_graph g" and "nodeExists g n"
  shows "\<exists>cs. getParentConnections g n = Inr cs"
proof -
  have "\<exists>r. parents_loop g (filter (\<lambda>c. gc_to c = n) (conns g)) [] = Inr r"
    by (rule parents.loop_total [where S = "set (conns g)"])
       (use assms wf_graph_conn in \<open>auto simp: getDirectParentConnections_Inr\<close>)
  with assms(2) show ?thesis
    by (simp add: getParentConnections_def getParentConnectionsRecursive_def getDirectParentConnections_def)
qed

lemma getParentConnections_loop:
  "getParentConnections g n = Inr cs \<longleftrightarrow>
   nodeExists g n \<and> parents_loop g (filter (\<lambda>c. gc_to c = n) (conns g)) [] = Inr cs"
  by (auto simp: getParentConnections_def getParentConnectionsRecursive_def bindE_eq_Inr
      getDirectParentConnections_Inr)

lemma getParentConnections_set:
  assumes "wf_graph g" and "getParentConnections g n = Inr cs"
  shows "set cs = {c \<in> set (conns g). (gc_to c, n) \<in> (edges g)\<^sup>*}"
proof -
  from assms(2) have r: "parents_loop g (filter (\<lambda>c. gc_to c = n) (conns g)) [] = Inr cs"
    by (simp add: getParentConnections_loop)
  from parents.loop_result [OF r] show ?thesis
    using parents_chain_path [of _ _ g] path_parents_chain [OF _ assms(1)] by fastforce
qed

section \<open>Depth-first search\<close>

lemma dfs_loop_found:
  "dfs_loop g fn ns seen = Inr r \<Longrightarrow> fst r = Some m \<Longrightarrow> fn m \<and> (\<exists>n\<in>set ns. (n, m) \<in> (edges g)\<^sup>*)"
proof (induction g fn ns seen arbitrary: r rule: dfs_loop.induct)
  case (2 g fn n ns seen)
  show ?case
  proof (cases "n \<in> set seen \<or> fn n")
    case True
    with 2 show ?thesis by (auto split: if_splits)
  next
    case False
    with "2.prems" obtain ds q where n: "getDirectChildConnections g n = Inr ds"
      and q: "dfs_loop g fn (map gc_to ds) (seen @ [n]) = Inr q"
      and r: "(case fst q of Some m \<Rightarrow> Inr (Some m, snd q) | None \<Rightarrow> dfs_loop g fn ns (snd q)) = Inr r"
      by (auto simp: bindE_eq_Inr)
    have e: "(n, gc_to d) \<in> edges g" if "d \<in> set ds" for d
      using n that by (auto simp: getDirectChildConnections_Inr edges_def)
    show ?thesis
    proof (cases "fst q")
      case None
      with "2.IH"(3) [OF _ _ n q None, of r] False r "2.prems" show ?thesis by auto
    next
      case (Some m')
      with r "2.prems"(2) have "m' = m" by auto
      with "2.IH"(2) [OF _ _ n q] False Some e show ?thesis
        by (fastforce intro: converse_rtrancl_into_rtrancl)
    qed
  qed
qed simp

text \<open>
  When the search returns nothing, what it has seen is closed under connections and holds no node
  that satisfies the predicate.
\<close>

lemma dfs_loop_exhausted:
  "dfs_loop g fn ns seen = Inr (None, s) \<Longrightarrow> set seen \<union> set ns \<subseteq> set s \<and>
   (\<forall>x\<in>set s - set seen. \<not> fn x \<and> (\<forall>y. (x, y) \<in> edges g \<longrightarrow> y \<in> set s))"
proof (induction g fn ns seen arbitrary: s rule: dfs_loop.induct)
  case (2 g fn n ns seen)
  show ?case
  proof (cases "n \<in> set seen \<or> fn n")
    case True
    with "2.prems" have n: "n \<in> set seen" and l: "dfs_loop g fn ns seen = Inr (None, s)"
      by (auto split: if_splits)
    from "2.IH"(1) [OF n l] n show ?thesis by auto
  next
    case False
    with "2.prems" obtain ds s1 where n: "getDirectChildConnections g n = Inr ds"
      and q: "dfs_loop g fn (map gc_to ds) (seen @ [n]) = Inr (None, s1)"
      and r: "dfs_loop g fn ns s1 = Inr (None, s)"
      by (auto simp: bindE_eq_Inr split: option.splits)
    have e: "(n, y) \<in> edges g \<longleftrightarrow> y \<in> gc_to ` set ds" for y
      using n by (auto simp: getDirectChildConnections_Inr edges_def)
    have i1: "set (seen @ [n]) \<union> set (map gc_to ds) \<subseteq> set s1 \<and>
        (\<forall>x\<in>set s1 - set (seen @ [n]). \<not> fn x \<and> (\<forall>y. (x, y) \<in> edges g \<longrightarrow> y \<in> set s1))"
      using "2.IH"(2) [OF _ _ n q] False by simp
    have i2: "set s1 \<union> set ns \<subseteq> set s \<and>
        (\<forall>x\<in>set s - set s1. \<not> fn x \<and> (\<forall>y. (x, y) \<in> edges g \<longrightarrow> y \<in> set s))"
      using "2.IH"(3) [OF _ _ n q _ , of s] False r by simp
    have s1: "gc_to ` set ds \<subseteq> set s1" "insert n (set seen) \<subseteq> set s1" and s: "set s1 \<subseteq> set s" "set ns \<subseteq> set s"
      using i1 i2 by simp_all
    have x: "\<not> fn x \<and> (\<forall>y. (x, y) \<in> edges g \<longrightarrow> y \<in> set s)" if xs: "x \<in> set s - set seen" for x
    proof -
      consider "x = n" | "x \<in> set s1 - set (seen @ [n])" | "x \<in> set s - set s1"
        using xs by auto
      then show ?thesis
      proof cases
        case 1
        with False e s1(1) s(1) show ?thesis by blast
      next
        case 2
        with i1 s(1) show ?thesis by blast
      next
        case 3
        with i2 show ?thesis by blast
      qed
    qed
    have "set seen \<union> set (n # ns) \<subseteq> set s" using s1(2) s by auto
    with x show ?thesis by blast
  qed
qed simp

lemma dfs_loop_total:
  "wf_graph g \<Longrightarrow> set ns \<subseteq> set (node_list g) \<Longrightarrow> \<exists>r. dfs_loop g fn ns seen = Inr r"
proof (induction g fn ns seen rule: dfs_loop.induct)
  case (2 g fn n ns seen)
  show ?case
  proof (cases "n \<in> set seen \<or> fn n")
    case True
    with 2 show ?thesis by auto
  next
    case False
    have "nodeExists g n" using "2.prems" by (simp add: wf_nodeExists_iff)
    then obtain ds where n: "getDirectChildConnections g n = Inr ds"
      by (simp add: getDirectChildConnections_def)
    then have "set (map gc_to ds) \<subseteq> set (node_list g)"
      using "2.prems"(1) wf_graph_conn by (auto simp: getDirectChildConnections_Inr wf_nodeExists_iff)
    then obtain q where q: "dfs_loop g fn (map gc_to ds) (seen @ [n]) = Inr q"
      using "2.IH"(2) [OF _ _ n] "2.prems"(1) False by blast
    show ?thesis
    proof (cases "fst q")
      case None
      then show ?thesis using "2.IH"(3) [OF _ _ n q None] "2.prems" False n q by auto
    qed (use False n q in simp)
  qed
qed simp

lemma depthFirstSearch_spec:
  assumes "wf_graph g" and "nodeExists g a"
  shows "case depthFirstSearch g a fn of
      Inl e \<Rightarrow> False
    | Inr None \<Rightarrow> (\<forall>b. (a, b) \<in> (edges g)\<^sup>* \<longrightarrow> \<not> fn b)
    | Inr (Some m) \<Rightarrow> fn m \<and> (a, m) \<in> (edges g)\<^sup>*"
proof -
  obtain r where r: "dfs_loop g fn [a] [] = Inr r"
    using dfs_loop_total [of g "[a]" fn "[]"] assms by (auto simp: wf_nodeExists_iff)
  show ?thesis
  proof (cases "fst r")
    case None
    then obtain s where "r = (None, s)" by (cases r) auto
    with r have "dfs_loop g fn [a] [] = Inr (None, s)" by simp
    from dfs_loop_exhausted [OF this] have a: "a \<in> set s"
      and s: "\<forall>x\<in>set s. \<not> fn x \<and> (\<forall>y. (x, y) \<in> edges g \<longrightarrow> y \<in> set s)" by simp_all
    have "b \<in> set s" if "(a, b) \<in> (edges g)\<^sup>*" for b
      by (rule rtrancl_closed [OF that a]) (use s in blast)
    with s have "\<forall>b. (a, b) \<in> (edges g)\<^sup>* \<longrightarrow> \<not> fn b" by blast
    with r None show ?thesis by (simp add: depthFirstSearch_def)
  next
    case (Some m)
    with dfs_loop_found [OF r Some] r show ?thesis by (simp add: depthFirstSearch_def)
  qed
qed

end
