(* ===== verification/Graph_Edit.thy ===== *)
theory Graph_Edit
  imports Graph_Search
begin

text \<open>
  Editing a \<^verbatim>\<open>DirectedGraph\<close>: the keys of connections, \<^verbatim>\<open>clone\<close>, \<^verbatim>\<open>removeNode\<close> with and
  without reconnection, and \<^verbatim>\<open>filterDisabledNodes\<close> (\<^verbatim>\<open>filter-disabled-nodes.ts\<close>).
\<close>

section \<open>Keys of connections\<close>

definition plain :: "string \<Rightarrow> bool" where
  "plain s = (CHR ''-'' \<notin> set s)"

lemma plain_show_nat [simp]: "plain (show_nat n)"
  using show_nat_digits [of "CHR ''-''" n] by (auto simp: plain_def is_digit_def)

lemma split_at_hyphen:
  "plain xs \<Longrightarrow> plain ys \<Longrightarrow> xs @ CHR ''-'' # r = ys @ CHR ''-'' # s \<longleftrightarrow> xs = ys \<and> r = s"
proof (induction xs arbitrary: ys)
  case Nil
  then show ?case by (cases ys) (auto simp: plain_def)
next
  case (Cons x xs)
  then show ?case by (cases ys) (auto simp: plain_def)
qed

definition plain_conn :: "gconn \<Rightarrow> bool" where
  "plain_conn c = (plain (n_name (gc_from c)) \<and> plain (gc_type c))"

lemma makeKey_inj:
  assumes "plain_conn c" and "plain_conn d" and "makeKey c = makeKey d"
  shows "n_name (gc_from c) = n_name (gc_from d) \<and> gc_type c = gc_type d \<and>
    gc_outputIndex c = gc_outputIndex d \<and> gc_inputIndex c = gc_inputIndex d \<and>
    n_name (gc_to c) = n_name (gc_to d)"
  using assms by (simp add: plain_conn_def makeKey_def split_at_hyphen)

lemma makeKey_same_edge:
  assumes "plain_conn c" and "plain_conn d" and "makeKey c = makeKey d"
    and "nodeExists g (gc_from c)" and "nodeExists g (gc_to c)"
    and "nodeExists g (gc_from d)" and "nodeExists g (gc_to d)"
  shows "c = d"
  using makeKey_inj [OF assms(1-3)] assms(4-) by (cases c; cases d) (auto simp: nodeExists_def)

definition plain_graph :: "digraph \<Rightarrow> bool" where
  "plain_graph g = list_all plain_conn (conns g)"

lemma plain_graph_conn: "plain_graph g \<Longrightarrow> c \<in> set (conns g) \<Longrightarrow> plain_conn c"
  by (simp add: plain_graph_def list_all_iff)

text \<open>Adding a connection to a graph whose keys do not clash adds it and keeps all others.\<close>

lemma conns_set_connection_plain:
  assumes "wf_graph g" "plain_graph g" "plain_conn c" "nodeExists g (gc_from c)" "nodeExists g (gc_to c)"
  shows "set (conns (set_connection c g)) = insert c (set (conns g))"
proof -
  have "d = c" if "d \<in> set (conns g)" "makeKey d = makeKey c" for d
    using that assms wf_graph_conn [OF assms(1) that(1)] plain_graph_conn
    by (intro makeKey_same_edge) auto
  then show ?thesis by (auto simp: conns_set_connection [OF assms(1)])
qed

lemma plain_set_connection:
  assumes "wf_graph g" "plain_graph g" "plain_conn c"
  shows "plain_graph (set_connection c g)"
  using assms conns_set_connection_subset [of c g] by (auto simp: plain_graph_def list_all_iff)

section \<open>Edges by connection type\<close>

definition tedges :: "(conn_type \<Rightarrow> bool) \<Rightarrow> digraph \<Rightarrow> (inode \<times> inode) set" where
  "tedges Q g = {(gc_from c, gc_to c) |c. c \<in> set (conns g) \<and> Q (gc_type c)}"

lemma tedgesI:
  "c \<in> set (conns g) \<Longrightarrow> Q (gc_type c) \<Longrightarrow> gc_from c = a \<Longrightarrow> gc_to c = b \<Longrightarrow> (a, b) \<in> tedges Q g"
  by (auto simp: tedges_def)

abbreviation main_edges :: "digraph \<Rightarrow> (inode \<times> inode) set" where
  "main_edges \<equiv> tedges (\<lambda>t. t = Main)"

lemma edges_tedges: "edges g = tedges (\<lambda>_. True) g"
  by (simp add: edges_def tedges_def)

lemma tedges_subset: "tedges Q g \<subseteq> edges g"
  by (auto simp: edges_def tedges_def)

text \<open>Contracting a vertex without a self loop keeps the paths between the other vertices.\<close>

definition contract :: "'a \<Rightarrow> ('a \<times> 'a) set \<Rightarrow> ('a \<times> 'a) set" where
  "contract n E = {(x, y) \<in> E. x \<noteq> n \<and> y \<noteq> n} \<union> {(x, y). (x, n) \<in> E \<and> (n, y) \<in> E}"

lemma contract_paths:
  assumes "(n, n) \<notin> E" and "a \<noteq> n" and "b \<noteq> n"
  shows "(a, b) \<in> (contract n E)\<^sup>+ \<longleftrightarrow> (a, b) \<in> E\<^sup>+"
proof
  assume "(a, b) \<in> (contract n E)\<^sup>+"
  moreover have "contract n E \<subseteq> E\<^sup>+" by (auto simp: contract_def)
  ultimately show "(a, b) \<in> E\<^sup>+" by (metis trancl_mono trancl_id trans_trancl)
next
  assume "(a, b) \<in> E\<^sup>+"
  then have "if b = n then \<exists>x. (a, x) \<in> (contract n E)\<^sup>* \<and> (x, n) \<in> E \<and> x \<noteq> n
    else (a, b) \<in> (contract n E)\<^sup>+"
  proof (induction rule: trancl_induct)
    case (base y)
    with assms show ?case by (auto simp: contract_def)
  next
    case (step y z)
    show ?case
    proof (cases "y = n")
      case True
      with step obtain x where x: "(a, x) \<in> (contract n E)\<^sup>*" "(x, n) \<in> E" "x \<noteq> n" by auto
      with True step.hyps assms(1) have "z \<noteq> n" "(x, z) \<in> contract n E"
        by (auto simp: contract_def)
      with x show ?thesis by (auto intro: rtrancl_into_trancl1)
    next
      case False
      with step have ay: "(a, y) \<in> (contract n E)\<^sup>+" by simp
      show ?thesis
      proof (cases "z = n")
        case True
        with ay False step.hyps show ?thesis by (auto intro: trancl_into_rtrancl)
      next
        case z: False
        with False step.hyps have "(y, z) \<in> contract n E" by (auto simp: contract_def)
        with ay z show ?thesis by simp
      qed
    qed
  qed
  with assms(3) show "(a, b) \<in> (contract n E)\<^sup>+" by simp
qed

section \<open>Removing a node\<close>

lemma wf_drop_node_connections:
  assumes "wf_graph g"
  shows "wf_graph (drop_node_connections n g)"
proof (rule wf_graphI)
  have look: "mget (dg_connections (drop_node_connections n g)) k = Some c \<Longrightarrow> mget (dg_connections g) k = Some c"
    for k c using wf_graphD(2) [OF assms] by (simp add: drop_node_connections_def distinct_map_filter)
  show "makeKey c = k \<and> nodeExists (drop_node_connections n g) (gc_from c)
      \<and> nodeExists (drop_node_connections n g) (gc_to c)"
    if "mget (dg_connections (drop_node_connections n g)) k = Some c" for k c
    using wf_graphD(4-6) [OF assms look [OF that]] by (simp add: drop_node_connections_def nodeExists_def)
qed (use wf_graphD(1-3) [OF assms] in \<open>simp_all add: drop_node_connections_def distinct_map_filter\<close>)

lemma conns_drop_node_connections:
  "set (conns (drop_node_connections n g)) = {c \<in> set (conns g). gc_from c \<noteq> n \<and> gc_to c \<noteq> n}"
  by (force simp: conns_iff drop_node_connections_def)

lemma nodeExists_drop [simp]: "nodeExists (drop_node_connections n g) m = nodeExists g m"
  by (simp add: nodeExists_def drop_node_connections_def)

lemma conns_delete_node_entry [simp]: "conns (delete_node_entry n g) = conns g"
  by (simp add: conns_def delete_node_entry_def)

lemma wf_delete_node_entry:
  assumes "wf_graph g" and "nodeExists g n" and "\<And>c. c \<in> set (conns g) \<Longrightarrow> gc_from c \<noteq> n \<and> gc_to c \<noteq> n"
  shows "wf_graph (delete_node_entry n g)"
proof (rule wf_graphI)
  have keep: "nodeExists (delete_node_entry n g) m" if "nodeExists g m" and "m \<noteq> n" for m
    using that assms(2) by (auto simp: nodeExists_def delete_node_entry_def)
  show "makeKey c = k \<and> nodeExists (delete_node_entry n g) (gc_from c)
      \<and> nodeExists (delete_node_entry n g) (gc_to c)"
    if "mget (dg_connections (delete_node_entry n g)) k = Some c" for k c
  proof -
    have m: "mget (dg_connections g) k = Some c" using that by (simp add: delete_node_entry_def)
    then have "c \<in> set (conns g)" by (meson conns_iff map_of_SomeD)
    with assms(3) keep wf_graphD(4-6) [OF assms(1) m] show ?thesis by auto
  qed
  show "n_name m = k" if "mget (dg_nodes (delete_node_entry n g)) k = Some m" for k m
    using that wf_graphD(3) [OF assms(1)] by (simp add: delete_node_entry_def split: if_splits)
qed (use wf_graphD(1,2) [OF assms(1)] in \<open>simp_all add: delete_node_entry_def distinct_delete\<close>)

text \<open>Setting a list of connections between nodes of the graph.\<close>

lemma foldl_set_connection:
  assumes "wf_graph g" "plain_graph g"
    and "\<And>c. c \<in> set cs \<Longrightarrow> plain_conn c \<and> nodeExists g (gc_from c) \<and> nodeExists g (gc_to c)"
  shows "wf_graph (foldl (\<lambda>g c. set_connection c g) g cs) \<and> plain_graph (foldl (\<lambda>g c. set_connection c g) g cs)
    \<and> set (conns (foldl (\<lambda>g c. set_connection c g) g cs)) = set cs \<union> set (conns g)
    \<and> dg_nodes (foldl (\<lambda>g c. set_connection c g) g cs) = dg_nodes g"
  using assms
proof (induction cs arbitrary: g)
  case (Cons c cs)
  have "wf_graph (set_connection c g)" "plain_graph (set_connection c g)"
    and cn: "set (conns (set_connection c g)) = insert c (set (conns g))"
    using Cons.prems by (simp_all add: wf_set_connection plain_set_connection conns_set_connection_plain)
  with Cons.IH [of "set_connection c g"] Cons.prems(3) show ?case by simp
qed simp

lemma set_newConnections:
  "set (newConnections skip incoming outgoing) =
     {i\<lparr>gc_to := gc_to p, gc_inputIndex := gc_inputIndex p\<rparr> |i p.
        i \<in> set incoming \<and> \<not> skip i \<and> p \<in> set outgoing \<and> \<not> skip p}"
  by (auto simp: newConnections_def split: if_splits)

abbreviation skip_unless :: "(conn_type \<Rightarrow> bool) \<Rightarrow> gconn \<Rightarrow> bool" where
  "skip_unless Q \<equiv> (\<lambda>c. \<not> Q (gc_type c))"

text \<open>
  \<^verbatim>\<open>removeNode\<close> with reconnection on a node without a self loop: the result is well-formed and
  its connections of the followed types are those of the contracted graph.
\<close>

lemma removeNode_reconnect:
  assumes wf: "wf_graph g" and pl: "plain_graph g" and n: "nodeExists g n"
    and loop: "(n, n) \<notin> tedges Q g"
  shows "\<exists>g' new. removeNode n True (skip_unless Q) g = Inr (g', Some new) \<and> wf_graph g' \<and> plain_graph g'
    \<and> dg_nodes g' = mdel (n_name n) (dg_nodes g) \<and> tedges Q g' = contract n (tedges Q g)"
proof -
  define inc where "inc = filter (\<lambda>c. gc_to c = n) (conns g)"
  define out where "out = filter (\<lambda>c. gc_from c = n) (conns g)"
  define new where "new = newConnections (skip_unless Q) inc out"
  define g1 where "g1 = drop_node_connections n g"
  define g2 where "g2 = foldl (\<lambda>g c. set_connection c g) g1 new"
  have eq: "removeNode n True (skip_unless Q) g = Inr (delete_node_entry n g2, Some new)"
    using n by (simp add: removeNode_def getDirectParentConnections_def getDirectChildConnections_def
        g2_def g1_def new_def inc_def out_def Let_def)
  have newc: "gc_from c \<noteq> n \<and> gc_to c \<noteq> n \<and> Q (gc_type c) \<and> plain_conn c
      \<and> nodeExists g1 (gc_from c) \<and> nodeExists g1 (gc_to c)" if "c \<in> set new" for c
  proof -
    from that obtain i p where ip: "i \<in> set (conns g)" "gc_to i = n" "Q (gc_type i)"
        "p \<in> set (conns g)" "gc_from p = n" "Q (gc_type p)"
      and c: "c = i\<lparr>gc_to := gc_to p, gc_inputIndex := gc_inputIndex p\<rparr>"
      by (auto simp: new_def set_newConnections inc_def out_def)
    have "gc_from i \<noteq> n" "gc_to p \<noteq> n" using loop ip by (auto simp: tedges_def)
    with ip c wf_graph_conn [OF wf] plain_graph_conn [OF pl ip(1)] show ?thesis
      by (auto simp: plain_conn_def g1_def)
  qed
  have wf1: "wf_graph g1" and pl1: "plain_graph g1"
    using wf pl by (auto simp: g1_def wf_drop_node_connections plain_graph_def list_all_iff
        conns_drop_node_connections)
  have g2: "wf_graph g2" "plain_graph g2" "set (conns g2) = set new \<union> set (conns g1)" "dg_nodes g2 = dg_nodes g"
    using foldl_set_connection [OF wf1 pl1, of new] newc
    by (simp_all add: g2_def g1_def drop_node_connections_def)
  have wf3: "wf_graph (delete_node_entry n g2)"
  proof (rule wf_delete_node_entry [OF g2(1)])
    show "nodeExists g2 n" using n g2(4) by (simp add: nodeExists_def)
    show "gc_from c \<noteq> n \<and> gc_to c \<noteq> n" if "c \<in> set (conns g2)" for c
      using that newc by (auto simp: g2(3) g1_def conns_drop_node_connections)
  qed
  have "tedges Q (delete_node_entry n g2) = contract n (tedges Q g)"
  proof (rule set_eqI, clarify)
    fix x y
    have "(x, y) \<in> tedges Q (delete_node_entry n g2) \<longleftrightarrow>
        (\<exists>c\<in>set (conns g1). x = gc_from c \<and> y = gc_to c \<and> Q (gc_type c)) \<or>
        (\<exists>c\<in>set new. x = gc_from c \<and> y = gc_to c)"
      using newc by (auto simp: tedges_def g2(3))
    also have "(\<exists>c\<in>set (conns g1). x = gc_from c \<and> y = gc_to c \<and> Q (gc_type c)) \<longleftrightarrow>
        (x, y) \<in> tedges Q g \<and> x \<noteq> n \<and> y \<noteq> n"
      by (auto simp: g1_def conns_drop_node_connections tedges_def)
    also have "(\<exists>c\<in>set new. x = gc_from c \<and> y = gc_to c) \<longleftrightarrow> (x, n) \<in> tedges Q g \<and> (n, y) \<in> tedges Q g"
      by (force simp: new_def set_newConnections inc_def out_def tedges_def)
    finally show "(x, y) \<in> tedges Q (delete_node_entry n g2) \<longleftrightarrow> (x, y) \<in> contract n (tedges Q g)"
      by (simp add: contract_def)
  qed
  with wf3 g2 eq show ?thesis
    by (auto simp: delete_node_entry_def plain_graph_def conns_def)
qed

lemma removeNode_plain:
  assumes "wf_graph g" and "nodeExists g n"
  shows "\<exists>g'. removeNode n False skip g = Inr (g', None) \<and> wf_graph g'
    \<and> dg_nodes g' = mdel (n_name n) (dg_nodes g)
    \<and> set (conns g') = {c \<in> set (conns g). gc_from c \<noteq> n \<and> gc_to c \<noteq> n}"
  using wf_removeNode_plain [OF assms]
  by (simp add: removeNode_def conns_drop_node_connections)
     (simp add: delete_node_entry_def drop_node_connections_def)

section \<open>Clone\<close>

lemma foldl_addNode:
  "distinct (map n_name ns) \<Longrightarrow> set (map n_name ns) \<inter> fst ` set (dg_nodes g) = {} \<Longrightarrow>
   foldl (\<lambda>g n. addNode n g) g ns = g\<lparr>dg_nodes := dg_nodes g @ map (\<lambda>n. (n_name n, n)) ns\<rparr>"
proof (induction ns arbitrary: g)
  case (Cons n ns)
  then have "mset_at (n_name n) n (dg_nodes g) = dg_nodes g @ [(n_name n, n)]"
    by (auto intro: mset_at_new)
  with Cons show ?case by (simp add: addNode_def)
qed simp

lemma foldE_addGConn:
  "distinct (map makeKey cs) \<Longrightarrow> set (map makeKey cs) \<inter> fst ` set (dg_connections g) = {} \<Longrightarrow>
   (\<And>c. c \<in> set cs \<Longrightarrow> nodeExists g (gc_from c) \<and> nodeExists g (gc_to c)) \<Longrightarrow>
   foldE addGConn cs g = Inr (g\<lparr>dg_connections := dg_connections g @ map (\<lambda>c. (makeKey c, c)) cs\<rparr>)"
proof (induction cs arbitrary: g)
  case (Cons c cs)
  have a: "addGConn c g = Inr (set_connection c g)" using Cons.prems(3) by (simp add: addGConn_Inr)
  have k: "dg_connections (set_connection c g) = dg_connections g @ [(makeKey c, c)]"
    using Cons.prems(2) by (auto simp: set_connection_def intro: mset_at_new)
  have "foldE addGConn cs (set_connection c g) = Inr ((set_connection c g)\<lparr>dg_connections :=
      dg_connections (set_connection c g) @ map (\<lambda>c. (makeKey c, c)) cs\<rparr>)"
    by (rule Cons.IH) (use Cons.prems in \<open>auto simp: k\<close>)
  with a k show ?case by (simp add: set_connection_def)
qed simp

lemma wf_nodes_canonical: "wf_graph g \<Longrightarrow> dg_nodes g = map (\<lambda>n. (n_name n, n)) (node_list g)"
  unfolding wf_graph_def node_list_def map_map by (rule map_idI [symmetric]) auto

lemma wf_connections_canonical:
  "wf_graph g \<Longrightarrow> dg_connections g = map (\<lambda>c. (makeKey c, c)) (conns g)"
  unfolding wf_graph_def conns_def map_map by (rule map_idI [symmetric]) auto

lemma getConnections_None [simp]: "getConnections g None = conns g"
  by (simp add: getConnections_def)

text \<open>A clone has the nodes and connections of the original, in the same order.\<close>

lemma clone_wf:
  assumes "wf_graph g"
  shows "clone g = Inr g"
proof -
  have n: "map n_name (node_list g) = map fst (dg_nodes g)"
    by (subst wf_nodes_canonical [OF assms]) (simp add: comp_def)
  have c: "map makeKey (conns g) = map fst (dg_connections g)"
    by (subst wf_connections_canonical [OF assms]) (simp add: comp_def)
  define h where "h = addNodes (node_list g) empty_graph"
  have h: "h = \<lparr>dg_nodes = dg_nodes g, dg_connections = []\<rparr>"
    unfolding h_def addNodes_def
    by (subst foldl_addNode)
       (simp_all add: n wf_graphD(1) [OF assms] wf_nodes_canonical [OF assms, symmetric] empty_graph_def)
  have "foldE addGConn (conns g) h = Inr (h\<lparr>dg_connections := dg_connections g\<rparr>)"
    by (subst foldE_addGConn)
       (use wf_graph_conn [OF assms] in \<open>simp_all add: h nodeExists_def c wf_graphD(2) [OF assms]
          wf_connections_canonical [OF assms, symmetric]\<close>)
  then show ?thesis by (simp add: clone_def addConnections_def h_def [symmetric] h)
qed

section \<open>Disabled nodes\<close>

definition removeDisabled :: "inode \<Rightarrow> digraph \<Rightarrow> digraph res" where
  "removeDisabled n g =
     (if disabled n then bindE (removeNode n True (\<lambda>c. gc_type c \<noteq> Main) g) (\<lambda>r. Inr (fst r)) else Inr g)"

definition filterDisabledNodes :: "digraph \<Rightarrow> digraph res" where
  "filterDisabledNodes graph = bindE (clone graph) (\<lambda>filteredGraph.
     foldE removeDisabled (map snd (getNodes filteredGraph)) filteredGraph)"

text \<open>No cycle of main connections runs through disabled nodes only.\<close>

definition disabled_acyclic :: "digraph \<Rightarrow> bool" where
  "disabled_acyclic g \<longleftrightarrow> acyclic (main_edges g \<inter> {n. disabled n} \<times> {n. disabled n})"

lemma contract_restrict:
  assumes "n \<in> D" and "acyclic (M \<inter> D \<times> D)"
  shows "acyclic (contract n M \<inter> D \<times> D)"
proof (rule acyclicI, rule allI, rule notI)
  fix x assume x: "(x, x) \<in> (contract n M \<inter> D \<times> D)\<^sup>+"
  have nn: "(n, n) \<notin> M \<inter> D \<times> D" using assms(2) by (auto simp: acyclic_def)
  then have sub: "contract n M \<inter> D \<times> D \<subseteq> contract n (M \<inter> D \<times> D)"
    using assms(1) by (auto simp: contract_def)
  have "x \<noteq> n" using nn assms(1) tranclD [OF x] by (auto simp: contract_def)
  moreover have "(x, x) \<in> (contract n (M \<inter> D \<times> D))\<^sup>+" using x sub trancl_mono by blast
  ultimately have "(x, x) \<in> (M \<inter> D \<times> D)\<^sup>+" using contract_paths [OF nn] by blast
  with assms(2) show False by (simp add: acyclic_def)
qed

lemma removeDisabled_step:
  assumes "wf_graph g" "plain_graph g" "nodeExists g n" "disabled_acyclic g" "disabled n"
  shows "\<exists>g'. removeDisabled n g = Inr g' \<and> wf_graph g' \<and> plain_graph g' \<and> disabled_acyclic g'
    \<and> dg_nodes g' = filter (\<lambda>(k, m). m \<noteq> n) (dg_nodes g) \<and> main_edges g' = contract n (main_edges g)"
proof -
  have "(n, n) \<notin> main_edges g" using assms(4,5) by (auto simp: disabled_acyclic_def acyclic_def)
  from removeNode_reconnect [OF assms(1-3) this] obtain g' new where
      g': "removeNode n True (\<lambda>c. gc_type c \<noteq> Main) g = Inr (g', Some new)" "wf_graph g'" "plain_graph g'"
        "dg_nodes g' = mdel (n_name n) (dg_nodes g)" "main_edges g' = contract n (main_edges g)"
    by auto
  have "mdel (n_name n) (dg_nodes g) = filter (\<lambda>(k, m). m \<noteq> n) (dg_nodes g)"
    unfolding AList.delete_eq
  proof (rule filter_cong [OF refl], clarify)
    fix k m assume "(k, m) \<in> set (dg_nodes g)"
    then have "n_name m = k" "nodeExists g m" using assms(1) by (auto simp: wf_graph_def nodeExists_def)
    then have "n_name n = k \<longleftrightarrow> m = n"
      using assms(3) unfolding nodeExists_def by (metis option.inject)
    then show "(n_name n \<noteq> k) = (m \<noteq> n)"
      by simp
  qed
  moreover have "disabled_acyclic g'"
    unfolding disabled_acyclic_def g'(5)
    by (rule contract_restrict) (use assms(4,5) in \<open>simp_all add: disabled_acyclic_def\<close>)
  ultimately show ?thesis using g' assms(5) by (simp add: removeDisabled_def)
qed

lemma removeDisabled_loop:
  assumes "wf_graph g" "plain_graph g" "disabled_acyclic g" "distinct ns" "\<And>n. n \<in> set ns \<Longrightarrow> nodeExists g n"
  shows "\<exists>g'. foldE removeDisabled ns g = Inr g' \<and> wf_graph g' \<and> plain_graph g'
    \<and> dg_nodes g' = filter (\<lambda>(k, m). \<not> (disabled m \<and> m \<in> set ns)) (dg_nodes g)
    \<and> (\<forall>a b. \<not> disabled a \<longrightarrow> \<not> disabled b \<longrightarrow> ((a, b) \<in> (main_edges g')\<^sup>+ \<longleftrightarrow> (a, b) \<in> (main_edges g)\<^sup>+))"
  using assms
proof (induction ns arbitrary: g)
  case (Cons n ns)
  show ?case
  proof (cases "disabled n")
    case False
    with Cons.IH [of g] Cons.prems show ?thesis
      by (auto simp: removeDisabled_def intro!: filter_cong)
  next
    case True
    then obtain g1 where g1: "removeDisabled n g = Inr g1" "wf_graph g1" "plain_graph g1" "disabled_acyclic g1"
        "dg_nodes g1 = filter (\<lambda>(k, m). m \<noteq> n) (dg_nodes g)" "main_edges g1 = contract n (main_edges g)"
      using removeDisabled_step [of g n] Cons.prems by auto
    have ex: "nodeExists g1 m" if "m \<in> set ns" for m
    proof -
      have "m \<in> set (node_list g)" "m \<noteq> n"
        using Cons.prems that by (auto simp: wf_nodeExists_iff)
      then have "m \<in> set (node_list g1)" by (force simp: node_list_def g1(5))
      then show ?thesis using g1(2) by (simp add: wf_nodeExists_iff)
    qed
    obtain g2 where g2: "foldE removeDisabled ns g1 = Inr g2" "wf_graph g2" "plain_graph g2"
        "dg_nodes g2 = filter (\<lambda>(k, m). \<not> (disabled m \<and> m \<in> set ns)) (dg_nodes g1)"
        "\<forall>a b. \<not> disabled a \<longrightarrow> \<not> disabled b \<longrightarrow> ((a, b) \<in> (main_edges g2)\<^sup>+ \<longleftrightarrow> (a, b) \<in> (main_edges g1)\<^sup>+)"
      using Cons.IH [OF g1(2-4)] Cons.prems(4) ex by auto
    have "(n, n) \<notin> main_edges g" using Cons.prems(3) True by (auto simp: disabled_acyclic_def acyclic_def)
    then have "(a, b) \<in> (main_edges g1)\<^sup>+ \<longleftrightarrow> (a, b) \<in> (main_edges g)\<^sup>+" if "\<not> disabled a" "\<not> disabled b" for a b
      unfolding g1(6) using that True by (intro contract_paths) auto
    moreover have "dg_nodes g2 = filter (\<lambda>(k, m). \<not> (disabled m \<and> m \<in> set (n # ns))) (dg_nodes g)"
      using True by (auto simp: g2(4) g1(5) intro!: filter_cong)
    ultimately show ?thesis using g1(1) g2 by auto
  qed
qed simp

lemma filterDisabledNodes_spec:
  assumes "wf_graph g" "plain_graph g" "disabled_acyclic g"
  shows "\<exists>g'. filterDisabledNodes g = Inr g' \<and> wf_graph g' \<and> plain_graph g'
    \<and> dg_nodes g' = filter (\<lambda>(k, m). \<not> disabled m) (dg_nodes g)
    \<and> (\<forall>a b. \<not> disabled a \<longrightarrow> \<not> disabled b \<longrightarrow> ((a, b) \<in> (main_edges g')\<^sup>+ \<longleftrightarrow> (a, b) \<in> (main_edges g)\<^sup>+))"
proof -
  have eq: "filter (\<lambda>(k, m). \<not> (disabled m \<and> m \<in> set (node_list g))) (dg_nodes g)
      = filter (\<lambda>(k, m). \<not> disabled m) (dg_nodes g)"
    by (rule filter_cong) (force simp: node_list_def)+
  have "\<And>n. n \<in> set (node_list g) \<Longrightarrow> nodeExists g n" using assms(1) by (simp add: wf_nodeExists_iff)
  from removeDisabled_loop [OF assms wf_distinct_nodes [OF assms(1)] this, unfolded eq] show ?thesis
    by (simp add: filterDisabledNodes_def clone_wf [OF assms(1)] getNodes_def node_list_def [symmetric])
qed

end
