(* ===== verification/Sample_Data.thy ===== *)
theory Sample_Data
  imports Graph_Edit
begin

text \<open>Small concrete nodes and graphs, the inputs at which the witnesses apply the theorems.\<close>

definition sample_node :: "nat \<Rightarrow> string \<Rightarrow> string \<Rightarrow> inode" where
  "sample_node r nm ty = \<lparr>n_ref = r, n_id = nm, n_name = nm, n_type = ty, n_typeVersion = 1,
     n_position = (0, 0), n_disabled = None, n_retryOnFail = None, n_maxTries = None,
     n_waitBetweenTries = None, n_alwaysOutputData = None, n_executeOnce = None, n_onError = None,
     n_continueOnFail = None, n_parameters = [], n_rewireOutputLogTo = None,
     n_forceCustomOperation = None, n_customTelemetryTags = None\<rparr>"

definition nodeA :: inode where "nodeA = sample_node 1 ''A'' ''set''"
definition nodeB :: inode where "nodeB = sample_node 2 ''B'' ''set''"
definition nodeC :: inode where "nodeC = sample_node 3 ''C'' ''set''"
definition nodeT :: inode where "nodeT = sample_node 4 ''T'' ''trigger''"
definition nodeD :: inode where "nodeD = (sample_node 5 ''D'' ''set'')\<lparr>n_disabled := Some True\<rparr>"

lemmas sample_nodes = nodeA_def nodeB_def nodeC_def nodeT_def nodeD_def sample_node_def

definition main_conn :: "inode \<Rightarrow> inode \<Rightarrow> gconn" where
  "main_conn a b = \<lparr>gc_from = a, gc_to = b, gc_type = Main, gc_outputIndex = 0, gc_inputIndex = 0\<rparr>"

definition mk_graph :: "inode list \<Rightarrow> gconn list \<Rightarrow> digraph" where
  "mk_graph ns cs = \<lparr>dg_nodes = map (\<lambda>n. (n_name n, n)) ns, dg_connections = map (\<lambda>c. (makeKey c, c)) cs\<rparr>"

text \<open>\<open>T -> A -> D -> B\<close>, the node \<open>D\<close> disabled.\<close>

definition chain_graph :: digraph where
  "chain_graph = mk_graph [nodeT, nodeA, nodeD, nodeB] [main_conn nodeT nodeA, main_conn nodeA nodeD, main_conn nodeD nodeB]"

text \<open>\<open>T -> A\<close>, and the nested cycles \<open>A -> B -> C -> B\<close>, \<open>B -> A\<close>, the inner one first.\<close>

definition nested_cycle_graph :: digraph where
  "nested_cycle_graph = mk_graph [nodeT, nodeA, nodeB, nodeC]
     [main_conn nodeT nodeA, main_conn nodeA nodeB, main_conn nodeB nodeC, main_conn nodeC nodeB,
      main_conn nodeB nodeA]"

text \<open>\<open>T -> A -> B -> A\<close>.\<close>

definition loop_graph :: digraph where
  "loop_graph = mk_graph [nodeT, nodeA, nodeB] [main_conn nodeT nodeA, main_conn nodeA nodeB, main_conn nodeB nodeA]"

lemma wf_chain_graph: "wf_graph chain_graph" by code_simp
lemma wf_nested_cycle_graph: "wf_graph nested_cycle_graph" by code_simp
lemma wf_loop_graph: "wf_graph loop_graph" by code_simp
lemma plain_chain_graph: "plain_graph chain_graph" by code_simp
lemma nodeExists_chain_graph: "nodeExists chain_graph nodeT" "nodeExists chain_graph nodeA" 
  "nodeExists chain_graph nodeD" "nodeExists chain_graph nodeB" by code_simp+
lemma nodeExists_loop_graph: "nodeExists loop_graph nodeT" "nodeExists loop_graph nodeA" "nodeExists loop_graph nodeB"
  by code_simp+

text \<open>\<open>T -> D -> B\<close>, the node \<open>D\<close> disabled and connected to itself.\<close>

definition self_loop_graph :: digraph where
  "self_loop_graph = mk_graph [nodeT, nodeD, nodeB]
     [main_conn nodeT nodeD, main_conn nodeD nodeD, main_conn nodeD nodeB]"

lemma wf_self_loop_graph: "wf_graph self_loop_graph" by code_simp

text \<open>Four nodes whose names make the keys of two connections equal.\<close>

definition hyphenA :: inode where "hyphenA = sample_node 1 ''A'' ''set''"
definition hyphenBC :: inode where "hyphenBC = sample_node 2 ''B-main-0-0-C'' ''set''"
definition hyphenAB :: inode where "hyphenAB = sample_node 3 ''A-main-0-0-B'' ''set''"
definition hyphenC :: inode where "hyphenC = sample_node 4 ''C'' ''set''"

definition hyphen_graph :: digraph where
  "hyphen_graph = mk_graph [hyphenA, hyphenBC, hyphenAB, hyphenC] [main_conn hyphenA hyphenBC]"

lemma wf_hyphen_graph: "wf_graph hyphen_graph" by code_simp

text \<open>The relations of a concrete graph, computed.\<close>

lemma edges_code [code]: "edges g = set (map (\<lambda>c. (gc_from c, gc_to c)) (conns g))"
  by (auto simp: edges_def)

lemma tedges_code [code]: "tedges Q g = set (map (\<lambda>c. (gc_from c, gc_to c)) (filter (\<lambda>c. Q (gc_type c)) (conns g)))"
  by (auto simp: tedges_def)

lemma main_edges_chain_graph: "main_edges chain_graph = {(nodeT, nodeA), (nodeA, nodeD), (nodeD, nodeB)}"
  by code_simp

lemma chain_path: "(nodeT, nodeB) \<in> (main_edges chain_graph)\<^sup>+"
proof -
  have "(nodeT, nodeA) \<in> main_edges chain_graph" "(nodeA, nodeD) \<in> main_edges chain_graph"
    "(nodeD, nodeB) \<in> main_edges chain_graph" by (simp_all add: main_edges_chain_graph)
  then show ?thesis by (meson r_into_trancl' trancl_into_trancl)
qed

section \<open>Run data\<close>

definition sample_item :: "nat \<Rightarrow> item" where
  "sample_item k = json_item [(''k'', JNum (of_nat k))]"

definition sample_run :: "items option list \<Rightarrow> task_data" where
  "sample_run outputs = \<lparr>td_executionIndex = Some 3, td_source = [], td_hints = [], td_status = Some StSuccess,
     td_data = Some [(Main, outputs)], td_inputOverride = None, td_error = None, td_metadata = None,
     td_usedDynamicCredentials = None\<rparr>"

fun compare_names :: "string \<Rightarrow> string \<Rightarrow> int" where
  "compare_names [] [] = 0"
| "compare_names [] (d # ds) = - 1"
| "compare_names (c # cs) [] = 1"
| "compare_names (c # cs) (d # ds) =
     (if c = d then compare_names cs ds else if (of_char c :: nat) < of_char d then - 1 else 1)"

definition input_conn :: "inode \<Rightarrow> nat \<Rightarrow> inode \<Rightarrow> gconn" where
  "input_conn a i b = (main_conn a b)\<lparr>gc_inputIndex := i\<rparr>"

end
