(* ===== verification/Tarjan_SCC.thy ===== *)
theory Tarjan_SCC
  imports Graph_Edit
begin

text \<open>
  \<^verbatim>\<open>DirectedGraph.getStronglyConnectedComponents\<close>: the closure variables of the method as a
  state record, the recursive \<^verbatim>\<open>followNode\<close>, and what the returned sets are. The stack is kept
  with its top first.
\<close>

record scc_state =
  t_id :: nat
  t_visited :: "inode list"
  t_ids :: "(inode, nat) jsmap"
  t_low :: "(inode, nat) jsmap"
  t_stack :: "inode list"
  t_sccs :: "inode list list"

definition scc_init :: scc_state where
  "scc_init = \<lparr>t_id = 0, t_visited = [], t_ids = [], t_low = [], t_stack = [], t_sccs = []\<rparr>"

definition scc_enter :: "inode \<Rightarrow> scc_state \<Rightarrow> scc_state" where
  "scc_enter n st = st\<lparr>t_visited := t_visited st @ [n], t_low := mset_at n (t_id st) (t_low st),
     t_ids := mset_at n (t_id st) (t_ids st), t_id := Suc (t_id st), t_stack := n # t_stack st\<rparr>"

definition scc_update_low :: "inode \<Rightarrow> inode \<Rightarrow> scc_state \<Rightarrow> scc_state res" where
  "scc_update_low n child st =
     (if child \<in> set (t_stack st) then
        (case (mget (t_low st) child, mget (t_low st) n) of
           (Some childLow, Some ownLow) \<Rightarrow> Inr (st\<lparr>t_low := mset_at n (min childLow ownLow) (t_low st)\<rparr>)
         | _ \<Rightarrow> Inl (AssertionError ''lowLinkValue''))
      else Inr st)"

fun scc_pop :: "(inode, nat) jsmap \<Rightarrow> nat \<Rightarrow> inode list \<Rightarrow> inode list \<Rightarrow> inode list \<times> inode list" where
  "scc_pop low i [] scc = ([], scc)"
| "scc_pop low i (x # xs) scc =
     (if mget low x = Some i then scc_pop low i xs (sadd x scc) else (x # xs, scc))"

definition scc_finish :: "inode \<Rightarrow> scc_state \<Rightarrow> scc_state res" where
  "scc_finish n st =
     (case (mget (t_ids st) n, mget (t_low st) n) of
        (Some ownId, Some ownLow) \<Rightarrow>
          if ownId = ownLow then
            (let (stk, scc) = scc_pop (t_low st) ownId (t_stack st) []
             in Inr (st\<lparr>t_stack := stk, t_sccs := (if scc \<noteq> [] then t_sccs st @ [scc] else t_sccs st)\<rparr>))
          else Inr st
      | _ \<Rightarrow> Inl (AssertionError ''ownId''))"

text \<open>
  The loop of \<^verbatim>\<open>followNode\<close> over the children of \<open>n\<close>, with the recursive call on a child
  unfolded.
\<close>

function scc_children :: "digraph \<Rightarrow> inode \<Rightarrow> inode list \<Rightarrow> scc_state \<Rightarrow> scc_state res" where
  "scc_children g n [] st = Inr st"
| "scc_children g n (child # cs) st =
     bindE (if child \<in> set (t_visited st) then Inr st
            else bindE (getDirectChildConnections g child) (\<lambda>ds.
                 bindE (scc_children g child (map gc_to ds) (scc_enter child st)) (scc_finish child)))
       (\<lambda>st'. bindE (scc_update_low n child st') (scc_children g n cs))"
  by pat_completeness auto

lemma scc_update_low_visited: "scc_update_low n c st = Inr st' \<Longrightarrow> t_visited st' = t_visited st"
  by (auto simp: scc_update_low_def split: if_splits option.splits)

lemma scc_finish_visited: "scc_finish n st = Inr st' \<Longrightarrow> t_visited st' = t_visited st"
  by (auto simp: scc_finish_def split: if_splits option.splits prod.splits)

lemma scc_enter_visited [simp]: "t_visited (scc_enter n st) = t_visited st @ [n]"
  by (simp add: scc_enter_def)

lemma scc_children_extends:
  "scc_children_dom (g, n, cs, st) \<Longrightarrow> scc_children g n cs st = Inr st' \<Longrightarrow>
   set (t_visited st) \<subseteq> set (t_visited st')"
proof (induction g n cs st arbitrary: st' rule: scc_children.pinduct)
  case (2 g n child cs st)
  from "2.prems" obtain s1 s2 where
      s1: "(if child \<in> set (t_visited st) then Inr st
            else bindE (getDirectChildConnections g child) (\<lambda>ds.
                 bindE (scc_children g child (map gc_to ds) (scc_enter child st)) (scc_finish child))) = Inr s1"
    and s2: "scc_update_low n child s1 = Inr s2" and s3: "scc_children g n cs s2 = Inr st'"
    by (simp add: scc_children.psimps(2) [OF "2.hyps"] bindE_eq_Inr) blast
  have "set (t_visited st) \<subseteq> set (t_visited s1)"
  proof (cases "child \<in> set (t_visited st)")
    case False
    with s1 obtain ds s0 where d: "getDirectChildConnections g child = Inr ds"
      and c: "scc_children g child (map gc_to ds) (scc_enter child st) = Inr s0"
      and f: "scc_finish child s0 = Inr s1"
      by (auto simp: bindE_eq_Inr)
    from "2.IH"(1) [OF False d c] scc_finish_visited [OF f] show ?thesis by auto
  qed (use s1 in simp)
  with scc_update_low_visited [OF s2] "2.IH"(2) [OF s1 s2 s3] show ?case by simp
qed (simp add: scc_children.psimps)

termination scc_children
proof (relation "measures [\<lambda>(g, n, cs, st). card (set (node_list g) - set (t_visited st)), \<lambda>(g, n, cs, st). length cs]",
    goal_cases)
  case (2 g n child cs st ds)
  then have "card (set (node_list g) - set (t_visited (scc_enter child st)))
      < card (set (node_list g) - set (t_visited st))"
    by (intro psubset_card_mono) (auto simp: getDirectChildConnections_Inr dest: nodeExists_in)
  then show ?case by simp
next
  case (3 g n child cs st s1 s2)
  have "set (t_visited st) \<subseteq> set (t_visited s1)"
  proof (cases "child \<in> set (t_visited st)")
    case True
    with 3 show ?thesis by simp
  next
    case False
    with 3 obtain ds s0 where d: "getDirectChildConnections g child = Inr ds"
      and c: "scc_children g child (map gc_to ds) (scc_enter child st) = Inr s0"
      and dom: "scc_children_dom (g, child, map gc_to ds, scc_enter child st)"
      and f: "scc_finish child s0 = Inr s1"
      by (auto simp: bindE_eq_Inr)
    from scc_children_extends [OF dom c] scc_finish_visited [OF f] show ?thesis by auto
  qed
  with 3 have "set (t_visited st) \<subseteq> set (t_visited s2)" by (simp add: scc_update_low_visited)
  then have "card (set (node_list g) - set (t_visited s2)) \<le> card (set (node_list g) - set (t_visited st))"
    by (simp add: card_diff_mono)
  then show ?case by auto
qed simp

definition followNode :: "digraph \<Rightarrow> inode \<Rightarrow> scc_state \<Rightarrow> scc_state res" where
  "followNode g n st = (if n \<in> set (t_visited st) then Inr st
     else bindE (getDirectChildConnections g n) (\<lambda>ds.
          bindE (scc_children g n (map gc_to ds) (scc_enter n st)) (scc_finish n)))"

lemma scc_children_Cons: "scc_children g n (child # cs) st =
    bindE (followNode g child st) (\<lambda>st'. bindE (scc_update_low n child st') (scc_children g n cs))"
  by (simp add: followNode_def)

definition getStronglyConnectedComponents :: "digraph \<Rightarrow> inode list list res" where
  "getStronglyConnectedComponents g =
     bindE (foldE (followNode g) (node_list g) scc_init) (\<lambda>st. Inr (t_sccs st))"

section \<open>What the method returns\<close>

text \<open>
  The invariant of the search: identifiers are injective and below the next one, a low-link value
  is at most the node's own identifier and is the identifier of a node it reaches, and every
  component found so far is a non-empty set of mutually reachable nodes, apart from the stack and
  from the other components.
\<close>

definition scc_inv :: "digraph \<Rightarrow> scc_state \<Rightarrow> bool" where
  "scc_inv g st \<longleftrightarrow> set (t_stack st) \<subseteq> set (t_visited st) \<and> distinct (t_stack st) \<and>
     (\<forall>x. x \<in> set (t_visited st) \<longleftrightarrow> mget (t_ids st) x \<noteq> None) \<and>
     (\<forall>x. x \<in> set (t_visited st) \<longleftrightarrow> mget (t_low st) x \<noteq> None) \<and>
     (\<forall>x i. mget (t_ids st) x = Some i \<longrightarrow> i < t_id st) \<and>
     (\<forall>x y i. mget (t_ids st) x = Some i \<longrightarrow> mget (t_ids st) y = Some i \<longrightarrow> x = y) \<and>
     (\<forall>x l. mget (t_low st) x = Some l \<longrightarrow> (\<exists>i y. mget (t_ids st) x = Some i \<and> l \<le> i \<and>
        mget (t_ids st) y = Some l \<and> (x, y) \<in> (edges g)\<^sup>*)) \<and>
     (\<forall>C\<in>set (t_sccs st). C \<noteq> [] \<and> set C \<subseteq> set (t_visited st) - set (t_stack st) \<and>
        (\<forall>x\<in>set C. \<forall>y\<in>set C. (x, y) \<in> (edges g)\<^sup>*)) \<and>
     distinct (concat (t_sccs st))"

lemma scc_invD:
  assumes "scc_inv g st"
  shows "set (t_stack st) \<subseteq> set (t_visited st)" and "distinct (t_stack st)"
    and "x \<in> set (t_visited st) \<longleftrightarrow> mget (t_ids st) x \<noteq> None"
    and "x \<in> set (t_visited st) \<longleftrightarrow> mget (t_low st) x \<noteq> None"
    and "mget (t_ids st) x = Some i \<Longrightarrow> i < t_id st"
    and "mget (t_ids st) x = Some i \<Longrightarrow> mget (t_ids st) y = Some i \<Longrightarrow> x = y"
    and "mget (t_low st) x = Some l \<Longrightarrow> \<exists>i y. mget (t_ids st) x = Some i \<and> l \<le> i \<and>
        mget (t_ids st) y = Some l \<and> (x, y) \<in> (edges g)\<^sup>*"
    and "C \<in> set (t_sccs st) \<Longrightarrow> C \<noteq> [] \<and> set C \<subseteq> set (t_visited st) - set (t_stack st) \<and>
        (\<forall>x\<in>set C. \<forall>y\<in>set C. (x, y) \<in> (edges g)\<^sup>*)"
    and "distinct (concat (t_sccs st))"
proof -
  note I = assms [unfolded scc_inv_def]
  show "set (t_stack st) \<subseteq> set (t_visited st)" "distinct (t_stack st)" "distinct (concat (t_sccs st))"
    using I by simp_all
  show "x \<in> set (t_visited st) \<longleftrightarrow> mget (t_ids st) x \<noteq> None" using I by meson
  show "x \<in> set (t_visited st) \<longleftrightarrow> mget (t_low st) x \<noteq> None" using I by meson
  show "mget (t_ids st) x = Some i \<Longrightarrow> i < t_id st" using I by meson
  show "mget (t_ids st) x = Some i \<Longrightarrow> mget (t_ids st) y = Some i \<Longrightarrow> x = y" using I by meson
  show "mget (t_low st) x = Some l \<Longrightarrow> \<exists>i y. mget (t_ids st) x = Some i \<and> l \<le> i \<and>
        mget (t_ids st) y = Some l \<and> (x, y) \<in> (edges g)\<^sup>*" using I by meson
  show "C \<in> set (t_sccs st) \<Longrightarrow> C \<noteq> [] \<and> set C \<subseteq> set (t_visited st) - set (t_stack st) \<and>
        (\<forall>x\<in>set C. \<forall>y\<in>set C. (x, y) \<in> (edges g)\<^sup>*)"
    using I by (elim conjE) (drule (1) bspec, simp)
qed

text \<open>From \<open>st\<close> to \<open>st'\<close> only nodes reachable from \<open>n\<close> were visited, with fresh identifiers.\<close>

definition scc_ext :: "digraph \<Rightarrow> inode \<Rightarrow> scc_state \<Rightarrow> scc_state \<Rightarrow> bool" where
  "scc_ext g n st st' \<longleftrightarrow> t_id st \<le> t_id st' \<and> set (t_visited st) \<subseteq> set (t_visited st') \<and>
     (\<forall>x\<in>set (t_visited st). mget (t_ids st') x = mget (t_ids st) x) \<and>
     (\<forall>x i. x \<notin> set (t_visited st) \<longrightarrow> mget (t_ids st') x = Some i \<longrightarrow> t_id st \<le> i \<and> (n, x) \<in> (edges g)\<^sup>*)"

lemma scc_inv_init: "scc_inv g scc_init"
  by (simp add: scc_inv_def scc_init_def)

lemma scc_inv_enter:
  assumes "scc_inv g st" and "n \<notin> set (t_visited st)"
  shows "scc_inv g (scc_enter n st)"
proof -
  note D = scc_invD [OF assms(1)]
  have low: "\<exists>i y. mget (t_ids (scc_enter n st)) x = Some i \<and> l \<le> i \<and>
      mget (t_ids (scc_enter n st)) y = Some l \<and> (x, y) \<in> (edges g)\<^sup>*"
    if "mget (t_low (scc_enter n st)) x = Some l" for x l
  proof (cases "x = n")
    case True
    with that show ?thesis by (auto simp: scc_enter_def)
  next
    case False
    with that have "mget (t_low st) x = Some l" by (simp add: scc_enter_def)
    from D(7) [OF this] obtain i y where iy: "mget (t_ids st) x = Some i" "l \<le> i"
      "mget (t_ids st) y = Some l" "(x, y) \<in> (edges g)\<^sup>*" by blast
    then have "y \<noteq> n" using assms(2) D(3) by auto
    with iy False show ?thesis by (intro exI [of _ i] exI [of _ y]) (simp add: scc_enter_def)
  qed
  have id: "i < Suc (t_id st)" if "mget (t_ids st) x = Some i" for x i
    using D(5) [OF that] by simp
  have ne: "mget (t_ids st) x \<noteq> Some (t_id st)" for x using D(5) [of x] by auto
  have C: "set C \<subseteq> insert n (set (t_visited st)) - insert n (set (t_stack st))" if "C \<in> set (t_sccs st)" for C
    using D(8) [OF that] assms(2) by auto
  show ?thesis unfolding scc_inv_def
  proof (intro conjI)
    show "\<forall>x l. mget (t_low (scc_enter n st)) x = Some l \<longrightarrow>
        (\<exists>i y. mget (t_ids (scc_enter n st)) x = Some i \<and> l \<le> i \<and>
           mget (t_ids (scc_enter n st)) y = Some l \<and> (x, y) \<in> (edges g)\<^sup>*)" using low by blast
    show "\<forall>x y i. mget (t_ids (scc_enter n st)) x = Some i \<longrightarrow>
        mget (t_ids (scc_enter n st)) y = Some i \<longrightarrow> x = y"
      using D(6) ne by (auto simp: scc_enter_def)
    show "\<forall>C\<in>set (t_sccs (scc_enter n st)). C \<noteq> [] \<and>
        set C \<subseteq> set (t_visited (scc_enter n st)) - set (t_stack (scc_enter n st)) \<and>
        (\<forall>x\<in>set C. \<forall>y\<in>set C. (x, y) \<in> (edges g)\<^sup>*)"
      using D(8) C by (simp add: scc_enter_def)
  qed (use D(1-4,9) id assms(2) in \<open>auto simp: scc_enter_def\<close>)
qed

lemma scc_update_low_ok:
  assumes inv: "scc_inv g st" and n: "n \<in> set (t_visited st)" and e: "(n, child) \<in> edges g"
  shows "\<exists>st'. scc_update_low n child st = Inr st' \<and> scc_inv g st' \<and> t_visited st' = t_visited st
    \<and> t_ids st' = t_ids st \<and> t_id st' = t_id st"
proof (cases "child \<in> set (t_stack st)")
  case False
  with inv show ?thesis by (simp add: scc_update_low_def)
next
  case True
  note D = scc_invD [OF inv]
  from True D(1) have "child \<in> set (t_visited st)" by blast
  then obtain lc where lc: "mget (t_low st) child = Some lc" using D(4) by blast
  from n obtain ln where ln: "mget (t_low st) n = Some ln" using D(4) by blast
  define st' where "st' = st\<lparr>t_low := mset_at n (min lc ln) (t_low st)\<rparr>"
  have "\<exists>i y. mget (t_ids st) n = Some i \<and> min lc ln \<le> i \<and> mget (t_ids st) y = Some (min lc ln) \<and> (n, y) \<in> (edges g)\<^sup>*"
  proof -
    from D(7) [OF ln] obtain i y where i: "mget (t_ids st) n = Some i" "ln \<le> i"
      "mget (t_ids st) y = Some ln" "(n, y) \<in> (edges g)\<^sup>*" by blast
    from D(7) [OF lc] obtain z where z: "mget (t_ids st) z = Some lc" "(child, z) \<in> (edges g)\<^sup>*" by blast
    from z(2) e have "(n, z) \<in> (edges g)\<^sup>*" by (rule converse_rtrancl_into_rtrancl [rotated])
    with i z show ?thesis by (cases "lc \<le> ln") (auto simp: min_def)
  qed
  with D have "scc_inv g st'"
    unfolding scc_inv_def by (auto simp: st'_def n)
  with True lc ln show ?thesis by (simp add: scc_update_low_def st'_def)
qed

lemma scc_pop_spec:
  "scc_pop low i xs scc = (ys, C) \<Longrightarrow> \<exists>zs. xs = zs @ ys \<and> set C = set scc \<union> set zs \<and>
     (\<forall>z\<in>set zs. mget low z = Some i) \<and> (distinct scc \<longrightarrow> distinct C)"
proof (induction low i xs scc rule: scc_pop.induct)
  case (2 low i x xs scc)
  show ?case
  proof (cases "mget low x = Some i")
    case True
    with 2 obtain zs where zs: "xs = zs @ ys" "set C = set (sadd x scc) \<union> set zs"
      "\<forall>z\<in>set zs. mget low z = Some i" "distinct (sadd x scc) \<longrightarrow> distinct C" by auto
    then show ?thesis using True by (intro exI [of _ "x # zs"]) auto
  qed (use 2 in simp)
qed simp

text \<open>Finishing a node: what is popped is reachable from it and reaches it.\<close>

lemma scc_finish_ok:
  assumes inv: "scc_inv g st" and id: "mget (t_ids st) n = Some i"
    and reach: "\<And>w j. mget (t_ids st) w = Some j \<Longrightarrow> i \<le> j \<Longrightarrow> (n, w) \<in> (edges g)\<^sup>*"
  shows "\<exists>st'. scc_finish n st = Inr st' \<and> scc_inv g st' \<and> t_visited st' = t_visited st
    \<and> t_ids st' = t_ids st \<and> t_id st' = t_id st"
proof -
  note D = scc_invD [OF inv]
  have "n \<in> set (t_visited st)" using id D(3) by auto
  then obtain l where l: "mget (t_low st) n = Some l" using D(4) by blast
  show ?thesis
  proof (cases "l = i")
    case False
    with id l inv show ?thesis by (simp add: scc_finish_def)
  next
    case True
    obtain ys C where pop: "scc_pop (t_low st) i (t_stack st) [] = (ys, C)" by force
    define st' where "st' = st\<lparr>t_stack := ys, t_sccs := (if C \<noteq> [] then t_sccs st @ [C] else t_sccs st)\<rparr>"
    have fin: "scc_finish n st = Inr st'" using id l True pop by (simp add: scc_finish_def st'_def)
    from scc_pop_spec [OF pop] obtain zs where zs: "t_stack st = zs @ ys" "set C = set zs"
      "\<forall>z\<in>set zs. mget (t_low st) z = Some i" "distinct C" by auto
    have zn: "(n, z) \<in> (edges g)\<^sup>* \<and> (z, n) \<in> (edges g)\<^sup>*" if "z \<in> set zs" for z
    proof -
      from D(7) [of z i] zs(3) that obtain j y where j: "mget (t_ids st) z = Some j" "i \<le> j"
        "mget (t_ids st) y = Some i" "(z, y) \<in> (edges g)\<^sup>*" by auto
      from D(6) [OF j(3) id] have "y = n" .
      with j reach [OF j(1,2)] show ?thesis by simp
    qed
    have mutual: "(x, y) \<in> (edges g)\<^sup>*" if "x \<in> set C" "y \<in> set C" for x y
      using zn [of x] zn [of y] that zs(2) by (auto intro: rtrancl_trans)
    have dis: "set zs \<inter> set ys = {}" "distinct ys" using D(2) zs(1) by auto
    have Cfresh: "set C \<inter> set C' = {}" if "C' \<in> set (t_sccs st)" for C'
      using D(8) [OF that] zs(1,2) by auto
    have old: "C' \<noteq> [] \<and> set C' \<subseteq> set (t_visited st) - set ys \<and> (\<forall>x\<in>set C'. \<forall>y\<in>set C'. (x, y) \<in> (edges g)\<^sup>*)"
      if "C' \<in> set (t_sccs st)" for C'
      using D(8) [OF that] zs(1) by auto
    have new: "set C \<subseteq> set (t_visited st) - set ys" using D(1) zs(1,2) dis by auto
    have "scc_inv g st'"
      unfolding scc_inv_def
    proof (intro conjI)
      show "\<forall>C'\<in>set (t_sccs st'). C' \<noteq> [] \<and> set C' \<subseteq> set (t_visited st') - set (t_stack st') \<and>
          (\<forall>x\<in>set C'. \<forall>y\<in>set C'. (x, y) \<in> (edges g)\<^sup>*)"
        using old new mutual by (auto simp: st'_def)
      show "distinct (concat (t_sccs st'))"
        using D(9) zs(4) Cfresh by (auto simp: st'_def)
      show "\<forall>x l. mget (t_low st') x = Some l \<longrightarrow> (\<exists>i y. mget (t_ids st') x = Some i \<and> l \<le> i \<and>
          mget (t_ids st') y = Some l \<and> (x, y) \<in> (edges g)\<^sup>*)"
        using D(7) by (simp add: st'_def)
    qed (use D(1-6) zs(1) dis in \<open>auto simp: st'_def\<close>)
    with fin show ?thesis by (auto simp: st'_def)
  qed
qed

lemma scc_ext_refl: "scc_inv g st \<Longrightarrow> scc_ext g n st st"
  using scc_invD(3) by (fastforce simp: scc_ext_def)

lemma scc_ext_same:
  "scc_ext g n st s1 \<Longrightarrow> t_visited s2 = t_visited s1 \<Longrightarrow> t_ids s2 = t_ids s1 \<Longrightarrow> t_id s2 = t_id s1 \<Longrightarrow>
   scc_ext g n st s2"
  by (simp add: scc_ext_def)

lemma scc_ext_trans:
  assumes "scc_ext g n s0 s1" and "scc_ext g n s1 s2"
  shows "scc_ext g n s0 s2"
proof -
  have "t_id s0 \<le> i \<and> (n, x) \<in> (edges g)\<^sup>*" if "x \<notin> set (t_visited s0)" "mget (t_ids s2) x = Some i" for x i
    using that assms by (cases "x \<in> set (t_visited s1)") (auto simp: scc_ext_def)
  with assms show ?thesis by (auto simp: scc_ext_def)
qed

text \<open>Following an unvisited node, seen from a node with an edge to it.\<close>

lemma scc_ext_enter:
  assumes "scc_inv g st" and "n \<notin> set (t_visited st)" and "scc_ext g n (scc_enter n st) s1"
  shows "scc_ext g n st s1"
proof -
  have "t_id st \<le> i \<and> (n, x) \<in> (edges g)\<^sup>*" if "x \<notin> set (t_visited st)" "mget (t_ids s1) x = Some i" for x i
  proof (cases "x = n")
    case True
    then have "mget (t_ids s1) x = Some (t_id st)" using assms(3) by (simp add: scc_ext_def scc_enter_def)
    with True that show ?thesis by simp
  next
    case False
    with that assms(3) show ?thesis by (auto simp: scc_ext_def scc_enter_def)
  qed
  moreover have "\<forall>x\<in>set (t_visited st). mget (t_ids s1) x = mget (t_ids st) x"
    using assms(2,3) by (auto simp: scc_ext_def scc_enter_def)
  ultimately show ?thesis using assms(3) by (simp add: scc_ext_def scc_enter_def)
qed

lemma scc_ext_edge: "scc_ext g c st st' \<Longrightarrow> (n, c) \<in> edges g \<Longrightarrow> scc_ext g n st st'"
  unfolding scc_ext_def by (blast intro: converse_rtrancl_into_rtrancl)

lemma scc_children_ok:
  assumes "wf_graph g"
  shows "scc_inv g st \<Longrightarrow> n \<in> set (t_visited st) \<Longrightarrow> (\<And>c. c \<in> set cs \<Longrightarrow> (n, c) \<in> edges g) \<Longrightarrow>
    \<exists>st'. scc_children g n cs st = Inr st' \<and> scc_inv g st' \<and> scc_ext g n st st'"
  using assms
proof (induction g n cs st rule: scc_children.induct)
  case (1 g n st)
  then show ?case by (simp add: scc_ext_refl)
next
  case (2 g n child cs st)
  have e: "(n, child) \<in> edges g" using "2.prems"(3) by simp
  have "\<exists>s1. (if child \<in> set (t_visited st) then Inr st
            else bindE (getDirectChildConnections g child) (\<lambda>ds.
                 bindE (scc_children g child (map gc_to ds) (scc_enter child st)) (scc_finish child))) = Inr s1
      \<and> scc_inv g s1 \<and> scc_ext g n st s1"
  proof (cases "child \<in> set (t_visited st)")
    case True
    with "2.prems"(1) show ?thesis by (simp add: scc_ext_refl)
  next
    case False
    have "nodeExists g child" using wf_graph_edges [OF "2.prems"(4) e] by simp
    then obtain ds where ds: "getDirectChildConnections g child = Inr ds"
      by (simp add: getDirectChildConnections_def)
    have "(child, c) \<in> edges g" if "c \<in> set (map gc_to ds)" for c
      using that ds by (auto simp: getDirectChildConnections_Inr edges_def)
    with "2.IH"(1) [OF False ds scc_inv_enter [OF "2.prems"(1) False]] "2.prems"(4) obtain s0 where
        s0: "scc_children g child (map gc_to ds) (scc_enter child st) = Inr s0" "scc_inv g s0"
          "scc_ext g child (scc_enter child st) s0" by auto
    have x0: "scc_ext g child st s0" by (rule scc_ext_enter [OF "2.prems"(1) False s0(3)])
    have cid: "mget (t_ids s0) child = Some (t_id st)"
      using s0(3) by (simp add: scc_ext_def scc_enter_def)
    have down: "(child, w) \<in> (edges g)\<^sup>*" if w: "mget (t_ids s0) w = Some j" "t_id st \<le> j" for w j
    proof (cases "w \<in> set (t_visited st)")
      case True
      then have "mget (t_ids st) w = Some j" using x0 w(1) by (simp add: scc_ext_def)
      with scc_invD(5) [OF "2.prems"(1)] w(2) show ?thesis by fastforce
    next
      case False
      with x0 w(1) show ?thesis by (auto simp: scc_ext_def)
    qed
    obtain s1 where s1: "scc_finish child s0 = Inr s1" "scc_inv g s1"
      "t_visited s1 = t_visited s0" "t_ids s1 = t_ids s0" "t_id s1 = t_id s0"
      using scc_finish_ok [OF s0(2) cid] down by blast
    have "scc_ext g n st s1"
      by (rule scc_ext_edge [OF _ e], rule scc_ext_same [OF x0]) (use s1 in auto)
    with False ds s0(1) s1(1,2) show ?thesis by simp
  qed
  then obtain s1 where s1: "(if child \<in> set (t_visited st) then Inr st
            else bindE (getDirectChildConnections g child) (\<lambda>ds.
                 bindE (scc_children g child (map gc_to ds) (scc_enter child st)) (scc_finish child))) = Inr s1"
    and i1: "scc_inv g s1" and x1: "scc_ext g n st s1" by blast
  have n1: "n \<in> set (t_visited s1)" using "2.prems"(2) x1 by (auto simp: scc_ext_def)
  from scc_update_low_ok [OF i1 n1 e] obtain s2 where s2: "scc_update_low n child s1 = Inr s2" "scc_inv g s2"
    "t_visited s2 = t_visited s1" "t_ids s2 = t_ids s1" "t_id s2 = t_id s1" by blast
  have x2: "scc_ext g n st s2" by (rule scc_ext_same [OF x1]) (use s2 in auto)
  from "2.IH"(2) [OF s1 s2(1,2)] n1 s2(3) "2.prems"(3,4) obtain s3 where
      s3: "scc_children g n cs s2 = Inr s3" "scc_inv g s3" "scc_ext g n s2 s3" by auto
  with scc_ext_trans [OF x2 s3(3)] s1 s2(1) show ?case by simp
qed

lemma followNode_ok:
  assumes "wf_graph g" and "scc_inv g st" and "nodeExists g n"
  shows "\<exists>st'. followNode g n st = Inr st' \<and> scc_inv g st' \<and> insert n (set (t_visited st)) \<subseteq> set (t_visited st')"
proof (cases "n \<in> set (t_visited st)")
  case True
  with assms show ?thesis by (auto simp: followNode_def)
next
  case False
  obtain ds where ds: "getDirectChildConnections g n = Inr ds"
    using assms(3) by (simp add: getDirectChildConnections_def)
  have "(n, c) \<in> edges g" if "c \<in> set (map gc_to ds)" for c
    using that ds by (auto simp: getDirectChildConnections_Inr edges_def)
  then have "\<exists>st'. scc_children g n (map gc_to ds) (scc_enter n st) = Inr st' \<and> scc_inv g st'
      \<and> scc_ext g n (scc_enter n st) st'"
    by (intro scc_children_ok [OF assms(1) scc_inv_enter [OF assms(2) False]]) simp_all
  then obtain s0 where
      s0: "scc_children g n (map gc_to ds) (scc_enter n st) = Inr s0" "scc_inv g s0" "scc_ext g n (scc_enter n st) s0"
    by blast
  have x0: "scc_ext g n st s0" by (rule scc_ext_enter [OF assms(2) False s0(3)])
  have cid: "mget (t_ids s0) n = Some (t_id st)" using s0(3) by (simp add: scc_ext_def scc_enter_def)
  have down: "(n, w) \<in> (edges g)\<^sup>*" if w: "mget (t_ids s0) w = Some j" "t_id st \<le> j" for w j
  proof (cases "w \<in> set (t_visited st)")
    case True
    then have "mget (t_ids st) w = Some j" using x0 w(1) by (simp add: scc_ext_def)
    with scc_invD(5) [OF assms(2)] w(2) show ?thesis by fastforce
  next
    case False
    with x0 w(1) show ?thesis by (auto simp: scc_ext_def)
  qed
  obtain s1 where s1: "scc_finish n s0 = Inr s1" "scc_inv g s1" "t_visited s1 = t_visited s0"
    using scc_finish_ok [OF s0(2) cid] down by blast
  moreover have "insert n (set (t_visited st)) \<subseteq> set (t_visited s0)"
    using s0(3) by (auto simp: scc_ext_def)
  ultimately show ?thesis using False ds s0(1) by (simp add: followNode_def)
qed

lemma getStronglyConnectedComponents_sound:
  assumes "wf_graph g"
  shows "\<exists>sccs. getStronglyConnectedComponents g = Inr sccs \<and> distinct (concat sccs) \<and>
    (\<forall>C\<in>set sccs. C \<noteq> [] \<and> (\<forall>x\<in>set C. \<forall>y\<in>set C. (x, y) \<in> (edges g)\<^sup>*))"
proof -
  have "\<exists>st. foldE (followNode g) (node_list g) scc_init = Inr st \<and> scc_inv g st"
  proof (rule foldE_total)
    show "scc_inv g scc_init" by (rule scc_inv_init)
    show "\<exists>b. followNode g n st = Inr b \<and> scc_inv g b" if "n \<in> set (node_list g)" "scc_inv g st" for n st
      using followNode_ok [OF assms that(2)] that(1) wf_nodeExists_iff [OF assms] by blast
  qed
  then obtain st where "foldE (followNode g) (node_list g) scc_init = Inr st" "scc_inv g st" by blast
  then show ?thesis
    using scc_invD(8,9) by (fastforce simp: getStronglyConnectedComponents_def)
qed

end
