(* ===== verification/Handle_Cycles.thy ===== *)
theory Handle_Cycles
  imports Tarjan_SCC
begin

text \<open>
  \<^verbatim>\<open>handle-cycles.ts\<close>: a start node inside a reported strongly connected component is replaced
  by the node of the component that a depth-first search from the trigger meets first.
\<close>

section \<open>Definitions\<close>

definition replace_start ::
  "digraph \<Rightarrow> inode \<Rightarrow> inode \<Rightarrow> inode list \<Rightarrow> inode list \<Rightarrow> inode list res" where
  "replace_start graph trigger startNode cycle newStartNodes =
     (if startNode \<in> set cycle then
        bindE (depthFirstSearch graph trigger (\<lambda>node. node \<in> set cycle)) (\<lambda>firstNode.
          case firstNode of
            None \<Rightarrow> Inl (AssertionError ''the trigger must be connected to the cycle'')
          | Some f \<Rightarrow> Inr (sadd f (remove1 startNode newStartNodes)))
      else Inr newStartNodes)"

definition handleCycles :: "digraph \<Rightarrow> inode list \<Rightarrow> inode \<Rightarrow> inode list res" where
  "handleCycles graph startNodes trigger =
     bindE (getStronglyConnectedComponents graph) (\<lambda>sccs.
       let cycles = filter (\<lambda>cycle. length cycle \<ge> 1) sccs in
       if length cycles = 0 then Inr startNodes
       else foldE (\<lambda>startNode. foldE (replace_start graph trigger startNode) cycles) startNodes startNodes)"

section \<open>The representatives\<close>

text \<open>What one start node becomes: the first node of its component, or itself.\<close>

definition entry_of :: "digraph \<Rightarrow> inode \<Rightarrow> inode list list \<Rightarrow> inode \<Rightarrow> inode" where
  "entry_of g t cycles s = (case find (\<lambda>C. s \<in> set C) cycles of
     None \<Rightarrow> s
   | Some C \<Rightarrow> (case depthFirstSearch g t (\<lambda>n. n \<in> set C) of Inr (Some f) \<Rightarrow> f | _ \<Rightarrow> s))"

lemma find_component:
  assumes "distinct (concat cycles)" "C \<in> set cycles" "s \<in> set C"
  shows "find (\<lambda>C. s \<in> set C) cycles = Some C"
  using assms by (induction cycles) auto

lemma find_no_component: "s \<notin> set (concat cycles) \<Longrightarrow> find (\<lambda>C. s \<in> set C) cycles = None"
  by (auto simp: find_None_iff)

lemma first_in_component:
  assumes "wf_graph g" "nodeExists g t" "s \<in> set C" "(t, s) \<in> (edges g)\<^sup>*"
  shows "\<exists>f. depthFirstSearch g t (\<lambda>n. n \<in> set C) = Inr (Some f) \<and> f \<in> set C \<and> (t, f) \<in> (edges g)\<^sup>*"
  using depthFirstSearch_spec [OF assms(1,2), of "\<lambda>n. n \<in> set C"] assms(3,4)
  by (auto split: sum.splits option.splits)

lemma replace_loop_skip:
  "s \<notin> set (concat cs) \<Longrightarrow> foldE (replace_start g t s) cs acc = Inr acc"
  by (induction cs) (simp_all add: replace_start_def)

text \<open>The inner loop over the components: at most one holds the start node.\<close>

lemma replace_loop:
  assumes "wf_graph g" "nodeExists g t" "distinct (concat cs)" "(t, s) \<in> (edges g)\<^sup>*"
  shows "foldE (replace_start g t s) cs acc =
    Inr (if s \<in> set (concat cs) then sadd (entry_of g t cs s) (remove1 s acc) else acc)"
proof (cases "s \<in> set (concat cs)")
  case True
  then obtain C where C: "C \<in> set cs" "s \<in> set C" by auto
  from first_in_component [OF assms(1,2) C(2) assms(4)] obtain f where
      f: "depthFirstSearch g t (\<lambda>n. n \<in> set C) = Inr (Some f)" by blast
  have e: "entry_of g t cs s = f" by (simp add: entry_of_def find_component [OF assms(3) C] f)
  obtain xs ys where split: "cs = xs @ C # ys" using C(1) by (meson split_list)
  have "s \<notin> set (concat xs)" "s \<notin> set (concat ys)"
    using assms(3) C(2) by (auto simp: split)
  then have "foldE (replace_start g t s) cs acc = Inr (sadd f (remove1 s acc))"
    by (simp add: split foldE_append replace_loop_skip) (simp add: replace_start_def C(2) f replace_loop_skip)
  with True e show ?thesis by simp
qed (simp add: replace_loop_skip)

lemma entry_of_component:
  assumes "wf_graph g" "nodeExists g t" "distinct (concat cs)" "(t, s) \<in> (edges g)\<^sup>*"
  shows "(t, entry_of g t cs s) \<in> (edges g)\<^sup>*"
    and "C \<in> set cs \<Longrightarrow> entry_of g t cs s \<in> set C \<longleftrightarrow> s \<in> set C"
    and "s \<notin> set (concat cs) \<Longrightarrow> entry_of g t cs s = s"
proof -
  show skip: "s \<notin> set (concat cs) \<Longrightarrow> entry_of g t cs s = s"
    using find_no_component [of s cs] by (simp add: entry_of_def)
  have hit: "entry_of g t cs s \<in> set D \<and> (t, entry_of g t cs s) \<in> (edges g)\<^sup>*" if "D \<in> set cs" "s \<in> set D" for D
    using first_in_component [OF assms(1,2) that(2) assms(4)]
    by (auto simp: entry_of_def find_component [OF assms(3) that])
  show "(t, entry_of g t cs s) \<in> (edges g)\<^sup>*"
    by (cases "s \<in> set (concat cs)") (use hit skip assms(4) in auto)
  show "entry_of g t cs s \<in> set C \<longleftrightarrow> s \<in> set C" if C: "C \<in> set cs"
  proof (cases "s \<in> set (concat cs)")
    case True
    then obtain D where D: "D \<in> set cs" "s \<in> set D" by auto
    have "C = D" if "x \<in> set C" "x \<in> set D" for x
      using find_component [OF assms(3) C that(1)] find_component [OF assms(3) D(1) that(2)] by simp
    with hit [OF D] D(2) show ?thesis by blast
  qed (use skip in simp)
qed


lemma entry_of_idem:
  assumes "wf_graph g" "nodeExists g t" "distinct (concat cs)" "(t, s) \<in> (edges g)\<^sup>*"
  shows "entry_of g t cs (entry_of g t cs s) = entry_of g t cs s"
proof (cases "s \<in> set (concat cs)")
  case True
  then obtain C where C: "C \<in> set cs" "s \<in> set C" by auto
  then have "entry_of g t cs s \<in> set C" using entry_of_component(2) [OF assms] by blast
  from find_component [OF assms(3) C(1) this] find_component [OF assms(3) C]
  show ?thesis by (simp add: entry_of_def split: sum.split option.split)
next
  case False
  from entry_of_component(3) [OF assms this] show ?thesis by simp
qed

text \<open>The outer loop: entries of the start nodes done, and the start nodes to do.\<close>

lemma handle_loop:
  assumes "wf_graph g" "nodeExists g t" "distinct (concat cs)"
  shows "set acc = entry_of g t cs ` P \<union> set xs \<Longrightarrow> \<forall>s\<in>P \<union> set xs. (t, s) \<in> (edges g)\<^sup>* \<Longrightarrow> distinct xs \<Longrightarrow>
    distinct acc \<Longrightarrow> \<exists>r. foldE (\<lambda>s. foldE (replace_start g t s) cs) xs acc = Inr r \<and> distinct r
      \<and> set r = entry_of g t cs ` (P \<union> set xs)"
proof (induction xs arbitrary: acc P)
  case (Cons s xs)
  let ?e = "entry_of g t cs"
  have s: "(t, s) \<in> (edges g)\<^sup>*" using Cons.prems(2) by simp
  define acc' where "acc' = (if s \<in> set (concat cs) then sadd (?e s) (remove1 s acc) else acc)"
  have step: "foldE (replace_start g t s) cs acc = Inr acc'"
    by (simp only: replace_loop [OF assms s] acc'_def)
  have d: "distinct acc'" using Cons.prems(4) by (simp add: acc'_def)
  have "set acc' = ?e ` (insert s P) \<union> set xs"
  proof (cases "s \<in> set (concat cs)")
    case True
    then have a: "set acc' = insert (?e s) (set acc - {s})" using Cons.prems(4) by (simp add: acc'_def)
    have "?e s = s" if "s \<in> ?e ` P"
    proof -
      from that obtain p where "p \<in> P" "s = ?e p" by blast
      with entry_of_idem [OF assms, of p] Cons.prems(2) show ?thesis by simp
    qed
    with Cons.prems(1,3) show ?thesis unfolding a by auto
  next
    case False
    then have "acc' = acc" by (simp add: acc'_def)
    moreover have "?e s = s" by (rule entry_of_component(3) [OF assms s False])
    ultimately show ?thesis using Cons.prems(1) by auto
  qed
  from Cons.IH [OF this _ _ d] Cons.prems(2,3) step show ?case by simp
qed simp

lemma handleCycles_ok:
  assumes "wf_graph g" "nodeExists g t" "\<forall>s\<in>set starts. (t, s) \<in> (edges g)\<^sup>*" "distinct starts"
    and "getStronglyConnectedComponents g = Inr sccs"
  shows "\<exists>r. handleCycles g starts t = Inr r \<and> distinct r \<and> set r = entry_of g t sccs ` set starts"
proof -
  from getStronglyConnectedComponents_sound [OF assms(1)] assms(5)
  have sccs: "distinct (concat sccs)" "\<forall>C\<in>set sccs. C \<noteq> []" by auto
  have all: "filter (\<lambda>cycle. length cycle \<ge> 1) sccs = sccs"
    using sccs(2) by (auto intro!: filter_True simp: Suc_le_eq)
  show ?thesis
  proof (cases "sccs = []")
    case True
    then have "entry_of g t sccs = (\<lambda>s. s)" by (simp add: entry_of_def fun_eq_iff)
    with True assms(4,5) show ?thesis by (simp add: handleCycles_def)
  next
    case False
    then have "handleCycles g starts t = foldE (\<lambda>s. foldE (replace_start g t s) sccs) starts starts"
      using assms(5) all by (simp add: handleCycles_def Let_def)
    with handle_loop [OF assms(1,2) sccs(1), of starts "{}" starts] assms(3,4) show ?thesis by simp
  qed
qed

end
