(* ===== verification/Find_Subgraph.thy ===== *)
theory Find_Subgraph
  imports Graph_Edit
begin

text \<open>
  \<^verbatim>\<open>find-subgraph.ts\<close>: the part of the graph between a trigger and a destination, collected
  by walking main connections backwards from the destination.
\<close>

section \<open>Definitions\<close>

definition keep_connection :: "gconn \<Rightarrow> digraph \<Rightarrow> digraph res" where
  "keep_connection c h = addGConn c (addNodes [gc_from c, gc_to c] h)"

definition keep_branch :: "gconn list \<Rightarrow> digraph \<Rightarrow> digraph res" where
  "keep_branch branch h = foldE keep_connection branch h"

function findSubgraphRecursive ::
  "digraph \<Rightarrow> inode \<Rightarrow> inode \<Rightarrow> inode \<Rightarrow> gconn list \<Rightarrow> digraph \<Rightarrow> digraph res" where
  "findSubgraphRecursive g destinationNode current trigger branch newGraph =
     (if current = trigger then keep_branch branch (addNode trigger newGraph)
      else bindE (getDirectParentConnections g current) (\<lambda>parentConnections.
        if parentConnections = [] then Inr newGraph
        else if current = destinationNode \<and> destinationNode \<in> set (map gc_to branch) then Inr newGraph
        else if current \<in> set (map gc_to branch) then keep_branch branch newGraph
        else foldE (\<lambda>pc h.
            if gc_type pc \<noteq> Main then Inr h
            else findSubgraphRecursive g destinationNode (gc_from pc) trigger (branch @ [pc]) h)
          parentConnections newGraph))"
  by pat_completeness auto
termination
proof (relation "measure (\<lambda>(g, d, current, t, branch, h). card (set (node_list g) - set (map gc_to branch)))",
    goal_cases)
  case (2 g d current t branch newGraph pcs pc h)
  then have "gc_to pc = current" "current \<in> set (node_list g)"
    by (auto simp: getDirectParentConnections_Inr dest: nodeExists_in)
  then have "card (set (node_list g) - set (map gc_to (branch @ [pc])))
      < card (set (node_list g) - set (map gc_to branch))"
    using 2 by (intro psubset_card_mono) auto
  then show ?case by simp
qed simp

declare findSubgraphRecursive.simps [simp del]

text \<open>The loop that adds the connections of other types back, for one node of the subgraph.\<close>

definition addUtilityConnections :: "digraph \<Rightarrow> inode \<Rightarrow> digraph \<Rightarrow> digraph res" where
  "addUtilityConnections g n subgraph =
     bindE (getParentConnections g n) (\<lambda>cs.
       foldE (\<lambda>c h. if gc_type c = Main then Inr h else keep_connection c h) cs subgraph)"

definition findSubgraph :: "digraph \<Rightarrow> inode \<Rightarrow> inode \<Rightarrow> digraph res" where
  "findSubgraph g destination trigger =
     bindE (findSubgraphRecursive g destination destination trigger [] empty_graph) (\<lambda>subgraph.
       foldE (addUtilityConnections g) (map snd (getNodes subgraph)) subgraph)"

section \<open>Parts of a graph\<close>

definition part_of :: "digraph \<Rightarrow> digraph \<Rightarrow> bool" where
  "part_of h g \<longleftrightarrow> wf_graph h \<and> set (conns h) \<subseteq> set (conns g) \<and> set (node_list h) \<subseteq> set (node_list g)"

lemma part_of_empty [simp]: "part_of empty_graph g"
  by (simp add: part_of_def) (simp add: empty_graph_def conns_def node_list_def)

lemma part_of_addable:
  assumes "wf_graph g" and "part_of h g" and "nodeExists g n"
  shows "addable n h"
proof (cases "mget (dg_nodes h) (n_name n)")
  case (Some m)
  have nm: "n_name m = n_name n" using wf_graphD(3) [of h] assms(2) Some by (simp add: part_of_def)
  then have "nodeExists h m" using Some by (simp add: nodeExists_def)
  then have "nodeExists g m"
    using assms(1,2) by (auto simp: part_of_def wf_nodeExists_iff)
  with nm assms(3) have "m = n" by (simp add: nodeExists_def)
  with \<open>nodeExists h m\<close> show ?thesis by (simp add: addable_def)
qed (simp add: addable_def)

lemma node_list_addNode:
  assumes "wf_graph h" and "addable n h"
  shows "set (node_list (addNode n h)) = insert n (set (node_list h))"
proof -
  have wf: "wf_graph (addNode n h)" by (rule wf_addNode [OF assms])
  have "nodeExists (addNode n h) m \<longleftrightarrow> m = n \<or> nodeExists h m" for m
    using assms(2) by (auto simp: addNode_def addable_def nodeExists_def)
  with wf assms(1) show ?thesis by (auto simp flip: wf_nodeExists_iff)
qed

lemma part_of_addNode:
  assumes "wf_graph g" and "part_of h g" and "nodeExists g n"
  shows "part_of (addNode n h) g" and "set (node_list (addNode n h)) = insert n (set (node_list h))"
proof -
  note a = part_of_addable [OF assms]
  have wf: "wf_graph h" using assms(2) by (simp add: part_of_def)
  show nl: "set (node_list (addNode n h)) = insert n (set (node_list h))" by (rule node_list_addNode [OF wf a])
  show "part_of (addNode n h) g"
    using assms wf_addNode [OF wf a] by (auto simp: part_of_def nl wf_nodeExists_iff)
qed

text \<open>Two connections of a graph with the same key are the same, so none replaces another in a part of it.\<close>

lemma wf_graph_keys:
  assumes "wf_graph g" "c \<in> set (conns g)" "e \<in> set (conns g)" "makeKey c = makeKey e"
  shows "c = e"
proof -
  have key: "mget (dg_connections g) (makeKey x) = Some x" if "x \<in> set (conns g)" for x
  proof -
    from that obtain k where k: "(k, x) \<in> set (dg_connections g)" by (auto simp: conns_def)
    have d: "distinct (map fst (dg_connections g))" and "k = makeKey x"
      using assms(1) k by (simp add: wf_graph_def, fastforce simp: wf_graph_def)
    then show ?thesis using map_of_is_SomeI [OF d k] by simp
  qed
  have "Some c = Some e" using key [OF assms(2)] key [OF assms(3)] unfolding assms(4) by (rule subst)
  then show ?thesis by simp
qed

text \<open>Keeping a connection of \<open>g\<close> in a part of \<open>g\<close> never fails and adds exactly that.\<close>

lemma keep_connection_ok:
  assumes "wf_graph g" "part_of h g" "c \<in> set (conns g)"
  shows "\<exists>h'. keep_connection c h = Inr h' \<and> part_of h' g \<and> set (conns h') = insert c (set (conns h))
    \<and> set (node_list h') = {gc_from c, gc_to c} \<union> set (node_list h)"
proof -
  have ends: "nodeExists g (gc_from c)" "nodeExists g (gc_to c)" using wf_graph_conn [OF assms(1,3)] by auto
  define h1 where "h1 = addNode (gc_from c) h"
  have h1: "part_of h1 g" "set (node_list h1) = insert (gc_from c) (set (node_list h))"
    using part_of_addNode [OF assms(1,2) ends(1)] by (simp_all add: h1_def)
  define h2 where "h2 = addNode (gc_to c) h1"
  have h2: "part_of h2 g" "set (node_list h2) = {gc_from c, gc_to c} \<union> set (node_list h)"
    using part_of_addNode [OF assms(1) h1(1) ends(2)] h1(2) by (auto simp: h2_def)
  have wf2: "wf_graph h2" using h2(1) by (simp add: part_of_def)
  have ex: "nodeExists h2 (gc_from c)" "nodeExists h2 (gc_to c)"
    using h2(2) by (simp_all add: wf_nodeExists_iff [OF wf2])
  have same: "e = c" if "e \<in> set (conns h2)" "makeKey e = makeKey c" for e
    using wf_graph_keys [OF assms(1) _ assms(3) that(2)] that(1) h2(1) by (auto simp: part_of_def)
  have k: "keep_connection c h = Inr (set_connection c h2)"
    using ex by (simp add: keep_connection_def addNodes_def addGConn_Inr flip: h1_def h2_def)
  have cn: "set (conns (set_connection c h2)) = insert c (set (conns h))"
  proof -
    have "set (conns (set_connection c h2)) = insert c (set (conns h2))"
      using same by (auto simp: conns_set_connection [OF wf2])
    then show ?thesis by (simp add: h1_def h2_def)
  qed
  have "part_of (set_connection c h2) g"
    using h2(1) assms(2,3) cn wf_set_connection [OF wf2 ex] by (auto simp: part_of_def node_list_def)
  with k cn h2(2) show ?thesis by (auto simp: node_list_def)
qed

lemma keep_branch_ok:
  assumes "wf_graph g" "part_of h g" "set branch \<subseteq> set (conns g)"
  shows "\<exists>h'. keep_branch branch h = Inr h' \<and> part_of h' g \<and> set (conns h') = set branch \<union> set (conns h)
    \<and> set (node_list h') = gc_from ` set branch \<union> gc_to ` set branch \<union> set (node_list h)"
  using assms(2,3) unfolding keep_branch_def
proof (induction branch arbitrary: h)
  case (Cons c cs)
  from keep_connection_ok [OF assms(1) Cons.prems(1), of c] Cons.prems(2) obtain h1 where
      h1: "keep_connection c h = Inr h1" "part_of h1 g" "set (conns h1) = insert c (set (conns h))"
        "set (node_list h1) = {gc_from c, gc_to c} \<union> set (node_list h)" by auto
  from Cons.IH [OF h1(2)] Cons.prems(2) h1 show ?case by auto
qed simp

section \<open>The backward walk\<close>

text \<open>\<open>back_chain g d b n\<close>: \<open>b\<close> leads backwards from \<open>d\<close> to \<open>n\<close> over main connections of \<open>g\<close>.\<close>

fun back_chain :: "digraph \<Rightarrow> inode \<Rightarrow> gconn list \<Rightarrow> inode \<Rightarrow> bool" where
  "back_chain g d [] n = (n = d)"
| "back_chain g d (c # cs) n =
     (c \<in> set (conns g) \<and> gc_type c = Main \<and> gc_to c = d \<and> back_chain g (gc_from c) cs n)"

lemma back_chain_snoc:
  "back_chain g d (b @ [c]) n \<longleftrightarrow> c \<in> set (conns g) \<and> gc_type c = Main \<and> back_chain g d b (gc_to c) \<and> n = gc_from c"
  by (induction b arbitrary: d) auto

lemma back_chain_conns: "back_chain g d b n \<Longrightarrow> set b \<subseteq> {c \<in> set (conns g). gc_type c = Main}"
  by (induction b arbitrary: d) auto

lemma back_chain_reaches: "back_chain g d b n \<Longrightarrow> (n, d) \<in> (main_edges g)\<^sup>*"
proof (induction b arbitrary: d)
  case (Cons c b)
  then have "(gc_from c, d) \<in> main_edges g" by (auto simp: tedges_def)
  with Cons show ?case by (auto intro: rtrancl_into_rtrancl)
qed simp

lemma back_chain_all_reach:
  "back_chain g d b n \<Longrightarrow> c \<in> set b \<Longrightarrow> (gc_to c, d) \<in> (main_edges g)\<^sup>*"
proof (induction b arbitrary: d)
  case (Cons e b)
  then have e: "(gc_from e, d) \<in> main_edges g" "gc_to e = d" by (auto simp: tedges_def)
  show ?case
  proof (cases "c = e")
    case False
    with Cons have "(gc_to c, gc_from e) \<in> (main_edges g)\<^sup>*" by auto
    with e(1) show ?thesis by (rule rtrancl_into_rtrancl [rotated])
  qed (use e in simp)
qed simp

text \<open>
  What the walk adds: only main connections from which the destination can be reached. It never
  fails and never loses a connection.
\<close>

definition walk_inv :: "digraph \<Rightarrow> inode \<Rightarrow> digraph \<Rightarrow> bool" where
  "walk_inv g d h \<longleftrightarrow> part_of h g \<and>
     (\<forall>c\<in>set (conns h). gc_type c = Main \<and> (gc_to c, d) \<in> (main_edges g)\<^sup>*) \<and>
     (\<forall>n\<in>set (node_list h). (n, d) \<in> (main_edges g)\<^sup>*)"

lemma walk_inv_keep_branch:
  assumes "wf_graph g" "walk_inv g d h" "back_chain g d branch n"
  shows "\<exists>h'. keep_branch branch h = Inr h' \<and> walk_inv g d h' \<and> set (conns h') = set branch \<union> set (conns h)
    \<and> set (node_list h) \<subseteq> set (node_list h')"
proof -
  have b: "set branch \<subseteq> set (conns g)" using back_chain_conns [OF assms(3)] by auto
  have "part_of h g" using assms(2) by (simp add: walk_inv_def)
  from keep_branch_ok [OF assms(1) this b] obtain h' where
      h': "keep_branch branch h = Inr h'" "part_of h' g" "set (conns h') = set branch \<union> set (conns h)"
        "set (node_list h') = gc_from ` set branch \<union> gc_to ` set branch \<union> set (node_list h)" by blast
  have r: "(gc_to c, d) \<in> (main_edges g)\<^sup>*" "(gc_from c, d) \<in> (main_edges g)\<^sup>*" "gc_type c = Main" if "c \<in> set branch" for c
  proof -
    show "(gc_to c, d) \<in> (main_edges g)\<^sup>*" by (rule back_chain_all_reach [OF assms(3) that])
    show m: "gc_type c = Main" using back_chain_conns [OF assms(3)] that by auto
    have "(gc_from c, gc_to c) \<in> main_edges g" using b that m by (auto simp: tedges_def)
    with \<open>(gc_to c, d) \<in> (main_edges g)\<^sup>*\<close> show "(gc_from c, d) \<in> (main_edges g)\<^sup>*"
      by (rule converse_rtrancl_into_rtrancl [rotated])
  qed
  have "gc_type c = Main \<and> (gc_to c, d) \<in> (main_edges g)\<^sup>*" if "c \<in> set (conns h')" for c
    using that r(1,3) [of c] assms(2) by (auto simp: h'(3) walk_inv_def)
  moreover have "(m, d) \<in> (main_edges g)\<^sup>*" if "m \<in> set (node_list h')" for m
    using that r(1,2) assms(2) by (auto simp: h'(4) walk_inv_def)
  ultimately have "walk_inv g d h'" using h'(2) by (simp add: walk_inv_def)
  with h' show ?thesis by blast
qed

lemma findSubgraphRecursive_ok:
  assumes "wf_graph g" "nodeExists g trigger"
  shows "walk_inv g d h \<Longrightarrow> back_chain g d branch current \<Longrightarrow> nodeExists g current \<Longrightarrow>
    \<exists>h'. findSubgraphRecursive g d current trigger branch h = Inr h' \<and> walk_inv g d h'
      \<and> set (conns h) \<subseteq> set (conns h')"
  using assms
proof (induction g d current trigger branch h rule: findSubgraphRecursive.induct)
  case (1 g d current trigger branch h)
  note eq = findSubgraphRecursive.simps [of g d current trigger branch h]
  obtain ps where ps: "getDirectParentConnections g current = Inr ps"
    "ps = filter (\<lambda>c. gc_to c = current) (conns g)"
    using "1.prems"(3) by (simp add: getDirectParentConnections_def)
  consider (trigger) "current = trigger"
    | (stop) "current \<noteq> trigger" "ps = [] \<or> current = d \<and> d \<in> set (map gc_to branch)"
    | (cycle) "current \<noteq> trigger" "ps \<noteq> []" "\<not> (current = d \<and> d \<in> set (map gc_to branch))"
        "current \<in> set (map gc_to branch)"
    | (rec) "current \<noteq> trigger" "ps \<noteq> []" "current \<notin> set (map gc_to branch)" by auto
  then show ?case
  proof cases
    case trigger
    have "(trigger, d) \<in> (main_edges g)\<^sup>*" using back_chain_reaches [OF "1.prems"(2)] trigger by simp
    then have "walk_inv g d (addNode trigger h)"
      using part_of_addNode [OF "1.prems"(4) _ "1.prems"(5), of h] "1.prems"(1) by (auto simp: walk_inv_def)
    from walk_inv_keep_branch [OF "1.prems"(4) this "1.prems"(2)] obtain h' where
        "keep_branch branch (addNode trigger h) = Inr h'" "walk_inv g d h'"
        "set (conns h') = set branch \<union> set (conns h)" by auto
    moreover from this trigger have "findSubgraphRecursive g d current trigger branch h = Inr h'"
      by (subst eq) simp
    ultimately show ?thesis by auto
  next
    case stop
    with ps "1.prems"(1) show ?thesis by (auto simp: eq)
  next
    case cycle
    with walk_inv_keep_branch [OF "1.prems"(4,1,2)] ps show ?thesis by (auto simp: eq)
  next
    case rec
    let ?f = "\<lambda>pc h. if gc_type pc \<noteq> Main then Inr h
      else findSubgraphRecursive g d (gc_from pc) trigger (branch @ [pc]) h"
    have "\<exists>t. foldE ?f ps h = Inr t \<and> (walk_inv g d t \<and> set (conns h) \<subseteq> set (conns t))"
    proof (rule foldE_total)
      show "walk_inv g d h \<and> set (conns h) \<subseteq> set (conns h)" using "1.prems"(1) by simp
      show "\<exists>b. ?f pc a = Inr b \<and> (walk_inv g d b \<and> set (conns h) \<subseteq> set (conns b))"
        if pc: "pc \<in> set ps" and a: "walk_inv g d a \<and> set (conns h) \<subseteq> set (conns a)" for pc a
      proof (cases "gc_type pc = Main")
        case True
        have c: "pc \<in> set (conns g)" "gc_to pc = current" using pc ps(2) by auto
        have chain: "back_chain g d (branch @ [pc]) (gc_from pc)"
          using "1.prems"(2) c True by (simp add: back_chain_snoc)
        have "nodeExists g (gc_from pc)" using wf_graph_conn [OF "1.prems"(4) c(1)] by simp
        have nd: "\<not> (current = d \<and> d \<in> set (map gc_to branch))" using rec(3) by auto
        have "\<exists>b. findSubgraphRecursive g d (gc_from pc) trigger (branch @ [pc]) a = Inr b
            \<and> walk_inv g d b \<and> set (conns a) \<subseteq> set (conns b)"
          by (rule "1.IH" [OF rec(1) ps(1) rec(2) nd rec(3) pc])
             (use True a chain \<open>nodeExists g (gc_from pc)\<close> "1.prems"(4,5) in simp_all)
        with a True show ?thesis by fastforce
      qed (use a in simp)
    qed
    with rec ps show ?thesis by (auto simp: eq)
  qed
qed

section \<open>Every simple path is kept\<close>

definition simple_back_path :: "digraph \<Rightarrow> inode \<Rightarrow> gconn list \<Rightarrow> inode \<Rightarrow> bool" where
  "simple_back_path g d p n = (back_chain g d p n \<and> distinct (map gc_to p) \<and> n \<notin> set (map gc_to p))"

lemma findSubgraphRecursive_complete:
  assumes "wf_graph g" "nodeExists g trigger"
  shows "walk_inv g d h \<Longrightarrow> back_chain g d branch current \<Longrightarrow> nodeExists g current \<Longrightarrow>
    simple_back_path g current p trigger \<Longrightarrow> set (map gc_to p) \<inter> set (map gc_to branch) = {} \<Longrightarrow>
    findSubgraphRecursive g d current trigger branch h = Inr h' \<Longrightarrow> set branch \<union> set p \<subseteq> set (conns h')"
proof (induction p arbitrary: current branch h h')
  case Nil
  then have "current = trigger" by (simp add: simple_back_path_def)
  have "(trigger, d) \<in> (main_edges g)\<^sup>*" using back_chain_reaches [OF Nil(2)] \<open>current = trigger\<close> by simp
  then have "walk_inv g d (addNode trigger h)"
    using part_of_addNode [OF assms(1) _ assms(2), of h] Nil(1) by (auto simp: walk_inv_def)
  from walk_inv_keep_branch [OF assms(1) this Nil(2)] Nil(6) \<open>current = trigger\<close> show ?case
    by (subst (asm) findSubgraphRecursive.simps) auto
next
  case (Cons c p)
  let ?f = "\<lambda>pc h. if gc_type pc \<noteq> Main then Inr h
      else findSubgraphRecursive g d (gc_from pc) trigger (branch @ [pc]) h"
  have c: "c \<in> set (conns g)" "gc_type c = Main" "gc_to c = current" "back_chain g (gc_from c) p trigger"
    "current \<noteq> trigger" "current \<notin> set (map gc_to branch)"
    using Cons.prems(4,5) by (auto simp: simple_back_path_def)
  define ps where "ps = filter (\<lambda>c. gc_to c = current) (conns g)"
  have ps: "getDirectParentConnections g current = Inr ps"
    using Cons.prems(3) by (simp add: getDirectParentConnections_def ps_def)
  have cps: "c \<in> set ps" using c by (simp add: ps_def)
  then have ne: "ps \<noteq> []" by auto
  have nd: "\<not> (current = d \<and> d \<in> set (map gc_to branch))" using c(6) by auto
  have loop: "foldE ?f ps h = Inr h'"
    using Cons.prems(6) c(5) ps ne nd c(6)
    by (subst (asm) findSubgraphRecursive.simps) (simp only: bindE_simps if_False)
  have ok: "\<exists>b. ?f pc a = Inr b \<and> (walk_inv g d b \<and> set (conns a) \<subseteq> set (conns b))"
    if "pc \<in> set ps" "walk_inv g d a" for pc a
  proof (cases "gc_type pc = Main")
    case True
    have "pc \<in> set (conns g)" "gc_to pc = current" using that(1) by (simp_all add: ps_def)
    with True Cons.prems(2) have "back_chain g d (branch @ [pc]) (gc_from pc)" "nodeExists g (gc_from pc)"
      using wf_graph_conn [OF assms(1)] by (simp_all add: back_chain_snoc)
    from findSubgraphRecursive_ok [OF assms that(2) this] True show ?thesis by simp
  qed (use that in simp)
  have fold_ok: "\<exists>t. foldE ?f qs a = Inr t \<and> (walk_inv g d t \<and> set (conns a) \<subseteq> set (conns t))"
    if "set qs \<subseteq> set ps" "walk_inv g d a" for qs a
    using that ok by (intro foldE_total) fastforce+
  obtain xs ys where split: "ps = xs @ c # ys" using cps by (meson split_list)
  from fold_ok [of xs h] Cons.prems(1) split obtain h1 where
      h1: "foldE ?f xs h = Inr h1" "walk_inv g d h1" by auto
  from ok [OF cps h1(2)] obtain h2 where h2: "?f c h1 = Inr h2" "walk_inv g d h2" by blast
  from fold_ok [of ys h2] h2(2) split obtain h3 where
      h3: "foldE ?f ys h2 = Inr h3" "set (conns h2) \<subseteq> set (conns h3)" by auto
  have "h3 = h'" using loop h1(1) h2(1) h3(1) by (simp add: split foldE_append)
  have "set (branch @ [c]) \<union> set p \<subseteq> set (conns h2)"
  proof (rule Cons.IH [OF h1(2)])
    show "back_chain g d (branch @ [c]) (gc_from c)" using Cons.prems(2) c by (simp add: back_chain_snoc)
    show "nodeExists g (gc_from c)" using wf_graph_conn [OF assms(1) c(1)] by simp
    show "simple_back_path g (gc_from c) p trigger" "set (map gc_to p) \<inter> set (map gc_to (branch @ [c])) = {}"
      using Cons.prems(4,5) by (auto simp: simple_back_path_def)
    show "findSubgraphRecursive g d (gc_from c) trigger (branch @ [c]) h1 = Inr h2"
      using h2(1) c(2) by simp
  qed
  with h3(2) \<open>h3 = h'\<close> show ?case by auto
qed

lemma back_chain_cut: "back_chain g d (p1 @ e # p2) n \<Longrightarrow> back_chain g d p1 (gc_to e)"
  by (induction p1 arbitrary: d) auto

lemma simple_back_path_exists:
  "(n, d) \<in> (main_edges g)\<^sup>* \<Longrightarrow> \<exists>p. simple_back_path g d p n"
proof (induction rule: converse_rtrancl_induct)
  case base
  then show ?case by (intro exI [of _ "[]"]) (simp add: simple_back_path_def)
next
  case (step n m)
  then obtain p where p: "back_chain g d p m" "distinct (map gc_to p)" "m \<notin> set (map gc_to p)"
    by (auto simp: simple_back_path_def)
  from step.hyps(1) obtain c where c: "c \<in> set (conns g)" "gc_type c = Main" "gc_from c = n" "gc_to c = m"
    by (auto simp: tedges_def)
  let ?q = "p @ [c]"
  have q: "back_chain g d ?q n" "distinct (map gc_to ?q)" using p c by (auto simp: back_chain_snoc)
  show ?case
  proof (cases "n \<in> set (map gc_to ?q)")
    case False
    with q show ?thesis by (intro exI [of _ ?q]) (simp add: simple_back_path_def)
  next
    case True
    then obtain e where "e \<in> set ?q" "gc_to e = n" by auto
    then obtain q1 q2 where s: "?q = q1 @ e # q2" by (meson split_list)
    with q \<open>gc_to e = n\<close> have "back_chain g d q1 n" "distinct (map gc_to (q1 @ e # q2))"
      using back_chain_cut by (metis, metis)
    with \<open>gc_to e = n\<close> show ?thesis by (auto simp: simple_back_path_def)
  qed
qed

section \<open>The whole function\<close>

lemma addUtilityConnections_ok:
  assumes "wf_graph g" "part_of h g" "nodeExists g n"
  shows "\<exists>h'. addUtilityConnections g n h = Inr h' \<and> part_of h' g
    \<and> set (conns h') = set (conns h) \<union> {c \<in> set (conns g). gc_type c \<noteq> Main \<and> (gc_to c, n) \<in> (edges g)\<^sup>*}
    \<and> set (node_list h') = set (node_list h) \<union> (\<Union>c \<in> {c \<in> set (conns g). gc_type c \<noteq> Main
        \<and> (gc_to c, n) \<in> (edges g)\<^sup>*}. {gc_from c, gc_to c})"
proof -
  obtain cs where cs: "getParentConnections g n = Inr cs"
    using getParentConnections_total [OF assms(1,3)] by blast
  note set_cs = getParentConnections_set [OF assms(1) cs]
  let ?f = "\<lambda>c h. if gc_type c = Main then Inr h else keep_connection c h"
  have "\<exists>h'. foldE ?f es h = Inr h' \<and> part_of h' g
      \<and> set (conns h') = set (conns h) \<union> {c \<in> set es. gc_type c \<noteq> Main}
      \<and> set (node_list h') = set (node_list h) \<union> (\<Union>c \<in> {c \<in> set es. gc_type c \<noteq> Main}. {gc_from c, gc_to c})"
    if "set es \<subseteq> set (conns g)" for es
    using assms(2) that
  proof (induction es arbitrary: h)
    case (Cons c es)
    show ?case
    proof (cases "gc_type c = Main")
      case True
      have "{e. (e = c \<or> e \<in> set es) \<and> gc_type e \<noteq> Main} = {e \<in> set es. gc_type e \<noteq> Main}" using True by auto
      with Cons.IH [OF Cons.prems(1)] Cons.prems(2) True show ?thesis by simp
    next
      case False
      from keep_connection_ok [OF assms(1) Cons.prems(1), of c] Cons.prems(2) obtain h1 where
          h1: "keep_connection c h = Inr h1" "part_of h1 g" "set (conns h1) = insert c (set (conns h))"
            "set (node_list h1) = {gc_from c, gc_to c} \<union> set (node_list h)" by auto
      have "{e. (e = c \<or> e \<in> set es) \<and> gc_type e \<noteq> Main} = insert c {e \<in> set es. gc_type e \<noteq> Main}"
        using False by auto
      with Cons.IH [OF h1(2)] Cons.prems(2) False h1 show ?thesis by auto
    qed
  qed simp
  from this [of cs] set_cs show ?thesis
    by (simp add: addUtilityConnections_def cs conj_commute conj_left_commute)
qed

lemma addUtilityConnections_loop:
  assumes "wf_graph g"
  shows "part_of h g \<Longrightarrow> \<forall>n\<in>set ns. nodeExists g n \<Longrightarrow>
    \<exists>h'. foldE (addUtilityConnections g) ns h = Inr h' \<and> part_of h' g
      \<and> set (conns h') = set (conns h) \<union>
          {c \<in> set (conns g). gc_type c \<noteq> Main \<and> (\<exists>n\<in>set ns. (gc_to c, n) \<in> (edges g)\<^sup>*)}
      \<and> set (node_list h) \<subseteq> set (node_list h')"
proof (induction ns arbitrary: h)
  case (Cons n ns)
  from addUtilityConnections_ok [OF assms Cons.prems(1), of n] Cons.prems(2) obtain h1 where
      h1: "addUtilityConnections g n h = Inr h1" "part_of h1 g"
        "set (conns h1) = set (conns h) \<union> {c \<in> set (conns g). gc_type c \<noteq> Main \<and> (gc_to c, n) \<in> (edges g)\<^sup>*}"
        "set (node_list h) \<subseteq> set (node_list h1)" by auto
  from Cons.IH [OF h1(2)] Cons.prems(2) obtain h2 where
      h2: "foldE (addUtilityConnections g) ns h1 = Inr h2" "part_of h2 g"
        "set (conns h2) = set (conns h1) \<union>
          {c \<in> set (conns g). gc_type c \<noteq> Main \<and> (\<exists>n\<in>set ns. (gc_to c, n) \<in> (edges g)\<^sup>*)}"
        "set (node_list h1) \<subseteq> set (node_list h2)" by auto
  have "set (conns h2) = set (conns h) \<union>
      {c \<in> set (conns g). gc_type c \<noteq> Main \<and> (\<exists>m\<in>set (n # ns). (gc_to c, m) \<in> (edges g)\<^sup>*)}"
    unfolding h2(3) h1(3) by auto
  with h1 h2 show ?case by auto
qed simp

text \<open>
  The whole function is total; its main connections are exactly those the walk keeps, and the
  other connections are those that lead to a node the walk kept.
\<close>

lemma findSubgraph_result:
  assumes "wf_graph g" "nodeExists g d" "nodeExists g t"
  obtains k h where "findSubgraphRecursive g d d t [] empty_graph = Inr k" "walk_inv g d k"
    "findSubgraph g d t = Inr h" "part_of h g" "set (node_list k) \<subseteq> set (node_list h)"
    "set (conns h) = set (conns k) \<union>
      {c \<in> set (conns g). gc_type c \<noteq> Main \<and> (\<exists>n\<in>set (node_list k). (gc_to c, n) \<in> (edges g)\<^sup>*)}"
proof -
  have "walk_inv g d empty_graph" 
    by (simp add: walk_inv_def) (simp add: empty_graph_def conns_def node_list_def)
  from findSubgraphRecursive_ok [OF assms(1,3) this _ assms(2), of "[]"] obtain k where
      k: "findSubgraphRecursive g d d t [] empty_graph = Inr k" "walk_inv g d k" by auto
  have pk: "part_of k g" using k(2) by (simp add: walk_inv_def)
  have nl: "map snd (getNodes k) = node_list k" by (simp add: getNodes_def node_list_def)
  have "\<forall>n\<in>set (node_list k). nodeExists g n"
    using pk assms(1) by (auto simp: part_of_def wf_nodeExists_iff)
  from addUtilityConnections_loop [OF assms(1) pk this] obtain h where
      h: "foldE (addUtilityConnections g) (node_list k) k = Inr h" "part_of h g"
        "set (conns h) = set (conns k) \<union>
          {c \<in> set (conns g). gc_type c \<noteq> Main \<and> (\<exists>n\<in>set (node_list k). (gc_to c, n) \<in> (edges g)\<^sup>*)}"
        "set (node_list k) \<subseteq> set (node_list h)" by blast
  have "findSubgraph g d t = Inr h" by (simp add: findSubgraph_def k nl h)
  then show ?thesis by (rule that [OF k _ h(2,4,3)])
qed

lemma findSubgraph_keeps_simple_paths:
  assumes "wf_graph g" "nodeExists g d" "nodeExists g t"
    and "simple_back_path g d p t" and "findSubgraph g d t = Inr h"
  shows "set p \<subseteq> set (conns h)"
proof (rule findSubgraph_result [OF assms(1-3)])
  fix k h'
  assume k: "findSubgraphRecursive g d d t [] empty_graph = Inr k" "findSubgraph g d t = Inr h'"
    and sub: "set (conns h') = set (conns k) \<union>
      {c \<in> set (conns g). gc_type c \<noteq> Main \<and> (\<exists>n\<in>set (node_list k). (gc_to c, n) \<in> (edges g)\<^sup>*)}"
  have "walk_inv g d empty_graph"
    by (simp add: walk_inv_def) (simp add: empty_graph_def conns_def node_list_def)
  from findSubgraphRecursive_complete [OF assms(1,3) this _ assms(2,4) _ k(1)]
  have "set p \<subseteq> set (conns k)" by simp
  with k(2) assms(5) sub show ?thesis by auto
qed

lemma simple_back_path_reaches:
  assumes "back_chain g d p t" and "set p \<subseteq> set (conns h)"
  shows "(t, d) \<in> (main_edges h)\<^sup>*"
  using assms
proof (induction p arbitrary: d)
  case (Cons c p)
  then have "(gc_from c, d) \<in> main_edges h" by (auto simp: tedges_def)
  with Cons show ?case by (auto intro: rtrancl_into_rtrancl)
qed simp

text \<open>Reachability of the destination from the trigger survives.\<close>

lemma findSubgraph_reaches:
  assumes "wf_graph g" "nodeExists g d" "nodeExists g t"
    and "(t, d) \<in> (main_edges g)\<^sup>*" and "findSubgraph g d t = Inr h"
  shows "(t, d) \<in> (main_edges h)\<^sup>*"
proof -
  from simple_back_path_exists [OF assms(4)] obtain p where p: "simple_back_path g d p t" by blast
  from findSubgraph_keeps_simple_paths [OF assms(1-3) p assms(5)]
  show ?thesis using p by (intro simple_back_path_reaches) (auto simp: simple_back_path_def)
qed

end
