(* ===== verification/Rewire_Graph.thy ===== *)
theory Rewire_Graph
  imports Graph_Edit
begin

text \<open>
  \<^verbatim>\<open>rewire-graph.ts\<close>: for the partial execution of a tool, the agent it belongs to is replaced by
  a virtual executor node. The assignment to \<^verbatim>\<open>tool.rewireOutputLogTo\<close> changes an object the
  graph shares, so every occurrence of the tool in the graph changes.
\<close>

section \<open>Definitions\<close>

definition TOOL_EXECUTOR_NODE_NAME :: string where
  "TOOL_EXECUTOR_NODE_NAME = ''PartialExecutionToolExecutor''"

record agent_request =
  ar_query :: "json obj"
  ar_toolName :: "string option"

text \<open>
  The virtual node: \<open>r\<close> is the identity of the new object, \<open>stringify\<close> is \<^verbatim>\<open>JSON.stringify\<close>.
\<close>

definition toolExecutorNode ::
  "(json obj \<Rightarrow> string) \<Rightarrow> nat \<Rightarrow> inode \<Rightarrow> inode \<Rightarrow> agent_request option \<Rightarrow> inode" where
  "toolExecutorNode stringify r rootNode tool agentRequest = \<lparr>n_ref = r, n_id = n_id rootNode,
     n_name = TOOL_EXECUTOR_NODE_NAME, n_type = ''@n8n/n8n-nodes-langchain.toolExecutor'',
     n_typeVersion = 0, n_position = (0, 0), n_disabled = Some False, n_retryOnFail = None,
     n_maxTries = None, n_waitBetweenTries = None, n_alwaysOutputData = None, n_executeOnce = None,
     n_onError = None, n_continueOnFail = None,
     n_parameters =
       [(''query'', JStr (stringify (case agentRequest of None \<Rightarrow> [] | Some q \<Rightarrow> ar_query q))),
        (''toolName'', JStr (case agentRequest of None \<Rightarrow> '''' | Some q \<Rightarrow>
           (case ar_toolName q of None \<Rightarrow> '''' | Some t \<Rightarrow> t))),
        (''node'', JStr (n_name tool))],
     n_rewireOutputLogTo = None, n_forceCustomOperation = None, n_customTelemetryTags = None\<rparr>"

text \<open>The assignment to a property of a node object held by the graph.\<close>

definition mutate_node :: "inode \<Rightarrow> inode \<Rightarrow> inode \<Rightarrow> inode" where
  "mutate_node old new n = (if n = old then new else n)"

definition mutate_conn :: "inode \<Rightarrow> inode \<Rightarrow> gconn \<Rightarrow> gconn" where
  "mutate_conn old new c = c\<lparr>gc_from := mutate_node old new (gc_from c), gc_to := mutate_node old new (gc_to c)\<rparr>"

definition mutate_graph :: "inode \<Rightarrow> inode \<Rightarrow> digraph \<Rightarrow> digraph" where
  "mutate_graph old new g =
     \<lparr>dg_nodes = map (\<lambda>(k, n). (k, mutate_node old new n)) (dg_nodes g),
      dg_connections = map (\<lambda>(k, c). (k, mutate_conn old new c)) (dg_connections g)\<rparr>"

text \<open>The result: the graph returned and the tool as it is afterwards.\<close>

definition rewireGraph ::
  "(json obj \<Rightarrow> string) \<Rightarrow> nat \<Rightarrow> inode \<Rightarrow> digraph \<Rightarrow> agent_request option \<Rightarrow> (digraph \<times> inode) res" where
  "rewireGraph stringify r tool graph agentRequest =
     bindE (clone graph) (\<lambda>modifiedGraph.
     bindE (getChildren modifiedGraph tool) (\<lambda>children.
       if length children = 0 then Inr (graph, tool)
       else
         let rootNode = last children in
         bindE (getDirectParentConnections modifiedGraph rootNode) (\<lambda>parents.
           let allIncomingConnection = filter (\<lambda>cn. gc_type cn = Main) parents;
               toolExecutor = toolExecutorNode stringify r rootNode tool agentRequest;
               modifiedGraph = addNode toolExecutor modifiedGraph;
               tool' = tool\<lparr>n_rewireOutputLogTo := Some AiTool\<rparr>;
               modifiedGraph = mutate_graph tool tool' modifiedGraph;
               allIncomingConnection = map (mutate_conn tool tool') allIncomingConnection;
               rootNode = mutate_node tool tool' rootNode
           in bindE (addConnection tool' toolExecutor (Some AiTool) None None modifiedGraph) (\<lambda>modifiedGraph.
              bindE (foldE (\<lambda>cn. addConnection (gc_from cn) toolExecutor (Some (gc_type cn)) None None)
                       allIncomingConnection modifiedGraph) (\<lambda>modifiedGraph.
              bindE (removeNode rootNode False (\<lambda>_. False) modifiedGraph) (\<lambda>res.
                Inr (fst res, tool')))))))"

section \<open>Mutation of a shared node\<close>

lemma mutate_node_name [simp]: "n_name new = n_name old \<Longrightarrow> n_name (mutate_node old new n) = n_name n"
  by (simp add: mutate_node_def)

lemma mutate_conn_sel [simp]:
  "gc_from (mutate_conn old new c) = mutate_node old new (gc_from c)"
  "gc_to (mutate_conn old new c) = mutate_node old new (gc_to c)"
  "gc_type (mutate_conn old new c) = gc_type c"
  "gc_outputIndex (mutate_conn old new c) = gc_outputIndex c"
  "gc_inputIndex (mutate_conn old new c) = gc_inputIndex c"
  by (simp_all add: mutate_conn_def)

lemma map_of_map_snd: "map_of (map (\<lambda>(k, v). (k, f v)) m) k = map_option f (map_of m k)"
  by (induction m) auto

lemma conns_mutate_graph: "conns (mutate_graph old new g) = map (mutate_conn old new) (conns g)"
  by (simp add: conns_def mutate_graph_def case_prod_beta comp_def)

lemma nodeExists_mutate:
  assumes "n_name new = n_name old" "nodeExists g n"
  shows "nodeExists (mutate_graph old new g) (mutate_node old new n)"
  using assms by (simp add: nodeExists_def mutate_graph_def map_of_map_snd)

lemma wf_mutate_graph:
  assumes "wf_graph g" "n_name new = n_name old"
  shows "wf_graph (mutate_graph old new g)"
proof (rule wf_graphI)
  show "distinct (map fst (dg_nodes (mutate_graph old new g)))"
    "distinct (map fst (dg_connections (mutate_graph old new g)))"
    using wf_graphD(1,2) [OF assms(1)] by (simp_all add: mutate_graph_def comp_def case_prod_beta)
  show "n_name m = k" if "mget (dg_nodes (mutate_graph old new g)) k = Some m" for k m
    using that wf_graphD(3) [OF assms(1)] assms(2) by (auto simp: mutate_graph_def map_of_map_snd)
  show "makeKey c = k \<and> nodeExists (mutate_graph old new g) (gc_from c)
      \<and> nodeExists (mutate_graph old new g) (gc_to c)"
    if "mget (dg_connections (mutate_graph old new g)) k = Some c" for k c
  proof -
    from that obtain d where d: "mget (dg_connections g) k = Some d" "c = mutate_conn old new d"
      by (auto simp: mutate_graph_def map_of_map_snd)
    with wf_graphD(4-6) [OF assms(1) d(1)] assms(2) show ?thesis
      by (simp add: makeKey_def nodeExists_mutate)
  qed
qed

lemma plain_mutate_graph:
  "plain_graph g \<Longrightarrow> n_name new = n_name old \<Longrightarrow> plain_graph (mutate_graph old new g)"
  by (simp add: plain_graph_def conns_mutate_graph list_all_iff plain_conn_def)

lemma addConnection_eq:
  assumes "nodeExists g a" "nodeExists g b"
  shows "addConnection a b (Some ty) None None g =
    Inr (set_connection \<lparr>gc_from = a, gc_to = b, gc_type = ty, gc_outputIndex = 0, gc_inputIndex = 0\<rparr> g)"
  using assms by (simp add: addConnection_def)

abbreviation link :: "inode \<Rightarrow> inode \<Rightarrow> conn_type \<Rightarrow> gconn" where
  "link a b ty \<equiv> \<lparr>gc_from = a, gc_to = b, gc_type = ty, gc_outputIndex = 0, gc_inputIndex = 0\<rparr>"

lemma link_loop:
  assumes "wf_graph g" "plain_graph g" "nodeExists g b"
    and "\<forall>cn\<in>set cns. nodeExists g (gc_from cn) \<and> plain (n_name (gc_from cn)) \<and> plain (gc_type cn)"
  shows "\<exists>h. foldE (\<lambda>cn. addConnection (gc_from cn) b (Some (gc_type cn)) None None) cns g = Inr h
    \<and> wf_graph h \<and> plain_graph h \<and> dg_nodes h = dg_nodes g
    \<and> set (conns h) = set (conns g) \<union> (\<lambda>cn. link (gc_from cn) b (gc_type cn)) ` set cns"
  using assms
proof (induction cns arbitrary: g)
  case (Cons cn cns)
  let ?c = "link (gc_from cn) b (gc_type cn)"
  have c: "plain_conn ?c" "nodeExists g (gc_from ?c)" "nodeExists g (gc_to ?c)"
    using Cons.prems by (simp_all add: plain_conn_def)
  let ?g = "set_connection ?c g"
  have g: "wf_graph ?g" "plain_graph ?g" "set (conns ?g) = insert ?c (set (conns g))"
    using Cons.prems(1,2) c by (simp_all add: wf_set_connection plain_set_connection conns_set_connection_plain)
  have "foldE (\<lambda>cn. addConnection (gc_from cn) b (Some (gc_type cn)) None None) (cn # cns) g =
      foldE (\<lambda>cn. addConnection (gc_from cn) b (Some (gc_type cn)) None None) cns ?g"
    using c by (simp add: addConnection_eq)
  with Cons.IH [OF g(1,2)] Cons.prems(3,4) g(3) show ?case by auto
qed auto

section \<open>The rewired graph\<close>

text \<open>
  With a child: the root (the last child found) is gone, the executor is in its place, the tool
  leads to it, and so does every main source of the root.
\<close>

lemma rewireGraph_ok:
  fixes stringify :: "json obj \<Rightarrow> string" and r :: nat and req :: "agent_request option"
  assumes wf: "wf_graph g" and pl: "plain_graph g" and tool: "nodeExists g tool"
    and fresh: "\<not> hasNode g TOOL_EXECUTOR_NODE_NAME" and names: "plain (n_name tool)"
    and ch: "getChildren g tool = Inr children" "children \<noteq> []"
  defines "agent \<equiv> last children" and "tool' \<equiv> tool\<lparr>n_rewireOutputLogTo := Some AiTool\<rparr>"
  defines "ex \<equiv> toolExecutorNode stringify r agent tool req"
  assumes noself: "agent \<noteq> tool"
  shows "\<exists>h. rewireGraph stringify r tool g req = Inr (h, tool') \<and> wf_graph h
    \<and> nodeExists h ex \<and> \<not> hasNode h (n_name agent)
    \<and> link tool' ex AiTool \<in> set (conns h)
    \<and> (\<forall>c\<in>set (conns g). gc_to c = agent \<and> gc_type c = Main \<and> gc_from c \<noteq> agent \<longrightarrow>
         link (mutate_node tool tool' (gc_from c)) ex Main \<in> set (conns h))"
proof -
  have agent: "nodeExists g agent"
  proof -
    have "agent \<in> set children" using ch(2) by (simp add: agent_def)
    then have "(tool, agent) \<in> (edges g)\<^sup>+" using getChildren_set [OF wf ch(1)] by simp
    then show ?thesis using rtrancl_nodeExists wf tool by (metis trancl_into_rtrancl)
  qed
  define parents where "parents = filter (\<lambda>c. gc_to c = agent) (conns g)"
  define inc where "inc = map (mutate_conn tool tool') (filter (\<lambda>cn. gc_type cn = Main) parents)"
  have nm: "n_name tool' = n_name tool" by (simp add: tool'_def)
  have exname: "n_name ex = TOOL_EXECUTOR_NODE_NAME" by (simp add: ex_def toolExecutorNode_def)
  have nokey: "mget (dg_nodes g) (n_name ex) = None" using fresh by (simp add: hasNode_def mhas_def exname)
  have exn: "ex \<noteq> tool" "n_name agent \<noteq> n_name ex"
    using nokey tool agent by (auto simp: nodeExists_def)
  define g1 where "g1 = addNode ex g"
  have g1: "wf_graph g1" "plain_graph g1" "nodeExists g1 ex"
  proof -
    have "addable ex g" using nokey by (simp add: addable_def)
    with wf show "wf_graph g1" by (simp add: g1_def wf_addNode)
    show "plain_graph g1" using pl by (simp add: g1_def plain_graph_def)
    show "nodeExists g1 ex" by (simp add: g1_def addNode_def nodeExists_def)
  qed
  have old1: "nodeExists g1 n" if "nodeExists g n" for n
    using that nokey by (auto simp: g1_def addNode_def nodeExists_def)
  define g2 where "g2 = mutate_graph tool tool' g1"
  have g2: "wf_graph g2" "plain_graph g2"
    using g1 nm by (simp_all add: g2_def wf_mutate_graph plain_mutate_graph)
  have ex2: "nodeExists g2 ex" using nodeExists_mutate [OF nm g1(3)] exn(1) by (simp add: g2_def mutate_node_def)
  have old2: "nodeExists g2 (mutate_node tool tool' n)" if "nodeExists g n" for n
    using nodeExists_mutate [OF nm old1 [OF that]] by (simp add: g2_def)
  have t2: "nodeExists g2 tool'" using old2 [OF tool] by (simp add: mutate_node_def)
  let ?l = "link tool' ex AiTool"
  have lp: "plain_conn ?l" using names nm by (simp add: plain_conn_def) (simp add: plain_def)
  define g3 where "g3 = set_connection ?l g2"
  have g3: "wf_graph g3" "plain_graph g3" "set (conns g3) = insert ?l (set (conns g2))" "dg_nodes g3 = dg_nodes g2"
    using g2 lp ex2 t2 by (simp_all add: g3_def wf_set_connection plain_set_connection conns_set_connection_plain)
  have keep3: "nodeExists g3 n = nodeExists g2 n" for n by (simp add: nodeExists_def g3(4))
  have pm: "plain Main" by (simp add: plain_def)
  have "\<forall>cn\<in>set inc. nodeExists g3 (gc_from cn) \<and> plain (n_name (gc_from cn)) \<and> plain (gc_type cn)"
    using wf_graph_conn [OF wf] plain_graph_conn [OF pl] old2 nm pm
    by (auto simp: inc_def parents_def keep3 plain_conn_def)
  from link_loop [OF g3(1,2) _ this, of ex] ex2 keep3 obtain g4 where
      g4: "foldE (\<lambda>cn. addConnection (gc_from cn) ex (Some (gc_type cn)) None None) inc g3 = Inr g4"
        "wf_graph g4" "dg_nodes g4 = dg_nodes g2"
        "set (conns g4) = set (conns g3) \<union> (\<lambda>cn. link (gc_from cn) ex (gc_type cn)) ` set inc"
    using g3(4) by auto
  have mroot: "mutate_node tool tool' agent = agent" using noself by (simp add: mutate_node_def)
  have root4: "nodeExists g4 agent" using old2 [OF agent] mroot g4(3) by (simp add: nodeExists_def)
  from removeNode_plain [OF g4(2) root4, of "\<lambda>_. False"] obtain h where
      h: "removeNode agent False (\<lambda>_. False) g4 = Inr (h, None)" "wf_graph h"
        "dg_nodes h = mdel (n_name agent) (dg_nodes g4)"
        "set (conns h) = {c \<in> set (conns g4). gc_from c \<noteq> agent \<and> gc_to c \<noteq> agent}" by blast
  have add: "addConnection tool' ex (Some AiTool) None None g2 = Inr g3"
    using ex2 t2 by (simp add: addConnection_eq g3_def)
  have par: "getDirectParentConnections g agent = Inr parents"
    using agent by (simp add: getDirectParentConnections_def parents_def)
  have "rewireGraph stringify r tool g req = Inr (h, tool')"
    using ch(2) g4(1) h(1) add
    by (simp add: rewireGraph_def clone_wf [OF wf] ch(1) par Let_def mroot
        flip: agent_def tool'_def ex_def g1_def g2_def inc_def)
  moreover have "nodeExists h ex" using ex2 exn(2) by (simp add: nodeExists_def h(3) g4(3))
  moreover have "\<not> hasNode h (n_name agent)" by (simp add: hasNode_def mhas_def h(3))
  moreover have ne: "ex \<noteq> agent" "tool' \<noteq> agent" 
    using exn(2) t2 root4 noself old2 [OF tool] agent tool nm by (auto simp: nodeExists_def g4(3))
  moreover have "?l \<in> set (conns h)" using ne by (simp add: h(4) g4(4) g3(3))
  moreover have "link (mutate_node tool tool' (gc_from c)) ex Main \<in> set (conns h)"
    if "c \<in> set (conns g)" "gc_to c = agent" "gc_type c = Main" "gc_from c \<noteq> agent" for c
  proof -
    have "mutate_conn tool tool' c \<in> set inc" using that by (auto simp: inc_def parents_def)
    then have "link (mutate_node tool tool' (gc_from c)) ex Main \<in> set (conns g4)"
      using that(3) unfolding g4(4) by (intro UnI2 image_eqI [of _ _ "mutate_conn tool tool' c"]) simp_all
    moreover have "mutate_node tool tool' (gc_from c) \<noteq> agent" using ne(2) that(4) by (simp add: mutate_node_def)
    ultimately show ?thesis using ne(1) by (simp add: h(4))
  qed
  ultimately show ?thesis using h(2) by blast
qed

end
