(* ===== verification/Graph_Properties.thy ===== *)
theory Graph_Properties
  imports Sample_Data Tarjan_SCC Handle_Cycles Find_Subgraph Rewire_Graph
begin

text \<open>
  What the graph component promises: the searches return exactly what is reachable, the editing
  operations keep the paths of the workflow, and where they do not.
\<close>

section \<open>Searches\<close>

text \<open>
  C34: \<^verbatim>\<open>getChildren\<close> is total on the nodes of a well-formed graph and returns, without
  duplicates, exactly the nodes at the end of a non-empty path from the node, cycles included.
\<close>

theorem getChildren_correct:
  assumes "wf_graph g" "nodeExists g n"
  shows "\<exists>xs. getChildren g n = Inr xs \<and> distinct xs \<and> set xs = (edges g)\<^sup>+ `` {n}"
  using getChildren_total [OF assms] getChildren_set [OF assms(1)] getChildren_distinct by blast

theorem getChildren_correct_witness:
  "(edges loop_graph)\<^sup>+ `` {nodeT} = {nodeA, nodeB} \<and> getChildren loop_graph nodeT = Inr [nodeA, nodeB]"
proof -
  have v: "getChildren loop_graph nodeT = Inr [nodeA, nodeB]" by code_simp
  from getChildren_correct [OF wf_loop_graph nodeExists_loop_graph(1)] v show ?thesis by auto
qed

text \<open>
  \<^verbatim>\<open>getParentConnections\<close> is total on the nodes of a well-formed graph and returns exactly
  the connections whose target leads to the node.
\<close>

theorem getParentConnections_correct:
  assumes "wf_graph g" "nodeExists g n"
  shows "\<exists>cs. getParentConnections g n = Inr cs \<and> set cs = {c \<in> set (conns g). (gc_to c, n) \<in> (edges g)\<^sup>*}"
  using getParentConnections_total [OF assms] getParentConnections_set [OF assms(1)] by blast

theorem getParentConnections_correct_witness:
  "set (conns chain_graph) \<subseteq> {c. (gc_to c, nodeB) \<in> (edges chain_graph)\<^sup>*}"
proof -
  have v: "(case getParentConnections chain_graph nodeB of Inr cs \<Rightarrow> set (conns chain_graph) \<subseteq> set cs | _ \<Rightarrow> False)"
    by code_simp
  from getParentConnections_correct [OF wf_chain_graph nodeExists_chain_graph(4)] obtain cs where
    cs: "getParentConnections chain_graph nodeB = Inr cs"
      "set cs = {c \<in> set (conns chain_graph). (gc_to c, nodeB) \<in> (edges chain_graph)\<^sup>*}" by blast
  from v cs(1) have "set (conns chain_graph) \<subseteq> set cs" by simp
  with cs(2) show ?thesis by blast
qed

text \<open>
  \<^verbatim>\<open>depthFirstSearch\<close> never fails on a node of a well-formed graph; it returns a reachable
  node that satisfies the predicate, and \<^verbatim>\<open>undefined\<close> exactly when no reachable node does.
\<close>

theorem depthFirstSearch_correct:
  assumes "wf_graph g" "nodeExists g a"
  shows "\<exists>r. depthFirstSearch g a fn = Inr r \<and>
    (case r of Some m \<Rightarrow> fn m \<and> (a, m) \<in> (edges g)\<^sup>* | None \<Rightarrow> \<forall>b. (a, b) \<in> (edges g)\<^sup>* \<longrightarrow> \<not> fn b)"
  using depthFirstSearch_spec [OF assms, of fn] by (auto split: sum.splits)

theorem depthFirstSearch_correct_witness: "(nodeT, nodeB) \<in> (edges chain_graph)\<^sup>*"
proof -
  have v: "depthFirstSearch chain_graph nodeT (\<lambda>n. n = nodeB) = Inr (Some nodeB)" by code_simp
  from depthFirstSearch_correct [OF wf_chain_graph nodeExists_chain_graph(1), of "\<lambda>n. n = nodeB"] v
  show ?thesis by simp
qed

text \<open>
  C23: \<^verbatim>\<open>getStronglyConnectedComponents\<close> is total on a well-formed graph; the components it
  returns are not empty, disjoint, and any two nodes of one reach each other.
\<close>

theorem getStronglyConnectedComponents_correct:
  assumes "wf_graph g"
  shows "\<exists>sccs. getStronglyConnectedComponents g = Inr sccs \<and> distinct (concat sccs) \<and>
    (\<forall>C\<in>set sccs. C \<noteq> [] \<and> (\<forall>x\<in>set C. \<forall>y\<in>set C. (x, y) \<in> (edges g)\<^sup>*))"
  by (rule getStronglyConnectedComponents_sound [OF assms])

theorem getStronglyConnectedComponents_correct_witness:
  "(nodeA, nodeB) \<in> (edges loop_graph)\<^sup>* \<and> (nodeB, nodeA) \<in> (edges loop_graph)\<^sup>*"
proof -
  have v: "getStronglyConnectedComponents loop_graph = Inr [[nodeB, nodeA], [nodeT]]" by code_simp
  from getStronglyConnectedComponents_correct [OF wf_loop_graph] v show ?thesis by auto
qed

text \<open>
  \<^verbatim>\<open>getStronglyConnectedComponents\<close> is incomplete: popping the stack by lowlink, not until the
  node itself, it misses a component whose inner cycle is found first, and then every component
  below it on the stack. On \<open>T -> A\<close>, \<open>A -> B -> C -> B\<close>, \<open>B -> A\<close> it returns nothing at all.
\<close>

theorem getStronglyConnectedComponents_misses_nested_cycle:
  "getStronglyConnectedComponents nested_cycle_graph = Inr [] \<and>
    {(nodeA, nodeB), (nodeB, nodeC), (nodeC, nodeB), (nodeB, nodeA)} \<subseteq> edges nested_cycle_graph"
proof
  show "getStronglyConnectedComponents nested_cycle_graph = Inr []" by code_simp
  show "{(nodeA, nodeB), (nodeB, nodeC), (nodeC, nodeB), (nodeB, nodeA)} \<subseteq> edges nested_cycle_graph" by code_simp
qed

section \<open>Editing\<close>

text \<open>
  \<^verbatim>\<open>removeNode\<close> with \<^verbatim>\<open>reconnectConnections\<close>, on a node without a self loop, yields a
  well-formed graph without the node, in which two other nodes are connected by a path of the
  reconnected types exactly when they were before.
\<close>

theorem removeNode_keeps_paths:
  assumes "wf_graph g" "plain_graph g" "nodeExists g n" "(n, n) \<notin> tedges Q g"
  shows "\<exists>g' new. removeNode n True (\<lambda>c. \<not> Q (gc_type c)) g = Inr (g', Some new) \<and> wf_graph g'
    \<and> \<not> hasNode g' (n_name n)
    \<and> (\<forall>a b. a \<noteq> n \<longrightarrow> b \<noteq> n \<longrightarrow> ((a, b) \<in> (tedges Q g')\<^sup>+ \<longleftrightarrow> (a, b) \<in> (tedges Q g)\<^sup>+))"
proof -
  from removeNode_reconnect [OF assms] obtain g' new where
      "removeNode n True (\<lambda>c. \<not> Q (gc_type c)) g = Inr (g', Some new)" "wf_graph g'"
      "dg_nodes g' = mdel (n_name n) (dg_nodes g)" "tedges Q g' = contract n (tedges Q g)" by blast
  then show ?thesis by (simp add: contract_paths [OF assms(4)] hasNode_def mhas_def)
qed

theorem removeNode_keeps_paths_witness:
  "(nodeT, nodeB) \<in> (main_edges chain_graph)\<^sup>+ \<and>
   (case removeNode nodeD True (\<lambda>c. \<not> gc_type c = Main) chain_graph of
      Inr (g', _) \<Rightarrow> (nodeT, nodeB) \<in> (main_edges g')\<^sup>+ \<and> \<not> hasNode g' ''D'' | Inl _ \<Rightarrow> False)"
proof -
  note e = main_edges_chain_graph and p = chain_path
  have ne: "nodeT \<noteq> nodeD" "nodeB \<noteq> nodeD" "nodeA \<noteq> nodeD" "n_name nodeD = ''D''" by code_simp+
  then have "(nodeD, nodeD) \<notin> main_edges chain_graph" by (simp add: e)
  from removeNode_keeps_paths [OF wf_chain_graph plain_chain_graph nodeExists_chain_graph(3) this] p ne
  show ?thesis by auto
qed

text \<open>
  \<^verbatim>\<open>removeNode\<close> with \<^verbatim>\<open>reconnectConnections\<close> on a node connected to itself leaves
  connections of the removed node behind: the self loop is an incoming and an outgoing connection,
  so the new connections start or end at the node itself and are added after the old ones are gone.
\<close>

theorem removeNode_self_loop_dangles:
  "wf_graph self_loop_graph \<and>
   (case filterDisabledNodes self_loop_graph of
      Inr g' \<Rightarrow> \<not> hasNode g' (n_name nodeD) \<and> nodeD \<in> gc_from ` set (conns g') \<and> \<not> wf_graph g'
    | Inl _ \<Rightarrow> False)"
proof
  show "wf_graph self_loop_graph" by (rule wf_self_loop_graph)
  show "case filterDisabledNodes self_loop_graph of
      Inr g' \<Rightarrow> \<not> hasNode g' (n_name nodeD) \<and> nodeD \<in> gc_from ` set (conns g') \<and> \<not> wf_graph g'
    | Inl _ \<Rightarrow> False" by code_simp
qed

text \<open>
  \<^verbatim>\<open>filterDisabledNodes\<close>, on a graph whose disabled nodes are on no cycle of their own, is
  total; the result has exactly the enabled nodes and between them the same main paths.
\<close>

theorem filterDisabledNodes_correct:
  assumes "wf_graph g" "plain_graph g" "disabled_acyclic g"
  shows "\<exists>g'. filterDisabledNodes g = Inr g' \<and> wf_graph g'
    \<and> set (node_list g') = {n \<in> set (node_list g). \<not> disabled n}
    \<and> (\<forall>a b. \<not> disabled a \<longrightarrow> \<not> disabled b \<longrightarrow> ((a, b) \<in> (main_edges g')\<^sup>+ \<longleftrightarrow> (a, b) \<in> (main_edges g)\<^sup>+))"
proof -
  from filterDisabledNodes_spec [OF assms] obtain g' where g': "filterDisabledNodes g = Inr g'" "wf_graph g'"
      "dg_nodes g' = filter (\<lambda>(k, m). \<not> disabled m) (dg_nodes g)"
      "\<forall>a b. \<not> disabled a \<longrightarrow> \<not> disabled b \<longrightarrow> ((a, b) \<in> (main_edges g')\<^sup>+ \<longleftrightarrow> (a, b) \<in> (main_edges g)\<^sup>+)" by blast
  have "set (node_list g') = {n \<in> set (node_list g). \<not> disabled n}"
    unfolding node_list_def g'(3) by force
  with g' show ?thesis by blast
qed

theorem filterDisabledNodes_correct_witness:
  "\<exists>g'. filterDisabledNodes chain_graph = Inr g' \<and> wf_graph g' \<and> nodeD \<notin> set (node_list g')
    \<and> (nodeT, nodeB) \<in> (main_edges g')\<^sup>+"
proof -
  note e = main_edges_chain_graph and p = chain_path
  have d: "\<not> disabled nodeT" "\<not> disabled nodeB" "\<not> disabled nodeA" "disabled nodeD" by code_simp+
  have "main_edges chain_graph \<inter> {n. disabled n} \<times> {n. disabled n} = {}" using d by (auto simp: e)
  then have "disabled_acyclic chain_graph" by (simp add: disabled_acyclic_def acyclic_def)
  from filterDisabledNodes_correct [OF wf_chain_graph plain_chain_graph this] p d show ?thesis by auto
qed

text \<open>
  two different connections can have the same key, as node names may contain the separator:
  adding the second replaces the first, whose edge is lost.
\<close>

theorem makeKey_collision:
  "wf_graph hyphen_graph \<and> nodeExists hyphen_graph hyphenAB \<and> nodeExists hyphen_graph hyphenC \<and>
   (case addConnection hyphenAB hyphenC None None None hyphen_graph of
      Inr g' \<Rightarrow> (hyphenA, hyphenBC) \<in> edges hyphen_graph \<and> edges g' = {(hyphenAB, hyphenC)}
    | Inl _ \<Rightarrow> False)"
  by code_simp

text \<open>
  Without the separator in names and types, \<^verbatim>\<open>addConnection\<close> between nodes of the graph
  adds that connection and keeps all others.
\<close>

theorem addConnection_adds:
  assumes "wf_graph g" "plain_graph g" "nodeExists g a" "nodeExists g b" "plain (n_name a)" "plain ty"
  shows "\<exists>g'. addConnection a b (Some ty) (Some i) (Some j) g = Inr g' \<and> wf_graph g' \<and>
    set (conns g') = insert \<lparr>gc_from = a, gc_to = b, gc_type = ty, gc_outputIndex = i, gc_inputIndex = j\<rparr> (set (conns g))"
proof -
  let ?c = "\<lparr>gc_from = a, gc_to = b, gc_type = ty, gc_outputIndex = i, gc_inputIndex = j\<rparr>"
  have "plain_conn ?c" using assms(5,6) by (simp add: plain_conn_def)
  with conns_set_connection_plain [OF assms(1,2) this] wf_set_connection [OF assms(1), of ?c] assms(3,4)
  show ?thesis by (simp add: addConnection_def)
qed

theorem addConnection_adds_witness:
  "(case addConnection nodeA nodeB (Some Main) (Some 1) (Some 0) chain_graph of
      Inr g' \<Rightarrow> wf_graph g' \<and> set (conns chain_graph) \<subseteq> set (conns g') | Inl _ \<Rightarrow> False)"
proof -
  have "plain (n_name nodeA)" "plain Main" by code_simp+
  from addConnection_adds [OF wf_chain_graph plain_chain_graph nodeExists_chain_graph(2,4) this, of 1 0]
  show ?thesis by auto
qed

text \<open>The clone of a well-formed graph is equal to it, nodes and connections in the same order.\<close>

theorem clone_equal:
  assumes "wf_graph g"
  shows "clone g = Inr g"
  by (rule clone_wf [OF assms])

theorem clone_equal_witness: "clone loop_graph = Inr loop_graph"
  by (rule clone_equal [OF wf_loop_graph])

section \<open>Subgraph and cycles\<close>

text \<open>
  C24: \<^verbatim>\<open>findSubgraph\<close> is total and returns a part of the graph: the main connections it keeps
  lead to the destination, every main path without repeated node from the trigger to the destination is
  kept (so the destination stays reachable), and a connection of another type is kept exactly when
  it leads to a kept node.
\<close>

theorem findSubgraph_correct:
  assumes "wf_graph g" "nodeExists g d" "nodeExists g t"
  shows "\<exists>h. findSubgraph g d t = Inr h \<and> part_of h g
    \<and> (\<forall>c\<in>set (conns h). gc_type c = Main \<longrightarrow> (gc_to c, d) \<in> (main_edges g)\<^sup>*)
    \<and> (\<forall>p. simple_back_path g d p t \<longrightarrow> set p \<subseteq> set (conns h))
    \<and> ((t, d) \<in> (main_edges g)\<^sup>* \<longrightarrow> (t, d) \<in> (main_edges h)\<^sup>*)
    \<and> (\<forall>c\<in>set (conns g). gc_type c \<noteq> Main \<and> (\<exists>e\<in>set (conns h). gc_type e = Main \<and>
          ((gc_to c, gc_to e) \<in> (edges g)\<^sup>* \<or> (gc_to c, gc_from e) \<in> (edges g)\<^sup>*)) \<longrightarrow> c \<in> set (conns h))"
proof (rule findSubgraph_result [OF assms])
  fix k h
  assume k: "walk_inv g d k" and h: "findSubgraph g d t = Inr h" "part_of h g"
    and c: "set (conns h) = set (conns k) \<union>
      {c \<in> set (conns g). gc_type c \<noteq> Main \<and> (\<exists>n\<in>set (node_list k). (gc_to c, n) \<in> (edges g)\<^sup>*)}"
  have "(gc_to e, d) \<in> (main_edges g)\<^sup>*" if "e \<in> set (conns h)" "gc_type e = Main" for e
    using that k by (auto simp: c walk_inv_def)
  moreover have "x \<in> set (conns h)"
    if x: "x \<in> set (conns g)" "gc_type x \<noteq> Main" and e: "e \<in> set (conns h)" "gc_type e = Main"
      and r: "(gc_to x, gc_to e) \<in> (edges g)\<^sup>* \<or> (gc_to x, gc_from e) \<in> (edges g)\<^sup>*" for x e
  proof -
    have wk: "wf_graph k" using k by (simp add: walk_inv_def part_of_def)
    have "e \<in> set (conns k)" using e by (auto simp: c)
    from wf_graph_conn [OF wk this] have "gc_to e \<in> set (node_list k)" "gc_from e \<in> set (node_list k)"
      by (simp_all add: wf_nodeExists_iff [OF wk])
    with x r show ?thesis by (auto simp: c)
  qed
  ultimately show ?thesis
    using h findSubgraph_keeps_simple_paths [OF assms _ h(1)] findSubgraph_reaches [OF assms _ h(1)] by blast
qed

theorem findSubgraph_correct_witness:
  "\<exists>h. findSubgraph chain_graph nodeB nodeT = Inr h \<and> (nodeT, nodeB) \<in> (main_edges h)\<^sup>*"
proof -
  have "(nodeT, nodeB) \<in> (main_edges chain_graph)\<^sup>*" by (rule trancl_into_rtrancl [OF chain_path])
  with findSubgraph_correct [OF wf_chain_graph nodeExists_chain_graph(4,1)]
  show ?thesis by blast
qed

text \<open>
  \<^verbatim>\<open>handleCycles\<close> never fails when the trigger reaches the start nodes. A start node in no
  reported component stays; one in a component becomes a node of the same component that the
  trigger reaches, the same for all start nodes of the component.
\<close>

theorem handleCycles_correct:
  assumes "wf_graph g" "nodeExists g t" "\<forall>s\<in>set starts. (t, s) \<in> (edges g)\<^sup>*" "distinct starts"
  shows "\<exists>r sccs f. handleCycles g starts t = Inr r \<and> getStronglyConnectedComponents g = Inr sccs
    \<and> distinct r \<and> set r = f ` set starts
    \<and> (\<forall>s\<in>set starts. (t, f s) \<in> (edges g)\<^sup>* \<and> (s \<notin> set (concat sccs) \<longrightarrow> f s = s)
        \<and> (\<forall>C\<in>set sccs. s \<in> set C \<longrightarrow> f s \<in> set C \<and> (\<forall>s'\<in>set starts \<inter> set C. f s' = f s)))"
proof -
  from getStronglyConnectedComponents_sound [OF assms(1)] obtain sccs where
      sccs: "getStronglyConnectedComponents g = Inr sccs" "distinct (concat sccs)" by blast
  from handleCycles_ok [OF assms sccs(1)] obtain r where
      r: "handleCycles g starts t = Inr r" "distinct r" "set r = entry_of g t sccs ` set starts" by blast
  note e = entry_of_component [OF assms(1,2) sccs(2)]
  have "entry_of g t sccs s' = entry_of g t sccs s"
    if "C \<in> set sccs" "s \<in> set C" "s' \<in> set starts \<inter> set C" "s \<in> set starts" for C s s'
  proof -
    have "depthFirstSearch g t (\<lambda>n. n \<in> set C) \<noteq> Inl x" for x
      using depthFirstSearch_spec [OF assms(1,2), of "\<lambda>n. n \<in> set C"] by (auto split: sum.splits)
    then show ?thesis
      using find_component [OF sccs(2) that(1)] that first_in_component [OF assms(1,2) that(2)] assms(3)
      by (auto simp: entry_of_def)
  qed
  then show ?thesis using r sccs(1) e assms(3)
    by (intro exI [of _ r] exI [of _ sccs] exI [of _ "entry_of g t sccs"]) blast
qed

theorem handleCycles_correct_witness:
  "handleCycles loop_graph [nodeB] nodeT = Inr [nodeA] \<and> (nodeT, nodeA) \<in> (edges loop_graph)\<^sup>*"
proof -
  have v: "handleCycles loop_graph [nodeB] nodeT = Inr [nodeA]" by code_simp
  have e: "(nodeT, nodeA) \<in> edges loop_graph" "(nodeA, nodeB) \<in> edges loop_graph" by code_simp+
  then have "\<forall>s\<in>set [nodeB]. (nodeT, s) \<in> (edges loop_graph)\<^sup>*" by auto
  from handleCycles_correct [OF wf_loop_graph nodeExists_loop_graph(1) this] v show ?thesis by auto
qed

text \<open>
  \<^verbatim>\<open>handleCycles\<close> inherits the missing components: a start node inside nested cycles is
  left as it is, although the node is on a cycle the trigger enters elsewhere.
\<close>

theorem handleCycles_nested_cycle:
  "handleCycles nested_cycle_graph [nodeC] nodeT = Inr [nodeC] \<and>
   handleCycles loop_graph [nodeB] nodeT = Inr [nodeA]"
  by code_simp

text \<open>
  \<^verbatim>\<open>rewireGraph\<close> for a tool with a child: the agent (the last child found) is replaced by
  the virtual executor, to which the tool and every main source of the agent lead; no connection of the
  agent remains.
\<close>

theorem rewireGraph_correct:
  assumes "wf_graph g" "plain_graph g" "nodeExists g tool" "\<not> hasNode g TOOL_EXECUTOR_NODE_NAME"
    and "plain (n_name tool)" "getChildren g tool = Inr children" "children \<noteq> []" "last children \<noteq> tool"
  shows "\<exists>h ex. rewireGraph stringify r tool g req = Inr (h, tool\<lparr>n_rewireOutputLogTo := Some AiTool\<rparr>)
    \<and> wf_graph h \<and> nodeExists h ex \<and> n_name ex = TOOL_EXECUTOR_NODE_NAME \<and> \<not> hasNode h (n_name (last children))
    \<and> (tool\<lparr>n_rewireOutputLogTo := Some AiTool\<rparr>, ex) \<in> tedges (\<lambda>t. t = AiTool) h
    \<and> (\<forall>c\<in>set (conns g). gc_to c = last children \<and> gc_type c = Main \<and> gc_from c \<noteq> last children \<and> gc_from c \<noteq> tool
         \<longrightarrow> (gc_from c, ex) \<in> main_edges h)"
proof -
  let ?ex = "toolExecutorNode stringify r (last children) tool req"
  from rewireGraph_ok [OF assms] obtain h where
      h: "rewireGraph stringify r tool g req = Inr (h, tool\<lparr>n_rewireOutputLogTo := Some AiTool\<rparr>)" "wf_graph h"
        "nodeExists h ?ex" "\<not> hasNode h (n_name (last children))"
        "link (tool\<lparr>n_rewireOutputLogTo := Some AiTool\<rparr>) ?ex AiTool \<in> set (conns h)" and
      l: "\<forall>c\<in>set (conns g). gc_to c = last children \<and> gc_type c = Main \<and> gc_from c \<noteq> last children \<longrightarrow>
         link (mutate_node tool (tool\<lparr>n_rewireOutputLogTo := Some AiTool\<rparr>) (gc_from c)) ?ex Main \<in> set (conns h)"
    by blast
  have "(tool\<lparr>n_rewireOutputLogTo := Some AiTool\<rparr>, ?ex) \<in> tedges (\<lambda>t. t = AiTool) h"
    by (rule tedgesI [OF h(5)]) simp_all
  moreover have "(gc_from c, ?ex) \<in> main_edges h"
    if "c \<in> set (conns g)" "gc_to c = last children" "gc_type c = Main" "gc_from c \<noteq> last children" "gc_from c \<noteq> tool" for c
  proof -
    have "link (gc_from c) ?ex Main \<in> set (conns h)" using l that by (auto simp: mutate_node_def)
    then show ?thesis by (rule tedgesI) simp_all
  qed
  moreover have "n_name ?ex = TOOL_EXECUTOR_NODE_NAME" by (simp add: toolExecutorNode_def)
  ultimately show ?thesis using h by blast
qed

theorem rewireGraph_correct_witness:
  "\<exists>h ex. rewireGraph (\<lambda>_. ''{}'') 9 nodeA chain_graph None = Inr (h, nodeA\<lparr>n_rewireOutputLogTo := Some AiTool\<rparr>)
    \<and> n_name ex = TOOL_EXECUTOR_NODE_NAME \<and> \<not> hasNode h (n_name nodeB) \<and> (nodeD, ex) \<in> main_edges h"
proof -
  have c: "getChildren chain_graph nodeA = Inr [nodeD, nodeB]" by code_simp
  have s: "\<not> hasNode chain_graph TOOL_EXECUTOR_NODE_NAME" "plain (n_name nodeA)" "nodeB \<noteq> nodeA"
    "nodeD \<noteq> nodeB" "nodeD \<noteq> nodeA" by code_simp+
  have m: "main_conn nodeD nodeB \<in> set (conns chain_graph)" by code_simp
  have l: "[nodeD, nodeB] \<noteq> []" "last [nodeD, nodeB] \<noteq> nodeA" using s by simp_all
  from rewireGraph_correct [OF wf_chain_graph plain_chain_graph nodeExists_chain_graph(2) s(1,2) c l,
      of "\<lambda>_. ''{}''" 9 None] m s show ?thesis
    by (fastforce simp: main_conn_def)
qed

end
