(* ===== verification/Run_Data_Queries.thy ===== *)
theory Run_Data_Queries
  imports Graph_Search
begin

text \<open>
  Reading and pruning run data: \<^verbatim>\<open>get-incoming-data.ts\<close>, \<^verbatim>\<open>run-data-utils.ts\<close> and
  \<^verbatim>\<open>clean-run-data.ts\<close>.
\<close>

section \<open>Incoming data\<close>

text \<open>
  The optional chaining stops at an absent run or absent \<^verbatim>\<open>data\<close>, but not at an absent
  connection type: \<^verbatim>\<open>data?.[connectionType].at(...)\<close> is a \<^verbatim>\<open>TypeError\<close> there.
\<close>

definition getIncomingData ::
  "run_data \<Rightarrow> string \<Rightarrow> int \<Rightarrow> conn_type \<Rightarrow> nat \<Rightarrow> items option res" where
  "getIncomingData runData nodeName runIndex connectionType outputIndex =
     (case mget runData nodeName of
        None \<Rightarrow> Inr None
      | Some runs \<Rightarrow> (case arr_at runs runIndex of
          None \<Rightarrow> Inr None
        | Some td \<Rightarrow> (case td_data td of
            None \<Rightarrow> Inr None
          | Some data \<Rightarrow> (case mget data connectionType of
              None \<Rightarrow> Inl (TypeError ''at'')
            | Some outputs \<Rightarrow> Inr (Option.bind (arr_get outputs outputIndex) id)))))"

definition getRunIndexLength :: "run_data \<Rightarrow> string \<Rightarrow> nat" where
  "getRunIndexLength runData nodeName = (case mget runData nodeName of None \<Rightarrow> 0 | Some runs \<Rightarrow> length runs)"

fun any_run_loop ::
  "run_data \<Rightarrow> string \<Rightarrow> conn_type \<Rightarrow> nat \<Rightarrow> nat list \<Rightarrow> (items \<times> nat) option res" where
  "any_run_loop runData nodeName connectionType outputIndex [] = Inr None"
| "any_run_loop runData nodeName connectionType outputIndex (runIndex # rs) =
     bindE (getIncomingData runData nodeName (int runIndex) connectionType outputIndex) (\<lambda>d.
       case d of
         None \<Rightarrow> any_run_loop runData nodeName connectionType outputIndex rs
       | Some data \<Rightarrow>
           if length data > 0 then Inr (Some (data, runIndex))
           else any_run_loop runData nodeName connectionType outputIndex rs)"

definition getIncomingDataFromAnyRun ::
  "run_data \<Rightarrow> string \<Rightarrow> conn_type \<Rightarrow> nat \<Rightarrow> (items \<times> nat) option res" where
  "getIncomingDataFromAnyRun runData nodeName connectionType outputIndex =
     any_run_loop runData nodeName connectionType outputIndex [0..<getRunIndexLength runData nodeName]"

text \<open>Every run with data has data of the connection type: then no access throws.\<close>

definition has_type :: "run_data \<Rightarrow> string \<Rightarrow> conn_type \<Rightarrow> bool" where
  "has_type rd nm ty = (case mget rd nm of None \<Rightarrow> True
     | Some runs \<Rightarrow> list_all (\<lambda>td. case td_data td of None \<Rightarrow> True | Some d \<Rightarrow> mhas d ty) runs)"

text \<open>The items at one output of one run, \<open>None\<close> for every way of having none.\<close>

definition run_output :: "run_data \<Rightarrow> string \<Rightarrow> nat \<Rightarrow> conn_type \<Rightarrow> nat \<Rightarrow> items option" where
  "run_output rd nm r ty i = Option.bind (mget rd nm) (\<lambda>runs.
     Option.bind (arr_get runs r) (\<lambda>td. Option.bind (td_data td) (\<lambda>d.
     Option.bind (mget d ty) (\<lambda>outs. Option.bind (arr_get outs i) id))))"

lemma arr_at_SomeD: "arr_at xs i = Some x \<Longrightarrow> x \<in> set xs"
  by (auto simp: arr_at_def Let_def split: if_splits)

lemma getIncomingData_total:
  assumes "has_type rd nm ty"
  shows "\<exists>d. getIncomingData rd nm r ty i = Inr d"
  using assms arr_at_SomeD
  by (fastforce simp: getIncomingData_def has_type_def list_all_iff mhas_def split: option.splits)

lemma getIncomingData_eq:
  assumes "has_type rd nm ty"
  shows "getIncomingData rd nm (int r) ty i = Inr (run_output rd nm r ty i)"
  using assms arr_at_SomeD
  by (fastforce simp: getIncomingData_def run_output_def has_type_def list_all_iff mhas_def
      arr_at_nonneg [symmetric] split: option.splits)

lemma any_run_loop_eq:
  assumes "has_type rd nm ty"
  shows "any_run_loop rd nm ty i rs =
    Inr (case find (\<lambda>r. run_output rd nm r ty i \<notin> {None, Some []}) rs of
           None \<Rightarrow> None | Some r \<Rightarrow> map_option (\<lambda>d. (d, r)) (run_output rd nm r ty i))"
  by (induction rs) (auto simp: getIncomingData_eq [OF assms] split: option.splits)

lemma run_output_bound: "run_output rd nm r ty i \<noteq> None \<Longrightarrow> r < getRunIndexLength rd nm"
  by (auto simp: run_output_def getRunIndexLength_def arr_get_def split: option.splits if_splits bind_splits)

lemma find_upt_least:
  "find P [0..<n] = Some r \<longleftrightarrow> r < n \<and> P r \<and> (\<forall>s<r. \<not> P s)"
  by (auto simp: find_Some_iff)

text \<open>The function returns the first run with items at the output, and only \<open>None\<close> when no run has.\<close>

lemma getIncomingDataFromAnyRun_Some:
  assumes "has_type rd nm ty"
  shows "getIncomingDataFromAnyRun rd nm ty i = Inr (Some (d, r)) \<longleftrightarrow>
    run_output rd nm r ty i = Some d \<and> d \<noteq> [] \<and> (\<forall>s<r. run_output rd nm s ty i \<in> {None, Some []})"
proof -
  let ?P = "\<lambda>r. run_output rd nm r ty i \<notin> {None, Some []}"
  have "getIncomingDataFromAnyRun rd nm ty i = Inr (Some (d, r)) \<longleftrightarrow>
      find ?P [0..<getRunIndexLength rd nm] = Some r \<and> run_output rd nm r ty i = Some d"
    by (auto simp: getIncomingDataFromAnyRun_def any_run_loop_eq [OF assms] split: option.splits)
  then show ?thesis
    using run_output_bound [of rd nm r ty i] by (auto simp: find_upt_least)
qed

lemma getIncomingDataFromAnyRun_None:
  assumes "has_type rd nm ty"
  shows "getIncomingDataFromAnyRun rd nm ty i = Inr None \<longleftrightarrow>
    (\<forall>r. run_output rd nm r ty i \<in> {None, Some []})"
proof -
  let ?P = "\<lambda>r. run_output rd nm r ty i \<notin> {None, Some []}"
  have "getIncomingDataFromAnyRun rd nm ty i = Inr None \<longleftrightarrow>
      find ?P [0..<getRunIndexLength rd nm] = None"
  proof (cases "find ?P [0..<getRunIndexLength rd nm]")
    case (Some r)
    then have "?P r" by (simp add: find_upt_least)
    with Some show ?thesis by (auto simp: getIncomingDataFromAnyRun_def any_run_loop_eq [OF assms])
  qed (simp add: getIncomingDataFromAnyRun_def any_run_loop_eq [OF assms])
  also have "\<dots> \<longleftrightarrow> (\<forall>r. \<not> ?P r)"
    using run_output_bound [of rd nm _ ty i] by (fastforce simp: find_None_iff)
  finally show ?thesis by simp
qed

lemma getIncomingDataFromAnyRun_total:
  "has_type rd nm ty \<Longrightarrow> \<exists>r. getIncomingDataFromAnyRun rd nm ty i = Inr r"
  by (simp add: getIncomingDataFromAnyRun_def any_run_loop_eq)

section \<open>The next execution index\<close>

definition getNextExecutionIndex :: "run_data \<Rightarrow> nat" where
  "getNextExecutionIndex runData =
     (if length (obj_keys runData) = 0 then 0
      else let previousIndices = List.map_filter td_executionIndex (concat (obj_values runData)) in
        if length previousIndices = 0 then 0 else Max (set previousIndices) + 1)"

definition used_indices :: "run_data \<Rightarrow> nat set" where
  "used_indices rd = {i. \<exists>nm runs. mget rd nm = Some runs \<and> Some i \<in> td_executionIndex ` set runs}"

lemma previousIndices_set:
  "set (List.map_filter td_executionIndex (concat (obj_values rd))) = used_indices rd"
  by (force simp: set_map_filter used_indices_def set_obj_values ran_def)

lemma finite_used_indices [simp]: "finite (used_indices rd)"
  by (simp flip: previousIndices_set)

lemma getNextExecutionIndex_eq:
  "getNextExecutionIndex rd = (if used_indices rd = {} then 0 else Suc (Max (used_indices rd)))"
proof (cases "rd = []")
  case True
  then show ?thesis by (simp add: getNextExecutionIndex_def used_indices_def)
next
  case False
  then have "length (obj_keys rd) \<noteq> 0" by simp
  then show ?thesis
    by (simp add: getNextExecutionIndex_def Let_def previousIndices_set flip: set_empty)
qed

lemma getNextExecutionIndex_fresh: "i \<in> used_indices rd \<Longrightarrow> i < getNextExecutionIndex rd"
  by (auto simp: getNextExecutionIndex_eq less_Suc_eq_le)

section \<open>Cleaning run data\<close>

definition delete_subnodes :: "digraph \<Rightarrow> inode \<Rightarrow> run_data \<Rightarrow> run_data res" where
  "delete_subnodes graph node newRunData =
     bindE (getParentConnections graph node) (\<lambda>subNodeConnections.
       Inr (foldl (\<lambda>rd c. if gc_type c = Main then rd else mdel (n_name (gc_from c)) rd)
              (mdel (n_name node) newRunData) subNodeConnections))"

definition clean_node :: "digraph \<Rightarrow> inode \<Rightarrow> run_data \<Rightarrow> run_data res" where
  "clean_node graph nodeToClean newRunData =
     (let rd = mdel (n_name nodeToClean) newRunData in
      bindE (getChildren graph nodeToClean) (\<lambda>children.
        foldE (delete_subnodes graph) (nodeToClean # children) rd))"

definition cleanRunData :: "run_data \<Rightarrow> digraph \<Rightarrow> inode list \<Rightarrow> run_data res" where
  "cleanRunData runData graph nodesToClean =
     bindE (foldE (clean_node graph) nodesToClean runData) (\<lambda>newRunData.
       Inr (foldl (\<lambda>rd nodeName. if hasNode graph nodeName then rd else mdel nodeName rd)
              newRunData (obj_keys newRunData)))"

text \<open>
  The nodes whose data goes when \<open>a\<close> is cleaned: \<open>a\<close>, what is reachable from it, and the sources of
  connections of another type that lead to one of those.
\<close>

definition invalidated :: "digraph \<Rightarrow> inode \<Rightarrow> inode set" where
  "invalidated g a = (edges g)\<^sup>* `` {a} \<union>
     {gc_from c | c. c \<in> set (conns g) \<and> gc_type c \<noteq> Main \<and> (\<exists>b. (a, b) \<in> (edges g)\<^sup>* \<and> (gc_to c, b) \<in> (edges g)\<^sup>*)}"

lemma foldl_mdel_if:
  "mget (foldl (\<lambda>rd x. if Q x then rd else mdel (f x) rd) rd xs) nm =
     (if nm \<in> f ` {x \<in> set xs. \<not> Q x} then None else mget rd nm)"
  by (induction xs arbitrary: rd) auto

lemma foldl_mdel_distinct:
  "distinct (map fst rd) \<Longrightarrow> distinct (map fst (foldl (\<lambda>rd x. if Q x then rd else mdel (f x) rd) rd xs))"
  by (induction xs arbitrary: rd) auto

definition subnode_names :: "digraph \<Rightarrow> inode \<Rightarrow> string set" where
  "subnode_names g n = insert (n_name n)
     {n_name (gc_from c) | c. c \<in> set (conns g) \<and> gc_type c \<noteq> Main \<and> (gc_to c, n) \<in> (edges g)\<^sup>*}"

lemma delete_subnodes_ok:
  assumes "wf_graph g" "nodeExists g n"
  shows "\<exists>rd'. delete_subnodes g n rd = Inr rd' \<and>
    (\<forall>nm. mget rd' nm = (if nm \<in> subnode_names g n then None else mget rd nm))"
proof -
  from getParentConnections_total [OF assms] obtain cs where cs: "getParentConnections g n = Inr cs" by blast
  have "subnode_names g n = insert (n_name n) ((\<lambda>c. n_name (gc_from c)) ` {c \<in> set cs. gc_type c \<noteq> Main})"
    unfolding subnode_names_def getParentConnections_set [OF assms(1) cs] by auto
  then show ?thesis by (simp add: delete_subnodes_def cs foldl_mdel_if)
qed

lemma delete_subnodes_loop:
  assumes "wf_graph g"
  shows "\<forall>n\<in>set ns. nodeExists g n \<Longrightarrow> \<exists>rd'. foldE (delete_subnodes g) ns rd = Inr rd' \<and>
    (\<forall>nm. mget rd' nm = (if nm \<in> (\<Union>n\<in>set ns. subnode_names g n) then None else mget rd nm))"
proof (induction ns arbitrary: rd)
  case (Cons n ns)
  from delete_subnodes_ok [OF assms, of n rd] Cons.prems obtain r1 where
      r1: "delete_subnodes g n rd = Inr r1" "\<forall>nm. mget r1 nm = (if nm \<in> subnode_names g n then None else mget rd nm)"
    by auto
  from Cons.IH [of r1] Cons.prems obtain r2 where "foldE (delete_subnodes g) ns r1 = Inr r2"
      "\<forall>nm. mget r2 nm = (if nm \<in> (\<Union>n\<in>set ns. subnode_names g n) then None else mget r1 nm)" by auto
  with r1 show ?case by auto
qed simp

lemma clean_node_ok:
  assumes "wf_graph g" "nodeExists g a"
  shows "\<exists>rd'. clean_node g a rd = Inr rd' \<and>
    (\<forall>nm. mget rd' nm = (if nm \<in> n_name ` invalidated g a then None else mget rd nm))"
proof -
  from getChildren_total [OF assms] obtain xs where xs: "getChildren g a = Inr xs" by blast
  have reach: "set (a # xs) = (edges g)\<^sup>* `` {a}"
  proof -
    have "(edges g)\<^sup>* `` {a} = insert a ((edges g)\<^sup>+ `` {a})"
      by (subst reflcl_trancl [symmetric]) blast
    then show ?thesis by (simp add: getChildren_set [OF assms(1) xs])
  qed
  have ex: "\<forall>n\<in>set (a # xs). nodeExists g n"
  proof
    fix n assume "n \<in> set (a # xs)"
    then have "(a, n) \<in> (edges g)\<^sup>*" unfolding reach by simp
    then show "nodeExists g n" using assms by (rule rtrancl_nodeExists)
  qed
  have names: "insert (n_name a) (\<Union>n\<in>set (a # xs). subnode_names g n) = n_name ` invalidated g a"
  proof -
    have "(\<Union>n\<in>set (a # xs). subnode_names g n) = n_name ` ((edges g)\<^sup>* `` {a}) \<union>
        n_name ` {gc_from c | c. c \<in> set (conns g) \<and> gc_type c \<noteq> Main \<and>
          (\<exists>b. (a, b) \<in> (edges g)\<^sup>* \<and> (gc_to c, b) \<in> (edges g)\<^sup>*)}"
      (is "?L = ?R1 \<union> ?R2")
    proof (rule set_eqI, rule iffI)
      fix x assume "x \<in> ?L"
      then obtain n where "(a, n) \<in> (edges g)\<^sup>*" "x \<in> subnode_names g n" unfolding reach by auto
      then show "x \<in> ?R1 \<union> ?R2" by (auto simp: subnode_names_def)
    next
      fix x assume "x \<in> ?R1 \<union> ?R2"
      then show "x \<in> ?L" unfolding reach by (auto simp: subnode_names_def)
    qed
    moreover have "n_name a \<in> n_name ` ((edges g)\<^sup>* `` {a})" by auto
    ultimately show ?thesis by (auto simp: invalidated_def image_Un)
  qed
  from delete_subnodes_loop [OF assms(1) ex, of "mdel (n_name a) rd"] obtain r where
      r: "foldE (delete_subnodes g) (a # xs) (mdel (n_name a) rd) = Inr r" and
      m: "\<forall>nm. mget r nm = (if nm \<in> (\<Union>n\<in>set (a # xs). subnode_names g n) then None
        else mget (mdel (n_name a) rd) nm)" by blast
  have "clean_node g a rd = Inr r" using r by (simp add: clean_node_def xs)
  moreover have "mget r nm = (if nm \<in> n_name ` invalidated g a then None else mget rd nm)" for nm
    using m unfolding names [symmetric] by auto
  ultimately show ?thesis by blast
qed

lemma clean_node_loop:
  assumes "wf_graph g"
  shows "\<forall>n\<in>set ns. nodeExists g n \<Longrightarrow> \<exists>rd'. foldE (clean_node g) ns rd = Inr rd' \<and>
    (\<forall>nm. mget rd' nm = (if nm \<in> n_name ` (\<Union>a\<in>set ns. invalidated g a) then None else mget rd nm))"
proof (induction ns arbitrary: rd)
  case (Cons n ns)
  from clean_node_ok [OF assms, of n rd] Cons.prems obtain r1 where
      r1: "clean_node g n rd = Inr r1" "\<forall>nm. mget r1 nm = (if nm \<in> n_name ` invalidated g n then None else mget rd nm)"
    by auto
  from Cons.IH [of r1] Cons.prems obtain r2 where "foldE (clean_node g) ns r1 = Inr r2"
      "\<forall>nm. mget r2 nm = (if nm \<in> n_name ` (\<Union>a\<in>set ns. invalidated g a) then None else mget r1 nm)" by auto
  with r1 show ?case by auto
qed simp

lemma cleanRunData_lookup:
  assumes "wf_graph g" "\<forall>a\<in>set ns. nodeExists g a"
  shows "\<exists>rd'. cleanRunData rd g ns = Inr rd' \<and>
    (\<forall>nm. mget rd' nm = (if hasNode g nm \<and> nm \<notin> n_name ` (\<Union>a\<in>set ns. invalidated g a) then mget rd nm else None))"
proof -
  from clean_node_loop [OF assms] obtain r where r: "foldE (clean_node g) ns rd = Inr r"
    and m: "\<forall>nm. mget r nm = (if nm \<in> n_name ` (\<Union>a\<in>set ns. invalidated g a) then None else mget rd nm)"
    by blast
  have id: "mget (foldl (\<lambda>rd nm. if hasNode g nm then rd else mdel nm rd) r (obj_keys r)) nm
      = (if hasNode g nm then mget r nm else None)" for nm
    using foldl_mdel_if [of "hasNode g" "\<lambda>x. x" r "obj_keys r" nm] map_of_eq_None_iff [of r nm] by auto
  show ?thesis using m by (auto simp: cleanRunData_def r id)
qed

end
