(* ===== verification/Start_Nodes.thy ===== *)
theory Start_Nodes
  imports Run_Data_Queries
begin

text \<open>
  \<^verbatim>\<open>find-start-nodes.ts\<close>: from the trigger, follow the outputs that have data until a node that
  has to be executed. The result is characterised as a set: the stopping nodes at the end of a path
  of connections with data whose inner nodes do not stop.
\<close>

section \<open>Definitions\<close>

definition isDirty :: "inode \<Rightarrow> run_data \<Rightarrow> pin_data \<Rightarrow> bool" where
  "isDirty node runData pinData =
     (let hasAnError = (case mget runData (n_name node) of
          None \<Rightarrow> False
        | Some runs \<Rightarrow> list_ex (\<lambda>taskData. td_error taskData \<noteq> None) runs)
      in if hasAnError then True
      else if mhas pinData (n_name node) then False
      else if mhas runData (n_name node) then False
      else True)"

definition isALoop :: "digraph \<Rightarrow> inode \<Rightarrow> bool res" where
  "isALoop graph node = bindE (getChildren graph node) (\<lambda>children. Inr (node \<in> set children))"

text \<open>The condition of the block for loop nodes: the last run has no items at the \<^verbatim>\<open>done\<close> output.\<close>

definition loopNotDone :: "digraph \<Rightarrow> inode \<Rightarrow> run_data \<Rightarrow> bool res" where
  "loopNotDone graph current runData =
     (if n_type current = ''n8n-nodes-base.splitInBatches'' then
        bindE (isALoop graph current) (\<lambda>isLoop.
        bindE (getIncomingData runData (n_name current) (- 1) Main (if isLoop then 0 else 1)) (\<lambda>nodeRunData.
          Inr (case nodeRunData of None \<Rightarrow> True | Some items \<Rightarrow> length items = 0)))
      else Inr False)"

text \<open>The loop body's guard: does the output have items in some run, or pinned data?\<close>

definition followsConnection :: "run_data \<Rightarrow> pin_data \<Rightarrow> gconn \<Rightarrow> bool res" where
  "followsConnection runData pinData c =
     bindE (getIncomingDataFromAnyRun runData (n_name (gc_from c)) (gc_type c) (gc_outputIndex c))
       (\<lambda>nodeRunData.
         let hasNoRunData = (case nodeRunData of None \<Rightarrow> True | Some (data, _) \<Rightarrow> length data = 0);
             hasNoPinnedData = (\<not> mhas pinData (n_name (gc_from c)))
         in Inr (\<not> (hasNoRunData \<and> hasNoPinnedData)))"

function findStartNodesRecursive ::
  "digraph \<Rightarrow> inode \<Rightarrow> inode \<Rightarrow> run_data \<Rightarrow> pin_data \<Rightarrow> inode list \<Rightarrow> inode list \<Rightarrow> inode list res" where
  "findStartNodesRecursive graph current destination runData pinData startNodes seen =
     (if isDirty current runData pinData then Inr (sadd current startNodes)
      else if current = destination then Inr (sadd current startNodes)
      else bindE (loopNotDone graph current runData) (\<lambda>notDone.
        if notDone then Inr (sadd current startNodes)
        else if current \<in> set seen then Inr startNodes
        else bindE (getDirectChildConnections graph current) (\<lambda>outGoingConnections.
          foldE (\<lambda>c acc. bindE (followsConnection runData pinData c) (\<lambda>follow.
              if \<not> follow then Inr acc
              else findStartNodesRecursive graph (gc_to c) destination runData pinData acc (sadd current seen)))
            outGoingConnections startNodes)))"
  by pat_completeness auto
termination
proof (relation "measure (\<lambda>(g, current, d, rd, pd, acc, seen). card (set (node_list g) - set seen))", goal_cases)
  case (2 g current d rd pd acc seen)
  then have "current \<in> set (node_list g)"
    by (auto simp: getDirectChildConnections_Inr dest: nodeExists_in)
  then have "card (set (node_list g) - set (sadd current seen)) < card (set (node_list g) - set seen)"
    using 2 by (intro psubset_card_mono) auto
  then show ?case by simp
qed simp

declare findStartNodesRecursive.simps [simp del]

definition findStartNodes :: "digraph \<Rightarrow> inode \<Rightarrow> inode \<Rightarrow> pin_data \<Rightarrow> run_data \<Rightarrow> inode list res" where
  "findStartNodes graph trigger destination pinData runData =
     findStartNodesRecursive graph trigger destination runData pinData [] []"

section \<open>The set it computes\<close>

text \<open>A node at which a branch ends, and the steps a branch takes from nodes where it does not.\<close>

definition stops :: "digraph \<Rightarrow> inode \<Rightarrow> run_data \<Rightarrow> pin_data \<Rightarrow> inode \<Rightarrow> bool" where
  "stops g destination rd pd n \<longleftrightarrow> isDirty n rd pd \<or> n = destination \<or> loopNotDone g n rd = Inr True"

definition flow :: "digraph \<Rightarrow> inode \<Rightarrow> run_data \<Rightarrow> pin_data \<Rightarrow> (inode \<times> inode) set" where
  "flow g destination rd pd = {(gc_from c, gc_to c) | c. c \<in> set (conns g)
     \<and> \<not> stops g destination rd pd (gc_from c) \<and> followsConnection rd pd c = Inr True}"

text \<open>
  The run data has the connection types the graph asks for (without this, \<^verbatim>\<open>getIncomingData\<close>
  throws).
\<close>

definition typed_run_data :: "digraph \<Rightarrow> run_data \<Rightarrow> bool" where
  "typed_run_data g rd \<longleftrightarrow> (\<forall>c\<in>set (conns g). has_type rd (n_name (gc_from c)) (gc_type c))
     \<and> (\<forall>n\<in>set (node_list g). n_type n = ''n8n-nodes-base.splitInBatches'' \<longrightarrow> has_type rd (n_name n) Main)"

lemma followsConnection_total:
  assumes "typed_run_data g rd" "c \<in> set (conns g)"
  shows "\<exists>b. followsConnection rd pd c = Inr b"
  using getIncomingDataFromAnyRun_total [of rd "n_name (gc_from c)" "gc_type c" "gc_outputIndex c"] assms
  by (auto simp: typed_run_data_def followsConnection_def Let_def)

lemma loopNotDone_total:
  assumes "wf_graph g" "typed_run_data g rd" "nodeExists g n"
  shows "\<exists>b. loopNotDone g n rd = Inr b"
proof (cases "n_type n = ''n8n-nodes-base.splitInBatches''")
  case True
  from getChildren_total [OF assms(1,3)] obtain l where "isALoop g n = Inr l"
    by (auto simp: isALoop_def)
  moreover have "has_type rd (n_name n) Main"
    using assms True by (auto simp: typed_run_data_def wf_nodeExists_iff)
  moreover from this obtain d where "getIncomingData rd (n_name n) (- 1) Main (if l then 0 else 1) = Inr d"
    using getIncomingData_total by blast
  ultimately show ?thesis by (simp add: loopNotDone_def True)
qed (auto simp: loopNotDone_def intro: exI [of _ False])

lemma flow_stuck: "stops g d rd pd n \<Longrightarrow> (n, m) \<in> (flow g d rd pd)\<^sup>* \<Longrightarrow> m = n"
  by (erule converse_rtranclE) (auto simp: flow_def)

text \<open>One call: what it must find (paths that do not leave a seen node) and what it may find.\<close>

lemma findStartNodesRecursive_spec:
  assumes "wf_graph g" "typed_run_data g rd"
  shows "nodeExists g current \<Longrightarrow>
    \<exists>r. findStartNodesRecursive g current d rd pd acc seen = Inr r
      \<and> set acc \<union> {n. stops g d rd pd n \<and> (current, n) \<in> (leaving (flow g d rd pd) (set seen))\<^sup>*} \<subseteq> set r
      \<and> set r \<subseteq> set acc \<union> {n. stops g d rd pd n \<and> (current, n) \<in> (flow g d rd pd)\<^sup>*}
      \<and> (distinct acc \<longrightarrow> distinct r)"
  using assms
proof (induction g current d rd pd acc seen rule: findStartNodesRecursive.induct)
  case (1 g current d rd pd acc seen)
  let ?F = "flow g d rd pd" and ?stop = "stops g d rd pd"
  note eq = findStartNodesRecursive.simps [of g current d rd pd acc seen]
  note sub = rtrancl_mono [OF leaving_subset, of ?F "set seen"]
  obtain b where b: "loopNotDone g current rd = Inr b"
    using loopNotDone_total "1.prems" by blast
  show ?case
  proof (cases "?stop current")
    case True
    have "findStartNodesRecursive g current d rd pd acc seen = Inr (sadd current acc)"
      using True b by (auto simp: eq stops_def)
    moreover have "n = current" if "(current, n) \<in> ?F\<^sup>*" for n using flow_stuck [OF True that] .
    ultimately show ?thesis using True sub by (auto simp: subset_iff)
  next
    case False
    then have g: "\<not> isDirty current rd pd" "current \<noteq> d" "b = False" using b by (auto simp: stops_def)
    show ?thesis
    proof (cases "current \<in> set seen")
      case True
      have "findStartNodesRecursive g current d rd pd acc seen = Inr acc"
        using True b g by (simp add: eq)
      moreover have "n = current" if "(current, n) \<in> (leaving ?F (set seen))\<^sup>*" for n
        using that True by (auto elim: converse_rtranclE simp: leaving_def)
      ultimately show ?thesis using False by auto
    next
      case unseen: False
      define cs where "cs = filter (\<lambda>c. gc_from c = current) (conns g)"
      have cs: "getDirectChildConnections g current = Inr cs"
        using "1.prems"(1) by (simp add: getDirectChildConnections_def cs_def)
      let ?f = "\<lambda>c acc. bindE (followsConnection rd pd c) (\<lambda>follow.
        if \<not> follow then Inr acc
        else findStartNodesRecursive g (gc_to c) d rd pd acc (sadd current seen))"
      let ?on = "\<lambda>c. followsConnection rd pd c = Inr True"
      let ?L = "\<lambda>c. if ?on c then {n. ?stop n \<and> (gc_to c, n) \<in> (leaving ?F (insert current (set seen)))\<^sup>*} else {}"
      let ?U = "\<lambda>c. if ?on c then {n. ?stop n \<and> (gc_to c, n) \<in> ?F\<^sup>*} else {}"
      have body: "\<exists>b. ?f c a = Inr b \<and> set a \<union> ?L c \<subseteq> set b \<and> set b \<subseteq> set a \<union> ?U c \<and> (distinct a \<longrightarrow> distinct b)"
        if c: "c \<in> set cs" for c a
      proof -
        have cg: "c \<in> set (conns g)" using c by (simp add: cs_def)
        from followsConnection_total [OF "1.prems"(3) cg] obtain w where w: "followsConnection rd pd c = Inr w" by blast
        show ?thesis
        proof (cases w)
          case True
          have "nodeExists g (gc_to c)" using wf_graph_conn [OF "1.prems"(2) cg] by simp
          from "1.IH" [OF g(1,2) b _ unseen cs c w _ this "1.prems"(2,3), of a] True g(3) w
          show ?thesis by simp
        qed (use w in simp)
      qed
      from foldE_collect [of cs ?f ?L ?U acc, OF body] obtain r where r: "foldE ?f cs acc = Inr r"
          "set acc \<union> (\<Union>c\<in>set cs. ?L c) \<subseteq> set r" "set r \<subseteq> set acc \<union> (\<Union>c\<in>set cs. ?U c)"
          "distinct acc \<longrightarrow> distinct r" by blast
      have res: "findStartNodesRecursive g current d rd pd acc seen = Inr r"
        using g b unseen cs r(1) by (simp add: eq)
      have must: "n \<in> (\<Union>c\<in>set cs. ?L c)" if n: "?stop n" "(current, n) \<in> (leaving ?F (set seen))\<^sup>*" for n
      proof -
        have "current \<noteq> n" using n(1) False by auto
        from leaving_last [OF n(2) this] obtain m where m: "(current, m) \<in> ?F"
            "(m, n) \<in> (leaving ?F (insert current (set seen)))\<^sup>*" by blast
        from m(1) obtain c where "c \<in> set cs" "?on c" "gc_to c = m" by (auto simp: flow_def cs_def)
        with m(2) n(1) show ?thesis by (intro UN_I [of c]) simp_all
      qed
      have may: "?stop n \<and> (current, n) \<in> ?F\<^sup>*" if "c \<in> set cs" "n \<in> ?U c" for c n
      proof -
        have on: "?on c" using that(2) by (simp split: if_splits)
        with that have "(current, gc_to c) \<in> ?F" using False by (auto simp: flow_def cs_def)
        with that(2) on show ?thesis by (auto intro: converse_rtrancl_into_rtrancl)
      qed
      have "set acc \<union> {n. ?stop n \<and> (current, n) \<in> (leaving ?F (set seen))\<^sup>*} \<subseteq> set r"
      proof
        fix n assume "n \<in> set acc \<union> {n. ?stop n \<and> (current, n) \<in> (leaving ?F (set seen))\<^sup>*}"
        then have "n \<in> set acc \<union> (\<Union>c\<in>set cs. ?L c)" using must by (cases "n \<in> set acc") simp_all
        then show "n \<in> set r" by (rule subsetD [OF r(2)])
      qed
      moreover have "set r \<subseteq> set acc \<union> {n. ?stop n \<and> (current, n) \<in> ?F\<^sup>*}"
      proof
        fix n assume "n \<in> set r"
        from subsetD [OF r(3) this] show "n \<in> set acc \<union> {n. ?stop n \<and> (current, n) \<in> ?F\<^sup>*}"
        proof
          assume "n \<in> (\<Union>c\<in>set cs. ?U c)"
          then obtain c where "c \<in> set cs" "n \<in> ?U c" by (rule UN_E)
          from may [OF this] show ?thesis by simp
        qed simp
      qed
      ultimately show ?thesis using res r(4) by blast
    qed
  qed
qed

lemma findStartNodes_set:
  assumes "wf_graph g" "typed_run_data g rd" "nodeExists g trigger"
  shows "\<exists>r. findStartNodes g trigger d pd rd = Inr r \<and> distinct r
    \<and> set r = {n. stops g d rd pd n \<and> (trigger, n) \<in> (flow g d rd pd)\<^sup>*}"
  using findStartNodesRecursive_spec [OF assms(1,2,3), of d pd "[]" "[]"]
  by (auto simp: findStartNodes_def)

lemma flow_edges: "flow g d rd pd \<subseteq> edges g"
  by (auto simp: flow_def edges_def)

end
