(* ===== verification/Source_Groups.thy ===== *)
theory Source_Groups
  imports Run_Data_Queries "HOL-Library.Multiset"
begin

text \<open>
  \<^verbatim>\<open>get-source-data-groups.ts\<close>: the incoming connections of a node, grouped so that a group
  holds one connection per input. \<^verbatim>\<open>localeCompare\<close> is the parameter \<open>cmp\<close>: its order depends
  on the locale of the host.
\<close>

section \<open>Definitions\<close>

definition sortByInputIndexThenByName :: "(string \<Rightarrow> string \<Rightarrow> int) \<Rightarrow> gconn \<Rightarrow> gconn \<Rightarrow> int" where
  "sortByInputIndexThenByName cmp connection1 connection2 =
     (if gc_inputIndex connection1 = gc_inputIndex connection2
      then cmp (n_name (gc_from connection1)) (n_name (gc_from connection2))
      else int (gc_inputIndex connection1) - int (gc_inputIndex connection2))"

text \<open>\<^verbatim>\<open>Array.prototype.sort\<close>: the stable sort of a comparator.\<close>

fun insert_by :: "('a \<Rightarrow> 'a \<Rightarrow> int) \<Rightarrow> 'a \<Rightarrow> 'a list \<Rightarrow> 'a list" where
  "insert_by cmp x [] = [x]"
| "insert_by cmp x (y # ys) = (if cmp x y \<le> 0 then x # y # ys else y # insert_by cmp x ys)"

fun sort_by :: "('a \<Rightarrow> 'a \<Rightarrow> int) \<Rightarrow> 'a list \<Rightarrow> 'a list" where
  "sort_by cmp [] = []"
| "sort_by cmp (x # xs) = insert_by cmp x (sort_by cmp xs)"

record source_group =
  sg_complete :: bool
  sg_connections :: "gconn list"

definition newGroup :: source_group where
  "newGroup = \<lparr>sg_complete = True, sg_connections = []\<rparr>"

definition find_index :: "('a \<Rightarrow> bool) \<Rightarrow> 'a list \<Rightarrow> nat option" where
  "find_index P xs = find (\<lambda>i. P (xs ! i)) [0..<length xs]"

definition min_input_index :: "gconn list \<Rightarrow> gconn list \<Rightarrow> int" where
  "min_input_index xs ys = Min (set (map (\<lambda>c. int (gc_inputIndex c)) xs @ map (\<lambda>c. int (gc_inputIndex c)) ys))"

lemma find_index_Some: "find_index P xs = Some i \<longleftrightarrow> i < length xs \<and> P (xs ! i) \<and> (\<forall>j<i. \<not> P (xs ! j))"
  by (auto simp: find_index_def find_Some_iff)

lemma find_index_None: "find_index P xs = None \<longleftrightarrow> (\<forall>x\<in>set xs. \<not> P x)"
  by (auto simp: find_index_def find_None_iff all_set_conv_all_nth)

lemma length_remove_at: "i < length xs \<Longrightarrow> length (remove_at i xs) = length xs - 1"
  by (induction i xs rule: remove_at.induct) auto

lemma mset_remove_at: "i < length xs \<Longrightarrow> mset xs = add_mset (xs ! i) (mset (remove_at i xs))"
  by (induction i xs rule: remove_at.induct) auto

lemma set_remove_at: "set (remove_at i xs) \<subseteq> set xs"
  by (induction i xs rule: remove_at.induct) auto

lemma min_input_index_le:
  "c \<in> set xs \<union> set ys \<Longrightarrow> min_input_index xs ys \<le> int (gc_inputIndex c)"
  by (auto simp: min_input_index_def intro!: Min_le)

lemma min_input_index_attained:
  assumes "xs \<noteq> [] \<or> ys \<noteq> []"
  shows "\<exists>c\<in>set xs \<union> set ys. int (gc_inputIndex c) = min_input_index xs ys"
proof -
  have "min_input_index xs ys \<in> set (map (\<lambda>c. int (gc_inputIndex c)) xs @ map (\<lambda>c. int (gc_inputIndex c)) ys)"
    unfolding min_input_index_def by (rule Min_in) (use assms in auto)
  then show ?thesis by auto
qed

text \<open>
  The \<^verbatim>\<open>while\<close> loop; the arguments are its variables. An iteration that adds no connection
  starts a new group at the smallest input left, where the next iteration adds one.
\<close>

function groups_loop ::
  "gconn list \<Rightarrow> gconn list \<Rightarrow> source_group list \<Rightarrow> source_group \<Rightarrow> int \<Rightarrow> source_group list" where
  "groups_loop withData withoutData groups currentGroup currentInputIndex =
     (if length withData > 0 \<or> length withoutData > 0 then
        let k = currentInputIndex + 1 in
        case find_index (\<lambda>c. int (gc_inputIndex c) = k) withData of
          Some i \<Rightarrow>
            groups_loop (remove_at i withData) withoutData groups
              (currentGroup\<lparr>sg_connections := sg_connections currentGroup @ [withData ! i]\<rparr>) k
        | None \<Rightarrow>
           (case find_index (\<lambda>c. int (gc_inputIndex c) = k) withoutData of
              Some j \<Rightarrow>
                groups_loop withData (remove_at j withoutData) groups
                  (currentGroup\<lparr>sg_connections := sg_connections currentGroup @ [withoutData ! j],
                     sg_complete := False\<rparr>) k
            | None \<Rightarrow>
                groups_loop withData withoutData (groups @ [currentGroup]) newGroup
                  (min_input_index withData withoutData - 1))
      else groups @ [currentGroup])"
  by pat_completeness auto
termination
proof (relation "measures [\<lambda>(wd, wo, gs, cur, k). length wd + length wo,
    \<lambda>(wd, wo, gs, cur, k). if \<exists>c\<in>set wd \<union> set wo. int (gc_inputIndex c) = k + 1 then 0 else 1]", goal_cases)
  case (2 wd wo gs cur k k')
  then have "\<not> (\<exists>c\<in>set wd \<union> set wo. int (gc_inputIndex c) = k + 1)"
    by (auto simp: find_index_None)
  moreover have "\<exists>c\<in>set wd \<union> set wo. int (gc_inputIndex c) = min_input_index wd wo"
    by (rule min_input_index_attained) (use 2 in auto)
  ultimately show ?case by simp
next
  case (3 wd wo gs cur k k' j)
  then have "j < length wo" by (simp add: find_index_Some)
  then have "length wd + length (remove_at j wo) < length wd + length wo" by (simp add: length_remove_at)
  then show ?case by simp
next
  case (4 wd wo gs cur k k' i)
  then have "i < length wd" by (simp add: find_index_Some)
  then have "length (remove_at i wd) + length wo < length wd + length wo" by (simp add: length_remove_at)
  then show ?case by simp
qed simp

declare groups_loop.simps [simp del]

definition hasSourceData :: "run_data \<Rightarrow> pin_data \<Rightarrow> gconn \<Rightarrow> bool" where
  "hasSourceData runData pinnedData c =
     (mhas runData (n_name (gc_from c)) \<or> mhas pinnedData (n_name (gc_from c)))"

definition getSourceDataGroups ::
  "(string \<Rightarrow> string \<Rightarrow> int) \<Rightarrow> digraph \<Rightarrow> inode \<Rightarrow> run_data \<Rightarrow> pin_data \<Rightarrow> source_group list" where
  "getSourceDataGroups cmp graph node runData pinnedData =
     (let connections = getConnections graph (Some node);
          withData = filter (hasSourceData runData pinnedData) connections;
          withoutData = filter (\<lambda>c. \<not> hasSourceData runData pinnedData c \<and> gc_type c = Main) connections
      in if length withData = 0 \<and> length withoutData = 0 then []
      else
        let withData = sort_by (sortByInputIndexThenByName cmp) withData;
            withoutData = sort_by (sortByInputIndexThenByName cmp) withoutData
        in groups_loop withData withoutData [] newGroup (min_input_index withData withoutData - 1))"

section \<open>Properties of the loop\<close>

lemma mset_insert_by [simp]: "mset (insert_by cmp x xs) = add_mset x (mset xs)"
  by (induction xs) auto

lemma mset_sort_by [simp]: "mset (sort_by cmp xs) = mset xs"
  by (induction xs) auto

lemma set_sort_by [simp]: "set (sort_by cmp xs) = set xs"
  by (metis mset_sort_by set_mset_mset)

lemma sort_by_eq_Nil [simp]: "sort_by cmp xs = [] \<longleftrightarrow> xs = []"
  by (metis mset_sort_by mset_zero_iff)

text \<open>The inputs of a group are consecutive: no input twice, none left out between two.\<close>

definition consecutive :: "gconn list \<Rightarrow> bool" where
  "consecutive cs = (\<forall>i < length cs. gc_inputIndex (cs ! i) = gc_inputIndex (hd cs) + i)"

lemma consecutive_snoc:
  "consecutive (cs @ [c]) \<longleftrightarrow> consecutive cs \<and> (cs \<noteq> [] \<longrightarrow> gc_inputIndex c = gc_inputIndex (hd cs) + length cs)"
  by (cases "cs = []") (auto simp: consecutive_def nth_append less_Suc_eq)

definition good_group :: "(gconn \<Rightarrow> bool) \<Rightarrow> source_group \<Rightarrow> bool" where
  "good_group D sg \<longleftrightarrow> sg_connections sg \<noteq> [] \<and> consecutive (sg_connections sg)
     \<and> (sg_complete sg \<longleftrightarrow> (\<forall>c\<in>set (sg_connections sg). D c))"

text \<open>The group being filled: its last input is the current one.\<close>

definition open_group :: "(gconn \<Rightarrow> bool) \<Rightarrow> gconn list \<Rightarrow> source_group \<Rightarrow> int \<Rightarrow> bool" where
  "open_group D rest sg k \<longleftrightarrow> consecutive (sg_connections sg)
     \<and> (sg_complete sg \<longleftrightarrow> (\<forall>c\<in>set (sg_connections sg). D c))
     \<and> (if sg_connections sg = [] then (rest = [] \<longrightarrow> False) \<and> (\<exists>c\<in>set rest. int (gc_inputIndex c) = k + 1)
        else k + 1 = int (gc_inputIndex (hd (sg_connections sg)) + length (sg_connections sg)))"

lemma open_group_snoc:
  assumes "open_group D rest sg k" "int (gc_inputIndex c) = k + 1"
    and "sg' = sg\<lparr>sg_connections := sg_connections sg @ [c], sg_complete := b\<rparr>"
    and "b \<longleftrightarrow> sg_complete sg \<and> D c"
  shows "open_group D rest' sg' (k + 1)"
proof (cases "sg_connections sg = []")
  case True
  with assms show ?thesis by (auto simp: open_group_def consecutive_def)
next
  case False
  with assms(1,2) have "gc_inputIndex c = gc_inputIndex (hd (sg_connections sg)) + length (sg_connections sg)"
    by (simp add: open_group_def)
  with assms False show ?thesis by (auto simp: open_group_def consecutive_snoc)
qed

lemma groups_loop_spec:
  assumes "\<forall>c\<in>set wd. D c" "\<forall>c\<in>set wo. \<not> D c" "open_group D (wd @ wo) cur k" "\<forall>sg\<in>set gs. good_group D sg"
  shows "(\<forall>sg\<in>set (groups_loop wd wo gs cur k). good_group D sg) \<and>
    mset (concat (map sg_connections (groups_loop wd wo gs cur k))) =
      mset (concat (map sg_connections gs)) + mset (sg_connections cur) + mset wd + mset wo"
  using assms
proof (induction wd wo gs cur k rule: groups_loop.induct)
  case (1 wd wo gs cur k)
  note eq = groups_loop.simps [of wd wo gs cur k]
  consider (empty) "wd = []" "wo = []"
    | (hit) i where "wd \<noteq> [] \<or> wo \<noteq> []" "find_index (\<lambda>c. int (gc_inputIndex c) = k + 1) wd = Some i"
    | (other) j where "wd \<noteq> [] \<or> wo \<noteq> []" "find_index (\<lambda>c. int (gc_inputIndex c) = k + 1) wd = None"
        "find_index (\<lambda>c. int (gc_inputIndex c) = k + 1) wo = Some j"
    | (new) "wd \<noteq> [] \<or> wo \<noteq> []" "find_index (\<lambda>c. int (gc_inputIndex c) = k + 1) wd = None"
        "find_index (\<lambda>c. int (gc_inputIndex c) = k + 1) wo = None"
    by (metis option.exhaust)
  then show ?case
  proof cases
    case empty
    with "1.prems"(3) have "good_group D cur" by (auto simp: open_group_def good_group_def split: if_splits)
    with "1.prems"(4) empty show ?thesis by (simp add: groups_loop.simps [of "[]" "[]"])
  next
    case (hit i)
    from hit(2) have i: "i < length wd" "int (gc_inputIndex (wd ! i)) = k + 1" by (simp_all add: find_index_Some)
    let ?cur = "cur\<lparr>sg_connections := sg_connections cur @ [wd ! i]\<rparr>"
    have "D (wd ! i)" using i "1.prems"(1) by simp
    then have o: "open_group D (remove_at i wd @ wo) ?cur (k + 1)"
      by (intro open_group_snoc [OF "1.prems"(3) i(2), of _ "sg_complete cur"]) simp_all
    have "\<forall>c\<in>set (remove_at i wd). D c" using "1.prems"(1) set_remove_at [of i wd] by auto
    note ih = "1.IH"(3) [OF _ refl hit(2) this "1.prems"(2) o "1.prems"(4)]
    have "groups_loop wd wo gs cur k = groups_loop (remove_at i wd) wo gs ?cur (k + 1)"
      by (subst eq) (simp only: hit(2) Let_def option.case, use hit(1) in simp)
    with ih hit(1) show ?thesis by (simp add: mset_remove_at [OF i(1)])
  next
    case (other j)
    from other(3) have j: "j < length wo" "int (gc_inputIndex (wo ! j)) = k + 1" by (simp_all add: find_index_Some)
    let ?cur = "cur\<lparr>sg_connections := sg_connections cur @ [wo ! j], sg_complete := False\<rparr>"
    have "\<not> D (wo ! j)" using j "1.prems"(2) by simp
    then have o: "open_group D (wd @ remove_at j wo) ?cur (k + 1)"
      by (intro open_group_snoc [OF "1.prems"(3) j(2), of _ False]) simp_all
    have "\<forall>c\<in>set (remove_at j wo). \<not> D c" using "1.prems"(2) set_remove_at [of j wo] by auto
    from "1.IH"(2) [OF _ refl other(2,3) "1.prems"(1) this o "1.prems"(4)] other(1)
    show ?thesis using mset_remove_at [OF j(1)] by (subst (1 2) eq) (simp add: other Let_def)
  next
    case new
    have no: "\<not> (\<exists>c\<in>set (wd @ wo). int (gc_inputIndex c) = k + 1)"
      using new(2,3) by (auto simp: find_index_None)
    then have g: "good_group D cur"
      using "1.prems"(3) by (auto simp: open_group_def good_group_def split: if_splits)
    have o: "open_group D (wd @ wo) newGroup (min_input_index wd wo - 1)"
      using min_input_index_attained [OF new(1)] new(1) by (auto simp: open_group_def newGroup_def consecutive_def)
    have "\<forall>sg\<in>set (gs @ [cur]). good_group D sg" using g "1.prems"(4) by simp
    from "1.IH"(1) [OF _ refl new(2,3) "1.prems"(1,2) o this] new(1)
    show ?thesis by (subst (1 2) eq) (simp add: new Let_def newGroup_def)
  qed
qed

lemma mset_filter_split:
  "mset (filter D (filter R xs)) + mset (filter (\<lambda>x. \<not> D x \<and> Q x) (filter R xs)) =
    mset (filter (\<lambda>x. R x \<and> (D x \<or> Q x)) xs)"
  by (induction xs) (auto simp del: mset_filter)

lemma getSourceDataGroups_good:
  "\<forall>sg\<in>set (getSourceDataGroups cmp g n rd pd). good_group (hasSourceData rd pd) sg"
  "mset (concat (map sg_connections (getSourceDataGroups cmp g n rd pd))) =
    mset (filter (\<lambda>c. gc_to c = n \<and> (hasSourceData rd pd c \<or> gc_type c = Main)) (conns g))"
proof -
  let ?cs = "getConnections g (Some n)" and ?D = "hasSourceData rd pd"
  define wd where "wd = filter ?D ?cs"
  define wo where "wo = filter (\<lambda>c. \<not> ?D c \<and> gc_type c = Main) ?cs"
  define swd where "swd = sort_by (sortByInputIndexThenByName cmp) wd"
  define swo where "swo = sort_by (sortByInputIndexThenByName cmp) wo"
  let ?r = "getSourceDataGroups cmp g n rd pd"
  have split: "mset wd + mset wo = mset (filter (\<lambda>c. gc_to c = n \<and> (?D c \<or> gc_type c = Main)) (conns g))"
    by (simp only: wd_def wo_def getConnections_def mset_filter_split option.case)
  have "(\<forall>sg\<in>set ?r. good_group ?D sg) \<and> mset (concat (map sg_connections ?r)) = mset wd + mset wo"
  proof (cases "wd = [] \<and> wo = []")
    case True
    then show ?thesis by (simp add: getSourceDataGroups_def Let_def flip: wd_def wo_def)
  next
    case False
    then have ne: "swd \<noteq> [] \<or> swo \<noteq> []" by (simp add: swd_def swo_def)
    have r: "?r = groups_loop swd swo [] newGroup (min_input_index swd swo - 1)"
      unfolding getSourceDataGroups_def Let_def wd_def [symmetric] wo_def [symmetric] swd_def swo_def
      by (rule if_not_P) (use False in simp)
    have "open_group ?D (swd @ swo) newGroup (min_input_index swd swo - 1)"
      using min_input_index_attained [OF ne] ne by (auto simp: open_group_def newGroup_def consecutive_def)
    moreover have "\<forall>c\<in>set swd. ?D c" "\<forall>c\<in>set swo. \<not> ?D c" by (auto simp: swd_def swo_def wd_def wo_def)
    ultimately show ?thesis
      using groups_loop_spec [of swd ?D swo newGroup _ "[]"] by (simp add: r swd_def swo_def newGroup_def)
  qed
  then show "\<forall>sg\<in>set ?r. good_group ?D sg"
    and "mset (concat (map sg_connections ?r)) = mset (filter (\<lambda>c. gc_to c = n \<and> (?D c \<or> gc_type c = Main)) (conns g))"
    using split by simp_all
qed

lemma getSourceDataGroups_set:
  "(\<Union>sg\<in>set (getSourceDataGroups cmp g n rd pd). set (sg_connections sg)) =
    {c \<in> set (conns g). gc_to c = n \<and> (hasSourceData rd pd c \<or> gc_type c = Main)}"
  using arg_cong [OF getSourceDataGroups_good(2), of set_mset cmp g n rd pd] by simp

end
