(* ===== verification/Recreate_Stack.thy ===== *)
theory Recreate_Stack
  imports Source_Groups
begin

text \<open>
  \<^verbatim>\<open>recreate-node-execution-stack.ts\<close>: from the start nodes and the run and pinned data, the
  stack of nodes to execute and the entries of nodes that still wait for inputs.
\<close>

section \<open>Definitions\<close>

definition addWaitingExecution ::
  "waiting \<Rightarrow> string \<Rightarrow> nat \<Rightarrow> conn_type \<Rightarrow> nat \<Rightarrow> items option \<Rightarrow> waiting" where
  "addWaitingExecution waitingExecution nodeName runIndex inputType inputIndex executionData =
     (let waitingExecutionObject = (case mget waitingExecution nodeName of None \<Rightarrow> [] | Some ob \<Rightarrow> ob);
          taskDataConnections = (case mget waitingExecutionObject runIndex of None \<Rightarrow> [] | Some ob \<Rightarrow> ob);
          executionDataList = (case mget taskDataConnections inputType of None \<Rightarrow> [] | Some l \<Rightarrow> l);
          executionDataList = arr_put inputIndex executionData executionDataList;
          taskDataConnections = mset_at inputType executionDataList taskDataConnections;
          waitingExecutionObject = mset_at runIndex taskDataConnections waitingExecutionObject
      in mset_at nodeName waitingExecutionObject waitingExecution)"

definition addWaitingExecutionSource ::
  "waiting_source \<Rightarrow> string \<Rightarrow> nat \<Rightarrow> conn_type \<Rightarrow> nat \<Rightarrow> source_data option \<Rightarrow> waiting_source" where
  "addWaitingExecutionSource waitingExecutionSource nodeName runIndex inputType inputIndex sourceData =
     (let waitingExecutionSourceObject = (case mget waitingExecutionSource nodeName of None \<Rightarrow> [] | Some ob \<Rightarrow> ob);
          taskDataConnectionsSource = (case mget waitingExecutionSourceObject runIndex of None \<Rightarrow> [] | Some ob \<Rightarrow> ob);
          sourceDataList = (case mget taskDataConnectionsSource inputType of None \<Rightarrow> [] | Some l \<Rightarrow> l);
          sourceDataList = arr_put inputIndex sourceData sourceDataList;
          taskDataConnectionsSource = mset_at inputType sourceDataList taskDataConnectionsSource;
          waitingExecutionSourceObject = mset_at runIndex taskDataConnectionsSource waitingExecutionSourceObject
      in mset_at nodeName waitingExecutionSourceObject waitingExecutionSource)"

record recreated =
  rc_stack :: "exec_data list"
  rc_waiting :: waiting
  rc_waitingSource :: waiting_source

definition stack_entry :: "inode \<Rightarrow> items option list \<Rightarrow> source_data option list obj option \<Rightarrow> exec_data" where
  "stack_entry node incomingData incomingSourceData =
     \<lparr>ed_node = node, ed_data = [(Main, incomingData)], ed_source = incomingSourceData,
      ed_runIndex = None, ed_metadata = None\<rparr>"

text \<open>One connection of a complete group: what it pushes on \<^verbatim>\<open>incomingData\<close> and on the sources.\<close>

definition complete_connection :: "run_data \<Rightarrow> pin_data \<Rightarrow> gconn
    \<Rightarrow> items option list \<times> source_data option list \<Rightarrow> (items option list \<times> source_data option list) res" where
  "complete_connection runData pinData c acc =
     (case acc of (incomingData, mainSource) \<Rightarrow>
       let sourceName = n_name (gc_from c);
           push_source = (\<lambda>runIndex. mainSource @ [Some \<lparr>s_previousNode = sourceName,
             s_previousNodeOutput = Some (gc_outputIndex c), s_previousNodeRun = Some runIndex\<rparr>]) in
       case mget pinData sourceName of
         Some items \<Rightarrow> Inr (incomingData @ [Some items], push_source 0)
       | None \<Rightarrow>
           bindE (assertE (mhas runData sourceName)
               ''incoming connection with no run or pinned data'') (\<lambda>_.
           bindE (getIncomingDataFromAnyRun runData sourceName (gc_type c) (gc_outputIndex c)) (\<lambda>nodeIncomingData.
             case nodeIncomingData of
               None \<Rightarrow> Inr (incomingData, push_source 0)
             | Some (data, runIndex) \<Rightarrow> Inr (incomingData @ [Some data], push_source runIndex))))"

definition complete_group ::
  "inode \<Rightarrow> run_data \<Rightarrow> pin_data \<Rightarrow> source_group \<Rightarrow> recreated \<Rightarrow> recreated res" where
  "complete_group startNode runData pinData sourceData st =
     bindE (foldE (complete_connection runData pinData) (sg_connections sourceData) ([], [])) (\<lambda>(incomingData, mainSource).
       Inr (st\<lparr>rc_stack := rc_stack st @ [stack_entry startNode incomingData (Some [(Main, mainSource)])]\<rparr>))"

definition incomplete_connection ::
  "string \<Rightarrow> nat \<Rightarrow> run_data \<Rightarrow> gconn \<Rightarrow> recreated \<Rightarrow> recreated res" where
  "incomplete_connection nodeName nextRunIndex runData c st =
     bindE (getIncomingDataFromAnyRun runData (n_name (gc_from c)) (gc_type c) (gc_outputIndex c)) (\<lambda>maybeNodeIncomingData.
       case maybeNodeIncomingData of
         None \<Rightarrow> Inr st
       | Some (nodeIncomingData, _) \<Rightarrow>
           Inr (st\<lparr>rc_waiting := addWaitingExecution (rc_waiting st) nodeName nextRunIndex (gc_type c)
                     (gc_inputIndex c) (Some nodeIncomingData),
                   rc_waitingSource := addWaitingExecutionSource (rc_waitingSource st) nodeName nextRunIndex
                     (gc_type c) (gc_inputIndex c)
                     (Some \<lparr>s_previousNode = n_name (gc_from c), s_previousNodeOutput = Some (gc_outputIndex c),
                            s_previousNodeRun = Some nextRunIndex\<rparr>)\<rparr>))"

definition incomplete_group :: "inode \<Rightarrow> run_data \<Rightarrow> source_group \<Rightarrow> recreated \<Rightarrow> recreated res" where
  "incomplete_group startNode runData sourceData st =
     (let nodeName = n_name startNode;
          nextRunIndex = (case mget (rc_waiting st) nodeName of None \<Rightarrow> 0 | Some ob \<Rightarrow> length ob)
      in foldE (incomplete_connection nodeName nextRunIndex runData) (sg_connections sourceData) st)"

definition recreate_start_node ::
  "(string \<Rightarrow> string \<Rightarrow> int) \<Rightarrow> digraph \<Rightarrow> run_data \<Rightarrow> pin_data \<Rightarrow> inode \<Rightarrow> recreated \<Rightarrow> recreated res" where
  "recreate_start_node cmp graph runData pinData startNode st =
     bindE (getDirectParentConnections graph startNode) (\<lambda>parents.
       let incomingStartNodeConnections = filter (\<lambda>c. gc_type c = Main) parents in
       if length incomingStartNodeConnections = 0 then
         Inr (st\<lparr>rc_stack := rc_stack st @ [stack_entry startNode [Some [json_item []]] None]\<rparr>)
       else foldE (\<lambda>sourceData. if sg_complete sourceData
              then complete_group startNode runData pinData sourceData
              else incomplete_group startNode runData sourceData)
            (getSourceDataGroups cmp graph startNode runData pinData) st)"

definition recreateNodeExecutionStack ::
  "(string \<Rightarrow> string \<Rightarrow> int) \<Rightarrow> digraph \<Rightarrow> inode list \<Rightarrow> run_data \<Rightarrow> pin_data \<Rightarrow> recreated res" where
  "recreateNodeExecutionStack cmp graph startNodes runData pinData =
     bindE (foldE (\<lambda>node _. assertE (\<not> disabled node) ''Graph contains disabled nodes'')
         (map snd (getNodes graph)) ()) (\<lambda>_.
       foldE (recreate_start_node cmp graph runData pinData) startNodes
         \<lparr>rc_stack = [], rc_waiting = [], rc_waitingSource = []\<rparr>)"

section \<open>Waiting entries\<close>

text \<open>The cell of a waiting structure for a node, run, connection type and input.\<close>

definition waiting_cell :: "(nat, 'a option list obj) jsmap obj \<Rightarrow> string \<Rightarrow> nat \<Rightarrow> conn_type \<Rightarrow> nat \<Rightarrow> 'a option" where
  "waiting_cell w nm r ty i = Option.bind (mget w nm) (\<lambda>ob. Option.bind (mget ob r) (\<lambda>tdc.
     Option.bind (mget tdc ty) (\<lambda>l. Option.bind (arr_get l i) id)))"

lemma arr_get_put_bind:
  "Option.bind (arr_get (arr_put i x xs) j) id = (if j = i then x else Option.bind (arr_get xs j) id)"
  by (simp add: arr_get_put) (simp add: arr_get_def)

lemma arr_get_Nil [simp]: "arr_get [] i = None"
  by (simp add: arr_get_def)

text \<open>Both functions write exactly one cell.\<close>

lemma addWaitingExecution_cell:
  "waiting_cell (addWaitingExecution w nm r ty i d) nm' r' ty' i' =
     (if nm' = nm \<and> r' = r \<and> ty' = ty \<and> i' = i then d else waiting_cell w nm' r' ty' i')"
  by (auto simp: waiting_cell_def addWaitingExecution_def Let_def arr_get_put_bind split: option.splits)

lemma addWaitingExecutionSource_cell:
  "waiting_cell (addWaitingExecutionSource w nm r ty i d) nm' r' ty' i' =
     (if nm' = nm \<and> r' = r \<and> ty' = ty \<and> i' = i then d else waiting_cell w nm' r' ty' i')"
  by (auto simp: waiting_cell_def addWaitingExecutionSource_def Let_def arr_get_put_bind split: option.splits)

section \<open>The stack\<close>

text \<open>What a connection of a complete group contributes.\<close>

definition conn_items :: "run_data \<Rightarrow> pin_data \<Rightarrow> gconn \<Rightarrow> items option" where
  "conn_items rd pd c = (case mget pd (n_name (gc_from c)) of
     Some xs \<Rightarrow> Some xs
   | None \<Rightarrow> (case getIncomingDataFromAnyRun rd (n_name (gc_from c)) (gc_type c) (gc_outputIndex c) of
       Inr (Some (data, r)) \<Rightarrow> Some data | _ \<Rightarrow> None))"

definition conn_run :: "run_data \<Rightarrow> pin_data \<Rightarrow> gconn \<Rightarrow> nat" where
  "conn_run rd pd c = (case mget pd (n_name (gc_from c)) of
     Some xs \<Rightarrow> 0
   | None \<Rightarrow> (case getIncomingDataFromAnyRun rd (n_name (gc_from c)) (gc_type c) (gc_outputIndex c) of
       Inr (Some (data, r)) \<Rightarrow> r | _ \<Rightarrow> 0))"

definition conn_source :: "run_data \<Rightarrow> pin_data \<Rightarrow> gconn \<Rightarrow> source_data option" where
  "conn_source rd pd c = Some \<lparr>s_previousNode = n_name (gc_from c),
     s_previousNodeOutput = Some (gc_outputIndex c), s_previousNodeRun = Some (conn_run rd pd c)\<rparr>"

definition typed_conns :: "run_data \<Rightarrow> gconn list \<Rightarrow> bool" where
  "typed_conns rd cs = list_all (\<lambda>c. has_type rd (n_name (gc_from c)) (gc_type c)) cs"

lemma complete_connection_ok:
  assumes "has_type rd (n_name (gc_from c)) (gc_type c)" "hasSourceData rd pd c"
  shows "complete_connection rd pd c (ds, ss) =
    Inr (ds @ (case conn_items rd pd c of None \<Rightarrow> [] | Some xs \<Rightarrow> [Some xs]), ss @ [conn_source rd pd c])"
proof (cases "mget pd (n_name (gc_from c))")
  case None
  with assms(2) have "mhas rd (n_name (gc_from c))" by (simp add: hasSourceData_def mhas_def)
  moreover from getIncomingDataFromAnyRun_total [OF assms(1)] obtain r where
    "getIncomingDataFromAnyRun rd (n_name (gc_from c)) (gc_type c) (gc_outputIndex c) = Inr r" by blast
  ultimately show ?thesis using None
    by (auto simp: complete_connection_def conn_items_def conn_source_def conn_run_def split: option.splits)
qed (simp add: complete_connection_def conn_items_def conn_source_def conn_run_def)

lemma complete_connections_ok:
  assumes "typed_conns rd cs" "\<forall>c\<in>set cs. hasSourceData rd pd c"
  shows "foldE (complete_connection rd pd) cs (ds, ss) =
    Inr (ds @ map Some (List.map_filter (conn_items rd pd) cs), ss @ map (conn_source rd pd) cs)"
  using assms
proof (induction cs arbitrary: ds ss)
  case (Cons c cs)
  then show ?case
    by (auto simp: complete_connection_ok typed_conns_def List.map_filter_def split: option.splits)
qed (simp add: List.map_filter_def)

definition group_entry :: "run_data \<Rightarrow> pin_data \<Rightarrow> inode \<Rightarrow> source_group \<Rightarrow> exec_data" where
  "group_entry rd pd n sg = stack_entry n (map Some (List.map_filter (conn_items rd pd) (sg_connections sg)))
     (Some [(Main, map (conn_source rd pd) (sg_connections sg))])"

lemma incomplete_group_ok:
  assumes "typed_conns rd (sg_connections sg)"
  shows "\<exists>st'. incomplete_group n rd sg st = Inr st' \<and> rc_stack st' = rc_stack st"
proof -
  let ?k = "case mget (rc_waiting st) (n_name n) of None \<Rightarrow> 0 | Some ob \<Rightarrow> length ob"
  have "\<exists>st'. foldE (incomplete_connection (n_name n) ?k rd) (sg_connections sg) st = Inr st' \<and> rc_stack st' = rc_stack st"
  proof (rule foldE_total)
    show "\<exists>b. incomplete_connection (n_name n) ?k rd c a = Inr b \<and> rc_stack b = rc_stack st"
      if "c \<in> set (sg_connections sg)" "rc_stack a = rc_stack st" for c a
    proof -
      have "has_type rd (n_name (gc_from c)) (gc_type c)"
        using assms that(1) by (simp add: typed_conns_def list_all_iff)
      from getIncomingDataFromAnyRun_total [OF this] obtain r where
        "getIncomingDataFromAnyRun rd (n_name (gc_from c)) (gc_type c) (gc_outputIndex c) = Inr r" by blast
      with that(2) show ?thesis by (auto simp: incomplete_connection_def split: option.splits)
    qed
  qed simp
  then show ?thesis by (simp add: incomplete_group_def Let_def)
qed

lemma groups_ok:
  assumes "\<forall>sg\<in>set sgs. typed_conns rd (sg_connections sg) \<and> good_group (hasSourceData rd pd) sg"
  shows "\<exists>st'. foldE (\<lambda>sg. if sg_complete sg then complete_group n rd pd sg else incomplete_group n rd sg) sgs st = Inr st'
    \<and> rc_stack st' = rc_stack st @ map (group_entry rd pd n) (filter sg_complete sgs)"
  using assms
proof (induction sgs arbitrary: st)
  case (Cons sg sgs)
  show ?case
  proof (cases "sg_complete sg")
    case True
    then have "complete_group n rd pd sg st = Inr (st\<lparr>rc_stack := rc_stack st @ [group_entry rd pd n sg]\<rparr>)"
      using Cons.prems by (simp add: complete_group_def complete_connections_ok good_group_def group_entry_def)
    with True Cons.IH [of "st\<lparr>rc_stack := rc_stack st @ [group_entry rd pd n sg]\<rparr>"] Cons.prems
    show ?thesis by simp
  next
    case False
    from incomplete_group_ok [of rd sg n st] Cons.prems obtain s1 where
      "incomplete_group n rd sg st = Inr s1" "rc_stack s1 = rc_stack st" by auto
    with False Cons.IH [of s1] Cons.prems show ?thesis by simp
  qed
qed simp

text \<open>The stack entries of one start node.\<close>

definition start_entries :: "(string \<Rightarrow> string \<Rightarrow> int) \<Rightarrow> digraph \<Rightarrow> run_data \<Rightarrow> pin_data \<Rightarrow> inode \<Rightarrow> exec_data list" where
  "start_entries cmp g rd pd n =
     (if \<exists>c\<in>set (conns g). gc_to c = n \<and> gc_type c = Main
      then map (group_entry rd pd n) (filter sg_complete (getSourceDataGroups cmp g n rd pd))
      else [stack_entry n [Some [json_item []]] None])"

lemma typed_conns_groups:
  assumes "typed_conns rd (conns g)" "sg \<in> set (getSourceDataGroups cmp g n rd pd)"
  shows "typed_conns rd (sg_connections sg)"
  using assms getSourceDataGroups_set [of cmp g n rd pd] by (fastforce simp: typed_conns_def list_all_iff)

lemma recreate_start_node_ok:
  assumes "nodeExists g n" "typed_conns rd (conns g)"
  shows "\<exists>st'. recreate_start_node cmp g rd pd n st = Inr st'
    \<and> rc_stack st' = rc_stack st @ start_entries cmp g rd pd n"
proof -
  let ?p = "filter (\<lambda>c. gc_to c = n) (conns g)"
  have p: "getDirectParentConnections g n = Inr ?p" using assms(1) by (simp add: getDirectParentConnections_def)
  show ?thesis
  proof (cases "\<exists>c\<in>set (conns g). gc_to c = n \<and> gc_type c = Main")
    case True
    then have ne: "filter (\<lambda>c. gc_type c = Main) ?p \<noteq> []" by (auto simp: filter_empty_conv)
    have "\<forall>sg\<in>set (getSourceDataGroups cmp g n rd pd). typed_conns rd (sg_connections sg)
        \<and> good_group (hasSourceData rd pd) sg"
      using getSourceDataGroups_good(1) typed_conns_groups [OF assms(2)] by blast
    from groups_ok [OF this, of n st] True ne show ?thesis
      by (simp add: recreate_start_node_def p start_entries_def)
  next
    case False
    then have "filter (\<lambda>c. gc_type c = Main) ?p = []" by (auto simp: filter_empty_conv)
    moreover from False have "start_entries cmp g rd pd n = [stack_entry n [Some [json_item []]] None]"
      unfolding start_entries_def by (rule if_not_P)
    ultimately show ?thesis by (simp add: recreate_start_node_def p)
  qed
qed

lemma recreateNodeExecutionStack_ok:
  assumes "\<forall>n\<in>set (node_list g). \<not> disabled n" "\<forall>n\<in>set starts. nodeExists g n" "typed_conns rd (conns g)"
  shows "\<exists>r. recreateNodeExecutionStack cmp g starts rd pd = Inr r
    \<and> rc_stack r = concat (map (start_entries cmp g rd pd) starts)"
proof -
  have chk: "foldE (\<lambda>node _. assertE (\<not> disabled node) ''Graph contains disabled nodes'') ns () = Inr ()"
    if "\<forall>n\<in>set ns. \<not> disabled n" for ns
    using that by (induction ns) auto
  have loop: "\<exists>r. foldE (recreate_start_node cmp g rd pd) ns st = Inr r
      \<and> rc_stack r = rc_stack st @ concat (map (start_entries cmp g rd pd) ns)"
    if "\<forall>n\<in>set ns. nodeExists g n" for ns st
    using that
  proof (induction ns arbitrary: st)
    case (Cons n ns)
    from recreate_start_node_ok [OF _ assms(3), of n cmp pd st] Cons.prems obtain s1 where
      "recreate_start_node cmp g rd pd n st = Inr s1" "rc_stack s1 = rc_stack st @ start_entries cmp g rd pd n" by auto
    with Cons.IH [of s1] Cons.prems show ?case by simp
  qed simp
  have "map snd (getNodes g) = node_list g" by (simp add: getNodes_def node_list_def)
  with loop [OF assms(2), of "\<lparr>rc_stack = [], rc_waiting = [], rc_waitingSource = []\<rparr>"] chk [OF assms(1)]
  show ?thesis by (simp add: recreateNodeExecutionStack_def)
qed

end
