(* ===== verification/Partial_Properties.thy ===== *)
theory Partial_Properties
  imports Sample_Data Start_Nodes Recreate_Stack
begin

text \<open>
  What the preparation of a partial execution promises: which run data survives, where the
  execution starts, how the inputs of a node are grouped and what is put on the stack.
\<close>

section \<open>Samples\<close>

text \<open>Three sources for the two inputs of \<open>B\<close>; \<open>C\<close> has items only in its second run.\<close>

definition fan_graph :: digraph where
  "fan_graph = mk_graph [nodeT, nodeA, nodeC, nodeB]
     [input_conn nodeT 0 nodeB, input_conn nodeA 1 nodeB, input_conn nodeC 1 nodeB]"

definition fan_runs :: run_data where
  "fan_runs = [(''T'', [sample_run [Some [sample_item 1]]]), (''A'', [sample_run [Some [sample_item 2]]]),
     (''C'', [sample_run [Some []], sample_run [Some [sample_item 3]]])]"

definition chain_runs :: run_data where
  "chain_runs = [(''T'', [sample_run [Some [sample_item 1]]]), (''A'', [sample_run [Some [sample_item 2]]])]"

lemma wf_fan_graph: "wf_graph fan_graph" by code_simp

section \<open>Run data\<close>

text \<open>
  \<^verbatim>\<open>getIncomingDataFromAnyRun\<close>, on run data that has the connection type, returns the items of
  the first run that has any at the output, with the index of that run, and \<^verbatim>\<open>undefined\<close> exactly when
  no run has.
\<close>

theorem getIncomingDataFromAnyRun_first:
  assumes "has_type rd nm ty"
  shows "\<exists>r. getIncomingDataFromAnyRun rd nm ty i = Inr r \<and>
    (case r of
       None \<Rightarrow> \<forall>k. run_output rd nm k ty i \<in> {None, Some []}
     | Some (d, k) \<Rightarrow> run_output rd nm k ty i = Some d \<and> d \<noteq> [] \<and> (\<forall>l<k. run_output rd nm l ty i \<in> {None, Some []}))"
proof -
  obtain r where r: "getIncomingDataFromAnyRun rd nm ty i = Inr r"
    using getIncomingDataFromAnyRun_total [OF assms] by blast
  then show ?thesis
    using getIncomingDataFromAnyRun_None [OF assms, of i] getIncomingDataFromAnyRun_Some [OF assms, of i]
    by (cases r) auto
qed

theorem getIncomingDataFromAnyRun_first_witness:
  "run_output fan_runs ''C'' 0 Main 0 = Some [] \<and> run_output fan_runs ''C'' 1 Main 0 = Some [sample_item 3] \<and>
   getIncomingDataFromAnyRun fan_runs ''C'' Main 0 = Inr (Some ([sample_item 3], 1))"
proof -
  have t: "has_type fan_runs ''C'' Main" by code_simp
  have v: "getIncomingDataFromAnyRun fan_runs ''C'' Main 0 = Inr (Some ([sample_item 3], 1))"
    "run_output fan_runs ''C'' 0 Main 0 = Some []" by code_simp+
  from getIncomingDataFromAnyRun_first [OF t, of 0] v show ?thesis by auto
qed

text \<open>
  \<^verbatim>\<open>getNextExecutionIndex\<close> is greater than every execution index in the run data, and is the
  least such number.
\<close>

theorem getNextExecutionIndex_least:
  "used_indices rd \<subseteq> {..<getNextExecutionIndex rd} \<and>
   getNextExecutionIndex rd = (LEAST n. used_indices rd \<subseteq> {..<n})"
proof
  show u: "used_indices rd \<subseteq> {..<getNextExecutionIndex rd}" using getNextExecutionIndex_fresh by auto
  show "getNextExecutionIndex rd = (LEAST n. used_indices rd \<subseteq> {..<n})"
  proof (rule Least_equality [symmetric])
    show "used_indices rd \<subseteq> {..<getNextExecutionIndex rd}" by (rule u)
    fix n assume "used_indices rd \<subseteq> {..<n}"
    then show "getNextExecutionIndex rd \<le> n"
      using Max_in [OF finite_used_indices, of rd] by (auto simp: getNextExecutionIndex_eq Suc_le_eq)
  qed
qed

text \<open>
  \<^verbatim>\<open>cleanRunData\<close> is total for nodes of the graph and keeps, unchanged, exactly the entries of nodes of
  the graph that are neither a cleaned node, nor reachable from one, nor the source of a connection
  of another type that leads to one of these.
\<close>

theorem cleanRunData_correct:
  assumes "wf_graph g" "\<forall>a\<in>set ns. nodeExists g a"
  shows "\<exists>rd'. cleanRunData rd g ns = Inr rd' \<and>
    (\<forall>nm. mget rd' nm = (if hasNode g nm \<and> nm \<notin> n_name ` (\<Union>a\<in>set ns. invalidated g a) then mget rd nm else None))"
  by (rule cleanRunData_lookup [OF assms])

theorem cleanRunData_correct_witness:
  "\<exists>rd'. cleanRunData fan_runs chain_graph [nodeA] = Inr rd' \<and>
    mget rd' ''T'' = mget fan_runs ''T'' \<and> mget rd' ''A'' = None \<and> mget rd' ''C'' = None"
proof -
  have h: "\<forall>a\<in>set [nodeA]. nodeExists chain_graph a" using nodeExists_chain_graph by simp
  have r: "cleanRunData fan_runs chain_graph [nodeA] = Inr [(''T'', [sample_run [Some [sample_item 1]]])]" by code_simp
  have v: "mget fan_runs ''T'' = Some [sample_run [Some [sample_item 1]]]" by code_simp
  from cleanRunData_correct [OF wf_chain_graph h, of fan_runs] r v show ?thesis by auto
qed

section \<open>Start nodes\<close>

text \<open>
  C26: \<^verbatim>\<open>findStartNodes\<close> is total on run data that has the connection types of the graph; it returns, without
  duplicates, exactly the stopping nodes (dirty, the destination, or a loop node not done) that the
  trigger reaches over outputs with data through nodes that do not stop. The \<open>seen\<close> sets of the
  recursion lose nothing.
\<close>

theorem findStartNodes_correct:
  assumes "wf_graph g" "typed_run_data g rd" "nodeExists g trigger"
  shows "\<exists>r. findStartNodes g trigger d pd rd = Inr r \<and> distinct r
    \<and> set r = {n. stops g d rd pd n \<and> (trigger, n) \<in> (flow g d rd pd)\<^sup>*}"
  by (rule findStartNodes_set [OF assms])

theorem findStartNodes_correct_witness:
  "stops chain_graph nodeB chain_runs [] nodeD \<and> (nodeT, nodeD) \<in> (flow chain_graph nodeB chain_runs [])\<^sup>*"
proof -
  have t: "typed_run_data chain_graph chain_runs" by code_simp
  have v: "findStartNodes chain_graph nodeT nodeB [] chain_runs = Inr [nodeD]" by code_simp
  from findStartNodes_correct [OF wf_chain_graph t nodeExists_chain_graph(1), of nodeB "[]"] v
  show ?thesis by auto
qed

section \<open>Groups of inputs\<close>

text \<open>
  \<^verbatim>\<open>getSourceDataGroups\<close> puts every incoming connection that has data, and every incoming main connection,
  into exactly one group. A group is not empty and holds consecutive inputs, each once; it is
  complete exactly when all its connections have data.
\<close>

theorem getSourceDataGroups_partition:
  "mset (concat (map sg_connections (getSourceDataGroups cmp g n rd pd))) =
     mset (filter (\<lambda>c. gc_to c = n \<and> (hasSourceData rd pd c \<or> gc_type c = Main)) (conns g))
   \<and> list_all (\<lambda>sg. sg_connections sg \<noteq> [] \<and> consecutive (sg_connections sg)
         \<and> (sg_complete sg = list_all (hasSourceData rd pd) (sg_connections sg)))
       (getSourceDataGroups cmp g n rd pd)"
  using getSourceDataGroups_good(1) [of cmp g n rd pd] getSourceDataGroups_good(2) [of cmp g n rd pd]
  by (simp add: good_group_def list_all_iff)

text \<open>
  C25: \<^verbatim>\<open>recreateNodeExecutionStack\<close> is total for start nodes of a graph without disabled nodes and run
  data that has the connection types: the assertion on missing data cannot fail. The stack
  holds, in the order of the start nodes, one entry per complete group, and one entry with an empty item for a
  start node without main parents.
\<close>

theorem recreateNodeExecutionStack_stack:
  assumes "\<forall>n\<in>set (node_list g). \<not> disabled n" "\<forall>n\<in>set starts. nodeExists g n" "typed_conns rd (conns g)"
  shows "\<exists>r. recreateNodeExecutionStack cmp g starts rd pd = Inr r
    \<and> map ed_node (rc_stack r) = concat (map (\<lambda>n. replicate
         (if \<exists>c\<in>set (conns g). gc_to c = n \<and> gc_type c = Main
          then length (filter sg_complete (getSourceDataGroups cmp g n rd pd)) else 1) n) starts)
    \<and> (\<forall>e\<in>set (rc_stack r). (\<exists>sg. sg_complete sg \<and> sg \<in> set (getSourceDataGroups cmp g (ed_node e) rd pd)
           \<and> ed_source e = Some [(Main, map (conn_source rd pd) (sg_connections sg))]
           \<and> ed_data e = [(Main, map Some (List.map_filter (conn_items rd pd) (sg_connections sg)))])
         \<or> ed_source e = None \<and> ed_data e = [(Main, [Some [json_item []]])])"
proof -
  from recreateNodeExecutionStack_ok [OF assms] obtain r where
      r: "recreateNodeExecutionStack cmp g starts rd pd = Inr r"
        "rc_stack r = concat (map (start_entries cmp g rd pd) starts)" by blast
  have n: "ed_node (group_entry rd pd n sg) = n" for n sg by (simp add: group_entry_def stack_entry_def)
  have nodes: "map ed_node (start_entries cmp g rd pd n) = replicate
         (if \<exists>c\<in>set (conns g). gc_to c = n \<and> gc_type c = Main
          then length (filter sg_complete (getSourceDataGroups cmp g n rd pd)) else 1) n" for n
  proof (cases "\<exists>c\<in>set (conns g). gc_to c = n \<and> gc_type c = Main")
    case True
    then show ?thesis by (simp only: start_entries_def if_True) (simp add: comp_def n map_replicate_const)
  next
    case False
    then show ?thesis by (simp only: start_entries_def if_False) (simp add: stack_entry_def)
  qed
  have entry: "(\<exists>sg. sg_complete sg \<and> sg \<in> set (getSourceDataGroups cmp g (ed_node e) rd pd)
           \<and> ed_source e = Some [(Main, map (conn_source rd pd) (sg_connections sg))]
           \<and> ed_data e = [(Main, map Some (List.map_filter (conn_items rd pd) (sg_connections sg)))])
         \<or> ed_source e = None \<and> ed_data e = [(Main, [Some [json_item []]])]"
    if "e \<in> set (start_entries cmp g rd pd n)" for e n
    using that by (auto simp: start_entries_def group_entry_def stack_entry_def split: if_splits)
  show ?thesis
  proof (intro exI [of _ r] conjI)
    show "map ed_node (rc_stack r) = concat (map (\<lambda>n. replicate
         (if \<exists>c\<in>set (conns g). gc_to c = n \<and> gc_type c = Main
          then length (filter sg_complete (getSourceDataGroups cmp g n rd pd)) else 1) n) starts)"
      by (simp add: r(2) map_concat comp_def nodes)
  qed (use r entry in auto)
qed

theorem recreateNodeExecutionStack_stack_witness:
  "\<exists>r. recreateNodeExecutionStack compare_names fan_graph [nodeT, nodeB] fan_runs [] = Inr r
    \<and> map ed_node (rc_stack r) = [nodeT, nodeB, nodeB]"
proof -
  have d: "\<forall>n\<in>set (node_list fan_graph). \<not> disabled n" by code_simp
  have e: "\<forall>n\<in>set [nodeT, nodeB]. nodeExists fan_graph n" by code_simp
  have t: "typed_conns fan_runs (conns fan_graph)" by code_simp
  have v: "concat (map (\<lambda>n. replicate
         (if \<exists>c\<in>set (conns fan_graph). gc_to c = n \<and> gc_type c = Main
          then length (filter sg_complete (getSourceDataGroups compare_names fan_graph n fan_runs [])) else 1) n)
        [nodeT, nodeB]) = [nodeT, nodeB, nodeB]" by code_simp
  from recreateNodeExecutionStack_stack [OF d e t, of compare_names "[]"] show ?thesis
    unfolding v by (elim exE conjE) (intro exI conjI)
qed

text \<open>
  the items of a complete group are put at the positions of a list without gaps, not at the input of
  their connection: the second group of \<open>B\<close> consists of the connection from \<open>C\<close> to input 1, and its
  items land on input 0.
\<close>

theorem recreateNodeExecutionStack_wrong_input:
  "case recreateNodeExecutionStack compare_names fan_graph [nodeB] fan_runs [] of
     Inr r \<Rightarrow> map ed_data (rc_stack r) =
         [[(Main, [Some [sample_item 1], Some [sample_item 2]])], [(Main, [Some [sample_item 3]])]]
       \<and> map sg_connections (getSourceDataGroups compare_names fan_graph nodeB fan_runs []) =
         [[input_conn nodeT 0 nodeB, input_conn nodeA 1 nodeB], [input_conn nodeC 1 nodeB]]
   | Inl _ \<Rightarrow> False"
  by code_simp

text \<open>
  A source of a complete group whose runs have no items adds a source entry but no data, so that the items
  of the next source take its place: here \<open>T\<close> ran without items, and the items of \<open>A\<close> (input 1)
  are first, next to the source entry of \<open>T\<close>.
\<close>

theorem recreateNodeExecutionStack_misaligned:
  "case recreateNodeExecutionStack compare_names fan_graph [nodeB]
      [(''T'', [sample_run [Some []]]), (''A'', [sample_run [Some [sample_item 2]]])] [] of
     Inr r \<Rightarrow> (case rc_stack r of
        e # _ \<Rightarrow> ed_data e = [(Main, [Some [sample_item 2]])]
          \<and> map_option (map (\<lambda>(k, l). (k, map (map_option s_previousNode) l))) (ed_source e)
              = Some [(Main, [Some ''T'', Some ''A''])]
      | [] \<Rightarrow> False)
   | Inl _ \<Rightarrow> False"
  by code_simp

text \<open>
  An incomplete group reads run data only: pinned data of a source, which counts as data when the
  groups are formed, is not put into the waiting entry. Here \<open>A\<close> is pinned and \<open>T\<close> has
  no data, and nothing is waiting for \<open>B\<close>.
\<close>

theorem recreateNodeExecutionStack_drops_pinned:
  "(case recreateNodeExecutionStack compare_names fan_graph [nodeB] [] [(''A'', [sample_item 7])] of
     Inr r \<Rightarrow> rc_waiting r = [] \<and> rc_stack r = [] | Inl _ \<Rightarrow> False)
   \<and> map sg_connections (getSourceDataGroups compare_names fan_graph nodeB [] [(''A'', [sample_item 7])]) =
       [[input_conn nodeT 0 nodeB, input_conn nodeA 1 nodeB], [input_conn nodeC 1 nodeB]]
   \<and> hasSourceData [] [(''A'', [sample_item 7])] (input_conn nodeA 1 nodeB)"
  by code_simp

text \<open>
  \<^verbatim>\<open>addWaitingExecution\<close> writes exactly one cell: the items of the given node, run, connection type and
  input; every other cell of the waiting entries is unchanged.
\<close>

theorem addWaitingExecution_one_cell:
  "waiting_cell (addWaitingExecution w nm r ty i d) nm' r' ty' i' =
     (if nm' = nm \<and> r' = r \<and> ty' = ty \<and> i' = i then d else waiting_cell w nm' r' ty' i')"
  by (rule addWaitingExecution_cell)

end
