(* ===== verification/Connections_Map.thy ===== *)
theory Connections_Map
  imports N8n_Types
begin

text \<open>
  The nested connection objects of a workflow (\<^verbatim>\<open>packages/workflow/src/common\<close>): the search over
  connected nodes, the inversion of the connections, and the lookup of nodes by name.
\<close>

section \<open>Connected nodes\<close>

text \<open>The connection type to follow, or one of the two wildcards.\<close>

datatype conn_filter = OfType conn_type | AllTypes | AllNonMain

definition types_of :: "conn_filter \<Rightarrow> node_inputs obj \<Rightarrow> conn_type list" where
  "types_of connectionType byType = (case connectionType of
     AllTypes \<Rightarrow> obj_keys byType
   | AllNonMain \<Rightarrow> filter (\<lambda>type. type \<noteq> ''main'') (obj_keys byType)
   | OfType t \<Rightarrow> [t])"

definition index_conns :: "node_inputs \<Rightarrow> iconn list" where
  "index_conns byIndex = concat (map (case_option [] id) byIndex)"

text \<open>The inner loop: the nodes found behind a connection move to the front, in their order.\<close>

definition merge_nodes :: "string list \<Rightarrow> string list \<Rightarrow> string list" where
  "merge_nodes addNodes returnNodes = foldr (\<lambda>parentNodeName r. parentNodeName # remove1 parentNodeName r) addNodes returnNodes"

function getConnectedNodes ::
  "iconnections \<Rightarrow> string \<Rightarrow> conn_filter \<Rightarrow> int \<Rightarrow> string list \<Rightarrow> string list" where
  "getConnectedNodes connections nodeName connectionType depth checkedNodesIncoming =
     (let newDepth = (if depth = - 1 then depth else depth - 1) in
      if depth = 0 then []
      else case mget connections nodeName of
        None \<Rightarrow> []
      | Some byType \<Rightarrow>
          foldl (\<lambda>returnNodes type. case mget byType type of
              None \<Rightarrow> returnNodes
            | Some byIndex \<Rightarrow>
                if nodeName \<in> set checkedNodesIncoming then returnNodes
                else
                  let checkedNodes = checkedNodesIncoming @ [nodeName] in
                  foldl (\<lambda>returnNodes connection.
                      if ic_node connection \<in> set checkedNodes then returnNodes
                      else merge_nodes
                             (getConnectedNodes connections (ic_node connection) connectionType newDepth checkedNodes)
                             (ic_node connection # returnNodes))
                    returnNodes (index_conns byIndex))
            [] (types_of connectionType byType))"
  by pat_completeness auto
termination
proof (relation "measure (\<lambda>(cs, n, ct, d, checked). card (fst ` set cs - set checked))", goal_cases)
  case (2 cs n ct d checked nd byType r ty byIndex ck r' c)
  then have "n \<in> fst ` set cs" by (metis map_of_eq_None_iff option.distinct(1))
  then have "card (fst ` set cs - set (checked @ [n])) < card (fst ` set cs - set checked)"
    using 2 by (intro psubset_card_mono) auto
  then show ?case using 2 by simp
qed simp

declare getConnectedNodes.simps [simp del]

definition getChildNodes :: "iconnections \<Rightarrow> string \<Rightarrow> conn_filter \<Rightarrow> int \<Rightarrow> string list" where
  "getChildNodes connectionsBySourceNode nodeName type depth =
     getConnectedNodes connectionsBySourceNode nodeName type depth []"

definition getParentNodes :: "iconnections \<Rightarrow> string \<Rightarrow> conn_filter \<Rightarrow> int \<Rightarrow> string list" where
  "getParentNodes connectionsByDestinationNode nodeName type depth =
     getConnectedNodes connectionsByDestinationNode nodeName type depth []"

section \<open>Nodes by name\<close>

definition getNodeByName_list :: "inode list \<Rightarrow> string \<Rightarrow> inode option" where
  "getNodeByName_list nodes name = find (\<lambda>node. n_name node = name) nodes"

definition getNodeByName_obj :: "inode obj \<Rightarrow> string \<Rightarrow> inode option" where
  "getNodeByName_obj nodes name = (if mhas nodes name then mget nodes name else None)"

section \<open>Connections by destination\<close>

definition push_connection :: "iconn \<Rightarrow> iconn \<Rightarrow> iconnections \<Rightarrow> iconnections" where
  "push_connection connectionInfo back_conn returnConnection =
     (let byType = (case mget returnConnection (ic_node connectionInfo) of None \<Rightarrow> [] | Some t \<Rightarrow> t);
          byIndex = (case mget byType (ic_type connectionInfo) of None \<Rightarrow> [] | Some l \<Rightarrow> l);
          byIndex = byIndex @ replicate (ic_index connectionInfo + 1 - length byIndex) (Some []);
          byIndex = byIndex[ic_index connectionInfo :=
            map_option (\<lambda>l. l @ [back_conn]) (byIndex ! ic_index connectionInfo)]
      in mset_at (ic_node connectionInfo) (mset_at (ic_type connectionInfo) byIndex byType) returnConnection)"

definition mapConnectionsByDestination :: "iconnections \<Rightarrow> iconnections" where
  "mapConnectionsByDestination connections =
     foldl (\<lambda>ret (sourceNode, byType).
       foldl (\<lambda>ret (type, byIndex).
         foldl (\<lambda>ret (inputIndex, conns).
           foldl (\<lambda>ret connectionInfo.
               push_connection connectionInfo
                 \<lparr>ic_node = sourceNode, ic_type = type, ic_index = inputIndex\<rparr> ret)
             ret (case conns of None \<Rightarrow> [] | Some l \<Rightarrow> l))
           ret (enumerate0 byIndex))
         ret (obj_entries byType))
       [] (obj_entries connections)"

section \<open>The search, as a set\<close>

text \<open>The edges the search follows.\<close>

definition follow :: "iconnections \<Rightarrow> conn_filter \<Rightarrow> (string \<times> string) set" where
  "follow cs ct = {(a, ic_node c) | a c. \<exists>byType ty byIndex. mget cs a = Some byType
     \<and> ty \<in> set (types_of ct byType) \<and> mget byType ty = Some byIndex \<and> c \<in> set (index_conns byIndex)}"

definition avoiding :: "('a \<times> 'a) set \<Rightarrow> 'a set \<Rightarrow> ('a \<times> 'a) set" where
  "avoiding R S = {(x, y) \<in> R. y \<notin> S}"

text \<open>A walk that ends elsewhere can be cut after its last visit of the start.\<close>

lemma avoiding_cut:
  "(c, m) \<in> (avoiding R T) ^^ k \<Longrightarrow> m \<noteq> c \<Longrightarrow>
    \<exists>j. 0 < j \<and> j \<le> k \<and> (c, m) \<in> (avoiding R (insert c T)) ^^ j"
proof (induction k arbitrary: m)
  case (Suc k)
  then obtain x where x: "(c, x) \<in> (avoiding R T) ^^ k" "(x, m) \<in> avoiding R T" by auto
  then have e: "(x, m) \<in> avoiding R (insert c T)" using Suc.prems(2) by (auto simp: avoiding_def)
  show ?case
  proof (cases "x = c")
    case True
    with e show ?thesis by (intro exI [of _ 1]) simp
  next
    case False
    from Suc.IH [OF x(1) False] obtain j where "0 < j" "j \<le> k" "(c, x) \<in> (avoiding R (insert c T)) ^^ j" by blast
    with e show ?thesis by (intro exI [of _ "Suc j"]) auto
  qed
qed simp

lemma relpow_subset: "A \<subseteq> B \<Longrightarrow> (A :: ('a \<times> 'a) set) ^^ k \<subseteq> B ^^ k"
  by (induction k) auto

lemma avoiding_mono: "avoiding R (insert c T) \<subseteq> avoiding R T"
  by (auto simp: avoiding_def)

definition in_depth :: "int \<Rightarrow> nat \<Rightarrow> bool" where
  "in_depth depth k \<longleftrightarrow> depth < 0 \<or> int k \<le> depth"

lemma in_depth_Suc:
  "d \<noteq> 0 \<Longrightarrow> in_depth (if d = - 1 then d else d - 1) k \<longleftrightarrow> in_depth d (Suc k)"
  by (auto simp: in_depth_def)

lemma in_depth_le: "in_depth d k \<Longrightarrow> j \<le> k \<Longrightarrow> in_depth d j"
  by (auto simp: in_depth_def)

definition found :: "iconnections \<Rightarrow> conn_filter \<Rightarrow> string set \<Rightarrow> int \<Rightarrow> string \<Rightarrow> string set" where
  "found cs ct T d n = {m. \<exists>k. 0 < k \<and> in_depth d k \<and> (n, m) \<in> (avoiding (follow cs ct) T) ^^ k}"

lemma set_merge_nodes [simp]: "set (merge_nodes xs ys) = set xs \<union> set ys"
proof (induction xs)
  case (Cons x xs)
  have "merge_nodes (x # xs) ys = x # remove1 x (merge_nodes xs ys)" by (simp add: merge_nodes_def)
  then have "set (merge_nodes (x # xs) ys) = insert x (set (remove1 x (merge_nodes xs ys)))" by simp
  also have "\<dots> = insert x (set (merge_nodes xs ys))" (is "insert x ?A = insert x ?B")
  proof (rule set_eqI)
    show "y \<in> insert x ?A \<longleftrightarrow> y \<in> insert x ?B" for y by (cases "y = x") simp_all
  qed
  finally show ?case using Cons by simp
qed (simp add: merge_nodes_def)

text \<open>A loop that collects values in a list, as a union.\<close>

lemma set_foldl_collect:
  assumes "\<And>a x. x \<in> set xs \<Longrightarrow> set (f a x) = set a \<union> G x"
  shows "set (foldl f a xs) = set a \<union> (\<Union>x\<in>set xs. G x)"
  using assms by (induction xs arbitrary: a) auto

lemma found_step:
  assumes "d \<noteq> 0"
  shows "found cs ct T d n = (\<Union>c\<in>{c. (n, c) \<in> follow cs ct \<and> c \<notin> T}.
    insert c (found cs ct (insert c T) (if d = - 1 then d else d - 1) c))"
proof (rule set_eqI, rule iffI)
  let ?R = "follow cs ct" and ?d = "if d = - 1 then d else d - 1"
  fix m assume "m \<in> found cs ct T d n"
  then obtain k where k: "in_depth d (Suc k)" "(n, m) \<in> (avoiding ?R T) ^^ Suc k"
    by (auto simp: found_def gr0_conv_Suc)
  from relpow_Suc_D2 [OF k(2)] obtain c where c: "(n, c) \<in> avoiding ?R T" "(c, m) \<in> (avoiding ?R T) ^^ k" by blast
  have "m \<in> insert c (found cs ct (insert c T) ?d c)"
  proof (cases "m = c")
    case False
    from avoiding_cut [OF c(2) False] obtain j where
      "0 < j" "j \<le> k" "(c, m) \<in> (avoiding ?R (insert c T)) ^^ j" by blast
    moreover have "in_depth ?d j" using k(1) in_depth_Suc [OF assms] \<open>j \<le> k\<close> in_depth_le by blast
    ultimately show ?thesis by (auto simp: found_def)
  qed simp
  with c(1) show "m \<in> (\<Union>c\<in>{c. (n, c) \<in> ?R \<and> c \<notin> T}. insert c (found cs ct (insert c T) ?d c))"
    by (auto simp: avoiding_def)
next
  let ?R = "follow cs ct" and ?d = "if d = - 1 then d else d - 1"
  fix m assume "m \<in> (\<Union>c\<in>{c. (n, c) \<in> ?R \<and> c \<notin> T}. insert c (found cs ct (insert c T) ?d c))"
  then obtain c where c: "(n, c) \<in> avoiding ?R T" "m \<in> insert c (found cs ct (insert c T) ?d c)"
    by (auto simp: avoiding_def)
  obtain k where k: "in_depth ?d k" "(c, m) \<in> (avoiding ?R T) ^^ k"
  proof (cases "m = c")
    case True
    have "in_depth ?d 0" using assms by (auto simp: in_depth_def)
    with True that [of 0] show ?thesis by simp
  next
    case False
    with c(2) obtain k where "in_depth ?d k" "(c, m) \<in> (avoiding ?R (insert c T)) ^^ k" by (auto simp: found_def)
    from that [OF this(1) subsetD [OF relpow_subset [OF avoiding_mono] this(2)]] show ?thesis .
  qed
  have "(n, m) \<in> (avoiding ?R T) ^^ Suc k" by (rule relpow_Suc_I2 [OF c(1) k(2)])
  moreover have "in_depth d (Suc k)" using in_depth_Suc [OF assms] k(1) by blast
  ultimately show "m \<in> found cs ct T d n" unfolding found_def by blast
qed

lemma getConnectedNodes_found:
  "n \<notin> set checked \<Longrightarrow>
    set (getConnectedNodes cs n ct d checked) = found cs ct (insert n (set checked)) d n"
proof (induction cs n ct d checked rule: getConnectedNodes.induct)
  case (1 cs n ct d checked)
  let ?d = "if d = - 1 then d else d - 1" and ?T = "insert n (set checked)"
  note eq = getConnectedNodes.simps [of cs n ct d checked]
  show ?case
  proof (cases "d = 0")
    case True
    then show ?thesis by (subst eq) (auto simp: found_def in_depth_def)
  next
    case False
    show ?thesis
    proof (cases "mget cs n")
      case None
      then have "{c. (n, c) \<in> follow cs ct \<and> c \<notin> ?T} = {}" by (simp add: follow_def)
      then show ?thesis unfolding found_step [OF False] using None False by (subst eq) simp
    next
      case (Some byType)
      let ?step = "\<lambda>r c. if ic_node c \<in> set (checked @ [n]) then r
        else merge_nodes (getConnectedNodes cs (ic_node c) ct ?d (checked @ [n])) (ic_node c # r)"
      let ?G = "\<lambda>c. if ic_node c \<in> ?T then {} else insert (ic_node c) (found cs ct (insert (ic_node c) ?T) ?d (ic_node c))"
      let ?tstep = "\<lambda>r ty. case mget byType ty of None \<Rightarrow> r | Some byIndex \<Rightarrow> foldl ?step r (index_conns byIndex)"
      let ?H = "\<lambda>ty. case mget byType ty of None \<Rightarrow> {} | Some byIndex \<Rightarrow> \<Union>c\<in>set (index_conns byIndex). ?G c"
      have inner: "set (foldl ?step r (index_conns byIndex)) = set r \<union> (\<Union>c\<in>set (index_conns byIndex). ?G c)"
        if ty: "ty \<in> set (types_of ct byType)" "mget byType ty = Some byIndex" for r ty byIndex
      proof (rule set_foldl_collect)
        fix a c assume "c \<in> set (index_conns byIndex)"
        then show "set (?step a c) = set a \<union> ?G c"
          using "1.IH" [OF refl False Some ty "1.prems" refl, of c] by (auto simp: insert_commute)
      qed
      have "set (foldl ?tstep [] (types_of ct byType)) = set [] \<union> (\<Union>ty\<in>set (types_of ct byType). ?H ty)"
      proof (rule set_foldl_collect)
        fix a ty assume "ty \<in> set (types_of ct byType)"
        from inner [OF this] show "set (?tstep a ty) = set a \<union> ?H ty"
          by (cases "mget byType ty") (simp_all only: option.case Un_empty_right)
      qed
      moreover have "getConnectedNodes cs n ct d checked = foldl ?tstep [] (types_of ct byType)"
        using False Some "1.prems" by (subst eq) (simp add: Let_def cong: option.case_cong)
      moreover have "(\<Union>ty\<in>set (types_of ct byType). ?H ty) =
          (\<Union>c\<in>{c. (n, c) \<in> follow cs ct \<and> c \<notin> ?T}. insert c (found cs ct (insert c ?T) ?d c))"
        using Some by (fastforce simp: follow_def split: option.splits if_splits)
      ultimately show ?thesis unfolding found_step [OF False] by simp
    qed
  qed
qed

text \<open>From the top: the other nodes at the end of a walk no longer than the depth.\<close>

lemma getConnectedNodes_set:
  "set (getConnectedNodes cs n ct d []) =
    {m. m \<noteq> n \<and> (\<exists>k. 0 < k \<and> in_depth d k \<and> (n, m) \<in> follow cs ct ^^ k)}"
proof -
  have "set (getConnectedNodes cs n ct d []) = found cs ct {n} d n" by (simp add: getConnectedNodes_found)
  also have "\<dots> = {m. m \<noteq> n \<and> (\<exists>k. 0 < k \<and> in_depth d k \<and> (n, m) \<in> follow cs ct ^^ k)}" (is "_ = ?F")
  proof (rule set_eqI, rule iffI)
    fix m assume "m \<in> found cs ct {n} d n"
    then obtain k where k: "in_depth d (Suc k)" "(n, m) \<in> (avoiding (follow cs ct) {n}) ^^ Suc k"
      by (auto simp: found_def gr0_conv_Suc)
    then have "m \<noteq> n" by (auto simp: avoiding_def)
    moreover have "(n, m) \<in> follow cs ct ^^ Suc k"
      using relpow_subset [of "avoiding (follow cs ct) {n}" "follow cs ct" "Suc k"] k(2) by (auto simp: avoiding_def)
    ultimately show "m \<in> ?F" using k(1) by blast
  next
    fix m assume "m \<in> ?F"
    then obtain k where k: "m \<noteq> n" "in_depth d k" "(n, m) \<in> (avoiding (follow cs ct) {}) ^^ k"
      by (auto simp: avoiding_def)
    from avoiding_cut [OF k(3,1)] obtain j where
      "0 < j" "j \<le> k" "(n, m) \<in> (avoiding (follow cs ct) {n}) ^^ j" by auto
    with k(2) in_depth_le show "m \<in> found cs ct {n} d n" by (auto simp: found_def)
  qed
  finally show ?thesis .
qed

section \<open>The inverted connections\<close>

text \<open>The list of lists of a node and type, empty where there is none.\<close>

definition cells :: "iconnections \<Rightarrow> string \<Rightarrow> conn_type \<Rightarrow> node_inputs" where
  "cells cs a ty = (case mget cs a of None \<Rightarrow> [] | Some byType \<Rightarrow>
     (case mget byType ty of None \<Rightarrow> [] | Some byIndex \<Rightarrow> byIndex))"

definition conn_at :: "iconnections \<Rightarrow> string \<Rightarrow> conn_type \<Rightarrow> nat \<Rightarrow> iconn \<Rightarrow> bool" where
  "conn_at cs a ty i c \<longleftrightarrow> i < length (cells cs a ty) \<and> c \<in> set (case_option [] id (cells cs a ty ! i))"

text \<open>The ends of every connection: source node, type and output, target node, type and input.\<close>

definition links :: "iconnections \<Rightarrow> ((string \<times> conn_type \<times> nat) \<times> (string \<times> conn_type \<times> nat)) set" where
  "links cs = {((a, ty, i), (ic_node c, ic_type c, ic_index c)) | a ty i c. conn_at cs a ty i c}"

definition no_holes :: "iconnections \<Rightarrow> bool" where
  "no_holes cs \<longleftrightarrow> (\<forall>a ty. None \<notin> set (cells cs a ty))"

lemma cells_push:
  "cells (push_connection ci b cs) a ty =
    (if a = ic_node ci \<and> ty = ic_type ci then
       (let l = cells cs a ty @ replicate (ic_index ci + 1 - length (cells cs a ty)) (Some [])
        in l[ic_index ci := map_option (\<lambda>x. x @ [b]) (l ! ic_index ci)])
     else cells cs a ty)"
  by (auto simp: cells_def push_connection_def Let_def split: option.splits)

lemma push_connection_inv:
  assumes "no_holes cs"
  shows "no_holes (push_connection ci b cs)"
    and "conn_at (push_connection ci b cs) a ty i c \<longleftrightarrow>
      conn_at cs a ty i c \<or> a = ic_node ci \<and> ty = ic_type ci \<and> i = ic_index ci \<and> c = b"
proof -
  let ?l = "\<lambda>a ty. cells cs a ty @ replicate (ic_index ci + 1 - length (cells cs a ty)) (Some [])"
  have ne: "?l a ty ! j \<noteq> None" if "j < length (?l a ty)" for a ty j
  proof -
    have "?l a ty ! j \<in> set (?l a ty)" using that by (rule nth_mem)
    moreover have "None \<notin> set (?l a ty)" using assms by (auto simp: no_holes_def)
    ultimately show ?thesis by metis
  qed
  have bound: "ic_index ci < length (?l a ty)" for a ty by simp
  show "no_holes (push_connection ci b cs)"
    unfolding no_holes_def
  proof (intro allI notI)
    fix a ty assume n: "None \<in> set (cells (push_connection ci b cs) a ty)"
    show False
    proof (cases "a = ic_node ci \<and> ty = ic_type ci")
      case True
      with n have "None \<in> set ((?l a ty)[ic_index ci := map_option (\<lambda>x. x @ [b]) (?l a ty ! ic_index ci)])"
        by (simp add: cells_push Let_def)
      then have "None = map_option (\<lambda>x. x @ [b]) (?l a ty ! ic_index ci) \<or> None \<in> set (?l a ty)"
        using set_update_subset_insert by fast
      moreover have "None \<notin> set (?l a ty)" using assms by (auto simp: no_holes_def)
      ultimately have "?l a ty ! ic_index ci = None" by (metis map_option_is_None)
      with ne [OF bound, of a ty] show False by contradiction
    next
      case False
      with n assms show False by (auto simp: cells_push no_holes_def)
    qed
  qed
  show "conn_at (push_connection ci b cs) a ty i c \<longleftrightarrow>
      conn_at cs a ty i c \<or> a = ic_node ci \<and> ty = ic_type ci \<and> i = ic_index ci \<and> c = b"
  proof (cases "a = ic_node ci \<and> ty = ic_type ci")
    case True
    obtain x where x: "?l a ty ! ic_index ci = Some x" using ne [OF bound, of a ty] by auto
    have at: "conn_at (push_connection ci b cs) a ty i c \<longleftrightarrow>
        i < length (?l a ty) \<and> c \<in> set (case_option [] id ((?l a ty)[ic_index ci := Some (x @ [b])] ! i))"
      using True x by (simp add: conn_at_def cells_push Let_def)
    have old: "conn_at cs a ty i c \<longleftrightarrow> i < length (?l a ty) \<and> c \<in> set (case_option [] id (?l a ty ! i))" for i c
      by (auto simp: conn_at_def nth_append)
    show ?thesis unfolding at old using True x bound [of a ty]
      by (cases "i = ic_index ci") (auto simp: nth_list_update simp del: length_append)
  qed (auto simp: conn_at_def cells_push)
qed

text \<open>The nested loops, as one list of pushes.\<close>

definition pushes :: "iconnections \<Rightarrow> (iconn \<times> iconn) list" where
  "pushes cs = concat (map (\<lambda>(a, byType). concat (map (\<lambda>(ty, byIndex).
     concat (map (\<lambda>(i, l). map (\<lambda>c. (c, \<lparr>ic_node = a, ic_type = ty, ic_index = i\<rparr>))
       (case_option [] id l)) (enumerate0 byIndex))) (obj_entries byType))) (obj_entries cs))"

lemma foldl_concat_map: "foldl f a (concat (map g xs)) = foldl (\<lambda>a x. foldl f a (g x)) a xs"
  by (induction xs arbitrary: a) simp_all

lemma foldl_pushes:
  "mapConnectionsByDestination cs = foldl (\<lambda>ret (c, b). push_connection c b ret) [] (pushes cs)"
proof -
  have id: "(case l of None \<Rightarrow> [] | Some x \<Rightarrow> x) = case_option [] id l" for l :: "'x list option"
    by (cases l) simp_all
  show ?thesis
    by (simp add: mapConnectionsByDestination_def pushes_def foldl_concat_map case_prod_unfold foldl_map id)
qed

lemma set_pushes:
  "set (pushes cs) = {(c, \<lparr>ic_node = a, ic_type = ty, ic_index = i\<rparr>) | c a ty i. conn_at cs a ty i c}"
proof -
  have "(c, b) \<in> set (pushes cs) \<longleftrightarrow> (\<exists>a ty i. b = \<lparr>ic_node = a, ic_type = ty, ic_index = i\<rparr> \<and> conn_at cs a ty i c)" for c b
  proof -
    have "(c, b) \<in> set (pushes cs) \<longleftrightarrow> (\<exists>a byType ty byIndex i l. mget cs a = Some byType \<and> mget byType ty = Some byIndex
        \<and> i < length byIndex \<and> byIndex ! i = l \<and> c \<in> set (case_option [] id l) \<and> b = \<lparr>ic_node = a, ic_type = ty, ic_index = i\<rparr>)"
      by (fastforce simp: pushes_def set_obj_entries set_enumerate0)
    then show ?thesis by (fastforce simp: conn_at_def cells_def split: option.splits)
  qed
  then show ?thesis by auto
qed

lemma foldl_push_inv:
  "no_holes cs \<Longrightarrow> no_holes (foldl (\<lambda>ret (c, b). push_connection c b ret) cs ps) \<and>
    (conn_at (foldl (\<lambda>ret (c, b). push_connection c b ret) cs ps) a ty i d \<longleftrightarrow>
      conn_at cs a ty i d \<or> (\<exists>c. (c, d) \<in> set ps \<and> a = ic_node c \<and> ty = ic_type c \<and> i = ic_index c))"
proof (induction ps arbitrary: cs)
  case (Cons p ps)
  obtain c b where p: "p = (c, b)" by fastforce
  from Cons.IH [OF push_connection_inv(1) [OF Cons.prems, of c b]] show ?case
    by (auto simp: p push_connection_inv(2) [OF Cons.prems])
qed simp

lemma mapConnectionsByDestination_conn_at:
  "conn_at (mapConnectionsByDestination cs) b bty j d \<longleftrightarrow>
    (\<exists>c a ty i. conn_at cs a ty i c \<and> d = \<lparr>ic_node = a, ic_type = ty, ic_index = i\<rparr>
       \<and> b = ic_node c \<and> bty = ic_type c \<and> j = ic_index c)"
proof -
  have e: "no_holes []" "\<not> conn_at [] b bty j d" by (simp_all add: no_holes_def cells_def conn_at_def)
  from foldl_push_inv [OF e(1), of "pushes cs" b bty j d] e(2) show ?thesis
    unfolding foldl_pushes set_pushes by blast
qed

lemma links_mapConnectionsByDestination: "links (mapConnectionsByDestination cs) = (links cs)\<inverse>"
proof (rule set_eqI, clarify)
  fix b bty j a ty i
  have "((b, bty, j), (a, ty, i)) \<in> links (mapConnectionsByDestination cs) \<longleftrightarrow>
      conn_at (mapConnectionsByDestination cs) b bty j \<lparr>ic_node = a, ic_type = ty, ic_index = i\<rparr>"
  proof
    assume "((b, bty, j), (a, ty, i)) \<in> links (mapConnectionsByDestination cs)"
    then obtain c where "conn_at (mapConnectionsByDestination cs) b bty j c"
      "a = ic_node c" "ty = ic_type c" "i = ic_index c" by (auto simp: links_def)
    then show "conn_at (mapConnectionsByDestination cs) b bty j \<lparr>ic_node = a, ic_type = ty, ic_index = i\<rparr>"
      by (cases c) simp
  next
    assume "conn_at (mapConnectionsByDestination cs) b bty j \<lparr>ic_node = a, ic_type = ty, ic_index = i\<rparr>"
    then show "((b, bty, j), (a, ty, i)) \<in> links (mapConnectionsByDestination cs)"
      unfolding links_def by force
  qed
  also have "\<dots> \<longleftrightarrow> ((a, ty, i), (b, bty, j)) \<in> links cs"
    unfolding mapConnectionsByDestination_conn_at by (auto simp: links_def)
  finally show "((b, bty, j), (a, ty, i)) \<in> links (mapConnectionsByDestination cs) \<longleftrightarrow>
      ((b, bty, j), (a, ty, i)) \<in> (links cs)\<inverse>" by simp
qed

lemma index_conns_iff: "c \<in> set (index_conns l) \<longleftrightarrow> (\<exists>i<length l. c \<in> set (case_option [] id (l ! i)))"
proof -
  have "c \<in> set (index_conns l) \<longleftrightarrow> (\<exists>x\<in>set l. c \<in> set (case_option [] id x))" by (auto simp: index_conns_def)
  also have "\<dots> \<longleftrightarrow> (\<exists>i<length l. c \<in> set (case_option [] id (l ! i)))" by (metis in_set_conv_nth)
  finally show ?thesis .
qed

lemma conn_at_iff: "conn_at cs a ty i c \<longleftrightarrow> (\<exists>byType byIndex. mget cs a = Some byType \<and> mget byType ty = Some byIndex
    \<and> i < length byIndex \<and> c \<in> set (case_option [] id (byIndex ! i)))"
  by (simp add: conn_at_def cells_def split: option.split)

text \<open>The edges of the search, in terms of the links.\<close>

lemma follow_links:
  "follow cs ct = {(a, b). \<exists>ty i bty j. ((a, ty, i), (b, bty, j)) \<in> links cs \<and>
     (case ct of OfType t \<Rightarrow> ty = t | AllTypes \<Rightarrow> True | AllNonMain \<Rightarrow> ty \<noteq> Main)}"
proof -
  let ?P = "\<lambda>ty. case ct of OfType t \<Rightarrow> ty = t | AllTypes \<Rightarrow> True | AllNonMain \<Rightarrow> ty \<noteq> Main"
  have key: "ty \<in> set (types_of ct byType) \<longleftrightarrow> ?P ty" if "mget byType ty = Some byIndex" for byType ty byIndex
  proof -
    have "ty \<in> fst ` set byType" using that by (metis map_of_eq_None_iff option.distinct(1))
    then show ?thesis by (cases ct) (auto simp: types_of_def)
  qed
  have "(a, b) \<in> follow cs ct \<longleftrightarrow> (\<exists>ty i c. conn_at cs a ty i c \<and> b = ic_node c \<and> ?P ty)" for a b
    unfolding follow_def conn_at_iff index_conns_iff using key by blast
  then show ?thesis by (fastforce simp: links_def)
qed

lemma finite_follow: "finite (follow cs ct)"
proof (rule finite_subset)
  show "follow cs ct \<subseteq> (\<Union>(a, byType)\<in>set cs. \<Union>(ty, byIndex)\<in>set byType. (\<lambda>c. (a, ic_node c)) ` set (index_conns byIndex))"
    by (fastforce simp: follow_def dest: map_of_SomeD)
qed auto

end
