(* ===== verification/Graph_Utils.thy ===== *)
theory Graph_Utils
  imports Connections_Map
begin

text \<open>
  \<^verbatim>\<open>packages/workflow/src/graph/graph-utils.ts\<close>: the adjacency list of the connections and the
  test whether a selection of nodes can be extracted into a sub-workflow.
\<close>

section \<open>Definitions\<close>

text \<open>
  \<^verbatim>\<open>Map<string, Set<IConnection>>\<close>. The sets compare objects by identity, and every object is met once
  in the connections: a set of connections is the list of its members in insertion order.
\<close>

type_synonym adjacency = "(string, iconn list) jsmap"

definition adj_targets :: "adjacency \<Rightarrow> string \<Rightarrow> iconn list" where
  "adj_targets adjacencyList k = (case mget adjacencyList k of None \<Rightarrow> [] | Some s \<Rightarrow> s)"

definition getInputEdges :: "string list \<Rightarrow> adjacency \<Rightarrow> (string \<times> iconn) list" where
  "getInputEdges graphIds adjacencyList = concat (map (\<lambda>(from, tos).
     if from \<in> set graphIds then []
     else map (Pair from) (filter (\<lambda>to. ic_node to \<in> set graphIds) tos)) adjacencyList)"

definition getOutputEdges :: "string list \<Rightarrow> adjacency \<Rightarrow> (string \<times> iconn) list" where
  "getOutputEdges graphIds adjacencyList = concat (map (\<lambda>(from, tos).
     if from \<notin> set graphIds then []
     else map (Pair from) (filter (\<lambda>to. ic_node to \<notin> set graphIds) tos)) adjacencyList)"

definition intersection :: "'a list \<Rightarrow> 'a list \<Rightarrow> 'a list" where
  "intersection a b = foldl (\<lambda>result x. if x \<in> set b then sadd x result else result) [] a"

definition set_union :: "'a list \<Rightarrow> 'a list \<Rightarrow> 'a list" where
  "set_union a b = foldl (\<lambda>result x. sadd x result) (foldl (\<lambda>result x. sadd x result) [] a) b"

definition difference :: "'a list \<Rightarrow> 'a list \<Rightarrow> 'a list" where
  "difference minuend subtrahend = foldl (\<lambda>result x. remove1 x result) minuend subtrahend"

definition mainTargets :: "string \<Rightarrow> adjacency \<Rightarrow> string list" where
  "mainTargets nodeId adjacencyList = mk_set (map ic_node
     (filter (\<lambda>x. ic_type x = ''main'' \<and> ic_node x \<noteq> nodeId) (adj_targets adjacencyList nodeId)))"

definition getRootNodes :: "string list \<Rightarrow> adjacency \<Rightarrow> string list" where
  "getRootNodes graphIds adjacencyList =
     difference graphIds (foldl (\<lambda>innerNodes nodeId. set_union innerNodes (mainTargets nodeId adjacencyList)) [] graphIds)"

definition getLeafNodes :: "string list \<Rightarrow> adjacency \<Rightarrow> string list" where
  "getLeafNodes graphIds adjacencyList = foldl (\<lambda>result nodeId.
     if length (intersection (mainTargets nodeId adjacencyList) graphIds) = 0 then sadd nodeId result else result) [] graphIds"

lemma set_foldl_filter_sadd:
  "set (foldl (\<lambda>r x. if P x then sadd x r else r) ys xs) = set ys \<union> {x \<in> set xs. P x}"
  by (induction xs arbitrary: ys) auto

lemma distinct_foldl_filter_sadd:
  "distinct ys \<Longrightarrow> distinct (foldl (\<lambda>r x. if P x then sadd x r else r) ys xs)"
  by (induction xs arbitrary: ys) auto

lemma set_intersection [simp]: "set (intersection a b) = set a \<inter> set b"
  by (auto simp: intersection_def set_foldl_filter_sadd)

lemma distinct_intersection [simp]: "distinct (intersection a b)"
  by (simp add: intersection_def distinct_foldl_filter_sadd)

lemma set_set_union [simp]: "set (set_union a b) = set a \<union> set b"
  by (simp add: set_union_def foldl_sadd)

lemma difference_distinct: "distinct a \<Longrightarrow> distinct (difference a b)"
  unfolding difference_def by (induction b arbitrary: a) auto

lemma set_difference: "distinct a \<Longrightarrow> set (difference a b) = set a - set b"
  unfolding difference_def by (induction b arbitrary: a) auto

text \<open>The \<^verbatim>\<open>while\<close> loop of \<^verbatim>\<open>hasPath\<close>; the top of the stack is the end of the list.\<close>

definition unseenTargets :: "adjacency \<Rightarrow> string \<Rightarrow> string list \<Rightarrow> string list" where
  "unseenTargets adjacencyList n seen =
     difference (mk_set (map ic_node (filter (\<lambda>x. ic_type x = ''main'') (adj_targets adjacencyList n)))) seen"

lemma set_unseenTargets:
  "set (unseenTargets adj n seen) = ic_node ` {c \<in> set (adj_targets adj n). ic_type c = ''main''} - set seen"
  by (simp add: unseenTargets_def set_difference)

definition adj_nodes :: "adjacency \<Rightarrow> string set" where
  "adj_nodes adj = (\<Union>(k, cs)\<in>set adj. insert k (ic_node ` set cs))"

lemma finite_adj_nodes [simp]: "finite (adj_nodes adj)"
  by (auto simp: adj_nodes_def)

lemma adj_targets_nodes: "c \<in> set (adj_targets adj n) \<Longrightarrow> ic_node c \<in> adj_nodes adj"
proof (cases "mget adj n")
  case (Some cs)
  assume "c \<in> set (adj_targets adj n)"
  with Some have "(n, cs) \<in> set adj" "c \<in> set cs" by (auto simp: adj_targets_def dest: map_of_SomeD)
  then show ?thesis unfolding adj_nodes_def by (intro UN_I [of "(n, cs)"]) simp_all
qed (simp add: adj_targets_def)

function hasPath_loop :: "string \<Rightarrow> adjacency \<Rightarrow> string list \<Rightarrow> string list \<Rightarrow> bool" where
  "hasPath_loop end_node adjacencyList seen paths =
     (if paths = [] then False
      else
        let next = last paths; paths = butlast paths in
        if next = end_node then True
        else
          let seen = sadd next seen in
          hasPath_loop end_node adjacencyList seen (paths @ unseenTargets adjacencyList next seen))"
  by pat_completeness auto
termination
proof (relation "measures [\<lambda>(e, adj, seen, paths). card ((adj_nodes adj \<union> set paths) - set seen),
    \<lambda>(e, adj, seen, paths). length (filter (\<lambda>n. n \<in> set seen) paths)]", goal_cases)
  case (2 e adj seen paths n rest seen')
  define new where "new = unseenTargets adj n seen'"
  have p: "paths = rest @ [n]" using 2 by simp
  have s: "set seen' = insert n (set seen)" using 2 by simp
  have new: "set new \<subseteq> adj_nodes adj - set seen'"
    by (auto simp: new_def set_unseenTargets adj_targets_nodes)
  have sub: "(adj_nodes adj \<union> set (rest @ new)) - set seen' \<subseteq> (adj_nodes adj \<union> set paths) - set seen"
    using new by (auto simp: p s)
  show ?case
  proof (cases "n \<in> set seen")
    case True
    have "card ((adj_nodes adj \<union> set (rest @ new)) - set seen') \<le> card ((adj_nodes adj \<union> set paths) - set seen)"
      by (rule card_mono [OF _ sub]) simp
    moreover have "seen' = seen" using True 2 by (simp add: sadd_def)
    moreover have "filter (\<lambda>n. n \<in> set seen) new = []" using new \<open>seen' = seen\<close> by (auto simp: filter_empty_conv)
    ultimately show ?thesis using True by (auto simp: p new_def)
  next
    case False
    have "(adj_nodes adj \<union> set (rest @ new)) - set seen' \<subset> (adj_nodes adj \<union> set paths) - set seen"
      using sub False by (auto simp: p s)
    then have "card ((adj_nodes adj \<union> set (rest @ new)) - set seen') < card ((adj_nodes adj \<union> set paths) - set seen)"
      by (intro psubset_card_mono) simp_all
    then show ?thesis by (simp add: new_def)
  qed
qed simp

declare hasPath_loop.simps [simp del]

definition hasPath :: "string \<Rightarrow> string \<Rightarrow> adjacency \<Rightarrow> bool" where
  "hasPath start end_node adjacencyList = hasPath_loop end_node adjacencyList [] [start]"

definition addOrCreate :: "string \<Rightarrow> iconn \<Rightarrow> adjacency \<Rightarrow> adjacency" where
  "addOrCreate k v result = mset_at k (adj_targets result k @ [v]) result"

definition buildAdjacencyList :: "iconnections \<Rightarrow> adjacency" where
  "buildAdjacencyList connectionsBySourceNode =
     foldl (\<lambda>result (sourceNode, byType).
       foldl (\<lambda>result (type, byIndex).
         foldl (\<lambda>result conns.
           foldl (\<lambda>result connection. addOrCreate sourceNode connection result) result (case_option [] id conns))
         result byIndex)
       result (obj_entries byType))
     [] (obj_entries connectionsBySourceNode)"

datatype extractable_error =
    MultipleInputNodes "string list"
  | MultipleOutputNodes "string list"
  | InputEdgeToNonRootNode string
  | OutputEdgeFromNonLeafNode string
  | NoContinuousPathFromRootToLeaf string string

text \<open>\<^verbatim>\<open>if (start && end && ...)\<close>: neither undefined nor empty.\<close>

definition truthy_string :: "string option \<Rightarrow> bool" where
  "truthy_string s = (s \<noteq> None \<and> s \<noteq> Some '''')"

definition first_of :: "'a list \<Rightarrow> 'a option" where
  "first_of xs = (case xs of [] \<Rightarrow> None | x # _ \<Rightarrow> Some x)"

definition parseExtractableSubgraphSelection ::
  "string list \<Rightarrow> adjacency \<Rightarrow> extractable_error list + (string option \<times> string option)" where
  "parseExtractableSubgraphSelection graphIds adjacencyList =
     (let inputEdges = getInputEdges graphIds adjacencyList;
          inputNodes = mk_set (map (\<lambda>x. ic_node (snd x)) (filter (\<lambda>x. ic_type (snd x) = ''main'') inputEdges));
          rootNodes = getRootNodes graphIds adjacencyList;
          rootNodes = (if length rootNodes = 0 \<and> length inputNodes = 1 then inputNodes else rootNodes);
          errors = map InputEdgeToNonRootNode (difference inputNodes rootNodes);
          rootInputNodes = intersection rootNodes inputNodes;
          errors = errors @ (if length rootInputNodes > 1 then [MultipleInputNodes rootInputNodes] else []);
          outputEdges = getOutputEdges graphIds adjacencyList;
          outputNodes = mk_set (map fst (filter (\<lambda>x. ic_type (snd x) = ''main'') outputEdges));
          leafNodes = getLeafNodes graphIds adjacencyList;
          leafNodes = (if length leafNodes = 0 \<and> length outputNodes = 1 then outputNodes else leafNodes);
          errors = errors @ map OutputEdgeFromNonLeafNode (difference outputNodes leafNodes);
          leafOutputNodes = intersection leafNodes outputNodes;
          errors = errors @ (if length leafOutputNodes > 1 then [MultipleOutputNodes leafOutputNodes] else []);
          start = first_of rootInputNodes;
          end_node = first_of leafOutputNodes;
          errors = errors @ (if truthy_string start \<and> truthy_string end_node
              \<and> \<not> hasPath (the start) (the end_node) adjacencyList
            then [NoContinuousPathFromRootToLeaf (the start) (the end_node)] else [])
      in if length errors > 0 then Inl errors else Inr (start, end_node))"

section \<open>Paths\<close>

definition main_adj :: "adjacency \<Rightarrow> (string \<times> string) set" where
  "main_adj adj = {(a, ic_node c) | a c. c \<in> set (adj_targets adj a) \<and> ic_type c = ''main''}"

lemma unseenTargets_adj: "set (unseenTargets adj n seen) = main_adj adj `` {n} - set seen"
  by (auto simp: set_unseenTargets main_adj_def)

lemma hasPath_loop_sound:
  "hasPath_loop e adj seen paths \<Longrightarrow> \<exists>n\<in>set paths. (n, e) \<in> (main_adj adj)\<^sup>*"
proof (induction e adj seen paths rule: hasPath_loop.induct)
  case (1 e adj seen paths)
  then have ne: "paths \<noteq> []" by (auto simp: hasPath_loop.simps)
  then have p: "set paths = insert (last paths) (set (butlast paths))"
    by (metis append_butlast_last_id list.simps(15) rotate1.simps(2) set_rotate1)
  show ?case
  proof (cases "last paths = e")
    case True
    with ne show ?thesis by (metis last_in_set rtrancl.rtrancl_refl)
  next
    case False
    let ?seen = "sadd (last paths) seen"
    have "hasPath_loop e adj ?seen (butlast paths @ unseenTargets adj (last paths) ?seen)"
      using "1.prems" ne False by (subst (asm) hasPath_loop.simps) (simp add: Let_def)
    from "1.IH" [OF ne refl refl False refl this] obtain n where
      n: "n \<in> set (butlast paths) \<union> set (unseenTargets adj (last paths) ?seen)" "(n, e) \<in> (main_adj adj)\<^sup>*" by auto
    show ?thesis
    proof (cases "n \<in> set (butlast paths)")
      case False
      with n(1) have "(last paths, n) \<in> main_adj adj" by (auto simp: unseenTargets_adj)
      with n(2) p show ?thesis by (auto intro: converse_rtrancl_into_rtrancl)
    qed (use n(2) p in auto)
  qed
qed

lemma hasPath_loop_complete:
  "\<not> hasPath_loop e adj seen paths \<Longrightarrow> e \<notin> set seen \<Longrightarrow>
    (\<And>x y. x \<in> set seen \<Longrightarrow> (x, y) \<in> main_adj adj \<Longrightarrow> y \<in> set seen \<union> set paths) \<Longrightarrow>
    n \<in> set seen \<union> set paths \<Longrightarrow> (n, e) \<notin> (main_adj adj)\<^sup>*"
proof (induction e adj seen paths rule: hasPath_loop.induct)
  case (1 e adj seen paths)
  show ?case
  proof (cases "paths = []")
    case True
    have "m \<in> set seen" if "(n, m) \<in> (main_adj adj)\<^sup>*" for m
      by (rule rtrancl_closed [OF that]) (use "1.prems"(3,4) True in auto)
    with "1.prems"(2) show ?thesis by blast
  next
    case ne: False
    have e: "last paths \<noteq> e" using "1.prems"(1) ne by (auto simp: hasPath_loop.simps [of e adj seen paths] Let_def)
    let ?seen = "sadd (last paths) seen"
    let ?new = "unseenTargets adj (last paths) ?seen"
    have nl: "\<not> hasPath_loop e adj ?seen (butlast paths @ ?new)"
      using "1.prems"(1) ne e by (subst (asm) hasPath_loop.simps) (simp add: Let_def)
    have p: "set paths = insert (last paths) (set (butlast paths))"
      using ne by (metis append_butlast_last_id list.simps(15) rotate1.simps(2) set_rotate1)
    show ?thesis
    proof (rule "1.IH" [OF ne refl refl e refl nl])
      show "e \<notin> set ?seen" using "1.prems"(2) e by simp
      show "n \<in> set ?seen \<union> set (butlast paths @ ?new)" using "1.prems"(4) p by auto
      show "y \<in> set ?seen \<union> set (butlast paths @ ?new)" if "x \<in> set ?seen" "(x, y) \<in> main_adj adj" for x y
      proof (cases "x = last paths")
        case True
        then show ?thesis using that(2) by (auto simp: unseenTargets_adj)
      next
        case False
        with that "1.prems"(3) p show ?thesis by auto
      qed
    qed
  qed
qed

lemma hasPath_iff: "hasPath s e adj \<longleftrightarrow> (s, e) \<in> (main_adj adj)\<^sup>*"
  using hasPath_loop_sound [of e adj "[]" "[s]"] hasPath_loop_complete [of e adj "[]" "[s]" s]
  by (auto simp: hasPath_def)

section \<open>Extractable selections\<close>

text \<open>The four sets of the selection \<open>S\<close>.\<close>

definition ins :: "string set \<Rightarrow> adjacency \<Rightarrow> string set" where
  "ins S adj = {b \<in> S. \<exists>a. a \<notin> S \<and> (a, b) \<in> main_adj adj}"

definition outs :: "string set \<Rightarrow> adjacency \<Rightarrow> string set" where
  "outs S adj = {a \<in> S. \<exists>b. b \<notin> S \<and> (a, b) \<in> main_adj adj}"

definition roots :: "string set \<Rightarrow> adjacency \<Rightarrow> string set" where
  "roots S adj = {b \<in> S. \<forall>a\<in>S. a \<noteq> b \<longrightarrow> (a, b) \<notin> main_adj adj}"

definition leaves :: "string set \<Rightarrow> adjacency \<Rightarrow> string set" where
  "leaves S adj = {a \<in> S. \<forall>b\<in>S. b \<noteq> a \<longrightarrow> (a, b) \<notin> main_adj adj}"

lemma set_mainTargets: "set (mainTargets n adj) = {b. b \<noteq> n \<and> (n, b) \<in> main_adj adj}"
  by (auto simp: mainTargets_def main_adj_def)

lemma set_foldl_union: "set (foldl (\<lambda>r x. set_union r (f x)) ys xs) = set ys \<union> (\<Union>x\<in>set xs. set (f x))"
  by (induction xs arbitrary: ys) auto

lemma set_getRootNodes: "distinct graphIds \<Longrightarrow> set (getRootNodes graphIds adj) = roots (set graphIds) adj"
  by (auto simp: getRootNodes_def set_difference set_foldl_union set_mainTargets roots_def)

lemma set_getLeafNodes: "set (getLeafNodes graphIds adj) = leaves (set graphIds) adj"
proof -
  have "length (intersection (mainTargets n adj) graphIds) = 0 \<longleftrightarrow> set (mainTargets n adj) \<inter> set graphIds = {}" for n
    by (metis length_0_conv set_empty set_intersection)
  then show ?thesis
    by (auto simp: getLeafNodes_def set_foldl_filter_sadd set_mainTargets leaves_def simp del: length_0_conv)
qed

lemma adj_entry: "distinct (map fst adj) \<Longrightarrow> (k, cs) \<in> set adj \<Longrightarrow> adj_targets adj k = cs"
  by (simp add: adj_targets_def)

lemma main_adj_entries:
  assumes "distinct (map fst adj)"
  shows "(a, b) \<in> main_adj adj \<longleftrightarrow> (\<exists>cs c. (a, cs) \<in> set adj \<and> c \<in> set cs \<and> ic_type c = ''main'' \<and> b = ic_node c)"
proof -
  have "c \<in> set (adj_targets adj a) \<longleftrightarrow> (\<exists>cs. (a, cs) \<in> set adj \<and> c \<in> set cs)" for c
    by (auto simp: adj_targets_def assms dest: map_of_SomeD split: option.splits)
  then show ?thesis by (auto simp: main_adj_def)
qed

lemma getInputEdges_iff:
  "(a, c) \<in> set (getInputEdges gs adj) \<longleftrightarrow> a \<notin> set gs \<and> ic_node c \<in> set gs \<and> (\<exists>cs. (a, cs) \<in> set adj \<and> c \<in> set cs)"
  by (force simp: getInputEdges_def split: if_splits)

lemma getOutputEdges_iff:
  "(a, c) \<in> set (getOutputEdges gs adj) \<longleftrightarrow> a \<in> set gs \<and> ic_node c \<notin> set gs \<and> (\<exists>cs. (a, cs) \<in> set adj \<and> c \<in> set cs)"
  by (force simp: getOutputEdges_def split: if_splits)

lemma inputNodes_set:
  assumes "distinct (map fst adj)"
  shows "set (map (\<lambda>x. ic_node (snd x)) (filter (\<lambda>x. ic_type (snd x) = ''main'') (getInputEdges gs adj))) = ins (set gs) adj"
proof -
  have "b \<in> (\<lambda>x. ic_node (snd x)) ` {x \<in> set (getInputEdges gs adj). ic_type (snd x) = ''main''} \<longleftrightarrow> b \<in> ins (set gs) adj" for b
  proof -
    have "b \<in> (\<lambda>x. ic_node (snd x)) ` {x \<in> set (getInputEdges gs adj). ic_type (snd x) = ''main''} \<longleftrightarrow>
        (\<exists>a c. (a, c) \<in> set (getInputEdges gs adj) \<and> ic_type c = ''main'' \<and> b = ic_node c)" by force
    then show ?thesis unfolding getInputEdges_iff ins_def main_adj_entries [OF assms] by auto
  qed
  then show ?thesis by (simp add: set_eq_iff)
qed

lemma outputNodes_set:
  assumes "distinct (map fst adj)"
  shows "set (map fst (filter (\<lambda>x. ic_type (snd x) = ''main'') (getOutputEdges gs adj))) = outs (set gs) adj"
proof -
  have "a \<in> fst ` {x \<in> set (getOutputEdges gs adj). ic_type (snd x) = ''main''} \<longleftrightarrow> a \<in> outs (set gs) adj" for a
  proof -
    have "a \<in> fst ` {x \<in> set (getOutputEdges gs adj). ic_type (snd x) = ''main''} \<longleftrightarrow>
        (\<exists>c. (a, c) \<in> set (getOutputEdges gs adj) \<and> ic_type c = ''main'')" by force
    then show ?thesis unfolding getOutputEdges_iff outs_def main_adj_entries [OF assms] by auto
  qed
  then show ?thesis by (simp add: set_eq_iff)
qed

text \<open>The relaxed end: where no end is left and one node has outside connections, that node.\<close>

definition relaxed :: "'a set \<Rightarrow> 'a set \<Rightarrow> 'a set" where
  "relaxed E I = (if E = {} \<and> card I = 1 then I else E)"

lemma first_of_single: "distinct xs \<Longrightarrow> length xs \<le> 1 \<Longrightarrow> set_option (first_of xs) = set xs"
  by (cases xs) (auto simp: first_of_def)

lemma set_option_single: "set xs = set_option y \<Longrightarrow> distinct xs \<Longrightarrow> length xs \<le> 1 \<and> first_of xs = y"
  by (cases y; cases xs rule: remdups_adj.cases) (auto simp: first_of_def)

text \<open>One side of the test: no error, and the end found.\<close>

lemma side_ok:
  assumes "distinct I" "distinct E" "set E = F"
  shows "(difference I (if length E = 0 \<and> length I = 1 then I else E) = []
      \<and> length (intersection (if length E = 0 \<and> length I = 1 then I else E) I) \<le> 1
      \<and> first_of (intersection (if length E = 0 \<and> length I = 1 then I else E) I) = y)
    \<longleftrightarrow> set I \<subseteq> relaxed F (set I) \<and> set I = set_option y"
proof -
  let ?E = "if length E = 0 \<and> length I = 1 then I else E"
  have "length E = 0 \<and> length I = 1 \<longleftrightarrow> F = {} \<and> card (set I) = 1"
    using assms(3) by (auto simp: distinct_card [OF assms(1)])
  then have E: "set ?E = relaxed F (set I)" using assms(3) by (simp add: relaxed_def)
  have d: "difference I ?E = [] \<longleftrightarrow> set I \<subseteq> relaxed F (set I)"
    using set_difference [OF assms(1), of ?E] E by (metis Diff_eq_empty_iff set_empty)
  have i: "set (intersection ?E I) = set I" if "set I \<subseteq> relaxed F (set I)" using that E by auto
  show ?thesis unfolding d
  proof (cases "set I \<subseteq> relaxed F (set I)")
    case True
    have "length (intersection ?E I) \<le> 1 \<and> first_of (intersection ?E I) = y \<longleftrightarrow> set I = set_option y"
    proof
      assume "length (intersection ?E I) \<le> 1 \<and> first_of (intersection ?E I) = y"
      then show "set I = set_option y"
        using first_of_single [OF distinct_intersection, of ?E I] i [OF True] by metis
    next
      assume "set I = set_option y"
      then show "length (intersection ?E I) \<le> 1 \<and> first_of (intersection ?E I) = y"
        using set_option_single [OF _ distinct_intersection, of ?E I y] i [OF True] by metis
    qed
    with True show "(set I \<subseteq> relaxed F (set I) \<and> length (intersection ?E I) \<le> 1 \<and> first_of (intersection ?E I) = y) =
      (set I \<subseteq> relaxed F (set I) \<and> set I = set_option y)" by blast
  qed simp
qed

lemma parse_Inr:
  assumes "distinct graphIds" "distinct (map fst adj)"
  shows "parseExtractableSubgraphSelection graphIds adj = Inr (s, e) \<longleftrightarrow>
    (ins (set graphIds) adj \<subseteq> relaxed (roots (set graphIds) adj) (ins (set graphIds) adj)
      \<and> ins (set graphIds) adj = set_option s)
    \<and> (outs (set graphIds) adj \<subseteq> relaxed (leaves (set graphIds) adj) (outs (set graphIds) adj)
      \<and> outs (set graphIds) adj = set_option e)
    \<and> (truthy_string s \<and> truthy_string e \<longrightarrow> (the s, the e) \<in> (main_adj adj)\<^sup>*)"
proof -
  define I where "I = mk_set (map (\<lambda>x. ic_node (snd x)) (filter (\<lambda>x. ic_type (snd x) = ''main'') (getInputEdges graphIds adj)))"
  define J where "J = mk_set (map fst (filter (\<lambda>x. ic_type (snd x) = ''main'') (getOutputEdges graphIds adj)))"
  define R where "R = getRootNodes graphIds adj"
  define L where "L = getLeafNodes graphIds adj"
  have sets: "set I = ins (set graphIds) adj" "set J = outs (set graphIds) adj"
      "set R = roots (set graphIds) adj" "set L = leaves (set graphIds) adj"
    unfolding I_def J_def R_def L_def set_mk_set inputNodes_set [OF assms(2)] outputNodes_set [OF assms(2)]
      set_getRootNodes [OF assms(1)] set_getLeafNodes by simp_all
  have dist: "distinct I" "distinct J" "distinct R" "distinct L"
    using assms(1) by (simp_all add: I_def J_def R_def L_def getRootNodes_def difference_distinct
        getLeafNodes_def distinct_foldl_filter_sadd)
  let ?R = "if length R = 0 \<and> length I = 1 then I else R"
  let ?L = "if length L = 0 \<and> length J = 1 then J else L"
  let ?s = "first_of (intersection ?R I)" and ?e = "first_of (intersection ?L J)"
  have errs: "parseExtractableSubgraphSelection graphIds adj = Inr (s, e) \<longleftrightarrow>
      (difference I ?R = [] \<and> length (intersection ?R I) \<le> 1 \<and> ?s = s)
      \<and> (difference J ?L = [] \<and> length (intersection ?L J) \<le> 1 \<and> ?e = e)
      \<and> (truthy_string ?s \<and> truthy_string ?e \<longrightarrow> hasPath (the ?s) (the ?e) adj)"
    unfolding parseExtractableSubgraphSelection_def Let_def
      I_def [symmetric] J_def [symmetric] R_def [symmetric] L_def [symmetric]
    by (auto simp del: length_0_conv)
  show ?thesis
    unfolding errs side_ok [OF dist(1,3) sets(3)] side_ok [OF dist(2,4) sets(4)] sets(1,2) hasPath_iff
    using side_ok [OF dist(1,3) sets(3), of s] side_ok [OF dist(2,4) sets(4), of e] sets(1,2) by metis
qed

text \<open>With one way in and one way out, the walks through the selection stay in it.\<close>

lemma walk_to_exit:
  assumes "(x, b) \<in> R\<^sup>*" "x \<in> S" "\<And>u v. u \<in> S \<Longrightarrow> v \<notin> S \<Longrightarrow> (u, v) \<in> R \<Longrightarrow> u = b"
  shows "(x, b) \<in> (R \<inter> S \<times> S)\<^sup>*"
  using assms
proof (induction rule: converse_rtrancl_induct)
  case (step x y)
  then show ?case by (cases "y \<in> S") (auto intro: converse_rtrancl_into_rtrancl)
qed simp

lemma walk_from_entry:
  assumes "(a, n) \<in> R\<^sup>*" "a \<notin> S" "n \<in> S" "\<And>u v. u \<notin> S \<Longrightarrow> v \<in> S \<Longrightarrow> (u, v) \<in> R \<Longrightarrow> v = s"
  shows "(s, n) \<in> (R \<inter> S \<times> S)\<^sup>*"
  using assms
proof (induction rule: rtrancl_induct)
  case (step y z)
  then show ?case by (cases "y \<in> S") (auto intro: rtrancl_into_rtrancl)
qed simp

section \<open>The adjacency list\<close>

lemma adj_targets_addOrCreate:
  "adj_targets (addOrCreate k v adj) n = (if n = k then adj_targets adj n @ [v] else adj_targets adj n)"
  by (simp add: adj_targets_def addOrCreate_def)

lemma distinct_addOrCreate: "distinct (map fst adj) \<Longrightarrow> distinct (map fst (addOrCreate k v adj))"
  by (simp add: addOrCreate_def distinct_update)

definition adj_pairs :: "iconnections \<Rightarrow> (string \<times> iconn) list" where
  "adj_pairs cs = concat (map (\<lambda>(a, byType). concat (map (\<lambda>(ty, byIndex). map (Pair a) (index_conns byIndex))
     (obj_entries byType))) (obj_entries cs))"

lemma buildAdjacencyList_foldl:
  "buildAdjacencyList cs = foldl (\<lambda>r (k, v). addOrCreate k v r) [] (adj_pairs cs)"
  by (simp add: buildAdjacencyList_def adj_pairs_def foldl_concat_map case_prod_unfold foldl_map index_conns_def)

lemma foldl_addOrCreate:
  "distinct (map fst adj) \<Longrightarrow> distinct (map fst (foldl (\<lambda>r (k, v). addOrCreate k v r) adj ps)) \<and>
    adj_targets (foldl (\<lambda>r (k, v). addOrCreate k v r) adj ps) n = adj_targets adj n @ map snd (filter (\<lambda>p. fst p = n) ps)"
proof (induction ps arbitrary: adj)
  case (Cons p ps)
  obtain k v where p: "p = (k, v)" by fastforce
  from Cons.IH [OF distinct_addOrCreate [OF Cons.prems, of k v]] show ?case
    by (auto simp: p adj_targets_addOrCreate)
qed simp

lemma buildAdjacencyList_targets:
  "distinct (map fst (buildAdjacencyList cs))"
  "c \<in> set (adj_targets (buildAdjacencyList cs) a) \<longleftrightarrow> (\<exists>ty i. conn_at cs a ty i c)"
proof -
  show "distinct (map fst (buildAdjacencyList cs))"
    using foldl_addOrCreate [of "[]"] by (simp add: buildAdjacencyList_foldl)
  have "c \<in> set (adj_targets (buildAdjacencyList cs) a) \<longleftrightarrow> (a, c) \<in> set (adj_pairs cs)"
    using foldl_addOrCreate [of "[]" "adj_pairs cs" a] by (force simp: buildAdjacencyList_foldl adj_targets_def)
  also have "\<dots> \<longleftrightarrow> (\<exists>byType ty byIndex. mget cs a = Some byType \<and> mget byType ty = Some byIndex \<and> c \<in> set (index_conns byIndex))"
    by (force simp: adj_pairs_def set_obj_entries)
  also have "\<dots> \<longleftrightarrow> (\<exists>ty i. conn_at cs a ty i c)"
    unfolding conn_at_iff index_conns_iff by blast
  finally show "c \<in> set (adj_targets (buildAdjacencyList cs) a) \<longleftrightarrow> (\<exists>ty i. conn_at cs a ty i c)" .
qed

end
