(* ===== verification/Connections_Diff.thy ===== *)
theory Connections_Diff
  imports Connections_Map
begin

text \<open>
  \<^verbatim>\<open>packages/workflow/src/connections-diff.ts\<close>: the connections added and removed between two
  versions of a workflow. \<^verbatim>\<open>JSON.stringify\<close> of a connection is the parameter \<open>str\<close>; the code
  relies on equal texts meaning equal connections.
\<close>

section \<open>Definitions\<close>

record connection_entry =
  ce_sourceIndex :: nat
  ce_value :: "nat \<times> iconn"

type_synonym connections_diff = "connection_entry list obj obj"

text \<open>\<^verbatim>\<open>cs[nodeName]?.[inputName]?.[sourceIndex] ?? []\<close>\<close>

definition conns_of :: "iconnections \<Rightarrow> string \<Rightarrow> conn_type \<Rightarrow> nat \<Rightarrow> iconn list" where
  "conns_of cs nodeName inputName sourceIndex = (case arr_get (cells cs nodeName inputName) sourceIndex of
     Some (Some l) \<Rightarrow> l | _ \<Rightarrow> [])"

definition conn_map :: "(iconn \<Rightarrow> string) \<Rightarrow> iconn list \<Rightarrow> (string, nat \<times> iconn) jsmap" where
  "conn_map str conns = foldl (\<lambda>m (idx, conn). mset_at (str conn) (idx, conn) m) [] (enumerate0 conns)"

definition push_entry :: "string \<Rightarrow> conn_type \<Rightarrow> connection_entry \<Rightarrow> connections_diff \<Rightarrow> connections_diff" where
  "push_entry nodeName inputName e diff =
     (let byInput = (case mget diff nodeName of None \<Rightarrow> [] | Some m \<Rightarrow> m);
          entries = (case mget byInput inputName of None \<Rightarrow> [] | Some l \<Rightarrow> l)
      in mset_at nodeName (mset_at inputName (entries @ [e]) byInput) diff)"

text \<open>One of the two inner loops: the entries of \<open>fromMap\<close> that the other map has not.\<close>

definition push_missing :: "string \<Rightarrow> conn_type \<Rightarrow> nat \<Rightarrow> (string, nat \<times> iconn) jsmap \<Rightarrow> (string, nat \<times> iconn) jsmap
    \<Rightarrow> connections_diff \<Rightarrow> connections_diff" where
  "push_missing nodeName inputName sourceIndex fromMap otherMap diff =
     foldl (\<lambda>diff (key, v). if mhas otherMap key then diff
         else push_entry nodeName inputName \<lparr>ce_sourceIndex = sourceIndex, ce_value = v\<rparr> diff)
       diff fromMap"

definition compare_index :: "(iconn \<Rightarrow> string) \<Rightarrow> iconnections \<Rightarrow> iconnections \<Rightarrow> string \<Rightarrow> conn_type \<Rightarrow> nat
    \<Rightarrow> connections_diff \<times> connections_diff \<Rightarrow> connections_diff \<times> connections_diff" where
  "compare_index str prev next nodeName inputName sourceIndex acc =
     (let prevMap = conn_map str (conns_of prev nodeName inputName sourceIndex);
          nextMap = conn_map str (conns_of next nodeName inputName sourceIndex)
      in (push_missing nodeName inputName sourceIndex nextMap prevMap (fst acc),
          push_missing nodeName inputName sourceIndex prevMap nextMap (snd acc)))"

definition keys_at :: "iconnections \<Rightarrow> string \<Rightarrow> string list" where
  "keys_at cs nodeName = (case mget cs nodeName of None \<Rightarrow> [] | Some byInput \<Rightarrow> obj_keys byInput)"

text \<open>The result is the pair of added and removed connections.\<close>

definition compareConnections ::
  "(iconn \<Rightarrow> string) \<Rightarrow> iconnections \<Rightarrow> iconnections \<Rightarrow> connections_diff \<times> connections_diff" where
  "compareConnections str prev next =
     foldl (\<lambda>acc nodeName.
       foldl (\<lambda>acc inputName.
         foldl (\<lambda>acc sourceIndex. compare_index str prev next nodeName inputName sourceIndex acc)
           acc [0..<max (length (cells prev nodeName inputName)) (length (cells next nodeName inputName))])
         acc (mk_set (keys_at prev nodeName @ keys_at next nodeName)))
       ([], []) (mk_set (obj_keys prev @ obj_keys next))"

section \<open>The entries of a difference\<close>

definition entries_at :: "connections_diff \<Rightarrow> string \<Rightarrow> conn_type \<Rightarrow> connection_entry list" where
  "entries_at d a ty = (case mget d a of None \<Rightarrow> [] | Some m \<Rightarrow> (case mget m ty of None \<Rightarrow> [] | Some l \<Rightarrow> l))"

lemma entries_push: "entries_at (push_entry a ty e d) b ty' =
    (if b = a \<and> ty' = ty then entries_at d b ty' @ [e] else entries_at d b ty')"
  by (auto simp: entries_at_def push_entry_def Let_def split: option.splits)

lemma conn_map_snoc: "conn_map str (cs @ [c]) = mset_at (str c) (length cs, c) (conn_map str cs)"
proof -
  have "enumerate0 (cs @ [c]) = enumerate0 cs @ [(length cs, c)]" by (simp add: enumerate0_def)
  then show ?thesis by (simp add: conn_map_def)
qed

lemma conn_map_distinct: "distinct (map fst (conn_map str cs))"
  by (induction cs rule: rev_induct) (simp_all add: conn_map_snoc distinct_update, simp add: conn_map_def enumerate0_def)

text \<open>The map holds the last position of every text.\<close>

definition last_at :: "(iconn \<Rightarrow> string) \<Rightarrow> iconn list \<Rightarrow> nat \<Rightarrow> bool" where
  "last_at str cs i \<longleftrightarrow> i < length cs \<and> (\<forall>j. i < j \<and> j < length cs \<longrightarrow> str (cs ! j) \<noteq> str (cs ! i))"

lemma mget_conn_map:
  "mget (conn_map str cs) k = Some (i, c) \<longleftrightarrow> last_at str cs i \<and> cs ! i = c \<and> str c = k"
proof (induction cs arbitrary: i c rule: rev_induct)
  case Nil
  then show ?case by (simp add: conn_map_def enumerate0_def last_at_def)
next
  case (snoc d cs)
  have "last_at str (cs @ [d]) i \<and> (cs @ [d]) ! i = c \<and> str c = k \<longleftrightarrow>
      (if k = str d then i = length cs \<and> c = d else last_at str cs i \<and> cs ! i = c \<and> str c = k)"
  proof -
    have "last_at str (cs @ [d]) i \<longleftrightarrow> i = length cs \<or> last_at str cs i \<and> str d \<noteq> str (cs ! i)"
    proof (cases "i < length cs")
      case True
      have "(\<forall>j. i < j \<and> j < length (cs @ [d]) \<longrightarrow> str ((cs @ [d]) ! j) \<noteq> str ((cs @ [d]) ! i)) \<longleftrightarrow>
          (\<forall>j. i < j \<and> j < length cs \<longrightarrow> str (cs ! j) \<noteq> str (cs ! i)) \<and> str d \<noteq> str (cs ! i)"
        using True by (auto simp: nth_append less_Suc_eq all_conj_distrib)
      with True show ?thesis by (simp add: last_at_def)
    qed (auto simp: last_at_def)
    moreover have "(cs @ [d]) ! i = (if i = length cs then d else cs ! i)" if "last_at str (cs @ [d]) i"
      using that by (auto simp: last_at_def nth_append)
    moreover have "\<not> last_at str cs (length cs)" by (simp add: last_at_def)
    ultimately show ?thesis by (cases "i = length cs") auto
  qed
  then show ?case unfolding conn_map_snoc mget_set by (cases "k = str d") (use snoc [of i c] in auto)
qed

lemma mhas_conn_map: "mhas (conn_map str cs) k \<longleftrightarrow> k \<in> str ` set cs"
proof (induction cs rule: rev_induct)
  case (snoc c cs)
  then show ?case by (auto simp: conn_map_snoc mhas_def)
qed (simp add: conn_map_def enumerate0_def mhas_def)

lemma entries_push_missing:
  "entries_at (push_missing a ty i from_map other d) b ty' = (if b = a \<and> ty' = ty
     then entries_at d b ty' @ map (\<lambda>kv. \<lparr>ce_sourceIndex = i, ce_value = snd kv\<rparr>) (filter (\<lambda>kv. \<not> mhas other (fst kv)) from_map)
     else entries_at d b ty')"
  unfolding push_missing_def by (induction from_map arbitrary: d) (auto simp: entries_push)

text \<open>The connections of \<open>next\<close> at an index that \<open>prev\<close> has not there.\<close>

definition missing :: "(iconn \<Rightarrow> string) \<Rightarrow> iconnections \<Rightarrow> iconnections \<Rightarrow> string \<Rightarrow> conn_type \<Rightarrow> nat \<Rightarrow> connection_entry set" where
  "missing str prev next a ty i = {\<lparr>ce_sourceIndex = i, ce_value = (j, c)\<rparr> | j c.
     last_at str (conns_of next a ty i) j \<and> conns_of next a ty i ! j = c \<and> str c \<notin> str ` set (conns_of prev a ty i)}"

lemma set_push_missing:
  "set (entries_at (push_missing a ty i (conn_map str (conns_of nxt a ty i)) (conn_map str (conns_of prv a ty i)) d) b ty') =
    set (entries_at d b ty') \<union> (if b = a \<and> ty' = ty then missing str prv nxt a ty i else {})"
proof -
  have "kv \<in> set (conn_map str cs) \<longleftrightarrow> mget (conn_map str cs) (fst kv) = Some (snd kv)" for kv cs
    using conn_map_distinct [of str cs] by (cases kv) (auto intro: map_of_SomeD)
  then have "(\<lambda>kv. \<lparr>ce_sourceIndex = i, ce_value = snd kv\<rparr>) ` {kv \<in> set (conn_map str (conns_of nxt a ty i)).
      \<not> mhas (conn_map str (conns_of prv a ty i)) (fst kv)} = missing str prv nxt a ty i"
    by (force simp: missing_def mget_conn_map mhas_conn_map image_iff)
  then show ?thesis by (simp add: entries_push_missing)
qed

text \<open>The places the nested loops visit, as one list.\<close>

definition places :: "iconnections \<Rightarrow> iconnections \<Rightarrow> (string \<times> conn_type \<times> nat) list" where
  "places prev next = concat (map (\<lambda>a. concat (map (\<lambda>ty. map (\<lambda>i. (a, ty, i))
     [0..<max (length (cells prev a ty)) (length (cells next a ty))])
     (mk_set (keys_at prev a @ keys_at next a)))) (mk_set (obj_keys prev @ obj_keys next)))"

lemma compareConnections_foldl:
  "compareConnections str prev next =
    foldl (\<lambda>acc (a, ty, i). compare_index str prev next a ty i acc) ([], []) (places prev next)"
  by (simp add: compareConnections_def places_def foldl_concat_map foldl_map)

lemma conns_of_place:
  assumes "c \<in> set (conns_of cs a ty i)"
  shows "a \<in> fst ` set cs \<and> ty \<in> set (keys_at cs a) \<and> i < length (cells cs a ty)"
proof -
  have "i < length (cells cs a ty)"
    using assms by (auto simp: conns_of_def arr_get_def split: if_splits)
  moreover from this obtain m l where m: "mget cs a = Some m" "mget m ty = Some l"
    by (auto simp: cells_def split: option.splits)
  have "a \<in> fst ` set cs" "ty \<in> fst ` set m" using map_of_SomeD [OF m(1)] map_of_SomeD [OF m(2)] by force+
  ultimately show ?thesis using m by (simp add: keys_at_def)
qed

lemma in_places:
  assumes "c \<in> set (conns_of prv a ty i) \<or> c \<in> set (conns_of nxt a ty i)"
  shows "(a, ty, i) \<in> set (places prv nxt)"
proof -
  from assms conns_of_place have "a \<in> fst ` set prv \<union> fst ` set nxt"
    "ty \<in> set (keys_at prv a) \<union> set (keys_at nxt a)"
    "i < max (length (cells prv a ty)) (length (cells nxt a ty))" by (metis UnCI less_max_iff_disj)+
  then show ?thesis by (simp add: places_def del: set_obj_keys) (auto simp: image_iff)
qed

lemma foldl_compare:
  "set (entries_at (fst (foldl (\<lambda>acc (a, ty, i). compare_index str prv nxt a ty i acc) acc ps)) b ty') =
    set (entries_at (fst acc) b ty') \<union> (\<Union>i\<in>{i. (b, ty', i) \<in> set ps}. missing str prv nxt b ty' i) \<and>
   set (entries_at (snd (foldl (\<lambda>acc (a, ty, i). compare_index str prv nxt a ty i acc) acc ps)) b ty') =
    set (entries_at (snd acc) b ty') \<union> (\<Union>i\<in>{i. (b, ty', i) \<in> set ps}. missing str nxt prv b ty' i)"
proof (induction ps arbitrary: acc)
  case (Cons p ps)
  obtain a ty i where p: "p = (a, ty, i)" by (cases p) auto
  have un: "(\<Union>j\<in>{j. (b, ty', j) \<in> set (p # ps)}. F j) =
      (if b = a \<and> ty' = ty then F i else {}) \<union> (\<Union>j\<in>{j. (b, ty', j) \<in> set ps}. F j)" for F :: "nat \<Rightarrow> connection_entry set"
    by (auto simp: p)
  show ?case unfolding un using Cons [of "compare_index str prv nxt a ty i acc"]
    by (auto simp: p compare_index_def Let_def set_push_missing)
qed simp

lemma missing_outside:
  assumes "(a, ty, i) \<notin> set (places prv nxt)"
  shows "missing str prv nxt a ty i = {}" "missing str nxt prv a ty i = {}"
proof -
  have "conns_of prv a ty i = []" "conns_of nxt a ty i = []"
    using in_places [of _ prv a ty i nxt] assms by (metis list.set_intros(1) neq_Nil_conv)+
  then show "missing str prv nxt a ty i = {}" "missing str nxt prv a ty i = {}"
    by (simp_all add: missing_def last_at_def)
qed

lemma compareConnections_entries:
  "set (entries_at (fst (compareConnections str prv nxt)) a ty) = (\<Union>i. missing str prv nxt a ty i)"
  "set (entries_at (snd (compareConnections str prv nxt)) a ty) = (\<Union>i. missing str nxt prv a ty i)"
proof -
  have e: "entries_at [] a ty = []" by (simp add: entries_at_def)
  have u: "(\<Union>i\<in>{i. (a, ty, i) \<in> set (places prv nxt)}. missing str prv nxt a ty i) = (\<Union>i. missing str prv nxt a ty i)"
    "(\<Union>i\<in>{i. (a, ty, i) \<in> set (places prv nxt)}. missing str nxt prv a ty i) = (\<Union>i. missing str nxt prv a ty i)"
    using missing_outside [of a ty _ prv nxt str] by blast+
  show "set (entries_at (fst (compareConnections str prv nxt)) a ty) = (\<Union>i. missing str prv nxt a ty i)"
    "set (entries_at (snd (compareConnections str prv nxt)) a ty) = (\<Union>i. missing str nxt prv a ty i)"
    using foldl_compare [of str prv nxt "([], [])" "places prv nxt" a ty] unfolding u
    by (simp_all add: compareConnections_foldl e)
qed

text \<open>With texts that identify connections: the two sides are exact set differences.\<close>

lemma missing_connections:
  assumes "inj str"
  shows "(\<exists>j. \<lparr>ce_sourceIndex = i, ce_value = (j, c)\<rparr> \<in> (\<Union>i. missing str prev next a ty i)) \<longleftrightarrow>
    c \<in> set (conns_of next a ty i) \<and> c \<notin> set (conns_of prev a ty i)"
proof -
  let ?cs = "conns_of next a ty i"
  have str: "str x = str y \<longleftrightarrow> x = y" for x y using assms by (simp add: inj_eq)
  have "\<exists>j. last_at str ?cs j \<and> ?cs ! j = c" if "c \<in> set ?cs"
  proof -
    have "mhas (conn_map str ?cs) (str c)" using that by (simp add: mhas_conn_map)
    then obtain v where "mget (conn_map str ?cs) (str c) = Some v" by (auto simp: mhas_def)
    then show ?thesis using mget_conn_map [of str ?cs "str c"] by (cases v) (auto simp: str)
  qed
  moreover have "c \<in> set ?cs" if "last_at str ?cs j" "?cs ! j = c" for j
    using that by (auto simp: last_at_def)
  ultimately show ?thesis using assms by (auto simp: missing_def inj_image_mem_iff)
qed

end
