(* ===== verification/Workflow_Class.thy ===== *)
theory Workflow_Class
  imports Connections_Map
begin

text \<open>
  The class \<^verbatim>\<open>Workflow\<close> (\<^verbatim>\<open>packages/workflow/src/workflow.ts\<close>): its nodes and the two
  connection objects, the setters, the node queries, the static data and the renaming of a node.
  The installed node types and \<^verbatim>\<open>applyAccessPatterns\<close> (regular expressions over
  expression texts) are parameters.
\<close>

section \<open>State\<close>

text \<open>
  The outputs of a description: a list of names or configurations, or an expression.
\<close>

datatype output_desc = OutputName conn_type | OutputConfig "conn_type option"

datatype outputs_desc = OutputList "output_desc list" | OutputExpression string

text \<open>The parts of \<^verbatim>\<open>INodeType\<close> the code reads; \<open>None\<close> for \<^verbatim>\<open>undefined\<close>.\<close>

record node_type =
  nt_name :: string
  nt_group :: "string list"
  nt_trigger :: bool
  nt_poll :: bool
  nt_outputs :: "outputs_desc option"

type_synonym node_types = "string \<Rightarrow> rat \<Rightarrow> node_type option"

record workflow =
  wf_nodes :: "inode obj"
  wf_bySource :: iconnections
  wf_byDest :: iconnections
  wf_pinData :: "pin_data option"
  wf_staticData :: "json obj"
  wf_testStaticData :: "json obj option"

definition setNodes :: "inode list \<Rightarrow> workflow \<Rightarrow> workflow" where
  "setNodes nodes w = w\<lparr>wf_nodes := foldl (\<lambda>m node. mset_at (n_name node) node m) [] nodes\<rparr>"

definition setConnections :: "iconnections \<Rightarrow> workflow \<Rightarrow> workflow" where
  "setConnections connections w =
     w\<lparr>wf_bySource := connections, wf_byDest := mapConnectionsByDestination connections\<rparr>"

definition setPinData :: "pin_data option \<Rightarrow> workflow \<Rightarrow> workflow" where
  "setPinData pinData w = w\<lparr>wf_pinData := pinData\<rparr>"

text \<open>
  The constructor. It gives the parameters of a node of a known type their defaults:
  \<^verbatim>\<open>getNodeParameters\<close> is the parameter \<open>defaults\<close>, \<open>None\<close> for its \<^verbatim>\<open>null\<close>.
\<close>

definition with_defaults :: "node_types \<Rightarrow> (node_type \<Rightarrow> inode \<Rightarrow> json obj option) \<Rightarrow> inode \<Rightarrow> inode" where
  "with_defaults types defaults node = (case types (n_type node) (n_typeVersion node) of
     None \<Rightarrow> node
   | Some nodeType \<Rightarrow> node\<lparr>n_parameters := (case defaults nodeType node of None \<Rightarrow> [] | Some p \<Rightarrow> p)\<rparr>)"

definition new_workflow ::
  "node_types \<Rightarrow> (node_type \<Rightarrow> inode \<Rightarrow> json obj option) \<Rightarrow> inode list \<Rightarrow> iconnections \<Rightarrow> pin_data option \<Rightarrow> json obj \<Rightarrow> workflow" where
  "new_workflow types defaults nodes connections pinData staticData =
     setPinData pinData (setConnections connections (setNodes (map (with_defaults types defaults) nodes)
       \<lparr>wf_nodes = [], wf_bySource = [], wf_byDest = [], wf_pinData = None,
        wf_staticData = staticData, wf_testStaticData = None\<rparr>))"

lemma with_defaults_name [simp]: "n_name (with_defaults types defaults node) = n_name node"
  by (simp add: with_defaults_def split: option.split)

section \<open>Queries\<close>

definition queryNodes :: "node_types \<Rightarrow> (node_type \<Rightarrow> bool) \<Rightarrow> workflow \<Rightarrow> inode list" where
  "queryNodes types checkFunction w = concat (map (\<lambda>nodeName. case mget (wf_nodes w) nodeName of
     None \<Rightarrow> []
   | Some node \<Rightarrow>
       if n_disabled node = Some True then []
       else (case types (n_type node) (n_typeVersion node) of
           None \<Rightarrow> []
         | Some nodeType \<Rightarrow> if checkFunction nodeType then [node] else [])) (obj_keys (wf_nodes w)))"

definition getTriggerNodes :: "node_types \<Rightarrow> workflow \<Rightarrow> inode list" where
  "getTriggerNodes types w = queryNodes types nt_trigger w"

definition getPollNodes :: "node_types \<Rightarrow> workflow \<Rightarrow> inode list" where
  "getPollNodes types w = queryNodes types nt_poll w"

definition getNode :: "workflow \<Rightarrow> string \<Rightarrow> inode option" where
  "getNode w nodeName = mget (wf_nodes w) nodeName"

definition getNodes_named :: "workflow \<Rightarrow> string list \<Rightarrow> inode list" where
  "getNodes_named w nodeNames = foldl (\<lambda>nodes name. case getNode w name of
     None \<Rightarrow> nodes | Some node \<Rightarrow> nodes @ [node]) [] nodeNames"

definition getPinDataOfNode :: "workflow \<Rightarrow> string \<Rightarrow> items option" where
  "getPinDataOfNode w nodeName = (case wf_pinData w of None \<Rightarrow> None | Some p \<Rightarrow> mget p nodeName)"

text \<open>
  \<^verbatim>\<open>getStaticData\<close> returns the stored object and creates it on the first access; \<open>isEmpty\<close>
  of test data does not matter, an object is truthy.
\<close>

definition getStaticData :: "workflow \<Rightarrow> string \<Rightarrow> inode option \<Rightarrow> (workflow \<times> json) res" where
  "getStaticData w type node =
     bindE (if type = ''global'' then Inr ''global''
            else if type = ''node'' then
              (case node of
                 None \<Rightarrow> Inl (ApplicationError ''the node parameter has to be set'')
               | Some n \<Rightarrow> Inr (''node:'' @ n_name n))
            else Inl (ApplicationError ''Unknown context type'')) (\<lambda>key.
       case Option.bind (wf_testStaticData w) (\<lambda>t. mget t key) of
         Some d \<Rightarrow> Inr (w, d)
       | None \<Rightarrow>
           (case mget (wf_staticData w) key of
              Some d \<Rightarrow> Inr (w, d)
            | None \<Rightarrow> Inr (w\<lparr>wf_staticData := mset_at key (JObj []) (wf_staticData w)\<rparr>, JObj [])))"

definition getConnectionsBetweenNodes :: "workflow \<Rightarrow> string list \<Rightarrow> string list \<Rightarrow> (iconn \<times> iconn) list" where
  "getConnectionsBetweenNodes w sources targets =
     concat (map (\<lambda>source.
       concat (map (\<lambda>(type, byIndex).
         concat (map (\<lambda>(sourceIndex, conns).
           map (\<lambda>c. (\<lparr>ic_node = source, ic_type = type, ic_index = sourceIndex\<rparr>, c))
             (filter (\<lambda>c. ic_node c \<in> set targets) (case_option [] id conns)))
           (enumerate0 byIndex)))
         (obj_entries (case_option [] id (mget (wf_bySource w) source)))))
       sources)"

section \<open>Renaming\<close>

text \<open>
  \<^verbatim>\<open>renameNodeInParameterValue\<close>: \<^verbatim>\<open>null\<close> has type \<^verbatim>\<open>object\<close> and becomes an empty object; the flag is
  not passed on to the elements of an array.
\<close>

function renameNodeInParameterValue ::
  "(string \<Rightarrow> string \<Rightarrow> string \<Rightarrow> string) \<Rightarrow> string \<Rightarrow> string \<Rightarrow> bool \<Rightarrow> json \<Rightarrow> json" where
  "renameNodeInParameterValue access currentName newName hasRenamableContent (JStr s) =
     (if (s \<noteq> [] \<and> hd s = CHR ''='') \<or> hasRenamableContent then JStr (access s currentName newName) else JStr s)"
| "renameNodeInParameterValue access currentName newName hasRenamableContent (JArr vs) =
     JArr (map (\<lambda>v. renameNodeInParameterValue access currentName newName False v) vs)"
| "renameNodeInParameterValue access currentName newName hasRenamableContent (JObj ps) =
     JObj (map (\<lambda>p. (fst p, renameNodeInParameterValue access currentName newName hasRenamableContent (snd p))) ps)"
| "renameNodeInParameterValue access currentName newName hasRenamableContent JNull = JObj []"
| "renameNodeInParameterValue access currentName newName hasRenamableContent JUndef = JUndef"
| "renameNodeInParameterValue access currentName newName hasRenamableContent (JBool b) = JBool b"
| "renameNodeInParameterValue access currentName newName hasRenamableContent (JNum k) = JNum k"
  by pat_completeness auto
termination
proof (relation "measure (\<lambda>(access, c, n, h, v). size v)", goal_cases)
  case (3 access c n h ps p)
  have "size (snd p) \<le> size_list (size_prod (\<lambda>_. 0) size) ps"
    using 3 by (induction ps) auto
  then show ?case by simp
qed (auto simp: less_Suc_eq_le size_list_estimation')

definition json_at :: "string \<Rightarrow> json obj \<Rightarrow> json" where
  "json_at k ps = (case mget ps k of None \<Rightarrow> JUndef | Some v \<Rightarrow> v)"

text \<open>\<^verbatim>\<open>renameFormFields\<close> (\<^verbatim>\<open>node-parameters/rename-node-utils.ts\<close>).\<close>

definition rename_form_field :: "(json \<Rightarrow> json) \<Rightarrow> json \<Rightarrow> json" where
  "rename_form_field renameField v = (case v of
     JObj ps \<Rightarrow> if mget ps ''fieldType'' = Some (JStr ''html'') \<and> mhas ps ''html''
       then JObj (mset_at ''html'' (renameField (json_at ''html'' ps)) ps) else v
   | _ \<Rightarrow> v)"

definition renameFormFields :: "(json \<Rightarrow> json) \<Rightarrow> json obj \<Rightarrow> json obj" where
  "renameFormFields renameField parameters = (case mget parameters ''formFields'' of
     Some (JObj fs) \<Rightarrow> (case mget fs ''values'' of
         Some (JArr values) \<Rightarrow>
           mset_at ''formFields'' (JObj (mset_at ''values'' (JArr (map (rename_form_field renameField) values)) fs)) parameters
       | _ \<Rightarrow> parameters)
   | _ \<Rightarrow> parameters)"

definition NODES_WITH_RENAMABLE_CONTENT :: "string list" where
  "NODES_WITH_RENAMABLE_CONTENT = [''n8n-nodes-base.code'', ''n8n-nodes-base.function'',
     ''n8n-nodes-base.functionItem'', ''n8n-nodes-base.aiTransform'']"

definition NODES_WITH_RENAMABLE_FORM_HTML_CONTENT :: "string list" where
  "NODES_WITH_RENAMABLE_FORM_HTML_CONTENT = [''n8n-nodes-base.form'']"

definition NODES_WITH_RENAMEABLE_TOPLEVEL_HTML_CONTENT :: "string list" where
  "NODES_WITH_RENAMEABLE_TOPLEVEL_HTML_CONTENT = [''n8n-nodes-base.mailgun'', ''n8n-nodes-base.html'']"

definition rename_object :: "(string \<Rightarrow> string \<Rightarrow> string \<Rightarrow> string) \<Rightarrow> string \<Rightarrow> string \<Rightarrow> json obj \<Rightarrow> json obj" where
  "rename_object access currentName newName ps =
     map (\<lambda>p. (fst p, renameNodeInParameterValue access currentName newName False (snd p))) ps"

definition rename_in_node ::
  "(string \<Rightarrow> string \<Rightarrow> string \<Rightarrow> string) \<Rightarrow> string \<Rightarrow> string \<Rightarrow> inode \<Rightarrow> inode" where
  "rename_in_node access currentName newName node =
     (let parameters = rename_object access currentName newName (n_parameters node);
          content = renameNodeInParameterValue access currentName newName True;
          parameters = (if n_type node \<in> set NODES_WITH_RENAMABLE_CONTENT
            then mset_at ''jsCode'' (content (json_at ''jsCode'' parameters)) parameters else parameters);
          parameters = (if n_type node \<in> set NODES_WITH_RENAMEABLE_TOPLEVEL_HTML_CONTENT
            then mset_at ''html'' (content (json_at ''html'' parameters)) parameters else parameters);
          parameters = (if n_type node \<in> set NODES_WITH_RENAMABLE_FORM_HTML_CONTENT
            then renameFormFields content parameters else parameters)
      in node\<lparr>n_parameters := parameters\<rparr>)"

definition lower_char :: "char \<Rightarrow> char" where
  "lower_char c = (let n = of_char c :: nat in if 65 \<le> n \<and> n \<le> 90 then char_of (n + 32) else c)"

definition to_lower :: "string \<Rightarrow> string" where
  "to_lower s = map lower_char s"

definition restrictedKeys :: "string list" where
  "restrictedKeys = [''hasOwnProperty'', ''isPrototypeOf'', ''propertyIsEnumerable'', ''toLocaleString'',
     ''toString'', ''valueOf'', ''constructor'', ''prototype'', ''__proto__'', ''__defineGetter__'',
     ''__defineSetter__'', ''__lookupGetter__'', ''__lookupSetter__'']"

definition rename_target :: "string \<Rightarrow> string \<Rightarrow> iconn \<Rightarrow> iconn" where
  "rename_target currentName newName c = (if ic_node c = currentName then c\<lparr>ic_node := newName\<rparr> else c)"

definition rename_targets :: "string \<Rightarrow> string \<Rightarrow> iconnections \<Rightarrow> iconnections" where
  "rename_targets currentName newName cs = map (\<lambda>(a, byType). (a, map (\<lambda>(ty, byIndex).
     (ty, map (map_option (map (rename_target currentName newName))) byIndex)) byType)) cs"

text \<open>\<^verbatim>\<open>o[newKey] = o[oldKey]; delete o[oldKey]\<close>\<close>

definition move_key :: "'k \<Rightarrow> 'k \<Rightarrow> ('v \<Rightarrow> 'v) \<Rightarrow> ('k, 'v) jsmap \<Rightarrow> ('k, 'v) jsmap" where
  "move_key old new f m = (case mget m old of None \<Rightarrow> m | Some v \<Rightarrow> mdel old (mset_at new (f v) m))"

definition renameNode ::
  "(string \<Rightarrow> string \<Rightarrow> string \<Rightarrow> string) \<Rightarrow> string \<Rightarrow> string \<Rightarrow> workflow \<Rightarrow> workflow res" where
  "renameNode access currentName newName w =
     (if to_lower newName \<in> set (map to_lower restrictedKeys)
      then Inl (UserError ''Node name is a restricted name'')
      else
        let nodes = move_key currentName newName (\<lambda>n. n\<lparr>n_name := newName\<rparr>) (wf_nodes w);
            nodes = map (\<lambda>(k, n). (k, rename_in_node access currentName newName n)) nodes;
            bySource = move_key currentName newName (\<lambda>x. x) (wf_bySource w);
            bySource = rename_targets currentName newName bySource
        in Inr (w\<lparr>wf_nodes := nodes, wf_bySource := bySource\<rparr>))"

section \<open>Lemmas\<close>

text \<open>\<open>setConnections\<close> establishes the agreement of the two connection objects.\<close>

definition consistent :: "workflow \<Rightarrow> bool" where
  "consistent w \<longleftrightarrow> links (wf_byDest w) = (links (wf_bySource w))\<inverse>"

lemma setConnections_consistent: "consistent (setConnections cs w)"
  by (simp add: consistent_def setConnections_def links_mapConnectionsByDestination)

lemma setNodes_lookup:
  "mget (wf_nodes (setNodes ns w)) k = find (\<lambda>n. n_name n = k) (rev ns)"
proof -
  have "mget (foldl (\<lambda>m node. mset_at (n_name node) node m) [] ns) k = find (\<lambda>n. n_name n = k) (rev ns)"
    by (induction ns rule: rev_induct) auto
  then show ?thesis by (simp add: setNodes_def)
qed

lemma mget_move_key:
  "mget (move_key old new f m) k =
    (case mget m old of
       None \<Rightarrow> mget m k
     | Some v \<Rightarrow> if k = old then None else if k = new then Some (f v) else mget m k)"
  by (auto simp: move_key_def split: option.splits)

lemma mget_map_values: "mget (map (\<lambda>(k, v). (k, f v)) m) k = map_option f (mget m k)"
  by (induction m) auto

lemma renameNode_Inr:
  assumes "renameNode access old new w = Inr w'"
  shows "wf_nodes w' = map (\<lambda>(k, n). (k, rename_in_node access old new n)) (move_key old new (\<lambda>n. n\<lparr>n_name := new\<rparr>) (wf_nodes w))"
    and "wf_bySource w' = rename_targets old new (move_key old new (\<lambda>x. x) (wf_bySource w))"
    and "wf_byDest w' = wf_byDest w" and "wf_pinData w' = wf_pinData w" and "wf_staticData w' = wf_staticData w"
  using assms by (auto simp: renameNode_def Let_def split: if_splits)

lemma renameNode_total:
  "to_lower new \<notin> set (map to_lower restrictedKeys) \<Longrightarrow> \<exists>w'. renameNode access old new w = Inr w'"
  by (simp add: renameNode_def Let_def)

lemma renameNode_getNode:
  assumes "renameNode access old new w = Inr w'"
  shows "getNode w' k = map_option (rename_in_node access old new)
    (case getNode w old of
       None \<Rightarrow> getNode w k
     | Some n \<Rightarrow> if k = old then None else if k = new then Some (n\<lparr>n_name := new\<rparr>) else getNode w k)"
  by (simp add: getNode_def renameNode_Inr(1) [OF assms] mget_map_values mget_move_key split: option.split)

definition rename_name :: "string \<Rightarrow> string \<Rightarrow> string \<Rightarrow> string" where
  "rename_name old new n = (if n = old then new else n)"

lemma rename_target_sel [simp]:
  "ic_node (rename_target old new c) = rename_name old new (ic_node c)"
  "ic_type (rename_target old new c) = ic_type c" "ic_index (rename_target old new c) = ic_index c"
  by (simp_all add: rename_target_def rename_name_def)

lemma cells_rename_targets:
  "cells (rename_targets old new cs) a ty = map (map_option (map (rename_target old new))) (cells cs a ty)"
  by (auto simp: cells_def rename_targets_def mget_map_values split: option.splits)

lemma conn_at_rename_targets:
  "conn_at (rename_targets old new cs) a ty i c \<longleftrightarrow> (\<exists>d. conn_at cs a ty i d \<and> c = rename_target old new d)"
proof (cases "i < length (cells cs a ty)")
  case True
  then show ?thesis by (cases "cells cs a ty ! i") (auto simp: conn_at_def cells_rename_targets)
qed (simp add: conn_at_def cells_rename_targets)

lemma cells_move_key:
  assumes "new \<notin> fst ` set cs" "old \<noteq> new"
  shows "cells (move_key old new (\<lambda>x. x) cs) a ty =
    (if a = new then cells cs old ty else if a = old then [] else cells cs a ty)"
proof -
  have "mget cs new = None" using assms(1) by (simp add: map_of_eq_None_iff)
  then show ?thesis using assms(2) by (auto simp: cells_def mget_move_key split: option.splits)
qed

text \<open>The links after a renaming: both ends renamed.\<close>

lemma links_renameNode:
  assumes "renameNode access old new w = Inr w'" "new \<notin> fst ` set (wf_bySource w)" "old \<noteq> new"
  shows "links (wf_bySource w') = {((rename_name old new a, ty, i), (rename_name old new b, bty, j)) | a ty i b bty j.
    ((a, ty, i), (b, bty, j)) \<in> links (wf_bySource w)}"
proof -
  note src = renameNode_Inr(2) [OF assms(1)]
  have none: "cells (wf_bySource w) new ty = []" for ty
    using assms(2) map_of_eq_None_iff [of "wf_bySource w" new] by (simp add: cells_def)
  have at: "conn_at (wf_bySource w') x ty i c \<longleftrightarrow>
      (\<exists>a d. conn_at (wf_bySource w) a ty i d \<and> x = rename_name old new a \<and> c = rename_target old new d)" for x ty i c
  proof -
    have "conn_at (move_key old new (\<lambda>x. x) (wf_bySource w)) x ty i d \<longleftrightarrow>
        (\<exists>a. conn_at (wf_bySource w) a ty i d \<and> x = rename_name old new a)" for d
      using none assms(3) by (auto simp: conn_at_def cells_move_key [OF assms(2,3)] rename_name_def)
    then show ?thesis unfolding src conn_at_rename_targets by blast
  qed
  show ?thesis
  proof (rule set_eqI, clarify)
    fix x ty i y bty j
    have "((x, ty, i), (y, bty, j)) \<in> links (wf_bySource w') \<longleftrightarrow>
        (\<exists>c. conn_at (wf_bySource w') x ty i c \<and> y = ic_node c \<and> bty = ic_type c \<and> j = ic_index c)"
      by (auto simp: links_def)
    also have "\<dots> \<longleftrightarrow> (\<exists>a d. conn_at (wf_bySource w) a ty i d \<and> x = rename_name old new a
        \<and> y = ic_node (rename_target old new d) \<and> bty = ic_type (rename_target old new d)
        \<and> j = ic_index (rename_target old new d))"
      unfolding at by blast
    also have "\<dots> \<longleftrightarrow> (\<exists>a b. x = rename_name old new a \<and> y = rename_name old new b \<and>
        ((a, ty, i), (b, bty, j)) \<in> links (wf_bySource w))"
      by (auto simp: links_def)
    finally show "((x, ty, i), (y, bty, j)) \<in> links (wf_bySource w') \<longleftrightarrow>
        ((x, ty, i), (y, bty, j)) \<in> {((rename_name old new a, ty, i), (rename_name old new b, bty, j)) | a ty i b bty j.
          ((a, ty, i), (b, bty, j)) \<in> links (wf_bySource w)}" by simp
  qed
qed

text \<open>Renaming to the same name deletes the node.\<close>

lemma renameNode_same:
  assumes "renameNode access a a w = Inr w'"
  shows "getNode w' a = None"
  using renameNode_getNode [OF assms, of a] by (cases "getNode w a") auto

text \<open>What a value without node expressions becomes: only \<^verbatim>\<open>null\<close> changes.\<close>

fun no_expression :: "json \<Rightarrow> bool" where
  "no_expression (JStr s) = (s = [] \<or> hd s \<noteq> CHR ''='')"
| "no_expression (JArr vs) = list_all no_expression vs"
| "no_expression (JObj ps) = list_all no_expression (map snd ps)"
| "no_expression JNull = False"
| "no_expression _ = True"

lemma renameNodeInParameterValue_id:
  "no_expression v \<Longrightarrow> renameNodeInParameterValue access old new False v = v"
proof (induction v)
  case (JArr vs)
  then show ?case by (auto simp: list_all_iff intro: map_idI)
next
  case (JObj ps)
  have "(fst p, renameNodeInParameterValue access old new False (snd p)) = p" if "p \<in> set ps" for p
    using JObj that by (cases p) (fastforce simp: list_all_iff)
  then show ?case by (simp add: map_idI)
qed auto

end
