(* ===== verification/Workflow_BFS.thy ===== *)
theory Workflow_BFS
  imports Workflow_Class
begin

text \<open>
  The two breadth-first searches of \<^verbatim>\<open>workflow.ts\<close>: \<^verbatim>\<open>searchNodesBFS\<close>, which finds connected
  nodes with their distance, and \<^verbatim>\<open>getNodeConnectionIndexes\<close>, which finds the connection to a
  parent node.
\<close>

section \<open>Search by levels\<close>

text \<open>
  \<^verbatim>\<open>IConnectedNode\<close>. The objects in \<^verbatim>\<open>returnConns\<close> are those in \<^verbatim>\<open>visited\<close>, whose indices are
  updated later: the model keeps the names and reads the objects from \<open>visited\<close> at the end.
\<close>

record connected_node =
  cn_name :: string
  cn_indicies :: "nat list"
  cn_depth :: nat

type_synonym bfs_state = "(string, connected_node) jsmap \<times> string list \<times> connected_node list"

definition bfs_visit :: "iconnections \<Rightarrow> string \<Rightarrow> nat \<Rightarrow> connected_node \<Rightarrow> bfs_state \<Rightarrow> bfs_state" where
  "bfs_visit connections sourceNode depth current st = (case st of (visited, returnConns, queue) \<Rightarrow>
     (case mget visited (cn_name current) of
        Some v \<Rightarrow> (mset_at (cn_name current) (v\<lparr>cn_indicies := mk_set (cn_indicies v @ cn_indicies current)\<rparr>) visited,
                   returnConns, queue)
      | None \<Rightarrow> (mset_at (cn_name current) current visited,
                 if cn_name current \<noteq> sourceNode then returnConns @ [cn_name current] else returnConns,
                 queue @ map (\<lambda>connection. \<lparr>cn_name = ic_node connection, cn_indicies = [ic_index connection], cn_depth = depth\<rparr>)
                   (index_conns (cells connections (cn_name current) Main)))))"

definition bfs_round :: "iconnections \<Rightarrow> string \<Rightarrow> nat \<Rightarrow> connected_node list \<Rightarrow> bfs_state \<Rightarrow> bfs_state" where
  "bfs_round connections sourceNode depth toAdd st = foldl (\<lambda>st current. bfs_visit connections sourceNode depth current st) st toAdd"

lemma bfs_round_simps [simp]:
  "bfs_round cs s d [] st = st"
  "bfs_round cs s d (e # es) st = bfs_round cs s d es (bfs_visit cs s d e st)"
  by (simp_all add: bfs_round_def)

text \<open>The edges the search follows, and one round.\<close>

abbreviation main_next :: "iconnections \<Rightarrow> (string \<times> string) set" where
  "main_next cs \<equiv> follow cs (OfType Main)"

lemma follow_cells: "follow cs (OfType t) `` {a} = ic_node ` set (index_conns (cells cs a t))"
  by (auto simp: follow_def types_of_def cells_def split: option.splits) (auto simp: index_conns_def)

definition dom_of :: "(string, connected_node) jsmap \<Rightarrow> string set" where
  "dom_of v = fst ` set v"

lemma dom_of_set [simp]: "dom_of (mset_at k x v) = insert k (dom_of v)"
  by (simp add: dom_of_def dom_update dom_map_of_conv_image_fst [symmetric] update_conv')

lemma dom_of_None: "mget v k = None \<longleftrightarrow> k \<notin> dom_of v"
  by (simp add: dom_of_def map_of_eq_None_iff)

lemma bfs_visit_spec:
  assumes b: "bfs_visit cs s d e (v, ret, q) = (v1, r1, q1)"
  shows "dom_of v1 = insert (cn_name e) (dom_of v)"
    and "cn_name ` set q1 = cn_name ` set q \<union> (if cn_name e \<in> dom_of v then {} else main_next cs `` {cn_name e})"
    and "set r1 = set ret \<union> (if cn_name e \<in> dom_of v \<or> cn_name e = s then {} else {cn_name e})"
    and "\<And>k x. mget v k = Some x \<Longrightarrow> \<exists>y. mget v1 k = Some y \<and> cn_name y = cn_name x \<and> cn_depth y = cn_depth x"
    and "\<And>y. mget v1 (cn_name e) = Some y \<Longrightarrow> cn_name e \<notin> dom_of v \<Longrightarrow> y = e"
    and "(\<forall>e\<in>set q. cn_depth e = d) \<Longrightarrow> \<forall>e\<in>set q1. cn_depth e = d"
    and "distinct ret \<Longrightarrow> set ret \<subseteq> dom_of v \<Longrightarrow> distinct r1 \<and> set r1 \<subseteq> dom_of v1"
proof -
  show "dom_of v1 = insert (cn_name e) (dom_of v)"
    "\<And>k x. mget v k = Some x \<Longrightarrow> \<exists>y. mget v1 k = Some y \<and> cn_name y = cn_name x \<and> cn_depth y = cn_depth x"
    "(\<forall>e\<in>set q. cn_depth e = d) \<Longrightarrow> \<forall>e\<in>set q1. cn_depth e = d"
    using b by (auto simp: bfs_visit_def split: option.splits)
  have "cn_name ` set q1 = cn_name ` set q \<union> (if cn_name e \<in> dom_of v then {} else main_next cs `` {cn_name e})
    \<and> set r1 = set ret \<union> (if cn_name e \<in> dom_of v \<or> cn_name e = s then {} else {cn_name e})
    \<and> (\<forall>y. mget v1 (cn_name e) = Some y \<longrightarrow> cn_name e \<notin> dom_of v \<longrightarrow> y = e)
    \<and> (distinct ret \<longrightarrow> set ret \<subseteq> dom_of v \<longrightarrow> distinct r1 \<and> set r1 \<subseteq> dom_of v1)"
  proof (cases "mget v (cn_name e)")
    case None
    then have nd: "cn_name e \<notin> dom_of v" by (simp add: dom_of_None)
    have "v1 = mset_at (cn_name e) e v" "r1 = (if cn_name e \<noteq> s then ret @ [cn_name e] else ret)"
      "q1 = q @ map (\<lambda>c. \<lparr>cn_name = ic_node c, cn_indicies = [ic_index c], cn_depth = d\<rparr>)
         (index_conns (cells cs (cn_name e) Main))"
      using b None by (simp_all add: bfs_visit_def)
    with nd show ?thesis by (auto simp: follow_cells image_Un image_image)
  next
    case (Some x)
    then have "cn_name e \<in> dom_of v" by (metis dom_of_None option.distinct(1))
    moreover have "r1 = ret" "q1 = q" "dom_of v1 = insert (cn_name e) (dom_of v)"
      using b Some by (auto simp: bfs_visit_def)
    ultimately show ?thesis by auto
  qed
  then show "cn_name ` set q1 = cn_name ` set q \<union> (if cn_name e \<in> dom_of v then {} else main_next cs `` {cn_name e})"
    "set r1 = set ret \<union> (if cn_name e \<in> dom_of v \<or> cn_name e = s then {} else {cn_name e})"
    "\<And>y. mget v1 (cn_name e) = Some y \<Longrightarrow> cn_name e \<notin> dom_of v \<Longrightarrow> y = e"
    "distinct ret \<Longrightarrow> set ret \<subseteq> dom_of v \<Longrightarrow> distinct r1 \<and> set r1 \<subseteq> dom_of v1" by blast+
qed

lemma bfs_round_all:
  "bfs_round cs s d es (v, ret, q) = (v', ret', q') \<Longrightarrow>
    dom_of v' = dom_of v \<union> cn_name ` set es
    \<and> cn_name ` set q' = cn_name ` set q \<union> main_next cs `` (cn_name ` set es - dom_of v)
    \<and> ((\<forall>e\<in>set q. cn_depth e = d) \<longrightarrow> (\<forall>e\<in>set q'. cn_depth e = d))
    \<and> set ret' = set ret \<union> (cn_name ` set es - dom_of v - {s})
    \<and> (distinct ret \<longrightarrow> set ret \<subseteq> dom_of v \<longrightarrow> distinct ret')
    \<and> (\<forall>k x. mget v k = Some x \<longrightarrow> (\<exists>y. mget v' k = Some y \<and> cn_name y = cn_name x \<and> cn_depth y = cn_depth x))
    \<and> (\<forall>k y. mget v' k = Some y \<longrightarrow> k \<notin> dom_of v \<longrightarrow> (\<exists>e\<in>set es. cn_name e = k \<and> cn_name y = k \<and> cn_depth y = cn_depth e))"
proof (induction es arbitrary: v ret q)
  case Nil
  then show ?case by (auto simp flip: dom_of_None)
next
  case (Cons e es)
  obtain v1 r1 q1 where b: "bfs_visit cs s d e (v, ret, q) = (v1, r1, q1)" by (metis prod_cases3)
  have rest: "bfs_round cs s d es (v1, r1, q1) = (v', ret', q')" using Cons.prems b by simp
  note step = bfs_visit_spec [OF b]
  note ih = Cons.IH [OF rest]
  note ih1 = ih [THEN conjunct1] and ih2 = ih [THEN conjunct2, THEN conjunct1] and ih3 = ih [THEN conjunct2, THEN conjunct2, THEN conjunct1]
    and ih4 = ih [THEN conjunct2, THEN conjunct2, THEN conjunct2, THEN conjunct1] and ih5 = ih [THEN conjunct2, THEN conjunct2, THEN conjunct2, THEN conjunct2, THEN conjunct1]
    and ih6 = ih [THEN conjunct2, THEN conjunct2, THEN conjunct2, THEN conjunct2, THEN conjunct2, THEN conjunct1]
    and ih7 = ih [THEN conjunct2, THEN conjunct2, THEN conjunct2, THEN conjunct2, THEN conjunct2, THEN conjunct2]
  have old: "\<exists>y. mget v' k = Some y \<and> cn_name y = cn_name x \<and> cn_depth y = cn_depth x" if "mget v k = Some x" for k x
  proof -
    from step(4) [OF that] obtain y where y: "mget v1 k = Some y" "cn_name y = cn_name x" "cn_depth y = cn_depth x" by blast
    from ih6 [rule_format, OF y(1)] y(2,3) show ?thesis by simp
  qed
  have new: "\<exists>e\<in>set (e # es). cn_name e = k \<and> cn_name y = k \<and> cn_depth y = cn_depth e"
    if k: "mget v' k = Some y" "k \<notin> dom_of v" for k y
  proof (cases "k = cn_name e")
    case True
    have "mget v1 k \<noteq> None" using step(1) True by (simp add: dom_of_None)
    then obtain y1 where y1: "mget v1 k = Some y1" by blast
    with step(5) k(2) True have "y1 = e" by simp
    from ih6 [rule_format, OF y1] obtain y2 where
      "mget v' k = Some y2" "cn_name y2 = cn_name y1" "cn_depth y2 = cn_depth y1" by blast
    with k(1) True \<open>y1 = e\<close> show ?thesis by simp
  next
    case False
    then have "k \<notin> dom_of v1" using k(2) step(1) by simp
    from ih7 [rule_format, OF k(1) this] show ?thesis by simp
  qed
  have "dom_of v' = dom_of v \<union> cn_name ` set (e # es)" using ih1 step(1) by auto
  moreover have "cn_name ` set q' = cn_name ` set q \<union> main_next cs `` (cn_name ` set (e # es) - dom_of v)"
  proof -
    show ?thesis unfolding ih2 using step(1,2) by (auto split: if_splits)
  qed
  moreover have "(\<forall>e\<in>set q. cn_depth e = d) \<longrightarrow> (\<forall>e\<in>set q'. cn_depth e = d)" using ih3 step(6) by blast
  moreover have "set ret' = set ret \<union> (cn_name ` set (e # es) - dom_of v - {s})"
  proof -
    show ?thesis unfolding ih4 using step(1,3) by (auto split: if_splits)
  qed
  moreover have "distinct ret \<longrightarrow> set ret \<subseteq> dom_of v \<longrightarrow> distinct ret'" using ih5 step(7) by blast
  ultimately show ?case using old new by (intro conjI allI impI) simp_all
qed

lemma bfs_round_spec:
  assumes "bfs_round cs s d es (v, ret, q) = (v', ret', q')"
  shows "dom_of v' = dom_of v \<union> cn_name ` set es"
    and "cn_name ` set q' = cn_name ` set q \<union> main_next cs `` (cn_name ` set es - dom_of v)"
    and "(\<forall>e\<in>set q. cn_depth e = d) \<Longrightarrow> \<forall>e\<in>set q'. cn_depth e = d"
    and "set ret' = set ret \<union> (cn_name ` set es - dom_of v - {s})"
    and "distinct ret \<Longrightarrow> set ret \<subseteq> dom_of v \<Longrightarrow> distinct ret'"
    and "\<And>k x. mget v k = Some x \<Longrightarrow> \<exists>y. mget v' k = Some y \<and> cn_name y = cn_name x \<and> cn_depth y = cn_depth x"
    and "\<And>k y. mget v' k = Some y \<Longrightarrow> k \<notin> dom_of v \<Longrightarrow> \<exists>e\<in>set es. cn_name e = k \<and> cn_name y = k \<and> cn_depth y = cn_depth e"
proof -
  note a = bfs_round_all [OF assms]
  show "dom_of v' = dom_of v \<union> cn_name ` set es" by (rule a [THEN conjunct1])
  show "cn_name ` set q' = cn_name ` set q \<union> main_next cs `` (cn_name ` set es - dom_of v)"
    by (rule a [THEN conjunct2, THEN conjunct1])
  show "(\<forall>e\<in>set q. cn_depth e = d) \<Longrightarrow> \<forall>e\<in>set q'. cn_depth e = d"
    by (rule a [THEN conjunct2, THEN conjunct2, THEN conjunct1, THEN mp])
  show "set ret' = set ret \<union> (cn_name ` set es - dom_of v - {s})"
    by (rule a [THEN conjunct2, THEN conjunct2, THEN conjunct2, THEN conjunct1])
  show "distinct ret \<Longrightarrow> set ret \<subseteq> dom_of v \<Longrightarrow> distinct ret'"
    by (rule a [THEN conjunct2, THEN conjunct2, THEN conjunct2, THEN conjunct2, THEN conjunct1, rule_format])
  show "\<And>k x. mget v k = Some x \<Longrightarrow> \<exists>y. mget v' k = Some y \<and> cn_name y = cn_name x \<and> cn_depth y = cn_depth x"
    by (rule a [THEN conjunct2, THEN conjunct2, THEN conjunct2, THEN conjunct2, THEN conjunct2, THEN conjunct1, rule_format])
  show "\<And>k y. mget v' k = Some y \<Longrightarrow> k \<notin> dom_of v \<Longrightarrow> \<exists>e\<in>set es. cn_name e = k \<and> cn_name y = k \<and> cn_depth y = cn_depth e"
    by (rule a [THEN conjunct2, THEN conjunct2, THEN conjunct2, THEN conjunct2, THEN conjunct2, THEN conjunct2, rule_format])
qed

text \<open>All names that occur as targets: the search visits no others after the start.\<close>

definition target_names :: "iconnections \<Rightarrow> string set" where
  "target_names cs = ic_node ` fst ` set (pushes cs)"

lemma finite_target_names [simp]: "finite (target_names cs)"
  by (simp add: target_names_def)

lemma follow_target: "(a, b) \<in> follow cs (OfType t) \<Longrightarrow> b \<in> target_names cs"
  unfolding follow_links target_names_def set_pushes links_def by force

function bfs_loop :: "iconnections \<Rightarrow> string \<Rightarrow> int \<Rightarrow> connected_node list
    \<Rightarrow> (string, connected_node) jsmap \<Rightarrow> string list \<Rightarrow> nat \<Rightarrow> (string, connected_node) jsmap \<times> string list" where
  "bfs_loop connections sourceNode maxDepth queue visited returnConns depth =
     (if length queue > 0 then
        if maxDepth \<noteq> - 1 \<and> int depth > maxDepth then (visited, returnConns)
        else
          let st = bfs_round connections sourceNode (depth + 1) queue (visited, returnConns, []) in
          bfs_loop connections sourceNode maxDepth (snd (snd st)) (fst st) (fst (snd st)) (depth + 1)
      else (visited, returnConns))"
  by pat_completeness auto
termination
proof (relation "measures [\<lambda>(cs, s, m, q, v, r, d). card ((target_names cs \<union> cn_name ` set q) - dom_of v),
    \<lambda>(cs, s, m, q, v, r, d). if q = [] then 0 else 1]", goal_cases)
  case (2 cs s m q v r d st)
  obtain v' r' q' where st: "st = (v', r', q')" by (metis prod_cases3)
  from 2 st have eq: "bfs_round cs s (d + 1) q (v, r, []) = (v', r', q')" by simp
  note spec = bfs_round_spec(1,2) [OF eq]
  have q': "cn_name ` set q' \<subseteq> target_names cs" unfolding spec(2) using follow_target by force
  have sub: "(target_names cs \<union> cn_name ` set q') - dom_of v' \<subseteq> (target_names cs \<union> cn_name ` set q) - dom_of v"
    using q' spec(1) by auto
  show ?case
  proof (cases "cn_name ` set q \<subseteq> dom_of v")
    case True
    then have "cn_name ` set q - dom_of v = {}" by blast
    with spec(2) have "cn_name ` set q' = {}" by (simp only: Image_empty2 image_empty set_empty2 list.set Un_empty)
    then have "q' = []" by simp
    moreover have "card ((target_names cs \<union> cn_name ` set q') - dom_of v') \<le> card ((target_names cs \<union> cn_name ` set q) - dom_of v)"
      by (rule card_mono [OF _ sub]) simp
    ultimately show ?thesis using 2(1) by (auto simp: st)
  next
    case False
    then have "(target_names cs \<union> cn_name ` set q') - dom_of v' \<subset> (target_names cs \<union> cn_name ` set q) - dom_of v"
      using sub spec(1) by auto
    then have "card ((target_names cs \<union> cn_name ` set q') - dom_of v') < card ((target_names cs \<union> cn_name ` set q) - dom_of v)"
      by (intro psubset_card_mono) simp_all
    then show ?thesis by (simp add: st)
  qed
qed simp

declare bfs_loop.simps [simp del]

definition searchNodesBFS :: "iconnections \<Rightarrow> string \<Rightarrow> int \<Rightarrow> connected_node list" where
  "searchNodesBFS connections sourceNode maxDepth =
     (let r = bfs_loop connections sourceNode maxDepth [\<lparr>cn_name = sourceNode, cn_indicies = [], cn_depth = 0\<rparr>] [] [] 0
      in List.map_filter (mget (fst r)) (snd r))"

definition getParentNodesByDepth :: "workflow \<Rightarrow> string \<Rightarrow> int \<Rightarrow> connected_node list" where
  "getParentNodesByDepth w nodeName maxDepth = searchNodesBFS (wf_byDest w) nodeName maxDepth"

section \<open>Distances\<close>

definition ball :: "('a \<times> 'a) set \<Rightarrow> 'a \<Rightarrow> nat \<Rightarrow> 'a set" where
  "ball R s r = {n. \<exists>k<r. (s, n) \<in> R ^^ k}"

definition is_dist :: "('a \<times> 'a) set \<Rightarrow> 'a \<Rightarrow> 'a \<Rightarrow> nat \<Rightarrow> bool" where
  "is_dist R s n k \<longleftrightarrow> (s, n) \<in> R ^^ k \<and> (\<forall>j<k. (s, n) \<notin> R ^^ j)"

lemma ball_Suc: "ball R s (Suc r) = ball R s r \<union> (R ^^ r) `` {s}"
  by (auto simp: ball_def less_Suc_eq)

lemma ball_mono: "r \<le> r' \<Longrightarrow> ball R s r \<subseteq> ball R s r'"
  by (fastforce simp: ball_def intro: less_le_trans)

lemma ball_closed:
  assumes "(R ^^ r) `` {s} \<subseteq> ball R s r"
  shows "(s, n) \<in> R ^^ k \<Longrightarrow> n \<in> ball R s r"
proof (induction k arbitrary: n)
  case 0
  then show ?case using assms by (cases r) (auto simp: ball_def)
next
  case (Suc k)
  then obtain a where "(s, a) \<in> R ^^ k" "(a, n) \<in> R" by auto
  with Suc.IH obtain j where "j < r" "(s, a) \<in> R ^^ j" by (auto simp: ball_def)
  with \<open>(a, n) \<in> R\<close> have j: "(s, n) \<in> R ^^ Suc j" "Suc j \<le> r" by auto
  show ?case
  proof (cases "Suc j = r")
    case True
    with j(1) have "n \<in> (R ^^ r) `` {s}" by simp
    with assms show ?thesis by blast
  next
    case False
    with j show ?thesis unfolding ball_def by (intro CollectI exI [of _ "Suc j"]) simp
  qed
qed

text \<open>The state between two rounds: everything nearer than \<open>r\<close> is visited, the rest at \<open>r\<close> is queued.\<close>

definition bfs_inv :: "iconnections \<Rightarrow> string \<Rightarrow> connected_node list \<Rightarrow> (string, connected_node) jsmap \<Rightarrow> string list \<Rightarrow> nat \<Rightarrow> bool" where
  "bfs_inv cs s q v ret r \<longleftrightarrow>
     dom_of v = ball (main_next cs) s r
     \<and> (\<forall>k x. mget v k = Some x \<longrightarrow> cn_name x = k \<and> is_dist (main_next cs) s k (cn_depth x))
     \<and> distinct ret \<and> set ret = ball (main_next cs) s r - {s}
     \<and> cn_name ` set q \<subseteq> (main_next cs ^^ r) `` {s}
     \<and> (main_next cs ^^ r) `` {s} \<subseteq> ball (main_next cs) s r \<union> cn_name ` set q
     \<and> (\<forall>e\<in>set q. cn_depth e = r)"

lemma bfs_inv_round:
  assumes inv: "bfs_inv cs s q v ret r" and eq: "bfs_round cs s (r + 1) q (v, ret, []) = (v', ret', q')"
  shows "bfs_inv cs s q' v' ret' (r + 1)"
proof -
  let ?R = "main_next cs"
  note spec = bfs_round_spec [OF eq]
  from inv have v: "dom_of v = ball ?R s r"
    and e: "\<And>k x. mget v k = Some x \<Longrightarrow> cn_name x = k \<and> is_dist ?R s k (cn_depth x)"
    and ret: "distinct ret" "set ret = ball ?R s r - {s}"
    and q: "cn_name ` set q \<subseteq> (?R ^^ r) `` {s}" "(?R ^^ r) `` {s} \<subseteq> ball ?R s r \<union> cn_name ` set q"
      "\<forall>e\<in>set q. cn_depth e = r"
    by (simp_all add: bfs_inv_def)
  have dom: "dom_of v' = ball ?R s (r + 1)" using spec(1) v q(1,2) by (auto simp: ball_Suc)
  moreover have "cn_name x = k \<and> is_dist ?R s k (cn_depth x)" if x: "mget v' k = Some x" for k x
  proof (cases "k \<in> dom_of v")
    case True
    then obtain y where "mget v k = Some y" by (metis dom_of_None option.exhaust)
    with spec(6) [OF this] e [OF this] x show ?thesis by auto
  next
    case False
    from spec(7) [OF x False] obtain d where d: "d \<in> set q" "cn_name d = k" "cn_name x = k" "cn_depth x = cn_depth d" by blast
    have "(s, k) \<in> ?R ^^ r" using q(1) d(1,2) by auto
    moreover have "(s, k) \<notin> ?R ^^ j" if "j < r" for j using False v that by (auto simp: ball_def)
    ultimately show ?thesis using d q(3) by (auto simp: is_dist_def)
  qed
  moreover have "distinct ret'" using spec(5) ret v by auto
  moreover have "set ret' = ball ?R s (r + 1) - {s}" using spec(1,4) ret(2) v dom by auto
  moreover have q': "cn_name ` set q' = ?R `` (cn_name ` set q - dom_of v)" using spec(2) by simp
  moreover have "?R `` (cn_name ` set q - dom_of v) \<subseteq> (?R ^^ (r + 1)) `` {s}" using q(1) by auto
  moreover have "(?R ^^ (r + 1)) `` {s} \<subseteq> ball ?R s (r + 1) \<union> ?R `` (cn_name ` set q - dom_of v)"
  proof
    fix n assume "n \<in> (?R ^^ (r + 1)) `` {s}"
    then obtain a where a: "(s, a) \<in> ?R ^^ r" "(a, n) \<in> ?R" by auto
    show "n \<in> ball ?R s (r + 1) \<union> ?R `` (cn_name ` set q - dom_of v)"
    proof (cases "a \<in> ball ?R s r")
      case True
      then obtain j where "j < r" "(s, a) \<in> ?R ^^ j" by (auto simp: ball_def)
      with a(2) have "(s, n) \<in> ?R ^^ Suc j" "Suc j < r + 1" by auto
      then show ?thesis unfolding ball_def by blast
    next
      case False
      with a q(2) v have "a \<in> cn_name ` set q - dom_of v" by auto
      with a(2) show ?thesis by blast
    qed
  qed
  moreover have "\<forall>e\<in>set q'. cn_depth e = r + 1" by (rule spec(3)) simp
  ultimately show ?thesis unfolding bfs_inv_def q' by simp
qed

text \<open>Where the loop stops: all nodes up to the depth are visited.\<close>

lemma bfs_loop_spec:
  assumes "bfs_inv cs s q v ret r" "m = - 1 \<or> int r \<le> m + 1"
  shows "let (v', ret') = bfs_loop cs s m q v ret r in
    (\<forall>k x. mget v' k = Some x \<longrightarrow> cn_name x = k \<and> is_dist (main_next cs) s k (cn_depth x))
    \<and> distinct ret' \<and> set ret' \<subseteq> dom_of v'
    \<and> set ret' = {n. n \<noteq> s \<and> (\<exists>k. (m = - 1 \<or> int k \<le> m) \<and> (s, n) \<in> main_next cs ^^ k)}"
  using assms
proof (induction cs s m q v ret r rule: bfs_loop.induct)
  case (1 cs s m q v ret r)
  let ?R = "main_next cs"
  note eq = bfs_loop.simps [of cs s m q v ret r]
  have inv: "\<forall>k x. mget v k = Some x \<longrightarrow> cn_name x = k \<and> is_dist ?R s k (cn_depth x)" "distinct ret"
    "set ret = ball ?R s r - {s}" "dom_of v = ball ?R s r"
    using "1.prems"(1) by (simp_all add: bfs_inv_def)
  have sub: "set ret \<subseteq> dom_of v" using inv(3,4) by blast
  consider (empty) "q = []" | (deep) "q \<noteq> []" "m \<noteq> - 1 \<and> int r > m" | (round) "q \<noteq> []" "\<not> (m \<noteq> - 1 \<and> int r > m)" by blast
  then show ?case
  proof cases
    case empty
    have "(?R ^^ r) `` {s} \<subseteq> ball ?R s r" using "1.prems"(1) empty by (simp add: bfs_inv_def)
    note closed = ball_closed [OF this]
    have "ball ?R s r - {s} = {n. n \<noteq> s \<and> (\<exists>k. (m = - 1 \<or> int k \<le> m) \<and> (s, n) \<in> ?R ^^ k)}"
      using closed "1.prems"(2) by (auto simp: ball_def) force+
    then have sr: "set ret = {n. n \<noteq> s \<and> (\<exists>k. (m = - 1 \<or> int k \<le> m) \<and> (s, n) \<in> ?R ^^ k)}"
      using inv(3) by simp
    show ?thesis using inv(1,2) sub sr empty by (subst eq) simp
  next
    case deep
    have "int r = m + 1" using deep "1.prems"(2) by simp
    then have "ball ?R s r - {s} = {n. n \<noteq> s \<and> (\<exists>k. (m = - 1 \<or> int k \<le> m) \<and> (s, n) \<in> ?R ^^ k)}"
      using deep by (auto simp: ball_def) force+
    then have sr: "set ret = {n. n \<noteq> s \<and> (\<exists>k. (m = - 1 \<or> int k \<le> m) \<and> (s, n) \<in> ?R ^^ k)}"
      using inv(3) by simp
    show ?thesis using inv(1,2) sub sr deep by (subst eq) simp
  next
    case round
    obtain v' r' q' where st: "bfs_round cs s (r + 1) q (v, ret, []) = (v', r', q')" by (metis prod_cases3)
    have "bfs_loop cs s m q v ret r = bfs_loop cs s m q' v' r' (r + 1)"
      using round by (subst eq) (auto simp: st [simplified] Let_def)
    moreover have "m = - 1 \<or> int (r + 1) \<le> m + 1" using round by auto
    ultimately show ?thesis
      using "1.IH" [OF _ round(2) refl] bfs_inv_round [OF "1.prems"(1) st] round(1) st by (simp add: st [simplified])
  qed
qed

lemma searchNodesBFS_spec:
  assumes "m \<ge> - 1"
  shows "distinct (map cn_name (searchNodesBFS cs s m))
    \<and> cn_name ` set (searchNodesBFS cs s m) = {n. n \<noteq> s \<and> (\<exists>k. (m = - 1 \<or> int k \<le> m) \<and> (s, n) \<in> main_next cs ^^ k)}
    \<and> (\<forall>e\<in>set (searchNodesBFS cs s m). is_dist (main_next cs) s (cn_name e) (cn_depth e))"
proof -
  let ?q = "[\<lparr>cn_name = s, cn_indicies = [], cn_depth = 0\<rparr>]"
  obtain v ret where r: "bfs_loop cs s m ?q [] [] 0 = (v, ret)" by fastforce
  have "bfs_inv cs s ?q [] [] 0" by (simp add: bfs_inv_def dom_of_def ball_def)
  from bfs_loop_spec [OF this, of m] assms r have
    v: "\<And>k x. mget v k = Some x \<Longrightarrow> cn_name x = k \<and> is_dist (main_next cs) s k (cn_depth x)"
    and ret: "distinct ret" "set ret \<subseteq> dom_of v"
      "set ret = {n. n \<noteq> s \<and> (\<exists>k. (m = - 1 \<or> int k \<le> m) \<and> (s, n) \<in> main_next cs ^^ k)}" by auto
  have res: "searchNodesBFS cs s m = List.map_filter (mget v) ret" by (simp add: searchNodesBFS_def r)
  have names: "map cn_name (List.map_filter (mget v) xs) = xs" if "set xs \<subseteq> dom_of v" for xs
    using that
  proof (induction xs)
    case (Cons x xs)
    then obtain y where "mget v x = Some y" by (metis dom_of_None insert_subset list.simps(15) option.exhaust)
    with v [OF this] Cons show ?case by (simp add: List.map_filter_def)
  qed (simp add: List.map_filter_def)
  have "set (map cn_name (searchNodesBFS cs s m)) = set ret" by (simp only: res names [OF ret(2)])
  moreover have "is_dist (main_next cs) s (cn_name e) (cn_depth e)" if "e \<in> set (searchNodesBFS cs s m)" for e
  proof -
    from that obtain k where "mget v k = Some e" unfolding res set_map_filter by blast
    from v [OF this] show ?thesis by simp
  qed
  moreover have "distinct (map cn_name (searchNodesBFS cs s m))" using ret(1) by (simp only: res names [OF ret(2)])
  moreover have "set (map cn_name (searchNodesBFS cs s m)) = cn_name ` set (searchNodesBFS cs s m)" by simp
  ultimately show ?thesis unfolding ret(3) by blast
qed

end
