(* ===== verification/Workflow_Start.thy ===== *)
theory Workflow_Start
  imports Workflow_BFS "HOL-Library.List_Lexorder"
begin

text \<open>
  The rest of the searches of \<^verbatim>\<open>workflow.ts\<close>: the connection to a parent node, the highest
  parents, the start node of a manual execution and the main node of a sub-node.
\<close>

section \<open>The connection to a parent\<close>

text \<open>The two inner loops: the connections of a node with their position in their list.\<close>

definition positioned :: "node_inputs \<Rightarrow> (nat \<times> iconn) list" where
  "positioned typeConnections = concat (map (\<lambda>l. enumerate0 (case_option [] id l)) typeConnections)"

fun scan_connections :: "string \<Rightarrow> string list \<Rightarrow> (nat \<times> iconn) list \<Rightarrow> string list \<Rightarrow> nat \<times> nat + string list" where
  "scan_connections parentNodeName visitedNodes [] queue = Inr queue"
| "scan_connections parentNodeName visitedNodes ((destinationIndex, connection) # cs) queue =
     (if parentNodeName = ic_node connection then Inl (ic_index connection, destinationIndex)
      else scan_connections parentNodeName visitedNodes cs
             (if ic_node connection \<notin> set visitedNodes then queue @ [ic_node connection] else queue))"

lemma scan_connections_Inr:
  "scan_connections p vis cs q = Inr q' \<Longrightarrow>
    p \<notin> ic_node ` snd ` set cs \<and> set q' = set q \<union> (ic_node ` snd ` set cs - set vis)"
  by (induction p vis cs q rule: scan_connections.induct) (auto split: if_splits)

lemma scan_connections_Inl:
  "scan_connections p vis cs q = Inl (si, di) \<Longrightarrow> \<exists>c. (di, c) \<in> set cs \<and> ic_node c = p \<and> ic_index c = si"
  by (induction p vis cs q rule: scan_connections.induct) (auto split: if_splits)

lemma snd_positioned: "snd ` set (positioned l) = set (index_conns l)"
proof -
  have "snd ` set (enumerate0 xs) = set xs" for xs :: "iconn list" by (metis set_map snd_enumerate0)
  then show ?thesis by (simp add: positioned_def index_conns_def image_UN)
qed

function indexes_loop :: "iconnections \<Rightarrow> string \<Rightarrow> conn_type \<Rightarrow> string list \<Rightarrow> string list \<Rightarrow> (nat \<times> nat) option" where
  "indexes_loop connectionsByDest parentNodeName type visitedNodes [] = None"
| "indexes_loop connectionsByDest parentNodeName type visitedNodes (currentNodeName # queue) =
     (if currentNodeName \<in> set visitedNodes then
        indexes_loop connectionsByDest parentNodeName type visitedNodes queue
      else
        let visited = sadd currentNodeName visitedNodes in
        case scan_connections parentNodeName visited
            (positioned (cells connectionsByDest currentNodeName type)) queue of
          Inl hitAt \<Rightarrow> Some hitAt
        | Inr queue \<Rightarrow> indexes_loop connectionsByDest parentNodeName type visited queue)"
  by pat_completeness auto
termination
proof (relation "measures [\<lambda>(cs, p, t, vis, q). card ((target_names cs \<union> set q) - set vis), \<lambda>(cs, p, t, vis, q). length q]",
    goal_cases)
  case (2 cs p t vis n q)
  then have "(target_names cs \<union> set (n # q)) - set vis = (target_names cs \<union> set q) - set vis" by auto
  then show ?case by simp
next
  case (3 cs p t vis n q vis' q')
  then have s: "set vis' = insert n (set vis)"
    "set q' = set q \<union> (ic_node ` set (index_conns (cells cs n t)) - set vis')"
    using scan_connections_Inr [of p vis' "positioned (cells cs n t)" q q'] by (simp_all add: snd_positioned)
  have "ic_node ` set (index_conns (cells cs n t)) \<subseteq> target_names cs"
    using follow_target [of n _ cs t] follow_cells [of cs t n] by auto
  then have "(target_names cs \<union> set q') - set vis' \<subset> (target_names cs \<union> set (n # q)) - set vis"
    using s 3(1) by auto
  then have "card ((target_names cs \<union> set q') - set vis') < card ((target_names cs \<union> set (n # q)) - set vis)"
    by (intro psubset_card_mono) simp_all
  then show ?case by simp
qed simp

definition getNodeConnectionIndexes :: "workflow \<Rightarrow> string \<Rightarrow> string \<Rightarrow> conn_type \<Rightarrow> (nat \<times> nat) option" where
  "getNodeConnectionIndexes w nodeName parentNodeName type =
     (case getNode w parentNodeName of
        None \<Rightarrow> None
      | Some _ \<Rightarrow> indexes_loop (wf_byDest w) parentNodeName type [] [nodeName])"

text \<open>A hit lies on a walk over connections of the type; without a hit there is no such walk.\<close>

definition hit :: "iconnections \<Rightarrow> conn_type \<Rightarrow> string \<Rightarrow> string \<Rightarrow> nat \<times> nat \<Rightarrow> bool" where
  "hit cs t x p r \<longleftrightarrow> (\<exists>c. (snd r, c) \<in> set (positioned (cells cs x t)) \<and> ic_node c = p \<and> ic_index c = fst r)"

lemma indexes_loop_Some:
  "indexes_loop cs p t vis q = Some r \<Longrightarrow> \<exists>n\<in>set q. \<exists>x. (n, x) \<in> (follow cs (OfType t))\<^sup>* \<and> hit cs t x p r"
proof (induction cs p t vis q rule: indexes_loop.induct)
  case (2 cs p t vis n q)
  show ?case
  proof (cases "n \<in> set vis")
    case True
    with 2 show ?thesis by auto
  next
    case False
    let ?vis = "sadd n vis"
    show ?thesis
    proof (cases "scan_connections p ?vis (positioned (cells cs n t)) q")
      case (Inl f)
      with "2.prems" False have "hit cs t n p r"
        using scan_connections_Inl [of p ?vis "positioned (cells cs n t)" q "fst r" "snd r"]
        by (auto simp: hit_def Let_def)
      then show ?thesis by auto
    next
      case (Inr q')
      with "2.prems" False have "indexes_loop cs p t ?vis q' = Some r" by (simp add: Let_def)
      from "2.IH"(2) [OF False refl Inr this] obtain m x where
        m: "m \<in> set q'" "(m, x) \<in> (follow cs (OfType t))\<^sup>*" "hit cs t x p r" by blast
      from m(1) scan_connections_Inr [OF Inr] have "m \<in> set q \<or> (n, m) \<in> follow cs (OfType t)"
        using follow_cells [of cs t n] by (auto simp: snd_positioned)
      with m(2,3) show ?thesis by (auto intro: converse_rtrancl_into_rtrancl)
    qed
  qed
qed simp

lemma indexes_loop_None:
  "indexes_loop cs p t vis q = None \<Longrightarrow>
    (\<And>x y. x \<in> set vis \<Longrightarrow> (x, y) \<in> follow cs (OfType t) \<Longrightarrow> y \<noteq> p \<and> y \<in> set vis \<union> set q) \<Longrightarrow>
    n \<in> set vis \<union> set q \<Longrightarrow> (n, p) \<notin> (follow cs (OfType t))\<^sup>+"
proof (induction cs p t vis q rule: indexes_loop.induct)
  case (1 cs p t vis)
  have "m \<noteq> p \<and> m \<in> set vis" if "(n, m) \<in> (follow cs (OfType t))\<^sup>+" for m
    using that
  proof (induction rule: trancl_induct)
    case (base y)
    with 1 show ?case by force
  next
    case (step y z)
    with 1 show ?case by force
  qed
  then show ?case by blast
next
  case (2 cs p t vis m q)
  show ?case
  proof (cases "m \<in> set vis")
    case True
    show ?thesis
    proof (rule "2.IH"(1) [OF True])
      show "indexes_loop cs p t vis q = None" using "2.prems"(1) True by simp
      show "y \<noteq> p \<and> y \<in> set vis \<union> set q" if "x \<in> set vis" "(x, y) \<in> follow cs (OfType t)" for x y
        using "2.prems"(2) [OF that] True by auto
      show "n \<in> set vis \<union> set q" using "2.prems"(3) True by auto
    qed
  next
    case False
    let ?vis = "sadd m vis"
    from "2.prems"(1) False obtain q' where q': "scan_connections p ?vis (positioned (cells cs m t)) q = Inr q'"
      by (auto simp: Let_def split: sum.splits)
    from scan_connections_Inr [OF q'] follow_cells [of cs t m]
    have f: "p \<notin> follow cs (OfType t) `` {m}" "set q' = set q \<union> (follow cs (OfType t) `` {m} - set ?vis)"
      by (simp_all add: snd_positioned)
    show ?thesis
    proof (rule "2.IH"(2) [OF False refl q'])
      show "indexes_loop cs p t ?vis q' = None" using "2.prems"(1) False q' by (simp add: Let_def)
      show "y \<noteq> p \<and> y \<in> set ?vis \<union> set q'" if "x \<in> set ?vis" "(x, y) \<in> follow cs (OfType t)" for x y
        using "2.prems"(2) [of x y] that f by (cases "x = m") auto
      show "n \<in> set ?vis \<union> set q'" using "2.prems"(3) f by auto
    qed
  qed
qed

section \<open>Highest parents\<close>

text \<open>
  \<^verbatim>\<open>getHighestNode\<close>: the array \<open>checkedNodes\<close> is shared by all calls; \<open>highest_loop\<close> is the loop over
  the connections of a node with the recursive call unfolded, and returns the nodes and the array.
\<close>

definition highest_self :: "workflow \<Rightarrow> string \<Rightarrow> string list" where
  "highest_self w nodeName = (case getNode w nodeName of
     None \<Rightarrow> [] | Some n \<Rightarrow> if n_disabled n = Some False then [nodeName] else [])"

definition main_inputs :: "workflow \<Rightarrow> string \<Rightarrow> node_inputs option" where
  "main_inputs w nodeName = Option.bind (mget (wf_byDest w) nodeName) (\<lambda>byType. mget byType Main)"

definition add_new :: "string list \<Rightarrow> string list \<Rightarrow> string list" where
  "add_new addNodes returnNodes = foldl (\<lambda>r name. if name \<in> set r then r else r @ [name]) returnNodes addNodes"

definition or_self :: "workflow \<Rightarrow> string \<Rightarrow> string list \<Rightarrow> string list" where
  "or_self w m addNodes = (if length addNodes = 0
     then (if map_option n_disabled (getNode w m) \<noteq> Some (Some True) then [m] else [])
     else addNodes)"

function highest_loop :: "workflow \<Rightarrow> iconn list \<Rightarrow> string list \<Rightarrow> string list \<Rightarrow> string list \<times> string list" where
  "highest_loop w [] returnNodes checkedNodes = (returnNodes, checkedNodes)"
| "highest_loop w (connection # cs) returnNodes checkedNodes =
     (let m = ic_node connection in
      if m \<in> set checkedNodes \<or> getNode w m = None then highest_loop w cs returnNodes checkedNodes
      else
        let (addNodes, checked) = (case main_inputs w m of
            None \<Rightarrow> (highest_self w m, checkedNodes)
          | Some byIndex \<Rightarrow> highest_loop w (index_conns byIndex) [] (checkedNodes @ [m]))
        in highest_loop w cs (add_new (or_self w m addNodes) returnNodes) checked)"
  by pat_completeness auto

lemma highest_loop_extends:
  "highest_loop_dom (w, cs, ret, checked) \<Longrightarrow> set checked \<subseteq> set (snd (highest_loop w cs ret checked))"
proof (induction w cs ret checked rule: highest_loop.pinduct)
  case (2 w c cs ret checked)
  let ?m = "ic_node c"
  show ?case
  proof (cases "?m \<in> set checked \<or> getNode w ?m = None")
    case True
    with 2 show ?thesis by (simp add: highest_loop.psimps)
  next
    case False
    show ?thesis
    proof (cases "main_inputs w ?m")
      case None
      with False 2 show ?thesis by (simp add: highest_loop.psimps Let_def)
    next
      case (Some l)
      obtain a ch where h: "highest_loop w (index_conns l) [] (checked @ [?m]) = (a, ch)" by fastforce
      from "2.IH"(2) [OF refl False Some] h have "set checked \<subseteq> set ch" by auto
      moreover have "set ch \<subseteq> set (snd (highest_loop w cs (add_new (or_self w ?m a) ret) ch))"
        using "2.IH"(3) [OF refl False, of "(a, ch)" a ch] Some h by simp
      moreover have "highest_loop w (c # cs) ret checked = highest_loop w cs (add_new (or_self w ?m a) ret) ch"
        using False Some h by (cases "getNode w ?m") (simp_all add: highest_loop.psimps(2) [OF "2.hyps"] Let_def)
      ultimately show ?thesis by auto
    qed
  qed
qed (simp add: highest_loop.psimps)

lemma getNode_key: "getNode w m \<noteq> None \<Longrightarrow> m \<in> fst ` set (wf_nodes w)"
  by (simp add: getNode_def map_of_eq_None_iff)

termination highest_loop
proof (relation "measures [\<lambda>(w, cs, ret, checked). card (fst ` set (wf_nodes w) - set checked), \<lambda>(w, cs, ret, checked). length cs]",
    goal_cases)
  case (3 w c cs ret checked m l)
  then have "m \<in> fst ` set (wf_nodes w)" using getNode_key by blast
  then have "card (fst ` set (wf_nodes w) - set (checked @ [m])) < card (fst ` set (wf_nodes w) - set checked)"
    using 3 by (intro psubset_card_mono) auto
  then show ?case by simp
next
  case (4 w c cs ret checked m x a ch)
  have "set checked \<subseteq> set ch"
  proof (cases "main_inputs w m")
    case None
    with 4 show ?thesis by simp
  next
    case (Some l)
    with 4 have "(a, ch) = highest_loop w (index_conns l) [] (checked @ [m])" by simp
    then have "ch = snd (highest_loop w (index_conns l) [] (checked @ [m]))" by (metis snd_conv)
    with 4 Some highest_loop_extends [of w "index_conns l" "[]" "checked @ [m]"] show ?thesis by auto
  qed
  then have "card (fst ` set (wf_nodes w) - set ch) \<le> card (fst ` set (wf_nodes w) - set checked)"
    by (intro card_mono) auto
  then show ?case by auto
qed simp_all

text \<open>The index, when given, selects one input of the first node.\<close>

definition getHighestNode :: "workflow \<Rightarrow> string \<Rightarrow> nat option \<Rightarrow> string list" where
  "getHighestNode w nodeName nodeConnectionIndex =
     (if getNode w nodeName = None then []
      else case main_inputs w nodeName of
        None \<Rightarrow> highest_self w nodeName
      | Some byIndex \<Rightarrow>
          let selected = (case nodeConnectionIndex of None \<Rightarrow> byIndex
            | Some i \<Rightarrow> (case arr_get byIndex i of None \<Rightarrow> [] | Some l \<Rightarrow> [l]))
          in fst (highest_loop w (index_conns selected) [] [nodeName]))"

definition enabled_node :: "workflow \<Rightarrow> string \<Rightarrow> bool" where
  "enabled_node w m = (case getNode w m of None \<Rightarrow> False | Some n \<Rightarrow> n_disabled n \<noteq> Some True)"

lemma set_add_new [simp]: "set (add_new xs ys) = set xs \<union> set ys"
  unfolding add_new_def by (induction xs arbitrary: ys) auto

lemma distinct_add_new: "distinct ys \<Longrightarrow> distinct (add_new xs ys)"
  unfolding add_new_def by (induction xs arbitrary: ys) auto

lemma highest_self_enabled: "m \<in> set (highest_self w n) \<Longrightarrow> m = n \<and> enabled_node w m"
  by (cases "getNode w n") (auto simp: highest_self_def enabled_node_def split: if_splits)

lemma main_inputs_follow:
  "main_inputs w m = Some l \<Longrightarrow> ic_node ` set (index_conns l) \<subseteq> main_next (wf_byDest w) `` {m}"
  unfolding follow_cells by (auto simp: main_inputs_def cells_def split: bind_splits)

text \<open>Every node returned exists, is not disabled and is an ancestor.\<close>

lemma highest_loop_sound:
  "m \<in> set (fst (highest_loop w cs ret checked)) \<Longrightarrow> m \<in> set ret \<or>
    (enabled_node w m \<and> (\<exists>c\<in>set cs. (ic_node c, m) \<in> (main_next (wf_byDest w))\<^sup>*))"
proof (induction w cs ret checked arbitrary: m rule: highest_loop.induct)
  case (2 w c cs ret checked)
  let ?m = "ic_node c"
  show ?case
  proof (cases "?m \<in> set checked \<or> getNode w ?m = None")
    case True
    with "2.prems" "2.IH"(1) [OF refl True] show ?thesis by auto
  next
    case False
    define r where "r = (case main_inputs w ?m of None \<Rightarrow> (highest_self w ?m, checked)
      | Some l \<Rightarrow> highest_loop w (index_conns l) [] (checked @ [?m]))"
    have eq: "highest_loop w (c # cs) ret checked = highest_loop w cs (add_new (or_self w ?m (fst r)) ret) (snd r)"
      using False by (cases "getNode w ?m") (simp_all add: r_def Let_def case_prod_beta)
    have r: "enabled_node w x \<and> (?m, x) \<in> (main_next (wf_byDest w))\<^sup>*" if "x \<in> set (fst r)" for x
    proof (cases "main_inputs w ?m")
      case None
      with that highest_self_enabled [of x w ?m] show ?thesis by (auto simp: r_def)
    next
      case (Some l)
      with that have "x \<in> set (fst (highest_loop w (index_conns l) [] (checked @ [?m])))" by (simp add: r_def)
      from "2.IH"(2) [OF refl False Some this] obtain d where
        "enabled_node w x" "d \<in> set (index_conns l)" "(ic_node d, x) \<in> (main_next (wf_byDest w))\<^sup>*" by auto
      with main_inputs_follow [OF Some] show ?thesis by (auto intro: converse_rtrancl_into_rtrancl)
    qed
    have self: "enabled_node w x \<and> (?m, x) \<in> (main_next (wf_byDest w))\<^sup>*" if "x \<in> set (or_self w ?m (fst r))" for x
    proof (cases "length (fst r) = 0")
      case True
      with that False have "x = ?m" "enabled_node w ?m"
        by (auto simp: or_self_def enabled_node_def split: if_splits option.splits)
      then show ?thesis by simp
    next
      case False
      with that have "x \<in> set (fst r)" by (simp add: or_self_def)
      then show ?thesis by (rule r)
    qed
    have "m \<in> set (fst (highest_loop w cs (add_new (or_self w ?m (fst r)) ret) (snd r)))"
      using "2.prems" eq by simp
    from "2.IH"(3) [OF refl False r_def [symmetric, THEN sym] surjective_pairing [symmetric] this]
    show ?thesis using self by auto
  qed
qed simp

section \<open>Start node\<close>

definition STARTING_NODE_TYPES :: "string list" where
  "STARTING_NODE_TYPES = [''n8n-nodes-base.manualTrigger'', ''n8n-nodes-base.executeWorkflowTrigger'',
     ''n8n-nodes-base.errorTrigger'', ''n8n-nodes-base.evaluationTrigger'', ''n8n-nodes-base.formTrigger'']"

definition start_index :: "inode \<Rightarrow> int" where
  "start_index n = (case index_of (n_type n) STARTING_NODE_TYPES of None \<Rightarrow> - 1 | Some i \<Rightarrow> int i)"

text \<open>The loop over the candidates: an unknown node or node type is a \<^verbatim>\<open>TypeError\<close>.\<close>

fun find_trigger_node :: "node_types \<Rightarrow> workflow \<Rightarrow> string list \<Rightarrow> inode option res" where
  "find_trigger_node types w [] = Inr None"
| "find_trigger_node types w (nodeName # names) =
     (case mget (wf_nodes w) nodeName of
        None \<Rightarrow> Inl (TypeError ''type'')
      | Some node \<Rightarrow>
          (case types (n_type node) (n_typeVersion node) of
             None \<Rightarrow> Inl (TypeError ''description'')
           | Some nodeType \<Rightarrow>
               if nt_name nodeType = ''@n8n/n8n-nodes-langchain.manualChatTrigger''
               then find_trigger_node types w names
               else if (nt_trigger nodeType \<or> nt_poll nodeType) \<and> n_disabled node \<noteq> Some True
               then Inr (Some node)
               else find_trigger_node types w names))"

definition getStartNode_among :: "node_types \<Rightarrow> workflow \<Rightarrow> string list \<Rightarrow> inode option res" where
  "getStartNode_among types w nodeNames =
     (case (if length nodeNames = 1
            then Option.bind (mget (wf_nodes w) (hd nodeNames)) (\<lambda>n. if disabled n then None else Some n)
            else None) of
        Some node \<Rightarrow> Inr (Some node)
      | None \<Rightarrow>
          bindE (find_trigger_node types w nodeNames) (\<lambda>t. case t of
            Some node \<Rightarrow> Inr (Some node)
          | None \<Rightarrow>
              let sortedNodeNames = map n_name (sort_key start_index (obj_values (wf_nodes w))) in
              Inr (find (\<lambda>n. n_type n \<in> set STARTING_NODE_TYPES \<and> n_disabled n \<noteq> Some True)
                     (List.map_filter (mget (wf_nodes w)) sortedNodeNames))))"

definition getStartNode :: "node_types \<Rightarrow> workflow \<Rightarrow> string option \<Rightarrow> inode option res" where
  "getStartNode types w destinationNode =
     (if destinationNode \<noteq> None \<and> destinationNode \<noteq> Some [] then
        let nodeNames = getHighestNode w (the destinationNode) None;
            nodeNames = (if length nodeNames = 0 then nodeNames @ [the destinationNode] else nodeNames)
        in bindE (getStartNode_among types w nodeNames) (\<lambda>node. case node of
             Some n \<Rightarrow> Inr (Some n)
           | None \<Rightarrow> Inr (mget (wf_nodes w) (hd nodeNames)))
      else getStartNode_among types w (obj_keys (wf_nodes w)))"

section \<open>The main node of a sub-node\<close>

text \<open>Strings sort by code unit.\<close>

definition sort_strings :: "string list \<Rightarrow> string list" where
  "sort_strings xs = sort_key (map (of_char :: char \<Rightarrow> nat)) xs"

text \<open>The nodes connected over the outputs that are not main.\<close>

definition nonMainNodesConnected :: "(inode \<Rightarrow> conn_type list) \<Rightarrow> workflow \<Rightarrow> inode \<Rightarrow> string list" where
  "nonMainNodesConnected outputs w node =
     (let nonMainConnectionTypes = sort_strings (filter (\<lambda>t. t \<noteq> Main) (outputs node))
      in sort_strings (concat (map (\<lambda>t.
          case mget (wf_bySource w) (n_name node) of
            None \<Rightarrow> []
          | Some nodeConnections \<Rightarrow>
              if mhas nodeConnections t
              then getChildNodes (wf_bySource w) (n_name node) (OfType t) (- 1) else []) nonMainConnectionTypes)))"

text \<open>
  \<open>outputs\<close> is \<^verbatim>\<open>NodeHelpers.getNodeOutputs\<close>, which may evaluate an expression. The recursion may not
  end: \<open>None\<close> stands for that.
\<close>

partial_function (option) getParentMainInputNode ::
  "node_types \<Rightarrow> (inode \<Rightarrow> conn_type list) \<Rightarrow> workflow \<Rightarrow> inode \<Rightarrow> inode res option" where
  "getParentMainInputNode types outputs w node =
     (if Option.bind (types (n_type node) (n_typeVersion node)) nt_outputs = None then Some (Inr node)
      else case nonMainNodesConnected outputs w node of
          [] \<Rightarrow> Some (Inr node)
        | first # _ \<Rightarrow>
            (case getNode w first of
               None \<Rightarrow> Some (Inl (ApplicationError ''Node not found''))
             | Some returnNode \<Rightarrow> getParentMainInputNode types outputs w returnNode))"

end
