(* ===== verification/Workflow_Properties.thy ===== *)
theory Workflow_Properties
  imports Sample_Data Graph_Utils Connections_Diff Workflow_Start
begin

text \<open>
  What the class \<^verbatim>\<open>Workflow\<close> and the functions on connection objects promise, and where they do not
  keep it.
\<close>

section \<open>Samples\<close>

definition to_main :: "string \<Rightarrow> nat \<Rightarrow> iconn" where
  "to_main b j = \<lparr>ic_node = b, ic_type = Main, ic_index = j\<rparr>"

text \<open>\<open>A\<close> has two outputs to \<open>B\<close>, \<open>B\<close> leads to \<open>C\<close> and \<open>C\<close> back to \<open>B\<close>.\<close>

definition sample_conns :: iconnections where
  "sample_conns = [(''A'', [(Main, [Some [to_main ''B'' 0], Some [to_main ''B'' 1]])]),
     (''B'', [(Main, [None, Some [to_main ''C'' 0]])]), (''C'', [(Main, [Some [to_main ''B'' 0]])])]"

definition sample_workflow :: workflow where
  "sample_workflow = new_workflow (\<lambda>_ _. None) (\<lambda>_ _. None) [nodeA, nodeB, nodeC] sample_conns None []"

definition no_access :: "string \<Rightarrow> string \<Rightarrow> string \<Rightarrow> string" where
  "no_access s a b = s"

lemma relpow_converse: "((R :: ('a \<times> 'a) set)\<inverse>) ^^ k = (R ^^ k)\<inverse>"
proof (induction k)
  case (Suc k)
  have "(R\<inverse>) ^^ Suc k = (R ^^ k)\<inverse> O R\<inverse>" by (simp add: Suc)
  also have "\<dots> = (R O R ^^ k)\<inverse>" by (simp add: converse_relcomp)
  finally show ?case by (simp add: relpow_commute)
qed simp

text \<open>A text that identifies a connection: every character is marked.\<close>

definition marked :: "string \<Rightarrow> string" where
  "marked s = concat (map (\<lambda>c. [CHR ''x'', c]) s)"

definition conn_text :: "iconn \<Rightarrow> string" where
  "conn_text c = marked (ic_node c) @ CHR ''y'' # marked (ic_type c) @ CHR ''y'' # show_nat (ic_index c)"

lemma marked_inj: "marked s @ CHR ''y'' # r = marked t @ CHR ''y'' # u \<Longrightarrow> s = t \<and> r = u"
proof (induction s arbitrary: t)
  case Nil
  then show ?case by (cases t) (simp_all add: marked_def)
next
  case (Cons c s)
  then show ?case by (cases t) (auto simp: marked_def)
qed

lemma inj_conn_text: "inj conn_text"
proof (rule injI)
  fix c d assume "conn_text c = conn_text d"
  from marked_inj [OF this [unfolded conn_text_def]] have n: "ic_node c = ic_node d"
    and r: "marked (ic_type c) @ CHR ''y'' # show_nat (ic_index c) = marked (ic_type d) @ CHR ''y'' # show_nat (ic_index d)" by auto
  from marked_inj [OF r] n show "c = d" by simp
qed

section \<open>Connection objects\<close>

text \<open>
  \<^verbatim>\<open>getConnectedNodes\<close> (and so \<^verbatim>\<open>getChildNodes\<close> and \<^verbatim>\<open>getParentNodes\<close>) returns exactly the other nodes
  at the end of a walk over connections of the type, of at most \<open>depth\<close> connections when the depth is
  not negative; the list of checked nodes passed down the recursion loses nothing.
\<close>

theorem getConnectedNodes_correct:
  "set (getConnectedNodes cs n ct d []) =
    {m. m \<noteq> n \<and> (\<exists>k. 0 < k \<and> in_depth d k \<and> (n, m) \<in> follow cs ct ^^ k)}"
  by (rule getConnectedNodes_set)

text \<open>
  on the inverted connections, \<^verbatim>\<open>getParentNodes\<close> finds a node exactly when \<^verbatim>\<open>getChildNodes\<close> finds its
  counterpart on the connections, at every depth.
\<close>

theorem getParentNodes_dual:
  "m \<in> set (getParentNodes (mapConnectionsByDestination cs) n AllTypes d) \<longleftrightarrow>
   n \<in> set (getChildNodes cs m AllTypes d)"
proof -
  have "follow (mapConnectionsByDestination cs) AllTypes = (follow cs AllTypes)\<inverse>"
    unfolding follow_links links_mapConnectionsByDestination by auto
  then show ?thesis
    by (auto simp: getParentNodes_def getChildNodes_def getConnectedNodes_set relpow_converse)
qed

text \<open>
  The result of \<^verbatim>\<open>getChildNodes\<close> may hold a node twice: a direct connection is added without looking
  for the node, and a node connected to two outputs is direct twice.
\<close>

theorem getChildNodes_repeats:
  "getChildNodes sample_conns ''A'' (OfType Main) (- 1) = [''C'', ''B'', ''B'']"
  by code_simp

text \<open>
  \<^verbatim>\<open>mapConnectionsByDestination\<close> inverts the connections: the ends of its connections are those of the
  given connections, swapped, with their types and indices.
\<close>

theorem mapConnectionsByDestination_inverts:
  "links (mapConnectionsByDestination cs) = (links cs)\<inverse>"
  by (rule links_mapConnectionsByDestination)

text \<open>
  a selection of nodes for which \<^verbatim>\<open>parseExtractableSubgraphSelection\<close> reports no error, with a start and
  an end: every main connection into the selection enters at the start, every main connection out of
  it leaves at the end, and a path inside the selection leads from the start to the end.
\<close>

theorem parseExtractableSubgraphSelection_sound:
  assumes "distinct graphIds" "s \<noteq> []" "e \<noteq> []"
    and "parseExtractableSubgraphSelection graphIds (buildAdjacencyList cs) = Inr (Some s, Some e)"
  shows "(\<forall>a b. (a, b) \<in> main_adj (buildAdjacencyList cs) \<longrightarrow> a \<notin> set graphIds \<longrightarrow> b \<in> set graphIds \<longrightarrow> b = s)
    \<and> (\<forall>a b. (a, b) \<in> main_adj (buildAdjacencyList cs) \<longrightarrow> a \<in> set graphIds \<longrightarrow> b \<notin> set graphIds \<longrightarrow> a = e)
    \<and> (s, e) \<in> (main_adj (buildAdjacencyList cs) \<inter> set graphIds \<times> set graphIds)\<^sup>*"
proof -
  let ?R = "main_adj (buildAdjacencyList cs)" and ?S = "set graphIds"
  from assms parse_Inr [OF assms(1) buildAdjacencyList_targets(1) [of cs], of "Some s" "Some e"]
  have i: "ins ?S (buildAdjacencyList cs) = {s}" and j: "outs ?S (buildAdjacencyList cs) = {e}"
    and p: "(s, e) \<in> ?R\<^sup>*" by (simp_all add: truthy_string_def)
  have o: "u = e" if "u \<in> ?S" "v \<notin> ?S" "(u, v) \<in> ?R" for u v using that j by (auto simp: outs_def)
  have "s \<in> ?S" using i by (auto simp: ins_def)
  then have "(s, e) \<in> (?R \<inter> ?S \<times> ?S)\<^sup>*" by (rule walk_to_exit [OF p]) (rule o)
  with i o show ?thesis by (auto simp: ins_def)
qed

definition line_conns :: iconnections where
  "line_conns = [(''T'', [(Main, [Some [to_main ''A'' 0]])]), (''A'', [(Main, [Some [to_main ''B'' 0]])]),
     (''B'', [(Main, [Some [to_main ''C'' 0]])])]"

theorem parseExtractableSubgraphSelection_sound_witness:
  "(''A'', ''B'') \<in> (main_adj (buildAdjacencyList line_conns) \<inter> {''A'', ''B''} \<times> {''A'', ''B''})\<^sup>*"
proof -
  have v: "parseExtractableSubgraphSelection [''A'', ''B''] (buildAdjacencyList line_conns) = Inr (Some ''A'', Some ''B'')"
    by code_simp
  show ?thesis using parseExtractableSubgraphSelection_sound [of "[''A'', ''B'']" "''A''" "''B''" line_conns] v by simp
qed

text \<open>
  with texts that identify connections, \<^verbatim>\<open>compareConnections\<close> reports as added at a node, type and index
  exactly the connections that only the new version has there, and as removed those that only the
  old version has.
\<close>

theorem compareConnections_exact:
  assumes "inj str"
  shows "((\<exists>j. \<lparr>ce_sourceIndex = i, ce_value = (j, c)\<rparr> \<in> set (entries_at (fst (compareConnections str prv nxt)) a ty)) \<longleftrightarrow>
      c \<in> set (conns_of nxt a ty i) \<and> c \<notin> set (conns_of prv a ty i))
    \<and> ((\<exists>j. \<lparr>ce_sourceIndex = i, ce_value = (j, c)\<rparr> \<in> set (entries_at (snd (compareConnections str prv nxt)) a ty)) \<longleftrightarrow>
      c \<in> set (conns_of prv a ty i) \<and> c \<notin> set (conns_of nxt a ty i))"
  unfolding compareConnections_entries missing_connections [OF assms] by blast

theorem compareConnections_exact_witness:
  "\<exists>j. \<lparr>ce_sourceIndex = 0, ce_value = (j, to_main ''C'' 0)\<rparr>
    \<in> set (entries_at (fst (compareConnections conn_text sample_conns line_conns)) ''B'' Main)"
proof -
  have v: "to_main ''C'' 0 \<in> set (conns_of line_conns ''B'' Main 0)" "to_main ''C'' 0 \<notin> set (conns_of sample_conns ''B'' Main 0)"
    by code_simp+
  from compareConnections_exact [OF inj_conn_text, of 0 "to_main ''C'' 0" sample_conns line_conns "''B''" Main] v show ?thesis by blast
qed

section \<open>Renaming\<close>

text \<open>
  \<^verbatim>\<open>renameNode\<close> of a node to a new name that is not restricted does not fail; the node is found under
  its new name only, the other nodes keep their names, and the connections by source are the old ones
  with the name replaced at both ends.
\<close>

theorem renameNode_correct:
  assumes "to_lower new \<notin> set (map to_lower restrictedKeys)" "new \<notin> fst ` set (wf_bySource w)"
    "getNode w old = Some n" "old \<noteq> new"
  shows "\<exists>w'. renameNode access old new w = Inr w'
    \<and> getNode w' new = Some (rename_in_node access old new (n\<lparr>n_name := new\<rparr>)) \<and> getNode w' old = None
    \<and> (\<forall>k. k \<noteq> old \<longrightarrow> k \<noteq> new \<longrightarrow> getNode w' k = map_option (rename_in_node access old new) (getNode w k))
    \<and> links (wf_bySource w') = {((rename_name old new a, ty, i), (rename_name old new b, bty, j)) | a ty i b bty j.
        ((a, ty, i), (b, bty, j)) \<in> links (wf_bySource w)}"
proof -
  obtain w' where w': "renameNode access old new w = Inr w'" using renameNode_total [OF assms(1)] by blast
  note get = renameNode_getNode [OF w']
  from w' links_renameNode [OF w' assms(2,4)] assms(3,4) show ?thesis by (intro exI [of _ w']) (simp add: get)
qed

theorem renameNode_correct_witness:
  "\<exists>w'. renameNode no_access ''B'' ''X'' sample_workflow = Inr w' \<and> map_option n_ref (getNode w' ''X'') = Some 2
    \<and> getNode w' ''B'' = None"
proof -
  have h: "to_lower ''X'' \<notin> set (map to_lower restrictedKeys)" "''X'' \<notin> fst ` set (wf_bySource sample_workflow)"
    "getNode sample_workflow ''B'' = Some nodeB" by code_simp+
  have n: "''B'' \<noteq> ''X''" by simp
  have v: "n_ref (rename_in_node no_access ''B'' ''X'' (nodeB\<lparr>n_name := ''X''\<rparr>)) = 2" by code_simp
  from renameNode_correct [OF h n, of no_access] obtain w' where
    "renameNode no_access ''B'' ''X'' sample_workflow = Inr w'" "getNode w' ''B'' = None"
    "getNode w' ''X'' = Some (rename_in_node no_access ''B'' ''X'' (nodeB\<lparr>n_name := ''X''\<rparr>))" by (elim exE conjE)
  with v show ?thesis by (intro exI [of _ w']) simp
qed

text \<open>
  \<^verbatim>\<open>renameNode\<close> updates the connections by source only: afterwards the two connection objects of the class disagree
  (\<^verbatim>\<open>connectionsByDestinationNode\<close> still names the old node), so that \<^verbatim>\<open>getParentNodes\<close> of the renamed node is empty and its
  children still have the old name as a parent.
\<close>

theorem renameNode_stale_destinations:
  "case renameNode no_access ''B'' ''X'' sample_workflow of
     Inr w' \<Rightarrow> wf_byDest w' = wf_byDest sample_workflow
       \<and> getChildNodes (wf_bySource w') ''A'' (OfType Main) 1 = [''X'', ''X'']
       \<and> getParentNodes (wf_byDest w') ''X'' (OfType Main) 1 = []
       \<and> getParentNodes (wf_byDest w') ''C'' (OfType Main) 1 = [''B'']
   | Inl _ \<Rightarrow> False"
  by code_simp

text \<open>
  Renaming a node to the name it has removes it from the workflow: the entry is written and then deleted.
\<close>

theorem renameNode_same_name_deletes:
  assumes "to_lower a \<notin> set (map to_lower restrictedKeys)"
  shows "\<exists>w'. renameNode access a a w = Inr w' \<and> getNode w' a = None"
  using renameNode_total [OF assms] renameNode_same by blast

theorem renameNode_same_name_deletes_witness:
  "getNode sample_workflow ''B'' = Some nodeB \<and>
    (\<exists>w'. renameNode no_access ''B'' ''B'' sample_workflow = Inr w' \<and> getNode w' ''B'' = None)"
proof -
  have h: "to_lower ''B'' \<notin> set (map to_lower restrictedKeys)" "getNode sample_workflow ''B'' = Some nodeB" by code_simp+
  from renameNode_same_name_deletes [OF h(1)] h(2) show ?thesis by blast
qed

section \<open>Searches\<close>

text \<open>
  \<^verbatim>\<open>searchNodesBFS\<close> returns every other node within the depth once, and the \<open>depth\<close> of a returned node is its
  distance.
\<close>

theorem searchNodesBFS_distances:
  assumes "- 1 \<le> m"
  shows "distinct (map cn_name (searchNodesBFS cs s m)) \<and>
     cn_name ` set (searchNodesBFS cs s m) = {n. n \<noteq> s \<and> (\<exists>k. (m = - 1 \<or> int k \<le> m) \<and> (s, n) \<in> main_next cs ^^ k)} \<and>
     (\<forall>e\<in>set (searchNodesBFS cs s m). is_dist (main_next cs) s (cn_name e) (cn_depth e))"
  by (rule searchNodesBFS_spec [OF assms])

theorem searchNodesBFS_distances_witness:
  "is_dist (main_next sample_conns) ''A'' ''C'' 2"
proof -
  have v: "\<lparr>cn_name = ''C'', cn_indicies = [0], cn_depth = 2\<rparr> \<in> set (searchNodesBFS sample_conns ''A'' (- 1))"
    by code_simp
  from searchNodesBFS_distances [of "- 1" sample_conns "''A''"] v show ?thesis by force
qed

text \<open>
  \<^verbatim>\<open>getNodeConnectionIndexes\<close> terminates on every workflow; for a parent that exists it returns \<^verbatim>\<open>undefined\<close>
  exactly when no connections of the type lead back from the node to it, and otherwise the output of the parent and the position of a
  connection of a node on such a walk.
\<close>

theorem getNodeConnectionIndexes_correct:
  assumes "getNode w p \<noteq> None"
  shows "case getNodeConnectionIndexes w n p t of
     None \<Rightarrow> (n, p) \<notin> (follow (wf_byDest w) (OfType t))\<^sup>+
   | Some r \<Rightarrow> \<exists>x. (n, x) \<in> (follow (wf_byDest w) (OfType t))\<^sup>* \<and> hit (wf_byDest w) t x p r"
proof -
  have "getNodeConnectionIndexes w n p t = indexes_loop (wf_byDest w) p t [] [n]"
    using assms by (auto simp: getNodeConnectionIndexes_def)
  then show ?thesis
    using indexes_loop_None [of "wf_byDest w" p t "[]" "[n]" n] indexes_loop_Some [of "wf_byDest w" p t "[]" "[n]"]
    by (auto split: option.split)
qed

theorem getNodeConnectionIndexes_correct_witness:
  "getNodeConnectionIndexes sample_workflow ''C'' ''A'' Main = Some (0, 0) \<and>
    (\<exists>x. (''C'', x) \<in> (follow (wf_byDest sample_workflow) (OfType Main))\<^sup>* \<and> hit (wf_byDest sample_workflow) Main x ''A'' (0, 0))"
proof -
  have h: "getNode sample_workflow ''A'' \<noteq> None" by code_simp
  have v: "getNodeConnectionIndexes sample_workflow ''C'' ''A'' Main = Some (0, 0)" by code_simp
  from getNodeConnectionIndexes_correct [OF h, of "''C''" Main] v show ?thesis by simp
qed

text \<open>
  \<^verbatim>\<open>getHighestNode\<close> terminates, cycles included, and every node it returns exists, is not disabled and is the node
  or one of its ancestors over main connections.
\<close>

theorem getHighestNode_sound:
  "list_all (\<lambda>m. enabled_node w m \<and> (n, m) \<in> (main_next (wf_byDest w))\<^sup>*) (getHighestNode w n i)"
proof -
  have loop: "enabled_node w m \<and> (n, m) \<in> (main_next (wf_byDest w))\<^sup>*"
    if m: "m \<in> set (fst (highest_loop w cs [] [n]))" and cs: "set cs \<subseteq> set (index_conns l)" "main_inputs w n = Some l" for m cs l
  proof -
    from highest_loop_sound [OF m] obtain c where c: "enabled_node w m" "c \<in> set cs" "(ic_node c, m) \<in> (main_next (wf_byDest w))\<^sup>*"
      by auto
    with cs(1) main_inputs_follow [OF cs(2)] have "(n, ic_node c) \<in> main_next (wf_byDest w)" by auto
    with c show ?thesis by (auto intro: converse_rtrancl_into_rtrancl)
  qed
  have sel: "set (index_conns (case i of None \<Rightarrow> l | Some i \<Rightarrow> (case arr_get l i of None \<Rightarrow> [] | Some x \<Rightarrow> [x]))) \<subseteq> set (index_conns l)" for l
    by (auto simp: index_conns_def arr_get_def split: option.splits if_splits) (metis nth_mem option.simps(5) id_apply)+
  show ?thesis
  proof (cases "getNode w n = None \<or> main_inputs w n = None")
    case True
    then show ?thesis using highest_self_enabled [of _ w n] by (fastforce simp: getHighestNode_def list_all_iff)
  next
    case False
    then obtain l where l: "main_inputs w n = Some l" by blast
    with False loop [OF _ sel l] show ?thesis by (simp add: getHighestNode_def list_all_iff Let_def)
  qed
qed

section \<open>A search that does not return\<close>

text \<open>Two nodes connected to each other over a connection type that is not main.\<close>

definition tool_type :: node_type where
  "tool_type = \<lparr>nt_name = ''tool'', nt_group = [], nt_trigger = False, nt_poll = False, nt_outputs = Some (OutputList [OutputName AiTool])\<rparr>"

definition tool_cycle :: workflow where
  "tool_cycle = new_workflow (\<lambda>_ _. None) (\<lambda>_ _. None) [nodeA, nodeB]
     [(''A'', [(AiTool, [Some [\<lparr>ic_node = ''B'', ic_type = AiTool, ic_index = 0\<rparr>]])]),
      (''B'', [(AiTool, [Some [\<lparr>ic_node = ''A'', ic_type = AiTool, ic_index = 0\<rparr>]])])] None []"

lemma tool_cycle_step:
  "getNode tool_cycle ''A'' = Some nodeA" "getNode tool_cycle ''B'' = Some nodeB"
  "nonMainNodesConnected (\<lambda>_. [AiTool]) tool_cycle nodeA = [''B'']"
  "nonMainNodesConnected (\<lambda>_. [AiTool]) tool_cycle nodeB = [''A'']"
  by code_simp+

text \<open>
  \<^verbatim>\<open>getParentMainInputNode\<close> does not return on two nodes that are connected to each other over a connection type that is not
  main: the recursion keeps no record of the nodes it has seen.
\<close>

theorem getParentMainInputNode_diverges:
  "getParentMainInputNode (\<lambda>_ _. Some tool_type) (\<lambda>_. [AiTool]) tool_cycle nodeA = None"
proof -
  let ?t = "\<lambda>_ _. Some tool_type" and ?o = "\<lambda>_. [AiTool]"
  have inv: "ty = ?t \<longrightarrow> ou = ?o \<longrightarrow> w = tool_cycle \<longrightarrow> n \<noteq> nodeA \<and> n \<noteq> nodeB"
    if "getParentMainInputNode ty ou w n = Some y" for ty ou w n y
  proof (rule getParentMainInputNode.raw_induct [where P = "\<lambda>ty ou w n y. ty = ?t \<longrightarrow> ou = ?o \<longrightarrow> w = tool_cycle \<longrightarrow> n \<noteq> nodeA \<and> n \<noteq> nodeB", OF _ that])
    fix f ty ou w n y
    assume IH: "\<And>ty ou w n y. f ty ou w n = Some y \<Longrightarrow>
        ty = ?t \<longrightarrow> ou = ?o \<longrightarrow> w = tool_cycle \<longrightarrow> n \<noteq> nodeA \<and> n \<noteq> nodeB"
      and b: "(if Option.bind (ty (n_type n) (n_typeVersion n)) nt_outputs = None then Some (Inr n)
        else case nonMainNodesConnected ou w n of [] \<Rightarrow> Some (Inr n)
          | m # _ \<Rightarrow> (case getNode w m of None \<Rightarrow> Some (Inl (ApplicationError ''Node not found''))
              | Some r \<Rightarrow> f ty ou w r)) = Some y"
    show "ty = ?t \<longrightarrow> ou = ?o \<longrightarrow> w = tool_cycle \<longrightarrow> n \<noteq> nodeA \<and> n \<noteq> nodeB"
      using b IH [of ?t ?o tool_cycle nodeA y] IH [of ?t ?o tool_cycle nodeB y]
      by (auto simp: tool_cycle_step tool_type_def)
  qed
  show ?thesis
  proof (cases "getParentMainInputNode ?t ?o tool_cycle nodeA")
    case (Some y)
    from inv [OF this] show ?thesis by simp
  qed
qed

end
