(* ===== verification/Engine_State.thy ===== *)
theory Engine_State
  imports Workflow_Class Run_Data_Queries
begin

text \<open>
  The state of an execution (\<^verbatim>\<open>WorkflowExecute\<close> in
  \<^verbatim>\<open>packages/core/src/execution-engine/workflow-execute.ts\<close>) and the small operations on it: the
  stack of nodes to execute, the entries of nodes that wait for inputs, the run data, the status.
  \<^verbatim>\<open>null\<close>, \<^verbatim>\<open>undefined\<close> and a hole in an array of inputs are one value, \<open>None\<close>.
\<close>

section \<open>State\<close>

text \<open>The lifecycle hooks that are called, with the node they are called for.\<close>

datatype hook_event = NodeExecuteBefore string | NodeExecuteAfter string

text \<open>
  The parts of \<^verbatim>\<open>runExecutionData\<close>, \<^verbatim>\<open>additionalData\<close> and the class the engine reads or writes;
  \<open>en_calls\<close> counts the calls of node code, whose results are a parameter of the model.
\<close>

record engine =
  en_workflow :: workflow
  en_v1 :: bool
  en_stack :: "exec_data list"
  en_waiting :: waiting
  en_waitingSource :: waiting_source
  en_runData :: run_data
  en_pinData :: "pin_data option"
  en_metadata :: "metadata list obj"
  en_lastNode :: "string option"
  en_error :: "string option"
  en_waitTill :: bool
  en_runNodeFilter :: "string list option"
  en_destination :: "(string \<times> bool) option"
  en_execIndex :: nat
  en_status :: exec_status
  en_calls :: nat
  en_log :: "hook_event list"

text \<open>A loop whose body changes the state or throws; what was done before the error remains.\<close>

fun foldS :: "('a \<Rightarrow> 's \<Rightarrow> 's res) \<Rightarrow> 'a list \<Rightarrow> 's \<Rightarrow> 's \<times> js_error option" where
  "foldS f [] s = (s, None)"
| "foldS f (x # xs) s = (case f x s of Inl err \<Rightarrow> (s, Some err) | Inr s' \<Rightarrow> foldS f xs s')"

lemma foldS_invariant:
  assumes "I s" and "\<And>x a b. x \<in> set xs \<Longrightarrow> I a \<Longrightarrow> f x a = Inr b \<Longrightarrow> I b"
  shows "I (fst (foldS f xs s))"
  using assms
proof (induction xs arbitrary: s)
  case (Cons x xs)
  show ?case
  proof (cases "f x s")
    case (Inr s')
    with Cons.prems have "I s'" by auto
    then have "I (fst (foldS f xs s'))" by (rule Cons.IH) (use Cons.prems(2) in auto)
    with Inr show ?thesis by simp
  qed (use Cons.prems in simp)
qed simp

section \<open>Small operations\<close>

definition isLegacyExecutionOrder :: "engine \<Rightarrow> bool" where
  "isLegacyExecutionOrder e = (\<not> en_v1 e)"

text \<open>\<^verbatim>\<open>nodeExecutionStack[enqueueFn](item)\<close>: to the front in the order \<^verbatim>\<open>v1\<close>, else to the back.\<close>

definition enqueue :: "exec_data \<Rightarrow> engine \<Rightarrow> engine" where
  "enqueue item e = e\<lparr>en_stack := (if en_v1 e then item # en_stack e else en_stack e @ [item])\<rparr>"

definition incomingConnectionIsEmpty :: "run_data \<Rightarrow> iconn list \<Rightarrow> nat \<Rightarrow> bool" where
  "incomingConnectionIsEmpty runData inputConnections runIndex =
     list_all (\<lambda>inputConnection.
       case run_output runData (ic_node inputConnection) runIndex Main (ic_index inputConnection) of
         None \<Rightarrow> True | Some items \<Rightarrow> length items = 0) inputConnections"

text \<open>\<^verbatim>\<open>{...a, ...b}\<close> on metadata: the properties that are present in the second win.\<close>

definition or_else :: "'a option \<Rightarrow> 'a option \<Rightarrow> 'a option" where
  "or_else a b = (case b of None \<Rightarrow> a | Some x \<Rightarrow> Some x)"

definition spread :: "('k, 'v) jsmap \<Rightarrow> ('k, 'v) jsmap \<Rightarrow> ('k, 'v) jsmap" where
  "spread a b = foldl (\<lambda>m (k, v). mset_at k v m) a b"

definition merge_metadata :: "metadata \<Rightarrow> metadata \<Rightarrow> metadata" where
  "merge_metadata a b =
     \<lparr>md_subNodeExecutionData = or_else (md_subNodeExecutionData a) (md_subNodeExecutionData b),
      md_preserveSourceOverwrite = or_else (md_preserveSourceOverwrite a) (md_preserveSourceOverwrite b),
      md_preservedSourceOverwrite = or_else (md_preservedSourceOverwrite a) (md_preservedSourceOverwrite b),
      md_nodeWasResumed = or_else (md_nodeWasResumed a) (md_nodeWasResumed b),
      md_tracing = or_else (md_tracing a) (md_tracing b),
      md_rest = spread (md_rest a) (md_rest b)\<rparr>"

text \<open>The metadata of one run moves into the run data; without task data an error is only reported.\<close>

definition move_metadata_of :: "string \<Rightarrow> nat \<times> metadata \<Rightarrow> run_data \<Rightarrow> run_data" where
  "move_metadata_of nodeName p runData = (case p of (index, metaRunData) \<Rightarrow>
     (case mget runData nodeName of
        None \<Rightarrow> runData
      | Some runs \<Rightarrow>
          if index < length runs
          then mset_at nodeName (runs[index := (runs ! index)\<lparr>td_metadata :=
                 Some (merge_metadata (case_option empty_metadata id (td_metadata (runs ! index))) metaRunData)\<rparr>]) runData
          else runData))"

definition moveNodeMetadata :: "engine \<Rightarrow> engine" where
  "moveNodeMetadata e = e\<lparr>en_runData := foldl (\<lambda>rd (nodeName, ms).
     foldl (\<lambda>rd p. move_metadata_of nodeName p rd) rd (enumerate0 ms)) (en_runData e) (obj_entries (en_metadata e))\<rparr>"

definition updateTaskStatusesToCancelled :: "engine \<Rightarrow> engine" where
  "updateTaskStatusesToCancelled e = e\<lparr>en_runData := map (\<lambda>(nodeName, runs).
     (nodeName, map (\<lambda>td. if td_status td = Some StRunning then td\<lparr>td_status := Some StCanceled\<rparr> else td) runs))
     (en_runData e)\<rparr>"

text \<open>A change of a node object is seen wherever the object is: in the workflow and on the stack.\<close>

definition update_node :: "nat \<Rightarrow> (inode \<Rightarrow> inode) \<Rightarrow> engine \<Rightarrow> engine" where
  "update_node ref f e = e\<lparr>
     en_workflow := (en_workflow e)\<lparr>wf_nodes := map (\<lambda>(k, n). (k, if n_ref n = ref then f n else n)) (wf_nodes (en_workflow e))\<rparr>,
     en_stack := map (\<lambda>d. if n_ref (ed_node d) = ref then d\<lparr>ed_node := f (ed_node d)\<rparr> else d) (en_stack e)\<rparr>"

text \<open>
  \<^verbatim>\<open>handleWaitingState\<close>: the node that put the execution into waiting is disabled and its last run removed.
\<close>

definition handleWaitingState :: "engine \<Rightarrow> engine \<times> js_error option" where
  "handleWaitingState e =
     (if \<not> en_waitTill e then (e, None)
      else
        let e = e\<lparr>en_waitTill := False\<rparr> in
        case en_stack e of
          [] \<Rightarrow> (e, Some (TypeError ''node''))
        | entry # _ \<Rightarrow>
            let e = update_node (n_ref (ed_node entry)) (\<lambda>n. n\<lparr>n_disabled := Some True\<rparr>) e in
            (case Option.bind (en_lastNode e) (mget (en_runData e)) of
               None \<Rightarrow> (e, Some (TypeError ''pop''))
             | Some runs \<Rightarrow> (e\<lparr>en_runData := mset_at (the (en_lastNode e)) (butlast runs) (en_runData e)\<rparr>, None)))"

section \<open>Issues\<close>

text \<open>
  \<open>issues\<close> is \<^verbatim>\<open>NodeHelpers.getNodeParametersIssues\<close>; an unknown type is an issue of its own. The
  result lists the nodes with issues, \<open>None\<close> when there are none.
\<close>

definition checkReadyForExecution ::
  "node_types \<Rightarrow> (inode \<Rightarrow> string list \<Rightarrow> json option) \<Rightarrow> workflow \<Rightarrow> string option \<Rightarrow> (string \<times> bool) option \<Rightarrow> string list
    \<Rightarrow> json obj option" where
  "checkReadyForExecution types issues w startNode destinationNode pinDataNodeNames =
     (let checkNodes = (case destinationNode of
          Some (d, inclusive) \<Rightarrow> getParentNodes (wf_byDest w) d (OfType Main) (- 1) @ (if inclusive then [d] else [])
        | None \<Rightarrow> (case startNode of
            Some s \<Rightarrow> if s = [] then [] else getChildNodes (wf_bySource w) s (OfType Main) (- 1) @ [s]
          | None \<Rightarrow> []));
          workflowIssues = foldl (\<lambda>acc nodeName. case mget (wf_nodes w) nodeName of
              None \<Rightarrow> acc
            | Some node \<Rightarrow>
                if n_disabled node = Some True then acc
                else (case (case types (n_type node) (n_typeVersion node) of
                         None \<Rightarrow> Some (JObj [(''typeUnknown'', JBool True)])
                       | Some _ \<Rightarrow> issues node pinDataNodeNames) of
                    None \<Rightarrow> acc
                  | Some nodeIssues \<Rightarrow> mset_at (n_name node) nodeIssues acc)) [] checkNodes
      in if length (obj_keys workflowIssues) = 0 then None else Some workflowIssues)"

definition checkForWorkflowIssues ::
  "node_types \<Rightarrow> (inode \<Rightarrow> string list \<Rightarrow> json option) \<Rightarrow> engine \<Rightarrow> unit res" where
  "checkForWorkflowIssues types issues e =
     (let startNode = (case en_stack e of [] \<Rightarrow> None | d # _ \<Rightarrow> Some (n_name (ed_node d)));
          pinDataNodeNames = obj_keys (case_option [] id (en_pinData e))
      in case checkReadyForExecution types issues (en_workflow e) startNode (en_destination e) pinDataNodeNames of
           None \<Rightarrow> Inr () | Some _ \<Rightarrow> Inl WorkflowHasIssues)"

section \<open>Waiting entries\<close>

definition entries_of :: "engine \<Rightarrow> string \<Rightarrow> (nat, task_data_conns) jsmap" where
  "entries_of e nodeName = (case mget (en_waiting e) nodeName of None \<Rightarrow> [] | Some m \<Rightarrow> m)"

definition sources_of :: "engine \<Rightarrow> string \<Rightarrow> (nat, source_data option list obj) jsmap" where
  "sources_of e nodeName = (case mget (en_waitingSource e) nodeName of None \<Rightarrow> [] | Some m \<Rightarrow> m)"

text \<open>\<^verbatim>\<open>entry.main\<close>\<close>

definition main_of :: "'a list obj \<Rightarrow> 'a list" where
  "main_of d = (case mget d Main of None \<Rightarrow> [] | Some l \<Rightarrow> l)"

definition waiting_main :: "engine \<Rightarrow> string \<Rightarrow> nat \<Rightarrow> items option list" where
  "waiting_main e nodeName k = (case mget (entries_of e nodeName) k of None \<Rightarrow> [] | Some d \<Rightarrow> main_of d)"

definition source_main :: "engine \<Rightarrow> string \<Rightarrow> nat \<Rightarrow> source_data option list" where
  "source_main e nodeName k = (case mget (sources_of e nodeName) k of None \<Rightarrow> [] | Some d \<Rightarrow> main_of d)"

definition put_waiting :: "string \<Rightarrow> nat \<Rightarrow> items option list \<Rightarrow> engine \<Rightarrow> engine" where
  "put_waiting nodeName k main e =
     e\<lparr>en_waiting := mset_at nodeName (mset_at k [(Main, main)] (entries_of e nodeName)) (en_waiting e)\<rparr>"

definition put_source :: "string \<Rightarrow> nat \<Rightarrow> source_data option list \<Rightarrow> engine \<Rightarrow> engine" where
  "put_source nodeName k main e =
     e\<lparr>en_waitingSource := mset_at nodeName (mset_at k [(Main, main)] (sources_of e nodeName)) (en_waitingSource e)\<rparr>"

text \<open>\<^verbatim>\<open>entry.main[i] = x\<close>: the other connection types of the entry stay.\<close>

definition set_input :: "string \<Rightarrow> nat \<Rightarrow> nat \<Rightarrow> items option \<Rightarrow> source_data option \<Rightarrow> engine \<Rightarrow> engine" where
  "set_input nodeName k i x src e =
     e\<lparr>en_waiting := mset_at nodeName (mset_at k
          (mset_at Main (arr_put i x (waiting_main e nodeName k)) (case_option [] id (mget (entries_of e nodeName) k)))
          (entries_of e nodeName)) (en_waiting e),
       en_waitingSource := mset_at nodeName (mset_at k
          (mset_at Main (arr_put i src (source_main e nodeName k)) (case_option [] id (mget (sources_of e nodeName) k)))
          (sources_of e nodeName)) (en_waitingSource e)\<rparr>"

definition prepareWaitingToExecution :: "string \<Rightarrow> nat \<Rightarrow> nat \<Rightarrow> engine \<Rightarrow> engine" where
  "prepareWaitingToExecution nodeName numberOfConnections runIndex e =
     put_source nodeName runIndex (replicate numberOfConnections None)
       (put_waiting nodeName runIndex (replicate numberOfConnections None) e)"

text \<open>Deleting an entry, and with its last entry the node.\<close>

definition remove_waiting :: "string \<Rightarrow> nat \<Rightarrow> engine \<Rightarrow> engine" where
  "remove_waiting nodeName k e =
     (let waiting = mdel k (entries_of e nodeName);
          sources = mdel k (sources_of e nodeName)
      in if length waiting = 0
         then e\<lparr>en_waiting := mdel nodeName (en_waiting e), en_waitingSource := mdel nodeName (en_waitingSource e)\<rparr>
         else e\<lparr>en_waiting := mset_at nodeName waiting (en_waiting e),
                en_waitingSource := mset_at nodeName sources (en_waitingSource e)\<rparr>)"

end
