(* ===== verification/Engine_Waiting.thy ===== *)
theory Engine_Waiting
  imports Engine_State
begin

text \<open>
  \<^verbatim>\<open>addNodeToBeExecuted\<close>: the output of a node goes to a successor, at once to the stack when the successor
  has one input, and to its waiting entries until all inputs have data when it has more. Waiting entries
  implement one queue per input; an execution takes the head of every queue.
\<close>

section \<open>Definitions\<close>

definition numberOfInputs :: "engine \<Rightarrow> string \<Rightarrow> nat" where
  "numberOfInputs e nodeName = length (cells (wf_byDest (en_workflow e)) nodeName Main)"

text \<open>\<^verbatim>\<open>nodeSuccessData[outputIndex]\<close> and the source of the data; both are \<^verbatim>\<open>null\<close> for \<^verbatim>\<open>null\<close>.\<close>

definition output_data :: "items option list option \<Rightarrow> nat \<Rightarrow> items option" where
  "output_data nodeSuccessData outputIndex = Option.bind nodeSuccessData (\<lambda>d. Option.bind (arr_get d outputIndex) id)"

definition output_source :: "items option list option \<Rightarrow> string \<Rightarrow> nat \<Rightarrow> nat \<Rightarrow> source_data option" where
  "output_source nodeSuccessData parentNodeName outputIndex runIndex = (case nodeSuccessData of None \<Rightarrow> None
     | Some _ \<Rightarrow> Some \<lparr>s_previousNode = parentNodeName, s_previousNodeOutput = Some outputIndex, s_previousNodeRun = Some runIndex\<rparr>)"

text \<open>The first waiting entry without data for the input.\<close>

definition has_input :: "'a option list \<Rightarrow> nat \<Rightarrow> bool" where
  "has_input main i = (case arr_get main i of Some (Some _) \<Rightarrow> True | _ \<Rightarrow> False)"

definition free_entry :: "engine \<Rightarrow> string \<Rightarrow> nat \<Rightarrow> nat option" where
  "free_entry e nodeName i = find (\<lambda>k. \<not> has_input (waiting_main e nodeName k) i) (int_keys (entries_of e nodeName))"

text \<open>Finding or creating the entry and writing the data: the state and the index of the entry.\<close>

definition add_waiting_data ::
  "iconn \<Rightarrow> nat \<Rightarrow> string \<Rightarrow> items option list option \<Rightarrow> nat \<Rightarrow> engine \<Rightarrow> engine \<times> nat" where
  "add_waiting_data connectionData outputIndex parentNodeName nodeSuccessData runIndex e =
     (let nodeName = ic_node connectionData;
          e = (if mhas (en_waiting e) nodeName then e
               else e\<lparr>en_waiting := mset_at nodeName [] (en_waiting e), en_waitingSource := mset_at nodeName [] (en_waitingSource e)\<rparr>);
          free = free_entry e nodeName (ic_index connectionData);
          waitingNodeIndex = (case free of Some k \<Rightarrow> k | None \<Rightarrow> length (entries_of e nodeName));
          e = (if free = None then prepareWaitingToExecution nodeName (numberOfInputs e nodeName) waitingNodeIndex e else e)
      in (set_input nodeName waitingNodeIndex (ic_index connectionData) (output_data nodeSuccessData outputIndex)
            (output_source nodeSuccessData parentNodeName outputIndex runIndex) e, waitingNodeIndex))"

text \<open>All inputs have data: the entry moves to the stack.\<close>

definition release_entry :: "inode \<Rightarrow> string \<Rightarrow> nat \<Rightarrow> engine \<Rightarrow> engine" where
  "release_entry node nodeName k e = remove_waiting nodeName k (enqueue
     \<lparr>ed_node = node, ed_data = case_option [] id (mget (entries_of e nodeName) k),
      ed_source = Some (case_option [] id (mget (sources_of e nodeName) k)), ed_runIndex = None, ed_metadata = None\<rparr> e)"

text \<open>The node to add for an input that no other node will feed: the highest ancestor not yet run.\<close>

fun highest_unrun :: "engine \<Rightarrow> string list \<Rightarrow> string list \<Rightarrow> string \<Rightarrow> string list \<Rightarrow> string option \<Rightarrow> string option" where
  "highest_unrun e checkOutputNodes stackNodes inputNode [] nodeToAdd = nodeToAdd"
| "highest_unrun e checkOutputNodes stackNodes inputNode (parentNode # ps) nodeToAdd =
     (if inputNode \<noteq> parentNode \<and> parentNode \<in> set checkOutputNodes then None
      else if parentNode \<in> set stackNodes then None
      else if mhas (en_runData e) parentNode then nodeToAdd
      else highest_unrun e checkOutputNodes stackNodes inputNode ps (Some parentNode))"

text \<open>\<^verbatim>\<open>connectionsByDestinationNode[node].main[0] ?? []\<close>\<close>

definition first_inputs :: "engine \<Rightarrow> string \<Rightarrow> iconn list res" where
  "first_inputs e nodeName = (case Option.bind (mget (wf_byDest (en_workflow e)) nodeName) (\<lambda>t. mget t Main) of
     None \<Rightarrow> Inl (TypeError ''main'')
   | Some byIndex \<Rightarrow> Inr (case arr_get byIndex 0 of Some (Some l) \<Rightarrow> l | _ \<Rightarrow> []))"

text \<open>One other connection into the waiting node, in the legacy order: its source may have to be added.\<close>

definition empty_item_entry :: "inode \<Rightarrow> string \<Rightarrow> nat \<Rightarrow> nat \<Rightarrow> exec_data" where
  "empty_item_entry node parentNodeName outputIndex runIndex =
     \<lparr>ed_node = node, ed_data = [(Main, [Some [json_item []]])],
      ed_source = Some [(Main, [Some \<lparr>s_previousNode = parentNodeName, s_previousNodeOutput = Some outputIndex,
        s_previousNodeRun = Some runIndex\<rparr>])], ed_runIndex = None, ed_metadata = None\<rparr>"

definition force_source ::
  "string list \<Rightarrow> nat \<Rightarrow> string \<Rightarrow> items option list option \<Rightarrow> nat \<Rightarrow> string \<Rightarrow> engine \<Rightarrow> engine res" where
  "force_source checkOutputNodes outputIndex parentNodeName nodeSuccessData runIndex inputNode e =
     (let w = en_workflow e;
          stackNodes = map (\<lambda>d. n_name (ed_node d)) (en_stack e);
          parentNodes = rev (getParentNodes (wf_byDest w) inputNode (OfType Main) (- 1) @ [inputNode]);
          nodeToAdd = highest_unrun e checkOutputNodes stackNodes inputNode parentNodes (Some inputNode);
          ancestors = (case nodeToAdd of None \<Rightarrow> [] | Some n \<Rightarrow> getParentNodes (wf_byDest w) n (OfType Main) (- 1))
      in bindE (if parentNodeName \<in> set ancestors
                then (case output_data nodeSuccessData outputIndex of
                        None \<Rightarrow> Inl (TypeError ''length'')
                      | Some items \<Rightarrow> Inr (if length items = 0 then None else nodeToAdd))
                else Inr nodeToAdd) (\<lambda>nodeToAdd.
         case nodeToAdd of
           None \<Rightarrow> Inr e
         | Some n \<Rightarrow>
             bindE (if \<not> mhas (wf_byDest w) n then Inr True
                    else bindE (first_inputs e n) (\<lambda>l. Inr (incomingConnectionIsEmpty (en_runData e) l runIndex))) (\<lambda>addEmptyItem.
             if addEmptyItem
             then (case getNode w n of
                     None \<Rightarrow> Inl (TypeError ''name'')
                   | Some node \<Rightarrow> Inr (enqueue (empty_item_entry node parentNodeName outputIndex runIndex) e))
             else Inr e)))"

definition check_input ::
  "string list \<Rightarrow> nat \<Rightarrow> string \<Rightarrow> items option list option \<Rightarrow> nat \<Rightarrow> iconn \<Rightarrow> engine \<Rightarrow> engine res" where
  "check_input checkOutputNodes outputIndex parentNodeName nodeSuccessData runIndex inputData e =
     (if ic_node inputData = parentNodeName then Inr e
      else bindE (if ic_node inputData \<in> set checkOutputNodes
             then bindE (first_inputs e (ic_node inputData)) (\<lambda>l. Inr (\<not> incomingConnectionIsEmpty (en_runData e) l runIndex))
             else Inr False) (\<lambda>addedAnyway.
        if addedAnyway then Inr e
        else if ic_node inputData \<in> set (map (\<lambda>d. n_name (ed_node d)) (en_stack e)) then Inr e
        else if mhas (en_runData e) (ic_node inputData) then Inr e
        else if \<not> isLegacyExecutionOrder e then Inr e
        else force_source checkOutputNodes outputIndex parentNodeName nodeSuccessData runIndex (ic_node inputData) e))"

text \<open>The loop over all connections into the node, the first time it waits.\<close>

definition check_inputs ::
  "iconn \<Rightarrow> nat \<Rightarrow> string \<Rightarrow> items option list option \<Rightarrow> nat \<Rightarrow> engine \<Rightarrow> engine \<times> js_error option" where
  "check_inputs connectionData outputIndex parentNodeName nodeSuccessData runIndex e =
     (let w = en_workflow e in
      if \<not> mhas (wf_bySource w) parentNodeName then (e, Some (TypeError ''main''))
      else
        let checkOutputNodes = map ic_node (index_conns (cells (wf_bySource w) parentNodeName Main))
        in foldS (check_input checkOutputNodes outputIndex parentNodeName nodeSuccessData runIndex)
             (index_conns (cells (wf_byDest w) (ic_node connectionData) Main)) e)"

text \<open>The end of the function: the data stays waiting, or goes directly to the stack.\<close>

definition keep_waiting :: "iconn \<Rightarrow> nat \<Rightarrow> items option list option \<Rightarrow> nat \<Rightarrow> engine \<Rightarrow> engine" where
  "keep_waiting connectionData outputIndex nodeSuccessData waitingNodeIndex e =
     (let nodeName = ic_node connectionData;
          connectionDataArray = arr_put (ic_index connectionData) (output_data nodeSuccessData outputIndex)
            (waiting_main e nodeName waitingNodeIndex);
          waitingExecutionSource = source_main e nodeName waitingNodeIndex;
          e = prepareWaitingToExecution nodeName (numberOfInputs e nodeName) waitingNodeIndex e
      in put_source nodeName waitingNodeIndex waitingExecutionSource
           (put_waiting nodeName waitingNodeIndex connectionDataArray e))"

definition add_to_stack ::
  "iconn \<Rightarrow> nat \<Rightarrow> string \<Rightarrow> items option list option \<Rightarrow> nat \<Rightarrow> nat option \<Rightarrow> metadata option \<Rightarrow> engine \<Rightarrow> engine" where
  "add_to_stack connectionData outputIndex parentNodeName nodeSuccessData runIndex newRunIndex metadata e =
     (case getNode (en_workflow e) (ic_node connectionData) of
        None \<Rightarrow> e
      | Some node \<Rightarrow> enqueue
          \<lparr>ed_node = node,
           ed_data = [(Main, arr_put (ic_index connectionData) (output_data nodeSuccessData outputIndex) [])],
           ed_source = Some [(Main, [Some \<lparr>s_previousNode = parentNodeName, s_previousNodeOutput = Some outputIndex,
             s_previousNodeRun = Some runIndex\<rparr>])],
           ed_runIndex = newRunIndex, ed_metadata = metadata\<rparr> e)"

definition addNodeToBeExecuted ::
  "iconn \<Rightarrow> nat \<Rightarrow> string \<Rightarrow> items option list option \<Rightarrow> nat \<Rightarrow> nat option \<Rightarrow> metadata option \<Rightarrow> engine
    \<Rightarrow> engine \<times> js_error option" where
  "addNodeToBeExecuted connectionData outputIndex parentNodeName nodeSuccessData runIndex newRunIndex metadata e =
     (let nodeName = ic_node connectionData in
      if numberOfInputs e nodeName > 1 then
        let nodeWasWaiting = mhas (en_waiting e) nodeName;
            (e1, k) = add_waiting_data connectionData outputIndex parentNodeName nodeSuccessData runIndex e
        in if None \<notin> set (waiting_main e1 nodeName k)
           then (case getNode (en_workflow e1) nodeName of
                   None \<Rightarrow> (e1, Some (TypeError ''name''))
                 | Some node \<Rightarrow> (release_entry node nodeName k e1, None))
           else
             let (e2, err) = (if nodeWasWaiting then (e1, None)
               else check_inputs connectionData outputIndex parentNodeName nodeSuccessData runIndex e1)
             in case err of
                  Some _ \<Rightarrow> (e2, err)
                | None \<Rightarrow> (keep_waiting connectionData outputIndex nodeSuccessData k e2, None)
      else (add_to_stack connectionData outputIndex parentNodeName nodeSuccessData runIndex newRunIndex metadata e, None))"

end
