(* ===== verification/Join_Queues.thy ===== *)
theory Join_Queues
  imports N8n_Prelude
begin

text \<open>
  The contract of a node with several inputs: one queue of data per input; the node runs on the heads of
  all queues as soon as none is empty. Rows of inputs implement the queues: data goes to the first row
  whose input is free, and the first row is taken when it is full.
\<close>

declare not_None_eq [simp del]

section \<open>Specification\<close>

definition join_step :: "nat \<Rightarrow> (nat \<Rightarrow> 'a list) \<Rightarrow> nat \<Rightarrow> 'a \<Rightarrow> (nat \<Rightarrow> 'a list) \<times> 'a list option" where
  "join_step n q i x = (let q = q(i := q i @ [x]) in
     if list_all (\<lambda>j. q j \<noteq> []) [0..<n]
     then (\<lambda>j. tl (q j), Some (map (\<lambda>j. hd (q j)) [0..<n]))
     else (q, None))"

section \<open>Rows\<close>

definition cell :: "'a option list \<Rightarrow> nat \<Rightarrow> 'a option" where
  "cell r j = Option.bind (arr_get r j) id"

lemma cell_arr_put: "cell (arr_put i x r) j = (if j = i then x else cell r j)"
  by (auto simp: cell_def arr_get_put) (auto simp: arr_get_def)

lemma cell_replicate [simp]: "cell (replicate n None) j = None"
  by (simp add: cell_def arr_get_def)

definition queues :: "'a option list list \<Rightarrow> nat \<Rightarrow> 'a list" where
  "queues rows j = List.map_filter (\<lambda>r. cell r j) rows"

lemma queues_Nil [simp]: "queues [] j = []"
  by (simp add: queues_def List.map_filter_def)

lemma queues_Cons [simp]: "queues (r # rs) j = (case cell r j of None \<Rightarrow> queues rs j | Some x \<Rightarrow> x # queues rs j)"
  by (simp add: queues_def List.map_filter_def split: option.split)

lemma queues_eq_Nil: "queues rows j = [] \<longleftrightarrow> (\<forall>r\<in>set rows. cell r j = None)"
  by (induction rows) (auto split: option.splits)

text \<open>An input filled in a row is filled in the rows before it.\<close>

definition staircase :: "'a option list list \<Rightarrow> bool" where
  "staircase rows \<longleftrightarrow> sorted_wrt (\<lambda>r r'. \<forall>j. cell r' j \<noteq> None \<longrightarrow> cell r j \<noteq> None) rows"

lemma staircase_Cons:
  "staircase (r # rs) \<longleftrightarrow> (\<forall>r'\<in>set rs. \<forall>j. cell r' j \<noteq> None \<longrightarrow> cell r j \<noteq> None) \<and> staircase rs"
  by (auto simp: staircase_def)

definition full :: "nat \<Rightarrow> 'a option list \<Rightarrow> bool" where
  "full n r \<longleftrightarrow> (\<forall>j<n. cell r j \<noteq> None)"

lemma full_iff: "length r = n \<Longrightarrow> full n r \<longleftrightarrow> None \<notin> set r"
proof -
  assume n: "length r = n"
  have "cell r j = r ! j" if "j < n" for j using that n by (simp add: cell_def arr_get_def)
  then show ?thesis using n by (auto simp: full_def in_set_conv_nth)
qed

fun put_first :: "nat \<Rightarrow> nat \<Rightarrow> 'a \<Rightarrow> 'a option list list \<Rightarrow> 'a option list list" where
  "put_first n i x [] = [arr_put i (Some x) (replicate n None)]"
| "put_first n i x (r # rs) = (if cell r i = None then arr_put i (Some x) r # rs else r # put_first n i x rs)"

lemma queues_put_first:
  "staircase rows \<Longrightarrow> queues (put_first n i x rows) = (queues rows)(i := queues rows i @ [x])"
proof (induction rows)
  case (Cons r rs)
  show ?case
  proof (cases "cell r i = None")
    case True
    with Cons.prems have "queues rs i = []" by (auto simp: staircase_Cons queues_eq_Nil)
    with True show ?thesis by (auto simp: fun_eq_iff cell_arr_put split: option.split)
  next
    case False
    with Cons show ?thesis by (auto simp: fun_eq_iff staircase_Cons split: option.split)
  qed
qed (auto simp: fun_eq_iff cell_arr_put)

lemma put_first_cell:
  "r' \<in> set (put_first n i x rows) \<Longrightarrow> cell r' j \<noteq> None \<Longrightarrow> j = i \<or> (\<exists>r\<in>set rows. cell r j \<noteq> None)"
  by (induction n i x rows rule: put_first.induct) (auto simp: cell_arr_put split: if_splits)

lemma staircase_put_first: "staircase rows \<Longrightarrow> staircase (put_first n i x rows)"
proof (induction rows)
  case (Cons r rs)
  show ?case
  proof (cases "cell r i = None")
    case True
    with Cons.prems show ?thesis by (auto simp: staircase_Cons cell_arr_put)
  next
    case False
    have "cell r j \<noteq> None" if "r' \<in> set (put_first n i x rs)" "cell r' j \<noteq> None" for r' j
      using put_first_cell [OF that] False Cons.prems by (auto simp: staircase_Cons)
    with False Cons show ?thesis by (simp add: staircase_Cons)
  qed
qed (simp add: staircase_def)

lemma put_first_lengths:
  assumes "\<forall>r\<in>set rows. length r = n" "i < n"
  shows "\<forall>r\<in>set (put_first n i x rows). length r = n"
  using assms by (induction n i x rows rule: put_first.induct) (auto simp: length_arr_put)

text \<open>Only the first row can become full, and it is full exactly when no queue is empty.\<close>

lemma staircase_full:
  "staircase (r # rs) \<Longrightarrow> full n r \<longleftrightarrow> list_all (\<lambda>j. queues (r # rs) j \<noteq> []) [0..<n]"
proof -
  assume st: "staircase (r # rs)"
  have "queues (r # rs) j \<noteq> [] \<longleftrightarrow> cell r j \<noteq> None" for j
    unfolding queues_eq_Nil using st by (auto simp: staircase_Cons)
  then show ?thesis by (simp only: full_def list_all_iff) auto
qed

lemma full_first:
  "staircase (r # rs) \<Longrightarrow> r' \<in> set rs \<Longrightarrow> full n r' \<Longrightarrow> full n r"
  by (auto simp: full_def staircase_Cons)

lemma put_first_full_rest:
  assumes "\<forall>r\<in>set rows. \<not> full n r" "staircase rows" "put_first n i x rows = r # rs"
  shows "\<forall>r'\<in>set rs. \<not> full n r'"
proof (cases rows)
  case Nil
  with assms(3) show ?thesis by simp
next
  case (Cons s ss)
  show ?thesis
  proof (cases "cell s i = None")
    case True
    with Cons assms show ?thesis by simp
  next
    case False
    with Cons assms(3) have e: "r = s" "rs = put_first n i x ss" by simp_all
    have "staircase (r # rs)" using staircase_put_first [OF assms(2), of n i x] assms(3) by simp
    with full_first [of r rs _ n] assms(1) Cons e(1) show ?thesis by auto
  qed
qed

lemma queues_hd:
  assumes "full n r" "length r = n"
  shows "map (\<lambda>j. Some (hd (queues (r # rs) j))) [0..<n] = r"
    and "j < n \<Longrightarrow> tl (queues (r # rs) j) = queues rs j"
proof -
  have c: "cell r j = r ! j" "r ! j \<noteq> None" if "j < n" for j
    using that assms by (auto simp: full_def cell_def arr_get_def)
  show "map (\<lambda>j. Some (hd (queues (r # rs) j))) [0..<n] = r"
    by (rule nth_equalityI) (use assms(2) c in \<open>auto split: option.split\<close>)
  show "tl (queues (r # rs) j) = queues rs j" if "j < n"
    using c [OF that] by (auto split: option.split)
qed

lemma queues_outside: "\<forall>r\<in>set rows. length r = n \<Longrightarrow> n \<le> j \<Longrightarrow> queues rows j = []"
  by (auto simp: queues_eq_Nil cell_def arr_get_def)

text \<open>The refinement: putting data in the first free row, and taking the first row when it is full.\<close>

definition take_full :: "nat \<Rightarrow> 'a option list list \<Rightarrow> 'a option list list \<times> 'a option list option" where
  "take_full n rows = (case rows of [] \<Rightarrow> ([], None) | r # rs \<Rightarrow> if full n r then (rs, Some r) else (r # rs, None))"

lemma put_first_ne [simp]: "put_first n i x rows \<noteq> []"
  by (cases rows) auto

lemma join_refines:
  assumes "staircase rows" "\<forall>r\<in>set rows. length r = n \<and> \<not> full n r" "i < n"
  shows "(queues (fst (take_full n (put_first n i x rows))),
      snd (take_full n (put_first n i x rows))) =
    (fst (join_step n (queues rows) i x), map_option (map Some) (snd (join_step n (queues rows) i x)))"
proof -
  obtain r rs where p: "put_first n i x rows = r # rs" by (cases "put_first n i x rows") auto
  have st: "staircase (r # rs)" using staircase_put_first [OF assms(1), of n i x] p by simp
  have len: "\<forall>r'\<in>set (r # rs). length r' = n" using put_first_lengths [of rows n i x] assms(2,3) p by auto
  have q: "queues (r # rs) = (queues rows)(i := queues rows i @ [x])"
    using queues_put_first [OF assms(1), of n i x] p by simp
  show ?thesis
  proof (cases "full n r")
    case True
    have "queues rs j = tl (queues (r # rs) j)" for j
    proof (cases "j < n")
      case False
      then have "queues rs j = []" "queues (r # rs) j = []" 
        using queues_outside [of rs n j] queues_outside [of "r # rs" n j] len by simp_all
      then show ?thesis by simp
    qed (use queues_hd(2) [OF True, of j rs] len in simp)
    then have "queues rs = (\<lambda>j. tl (queues (r # rs) j))" by (simp add: fun_eq_iff)
    moreover have "r = map (\<lambda>j. Some (hd (queues (r # rs) j))) [0..<n]" using queues_hd(1) [OF True, of rs] len by simp
    ultimately show ?thesis
      using True staircase_full [OF st, of n] unfolding p q [symmetric]
      by (simp add: take_full_def join_step_def Let_def q [symmetric] comp_def del: queues_Cons)
  next
    case False
    then show ?thesis using staircase_full [OF st, of n] unfolding p
      by (simp add: take_full_def join_step_def Let_def q [symmetric] del: queues_Cons)
  qed
qed

declare not_None_eq [simp]

end
