(* ===== verification/Engine_Join.thy ===== *)
theory Engine_Join
  imports Engine_Waiting Join_Queues "HOL-Library.Multiset"
begin

text \<open>
  The waiting entries of a node implement one queue per input: \<^verbatim>\<open>addNodeToBeExecuted\<close> refines the step of
  the queues as long as the entries of the node are numbered without a gap.
\<close>

section \<open>What the operations on waiting entries change\<close>

lemma has_input_cell: "has_input main i \<longleftrightarrow> cell main i \<noteq> None"
  by (auto simp: has_input_def cell_def split: option.splits)

lemma mget_Some_key: "mget m k = Some v \<Longrightarrow> k \<in> fst ` set m"
  by (metis map_of_eq_None_iff option.distinct(1))

lemma entries_of_put:
  "entries_of (put_waiting nm k l e) nm' = (if nm' = nm then mset_at k [(Main, l)] (entries_of e nm) else entries_of e nm')"
  "entries_of (put_source nm k s e) nm' = entries_of e nm'"
  by (simp_all add: entries_of_def put_waiting_def put_source_def)

lemma waiting_main_put:
  "waiting_main (put_waiting nm k l e) nm' k' = (if nm' = nm \<and> k' = k then l else waiting_main e nm' k')"
  "waiting_main (put_source nm k s e) nm' k' = waiting_main e nm' k'"
  by (simp_all add: waiting_main_def entries_of_put main_of_def)

lemma entries_of_set_input:
  "map fst (entries_of (set_input nm k i x s e) nm') =
    (if nm' = nm then map fst (mset_at k [] (entries_of e nm)) else map fst (entries_of e nm'))"
  by (simp add: entries_of_def set_input_def keys_set)

lemma waiting_main_set_input:
  "waiting_main (set_input nm k i x s e) nm' k' =
    (if nm' = nm \<and> k' = k then arr_put i x (waiting_main e nm k) else waiting_main e nm' k')"
  by (auto simp: waiting_main_def set_input_def entries_of_def main_of_def split: option.splits)

lemma frame_put [simp]:
  "en_workflow (put_waiting nm k l e) = en_workflow e" "en_workflow (put_source nm k s e) = en_workflow e"
  "en_workflow (set_input nm k i x sd e) = en_workflow e" "en_workflow (enqueue d e) = en_workflow e"
  "en_stack (put_waiting nm k l e) = en_stack e" "en_stack (put_source nm k s e) = en_stack e"
  "en_stack (set_input nm k i x sd e) = en_stack e" "en_waiting (enqueue d e) = en_waiting e"
  "en_waitingSource (enqueue d e) = en_waitingSource e" "en_v1 (enqueue d e) = en_v1 e"
  "en_v1 (put_waiting nm k l e) = en_v1 e" "en_v1 (put_source nm k s e) = en_v1 e" "en_v1 (set_input nm k i x sd e) = en_v1 e"
  by (simp_all add: put_waiting_def put_source_def set_input_def enqueue_def)

lemma numberOfInputs_cong: "en_workflow e' = en_workflow e \<Longrightarrow> numberOfInputs e' nm = numberOfInputs e nm"
  by (simp add: numberOfInputs_def)

lemma waiting_cong: "en_waiting e' = en_waiting e \<Longrightarrow> entries_of e' = entries_of e \<and> waiting_main e' = waiting_main e"
  by (simp add: fun_eq_iff entries_of_def waiting_main_def)

section \<open>Rows of a node\<close>

definition rows :: "engine \<Rightarrow> string \<Rightarrow> items option list list" where
  "rows e nm = map (waiting_main e nm) (int_keys (entries_of e nm))"

text \<open>Entries without a gap, rows of the right length, in a staircase, and none full.\<close>

definition waiting_ok :: "engine \<Rightarrow> string \<Rightarrow> bool" where
  "waiting_ok e nm \<longleftrightarrow> int_keys (entries_of e nm) = [0..<length (entries_of e nm)] \<and> staircase (rows e nm)
     \<and> (\<forall>r\<in>set (rows e nm). length r = numberOfInputs e nm \<and> \<not> full (numberOfInputs e nm) r)"

lemma rows_cong: "en_waiting e' = en_waiting e \<Longrightarrow> rows e' = rows e"
  using waiting_cong [of e' e] by (simp add: rows_def fun_eq_iff)

text \<open>The place of the first row whose input is free.\<close>

definition first_free :: "nat \<Rightarrow> 'a option list list \<Rightarrow> nat" where
  "first_free i rs = length (takeWhile (\<lambda>r. cell r i \<noteq> None) rs)"

lemma put_first_pos:
  "put_first n i x rs = (if first_free i rs < length rs
     then rs[first_free i rs := arr_put i (Some x) (rs ! first_free i rs)]
     else rs @ [arr_put i (Some x) (replicate n None)])"
  by (induction n i x rs rule: put_first.induct) (auto simp: first_free_def)

lemma find_first_free:
  "find (\<lambda>k. cell (rs ! k) i = None) [0..<length rs] = (if first_free i rs < length rs then Some (first_free i rs) else None)"
proof (cases "first_free i rs < length rs")
  case True
  have "cell (rs ! first_free i rs) i = None" using True nth_length_takeWhile unfolding first_free_def by blast
  moreover have "cell (rs ! k) i \<noteq> None" if "k < first_free i rs" for k
  proof -
    have k: "k < length (takeWhile (\<lambda>r. cell r i \<noteq> None) rs)" using that by (simp add: first_free_def)
    from set_takeWhileD [OF nth_mem [OF k]] show ?thesis unfolding takeWhile_nth [OF k] by blast
  qed
  ultimately show ?thesis using True by (simp add: find_upt_least)
next
  case False
  then have "\<forall>r\<in>set rs. cell r i \<noteq> None"
    by (induction rs) (auto simp: first_free_def split: if_splits)
  then have "cell (rs ! k) i \<noteq> None" if "k < length rs" for k using that nth_mem by blast
  with False show ?thesis by (auto simp: find_None_iff)
qed

lemma rows_nth: "waiting_ok e nm \<Longrightarrow> k < length (entries_of e nm) \<Longrightarrow> rows e nm ! k = waiting_main e nm k"
  by (simp add: rows_def waiting_ok_def)

lemma length_rows [simp]: "length (rows e nm) = length (entries_of e nm)"
  by (simp add: rows_def)

lemma free_entry_rows:
  assumes "waiting_ok e nm"
  shows "free_entry e nm i = (if first_free i (rows e nm) < length (rows e nm) then Some (first_free i (rows e nm)) else None)"
proof -
  have "free_entry e nm i = find (\<lambda>k. cell (rows e nm ! k) i = None) [0..<length (rows e nm)]"
    unfolding free_entry_def using assms rows_nth [OF assms]
    by (auto simp: waiting_ok_def has_input_cell intro!: find_cong)
  then show ?thesis by (simp only: find_first_free)
qed

lemma int_keys_set:
  assumes "int_keys m = [0..<length m]" "k \<le> length m"
  shows "int_keys (mset_at k v m) = [0..<length (mset_at k v m)]"
    and "length (mset_at k v m) = (if k < length m then length m else Suc (length m))"
proof -
  have s: "fst ` set m = {0..<length m}" using assms(1) set_int_keys by (metis set_upt)
  have l: "length (mset_at k v m) = length (map fst (mset_at k v m))" by simp
  show "length (mset_at k v m) = (if k < length m then length m else Suc (length m))"
    unfolding l keys_set s using assms(2) by auto
  show "int_keys (mset_at k v m) = [0..<length (mset_at k v m)]"
  proof (cases "k < length m")
    case True
    then show ?thesis using assms(1) s l by (simp add: int_keys_def keys_set)
  next
    case False
    with assms(2) have k: "k = length m" by simp
    have "sort (map fst m @ [k]) = [0..<length m] @ [k]"
    proof (rule properties_for_sort)
      have "mset (map fst m) = mset [0..<length m]" using assms(1) by (metis int_keys_def mset_sort)
      then show "mset ([0..<length m] @ [k]) = mset (map fst m @ [k])" by simp
    qed (simp add: k sorted_append)
    then show ?thesis using k s l by (simp add: int_keys_def keys_set)
  qed
qed

section \<open>Adding data\<close>

lemma add_waiting_rows:
  assumes ok: "waiting_ok e nm" and i: "ic_index c < numberOfInputs e nm" and c: "ic_node c = nm"
    and x: "output_data nd oi = Some x" and add: "add_waiting_data c oi p nd r e = (e1, k)"
  shows "rows e1 nm = put_first (numberOfInputs e nm) (ic_index c) x (rows e nm)"
    and "int_keys (entries_of e1 nm) = [0..<length (entries_of e1 nm)]"
    and "k = first_free (ic_index c) (rows e nm)" and "k < length (entries_of e1 nm)"
    and "nm' \<noteq> nm \<Longrightarrow> entries_of e1 nm' = entries_of e nm'"
    and "en_workflow e1 = en_workflow e" and "en_stack e1 = en_stack e" and "en_v1 e1 = en_v1 e"
proof -
  let ?i = "ic_index c" and ?n = "numberOfInputs e nm"
  define ea where "ea = (if mhas (en_waiting e) nm then e
    else e\<lparr>en_waiting := mset_at nm [] (en_waiting e), en_waitingSource := mset_at nm [] (en_waitingSource e)\<rparr>)"
  have ea: "entries_of ea = entries_of e" "waiting_main ea = waiting_main e" "en_workflow ea = en_workflow e"
      "en_stack ea = en_stack e" "en_v1 ea = en_v1 e"
    by (auto simp: ea_def entries_of_def waiting_main_def fun_eq_iff mhas_def)
  have ok': "waiting_ok ea nm" using ok unfolding waiting_ok_def rows_def numberOfInputs_def ea .
  have r: "rows ea nm = rows e nm" by (simp only: rows_def ea)
  define kk where "kk = first_free ?i (rows e nm)"
  have le: "kk \<le> length (entries_of e nm)"
    unfolding kk_def first_free_def using length_takeWhile_le length_rows by metis
  define eb where "eb = (if kk < length (entries_of e nm) then ea else prepareWaitingToExecution nm ?n kk ea)"
  have free: "free_entry ea nm ?i = (if kk < length (entries_of e nm) then Some kk else None)"
    using free_entry_rows [OF ok'] r by (simp add: kk_def)
  have e1: "e1 = set_input nm kk ?i (Some x) (output_source nd p oi r) eb" and k: "k = kk"
    using add free le x c ea by (auto simp: add_waiting_data_def Let_def ea_def [symmetric] eb_def numberOfInputs_def split: if_splits)
  have eb: "map fst (entries_of eb nm) = map fst (mset_at kk [] (entries_of e nm))"
      "waiting_main eb nm k' = (if k' = kk \<and> \<not> kk < length (entries_of e nm) then replicate ?n None else waiting_main e nm k')"
      "nm' \<noteq> nm \<Longrightarrow> entries_of eb nm' = entries_of e nm'" "en_workflow eb = en_workflow e" "en_stack eb = en_stack e" "en_v1 eb = en_v1 e" for k' nm'
  proof -
    have key: "kk \<in> fst ` set (entries_of e nm)" if "kk < length (entries_of e nm)"
      using ok that unfolding waiting_ok_def by (metis atLeastLessThan_iff le0 set_int_keys set_upt)
    show "map fst (entries_of eb nm) = map fst (mset_at kk [] (entries_of e nm))"
      using key by (auto simp: eb_def ea keys_set prepareWaitingToExecution_def entries_of_put)
  qed (simp_all add: eb_def ea prepareWaitingToExecution_def entries_of_put waiting_main_put)
  have keys: "int_keys (entries_of e1 nm) = int_keys (mset_at kk [] (entries_of e nm))"
      "length (entries_of e1 nm) = length (mset_at kk [] (entries_of e nm))"
  proof -
    have "map fst (entries_of e1 nm) = map fst (mset_at kk [] (entries_of e nm))"
    proof -
      have "map fst (mset_at kk [] (entries_of eb nm)) = map fst (entries_of eb nm)"
        using eb(1) by (simp add: keys_set) (metis image_eqI list.set_map in_set_conv_decomp)
      then show ?thesis unfolding e1 entries_of_set_input by (simp add: eb(1))
    qed
    then show "int_keys (entries_of e1 nm) = int_keys (mset_at kk [] (entries_of e nm))"
      "length (entries_of e1 nm) = length (mset_at kk [] (entries_of e nm))"
      by (simp add: int_keys_def, metis length_map)
  qed
  have old: "int_keys (entries_of e nm) = [0..<length (entries_of e nm)]" using ok by (simp add: waiting_ok_def)
  show k1: "int_keys (entries_of e1 nm) = [0..<length (entries_of e1 nm)]"
    using keys int_keys_set(1) [OF old le] by simp
  show "k = first_free ?i (rows e nm)" by (simp add: k kk_def)
  have len: "length (entries_of e1 nm) = (if kk < length (entries_of e nm) then length (entries_of e nm) else Suc (length (entries_of e nm)))"
    using keys int_keys_set(2) [OF old le] by simp
  then show "k < length (entries_of e1 nm)" using le k by auto
  have row: "waiting_main e1 nm j = (if j = kk then arr_put ?i (Some x) (waiting_main eb nm kk) else waiting_main e nm j)" for j
    unfolding e1 waiting_main_set_input eb(2) by simp
  show "rows e1 nm = put_first ?n ?i x (rows e nm)"
  proof (rule nth_equalityI)
    show "length (rows e1 nm) = length (put_first ?n ?i x (rows e nm))"
      using len by (simp add: put_first_pos kk_def [symmetric])
    fix j assume "j < length (rows e1 nm)"
    then have j: "j < length (entries_of e1 nm)" by simp
    have "rows e1 nm ! j = waiting_main e1 nm j" using j k1 by (simp add: rows_def)
    then show "rows e1 nm ! j = put_first ?n ?i x (rows e nm) ! j"
      using j len le rows_nth [OF ok] by (auto simp: row eb(2) put_first_pos kk_def [symmetric] nth_append nth_list_update)
  qed
  show "entries_of e1 nm' = entries_of e nm'" if "nm' \<noteq> nm" for nm'
    using eb(3) [OF that] that unfolding e1 by (simp add: entries_of_def set_input_def)
  show "en_workflow e1 = en_workflow e" "en_stack e1 = en_stack e" "en_v1 e1 = en_v1 e"
    unfolding e1 using eb by simp_all
qed

section \<open>The other steps\<close>

lemma check_input_frame:
  assumes "check_input outs oi p nd r d e = Inr e'"
  shows "en_waiting e' = en_waiting e \<and> en_waitingSource e' = en_waitingSource e \<and> en_workflow e' = en_workflow e
    \<and> en_v1 e' = en_v1 e \<and> en_runData e' = en_runData e \<and> (en_v1 e \<longrightarrow> e' = e)"
  using assms by (auto simp: check_input_def force_source_def Let_def bindE_eq_Inr isLegacyExecutionOrder_def enqueue_def
      split: if_splits option.splits)

lemma check_inputs_frame:
  assumes "check_inputs c oi p nd r e = (e', err)"
  shows "en_waiting e' = en_waiting e" "en_waitingSource e' = en_waitingSource e" "en_workflow e' = en_workflow e"
    "en_v1 e' = en_v1 e" "en_runData e' = en_runData e" "en_v1 e \<Longrightarrow> e' = e"
proof -
  let ?I = "\<lambda>a. en_waiting a = en_waiting e \<and> en_waitingSource a = en_waitingSource e \<and> en_workflow a = en_workflow e
    \<and> en_v1 a = en_v1 e \<and> en_runData a = en_runData e \<and> (en_v1 e \<longrightarrow> a = e)"
  have "?I (fst (foldS (check_input outs oi p nd r) ds e))" for outs ds
    by (rule foldS_invariant) (use check_input_frame in fastforce)+
  then have "?I e'" using assms by (auto simp: check_inputs_def Let_def split: if_splits) (metis fst_conv)+
  then show "en_waiting e' = en_waiting e" "en_waitingSource e' = en_waitingSource e" "en_workflow e' = en_workflow e"
    "en_v1 e' = en_v1 e" "en_runData e' = en_runData e" "en_v1 e \<Longrightarrow> e' = e" by auto
qed

text \<open>In the legacy order the check of the other inputs may add entries at the end of the stack.\<close>

lemma check_input_stack: "check_input outs oi p nd r d e = Inr e' \<Longrightarrow> \<exists>added. en_stack e' = en_stack e @ added"
  by (auto simp: check_input_def force_source_def Let_def bindE_eq_Inr isLegacyExecutionOrder_def enqueue_def
      split: if_splits option.splits)

lemma check_inputs_stack:
  assumes "check_inputs c oi p nd r e = (e', err)"
  shows "\<exists>added. en_stack e' = en_stack e @ added"
proof -
  let ?I = "\<lambda>a. \<exists>added. en_stack a = en_stack e @ added"
  have "?I (fst (foldS (check_input outs oi p nd r) ds e))" for outs ds
    by (rule foldS_invariant) (use check_input_stack in fastforce)+
  then show ?thesis using assms by (auto simp: check_inputs_def Let_def split: if_splits) (metis fst_conv)
qed

lemma arr_put_same: "arr_get r i = Some x \<Longrightarrow> arr_put i x r = r"
  by (auto simp: arr_get_Some arr_put_def)

lemma keep_waiting_same:
  assumes "cell (waiting_main e (ic_node c) k) (ic_index c) = output_data nd oi" "output_data nd oi \<noteq> None"
    and "k \<in> fst ` set (entries_of e (ic_node c))"
  shows "waiting_main (keep_waiting c oi nd k e) = waiting_main e"
    and "int_keys (entries_of (keep_waiting c oi nd k e) nm) = int_keys (entries_of e nm)"
    and "length (entries_of (keep_waiting c oi nd k e) nm) = length (entries_of e nm)"
    and "en_workflow (keep_waiting c oi nd k e) = en_workflow e" "en_stack (keep_waiting c oi nd k e) = en_stack e"
    and "nm \<noteq> ic_node c \<Longrightarrow> entries_of (keep_waiting c oi nd k e) nm = entries_of e nm"
    and "en_v1 (keep_waiting c oi nd k e) = en_v1 e"
proof -
  have g: "arr_get (waiting_main e (ic_node c) k) (ic_index c) = Some (output_data nd oi)"
    using assms(1,2) by (cases "arr_get (waiting_main e (ic_node c) k) (ic_index c)") (auto simp: cell_def)
  show "waiting_main (keep_waiting c oi nd k e) = waiting_main e"
    by (auto simp: fun_eq_iff keep_waiting_def Let_def waiting_main_put prepareWaitingToExecution_def arr_put_same [OF g])
  have k: "map fst (entries_of (keep_waiting c oi nd k e) nm) = map fst (entries_of e nm)" for nm
    using assms(3) by (auto simp: keep_waiting_def Let_def prepareWaitingToExecution_def entries_of_put keys_set)
  show "int_keys (entries_of (keep_waiting c oi nd k e) nm) = int_keys (entries_of e nm)"
    "length (entries_of (keep_waiting c oi nd k e) nm) = length (entries_of e nm)"
    by (simp add: int_keys_def k, metis k length_map)
  show "nm \<noteq> ic_node c \<Longrightarrow> entries_of (keep_waiting c oi nd k e) nm = entries_of e nm"
    by (auto simp: keep_waiting_def Let_def prepareWaitingToExecution_def entries_of_put)
qed (simp_all add: keep_waiting_def Let_def prepareWaitingToExecution_def)

lemma entries_of_remove:
  "entries_of (remove_waiting nm k e) nm' = (if nm' = nm then mdel k (entries_of e nm) else entries_of e nm')"
  by (auto simp: remove_waiting_def Let_def entries_of_def)

lemma waiting_main_remove:
  "waiting_main (remove_waiting nm k e) nm' k' = (if nm' = nm \<and> k' = k then [] else waiting_main e nm' k')"
  by (auto simp: waiting_main_def entries_of_remove)

lemma int_keys_del: "int_keys (mdel k m) = filter (\<lambda>j. j \<noteq> k) (int_keys m)"
  by (simp add: int_keys_def filter_sort)

lemma waiting_main_release:
  "waiting_main (release_entry node nm k e) nm k' = (if k' = k then [] else waiting_main e nm k')"
  using waiting_cong [of "enqueue d e" e for d] by (simp add: release_entry_def waiting_main_remove)

lemma int_keys_release:
  "int_keys (entries_of (release_entry node nm k e) nm) = filter (\<lambda>j. j \<noteq> k) (int_keys (entries_of e nm))"
  using waiting_cong [of "enqueue d e" e for d] by (simp add: release_entry_def entries_of_remove int_keys_del)

lemma rows_release:
  assumes "int_keys (entries_of e nm) = [0..<length (entries_of e nm)]"
  shows "rows (release_entry node nm 0 e) nm = tl (rows e nm)"
proof -
  have f: "filter (\<lambda>j. j \<noteq> 0) [0..<n] = [Suc 0..<n]" for n :: nat
    by (cases n) (auto simp: upt_conv_Cons filter_id_conv simp del: upt_Suc)
  have t: "tl (map g [0..<n]) = map g [Suc 0..<n]" for g :: "nat \<Rightarrow> items option list" and n
    by (cases n) (simp_all add: upt_conv_Cons del: upt_Suc)
  have "map (waiting_main (release_entry node nm 0 e) nm) [Suc 0..<n] = map (waiting_main e nm) [Suc 0..<n]" for n
    by (rule map_cong) (auto simp: waiting_main_release)
  then show ?thesis unfolding rows_def int_keys_release assms f t .
qed

lemma frame_release:
  "en_workflow (release_entry node nm k e) = en_workflow e"
  "nm' \<noteq> nm \<Longrightarrow> entries_of (release_entry node nm k e) nm' = entries_of e nm'"
  "en_v1 (release_entry node nm k e) = en_v1 e"
  "en_stack (release_entry node nm k e) = en_stack (enqueue \<lparr>ed_node = node, ed_data = case_option [] id (mget (entries_of e nm) k),
      ed_source = Some (case_option [] id (mget (sources_of e nm) k)), ed_runIndex = None, ed_metadata = None\<rparr> e)"
  by (simp_all add: release_entry_def remove_waiting_def Let_def enqueue_def entries_of_def)

section \<open>The refinement\<close>

lemma released_data:
  assumes "waiting_main e nm k = r" "r \<noteq> []"
  shows "\<exists>d. mget (entries_of e nm) k = Some d \<and> main_of d = r"
  using assms by (auto simp: waiting_main_def split: option.splits)

lemma add_result:
  assumes "addNodeToBeExecuted c oi p nd r nr md e = (e', None)" "add_waiting_data c oi p nd r e = (e1, k)"
    "1 < numberOfInputs e (ic_node c)" "getNode (en_workflow e1) (ic_node c) = Some node"
  shows "if None \<notin> set (waiting_main e1 (ic_node c) k) then e' = release_entry node (ic_node c) k e1
    else \<exists>e2. en_waiting e2 = en_waiting e1 \<and> en_workflow e2 = en_workflow e1 \<and> (en_v1 e1 \<longrightarrow> e2 = e1)
      \<and> en_v1 e2 = en_v1 e1 \<and> (\<exists>added. en_stack e2 = en_stack e1 @ added) \<and> e' = keep_waiting c oi nd k e2"
proof (cases "None \<in> set (waiting_main e1 (ic_node c) k)")
  case True
  obtain e2 err where e2: "(if mhas (en_waiting e) (ic_node c) then (e1, None) else check_inputs c oi p nd r e1) = (e2, err)"
    by fastforce
  then have f: "en_waiting e2 = en_waiting e1 \<and> en_workflow e2 = en_workflow e1 \<and> (en_v1 e1 \<longrightarrow> e2 = e1)
      \<and> en_v1 e2 = en_v1 e1 \<and> (\<exists>added. en_stack e2 = en_stack e1 @ added)"
    using check_inputs_frame [of c oi p nd r e1 e2 err] check_inputs_stack [of c oi p nd r e1 e2 err] by (auto split: if_splits)
  have "err = None \<and> e' = keep_waiting c oi nd k e2"
    using assms True e2 by (auto simp: addNodeToBeExecuted_def Let_def split: if_splits option.splits)
  with f True show ?thesis by auto
qed (use assms in \<open>simp add: addNodeToBeExecuted_def Let_def\<close>)

lemma addNodeToBeExecuted_join:
  assumes ok: "waiting_ok e nm" and c: "ic_node c = nm" "ic_index c < numberOfInputs e nm" "1 < numberOfInputs e nm"
    and x: "output_data nd oi = Some x" and node: "getNode (en_workflow e) nm = Some node"
    and add: "addNodeToBeExecuted c oi p nd r nr md e = (e', None)"
  shows "(queues (rows e' nm), snd (take_full (numberOfInputs e nm) (put_first (numberOfInputs e nm) (ic_index c) x (rows e nm)))) =
      (fst (join_step (numberOfInputs e nm) (queues (rows e nm)) (ic_index c) x),
       map_option (map Some) (snd (join_step (numberOfInputs e nm) (queues (rows e nm)) (ic_index c) x)))"
    and "case snd (join_step (numberOfInputs e nm) (queues (rows e nm)) (ic_index c) x) of
        Some data \<Rightarrow> \<exists>d. ed_node d = node \<and> main_of (ed_data d) = map Some data \<and> en_stack e' = en_stack (enqueue d e)
      | None \<Rightarrow> waiting_ok e' nm \<and> (\<exists>added. en_stack e' = en_stack e @ added \<and> (en_v1 e \<longrightarrow> added = []))"
    and "\<And>nm'. nm' \<noteq> nm \<Longrightarrow> entries_of e' nm' = entries_of e nm'"
    and "rows e' nm = [] \<Longrightarrow> waiting_ok e' nm"
    and "rows e' nm = fst (take_full (numberOfInputs e nm) (put_first (numberOfInputs e nm) (ic_index c) x (rows e nm)))"
    and "en_workflow e' = en_workflow e" "en_v1 e' = en_v1 e"
proof -
  let ?n = "numberOfInputs e nm" and ?i = "ic_index c"
  obtain e1 k where e1: "add_waiting_data c oi p nd r e = (e1, k)" by fastforce
  note A = add_waiting_rows [OF ok c(2,1) x e1]
  have n1: "numberOfInputs e1 nm = ?n" using A(6) by (rule numberOfInputs_cong)
  have st: "staircase (rows e nm)" and rows: "\<forall>r\<in>set (rows e nm). length r = ?n \<and> \<not> full ?n r"
    using ok by (simp_all add: waiting_ok_def)
  obtain r0 rs where p: "put_first ?n ?i x (rows e nm) = r0 # rs" by (cases "put_first ?n ?i x (rows e nm)") auto
  have st1: "staircase (r0 # rs)" using staircase_put_first [OF st, of ?n ?i x] p by simp
  have len: "\<forall>r\<in>set (r0 # rs). length r = ?n" using put_first_lengths [of "rows e nm" ?n ?i x] rows c(2) p by auto
  have rest: "\<forall>r\<in>set rs. \<not> full ?n r" using put_first_full_rest [OF _ st p] rows by blast
  have wk: "waiting_main e1 nm k = rows e1 nm ! k" using A(2,4) by (simp add: rows_def)
  have kin: "rows e1 nm ! k \<in> set (rows e1 nm)" using A(4) by (intro nth_mem) simp
  have w0: "waiting_main e1 nm 0 = r0"
  proof -
    have "0 < length (entries_of e1 nm)" using A(4) by linarith
    then have "rows e1 nm ! 0 = waiting_main e1 nm 0" using A(2) by (simp add: rows_def)
    then show ?thesis using A(1) p by simp
  qed
  have fullk: "None \<notin> set (waiting_main e1 nm k) \<longleftrightarrow> full ?n (waiting_main e1 nm k)"
  proof (rule full_iff [symmetric])
    show "length (waiting_main e1 nm k) = ?n" using len wk kin A(1) p by metis
  qed
  have full0: "full ?n (waiting_main e1 nm k) \<longleftrightarrow> full ?n r0 \<and> k = 0"
  proof
    assume f: "full ?n (waiting_main e1 nm k)"
    have "k = 0"
    proof (rule ccontr)
      assume "k \<noteq> 0"
      then obtain j where j: "k = Suc j" by (cases k) auto
      then have "waiting_main e1 nm k = rs ! j" "j < length rs" using wk A(1,4) p length_rows [of e1 nm] by auto
      with rest f show False by (metis nth_mem)
    qed
    with f w0 show "full ?n r0 \<and> k = 0" by simp
  qed (use w0 in simp)
  have k0: "k = 0" if "full ?n r0"
  proof (rule ccontr)
    assume "k \<noteq> 0"
    then have ne: "rows e nm \<noteq> []" "first_free ?i (rows e nm) \<noteq> 0" using A(3) by (auto simp: first_free_def)
    then have "cell (hd (rows e nm)) ?i \<noteq> None" by (cases "rows e nm") (auto simp: first_free_def split: if_splits)
    with ne(1) p have "r0 = hd (rows e nm)" by (cases "rows e nm") auto
    with that rows ne(1) show False by simp
  qed
  note step = join_refines [OF st rows c(2), of x]
  have tk: "take_full ?n (put_first ?n ?i x (rows e nm)) = (if full ?n r0 then (rs, Some r0) else (r0 # rs, None))"
    by (simp add: p take_full_def)
  have node1: "getNode (en_workflow e1) (ic_node c) = Some node" using node c(1) A(6) by simp
  have n: "1 < numberOfInputs e (ic_node c)" using c by simp
  note res = add_result [OF add e1 n node1, unfolded c(1)]
  have "rows e' nm = fst (take_full ?n (put_first ?n ?i x (rows e nm))) \<and> en_workflow e' = en_workflow e \<and> en_v1 e' = en_v1 e
    \<and> (if full ?n r0 then en_stack e' = en_stack (release_entry node nm 0 e1)
        else waiting_ok e' nm \<and> (\<exists>added. en_stack e' = en_stack e @ added \<and> (en_v1 e \<longrightarrow> added = [])))
    \<and> (\<forall>nm'. nm' \<noteq> nm \<longrightarrow> entries_of e' nm' = entries_of e nm') \<and> (rows e' nm = [] \<longrightarrow> waiting_ok e' nm)"
  proof (cases "full ?n r0")
    case True
    with k0 fullk full0 res have e': "e' = release_entry node nm 0 e1" by simp
    have "rows e' nm = rs" using rows_release [OF A(2)] A(1) p e' by simp
    moreover have "waiting_ok e' nm" if "rows e' nm = []"
    proof -
      from that have "entries_of e' nm = []" using length_rows [of e' nm] by simp
      with that show ?thesis by (simp add: waiting_ok_def int_keys_def staircase_def)
    qed
    ultimately show ?thesis using True tk e' A by (simp add: frame_release)
  next
    case False
    with full0 fullk res obtain e2 where e2: "en_waiting e2 = en_waiting e1" "en_workflow e2 = en_workflow e1"
      "en_v1 e1 \<longrightarrow> e2 = e1" "e' = keep_waiting c oi nd k e2" "en_v1 e2 = en_v1 e1" "\<exists>added. en_stack e2 = en_stack e1 @ added" by auto
    note w = waiting_cong [OF e2(1)]
    have key: "k \<in> fst ` set (entries_of e2 nm)"
    proof -
      have "k \<in> set (int_keys (entries_of e1 nm))" unfolding A(2) using A(4) by simp
      then show ?thesis using w by simp
    qed
    have "cell (waiting_main e1 nm k) ?i = Some x"
    proof -
      have "rows e1 nm ! k = arr_put ?i (Some x) (if k < length (rows e nm) then rows e nm ! k else replicate ?n None)"
        using A(1,3,4) length_rows [of e1 nm] by (auto simp: put_first_pos nth_append split: if_splits)
      then show ?thesis by (simp add: wk cell_arr_put)
    qed
    then have cell: "cell (waiting_main e2 (ic_node c) k) ?i = output_data nd oi" using w c(1) x by simp
    have nn: "output_data nd oi \<noteq> None" using x by simp
    note K = keep_waiting_same [OF cell nn key [folded c(1)], folded e2(4)]
    have r': "rows e' nm = r0 # rs" using K(1,2) w A(1) p by (simp add: rows_def)
    have "waiting_ok e' nm"
      unfolding waiting_ok_def r' using K w A(2) e2(2) n1 st1 len rest False numberOfInputs_cong [of e' e1 nm] by simp
    moreover have "\<exists>added. en_stack e' = en_stack e @ added \<and> (en_v1 e \<longrightarrow> added = [])" using K e2 A(7,8) by auto
    moreover have "en_v1 e' = en_v1 e" using K(7) e2(5) A(8) by simp
    moreover have "\<forall>nm'. nm' \<noteq> nm \<longrightarrow> entries_of e' nm' = entries_of e nm'" using K(6) w A(5) c(1) by simp
    ultimately show ?thesis using r' False tk K e2(2) A(6) by simp
  qed
  note main = this
  show "(queues (rows e' nm), snd (take_full ?n (put_first ?n ?i x (rows e nm)))) =
      (fst (join_step ?n (queues (rows e nm)) ?i x), map_option (map Some) (snd (join_step ?n (queues (rows e nm)) ?i x)))"
    using main step by simp
  show "\<And>nm'. nm' \<noteq> nm \<Longrightarrow> entries_of e' nm' = entries_of e nm'" "rows e' nm = [] \<Longrightarrow> waiting_ok e' nm"
    "rows e' nm = fst (take_full ?n (put_first ?n ?i x (rows e nm)))" "en_workflow e' = en_workflow e" "en_v1 e' = en_v1 e"
    using main by auto
  show "case snd (join_step ?n (queues (rows e nm)) ?i x) of
        Some data \<Rightarrow> \<exists>d. ed_node d = node \<and> main_of (ed_data d) = map Some data \<and> en_stack e' = en_stack (enqueue d e)
      | None \<Rightarrow> waiting_ok e' nm \<and> (\<exists>added. en_stack e' = en_stack e @ added \<and> (en_v1 e \<longrightarrow> added = []))"
  proof (cases "full ?n r0")
    case True
    then have r0: "map_option (map Some) (snd (join_step ?n (queues (rows e nm)) ?i x)) = Some r0" using step tk by simp
    have "r0 \<noteq> []" using len c(2) by auto
    from released_data [OF w0 this] obtain d where d: "mget (entries_of e1 nm) 0 = Some d" "main_of d = r0" by blast
    have en: "en_stack (enqueue x e1) = en_stack (enqueue x e)" for x using A(7,8) by (simp add: enqueue_def)
    from r0 obtain data where data: "snd (join_step ?n (queues (rows e nm)) ?i x) = Some data" "map Some data = r0" by auto
    have "\<exists>d. ed_node d = node \<and> main_of (ed_data d) = r0 \<and> en_stack e' = en_stack (enqueue d e)"
    proof (intro exI conjI)
      let ?d = "\<lparr>ed_node = node, ed_data = case_option [] id (mget (entries_of e1 nm) 0),
        ed_source = Some (case_option [] id (mget (sources_of e1 nm) 0)), ed_runIndex = None, ed_metadata = None\<rparr>"
      show "en_stack e' = en_stack (enqueue ?d e)" using main True by (simp only: frame_release en if_True)
    qed (simp_all add: d)
    with data show ?thesis by simp
  next
    case False
    then have "snd (join_step ?n (queues (rows e nm)) ?i x) = None" using step tk by simp
    with main False show ?thesis by simp
  qed
qed

end
