(* ===== verification/Engine_Items.thy ===== *)
theory Engine_Items
  imports Engine_State
begin

text \<open>
  The item level of the engine: what a node receives (executing once, input data, paired items), what
  becomes of its output (paired items, error output, merged errors) and \<^verbatim>\<open>runNode\<close>, which picks the way
  a node is run. Node code, the expression evaluator and the workflow data proxy are parameters.
\<close>

section \<open>Parameters\<close>

text \<open>
  The parts of a node type the engine reads; custom operations are the operation names of every resource.
\<close>

datatype required = RequiredCount nat | RequiredSet "nat list"

record type_info =
  ti_execute :: bool
  ti_poll :: bool
  ti_trigger :: bool
  ti_webhook :: bool
  ti_supplyData :: bool
  ti_declarative :: bool
  ti_customOperations :: "string list obj option"
  ti_inputs :: nat
  ti_requiredInputs :: "required option"

text \<open>\<^verbatim>\<open>IRunNodeResponse | EngineRequest\<close>: \<open>None\<close> is \<^verbatim>\<open>null\<close> or \<^verbatim>\<open>undefined\<close> data.\<close>

datatype node_output =
    NodeData "items option list option" "json list"
  | NodeRequest "action list" "json obj"

record action_response =
  ar_action :: action
  ar_data :: task_data

text \<open>What a call of node code does: it returns or throws, and may put the execution to wait.\<close>

record call_effect =
  cf_result :: "node_output res"
  cf_wait :: bool

record env =
  ev_types :: "string \<Rightarrow> rat \<Rightarrow> type_info option"
  ev_code :: "nat \<Rightarrow> inode \<Rightarrow> task_data_conns \<Rightarrow> action_response list \<Rightarrow> call_effect"
  ev_manual :: bool
  ev_outputs :: "inode \<Rightarrow> conn_type list"
  ev_pairedJson :: "exec_data \<Rightarrow> source_data \<Rightarrow> paired_item \<Rightarrow> json obj option"
  ev_tag :: "inode \<Rightarrow> string \<Rightarrow> json option"
  ev_convert :: "items option list \<Rightarrow> items option list res"
  ev_timeout :: "nat \<Rightarrow> bool"

section \<open>Input of a node\<close>

definition has_main :: "'a list obj \<Rightarrow> bool" where
  "has_main d = mhas d Main"

definition main_data :: "task_data_conns \<Rightarrow> items option list" where
  "main_data d = (case mget d Main of None \<Rightarrow> [] | Some l \<Rightarrow> l)"

definition handleDisabledNode :: "task_data_conns \<Rightarrow> node_output" where
  "handleDisabledNode inputData =
     (if has_main inputData \<and> length (main_data inputData) > 0 then
        (case main_data inputData ! 0 of
           None \<Rightarrow> NodeData None []
         | Some items \<Rightarrow> NodeData (Some [Some items]) [])
      else NodeData None [])"

definition handleExecuteOnce :: "inode \<Rightarrow> task_data_conns \<Rightarrow> task_data_conns" where
  "handleExecuteOnce node inputData =
     (if n_executeOnce node = Some True
      then map (\<lambda>(connectionType, inputs). (connectionType, map (map_option (take 1)) inputs)) inputData
      else inputData)"

text \<open>\<^verbatim>\<open>typeof resource !== 'string'\<close> and the two lookups.\<close>

definition getCustomOperation :: "inode \<Rightarrow> type_info \<Rightarrow> (string \<times> string) option" where
  "getCustomOperation node type =
     (case ti_customOperations type of
        None \<Rightarrow> None
      | Some customOperations \<Rightarrow>
          (case (case n_forceCustomOperation node of
                   Some (r, o1) \<Rightarrow> Some (r, o1)
                 | None \<Rightarrow> (case (mget (n_parameters node) ''resource'', mget (n_parameters node) ''operation'') of
                     (Some (JStr r), Some (JStr o1)) \<Rightarrow> Some (r, o1)
                   | _ \<Rightarrow> None)) of
             None \<Rightarrow> None
           | Some (resource, operation) \<Rightarrow>
               (case mget customOperations resource of
                  None \<Rightarrow> None
                | Some ops \<Rightarrow> if operation \<in> set ops then Some (resource, operation) else None)))"

text \<open>
  \<^verbatim>\<open>prepareConnectionInputData\<close>; in the order \<^verbatim>\<open>v1\<close> the first input with items counts.
\<close>

definition prepareConnectionInputData ::
  "bool \<Rightarrow> type_info \<Rightarrow> (string \<times> string) option \<Rightarrow> task_data_conns \<Rightarrow> items option" where
  "prepareConnectionInputData v1 nodeType customOperation inputData =
     (if ti_execute nodeType \<or> customOperation \<noteq> None
         \<or> (\<not> ti_poll nodeType \<and> \<not> ti_trigger nodeType \<and> \<not> ti_webhook nodeType)
      then
        if length (main_data inputData) = 0 then None
        else
          let first = main_data inputData ! 0;
              connectionInputData = (if v1
                then (case find (\<lambda>d. case d of None \<Rightarrow> False | Some items \<Rightarrow> length items > 0) (main_data inputData) of
                    Some d \<Rightarrow> d | None \<Rightarrow> first)
                else first)
          in (case connectionInputData of None \<Rightarrow> None | Some items \<Rightarrow> if length items = 0 then None else Some items)
      else Some [])"

definition rethrowLastNodeError :: "engine \<Rightarrow> inode \<Rightarrow> unit res" where
  "rethrowLastNodeError e node =
     (if en_lastNode e = Some (n_name node)
      then (case en_error e of None \<Rightarrow> Inr () | Some m \<Rightarrow> Inl (NodeError m)) else Inr ())"

text \<open>The paired item of the items a node receives: their place in the input, and the source that is kept for tools.\<close>

definition resolveSourceOverwrite :: "item \<Rightarrow> exec_data \<Rightarrow> source_data option" where
  "resolveSourceOverwrite item executionData =
     (case ed_metadata executionData of
        None \<Rightarrow> None
      | Some md \<Rightarrow>
          if md_preserveSourceOverwrite md \<noteq> Some True then None
          else (case md_preservedSourceOverwrite md of
                  Some s \<Rightarrow> Some s
                | None \<Rightarrow> (case i_pairedItem item of PairedOne p \<Rightarrow> p_sourceOverwrite p | _ \<Rightarrow> None)))"

definition pair_input :: "exec_data \<Rightarrow> nat \<Rightarrow> nat \<Rightarrow> item \<Rightarrow> item" where
  "pair_input executionData inputIndex itemIndex item =
     item\<lparr>i_pairedItem := PairedOne \<lparr>p_item = itemIndex, p_input = (if inputIndex = 0 then None else Some inputIndex),
       p_sourceOverwrite = resolveSourceOverwrite item executionData\<rparr>\<rparr>"

definition pair_inputs :: "exec_data \<Rightarrow> exec_data" where
  "pair_inputs executionData = executionData\<lparr>ed_data := map (\<lambda>(connectionType, inputs).
     (connectionType, map (\<lambda>(inputIndex, input). map_option (\<lambda>items.
        map (\<lambda>(itemIndex, item). pair_input executionData inputIndex itemIndex item) (enumerate0 items)) input)
       (enumerate0 inputs))) (ed_data executionData)\<rparr>"

section \<open>Telemetry tags\<close>

definition is_space :: "char \<Rightarrow> bool" where
  "is_space c = (let n = of_char c :: nat in (9 \<le> n \<and> n \<le> 13) \<or> n = 32 \<or> n = 160)"

definition trim :: "string \<Rightarrow> string" where
  "trim s = rev (dropWhile is_space (rev (dropWhile is_space s)))"

text \<open>\<open>ev_tag\<close> evaluates a tag; \<open>None\<close> when the evaluation fails.\<close>

definition buildCustomTelemetryTracing :: "env \<Rightarrow> inode \<Rightarrow> json obj option" where
  "buildCustomTelemetryTracing ev node =
     (case n_customTelemetryTags node of
        None \<Rightarrow> None
      | Some tags \<Rightarrow>
          let tracing = foldl (\<lambda>tracing (key, value). case map_option trim key of
                None \<Rightarrow> tracing
              | Some trimmedKey \<Rightarrow>
                  if trimmedKey = [] then tracing
                  else (case ev_tag ev node value of
                          Some (JStr s) \<Rightarrow> mset_at trimmedKey (JStr s) tracing
                        | Some (JNum k) \<Rightarrow> mset_at trimmedKey (JNum k) tracing
                        | Some (JBool b) \<Rightarrow> mset_at trimmedKey (JBool b) tracing
                        | _ \<Rightarrow> tracing)) [] tags
          in if length (obj_keys tracing) = 0 then None else Some tracing)"

definition add_tracing :: "json obj option \<Rightarrow> exec_data \<Rightarrow> exec_data" where
  "add_tracing tracingFromTags executionData =
     (case tracingFromTags of
        None \<Rightarrow> executionData
      | Some t \<Rightarrow>
          let md = case_option empty_metadata id (ed_metadata executionData)
          in executionData\<lparr>ed_metadata := Some (md\<lparr>md_tracing := Some (spread t (case_option [] id (md_tracing md)))\<rparr>)\<rparr>)"

section \<open>Running a node\<close>

text \<open>One call of node code: the state counts it and may be put to wait.\<close>

definition call_code :: "env \<Rightarrow> inode \<Rightarrow> task_data_conns \<Rightarrow> action_response list \<Rightarrow> engine \<Rightarrow> engine \<times> node_output res" where
  "call_code ev node inputData responses e =
     (let c = ev_code ev (en_calls e) node inputData responses
      in (e\<lparr>en_calls := Suc (en_calls e), en_waitTill := en_waitTill e \<or> cf_wait c\<rparr>, cf_result c))"

definition pass_through :: "task_data_conns \<Rightarrow> node_output" where
  "pass_through inputData = NodeData (mget inputData Main) []"

definition runNode ::
  "env \<Rightarrow> exec_data \<Rightarrow> action_response list \<Rightarrow> engine \<Rightarrow> engine \<times> exec_data \<times> node_output res" where
  "runNode ev executionData responses e =
     (let node = ed_node executionData; inputData = ed_data executionData in
      if n_disabled node = Some True then (e, executionData, Inr (handleDisabledNode inputData))
      else case ev_types ev (n_type node) (n_typeVersion node) of
        None \<Rightarrow> (e, executionData, Inl (TypeError ''customOperations''))
      | Some nodeType \<Rightarrow>
          let customOperation = getCustomOperation node nodeType in
          if prepareConnectionInputData (en_v1 e) nodeType customOperation inputData = None
          then (e, executionData, Inr (NodeData None []))
          else (case rethrowLastNodeError e node of
              Inl err \<Rightarrow> (e, executionData, Inl err)
            | Inr _ \<Rightarrow>
                let inputData = handleExecuteOnce node inputData;
                    executionData = add_tracing (buildCustomTelemetryTracing ev node) executionData;
                    call = (\<lambda>r. let (e', out) = call_code ev node inputData r e in (e', executionData, out))
                in if ti_execute nodeType \<or> customOperation \<noteq> None then call responses
                   else if ti_poll nodeType \<or> ti_trigger nodeType then
                     (if ev_manual ev then call [] else (e, executionData, Inr (pass_through inputData)))
                   else if ti_supplyData nodeType then
                     (e, executionData, Inl (ApplicationError ''supplyData method but no execute method''))
                   else if ti_webhook nodeType \<and> \<not> ti_declarative nodeType then
                     (e, executionData, Inr (pass_through inputData))
                   else call []))"

section \<open>Output of a node\<close>

definition paired_at :: "nat \<Rightarrow> paired" where
  "paired_at k = PairedOne \<lparr>p_item = k, p_input = None, p_sourceOverwrite = None\<rparr>"

text \<open>
  The two loops, left at the first item that cannot be paired. An output is \<^verbatim>\<open>null\<close> or an array, as its type
  says; one that is \<^verbatim>\<open>undefined\<close> would make the loop throw.
\<close>

fun fix_items :: "(nat \<Rightarrow> paired option) \<Rightarrow> nat \<Rightarrow> items \<Rightarrow> items \<times> bool" where
  "fix_items f index [] = ([], False)"
| "fix_items f index (item # rest) =
     (if i_pairedItem item = PairedNone then
        (case f index of
           None \<Rightarrow> (item # rest, True)
         | Some p \<Rightarrow> let (rest, stop) = fix_items f (Suc index) rest in (item\<lparr>i_pairedItem := p\<rparr> # rest, stop))
      else let (rest, stop) = fix_items f (Suc index) rest in (item # rest, stop))"

fun fix_outputs :: "(nat \<Rightarrow> paired option) \<Rightarrow> items option list \<Rightarrow> items option list" where
  "fix_outputs f [] = []"
| "fix_outputs f (None # outputs) = None # fix_outputs f outputs"
| "fix_outputs f (Some outputData # outputs) =
     (let (outputData, stop) = fix_items f 0 outputData
      in Some outputData # (if stop then outputs else fix_outputs f outputs))"

definition input_count :: "items option list \<Rightarrow> nat option" where
  "input_count main = Option.bind (arr_get main 0) (map_option length)"

text \<open>Which pairing is possible, as a function of the index of the item.\<close>

definition pairing :: "items option list \<Rightarrow> items option list \<Rightarrow> (nat \<Rightarrow> paired option) res" where
  "pairing nodeSuccessData main =
     (let isSingleInputAndOutput = (length main = 1 \<and> input_count main = Some 1)
      in bindE (if length nodeSuccessData = 1 \<and> length main = 1
           then (case nodeSuccessData ! 0 of None \<Rightarrow> Inl (TypeError ''length'') | Some l \<Rightarrow> Inr (input_count main = Some (length l)))
           else Inr False) (\<lambda>isSameNumberOfItems.
         let isSingleOutput = (length nodeSuccessData = 1 \<and> map_option length (nodeSuccessData ! 0) = Some 1
           \<and> length main = 1 \<and> case_option 0 id (input_count main) > 1)
         in Inr (\<lambda>index. if isSingleInputAndOutput then Some (paired_at 0)
              else if isSameNumberOfItems then Some (paired_at index)
              else if isSingleOutput then Some (paired_at 0) else None)))"

definition assignPairedItems :: "items option list option \<Rightarrow> exec_data \<Rightarrow> items option list option res" where
  "assignPairedItems nodeSuccessData executionData =
     (case nodeSuccessData of
        None \<Rightarrow> Inr None
      | Some outputs \<Rightarrow>
          if length outputs = 0 then Inr (Some outputs)
          else if \<not> has_main (ed_data executionData) then Inl (TypeError ''length'')
          else bindE (pairing outputs (main_data (ed_data executionData))) (\<lambda>f. Inr (Some (fix_outputs f outputs))))"

section \<open>Errors in items\<close>

text \<open>Which items \<^verbatim>\<open>handleNodeErrorOutput\<close> takes for errors.\<close>

definition item_failed :: "item \<Rightarrow> bool" where
  "item_failed item =
     (i_error item \<noteq> None
      \<or> truthy (json_at ''error'' (i_json item)) \<and> length (obj_keys (i_json item)) = 1
      \<or> truthy (json_at ''error'' (i_json item)) \<and> truthy (json_at ''message'' (i_json item)) \<and> length (obj_keys (i_json item)) = 2)"

definition paired_item_data :: "paired \<Rightarrow> paired_item option" where
  "paired_item_data p = (case p of PairedOne q \<Rightarrow> Some q | PairedMany (q # _) \<Rightarrow> Some q | _ \<Rightarrow> None)"

definition error_item :: "env \<Rightarrow> exec_data \<Rightarrow> item \<Rightarrow> item res" where
  "error_item ev executionData item =
     (case (ed_source executionData, paired_item_data (i_pairedItem item)) of
        (Some source, Some pairedItemData) \<Rightarrow>
          (case Option.bind (mget source Main) (\<lambda>l. Option.bind (arr_get l (case_option 0 id (p_input pairedItemData))) id) of
             None \<Rightarrow> Inl (TypeError ''previousNode'')
           | Some sourceData \<Rightarrow>
               (case ev_pairedJson ev executionData sourceData pairedItemData of
                  None \<Rightarrow> Inr item
                | Some j \<Rightarrow> Inr (item\<lparr>i_json := spread j (i_json item)\<rparr>)))
      | _ \<Rightarrow> Inr item)"

text \<open>One output: its items are split into good ones and errors.\<close>

definition split_output :: "env \<Rightarrow> exec_data \<Rightarrow> nat \<Rightarrow> items option list \<times> items \<Rightarrow> (items option list \<times> items) res" where
  "split_output ev executionData outputIndex st = (case st of (nodeSuccessData, errorItems) \<Rightarrow>
     (let items = case_option [] id (Option.bind (arr_get nodeSuccessData outputIndex) id)
      in bindE (foldE (\<lambda>item (good, bad). if item_failed item
             then bindE (error_item ev executionData item) (\<lambda>x. Inr (good, bad @ [x]))
             else Inr (good @ [item], bad)) items ([], errorItems)) (\<lambda>(successItems, errorItems).
           Inr (arr_put outputIndex (Some successItems) nodeSuccessData, errorItems))))"

definition handleNodeErrorOutput ::
  "env \<Rightarrow> exec_data \<Rightarrow> items option list \<Rightarrow> items option list res" where
  "handleNodeErrorOutput ev executionData nodeSuccessData =
     (let mainOutputs = length (filter (\<lambda>t. t = Main) (ev_outputs ev (ed_node executionData)))
      in if ev_types ev (n_type (ed_node executionData)) (n_typeVersion (ed_node executionData)) = None
      then Inl (TypeError ''description'')
      else bindE (foldE (split_output ev executionData) [0..<mainOutputs - 1] (nodeSuccessData, [])) (\<lambda>(nodeSuccessData, errorItems).
           Inr (if mainOutputs = 0 then nodeSuccessData
                else arr_put (mainOutputs - 1) (Some errorItems) nodeSuccessData)))"

text \<open>
  The outputs that are left when an item throws: those before it are replaced, and its own output has lost the items up to
  and including it, which \<^verbatim>\<open>shift\<close> has taken out.
\<close>

fun drained :: "env \<Rightarrow> exec_data \<Rightarrow> items \<Rightarrow> items" where
  "drained ev executionData [] = []"
| "drained ev executionData (item # items) =
     (case (if item_failed item then error_item ev executionData item else Inr item) of
        Inl err \<Rightarrow> items
      | Inr x \<Rightarrow> drained ev executionData items)"

fun thrown_outputs :: "env \<Rightarrow> exec_data \<Rightarrow> nat list \<Rightarrow> items option list \<Rightarrow> items option list" where
  "thrown_outputs ev executionData [] nodeSuccessData = nodeSuccessData"
| "thrown_outputs ev executionData (outputIndex # rest) nodeSuccessData =
     (case split_output ev executionData outputIndex (nodeSuccessData, []) of
        Inl err \<Rightarrow> arr_put outputIndex (Some (drained ev executionData
          (case_option [] id (Option.bind (arr_get nodeSuccessData outputIndex) id)))) nodeSuccessData
      | Inr (nodeSuccessData, bad) \<Rightarrow> thrown_outputs ev executionData rest nodeSuccessData)"

definition handleNodeErrorOutput_thrown :: "env \<Rightarrow> exec_data \<Rightarrow> items option list \<Rightarrow> items option list" where
  "handleNodeErrorOutput_thrown ev executionData nodeSuccessData =
     (if ev_types ev (n_type (ed_node executionData)) (n_typeVersion (ed_node executionData)) = None then nodeSuccessData
      else thrown_outputs ev executionData
        [0..<length (filter (\<lambda>t. t = Main) (ev_outputs ev (ed_node executionData))) - 1] nodeSuccessData)"

text \<open>
  Errors in the default output. An error is kept as its message; the message of \<^verbatim>\<open>null\<close> cannot be read.
\<close>

fun message_of :: "json \<Rightarrow> json res" where
  "message_of (JObj ps) = Inr (json_at ''message'' ps)"
| "message_of JNull = Inl (TypeError ''message'')"
| "message_of _ = Inr JUndef"

definition merge_error :: "item \<Rightarrow> item res" where
  "merge_error lineResult =
     (if json_at ''$error'' (i_json lineResult) \<noteq> JUndef \<and> json_at ''$json'' (i_json lineResult) \<noteq> JUndef
      then bindE (message_of (json_at ''$error'' (i_json lineResult))) (\<lambda>m.
        Inr (lineResult\<lparr>i_error := (case m of JStr s \<Rightarrow> Some s | _ \<Rightarrow> Some []), i_json := [(''error'', m)]\<rparr>))
      else case i_error lineResult of
        None \<Rightarrow> Inr lineResult
      | Some m \<Rightarrow> Inr (lineResult\<lparr>i_json := [(''error'', JStr m)]\<rparr>))"

fun mapE :: "('a \<Rightarrow> 'b res) \<Rightarrow> 'a list \<Rightarrow> 'b list res" where
  "mapE f [] = Inr []"
| "mapE f (x # xs) = bindE (f x) (\<lambda>y. bindE (mapE f xs) (\<lambda>ys. Inr (y # ys)))"

text \<open>An absent output cannot be iterated.\<close>

definition mergeErrors :: "items option list option \<Rightarrow> items option list res" where
  "mergeErrors nodeSuccessData =
     (case nodeSuccessData of
        None \<Rightarrow> Inl (TypeError ''not iterable'')
      | Some outputs \<Rightarrow> mapE (\<lambda>execution. case execution of
            None \<Rightarrow> Inl (TypeError ''not iterable'')
          | Some items \<Rightarrow> bindE (mapE merge_error items) (\<lambda>l. Inr (Some l))) outputs)"

text \<open>An output that is always given: one empty item paired with all input items.\<close>

definition always_item :: "exec_data \<Rightarrow> item" where
  "always_item executionData = (json_item [])\<lparr>i_pairedItem := PairedMany (concat (map (\<lambda>(inputIndex, input).
     map (\<lambda>k. \<lparr>p_item = k, p_input = Some inputIndex, p_sourceOverwrite = None\<rparr>) [0..<length (case_option [] id input)])
     (enumerate0 (main_data (ed_data executionData)))))\<rparr>"

definition no_first_item :: "items option list option \<Rightarrow> bool" where
  "no_first_item nodeSuccessData =
     (case Option.bind nodeSuccessData (\<lambda>d. Option.bind (arr_get d 0) id) of Some (_ # _) \<Rightarrow> False | _ \<Rightarrow> True)"

definition always_output :: "exec_data \<Rightarrow> items option list option \<Rightarrow> items option list option res" where
  "always_output executionData nodeSuccessData =
     (if no_first_item nodeSuccessData \<and> n_alwaysOutputData (ed_node executionData) = Some True
      then (if has_main (ed_data executionData)
            then Inr (Some (arr_put 0 (Some [always_item executionData]) (case_option [] id nodeSuccessData)))
            else Inl (TypeError ''forEach''))
      else Inr nodeSuccessData)"

end
