(* ===== verification/Engine_Requests.thy ===== *)
theory Engine_Requests
  imports Engine_Join Engine_Items
begin

text \<open>
  \<^verbatim>\<open>requests-response.ts\<close>: a node (an agent) asks the engine to run other nodes (its tools) and to be
  resumed with their results.
\<close>

section \<open>Definitions\<close>

record node_to_execute =
  tb_connection :: iconn
  tb_parentOutputIndex :: nat
  tb_parentNode :: string
  tb_parentOutputData :: "items option list option"
  tb_runIndex :: nat
  tb_nodeRunIndex :: nat
  tb_metadata :: "metadata option"

definition buildParentOutputData :: "json obj \<Rightarrow> nat \<Rightarrow> nat \<Rightarrow> string \<Rightarrow> items option list" where
  "buildParentOutputData json_data parentRunIndex parentOutputIndex parentSourceNode =
     [Some [(json_item json_data)\<lparr>i_pairedItem := PairedOne \<lparr>p_item = parentRunIndex, p_input = Some parentOutputIndex,
       p_sourceOverwrite = Some \<lparr>s_previousNode = parentSourceNode, s_previousNodeOutput = Some parentOutputIndex,
         s_previousNodeRun = Some parentRunIndex\<rparr>\<rparr>\<rparr>]]"

text \<open>The entry that shows the call in the log; the number of runs before it is the run of the node.\<close>

definition initializeNodeRunData ::
  "string \<Rightarrow> string \<Rightarrow> nat \<Rightarrow> nat \<Rightarrow> bool \<Rightarrow> nat \<Rightarrow> items option list \<Rightarrow> run_data \<Rightarrow> run_data \<times> nat" where
  "initializeNodeRunData nodeName parentNode parentOutputIndex parentRunIndex hasParentName runIndex displayOutputData runData =
     (let nodeRunData = (case mget runData nodeName of None \<Rightarrow> [] | Some l \<Rightarrow> l);
          sourceData = \<lparr>s_previousNode = parentNode, s_previousNodeOutput = Some parentOutputIndex,
            s_previousNodeRun = Some (if hasParentName then parentRunIndex else runIndex)\<rparr>;
          td = \<lparr>td_executionIndex = Some 0, td_source = [Some sourceData], td_hints = [], td_status = None, td_data = None,
            td_inputOverride = Some [(AiTool, displayOutputData)], td_error = None, td_metadata = None,
            td_usedDynamicCredentials = None\<rparr>
      in (mset_at nodeName (nodeRunData @ [td]) runData, length nodeRunData))"

text \<open>
  One requested action. \<^verbatim>\<open>source.main\<close> is read at the run index. A node without runs counts as having one.
\<close>

type_synonym request_state = "engine \<times> node_to_execute list \<times> sub_action list"

definition request_source :: "exec_data \<Rightarrow> nat \<Rightarrow> source_data option" where
  "request_source executionData runIndex = Option.bind (ed_source executionData) (\<lambda>s. Option.bind (mget s Main) (\<lambda>l.
     Option.bind (arr_get l runIndex) id))"

definition prepare_action ::
  "inode \<Rightarrow> nat \<Rightarrow> exec_data \<Rightarrow> action \<Rightarrow> request_state \<Rightarrow> request_state res" where
  "prepare_action currentNode runIndex executionData action st = (case st of (e, nodesToBeExecuted, actions) \<Rightarrow>
     (case getNode (en_workflow e) (a_nodeName action) of
        None \<Rightarrow> Inl (UnexpectedError ''Workflow does not contain the node'')
      | Some node \<Rightarrow>
          let e = update_node (n_ref node) (\<lambda>n. n\<lparr>n_rewireOutputLogTo := Some (a_type action)\<rparr>) e;
              parentSourceData = request_source executionData runIndex;
              outputIndex = case_option 0 id (Option.bind parentSourceData s_previousNodeOutput);
              sourceNode = (case parentSourceData of None \<Rightarrow> n_name currentNode | Some s \<Rightarrow> s_previousNode s);
              parentNode = (case a_parentNodeName action of None \<Rightarrow> n_name currentNode | Some p \<Rightarrow> p);
              hasParentName = (a_parentNodeName action \<noteq> None \<and> a_parentNodeName action \<noteq> Some []);
              parentRunIndex = (if hasParentName
                then (case mget (en_runData e) parentNode of None \<Rightarrow> 1 | Some l \<Rightarrow> length l) - 1
                else case_option 0 id (Option.bind parentSourceData s_previousNodeRun));
              agentInputData = Option.bind (mget (ed_data executionData) Main) (\<lambda>main. Option.bind (arr_get main 0) (\<lambda>d.
                Option.bind d (\<lambda>items. arr_get items (case_option 0 id (a_itemIndex action)))));
              mergedJson = mset_at ''toolCallId'' (JStr (a_id action))
                (spread (case_option [] i_json agentInputData) (a_input action));
              parentOutputData = buildParentOutputData mergedJson parentRunIndex outputIndex sourceNode;
              displayOutputData = buildParentOutputData (a_input action) parentRunIndex outputIndex sourceNode;
              (runData, nodeRunIndex) = initializeNodeRunData (n_name node) parentNode outputIndex parentRunIndex
                hasParentName runIndex displayOutputData (en_runData e);
              overwrite = (case Option.bind (ed_metadata executionData) md_preservedSourceOverwrite of
                  Some s \<Rightarrow> s
                | None \<Rightarrow> \<lparr>s_previousNode = sourceNode, s_previousNodeOutput = Some outputIndex, s_previousNodeRun = Some parentRunIndex\<rparr>)
          in Inr (e\<lparr>en_runData := runData\<rparr>,
            nodesToBeExecuted @ [\<lparr>tb_connection = \<lparr>ic_node = a_nodeName action, ic_type = a_type action, ic_index = 0\<rparr>,
              tb_parentOutputIndex = 0, tb_parentNode = parentNode, tb_parentOutputData = Some parentOutputData,
              tb_runIndex = (if hasParentName then parentRunIndex else runIndex), tb_nodeRunIndex = nodeRunIndex,
              tb_metadata = Some (empty_metadata\<lparr>md_preserveSourceOverwrite := Some True,
                md_preservedSourceOverwrite := Some overwrite\<rparr>)\<rparr>],
            actions @ [\<lparr>sa_action = action, sa_nodeName = a_nodeName action, sa_runIndex = nodeRunIndex\<rparr>])))"

definition prepareRequestedNodesForExecution ::
  "inode \<Rightarrow> action list \<Rightarrow> nat \<Rightarrow> exec_data \<Rightarrow> engine \<Rightarrow> request_state \<times> js_error option" where
  "prepareRequestedNodesForExecution currentNode actions runIndex executionData e =
     foldS (prepare_action currentNode runIndex executionData) actions (e, [], [])"

text \<open>The connection over which the node is resumed, its parent and the metadata it keeps.\<close>

definition prepareRequestingNodeForResuming :: "exec_data \<Rightarrow> (iconn \<times> string \<times> metadata) option" where
  "prepareRequestingNodeForResuming executionData =
     (case map_option s_previousNode (request_source executionData 0) of
        None \<Rightarrow> None
      | Some parentNode \<Rightarrow>
          if parentNode = [] then None
          else
            let md = case_option empty_metadata id (ed_metadata executionData);
                md = (if md_preservedSourceOverwrite md \<noteq> None \<and> md_preserveSourceOverwrite md = Some True
                  then empty_metadata\<lparr>md_preserveSourceOverwrite := Some True,
                    md_preservedSourceOverwrite := md_preservedSourceOverwrite md\<rparr>
                  else empty_metadata)
            in Some (\<lparr>ic_node = n_name (ed_node executionData), ic_type = AiTool, ic_index = 0\<rparr>, parentNode, md))"

definition handleRequest ::
  "inode \<Rightarrow> action list \<Rightarrow> json obj \<Rightarrow> nat \<Rightarrow> exec_data \<Rightarrow> engine \<Rightarrow> (engine \<times> node_to_execute list) \<times> js_error option" where
  "handleRequest currentNode actions requestMetadata runIndex executionData e =
     (case prepareRequestedNodesForExecution currentNode actions runIndex executionData e of
        ((e, nodesToBeExecuted, subActions), Some err) \<Rightarrow> ((e, []), Some err)
      | ((e, nodesToBeExecuted, subActions), None) \<Rightarrow>
          (case prepareRequestingNodeForResuming executionData of
             None \<Rightarrow> ((e, []), None)
           | Some (connectionData, parentNode, md) \<Rightarrow>
               ((e, \<lparr>tb_connection = connectionData, tb_parentOutputIndex = 0, tb_parentNode = parentNode,
                 tb_parentOutputData = mget (ed_data executionData) Main, tb_runIndex = runIndex, tb_nodeRunIndex = runIndex,
                 tb_metadata = Some (md\<lparr>md_nodeWasResumed := Some True,
                   md_subNodeExecutionData := Some \<lparr>sd_actions = subActions, sd_metadata = requestMetadata\<rparr>\<rparr>)\<rparr>
                 # nodesToBeExecuted), None)))"

text \<open>A loop whose body reports an error with its state.\<close>

fun foldO :: "('a \<Rightarrow> 's \<Rightarrow> 's \<times> js_error option) \<Rightarrow> 'a list \<Rightarrow> 's \<Rightarrow> 's \<times> js_error option" where
  "foldO f [] s = (s, None)"
| "foldO f (x # xs) s = (case f x s of (s', None) \<Rightarrow> foldO f xs s' | (s', Some err) \<Rightarrow> (s', Some err))"

definition schedule :: "node_to_execute \<Rightarrow> engine \<Rightarrow> engine \<times> js_error option" where
  "schedule nodeData e = addNodeToBeExecuted (tb_connection nodeData) (tb_parentOutputIndex nodeData) (tb_parentNode nodeData)
     (tb_parentOutputData nodeData) (tb_runIndex nodeData) (Some (tb_nodeRunIndex nodeData)) (tb_metadata nodeData) e"

definition handleEngineRequest ::
  "inode \<Rightarrow> action list \<Rightarrow> json obj \<Rightarrow> nat \<Rightarrow> exec_data \<Rightarrow> engine \<Rightarrow> engine \<times> js_error option" where
  "handleEngineRequest currentNode actions requestMetadata runIndex executionData e =
     (case handleRequest currentNode actions requestMetadata runIndex executionData e of
        ((e, nodesToBeExecuted), Some err) \<Rightarrow> (e, Some err)
      | ((e, nodesToBeExecuted), None) \<Rightarrow> foldO schedule nodesToBeExecuted e)"

text \<open>The results of the actions, when the node is resumed.\<close>

definition collectResponses :: "engine \<Rightarrow> exec_data \<Rightarrow> action_response list" where
  "collectResponses e executionData =
     (case Option.bind (ed_metadata executionData) md_subNodeExecutionData of
        None \<Rightarrow> []
      | Some sub \<Rightarrow> List.map_filter (\<lambda>subNode.
          map_option (\<lambda>td. \<lparr>ar_action = sa_action subNode, ar_data = td\<rparr>)
            (Option.bind (mget (en_runData e) (sa_nodeName subNode)) (\<lambda>runs. arr_get runs (sa_runIndex subNode))))
          (sd_actions sub))"

end
