(* ===== verification/Engine_Tries.thy ===== *)
theory Engine_Tries
  imports Engine_Requests
begin

text \<open>
  The attempts to run one node: retries on errors and on error outputs, pinned data, requests for other
  nodes, and what is done with the output before it enters the run data.
\<close>

section \<open>Definitions\<close>

definition max_tries :: "inode \<Rightarrow> nat" where
  "max_tries node = (if n_retryOnFail node = Some True
     then nat (min 5 (max 2 (case n_maxTries node of None \<Rightarrow> 3 | Some k \<Rightarrow> if k = 0 then 3 else k))) else 1)"

definition wait_between_tries :: "inode \<Rightarrow> int" where
  "wait_between_tries node = (if n_retryOnFail node = Some True
     then min 5000 (max 0 (case n_waitBetweenTries node of None \<Rightarrow> 1000 | Some k \<Rightarrow> if k = 0 then 1000 else k)) else 0)"

text \<open>\<^verbatim>\<open>data.data?.[0]?.[0]?.json?.error\<close> is an error value.\<close>

definition first_item :: "items option list option \<Rightarrow> item option" where
  "first_item nodeSuccessData = Option.bind nodeSuccessData (\<lambda>d. Option.bind (arr_get d 0) (\<lambda>o1. Option.bind o1 (\<lambda>items. arr_get items 0)))"

fun checkFailure :: "node_output \<Rightarrow> bool" where
  "checkFailure (NodeRequest actions md) = False"
| "checkFailure (NodeData d hints) = (case first_item d of
     None \<Rightarrow> False
   | Some item \<Rightarrow> json_at ''error'' (i_json item) \<notin> {JUndef, JNull, JBool False})"

text \<open>The inner loop: a node with an error output is run again, without the results of its tools.\<close>

function rerun :: "env \<Rightarrow> nat \<Rightarrow> nat \<Rightarrow> node_output \<Rightarrow> exec_data \<Rightarrow> engine \<Rightarrow> engine \<times> exec_data \<times> node_output res \<times> nat" where
  "rerun ev maxTries tryIndex output d e =
     (if checkFailure output \<and> Suc tryIndex < maxTries then
        (case runNode ev d [] e of
           (e', d', Inl err) \<Rightarrow> (e', d', Inl err, tryIndex)
         | (e', d', Inr output') \<Rightarrow> rerun ev maxTries (Suc tryIndex) output' d' e')
      else (e, d, Inr output, tryIndex))"
  by pat_completeness auto
termination by (relation "measure (\<lambda>(ev, m, t, out, d, e). m - t)") auto

declare rerun.simps [simp del]

text \<open>
  The variables of the attempts. When \<^verbatim>\<open>handleNodeErrorOutput\<close> throws, the output is what it has left of it.
\<close>

record attempt =
  at_engine :: engine
  at_data :: exec_data
  at_nd :: "items option list option"
  at_hints :: "json list"
  at_responses :: "action_response list"
  at_pinned :: bool

datatype try_result = TryDone | TrySkip | TryError js_error

definition finish_try :: "attempt \<Rightarrow> attempt \<times> try_result" where
  "finish_try a = (case assignPairedItems (at_nd a) (at_data a) of
     Inl err \<Rightarrow> (a, TryError err)
   | Inr nd \<Rightarrow>
       let e = at_engine a;
           e = (if nd \<noteq> None then e\<lparr>en_lastNode := Some (n_name (ed_node (at_data a)))\<rparr> else e);
           a = a\<lparr>at_engine := e, at_nd := nd\<rparr>
       in (case always_output (at_data a) nd of
             Inl err \<Rightarrow> (a, TryError err)
           | Inr nd \<Rightarrow> (a\<lparr>at_nd := nd\<rparr>, if nd = None \<and> \<not> en_waitTill e then TrySkip else TryDone)))"

definition pinned_items :: "engine \<Rightarrow> inode \<Rightarrow> items option" where
  "pinned_items e node = (if disabled node then None else Option.bind (en_pinData e) (\<lambda>p. mget p (n_name node)))"

text \<open>The output of node code, once it is not a request.\<close>

definition accept_output :: "env \<Rightarrow> items option list option \<Rightarrow> json list \<Rightarrow> attempt \<Rightarrow> attempt \<times> try_result" where
  "accept_output ev data hints a =
     (case (case data of None \<Rightarrow> Inr None | Some outputs \<Rightarrow> bindE (ev_convert ev outputs) (\<lambda>d. Inr (Some d))) of
        Inl err \<Rightarrow> (a, TryError err)
      | Inr nd \<Rightarrow>
          let a = a\<lparr>at_nd := nd, at_hints := at_hints a @ hints\<rparr>
          in if nd \<noteq> None \<and> n_onError (ed_node (at_data a)) = Some ContinueErrorOutput
             then (case handleNodeErrorOutput ev (at_data a) (the nd) of
                 Inl err \<Rightarrow> (a\<lparr>at_nd := Some (handleNodeErrorOutput_thrown ev (at_data a) (the nd))\<rparr>, TryError err)
               | Inr nd \<Rightarrow> finish_try (a\<lparr>at_nd := Some nd\<rparr>))
             else finish_try a)"

definition run_once :: "env \<Rightarrow> nat \<Rightarrow> nat \<Rightarrow> nat \<Rightarrow> attempt \<Rightarrow> attempt \<times> nat \<times> try_result" where
  "run_once ev runIndex maxTries tryIndex a =
     (let e = at_engine a; d = at_data a; node = ed_node d in
      case pinned_items e node of
        Some items \<Rightarrow>
          (case finish_try (a\<lparr>at_nd := Some [Some items], at_pinned := True\<rparr>) of (a, r) \<Rightarrow> (a, tryIndex, r))
      | None \<Rightarrow>
          let responses = at_responses a @ collectResponses e d in
          (case runNode ev d responses e of (e, d, output) \<Rightarrow>
            let a = a\<lparr>at_engine := e, at_data := d, at_responses := responses\<rparr> in
            (case output of
               Inl err \<Rightarrow> (a, tryIndex, TryError err)
             | Inr output \<Rightarrow>
                 (case rerun ev maxTries tryIndex output d e of (e, d, output, tryIndex) \<Rightarrow>
                   let a = a\<lparr>at_engine := e, at_data := d\<rparr> in
                   (case output of
                      Inl err \<Rightarrow> (a, tryIndex, TryError err)
                    | Inr (NodeRequest actions md) \<Rightarrow>
                        (case handleEngineRequest node actions md runIndex d e of
                           (e, None) \<Rightarrow> (a\<lparr>at_engine := e\<rparr>, tryIndex, TrySkip)
                         | (e, Some err) \<Rightarrow> (a\<lparr>at_engine := e\<rparr>, tryIndex, TryError err))
                    | Inr (NodeData data hints) \<Rightarrow>
                        (case accept_output ev data hints a of (a, r) \<Rightarrow> (a, tryIndex, r)))))))"

section \<open>The loop over the tries\<close>

lemma rerun_index: "rerun ev m t out d e = (e', d', out', t') \<Longrightarrow> t \<le> t'"
proof (induction ev m t out d e rule: rerun.induct)
  case (1 ev m t out d e)
  show ?case
  proof (cases "checkFailure out \<and> Suc t < m")
    case True
    obtain e1 d1 r where r: "runNode ev d [] e = (e1, d1, r)" by (metis prod_cases3)
    show ?thesis
    proof (cases r)
      case (Inl err)
      with "1.prems" True r show ?thesis by (simp add: rerun.simps [of ev m t])
    next
      case (Inr out1)
      with "1.prems" True r have "rerun ev m (Suc t) out1 d1 e1 = (e', d', out', t')" by (simp add: rerun.simps [of ev m t])
      with "1.IH" [OF True r [symmetric] refl Inr] show ?thesis by simp
    qed
  next
    case False
    with "1.prems" show ?thesis by (auto simp: rerun.simps [of ev m t])
  qed
qed

lemma run_once_index: "run_once ev ri m t a = (a', t', r) \<Longrightarrow> t \<le> t'"
  using rerun_index by (fastforce simp: run_once_def Let_def split: option.splits prod.splits sum.splits node_output.splits)

text \<open>The error of the last try, or none; and whether the node ends the branch.\<close>

function try_loop :: "env \<Rightarrow> nat \<Rightarrow> nat \<Rightarrow> nat \<Rightarrow> js_error option \<Rightarrow> attempt \<Rightarrow> attempt \<times> js_error option \<times> bool" where
  "try_loop ev runIndex maxTries tryIndex executionError a =
     (if maxTries \<le> tryIndex then (a, executionError, False)
      else case run_once ev runIndex maxTries tryIndex a of
        (a', t', TryDone) \<Rightarrow> (a', None, False)
      | (a', t', TrySkip) \<Rightarrow> (a', None, True)
      | (a', t', TryError err) \<Rightarrow>
          try_loop ev runIndex maxTries (Suc t') (Some err)
            (a'\<lparr>at_engine := (at_engine a')\<lparr>en_lastNode := Some (n_name (ed_node (at_data a')))\<rparr>\<rparr>))"
  by pat_completeness auto
termination
  by (relation "measure (\<lambda>(ev, ri, m, t, err, a). m - t)") (auto dest: run_once_index [OF sym])

declare try_loop.simps [simp del]

section \<open>Lemmas\<close>

lemma max_tries_bounds: "1 \<le> max_tries node \<and> max_tries node \<le> 5"
  by (auto simp: max_tries_def split: option.splits)

end
