(* ===== verification/Engine_Release.thy ===== *)
theory Engine_Release
  imports Engine_Join Engine_Items Workflow_Start
begin

text \<open>
  When the stack is empty, nodes that wait for inputs they do not require are run with what they have
  (the end of the loop of \<^verbatim>\<open>processRunExecutionData\<close>).
\<close>

section \<open>Definitions\<close>

text \<open>What the loop does with one waiting node: nothing, an entry on the stack, or an entry dropped without data.\<close>

datatype release = Skip | Added engine | Emptied engine

definition all_required :: "required option \<Rightarrow> nat \<Rightarrow> bool" where
  "all_required r inputs = (case r of None \<Rightarrow> False | Some (RequiredSet xs) \<Rightarrow> length xs = inputs | Some (RequiredCount k) \<Rightarrow> k = inputs)"

definition inputs_with_data :: "items option list \<Rightarrow> nat list" where
  "inputs_with_data main = filter (\<lambda>i. main ! i \<noteq> None) [0..<length main]"

definition required_missing :: "required option \<Rightarrow> items option list \<Rightarrow> bool" where
  "required_missing r main = (case r of
     None \<Rightarrow> False
   | Some (RequiredSet xs) \<Rightarrow> \<not> list_all (\<lambda>i. i \<in> set (inputs_with_data main)) xs
   | Some (RequiredCount k) \<Rightarrow> length (inputs_with_data main) < k)"

text \<open>\<^verbatim>\<open>Object.keys(...).sort()\<close> sorts the run indices as texts.\<close>

definition first_run_index :: "(nat, 'v) jsmap \<Rightarrow> nat option" where
  "first_run_index entries = (case sort_strings (map show_nat (int_keys entries)) of [] \<Rightarrow> None | s # _ \<Rightarrow> Some (parse_nat s))"

definition pad_inputs :: "nat \<Rightarrow> items option list \<Rightarrow> items option list" where
  "pad_inputs n main = (let l = map (\<lambda>d. Some (case_option [] id d)) main in l @ replicate (n - length l) (Some []))"

definition has_items :: "items option list \<Rightarrow> bool" where
  "has_items main = list_ex (\<lambda>d. length (case_option [] id d) > 0) main"

definition try_release :: "env \<Rightarrow> string list \<Rightarrow> engine \<Rightarrow> string \<Rightarrow> release res" where
  "try_release ev waitingNodes e nodeName =
     (case getNode (en_workflow e) nodeName of
        None \<Rightarrow> Inr Skip
      | Some checkNode \<Rightarrow>
          let nodeType = ev_types ev (n_type checkNode) (n_typeVersion checkNode) in
          if en_v1 e \<and> nodeType = None then Inl (TypeError ''description'')
          else
            let requiredInputs = (if en_v1 e then ti_requiredInputs (the nodeType) else None) in
            if requiredInputs \<noteq> None \<and> all_required requiredInputs (ti_inputs (the nodeType)) then Inr Skip
            else if list_ex (\<lambda>p. p \<in> set waitingNodes) (getParentNodes (wf_byDest (en_workflow e)) nodeName (OfType Main) (- 1))
            then Inr Skip
            else case first_run_index (entries_of e nodeName) of
              None \<Rightarrow> Inl (TypeError ''main'')
            | Some firstRunIndex \<Rightarrow>
                let main = waiting_main e nodeName firstRunIndex in
                if required_missing requiredInputs main then Inr Skip
                else if has_items main then
                  (case nodeType of
                     None \<Rightarrow> Inl (TypeError ''description'')
                   | Some ty \<Rightarrow> Inr (Added (remove_waiting nodeName firstRunIndex (e\<lparr>en_stack := en_stack e @
                       [\<lparr>ed_node = checkNode, ed_data = [(Main, pad_inputs (ti_inputs ty) main)],
                         ed_source = mget (sources_of e nodeName) firstRunIndex,
                         ed_runIndex = None, ed_metadata = None\<rparr>]\<rparr>))))
                else Inr (Emptied (remove_waiting nodeName firstRunIndex e)))"

section \<open>The loop ends\<close>

definition waiting_total :: "('k, 'v list) jsmap \<Rightarrow> nat" where
  "waiting_total m = sum_list (map (\<lambda>p. length (snd p)) m)"

lemma waiting_total_simps [simp]:
  "waiting_total [] = 0" "waiting_total (p # m) = length (snd p) + waiting_total m"
  by (simp_all add: waiting_total_def)

lemma waiting_total_update:
  "mget m k = Some v \<Longrightarrow> length v' < length v \<Longrightarrow> waiting_total (mset_at k v' m) < waiting_total m"
  by (induction m) (auto split: if_splits)

lemma waiting_total_delete_le: "waiting_total (mdel k m) \<le> waiting_total m"
  by (induction m) auto

lemma waiting_total_delete:
  "mget m k = Some v \<Longrightarrow> v \<noteq> [] \<Longrightarrow> waiting_total (mdel k m) < waiting_total m"
proof (induction m)
  case (Cons p m)
  then show ?case
  proof (cases "fst p = k")
    case True
    with Cons.prems have "0 < length (snd p)" by (cases p) auto
    moreover have "waiting_total (mdel k (p # m)) \<le> waiting_total m"
      using True waiting_total_delete_le [of k m] by (cases p) simp
    ultimately have "waiting_total (mdel k (p # m)) < length (snd p) + waiting_total m" by linarith
    then show ?thesis by simp
  next
    case False
    with Cons show ?thesis by (cases p) auto
  qed
qed simp

lemma length_del_less: "k \<in> fst ` set m \<Longrightarrow> length (mdel k m) < length m"
proof (induction m)
  case (Cons p m)
  have "length (mdel k m) \<le> length m" by (induction m) auto
  with Cons show ?case by (cases p) (force simp: less_Suc_eq_le Suc_le_eq)
qed simp

lemma first_run_index_key: "first_run_index m = Some k \<Longrightarrow> k \<in> fst ` set m"
proof -
  assume a: "first_run_index m = Some k"
  then obtain s ss where s: "sort_strings (map show_nat (int_keys m)) = s # ss" "k = parse_nat s"
    by (auto simp: first_run_index_def split: list.splits)
  then have "s \<in> set (sort_strings (map show_nat (int_keys m)))" by simp
  then obtain j where "j \<in> set (int_keys m)" "s = show_nat j" by (auto simp: sort_strings_def)
  with s(2) show ?thesis by simp
qed

lemma remove_waiting_total:
  assumes "k \<in> fst ` set (entries_of e nm)"
  shows "waiting_total (en_waiting (remove_waiting nm k e)) < waiting_total (en_waiting e)"
proof -
  obtain m where m: "mget (en_waiting e) nm = Some m" "entries_of e nm = m"
    using assms by (cases "mget (en_waiting e) nm") (auto simp: entries_of_def)
  show ?thesis
  proof (cases "mdel k m = []")
    case True
    moreover have "m \<noteq> []" using m(2) assms by auto
    ultimately show ?thesis using m waiting_total_delete [OF m(1)] by (simp add: remove_waiting_def Let_def)
  next
    case False
    with m assms waiting_total_update [OF m(1) length_del_less] show ?thesis by (auto simp: remove_waiting_def Let_def)
  qed
qed

lemma try_release_total:
  "try_release ev ws e nm = Inr (Emptied e') \<Longrightarrow> waiting_total (en_waiting e') < waiting_total (en_waiting e)"
  "try_release ev ws e nm = Inr (Added e') \<Longrightarrow> waiting_total (en_waiting e') < waiting_total (en_waiting e)"
proof -
  have upd: "en_waiting (remove_waiting nm k (e\<lparr>en_stack := s\<rparr>)) = en_waiting (remove_waiting nm k e)" for k s
    by (simp add: remove_waiting_def Let_def entries_of_def sources_of_def)
  show "try_release ev ws e nm = Inr (Emptied e') \<Longrightarrow> waiting_total (en_waiting e') < waiting_total (en_waiting e)"
    "try_release ev ws e nm = Inr (Added e') \<Longrightarrow> waiting_total (en_waiting e') < waiting_total (en_waiting e)"
    using remove_waiting_total [OF first_run_index_key]
    by (auto simp: try_release_def Let_def upd split: option.splits if_splits)
qed

function release_loop :: "env \<Rightarrow> string list \<Rightarrow> nat \<Rightarrow> engine \<Rightarrow> engine \<times> js_error option" where
  "release_loop ev waitingNodes i e =
     (if length waitingNodes \<le> i then (e, None)
      else case try_release ev waitingNodes e (waitingNodes ! i) of
        Inl err \<Rightarrow> (e, Some err)
      | Inr Skip \<Rightarrow> release_loop ev waitingNodes (Suc i) e
      | Inr (Added e') \<Rightarrow> (e', None)
      | Inr (Emptied e') \<Rightarrow> release_loop ev (obj_keys (en_waiting e')) 0 e')"
  by pat_completeness auto
termination
  by (relation "measures [\<lambda>(ev, ws, i, e). waiting_total (en_waiting e), \<lambda>(ev, ws, i, e). length ws - i]")
    (auto simp: try_release_total)

declare release_loop.simps [simp del]

definition releaseWaiting :: "env \<Rightarrow> engine \<Rightarrow> engine \<times> js_error option" where
  "releaseWaiting ev e = (if en_stack e = [] \<and> obj_keys (en_waiting e) \<noteq> []
     then release_loop ev (obj_keys (en_waiting e)) 0 e else (e, None))"

section \<open>What is left\<close>

text \<open>When nothing was added, every node that is still waiting is skipped.\<close>

lemma release_loop_stuck:
  assumes "release_loop ev ws i e = (e', None)" "en_stack e' = en_stack e" "ws = obj_keys (en_waiting e)"
    and "\<forall>j<i. j < length ws \<longrightarrow> try_release ev ws e (ws ! j) = Inr Skip"
  shows "\<forall>nm\<in>set (obj_keys (en_waiting e')). try_release ev (obj_keys (en_waiting e')) e' nm = Inr Skip"
  using assms
proof (induction ev ws i e rule: release_loop.induct)
  case (1 ev ws i e)
  show ?case
  proof (cases "length ws \<le> i")
    case True
    with 1 have "e' = e" by (simp add: release_loop.simps)
    with 1 True show ?thesis by (auto simp: in_set_conv_nth simp del: set_obj_keys)
  next
    case False
    note eq = release_loop.simps [of ev ws i e]
    show ?thesis
    proof (cases "try_release ev ws e (ws ! i)")
      case (Inl err)
      with False "1.prems"(1) show ?thesis by (simp add: eq)
    next
      case (Inr r)
      show ?thesis
      proof (cases r)
        case Skip
        with Inr False "1.prems"(1) have "release_loop ev ws (Suc i) e = (e', None)" by (simp add: eq)
        moreover have "\<forall>j<Suc i. j < length ws \<longrightarrow> try_release ev ws e (ws ! j) = Inr Skip"
          using "1.prems"(4) Inr Skip by (auto simp: less_Suc_eq)
        ultimately show ?thesis using "1.IH"(1) [OF False Inr Skip] "1.prems"(2,3) by blast
      next
        case (Added e2)
        with Inr False "1.prems"(1) have "e' = e2" by (simp add: eq)
        moreover have "en_stack e2 \<noteq> en_stack e"
          using Inr Added by (auto simp: try_release_def Let_def remove_waiting_def split: option.splits if_splits)
        ultimately show ?thesis using "1.prems"(2) by simp
      next
        case (Emptied e2)
        with Inr False "1.prems"(1) have r: "release_loop ev (obj_keys (en_waiting e2)) 0 e2 = (e', None)" by (simp add: eq)
        have "en_stack e2 = en_stack e"
          using Inr Emptied by (auto simp: try_release_def Let_def remove_waiting_def split: option.splits if_splits)
        with "1.prems"(2) "1.IH"(2) [OF False Inr Emptied r] show ?thesis by simp
      qed
    qed
  qed
qed

end
