(* ===== verification/Engine_Loop.thy ===== *)
theory Engine_Loop
  imports Engine_Tries Engine_Release
begin

text \<open>
  The main loop of \<^verbatim>\<open>processRunExecutionData\<close> as a step function on the state of the engine, its runs, and
  \<^verbatim>\<open>run\<close>, which starts one.
\<close>

section \<open>Missing input data\<close>

text \<open>\<^verbatim>\<open>ensureInputData\<close>: \<open>True\<close> when the node can run; otherwise its entry goes to the back of the stack.\<close>

fun input_data_loop :: "engine \<Rightarrow> exec_data \<Rightarrow> nat list \<Rightarrow> bool" where
  "input_data_loop e executionData [] = True"
| "input_data_loop e executionData (connectionIndex # is) =
     (if length (getHighestNode (en_workflow e) (n_name (ed_node executionData)) (Some connectionIndex)) = 0 then True
      else if \<not> has_main (ed_data executionData) then False
      else if isLegacyExecutionOrder e
          \<and> (length (main_data (ed_data executionData)) < connectionIndex
             \<or> arr_get (main_data (ed_data executionData)) connectionIndex = Some None) then False
      else input_data_loop e executionData is)"

definition ensureInputData :: "exec_data \<Rightarrow> engine \<Rightarrow> engine \<times> bool" where
  "ensureInputData executionData e =
     (if input_data_loop e executionData [0..<numberOfInputs e (n_name (ed_node executionData))] then (e, True)
      else (e\<lparr>en_stack := en_stack e @ [executionData]\<rparr>, False))"

section \<open>Run data\<close>

text \<open>\<^verbatim>\<open>Object.assign(currentTaskData, taskData)\<close> on the properties that may be absent.\<close>

definition assign_task :: "task_data \<Rightarrow> task_data \<Rightarrow> task_data" where
  "assign_task current td = td\<lparr>td_inputOverride := or_else (td_inputOverride current) (td_inputOverride td),
     td_data := or_else (td_data current) (td_data td), td_error := or_else (td_error current) (td_error td)\<rparr>"

definition store_task :: "string \<Rightarrow> nat \<Rightarrow> task_data \<Rightarrow> engine \<Rightarrow> engine" where
  "store_task nodeName runIndex td e =
     (let runs = (case mget (en_runData e) nodeName of None \<Rightarrow> [] | Some l \<Rightarrow> l)
      in e\<lparr>en_runData := mset_at nodeName
           (if runIndex < length runs then runs[runIndex := assign_task (runs ! runIndex) td] else runs @ [td]) (en_runData e)\<rparr>)"

definition input_override :: "string \<Rightarrow> nat \<Rightarrow> engine \<Rightarrow> task_data_conns" where
  "input_override nodeName runIndex e =
     (case Option.bind (mget (en_runData e) nodeName) (\<lambda>runs. Option.bind (arr_get runs runIndex) td_inputOverride) of
        None \<Rightarrow> [] | Some d \<Rightarrow> d)"

definition ensure_runs :: "string \<Rightarrow> engine \<Rightarrow> engine" where
  "ensure_runs nodeName e = (if mhas (en_runData e) nodeName then e else e\<lparr>en_runData := mset_at nodeName [] (en_runData e)\<rparr>)"

definition run_index :: "engine \<Rightarrow> exec_data \<Rightarrow> nat" where
  "run_index e d = (case ed_runIndex d of Some k \<Rightarrow> k
     | None \<Rightarrow> (case mget (en_runData e) (n_name (ed_node d)) of None \<Rightarrow> 0 | Some runs \<Rightarrow> length runs))"

text \<open>\<^verbatim>\<open>error.message\<close>\<close>

fun message_text :: "js_error \<Rightarrow> string" where
  "message_text (AssertionError m) = m"
| "message_text (TypeError m) = m"
| "message_text (ApplicationError m) = m"
| "message_text (UserError m) = m"
| "message_text (UnexpectedError m) = m"
| "message_text (OperationalError m) = m"
| "message_text WorkflowHasIssues = ''The workflow has issues and cannot be executed for that reason. Please fix them first.''"
| "message_text (NodeError m) = m"

text \<open>The task data of a finished node.\<close>

definition new_task :: "nat \<Rightarrow> exec_data \<Rightarrow> json list \<Rightarrow> bool \<Rightarrow> js_error option \<Rightarrow> task_data" where
  "new_task executionIndex d hints waitTill err =
     \<lparr>td_executionIndex = Some executionIndex,
      td_source = (case ed_source d of None \<Rightarrow> [] | Some s \<Rightarrow> main_of s), td_hints = hints,
      td_status = Some (if err \<noteq> None then StError else if waitTill then StWaiting else StSuccess),
      td_data = None, td_inputOverride = None, td_error = map_option message_text err,
      td_metadata = ed_metadata d, td_usedDynamicCredentials = None\<rparr>"

definition continues_on_error :: "inode \<Rightarrow> bool" where
  "continues_on_error node = (n_continueOnFail node = Some True
     \<or> n_onError node \<in> {Some ContinueRegularOutput, Some ContinueErrorOutput})"

section \<open>Successors\<close>

text \<open>The nodes more to the top left come first: they are added last, to the front of the stack.\<close>

definition by_position :: "((int \<times> int) \<times> 'a) list \<Rightarrow> ((int \<times> int) \<times> 'a) list" where
  "by_position nodesToAdd = sort_key (\<lambda>n. - snd (fst n)) (sort_key (\<lambda>n. - fst (fst n)) nodesToAdd)"

definition add_successor ::
  "string \<Rightarrow> items option list \<Rightarrow> nat \<Rightarrow> nat \<times> iconn \<Rightarrow> engine \<Rightarrow> engine \<times> js_error option" where
  "add_successor nodeName nodeSuccessData runIndex c e =
     addNodeToBeExecuted (snd c) (fst c) nodeName (Some nodeSuccessData) runIndex None None e"

definition has_output :: "engine \<Rightarrow> items option list \<Rightarrow> nat \<times> iconn \<Rightarrow> bool" where
  "has_output e nodeSuccessData c = (case arr_get nodeSuccessData (fst c) of
     Some (Some items) \<Rightarrow> length items \<noteq> 0 \<or> (ic_index (snd c) > 0 \<and> isLegacyExecutionOrder e)
   | _ \<Rightarrow> False)"

text \<open>The connections of the outputs of a node, with the index of the output.\<close>

definition output_connections :: "engine \<Rightarrow> string \<Rightarrow> (nat \<times> iconn) list" where
  "output_connections e nodeName = concat (map (\<lambda>(outputIndex, l). map (Pair outputIndex) (case_option [] id l))
     (enumerate0 (cells (wf_bySource (en_workflow e)) nodeName Main)))"

definition position_of :: "engine \<Rightarrow> iconn \<Rightarrow> int \<times> int" where
  "position_of e c = (case getNode (en_workflow e) (ic_node c) of None \<Rightarrow> (0, 0) | Some n \<Rightarrow> n_position n)"

definition check_destination :: "engine \<Rightarrow> nat \<times> iconn \<Rightarrow> unit res" where
  "check_destination e c = (if mhas (wf_nodes (en_workflow e)) (ic_node (snd c)) then Inr ()
     else Inl (ApplicationError ''Destination node not found''))"

definition addSuccessors :: "string \<Rightarrow> items option list \<Rightarrow> nat \<Rightarrow> engine \<Rightarrow> engine \<times> js_error option" where
  "addSuccessors nodeName nodeSuccessData runIndex e =
     (if en_v1 e then
        (case foldE (\<lambda>c acc. bindE (check_destination e c) (\<lambda>_.
              Inr (if has_output e nodeSuccessData c then acc @ [(position_of e (snd c), c)] else acc)))
            (output_connections e nodeName) [] of
           Inl err \<Rightarrow> (e, Some err)
         | Inr nodesToAdd \<Rightarrow> foldO (\<lambda>n. add_successor nodeName nodeSuccessData runIndex (snd n)) (by_position nodesToAdd) e)
      else foldO (\<lambda>c e. case check_destination e c of
          Inl err \<Rightarrow> (e, Some err)
        | Inr _ \<Rightarrow> if has_output e nodeSuccessData c then add_successor nodeName nodeSuccessData runIndex c e else (e, None))
        (output_connections e nodeName) e)"

section \<open>One iteration\<close>

record loop =
  lp_engine :: engine
  lp_lastTry :: "(string \<times> nat) option"
  lp_error :: "js_error option"

datatype step = Continue loop | Break loop | Return loop | Throw js_error loop

definition log_hook :: "hook_event \<Rightarrow> engine \<Rightarrow> engine" where
  "log_hook h e = e\<lparr>en_log := en_log e @ [h]\<rparr>"

text \<open>Mutations of pinned items stay in the pinned data.\<close>

definition write_pinned :: "attempt \<Rightarrow> items option list \<Rightarrow> engine \<Rightarrow> engine" where
  "write_pinned a nd e =
     (let name = n_name (ed_node (at_data a)) in
      case (pinned_items e (ed_node (at_data a)), arr_get nd 0) of
        (Some (x # xs), Some (Some items)) \<Rightarrow>
          if at_pinned a then e\<lparr>en_pinData := map_option (mset_at name items) (en_pinData e)\<rparr> else e
      | _ \<Rightarrow> e)"

text \<open>The node failed for good: its error is stored and the entry goes back to the stack.\<close>

definition stop_on_error :: "nat \<Rightarrow> js_error \<Rightarrow> task_data \<Rightarrow> exec_data \<Rightarrow> engine \<Rightarrow> engine" where
  "stop_on_error runIndex err td d e =
     (let node = ed_node d;
          td = (case n_rewireOutputLogTo node of
              None \<Rightarrow> td
            | Some t \<Rightarrow> td\<lparr>td_inputOverride := Some (input_override (n_name node) runIndex e),
                td_data := Some [(t, [Some [json_item [(''error'', JStr (message_text err))]]])]\<rparr>);
          e = store_task (n_name node) runIndex td e
      in log_hook (NodeExecuteAfter (n_name node)) (e\<lparr>en_stack := d # en_stack e\<rparr>))"

text \<open>The output of the node enters the run data.\<close>

definition finished_task :: "nat \<Rightarrow> items option list \<Rightarrow> task_data \<Rightarrow> inode \<Rightarrow> engine \<Rightarrow> task_data" where
  "finished_task runIndex nd td node e = (case n_rewireOutputLogTo node of
     None \<Rightarrow> td\<lparr>td_data := Some [(Main, nd)]\<rparr>
   | Some t \<Rightarrow> td\<lparr>td_inputOverride := Some (input_override (n_name node) runIndex e), td_data := Some [(t, nd)]\<rparr>)"

text \<open>From the stored output on: waiting, the destination, the successors and the waiting nodes.\<close>

definition after_store :: "env \<Rightarrow> nat \<Rightarrow> items option list \<Rightarrow> exec_data \<Rightarrow> loop \<Rightarrow> step" where
  "after_store ev runIndex nd d lp =
     (let e = lp_engine lp; name = n_name (ed_node d); after = log_hook (NodeExecuteAfter name) in
      if en_waitTill e then Break (lp\<lparr>lp_engine := (after e)\<lparr>en_stack := d # en_stack e\<rparr>\<rparr>)
      else if map_option fst (en_destination e) = Some name then Continue (lp\<lparr>lp_engine := after e\<rparr>)
      else (case addSuccessors name nd runIndex e of
          (e, Some err) \<Rightarrow> Throw err (lp\<lparr>lp_engine := e\<rparr>)
        | (e, None) \<Rightarrow> (case releaseWaiting ev (after e) of
              (e, Some err) \<Rightarrow> Throw err (lp\<lparr>lp_engine := e\<rparr>)
            | (e, None) \<Rightarrow> Continue (lp\<lparr>lp_engine := e\<rparr>))))"

definition after_tries :: "env \<Rightarrow> nat \<Rightarrow> nat \<Rightarrow> attempt \<Rightarrow> js_error option \<Rightarrow> loop \<Rightarrow> step" where
  "after_tries ev executionIndex runIndex a err lp =
     (let d = at_data a; node = ed_node d; name = n_name node;
          e = ensure_runs name (at_engine a);
          td = new_task executionIndex d (at_hints a) (en_waitTill e) err;
          lp = lp\<lparr>lp_engine := e, lp_error := err\<rparr> in
      if err \<noteq> None \<and> \<not> continues_on_error node
      then Break (lp\<lparr>lp_engine := stop_on_error runIndex (the err) td d e\<rparr>)
      else
        let nd = (case (err, arr_get (main_data (ed_data d)) 0) of
              (Some _, Some (Some items)) \<Rightarrow> Some [Some items]
            | _ \<Rightarrow> at_nd a)
        in (case mergeErrors nd of
              Inl err \<Rightarrow> Throw err lp
            | Inr nd \<Rightarrow>
                let e = write_pinned a nd e;
                    e = store_task name runIndex (finished_task runIndex nd td node e) e
                in after_store ev runIndex nd d (lp\<lparr>lp_engine := e\<rparr>)))"

definition start_attempt :: "exec_data \<Rightarrow> engine \<Rightarrow> attempt" where
  "start_attempt d e = \<lparr>at_engine = e, at_data = d, at_nd = None, at_hints = [], at_responses = [], at_pinned = False\<rparr>"

text \<open>Running the node: the hook, the tries and what follows.\<close>

definition execute_entry :: "env \<Rightarrow> nat \<Rightarrow> nat \<Rightarrow> exec_data \<Rightarrow> loop \<Rightarrow> step" where
  "execute_entry ev executionIndex runIndex d lp =
     (let e = lp_engine lp;
          resumed = (Option.bind (ed_metadata d) md_nodeWasResumed = Some True);
          e = (if resumed then e else log_hook (NodeExecuteBefore (n_name (ed_node d))) e)
      in case try_loop ev runIndex (max_tries (ed_node d)) 0 None (start_attempt d e) of
           (a, err, True) \<Rightarrow> Continue (lp\<lparr>lp_engine := at_engine a, lp_error := None\<rparr>)
         | (a, err, False) \<Rightarrow> after_tries ev executionIndex runIndex a err lp)"

definition exec_step :: "env \<Rightarrow> loop \<Rightarrow> step" where
  "exec_step ev lp =
     (let e = lp_engine lp;
          e = (if ev_timeout ev (en_execIndex e) then e\<lparr>en_status := StCanceled\<rparr> else e) in
      if en_status e = StCanceled then Return (lp\<lparr>lp_engine := e\<rparr>)
      else case en_stack e of
        [] \<Rightarrow> Return lp
      | d # rest \<Rightarrow>
          let executionIndex = en_execIndex e;
              e = e\<lparr>en_stack := rest, en_execIndex := Suc executionIndex\<rparr>;
              d = pair_inputs d; name = n_name (ed_node d); runIndex = run_index e d;
              lp = lp\<lparr>lp_engine := e, lp_error := None\<rparr> in
          if lp_lastTry lp = Some (name, runIndex)
          then Throw (ApplicationError ''Stopped execution because it seems to be in an endless loop'') lp
          else if (case en_runNodeFilter e of None \<Rightarrow> False | Some f \<Rightarrow> name \<notin> set f) then Continue lp
          else (case ensureInputData d e of
              (e, False) \<Rightarrow> Continue (lp\<lparr>lp_engine := e, lp_lastTry := Some (name, runIndex)\<rparr>)
            | (e, True) \<Rightarrow> execute_entry ev executionIndex runIndex d (lp\<lparr>lp_engine := e\<rparr>)))"

section \<open>Whole runs\<close>

record run_result =
  rr_engine :: engine
  rr_finished :: bool
  rr_error :: "string option"

text \<open>An error that contains the word is a cancellation.\<close>

definition processSuccessExecution :: "string option \<Rightarrow> engine \<Rightarrow> run_result" where
  "processSuccessExecution executionError e =
     (let status = (case executionError of
          Some m \<Rightarrow> if contains ''canceled'' m then StCanceled else StError
        | None \<Rightarrow> if en_waitTill e then StWaiting else StSuccess);
          e = moveNodeMetadata (e\<lparr>en_status := status\<rparr>);
          e = (if executionError = None then e else e\<lparr>en_error := executionError\<rparr>)
      in \<lparr>rr_engine = e, rr_finished = (executionError = None \<and> \<not> en_waitTill e), rr_error = executionError\<rparr>)"

text \<open>An error that leaves the loop: it is stored, and the status stays what it was.\<close>

definition processFailure :: "js_error \<Rightarrow> engine \<Rightarrow> run_result" where
  "processFailure err e = (let m = Some (message_text err)
     in \<lparr>rr_engine = moveNodeMetadata (e\<lparr>en_error := m\<rparr>), rr_finished = False, rr_error = m\<rparr>)"

definition end_loop :: "loop \<Rightarrow> run_result" where
  "end_loop lp = (if en_status (lp_engine lp) = StCanceled \<and> lp_error lp = None
     then processSuccessExecution (Some ''The execution was canceled'') (lp_engine lp)
     else processSuccessExecution (map_option message_text (lp_error lp)) (lp_engine lp))"

text \<open>The loop need not end: at most \<open>fuel\<close> iterations, \<open>None\<close> when they are not enough.\<close>

fun run_loop :: "env \<Rightarrow> nat \<Rightarrow> loop \<Rightarrow> run_result option" where
  "run_loop ev 0 lp = (if en_stack (lp_engine lp) = [] then Some (end_loop lp) else None)"
| "run_loop ev (Suc fuel) lp =
     (if en_stack (lp_engine lp) = [] then Some (end_loop lp)
      else case exec_step ev lp of
        Continue lp \<Rightarrow> run_loop ev fuel lp
      | Break lp \<Rightarrow> Some (end_loop lp)
      | Return lp \<Rightarrow> Some (end_loop lp)
      | Throw err lp \<Rightarrow> Some (processFailure err (lp_engine lp)))"

definition processRunExecutionData ::
  "node_types \<Rightarrow> (inode \<Rightarrow> string list \<Rightarrow> json option) \<Rightarrow> env \<Rightarrow> nat \<Rightarrow> engine \<Rightarrow> run_result option res" where
  "processRunExecutionData types issues ev fuel e =
     (let e = e\<lparr>en_status := StRunning\<rparr> in
      bindE (checkForWorkflowIssues types issues e) (\<lambda>_.
        case handleWaitingState e of
          (e, Some err) \<Rightarrow> Inl err
        | (e, None) \<Rightarrow> Inr (run_loop ev fuel \<lparr>lp_engine = e, lp_lastTry = None, lp_error = None\<rparr>)))"

text \<open>A new execution; \<open>triggerData\<close> is the data of the trigger the execution starts from.\<close>

definition start_engine :: "engine \<Rightarrow> inode \<Rightarrow> (string \<times> bool) option \<Rightarrow> pin_data option \<Rightarrow> task_data_conns option \<Rightarrow> string list option \<Rightarrow> engine" where
  "start_engine e startNode destinationNode pinData triggerData additionalRunFilterNodes =
     (let w = en_workflow e;
          runNodeFilter = map_option (\<lambda>(d, inclusive). mk_set
            (getParentNodes (wf_byDest w) d (OfType Main) (- 1) @ getParentNodes (wf_byDest w) d AllNonMain (- 1)
              @ (if inclusive then [d] else []) @ case_option [] id additionalRunFilterNodes)) destinationNode
      in e\<lparr>en_stack := [\<lparr>ed_node = startNode,
             ed_data = (case triggerData of Some t \<Rightarrow> t | None \<Rightarrow> [(Main, [Some [json_item []]])]),
             ed_source = None, ed_runIndex = None, ed_metadata = None\<rparr>],
           en_waiting := [], en_waitingSource := [], en_runData := [], en_pinData := pinData, en_metadata := [],
           en_lastNode := None, en_error := None, en_waitTill := False, en_runNodeFilter := runNodeFilter,
           en_destination := destinationNode\<rparr>)"

definition run ::
  "node_types \<Rightarrow> (inode \<Rightarrow> string list \<Rightarrow> json option) \<Rightarrow> env \<Rightarrow> nat \<Rightarrow> engine \<Rightarrow> inode option \<Rightarrow> (string \<times> bool) option
    \<Rightarrow> pin_data option \<Rightarrow> task_data_conns option \<Rightarrow> string list option \<Rightarrow> run_result option res" where
  "run types issues ev fuel e startNode destinationNode pinData triggerData additionalRunFilterNodes =
     bindE (case startNode of Some n \<Rightarrow> Inr (Some n)
       | None \<Rightarrow> getStartNode types (en_workflow e) (map_option fst destinationNode)) (\<lambda>start.
     case start of
       None \<Rightarrow> Inl (ApplicationError ''No node to start the workflow from could be found'')
     | Some n \<Rightarrow> processRunExecutionData types issues ev fuel
         (start_engine e n destinationNode pinData triggerData additionalRunFilterNodes))"

end
