(* ===== verification/Engine_Frame.thy ===== *)
theory Engine_Frame
  imports Engine_Loop
begin

text \<open>
  What an iteration of the main loop leaves alone. A relation between states that is kept by the few
  primitive changes the operations are made of is kept by all of them and by a whole iteration; the
  properties of executions are interpretations of this contract.
\<close>

text \<open>Another input adds at most one entry to the stack.\<close>

lemma maybe_enqueue:
  assumes "bindE A (\<lambda>m. case m of None \<Rightarrow> Inr e
      | Some n \<Rightarrow> bindE (B n) (\<lambda>b. if b then (case C n of None \<Rightarrow> Inl (X n) | Some nd \<Rightarrow> Inr (enqueue (D n nd) e)) else Inr e)) = Inr e'"
  shows "e' = e \<or> (\<exists>d. e' = enqueue d e)"
proof (cases A)
  case (Inr m)
  show ?thesis
  proof (cases m)
    case None
    with assms Inr show ?thesis by simp
  next
    case (Some n)
    with assms Inr show ?thesis by (cases "B n"; cases "C n") (auto split: if_splits)
  qed
qed (use assms in simp)

lemma force_source_cases: "force_source ns oi p nd ri n e = Inr e' \<Longrightarrow> e' = e \<or> (\<exists>d. e' = enqueue d e)"
  unfolding force_source_def Let_def by (rule maybe_enqueue)

lemma check_input_cases: "check_input ns oi p nd ri c e = Inr e' \<Longrightarrow> e' = e \<or> (\<exists>d. e' = enqueue d e)"
  unfolding check_input_def by (auto simp only: bindE_eq_Inr sum.inject dest: force_source_cases split: if_splits)

text \<open>The tries keep the node of the entry.\<close>

lemma runNode_node: "ed_node (fst (snd (runNode ev d rs e))) = ed_node d"
  by (simp add: runNode_def Let_def call_code_def add_tracing_def split: option.splits sum.splits)

lemma rerun_node: "ed_node (fst (snd (rerun ev m t out d e))) = ed_node d"
proof (induction ev m t out d e rule: rerun.induct)
  case (1 ev m t out d e)
  show ?case
  proof (cases "checkFailure out \<and> Suc t < m")
    case True
    obtain e1 d1 r where r: "runNode ev d [] e = (e1, d1, r)" by (metis prod_cases3)
    then have d1: "ed_node d1 = ed_node d" using runNode_node [of ev d "[]" e] by simp
    show ?thesis
    proof (cases r)
      case (Inl err)
      with True r d1 show ?thesis by (simp add: rerun.simps [of ev m t])
    next
      case (Inr out1)
      with "1.IH" [OF True r [symmetric] refl Inr] d1 True r show ?thesis by (simp add: rerun.simps [of ev m t])
    qed
  qed (auto simp: rerun.simps [of ev m t])
qed

lemma finish_try_data: "at_data (fst (finish_try a)) = at_data a"
  by (auto simp: finish_try_def Let_def split: sum.splits)

lemma accept_output_data: "at_data (fst (accept_output ev nd hs a)) = at_data a"
  by (auto simp: accept_output_def Let_def finish_try_data split: sum.splits)

text \<open>Whether some call of node code asks for other nodes.\<close>

definition asks :: "env \<Rightarrow> bool" where
  "asks ev \<longleftrightarrow> (\<exists>n nd i rs as md. cf_result (ev_code ev n nd i rs) = Inr (NodeRequest as md))"

lemma asksI: "cf_result (ev_code ev n nd i rs) = Inr (NodeRequest as md) \<Longrightarrow> asks ev"
  by (force simp: asks_def)

lemma runNode_asks: "runNode ev d rs e = (e', d', Inr (NodeRequest as md)) \<Longrightarrow> asks ev"
  by (auto simp: runNode_def Let_def call_code_def pass_through_def handleDisabledNode_def dest: asksI
      split: option.splits sum.splits if_splits)

lemma rerun_asks:
  "rerun ev m t out d e = (e', d', Inr (NodeRequest as md), t') \<Longrightarrow> (\<forall>as md. out \<noteq> NodeRequest as md) \<or> asks ev \<Longrightarrow> asks ev"
proof (induction ev m t out d e rule: rerun.induct)
  case (1 ev m t out d e)
  note eq = rerun.simps [of ev m t]
  show ?case
  proof (cases "checkFailure out \<and> Suc t < m")
    case True
    obtain e1 d1 r where r: "runNode ev d [] e = (e1, d1, r)" by (metis prod_cases3)
    show ?thesis
    proof (cases r)
      case (Inl err)
      with "1.prems"(1) True r show ?thesis by (simp add: eq)
    next
      case (Inr out1)
      with "1.prems"(1) True r have "rerun ev m (Suc t) out1 d1 e1 = (e', d', Inr (NodeRequest as md), t')" by (simp add: eq)
      from "1.IH" [OF True r [symmetric] refl Inr this] r Inr show ?thesis using runNode_asks by (cases out1) blast+
    qed
  next
    case False
    with "1.prems" show ?thesis by (auto simp: eq)
  qed
qed

text \<open>The state after an iteration, however it ends.\<close>

primrec step_loop :: "step \<Rightarrow> loop" where
  "step_loop (Continue lp) = lp"
| "step_loop (Break lp) = lp"
| "step_loop (Return lp) = lp"
| "step_loop (Throw err lp) = lp"

lemma new_task_index: "td_executionIndex (new_task k d hs w err) = Some k"
  by (simp add: new_task_def)

lemma finished_task_index: "td_executionIndex (finished_task ri nd td node e) = td_executionIndex td"
  by (simp add: finished_task_def split: option.splits)

lemma pair_inputs_node [simp]: "ed_node (pair_inputs d) = ed_node d"
  by (simp add: pair_inputs_def)

section \<open>The contract\<close>

text \<open>
  \<open>R\<close> relates the state before to the state after, while the node \<open>name\<close> runs with the execution
  index \<open>k\<close>.
\<close>

locale state_order =
  fixes R :: "engine \<Rightarrow> engine \<Rightarrow> bool"
  assumes refl: "R e e"
    and trans: "R e1 e2 \<Longrightarrow> R e2 e3 \<Longrightarrow> R e1 e3"
    and last_node: "R e (e\<lparr>en_lastNode := n\<rparr>)"
begin

lemma finish_try_R: "R (at_engine a) (at_engine (fst (finish_try a)))"
  by (auto simp: finish_try_def Let_def last_node refl split: sum.splits option.splits)

lemma accept_output_R: "R (at_engine a) (at_engine (fst (accept_output ev nd hs a)))"
proof -
  have *: "R (at_engine a) (at_engine (fst (finish_try b)))" if "at_engine b = at_engine a" for b
    using finish_try_R [of b] that by simp
  show ?thesis by (auto simp: accept_output_def Let_def refl * split: sum.splits)
qed

end

text \<open>The tries, when node code asks for other nodes only if the relation is kept by that.\<close>

locale try_frame = state_order +
  fixes ev :: env
  assumes call: "en_calls e \<le> c \<Longrightarrow> R e (e\<lparr>en_calls := c, en_waitTill := b\<rparr>)"
    and asked: "asks ev \<Longrightarrow> R e (fst (handleEngineRequest nd as md ri d e))"
begin

lemma runNode_R: "R e (fst (runNode ev d rs e))"
  using call [of e "Suc (en_calls e)"] refl [of e]
  by (simp add: runNode_def Let_def call_code_def split: option.splits sum.splits)

lemma rerun_R: "R e (fst (rerun ev m t out d e))"
proof -
  have "ev' = ev \<longrightarrow> R e (fst (rerun ev' m t out d e))" for ev'
  proof (induction ev' m t out d e rule: rerun.induct)
    case (1 ev' m t out d e)
    show ?case
    proof (intro impI, cases "checkFailure out \<and> Suc t < m")
      assume ev: "ev' = ev"
      case True
      obtain e1 d1 r where r: "runNode ev d [] e = (e1, d1, r)" by (metis prod_cases3)
      have e1: "R e e1" using runNode_R [of e d "[]"] r by simp
      show "R e (fst (rerun ev' m t out d e))"
      proof (cases r)
        case (Inl err)
        with True r e1 ev show ?thesis by (simp add: rerun.simps [of ev m t])
      next
        case (Inr out1)
        from r ev have "runNode ev' d [] e = (e1, d1, r)" by simp
        with "1.IH" [OF True this [symmetric] HOL.refl Inr] ev
        have "R e1 (fst (rerun ev m (Suc t) out1 d1 e1))" by simp
        with True Inr r ev show ?thesis using trans [OF e1] by (simp add: rerun.simps [of ev m t])
      qed
    next
      assume "ev' = ev"
      case False
      then show "R e (fst (rerun ev' m t out d e))" by (auto simp: rerun.simps [of ev' m t] refl)
    qed
  qed
  then show ?thesis by blast
qed

lemma run_once_R:
  assumes "run_once ev ri m t a = (a', t', r)"
  shows "R (at_engine a) (at_engine a') \<and> ed_node (at_data a') = ed_node (at_data a)"
proof (cases "pinned_items (at_engine a) (ed_node (at_data a))")
  case (Some items)
  let ?b = "a\<lparr>at_nd := Some [Some items], at_pinned := True\<rparr>"
  from assms Some have "a' = fst (finish_try ?b)" by (auto simp: run_once_def Let_def split: prod.splits)
  then show ?thesis using finish_try_R [of ?b] finish_try_data [of ?b] by simp
next
  case None
  let ?rs = "at_responses a @ collectResponses (at_engine a) (at_data a)"
  obtain e1 d1 o1 where r1: "runNode ev (at_data a) ?rs (at_engine a) = (e1, d1, o1)" by (metis prod_cases3)
  have e1: "R (at_engine a) e1" using runNode_R [of "at_engine a" "at_data a" ?rs] r1 by simp
  have d1: "ed_node d1 = ed_node (at_data a)" using runNode_node [of ev "at_data a" ?rs "at_engine a"] r1 by simp
  show ?thesis
  proof (cases o1)
    case (Inl err)
    with assms None r1 e1 d1 show ?thesis by (auto simp: run_once_def Let_def)
  next
    case (Inr out)
    obtain e2 d2 o2 t2 where r2: "rerun ev m t out d1 e1 = (e2, d2, o2, t2)" by (metis prod_cases4)
    have e2: "R (at_engine a) e2" using trans [OF e1 rerun_R [of e1 m t out d1]] r2 by simp
    have d2: "ed_node d2 = ed_node (at_data a)" using rerun_node [of ev m t out d1 e1] d1 r2 by simp
    let ?b = "a\<lparr>at_responses := ?rs, at_engine := e2, at_data := d2\<rparr>"
    have b: "a\<lparr>at_engine := e1, at_data := d1, at_responses := ?rs, at_engine := e2, at_data := d2\<rparr> = ?b" by simp
    note unf = assms [unfolded run_once_def Let_def, simplified None r1 Inr r2 option.case prod.case sum.case]
    show ?thesis
    proof (cases o2)
      case (Inl err)
      with unf e2 d2 show ?thesis by auto
    next
      case out2: (Inr out2)
      show ?thesis
      proof (cases out2)
        case (NodeData nd hs)
        with unf out2 have "a' = fst (accept_output ev nd hs ?b)" by (auto split: prod.splits)
        then show ?thesis using trans [OF e2] accept_output_R [of ?b ev nd hs] accept_output_data [of ev nd hs ?b] d2 by simp
      next
        case (NodeRequest as md)
        let ?h = "handleEngineRequest (ed_node (at_data a)) as md ri d2 e2"
        from unf out2 NodeRequest have at: "at_engine a' = fst ?h" "at_data a' = d2" by (auto split: prod.splits option.splits)
        have "rerun ev m t out d1 e1 = (e2, d2, Inr (NodeRequest as md), t2)" using r2 out2 NodeRequest by simp
        moreover have "(\<forall>as md. out \<noteq> NodeRequest as md) \<or> asks ev" using runNode_asks r1 Inr by blast
        ultimately have "asks ev" by (rule rerun_asks)
        with at show ?thesis using trans [OF e2 asked] d2 by simp
      qed
    qed
  qed
qed

lemma try_loop_R:
  assumes "try_loop ev ri m t err a = (a', err', b)"
  shows "R (at_engine a) (at_engine a') \<and> ed_node (at_data a') = ed_node (at_data a)"
proof -
  have "ev' = ev \<longrightarrow> try_loop ev' ri m t err a = (a', err', b)
    \<longrightarrow> R (at_engine a) (at_engine a') \<and> ed_node (at_data a') = ed_node (at_data a)" for ev'
  proof (induction ev' ri m t err a rule: try_loop.induct)
    case (1 ev' ri m t err a)
    note eq = try_loop.simps [of ev' ri m t err a]
    show ?case
    proof (intro impI)
      assume ev: "ev' = ev" and p: "try_loop ev' ri m t err a = (a', err', b)"
      show "R (at_engine a) (at_engine a') \<and> ed_node (at_data a') = ed_node (at_data a)"
      proof (cases "m \<le> t")
        case True
        with p show ?thesis by (simp add: eq refl)
      next
        case False
        obtain a1 t1 r where r: "run_once ev' ri m t a = (a1, t1, r)" by (metis prod_cases3)
        note a1 = run_once_R [OF r [unfolded ev]]
        show ?thesis
        proof (cases r)
          case (TryError e1)
          let ?a = "a1\<lparr>at_engine := (at_engine a1)\<lparr>en_lastNode := Some (n_name (ed_node (at_data a1)))\<rparr>\<rparr>"
          from False r TryError p have "try_loop ev' ri m (Suc t1) (Some e1) ?a = (a', err', b)" by (simp add: eq)
          with "1.IH" [OF False r [symmetric] HOL.refl TryError] ev
          have "R (at_engine ?a) (at_engine a') \<and> ed_node (at_data a') = ed_node (at_data a1)" by simp
          moreover have "R (at_engine a1) (at_engine ?a)" by (simp add: last_node)
          ultimately show ?thesis using a1 by (metis trans)
        qed (use False r a1 p in \<open>auto simp: eq\<close>)
      qed
    qed
  qed
  then show ?thesis using assms by blast
qed

end

text \<open>Everything but the calls of node code.\<close>

locale state_frame = state_order +
  fixes name :: string and k :: nat
  assumes stack: "R e (e\<lparr>en_stack := s\<rparr>)"
    and waiting: "R e (e\<lparr>en_waiting := w\<rparr>)"
    and sources: "R e (e\<lparr>en_waitingSource := ws\<rparr>)"
    and rewire: "R e (update_node ref (\<lambda>n. n\<lparr>n_rewireOutputLogTo := t\<rparr>) e)"
    and pins: "R e (e\<lparr>en_pinData := p\<rparr>)"
    and request: "R e (e\<lparr>en_runData := fst (initializeNodeRunData nm pn oi pri hp ri dd (en_runData e))\<rparr>)"
    and runs: "R e (ensure_runs nm e)"
    and store: "td_executionIndex td = Some k \<Longrightarrow> R e (store_task name ri td e)"
    and before: "R e (log_hook (NodeExecuteBefore name) e)"
    and after: "R e (log_hook (NodeExecuteAfter name) e)"
begin

lemma step: "R e e1 \<Longrightarrow> e2 = f e1 \<Longrightarrow> R e1 (f e1) \<Longrightarrow> R e e2"
  using trans by blast

lemma enqueue_R: "R e (enqueue d e)"
  by (simp add: enqueue_def stack)

lemma put_waiting_R: "R e (put_waiting nm i m e)"
  by (simp add: put_waiting_def waiting)

lemma put_source_R: "R e (put_source nm i m e)"
  by (simp add: put_source_def sources)

lemma prepare_R: "R e (prepareWaitingToExecution nm n i e)"
  unfolding prepareWaitingToExecution_def by (rule trans [OF put_waiting_R put_source_R])

lemma both_R: "R e (e\<lparr>en_waiting := w, en_waitingSource := ws\<rparr>)"
  using trans [OF waiting [of e w] sources [of "e\<lparr>en_waiting := w\<rparr>" ws]] by simp

lemma set_input_R: "R e (set_input nm i j x src e)"
  by (simp add: set_input_def both_R)

lemma remove_waiting_R: "R e (remove_waiting nm i e)"
  by (simp add: remove_waiting_def Let_def both_R)

lemma release_entry_R: "R e (release_entry nd nm i e)"
  unfolding release_entry_def by (rule trans [OF enqueue_R remove_waiting_R])

lemma add_waiting_data_R: "R e (fst (add_waiting_data c oi p nd ri e))"
proof -
  let ?e1 = "if mhas (en_waiting e) (ic_node c) then e
    else e\<lparr>en_waiting := mset_at (ic_node c) [] (en_waiting e), en_waitingSource := mset_at (ic_node c) [] (en_waitingSource e)\<rparr>"
  let ?n = "case free_entry ?e1 (ic_node c) (ic_index c) of Some k \<Rightarrow> k | None \<Rightarrow> length (entries_of ?e1 (ic_node c))"
  let ?e2 = "if free_entry ?e1 (ic_node c) (ic_index c) = None
    then prepareWaitingToExecution (ic_node c) (numberOfInputs ?e1 (ic_node c)) ?n ?e1 else ?e1"
  have a: "R e ?e1" by (simp add: both_R refl)
  have b: "R ?e1 ?e2" by (simp add: prepare_R refl del: split_paired_All)
  have c: "fst (add_waiting_data c oi p nd ri e) = set_input (ic_node c) ?n (ic_index c) (output_data nd oi)
      (output_source nd p oi ri) ?e2"
    by (simp add: add_waiting_data_def Let_def)
  show ?thesis unfolding c by (rule trans [OF trans [OF a b] set_input_R])
qed

lemma check_input_R: "check_input ns oi p nd ri c e = Inr e' \<Longrightarrow> R e e'"
  using check_input_cases enqueue_R refl by blast

lemma check_inputs_R: "R e (fst (check_inputs c oi p nd ri e))"
proof -
  have "R e (fst (foldS (check_input ns oi p nd ri) cs e))" for ns cs
    by (rule foldS_invariant [where I = "R e"]) (auto intro: refl trans check_input_R)
  then show ?thesis by (simp add: check_inputs_def Let_def refl)
qed

lemma keep_waiting_R: "R e (keep_waiting c oi nd i e)"
  unfolding keep_waiting_def Let_def by (rule trans [OF trans [OF prepare_R put_waiting_R] put_source_R])

lemma add_to_stack_R: "R e (add_to_stack c oi p nd ri nri md e)"
  by (auto simp: add_to_stack_def enqueue_R refl split: option.splits)

lemma addNodeToBeExecuted_R: "R e (fst (addNodeToBeExecuted c oi p nd ri nri md e))"
proof (cases "numberOfInputs e (ic_node c) > 1")
  case False
  then show ?thesis by (simp add: addNodeToBeExecuted_def add_to_stack_R)
next
  case True
  obtain e1 i where e1: "add_waiting_data c oi p nd ri e = (e1, i)" by fastforce
  have "R e e1" using add_waiting_data_R [of e c oi p nd ri] e1 by simp
  moreover obtain e2 err where e2: "check_inputs c oi p nd ri e1 = (e2, err)" by fastforce
  moreover from e2 have "R e1 e2" using check_inputs_R [of e1 c oi p nd ri] by simp
  ultimately show ?thesis using True e1
    by (auto simp: addNodeToBeExecuted_def Let_def refl split: option.splits if_splits
        intro: trans release_entry_R keep_waiting_R)
qed

lemma foldO_R: "(\<And>x a. R a (fst (f x a))) \<Longrightarrow> R e (fst (foldO f xs e))"
proof (induction xs arbitrary: e)
  case (Cons x xs)
  obtain e1 err where f: "f x e = (e1, err)" by fastforce
  have "R e e1" using Cons.prems [of e x] f by simp
  moreover have "R e1 (fst (foldO f xs e1))" by (rule Cons.IH) (rule Cons.prems)
  ultimately show ?case using f by (auto intro: trans split: option.splits)
qed (simp add: refl)

lemma addSuccessors_R: "R e (fst (addSuccessors nm nd ri e))"
proof -
  have "R a (fst (case check_destination a c of Inl err \<Rightarrow> (a, Some err)
      | Inr _ \<Rightarrow> if has_output a nd c then add_successor nm nd ri c a else (a, None)))" for a c
    by (auto simp: add_successor_def addNodeToBeExecuted_R refl split: sum.splits)
  then show ?thesis
    by (auto simp: addSuccessors_def add_successor_def addNodeToBeExecuted_R refl intro!: foldO_R split: sum.splits)
qed

lemma try_release_R:
  "try_release ev ws e nm = Inr (Added e') \<Longrightarrow> R e e'"
  "try_release ev ws e nm = Inr (Emptied e') \<Longrightarrow> R e e'"
  by (auto simp: try_release_def Let_def split: option.splits if_splits intro: remove_waiting_R trans [OF stack remove_waiting_R])

lemma release_loop_R: "R e (fst (release_loop ev ws i e))"
proof (induction ev ws i e rule: release_loop.induct)
  case (1 ev ws i e)
  note eq = release_loop.simps [of ev ws i e]
  show ?case
  proof (cases "length ws \<le> i")
    case True
    then show ?thesis by (simp add: eq refl)
  next
    case False
    then show ?thesis
      using 1 try_release_R [of ev ws e "ws ! i"]
      by (auto simp: eq refl split: sum.splits release.splits intro: trans)
  qed
qed

lemma releaseWaiting_R: "R e (fst (releaseWaiting ev e))"
  by (simp add: releaseWaiting_def release_loop_R refl)

lemma prepare_action_R:
  assumes "prepare_action nd ri d a st = Inr st'"
  shows "R (fst st) (fst st')"
proof -
  obtain e ns as where st: "st = (e, ns, as)" by (metis prod_cases3)
  show ?thesis
  proof (cases "getNode (en_workflow e) (a_nodeName a)")
    case (Some node)
    let ?e = "update_node (n_ref node) (\<lambda>n. n\<lparr>n_rewireOutputLogTo := Some (a_type a)\<rparr>) e"
    from assms [symmetric] show ?thesis
      by (simp only: prepare_action_def st prod.case Some option.case Let_def prod.case_eq_if sum.inject fst_conv)
        (rule trans [OF rewire request])
  qed (use assms in \<open>simp add: st prepare_action_def\<close>)
qed

lemma handleRequest_R: "R e (fst (fst (handleRequest nd as md ri d e)))"
proof -
  have "R e (fst (fst (foldS (prepare_action nd ri d) as (e, [], []))))"
    by (rule foldS_invariant [where I = "\<lambda>st. R e (fst st)"]) (auto intro: refl trans dest: prepare_action_R)
  then show ?thesis
    by (auto simp: handleRequest_def prepareRequestedNodesForExecution_def split: prod.splits option.splits)
qed

lemma handleEngineRequest_R: "R e (fst (handleEngineRequest nd as md ri d e))"
proof -
  obtain e1 ns err where h: "handleRequest nd as md ri d e = ((e1, ns), err)" by (metis prod.exhaust)
  have "R e e1" using handleRequest_R [of e nd as md ri d] h by simp
  moreover have "R e1 (fst (foldO schedule ns e1))"
    by (rule foldO_R) (simp add: schedule_def addNodeToBeExecuted_R)
  ultimately show ?thesis using trans h by (auto simp: handleEngineRequest_def split: option.splits)
qed

lemma write_pinned_R: "R e (write_pinned a nd e)"
  by (auto simp: write_pinned_def Let_def pins refl split: option.splits list.splits)

lemma stop_on_error_R:
  assumes "n_name (ed_node d) = name" "td_executionIndex td = Some k"
  shows "R e (stop_on_error ri err td d e)"
proof -
  have "R e (log_hook (NodeExecuteAfter name) ((store_task name ri td' e)\<lparr>en_stack := s\<rparr>))"
    if "td_executionIndex td' = Some k" for td' s
    by (rule trans [OF trans [OF store [OF that] stack] after])
  then show ?thesis using assms by (auto simp: stop_on_error_def Let_def split: option.splits)
qed

lemma after_store_R:
  assumes "n_name (ed_node d) = name"
  shows "R (lp_engine lp) (lp_engine (step_loop (after_store ev ri nd d lp)))"
proof -
  let ?e = "lp_engine lp"
  have after_stack: "R e ((log_hook (NodeExecuteAfter name) e)\<lparr>en_stack := s\<rparr>)" for e s
    by (rule trans [OF after stack])
  obtain e1 err1 where a: "addSuccessors name nd ri ?e = (e1, err1)" by fastforce
  have e1: "R ?e e1" using addSuccessors_R [of ?e name nd ri] a by simp
  obtain e2 err2 where r: "releaseWaiting ev (log_hook (NodeExecuteAfter name) e1) = (e2, err2)" by fastforce
  have e2: "R ?e e2"
    using trans [OF trans [OF e1 after] releaseWaiting_R [of "log_hook (NodeExecuteAfter name) e1" ev]] r by simp
  show ?thesis using assms a r e1 e2 after_stack after
    by (simp add: after_store_def Let_def split: option.splits)
qed

lemma after_tries_R:
  assumes "n_name (ed_node (at_data a)) = name"
  shows "R (at_engine a) (lp_engine (step_loop (after_tries ev k ri a err lp)))"
proof -
  let ?e = "ensure_runs name (at_engine a)"
  have e: "R (at_engine a) ?e" by (rule runs)
  have stored: "R ?e (store_task name ri (finished_task ri nd (new_task k d hs w er) node e') (write_pinned a nd ?e))"
    for nd d hs w er node e'
    by (rule trans [OF write_pinned_R store]) (simp add: finished_task_index new_task_index)
  have stopped: "R ?e (stop_on_error ri er (new_task k (at_data a) hs w er2) (at_data a) ?e)" for er er2 hs w
    by (rule stop_on_error_R [OF assms new_task_index])
  show ?thesis
  proof (cases "err \<noteq> None \<and> \<not> continues_on_error (ed_node (at_data a))")
    case True
    then show ?thesis using trans [OF e stopped] assms by (simp add: after_tries_def Let_def)
  next
    case False
    let ?nd = "case (err, arr_get (main_data (ed_data (at_data a))) 0) of (Some _, Some (Some items)) \<Rightarrow> Some [Some items] | _ \<Rightarrow> at_nd a"
    show ?thesis
    proof (cases "mergeErrors ?nd")
      case (Inl er)
      with False e assms show ?thesis by (auto simp: after_tries_def Let_def)
    next
      case (Inr nd)
      let ?e2 = "write_pinned a nd ?e"
      let ?e3 = "store_task name ri (finished_task ri nd (new_task k (at_data a) (at_hints a) (en_waitTill ?e) err)
        (ed_node (at_data a)) ?e2) ?e2"
      have "after_tries ev k ri a err lp = after_store ev ri nd (at_data a) (lp\<lparr>lp_engine := ?e, lp_error := err, lp_engine := ?e3\<rparr>)"
        using False Inr assms by (auto simp: after_tries_def Let_def)
      moreover have "R (at_engine a) ?e3" using trans [OF e stored] .
      ultimately show ?thesis
        using trans [OF _ after_store_R [OF assms, of "lp\<lparr>lp_engine := ?e, lp_error := err, lp_engine := ?e3\<rparr>" ev ri nd]] by simp
    qed
  qed
qed

end

text \<open>The same with calls of node code, and the whole iteration.\<close>

locale engine_frame = state_frame +
  assumes call: "en_calls e \<le> c \<Longrightarrow> R e (e\<lparr>en_calls := c, en_waitTill := b\<rparr>)"
begin

sublocale tries: try_frame R ev for ev
  by unfold_locales (use call handleEngineRequest_R in auto)

lemma execute_entry_R:
  assumes "n_name (ed_node d) = name"
  shows "R (lp_engine lp) (lp_engine (step_loop (execute_entry ev k ri d lp)))"
proof -
  let ?e = "if Option.bind (ed_metadata d) md_nodeWasResumed = Some True then lp_engine lp
    else log_hook (NodeExecuteBefore (n_name (ed_node d))) (lp_engine lp)"
  obtain a err b where t: "try_loop ev ri (max_tries (ed_node d)) 0 None (start_attempt d ?e) = (a, err, b)" by (metis prod_cases3)
  have e: "R (lp_engine lp) ?e" using before refl assms by simp
  have a: "R (lp_engine lp) (at_engine a)" "ed_node (at_data a) = ed_node d"
    using tries.try_loop_R [OF t] trans [OF e] by (simp_all add: start_attempt_def)
  show ?thesis
  proof (cases b)
    case True
    with t a show ?thesis by (simp add: execute_entry_def Let_def)
  next
    case False
    with t a assms trans [OF a(1) after_tries_R [of a ev ri err lp]] show ?thesis by (simp add: execute_entry_def Let_def)
  qed
qed

text \<open>A whole iteration that takes an entry from the stack.\<close>

lemma exec_step_R:
  assumes "en_stack (lp_engine lp) = d # rest" "n_name (ed_node d) = name" "en_execIndex (lp_engine lp) = k"
    and "\<not> ev_timeout ev k" "en_status (lp_engine lp) \<noteq> StCanceled"
  shows "R ((lp_engine lp)\<lparr>en_stack := rest, en_execIndex := Suc k\<rparr>) (lp_engine (step_loop (exec_step ev lp)))"
proof -
  let ?e = "(lp_engine lp)\<lparr>en_stack := rest, en_execIndex := Suc k\<rparr>"
  let ?d = "pair_inputs d" and ?lp = "\<lambda>e. lp\<lparr>lp_engine := ?e, lp_error := None, lp_engine := e\<rparr>"
  obtain e1 b where i: "ensureInputData ?d ?e = (e1, b)" by fastforce
  then have e1: "R ?e e1" using stack [of ?e] refl by (auto simp: ensureInputData_def split: if_splits)
  have "R ?e (lp_engine (step_loop (execute_entry ev k ri ?d (?lp e1))))" for ri
    using trans [OF e1] execute_entry_R [of ?d "?lp e1" ev ri] assms(2) by simp
  then show ?thesis using assms i e1
    by (auto simp: exec_step_def Let_def refl split: if_splits bool.splits)
qed

end

end
