(* ===== verification/Engine_Runs.thy ===== *)
theory Engine_Runs
  imports Engine_Frame
begin

text \<open>
  Executions as reachable states of the main loop, and the invariants of whole executions: which nodes
  run, and the execution indices in the run data.
\<close>

section \<open>Reachable states\<close>

inductive reaches :: "env \<Rightarrow> loop \<Rightarrow> loop \<Rightarrow> bool" for ev lp where
  start: "reaches ev lp lp"
| iterate: "reaches ev lp lp1 \<Longrightarrow> en_stack (lp_engine lp1) \<noteq> [] \<Longrightarrow> exec_step ev lp1 = Continue lp2 \<Longrightarrow> reaches ev lp lp2"

inductive_cases reachesE: "reaches ev lp lp'"

lemma reaches_step:
  assumes "reaches ev lp1 lp2" "en_stack (lp_engine lp) \<noteq> []" "exec_step ev lp = Continue lp1"
  shows "reaches ev lp lp2"
  using assms
proof (induction rule: reaches.induct)
  case start
  then show ?case by (rule reaches.iterate [OF reaches.start])
next
  case (iterate a b)
  then show ?case by (auto intro: reaches.iterate)
qed

text \<open>How a run ends: on an empty stack, or with the last iteration.\<close>

definition last_state :: "env \<Rightarrow> loop \<Rightarrow> loop \<Rightarrow> bool" where
  "last_state ev lp lp' \<longleftrightarrow> (\<exists>lp1. reaches ev lp lp1
     \<and> lp' = (if en_stack (lp_engine lp1) = [] then lp1 else step_loop (exec_step ev lp1)))"

lemma run_loop_last:
  "run_loop ev fuel lp = Some r \<Longrightarrow> \<exists>lp'. last_state ev lp lp' \<and> (r = end_loop lp' \<or> (\<exists>err. r = processFailure err (lp_engine lp')))"
proof (induction fuel arbitrary: lp)
  case 0
  then show ?case by (auto simp: last_state_def split: if_splits intro!: exI [of _ lp] reaches.start)
next
  case (Suc fuel)
  show ?case
  proof (cases "en_stack (lp_engine lp) = []")
    case True
    with Suc.prems show ?thesis by (auto simp: last_state_def intro!: exI [of _ lp] reaches.start)
  next
    case False
    show ?thesis
    proof (cases "\<exists>lp1. exec_step ev lp = Continue lp1")
      case True
      then obtain lp1 where s: "exec_step ev lp = Continue lp1" ..
      with Suc.prems False have "run_loop ev fuel lp1 = Some r" by simp
      from Suc.IH [OF this] show ?thesis using reaches_step [OF _ False s] by (auto simp: last_state_def) blast+
    next
      case nc: False
      have l: "last_state ev lp (step_loop (exec_step ev lp))"
        using False unfolding last_state_def by (intro exI [of _ lp]) (simp add: reaches.start)
      with Suc.prems False nc show ?thesis by (cases "exec_step ev lp") (auto intro!: exI)
    qed
  qed
qed

text \<open>What every iteration keeps holds at the end of every run.\<close>

locale run_invariant =
  fixes ev :: env and I :: "engine \<Rightarrow> bool"
  assumes keep: "I (lp_engine lp) \<Longrightarrow> en_stack (lp_engine lp) \<noteq> [] \<Longrightarrow> I (lp_engine (step_loop (exec_step ev lp)))"
begin

lemma reaches_I: "reaches ev lp lp' \<Longrightarrow> I (lp_engine lp) \<Longrightarrow> I (lp_engine lp')"
proof (induction rule: reaches.induct)
  case (iterate lp1 lp2)
  then show ?case using keep [of lp1] by simp
qed

lemma run_I:
  assumes "run_loop ev fuel lp = Some r" "I (lp_engine lp)"
  shows "\<exists>lp'. I (lp_engine lp') \<and> (r = end_loop lp' \<or> (\<exists>err. r = processFailure err (lp_engine lp')))"
  using run_loop_last [OF assms(1)] reaches_I assms(2) keep by (fastforce simp: last_state_def split: if_splits)

end

section \<open>Iterations\<close>

text \<open>The state an iteration starts with, when it takes an entry.\<close>

lemma exec_step_cancelled:
  assumes "ev_timeout ev (en_execIndex (lp_engine lp)) \<or> en_status (lp_engine lp) = StCanceled"
  shows "exec_step ev lp = Return (lp\<lparr>lp_engine := (lp_engine lp)\<lparr>en_status := StCanceled\<rparr>\<rparr>)"
proof -
  have "e\<lparr>en_status := en_status e\<rparr> = e" for e :: engine by simp
  then have "en_status e = StCanceled \<Longrightarrow> e\<lparr>en_status := StCanceled\<rparr> = e" for e :: engine by metis
  then show ?thesis using assms by (auto simp: exec_step_def Let_def)
qed

lemma exec_step_filtered:
  assumes "en_stack (lp_engine lp) = d # rest" "en_runNodeFilter (lp_engine lp) = Some f" "n_name (ed_node d) \<notin> set f"
    and "\<not> ev_timeout ev (en_execIndex (lp_engine lp))" "en_status (lp_engine lp) \<noteq> StCanceled"
  shows "lp_engine (step_loop (exec_step ev lp)) =
    (lp_engine lp)\<lparr>en_stack := rest, en_execIndex := Suc (en_execIndex (lp_engine lp))\<rparr>"
  using assms by (auto simp: exec_step_def Let_def)

section \<open>Which nodes run\<close>

primrec hook_node :: "hook_event \<Rightarrow> string" where
  "hook_node (NodeExecuteBefore n) = n"
| "hook_node (NodeExecuteAfter n) = n"

definition quiet :: "string \<Rightarrow> engine \<Rightarrow> engine \<Rightarrow> bool" where
  "quiet name e e' \<longleftrightarrow> en_runNodeFilter e' = en_runNodeFilter e \<and> en_destination e' = en_destination e
     \<and> (\<forall>h\<in>set (en_log e'). h \<in> set (en_log e) \<or> hook_node h = name)"

lemma quiet_same [simp]:
  "en_runNodeFilter e' = en_runNodeFilter e \<Longrightarrow> en_destination e' = en_destination e \<Longrightarrow> en_log e' = en_log e \<Longrightarrow> quiet name e e'"
  by (simp add: quiet_def)

interpretation hooks: engine_frame "quiet name" name k for name k
proof
  show "quiet name e1 e3" if "quiet name e1 e2" "quiet name e2 e3" for e1 e2 e3
    using that by (auto simp: quiet_def)
qed (auto simp: update_node_def ensure_runs_def store_task_def Let_def log_hook_def quiet_def)

text \<open>Only nodes of the filter run.\<close>

definition filtered_log :: "string list \<Rightarrow> engine \<Rightarrow> bool" where
  "filtered_log f e \<longleftrightarrow> en_runNodeFilter e = Some f \<and> (\<forall>h\<in>set (en_log e). hook_node h \<in> set f)"

interpretation only_filter: run_invariant ev "filtered_log f" for ev f
proof
  fix lp :: loop assume I: "filtered_log f (lp_engine lp)" and ne: "en_stack (lp_engine lp) \<noteq> []"
  then obtain d rest where st: "en_stack (lp_engine lp) = d # rest" by (cases "en_stack (lp_engine lp)") auto
  show "filtered_log f (lp_engine (step_loop (exec_step ev lp)))"
  proof (cases "ev_timeout ev (en_execIndex (lp_engine lp)) \<or> en_status (lp_engine lp) = StCanceled")
    case True
    with I show ?thesis by (simp add: exec_step_cancelled filtered_log_def)
  next
    case False
    show ?thesis
    proof (cases "n_name (ed_node d) \<in> set f")
      case True
      from hooks.exec_step_R [OF st refl refl] False
      have "quiet (n_name (ed_node d)) ((lp_engine lp)\<lparr>en_stack := rest, en_execIndex := Suc (en_execIndex (lp_engine lp))\<rparr>)
          (lp_engine (step_loop (exec_step ev lp)))" by blast
      with I True show ?thesis by (auto simp: quiet_def filtered_log_def)
    next
      case out: False
      with exec_step_filtered [OF st] False I show ?thesis by (simp add: filtered_log_def)
    qed
  qed
qed

section \<open>Execution indices\<close>

definition runs_below :: "nat \<Rightarrow> task_data list \<Rightarrow> bool" where
  "runs_below k runs \<longleftrightarrow> (\<forall>td\<in>set runs. \<exists>j<k. td_executionIndex td = Some j)"

definition indices_below :: "nat \<Rightarrow> run_data \<Rightarrow> bool" where
  "indices_below k rd \<longleftrightarrow> (\<forall>runs\<in>snd ` set rd. runs_below k runs)"

lemma indices_below_set: "indices_below k rd \<Longrightarrow> runs_below k l \<Longrightarrow> indices_below k (mset_at nm l rd)"
  unfolding indices_below_def using values_set_subset [of nm l rd] by blast

lemma indices_below_get: "indices_below k rd \<Longrightarrow> runs_below k (case mget rd nm of None \<Rightarrow> [] | Some l \<Rightarrow> l)"
  by (cases "mget rd nm") (force simp: indices_below_def runs_below_def dest: map_of_SomeD)+

lemma runs_below_mono: "runs_below j runs \<Longrightarrow> j \<le> k \<Longrightarrow> runs_below k runs"
  unfolding runs_below_def by (meson less_le_trans)

lemma indices_below_mono: "indices_below j rd \<Longrightarrow> j \<le> k \<Longrightarrow> indices_below k rd"
  unfolding indices_below_def using runs_below_mono by blast

definition indexed :: "nat \<Rightarrow> engine \<Rightarrow> engine \<Rightarrow> bool" where
  "indexed k e e' \<longleftrightarrow> en_execIndex e' = en_execIndex e
     \<and> (k < en_execIndex e \<longrightarrow> indices_below (en_execIndex e) (en_runData e) \<longrightarrow> indices_below (en_execIndex e) (en_runData e'))"

lemma indexed_same [simp]: "en_execIndex e' = en_execIndex e \<Longrightarrow> en_runData e' = en_runData e \<Longrightarrow> indexed k e e'"
  by (simp add: indexed_def)

lemma store_indices:
  assumes "indices_below n (en_runData e)" "td_executionIndex td = Some k" "k < n"
  shows "indices_below n (en_runData (store_task nm ri td e))"
proof -
  let ?runs = "case mget (en_runData e) nm of None \<Rightarrow> [] | Some l \<Rightarrow> l"
  have "runs_below n (if ri < length ?runs then ?runs[ri := assign_task (?runs ! ri) td] else ?runs @ [td])"
    using indices_below_get [OF assms(1), of nm] assms(2,3)
    by (auto simp: runs_below_def assign_task_def dest!: subsetD [OF set_update_subset_insert])
  from indices_below_set [OF assms(1) this] show ?thesis by (simp add: store_task_def Let_def)
qed

lemma request_indices:
  assumes "indices_below n rd" "0 < n"
  shows "indices_below n (fst (initializeNodeRunData nm pn oi pri hp ri dd rd))"
  unfolding initializeNodeRunData_def Let_def fst_conv
  by (rule indices_below_set [OF assms(1)]) (use indices_below_get [OF assms(1), of nm] assms(2) in \<open>auto simp: runs_below_def\<close>)

interpretation indices: engine_frame "indexed k" name k for name k
proof
  show "indexed k e1 e3" if "indexed k e1 e2" "indexed k e2 e3" for e1 e2 e3
    using that by (auto simp: indexed_def)
  show "indexed k e (store_task name ri td e)" if "td_executionIndex td = Some k" for td ri e
    using that by (simp add: indexed_def store_indices) (simp add: store_task_def Let_def)
  show "indexed k e (e\<lparr>en_runData := fst (initializeNodeRunData nm pn oi pri hp ri dd (en_runData e))\<rparr>)" for e nm pn oi pri hp ri dd
    by (simp add: indexed_def request_indices)
  show "indexed k e (ensure_runs nm e)" for e nm
    by (simp add: indexed_def ensure_runs_def indices_below_set runs_below_def)
qed (auto simp: update_node_def log_hook_def)

definition indices_ok :: "engine \<Rightarrow> bool" where
  "indices_ok e \<longleftrightarrow> indices_below (en_execIndex e) (en_runData e)"

interpretation all_indices: run_invariant ev indices_ok for ev
proof
  fix lp :: loop assume I: "indices_ok (lp_engine lp)" and ne: "en_stack (lp_engine lp) \<noteq> []"
  then obtain d rest where st: "en_stack (lp_engine lp) = d # rest" by (cases "en_stack (lp_engine lp)") auto
  show "indices_ok (lp_engine (step_loop (exec_step ev lp)))"
  proof (cases "ev_timeout ev (en_execIndex (lp_engine lp)) \<or> en_status (lp_engine lp) = StCanceled")
    case True
    with I show ?thesis by (simp add: exec_step_cancelled indices_ok_def)
  next
    case False
    from indices.exec_step_R [OF st refl refl] False
    have "indexed (en_execIndex (lp_engine lp)) ((lp_engine lp)\<lparr>en_stack := rest, en_execIndex := Suc (en_execIndex (lp_engine lp))\<rparr>)
        (lp_engine (step_loop (exec_step ev lp)))" by blast
    with I indices_below_mono [of "en_execIndex (lp_engine lp)" _ "Suc (en_execIndex (lp_engine lp))"]
    show ?thesis by (simp add: indexed_def indices_ok_def)
  qed
qed

section \<open>The end of a run\<close>

lemma end_same [simp]:
  "en_log (moveNodeMetadata e) = en_log e" "en_execIndex (moveNodeMetadata e) = en_execIndex e"
  "en_stack (moveNodeMetadata e) = en_stack e" "en_waiting (moveNodeMetadata e) = en_waiting e"
  by (simp_all add: moveNodeMetadata_def)

lemma move_metadata_indices: "indices_below n rd \<Longrightarrow> indices_below n (move_metadata_of nm p rd)"
proof -
  assume i: "indices_below n rd"
  obtain k md where p: "p = (k, md)" by fastforce
  show ?thesis
  proof (cases "mget rd nm")
    case (Some runs)
    then have r: "runs_below n runs" using indices_below_get [OF i, of nm] by simp
    show ?thesis
    proof (cases "k < length runs")
      case True
      have "runs_below n (runs[k := (runs ! k)\<lparr>td_metadata := m\<rparr>])" for m
        using r True nth_mem [OF True] by (auto simp: runs_below_def dest!: subsetD [OF set_update_subset_insert])
      with True Some p i show ?thesis by (simp add: move_metadata_of_def indices_below_set)
    qed (use Some p i in \<open>simp add: move_metadata_of_def\<close>)
  qed (use p i in \<open>simp add: move_metadata_of_def\<close>)
qed

lemma foldl_indices: "(\<And>x rd. indices_below n rd \<Longrightarrow> indices_below n (f rd x)) \<Longrightarrow> indices_below n rd \<Longrightarrow> indices_below n (foldl f rd xs)"
  by (induction xs arbitrary: rd) auto

lemma moveNodeMetadata_indices: "indices_below n (en_runData e) \<Longrightarrow> indices_below n (en_runData (moveNodeMetadata e))"
  unfolding moveNodeMetadata_def by (auto intro!: foldl_indices move_metadata_indices)

lemma end_loop_same [simp]:
  "en_log (rr_engine (end_loop lp)) = en_log (lp_engine lp)"
  "en_execIndex (rr_engine (end_loop lp)) = en_execIndex (lp_engine lp)"
  by (simp_all add: end_loop_def processSuccessExecution_def Let_def)

lemma end_loop_indices:
  "indices_below n (en_runData (lp_engine lp)) \<Longrightarrow> indices_below n (en_runData (rr_engine (end_loop lp)))"
  by (auto simp: end_loop_def processSuccessExecution_def Let_def intro!: moveNodeMetadata_indices)

lemma processFailure_same [simp]:
  "en_log (rr_engine (processFailure err e)) = en_log e" "en_execIndex (rr_engine (processFailure err e)) = en_execIndex e"
  by (simp_all add: processFailure_def Let_def)

lemma processFailure_indices: "indices_below n (en_runData e) \<Longrightarrow> indices_below n (en_runData (rr_engine (processFailure err e)))"
  by (auto simp: processFailure_def Let_def intro!: moveNodeMetadata_indices)

text \<open>A run is the loop on the state that was started, or it fails before the loop.\<close>

lemma run_cases:
  "(\<exists>err. \<forall>fuel. run types issues ev fuel e startNode dest pins trig extra = Inl err)
   \<or> (\<exists>n. \<forall>fuel. run types issues ev fuel e startNode dest pins trig extra = Inr (run_loop ev fuel
        \<lparr>lp_engine = start_engine (e\<lparr>en_status := StRunning\<rparr>) n dest pins trig extra, lp_lastTry = None, lp_error = None\<rparr>))"
proof -
  let ?S = "case startNode of Some n \<Rightarrow> Inr (Some n) | None \<Rightarrow> getStartNode types (en_workflow e) (map_option fst dest)"
  consider err where "?S = Inl err" | "?S = Inr None" | n where "?S = Inr (Some n)"
    by (metis sum.exhaust option.exhaust)
  then show ?thesis
  proof cases
    case (3 n)
    let ?e = "start_engine (e\<lparr>en_status := StRunning\<rparr>) n dest pins trig extra"
    have e: "(start_engine e n dest pins trig extra)\<lparr>en_status := StRunning\<rparr> = ?e" by (simp add: start_engine_def Let_def)
    have "\<not> en_waitTill ?e" by (simp add: start_engine_def Let_def)
    then have w: "handleWaitingState ?e = (?e, None)" by (simp add: handleWaitingState_def)
    have r: "run types issues ev fuel e startNode dest pins trig extra = bindE (checkForWorkflowIssues types issues ?e)
        (\<lambda>_. Inr (run_loop ev fuel \<lparr>lp_engine = ?e, lp_lastTry = None, lp_error = None\<rparr>))" for fuel
      unfolding run_def 3 by (simp add: processRunExecutionData_def Let_def e w)
    show ?thesis
    proof (cases "checkForWorkflowIssues types issues ?e")
      case (Inl err)
      with r show ?thesis by simp
    next
      case (Inr u)
      with r show ?thesis by auto
    qed
  qed (simp_all add: run_def)
qed

lemma run_loop_of_run:
  assumes "run types issues ev fuel e startNode dest pins trig extra = Inr r"
  shows "\<exists>n. r = run_loop ev fuel \<lparr>lp_engine = start_engine (e\<lparr>en_status := StRunning\<rparr>) n dest pins trig extra, lp_lastTry = None, lp_error = None\<rparr>"
  using run_cases [of types issues ev e startNode dest pins trig extra] assms by auto

end
