(* ===== verification/Engine_Termination.thy ===== *)
theory Engine_Termination
  imports Engine_Runs
begin

text \<open>
  Executions in the order \<^verbatim>\<open>v1\<close> end on workflows without cycles: a weight of nodes that exceeds the
  weights of their successors, summed over the stack and the waiting entries, decreases with every
  iteration.
\<close>

section \<open>What stays the same\<close>

definition same_graph :: "engine \<Rightarrow> engine \<Rightarrow> bool" where
  "same_graph e e' \<longleftrightarrow> en_v1 e' = en_v1 e \<and> wf_bySource (en_workflow e') = wf_bySource (en_workflow e)
     \<and> wf_byDest (en_workflow e') = wf_byDest (en_workflow e)
     \<and> map (\<lambda>p. (fst p, n_name (snd p))) (wf_nodes (en_workflow e')) = map (\<lambda>p. (fst p, n_name (snd p))) (wf_nodes (en_workflow e))"

interpretation graph: engine_frame same_graph name k for name k
  by unfold_locales
    (auto simp: same_graph_def update_node_def ensure_runs_def store_task_def log_hook_def Let_def)

text \<open>The tries of a node that asks for no others leave the stack and the waiting entries alone.\<close>

definition same_queue :: "env \<Rightarrow> engine \<Rightarrow> engine \<Rightarrow> bool" where
  "same_queue ev e e' \<longleftrightarrow> asks ev \<or> (en_stack e' = en_stack e \<and> en_waiting e' = en_waiting e)"

interpretation queue: try_frame "same_queue ev" ev for ev
  by unfold_locales (auto simp: same_queue_def)

section \<open>Weights\<close>

definition names_ok :: "engine \<Rightarrow> bool" where
  "names_ok e \<longleftrightarrow> (\<forall>p\<in>set (wf_nodes (en_workflow e)). n_name (snd p) = fst p)"

lemma names_ok_get: "names_ok e \<Longrightarrow> getNode (en_workflow e) nm = Some n \<Longrightarrow> n_name n = nm"
  by (force simp: names_ok_def getNode_def dest: map_of_SomeD)

lemma names_ok_same: "same_graph e e' \<Longrightarrow> names_ok e \<Longrightarrow> names_ok e'"
proof -
  assume "same_graph e e'" "names_ok e"
  then have m: "set (map (\<lambda>p. (fst p, n_name (snd p))) (wf_nodes (en_workflow e')))
    = set (map (\<lambda>p. (fst p, n_name (snd p))) (wf_nodes (en_workflow e)))" and ok: "names_ok e" by (simp_all add: same_graph_def)
  show ?thesis unfolding names_ok_def
  proof
    fix p assume "p \<in> set (wf_nodes (en_workflow e'))"
    then have "(fst p, n_name (snd p)) \<in> set (map (\<lambda>p. (fst p, n_name (snd p))) (wf_nodes (en_workflow e)))"
      unfolding m [symmetric] by (force simp: image_iff)
    with ok show "n_name (snd p) = fst p" by (auto simp: names_ok_def)
  qed
qed

definition waiting_weight :: "(string \<Rightarrow> nat) \<Rightarrow> waiting \<Rightarrow> nat" where
  "waiting_weight w ws = sum_list (map (\<lambda>p. length (snd p) * w (fst p)) ws)"

lemma waiting_weight_simps [simp]:
  "waiting_weight w [] = 0" "waiting_weight w (p # ws) = length (snd p) * w (fst p) + waiting_weight w ws"
  by (simp_all add: waiting_weight_def)

lemma waiting_weight_set:
  "waiting_weight w (mset_at nm m ws) + length (case mget ws nm of None \<Rightarrow> [] | Some l \<Rightarrow> l) * w nm
    = waiting_weight w ws + length m * w nm"
  by (induction ws) auto

lemma waiting_weight_del_le: "waiting_weight w (mdel nm ws) \<le> waiting_weight w ws"
  by (induction ws) auto

lemma waiting_weight_del:
  "waiting_weight w (mdel nm ws) + length (case mget ws nm of None \<Rightarrow> [] | Some l \<Rightarrow> l) * w nm \<le> waiting_weight w ws"
proof (induction ws)
  case (Cons p ws)
  then show ?case using waiting_weight_del_le [of w nm ws] by (cases "fst p = nm"; cases p) auto
qed simp

definition stack_weight :: "(string \<Rightarrow> nat) \<Rightarrow> exec_data list \<Rightarrow> nat" where
  "stack_weight w st = sum_list (map (\<lambda>d. w (n_name (ed_node d))) st)"

lemma stack_weight_simps [simp]:
  "stack_weight w [] = 0" "stack_weight w (d # st) = w (n_name (ed_node d)) + stack_weight w st"
  "stack_weight w (st @ st') = stack_weight w st + stack_weight w st'"
  by (simp_all add: stack_weight_def)

text \<open>The work that is left.\<close>

definition weight :: "(string \<Rightarrow> nat) \<Rightarrow> engine \<Rightarrow> nat" where
  "weight w e = stack_weight w (en_stack e) + waiting_weight w (en_waiting e)"

definition stack_main :: "engine \<Rightarrow> bool" where
  "stack_main e \<longleftrightarrow> (\<forall>d\<in>set (en_stack e). has_main (ed_data d))"

section \<open>Deliveries\<close>

lemma length_set_key: "k \<in> fst ` set m \<Longrightarrow> length (mset_at k v m) = length m"
  by (induction m) auto

lemma key_set: "k \<in> fst ` set (mset_at k v m)"
  by (induction m) auto

lemma length_set_le: "length (mset_at k v m) \<le> Suc (length m)"
  by (induction m) auto

lemma weight_put_key:
  assumes "k \<in> fst ` set (entries_of e nm)"
  shows "weight w (put_waiting nm k v e) = weight w e" "weight w (set_input nm k i x src e) = weight w e"
proof -
  have "waiting_weight w (mset_at nm (mset_at k d (entries_of e nm)) (en_waiting e)) = waiting_weight w (en_waiting e)" for d
    using waiting_weight_set [of w nm "mset_at k d (entries_of e nm)" "en_waiting e"] length_set_key [OF assms, of d]
    by (simp add: entries_of_def split: option.splits)
  then show "weight w (put_waiting nm k v e) = weight w e" "weight w (set_input nm k i x src e) = weight w e"
    by (simp_all add: weight_def put_waiting_def set_input_def)
qed

lemma weight_put_source [simp]: "weight w (put_source nm k m e) = weight w e"
  by (simp add: weight_def put_source_def)

lemma weight_prepare:
  "weight w (prepareWaitingToExecution nm n k e) \<le> weight w e + w nm"
  "k \<in> fst ` set (entries_of e nm) \<Longrightarrow> weight w (prepareWaitingToExecution nm n k e) = weight w e"
proof -
  show "weight w (prepareWaitingToExecution nm n k e) \<le> weight w e + w nm"
  proof -
    let ?m = "mset_at k [(Main, replicate n None)] (entries_of e nm)"
    have "length ?m * w nm \<le> length (entries_of e nm) * w nm + w nm"
      using mult_le_mono1 [OF length_set_le [of k "[(Main, replicate n None)]" "entries_of e nm"], of "w nm"] by simp
    with waiting_weight_set [of w nm ?m "en_waiting e"]
    have "waiting_weight w (mset_at nm ?m (en_waiting e)) \<le> waiting_weight w (en_waiting e) + w nm"
      by (simp add: entries_of_def split: option.splits)
    then show ?thesis by (simp add: weight_def prepareWaitingToExecution_def put_waiting_def put_source_def)
  qed
  show "k \<in> fst ` set (entries_of e nm) \<Longrightarrow> weight w (prepareWaitingToExecution nm n k e) = weight w e"
    by (simp add: prepareWaitingToExecution_def weight_put_key)
qed

lemma entries_prepare: "entries_of (prepareWaitingToExecution nm n k e) nm = mset_at k [(Main, replicate n None)] (entries_of e nm)"
  by (simp add: prepareWaitingToExecution_def put_source_def put_waiting_def entries_of_def)

lemma weight_remove:
  assumes "k \<in> fst ` set (entries_of e nm)"
  shows "weight w (remove_waiting nm k e) + w nm \<le> weight w e"
proof -
  obtain m where m: "mget (en_waiting e) nm = Some m" "entries_of e nm = m"
    using assms by (cases "mget (en_waiting e) nm") (auto simp: entries_of_def)
  have l: "length (mdel k m) < length m"
    using length_del_less [of k m] assms m(2) by simp
  show ?thesis
  proof (cases "mdel k m = []")
    case True
    with l have "w nm \<le> length m * w nm" by (cases m) auto
    moreover have "waiting_weight w (mdel nm (en_waiting e)) + length m * w nm \<le> waiting_weight w (en_waiting e)"
      using waiting_weight_del [of w nm "en_waiting e"] m by simp
    moreover have "weight w (remove_waiting nm k e) = stack_weight w (en_stack e) + waiting_weight w (mdel nm (en_waiting e))"
      using True m by (simp add: remove_waiting_def Let_def weight_def)
    ultimately show ?thesis unfolding weight_def by linarith
  next
    case False
    from l have "Suc (length (mdel k m)) * w nm \<le> length m * w nm" by (intro mult_le_mono1) simp
    with waiting_weight_set [of w nm "mdel k m" "en_waiting e"] False m show ?thesis
      by (simp add: remove_waiting_def Let_def weight_def)
  qed
qed

lemma weight_enqueue: "weight w (enqueue d e) = weight w e + w (n_name (ed_node d))"
  by (simp add: weight_def enqueue_def)

lemma free_entry_key: "free_entry e nm i = Some k \<Longrightarrow> k \<in> fst ` set (entries_of e nm)"
  unfolding free_entry_def find_Some_iff set_int_keys [symmetric] by (metis nth_mem)

lemma weight_add_waiting:
  assumes "add_waiting_data c oi p nd ri e = (e1, k)"
  shows "weight w e1 \<le> weight w e + w (ic_node c)" "k \<in> fst ` set (entries_of e1 (ic_node c))"
    "en_stack e1 = en_stack e" "en_v1 e1 = en_v1 e"
proof -
  let ?nm = "ic_node c"
  let ?ea = "if mhas (en_waiting e) ?nm then e
    else e\<lparr>en_waiting := mset_at ?nm [] (en_waiting e), en_waitingSource := mset_at ?nm [] (en_waitingSource e)\<rparr>"
  have wa: "weight w ?ea = weight w e"
    using waiting_weight_set [of w ?nm "[]" "en_waiting e"]
    by (cases "mget (en_waiting e) ?nm") (simp_all add: weight_def mhas_def)
  let ?free = "free_entry ?ea ?nm (ic_index c)"
  let ?eb = "if ?free = None then prepareWaitingToExecution ?nm (numberOfInputs ?ea ?nm) k ?ea else ?ea"
  have k: "k = (case ?free of Some k \<Rightarrow> k | None \<Rightarrow> length (entries_of ?ea ?nm))"
    and e1: "e1 = set_input ?nm k (ic_index c) (output_data nd oi) (output_source nd p oi ri) ?eb"
    using assms by (auto simp: add_waiting_data_def Let_def)
  have kb: "k \<in> fst ` set (entries_of ?eb ?nm)"
  proof (cases ?free)
    case None
    then show ?thesis by (simp add: entries_prepare key_set)
  next
    case (Some j)
    with k have "?free = Some k" by simp
    from free_entry_key [OF this] Some show ?thesis by simp
  qed
  have "weight w ?eb \<le> weight w e + w ?nm" using weight_prepare(1) [of w ?nm _ k ?ea] wa by simp
  then show "weight w e1 \<le> weight w e + w ?nm" unfolding e1 using weight_put_key(2) [OF kb] by simp
  have "map fst (entries_of e1 ?nm) = map fst (mset_at k [] (entries_of ?eb ?nm))"
    unfolding e1 by (simp add: entries_of_set_input)
  then have "fst ` set (entries_of e1 ?nm) = set (map fst (mset_at k [] (entries_of ?eb ?nm)))" by (metis set_map)
  then show "k \<in> fst ` set (entries_of e1 ?nm)" by (simp add: keys_set)
  show "en_stack e1 = en_stack e" "en_v1 e1 = en_v1 e"
    unfolding e1 by (simp_all add: set_input_def prepareWaitingToExecution_def put_waiting_def put_source_def)
qed

text \<open>A delivery adds at most the weight of the successor.\<close>

lemma weight_keep_waiting:
  assumes "k \<in> fst ` set (entries_of e (ic_node c))"
  shows "weight w (keep_waiting c oi nd k e) = weight w e"
proof -
  let ?e = "prepareWaitingToExecution (ic_node c) (numberOfInputs e (ic_node c)) k e"
  have "k \<in> fst ` set (entries_of ?e (ic_node c))" by (simp add: entries_prepare key_set)
  then show ?thesis using weight_prepare(2) [OF assms] by (simp add: keep_waiting_def Let_def weight_put_key)
qed

lemma weight_release_entry:
  assumes "k \<in> fst ` set (entries_of e nm)" "n_name node = nm"
  shows "weight w (release_entry node nm k e) \<le> weight w e"
proof -
  have r: "\<exists>d. n_name (ed_node d) = nm \<and> release_entry node nm k e = remove_waiting nm k (enqueue d e)"
    using assms(2) by (simp add: release_entry_def) (metis exec_data.select_convs(1))
  then obtain d where d: "n_name (ed_node d) = nm" "release_entry node nm k e = remove_waiting nm k (enqueue d e)" by blast
  have "k \<in> fst ` set (entries_of (enqueue d e) nm)" using assms(1) by (simp add: entries_of_def enqueue_def)
  from weight_remove [OF this, of w] d show ?thesis by (simp add: weight_enqueue)
qed

lemma add_v1_cases:
  assumes "en_v1 e" "numberOfInputs e (ic_node c) > 1" "add_waiting_data c oi p nd ri e = (e1, k)"
    and "fst (addNodeToBeExecuted c oi p nd ri nri md e) = e'"
  shows "e' = e1 \<or> (\<exists>n. getNode (en_workflow e1) (ic_node c) = Some n \<and> e' = release_entry n (ic_node c) k e1)
    \<or> e' = keep_waiting c oi nd k e1"
proof -
  obtain e2 err where i: "(if mhas (en_waiting e) (ic_node c) then (e1, None) else check_inputs c oi p nd ri e1) = (e2, err)"
    by fastforce
  have e2: "e2 = e1"
    using check_inputs_frame(6) [of c oi p nd ri e1 e2 err] weight_add_waiting(4) [OF assms(3)] assms(1) i
    by (cases "mhas (en_waiting e) (ic_node c)") simp_all
  have "addNodeToBeExecuted c oi p nd ri nri md e = (if None \<notin> set (waiting_main e1 (ic_node c) k)
      then (case getNode (en_workflow e1) (ic_node c) of None \<Rightarrow> (e1, Some (TypeError ''name''))
        | Some node \<Rightarrow> (release_entry node (ic_node c) k e1, None))
      else (case err of Some _ \<Rightarrow> (e1, err) | None \<Rightarrow> (keep_waiting c oi nd k e1, None)))"
    by (simp only: addNodeToBeExecuted_def Let_def assms(2,3) i [unfolded e2] prod.case if_True)
  with assms(4) show ?thesis
    by (cases "None \<in> set (waiting_main e1 (ic_node c) k)"; cases "getNode (en_workflow e1) (ic_node c)"; cases err) auto
qed

lemma weight_add:
  assumes "names_ok e" "en_v1 e"
  shows "weight w (fst (addNodeToBeExecuted c oi p nd ri nri md e)) \<le> weight w e + w (ic_node c)"
proof (cases "numberOfInputs e (ic_node c) > 1")
  case False
  then show ?thesis using names_ok_get [OF assms(1)]
    by (auto simp: addNodeToBeExecuted_def add_to_stack_def weight_enqueue split: option.splits)
next
  case True
  obtain e1 k where e1: "add_waiting_data c oi p nd ri e = (e1, k)" by fastforce
  note A = weight_add_waiting [OF e1]
  have ok: "names_ok e1"
    using graph.add_waiting_data_R [where e = e and c = c and oi = oi and p = p and nd = nd and ri = ri] e1 assms(1) names_ok_same by simp
  from add_v1_cases [OF assms(2) True e1 refl, of nri md] have "weight w (fst (addNodeToBeExecuted c oi p nd ri nri md e)) \<le> weight w e1"
    by (elim disjE exE conjE) (simp_all add: weight_release_entry [OF A(2) names_ok_get [OF ok]] weight_keep_waiting [OF A(2)])
  with A(1) [of w] show ?thesis by linarith
qed

text \<open>Every entry that is added has data of the main connection.\<close>

lemma stack_main_enqueue: "stack_main (enqueue d e) \<longleftrightarrow> stack_main e \<and> has_main (ed_data d)"
  by (auto simp: stack_main_def enqueue_def)

lemma main_set_input: "has_main (case_option [] id (mget (entries_of (set_input nm k i x src e) nm) k))"
  by (simp add: entries_of_def set_input_def has_main_def mhas_def)

lemma stack_main_add:
  assumes "stack_main e" "en_v1 e"
  shows "stack_main (fst (addNodeToBeExecuted c oi p nd ri nri md e))"
proof (cases "numberOfInputs e (ic_node c) > 1")
  case False
  then show ?thesis using assms
    by (auto simp: addNodeToBeExecuted_def add_to_stack_def stack_main_enqueue has_main_def mhas_def split: option.splits)
next
  case True
  obtain e1 k where e1: "add_waiting_data c oi p nd ri e = (e1, k)" by fastforce
  note A = weight_add_waiting [OF e1]
  have ok: "stack_main e1" using A(3) assms(1) by (simp add: stack_main_def)
  have main: "has_main (case_option [] id (mget (entries_of e1 (ic_node c)) k))"
    using e1 main_set_input by (auto simp: add_waiting_data_def Let_def)
  have rel: "stack_main (release_entry n (ic_node c) k e1)" for n
    using ok main by (simp add: release_entry_def remove_waiting_def Let_def stack_main_def enqueue_def)
  have keep: "stack_main (keep_waiting c oi nd k e1)"
    using ok by (simp add: keep_waiting_def Let_def stack_main_def prepareWaitingToExecution_def put_waiting_def put_source_def)
  from add_v1_cases [OF assms(2) True e1 refl, of nri md] show ?thesis
    by (elim disjE exE conjE) (simp_all add: ok rel keep)
qed

section \<open>Successors\<close>

lemma output_connections_same: "same_graph e e' \<Longrightarrow> output_connections e' nm = output_connections e nm"
  by (simp add: same_graph_def output_connections_def)

lemma foldE_filter:
  "foldE (\<lambda>c acc. bindE (chk c) (\<lambda>_. Inr (if P c then acc @ [g c] else acc))) cs acc = Inr r
    \<Longrightarrow> r = acc @ map g (filter P cs)"
proof (induction cs arbitrary: acc)
  case (Cons c cs)
  then show ?case by (cases "chk c") (auto dest!: Cons.IH split: if_splits)
qed simp

lemma sum_by_position: "(\<Sum>x\<leftarrow>by_position l. f x) = (\<Sum>x\<leftarrow>l. (f x :: nat))"
proof -
  have "mset (by_position l) = mset l" by (simp add: by_position_def)
  then show ?thesis by (metis mset_map sum_mset_sum_list)
qed

lemma sum_filter_le: "(\<Sum>x\<leftarrow>filter P xs. f x) \<le> (\<Sum>x\<leftarrow>xs. (f x :: nat))"
  by (induction xs) auto

lemma foldO_weight:
  assumes "I e" and "\<And>x a. I a \<Longrightarrow> I (fst (f x a)) \<and> weight w (fst (f x a)) \<le> weight w a + g x"
  shows "I (fst (foldO f xs e)) \<and> weight w (fst (foldO f xs e)) \<le> weight w e + (\<Sum>x\<leftarrow>xs. g x)"
  using assms(1)
proof (induction xs arbitrary: e)
  case (Cons x xs)
  obtain e1 err where f: "f x e = (e1, err)" by fastforce
  with assms(2) [OF Cons.prems, of x] have "I e1" "weight w e1 \<le> weight w e + g x" by simp_all
  with Cons.IH [of e1] f show ?case by (auto split: option.splits)
qed simp

text \<open>The states the measure is for.\<close>

definition weighted :: "(string \<Rightarrow> nat) \<Rightarrow> engine \<Rightarrow> bool" where
  "weighted w e \<longleftrightarrow> (\<forall>nm. (\<Sum>c\<leftarrow>output_connections e nm. w (ic_node (snd c))) < w nm)"

definition measured :: "(string \<Rightarrow> nat) \<Rightarrow> engine \<Rightarrow> bool" where
  "measured w e \<longleftrightarrow> en_v1 e \<and> names_ok e \<and> weighted w e \<and> stack_main e"

lemma measured_same: "measured w e \<Longrightarrow> same_graph e e' \<Longrightarrow> stack_main e' \<Longrightarrow> measured w e'"
  using names_ok_same [of e e'] output_connections_same [of e e'] by (simp add: measured_def weighted_def same_graph_def)

lemma add_measured:
  assumes "measured w e"
  shows "measured w (fst (addNodeToBeExecuted c oi p nd ri nri md e))"
    "weight w (fst (addNodeToBeExecuted c oi p nd ri nri md e)) \<le> weight w e + w (ic_node c)"
proof -
  have m: "en_v1 e" "names_ok e" "stack_main e" using assms by (simp_all add: measured_def)
  show "measured w (fst (addNodeToBeExecuted c oi p nd ri nri md e))"
    by (rule measured_same [OF assms graph.addNodeToBeExecuted_R stack_main_add [OF m(3,1)]])
  show "weight w (fst (addNodeToBeExecuted c oi p nd ri nri md e)) \<le> weight w e + w (ic_node c)"
    by (rule weight_add [OF m(2,1)])
qed

lemma addSuccessors_measured:
  assumes "measured w e"
  shows "measured w (fst (addSuccessors nm nd ri e)) \<and> weight w (fst (addSuccessors nm nd ri e)) < weight w e + w nm"
proof -
  have v1: "en_v1 e" using assms by (simp add: measured_def)
  have less: "(\<Sum>c\<leftarrow>output_connections e nm. w (ic_node (snd c))) < w nm" using assms by (simp add: measured_def weighted_def)
  let ?F = "foldE (\<lambda>c acc. bindE (check_destination e c) (\<lambda>_.
              Inr (if has_output e nd c then acc @ [(position_of e (snd c), c)] else acc))) (output_connections e nm) []"
  show ?thesis
  proof (cases ?F)
    case (Inl err)
    with v1 assms less show ?thesis by (simp add: addSuccessors_def)
  next
    case (Inr l)
    then have l: "l = map (\<lambda>c. (position_of e (snd c), c)) (filter (has_output e nd) (output_connections e nm))"
      by (drule_tac foldE_filter) simp
    let ?e = "fst (foldO (\<lambda>n. add_successor nm nd ri (snd n)) (by_position l) e)"
    have "measured w ?e \<and> weight w ?e \<le> weight w e + (\<Sum>x\<leftarrow>by_position l. w (ic_node (snd (snd x))))"
      by (rule foldO_weight [where I = "measured w"]) (simp_all add: assms add_successor_def add_measured)
    moreover have "(\<Sum>x\<leftarrow>by_position l. w (ic_node (snd (snd x)))) \<le> (\<Sum>c\<leftarrow>output_connections e nm. w (ic_node (snd c)))"
      unfolding sum_by_position l using sum_filter_le [of "\<lambda>c. w (ic_node (snd c))"] by (simp add: comp_def)
    moreover have "fst (addSuccessors nm nd ri e) = ?e" using v1 Inr by (simp add: addSuccessors_def)
    ultimately show ?thesis using less by auto
  qed
qed

section \<open>Waiting nodes\<close>

lemma try_release_weight:
  assumes "names_ok e"
  shows "try_release ev ws e nm = Inr (Emptied e') \<Longrightarrow> weight w e' \<le> weight w e \<and> (stack_main e \<longrightarrow> stack_main e')"
    "try_release ev ws e nm = Inr (Added e') \<Longrightarrow> weight w e' \<le> weight w e \<and> (stack_main e \<longrightarrow> stack_main e')"
proof -
  have rm: "en_stack (remove_waiting nm k a) = en_stack a" for k a by (simp add: remove_waiting_def Let_def)
  show "weight w e' \<le> weight w e \<and> (stack_main e \<longrightarrow> stack_main e')" if "try_release ev ws e nm = Inr (Emptied e')"
  proof -
    from that obtain k where k: "first_run_index (entries_of e nm) = Some k" "e' = remove_waiting nm k e"
      by (auto simp: try_release_def Let_def split: option.splits if_splits)
    from weight_remove [OF first_run_index_key [OF k(1)], of w] k(2) rm show ?thesis by (simp add: stack_main_def)
  qed
  show "weight w e' \<le> weight w e \<and> (stack_main e \<longrightarrow> stack_main e')" if "try_release ev ws e nm = Inr (Added e')"
  proof -
    from that obtain k node l src where k: "first_run_index (entries_of e nm) = Some k" "getNode (en_workflow e) nm = Some node"
      "e' = remove_waiting nm k (e\<lparr>en_stack := en_stack e @ [\<lparr>ed_node = node, ed_data = [(Main, l)], ed_source = src,
        ed_runIndex = None, ed_metadata = None\<rparr>]\<rparr>)"
      by (auto simp: try_release_def Let_def split: option.splits if_splits)
    let ?e = "e\<lparr>en_stack := en_stack e @ [\<lparr>ed_node = node, ed_data = [(Main, l)], ed_source = src, ed_runIndex = None, ed_metadata = None\<rparr>]\<rparr>"
    have "k \<in> fst ` set (entries_of ?e nm)" using first_run_index_key [OF k(1)] by (simp add: entries_of_def)
    from weight_remove [OF this, of w] names_ok_get [OF assms k(2)] k(3) rm show ?thesis
      by (auto simp: stack_main_def weight_def has_main_def mhas_def)
  qed
qed

lemma release_loop_measured:
  assumes "measured w e"
  shows "measured w (fst (release_loop ev ws i e)) \<and> weight w (fst (release_loop ev ws i e)) \<le> weight w e"
  using assms
proof (induction ev ws i e rule: release_loop.induct)
  case (1 ev ws i e)
  note eq = release_loop.simps [of ev ws i e]
  have m: "names_ok e" "stack_main e" using "1.prems" by (simp_all add: measured_def)
  show ?case
  proof (cases "length ws \<le> i")
    case True
    with "1.prems" show ?thesis by (simp add: eq)
  next
    case False
    show ?thesis
    proof (cases "try_release ev ws e (ws ! i)")
      case (Inl err)
      with False "1.prems" show ?thesis by (simp add: eq)
    next
      case (Inr r)
      show ?thesis
      proof (cases r)
        case Skip
        with False Inr "1.IH"(1) [OF False Inr Skip "1.prems"] show ?thesis by (simp add: eq)
      next
        case (Added e1)
        from try_release_weight(2) [OF m(1), of ev ws "ws ! i" e1 w] Inr Added m(2)
        have "weight w e1 \<le> weight w e" "stack_main e1" by simp_all
        moreover have "same_graph e e1" using graph.try_release_R(1) [of ev ws e "ws ! i" e1] Inr Added by simp
        ultimately show ?thesis using measured_same [OF "1.prems"] False Inr Added by (simp add: eq)
      next
        case (Emptied e1)
        from try_release_weight(1) [OF m(1), of ev ws "ws ! i" e1 w] Inr Emptied m(2)
        have e1: "weight w e1 \<le> weight w e" "stack_main e1" by simp_all
        have "same_graph e e1" using graph.try_release_R(2) [of ev ws e "ws ! i" e1] Inr Emptied by simp
        from "1.IH"(2) [OF False Inr Emptied measured_same [OF "1.prems" this e1(2)]] e1(1)
        show ?thesis using False Inr Emptied by (simp add: eq)
      qed
    qed
  qed
qed

section \<open>Iterations\<close>

lemma has_main_pair_inputs [simp]: "has_main (ed_data (pair_inputs d)) = has_main (ed_data d)"
  by (simp add: has_main_def mhas_iff pair_inputs_def image_image case_prod_beta)

lemma input_data_v1: "en_v1 e \<Longrightarrow> has_main (ed_data d) \<Longrightarrow> input_data_loop e d is"
  by (induction e d "is" rule: input_data_loop.induct) (simp_all add: isLegacyExecutionOrder_def)

lemma ensureInputData_v1: "en_v1 e \<Longrightarrow> has_main (ed_data d) \<Longrightarrow> ensureInputData d e = (e, True)"
  by (simp add: ensureInputData_def input_data_v1)

lemma same_weight: "en_stack e' = en_stack e \<Longrightarrow> en_waiting e' = en_waiting e \<Longrightarrow> weight w e' = weight w e"
  by (simp add: weight_def)

lemma measured_queue:
  assumes "measured w e" "same_graph e e'" "en_stack e' = en_stack e"
  shows "measured w e'"
  by (rule measured_same [OF assms(1,2)]) (use assms(1,3) in \<open>simp add: measured_def stack_main_def\<close>)

lemma measured_pos: "measured w e \<Longrightarrow> 0 < w nm"
  by (auto simp: measured_def weighted_def intro: le_less_trans)

lemma after_store_weight:
  assumes "measured w (lp_engine lp)" "after_store ev ri nd d lp = Continue lp'"
  shows "measured w (lp_engine lp') \<and> weight w (lp_engine lp') < weight w (lp_engine lp) + w (n_name (ed_node d))"
proof -
  let ?e = "lp_engine lp" and ?nm = "n_name (ed_node d)"
  have pos: "0 < w ?nm" by (rule measured_pos [OF assms(1)])
  have log: "measured w a \<Longrightarrow> measured w (log_hook h a)" "weight w (log_hook h a) = weight w a" for a h
    by (simp_all add: log_hook_def measured_def weight_def stack_main_def names_ok_def weighted_def output_connections_def)
  show ?thesis
  proof (cases "map_option fst (en_destination ?e) = Some ?nm")
    case True
    with assms(2) have "lp_engine lp' = log_hook (NodeExecuteAfter ?nm) ?e"
      by (auto simp: after_store_def Let_def split: if_splits)
    with pos log assms(1) show ?thesis by simp
  next
    case False
    obtain e1 err1 where a: "addSuccessors ?nm nd ri ?e = (e1, err1)" by fastforce
    obtain e2 err2 where r: "releaseWaiting ev (log_hook (NodeExecuteAfter ?nm) e1) = (e2, err2)" by fastforce
    have e1: "measured w e1" "weight w e1 < weight w ?e + w ?nm" using addSuccessors_measured [OF assms(1), of ?nm nd ri] a by simp_all
    have "e2 = log_hook (NodeExecuteAfter ?nm) e1 \<or> (\<exists>ws i. e2 = fst (release_loop ev ws i (log_hook (NodeExecuteAfter ?nm) e1)))"
      using r by (auto simp: releaseWaiting_def split: if_splits) (metis fst_conv)
    then have "measured w e2 \<and> weight w e2 \<le> weight w e1"
      using release_loop_measured [OF log(1) [OF e1(1)]] log e1(1) by auto
    moreover have "lp_engine lp' = e2"
      using assms(2) False a r by (auto simp: after_store_def Let_def split: if_splits option.splits)
    ultimately show ?thesis using e1(2) by simp
  qed
qed

lemma after_tries_weight:
  assumes "measured w (at_engine a)" "after_tries ev k ri a err lp = Continue lp'"
  shows "measured w (lp_engine lp') \<and> weight w (lp_engine lp') < weight w (at_engine a) + w (n_name (ed_node (at_data a)))"
proof -
  let ?nm = "n_name (ed_node (at_data a))"
  let ?e = "ensure_runs ?nm (at_engine a)"
  have go: "err = None \<or> continues_on_error (ed_node (at_data a))"
    using assms(2) by (auto simp: after_tries_def Let_def split: if_splits)
  let ?nd = "case (err, arr_get (main_data (ed_data (at_data a))) 0) of (Some _, Some (Some items)) \<Rightarrow> Some [Some items] | _ \<Rightarrow> at_nd a"
  from go assms(2) obtain nd where nd: "mergeErrors ?nd = Inr nd"
    by (cases "mergeErrors ?nd") (auto simp: after_tries_def Let_def)
  let ?e2 = "write_pinned a nd ?e"
  let ?e3 = "store_task ?nm ri (finished_task ri nd (new_task k (at_data a) (at_hints a) (en_waitTill ?e) err) (ed_node (at_data a)) ?e2) ?e2"
  have q: "en_stack ?e3 = en_stack (at_engine a)" "en_waiting ?e3 = en_waiting (at_engine a)"
    by (simp_all add: store_task_def write_pinned_def ensure_runs_def Let_def split: option.splits list.splits)
  have g: "same_graph (at_engine a) ?e3"
    by (simp add: same_graph_def store_task_def write_pinned_def ensure_runs_def Let_def split: option.splits list.splits)
  have "after_store ev ri nd (at_data a) (lp\<lparr>lp_engine := ?e, lp_error := err, lp_engine := ?e3\<rparr>) = Continue lp'"
    using assms(2) go nd by (auto simp: after_tries_def Let_def)
  from after_store_weight [OF _ this, of w] measured_queue [OF assms(1) g q(1)] same_weight [OF q] show ?thesis by simp
qed

lemma exec_step_weight:
  assumes "measured w (lp_engine lp)" "\<not> asks ev" "en_stack (lp_engine lp) \<noteq> []" "exec_step ev lp = Continue lp'"
  shows "measured w (lp_engine lp') \<and> weight w (lp_engine lp') < weight w (lp_engine lp)"
proof -
  from assms(3) obtain d rest where st: "en_stack (lp_engine lp) = d # rest" by (cases "en_stack (lp_engine lp)") auto
  let ?e = "(lp_engine lp)\<lparr>en_stack := rest, en_execIndex := Suc (en_execIndex (lp_engine lp))\<rparr>"
  let ?d = "pair_inputs d" and ?nm = "n_name (ed_node d)"
  have m: "measured w ?e"
    using assms(1) st by (simp add: measured_def stack_main_def names_ok_def weighted_def output_connections_def)
  have pos: "0 < w ?nm" by (rule measured_pos [OF assms(1)])
  have wt: "weight w (lp_engine lp) = weight w ?e + w ?nm" using st by (simp add: weight_def)
  have main: "has_main (ed_data ?d)" "en_v1 ?e" using assms(1) st by (simp_all add: measured_def stack_main_def)
  have live: "\<not> ev_timeout ev (en_execIndex (lp_engine lp))" "en_status (lp_engine lp) \<noteq> StCanceled"
    using assms(4) exec_step_cancelled [of ev lp] by auto
  consider "lp_engine lp' = ?e" | lp2 where "execute_entry ev (en_execIndex (lp_engine lp)) (run_index ?e ?d) ?d lp2 = Continue lp'"
      "lp_engine lp2 = ?e"
    using assms(4) st live ensureInputData_v1 [OF main(2,1)] by (auto simp: exec_step_def Let_def split: if_splits)
  then show ?thesis
  proof cases
    case 1
    with m wt pos show ?thesis by simp
  next
    case 2
    let ?k = "en_execIndex (lp_engine lp)" and ?ri = "run_index ?e ?d"
    let ?e1 = "if Option.bind (ed_metadata ?d) md_nodeWasResumed = Some True then ?e
      else log_hook (NodeExecuteBefore (n_name (ed_node ?d))) ?e"
    have m1: "measured w ?e1" "weight w ?e1 = weight w ?e"
      using m by (simp_all add: log_hook_def measured_def weight_def stack_main_def names_ok_def weighted_def output_connections_def)
    obtain a err b where t: "try_loop ev ?ri (max_tries (ed_node ?d)) 0 None (start_attempt ?d ?e1) = (a, err, b)" by (metis prod_cases3)
    have q: "en_stack (at_engine a) = en_stack ?e1" "en_waiting (at_engine a) = en_waiting ?e1"
      using queue.try_loop_R [OF t] assms(2) by (simp_all add: same_queue_def start_attempt_def)
    have g: "same_graph ?e1 (at_engine a)" "ed_node (at_data a) = ed_node d"
      using graph.tries.try_loop_R [OF t] by (simp_all add: start_attempt_def)
    have ma: "measured w (at_engine a)" "weight w (at_engine a) = weight w ?e"
      using measured_queue [OF m1(1) g(1) q(1)] same_weight [OF q] m1(2) by simp_all
    show ?thesis
    proof (cases b)
      case True
      with 2 t ma wt pos show ?thesis by (auto simp: execute_entry_def Let_def)
    next
      case False
      with 2 t have "after_tries ev ?k ?ri a err lp2 = Continue lp'" by (simp add: execute_entry_def Let_def)
      from after_tries_weight [OF ma(1) this] ma(2) g(2) wt show ?thesis by simp
    qed
  qed
qed

text \<open>The fuel that is enough.\<close>

lemma run_loop_ends:
  assumes "measured w (lp_engine lp)" "\<not> asks ev" "weight w (lp_engine lp) \<le> fuel"
  shows "\<exists>r. run_loop ev fuel lp = Some r"
  using assms(1,3)
proof (induction fuel arbitrary: lp)
  case 0
  have "w nm \<noteq> 0" for nm using measured_pos [OF "0.prems"(1), of nm] by simp
  with 0 have "en_stack (lp_engine lp) = []" by (cases "en_stack (lp_engine lp)") (simp_all add: weight_def)
  then show ?case by simp
next
  case (Suc fuel)
  show ?case
  proof (cases "en_stack (lp_engine lp) = []")
    case False
    show ?thesis
    proof (cases "exec_step ev lp")
      case (Continue lp1)
      from exec_step_weight [OF Suc.prems(1) assms(2) False Continue] Suc.prems(2)
      have "measured w (lp_engine lp1)" "weight w (lp_engine lp1) \<le> fuel" by auto
      from Suc.IH [OF this] False Continue show ?thesis by simp
    qed (use False in simp_all)
  qed simp
qed

section \<open>Weights exist\<close>

text \<open>On connections without a cycle, the weight of a node is one more than the weights of its successors.\<close>

lemma output_connections_follow:
  "c \<in> set (output_connections e nm) \<Longrightarrow> (nm, ic_node (snd c)) \<in> follow (wf_bySource (en_workflow e)) (OfType Main)"
proof -
  assume "c \<in> set (output_connections e nm)"
  then obtain i l where "(i, l) \<in> set (enumerate0 (cells (wf_bySource (en_workflow e)) nm Main))" "snd c \<in> set (case_option [] id l)"
    by (auto simp: output_connections_def)
  then have "conn_at (wf_bySource (en_workflow e)) nm Main i (snd c)" by (auto simp: conn_at_def set_enumerate0)
  then show ?thesis by (force simp: follow_links links_def)
qed

lemma weights_exist:
  assumes "acyclic (follow (wf_bySource (en_workflow e)) (OfType Main))"
  shows "\<exists>w. weighted w e"
proof -
  let ?R = "(follow (wf_bySource (en_workflow e)) (OfType Main))\<inverse>"
  have wf: "wf ?R" by (rule finite_acyclic_wf_converse [OF finite_follow assms])
  let ?F = "\<lambda>f nm. Suc (\<Sum>c\<leftarrow>output_connections e nm. f (ic_node (snd c)) :: nat)"
  have "weighted (wfrec ?R ?F) e"
    unfolding weighted_def
  proof
    fix nm
    have "wfrec ?R ?F nm = ?F (cut (wfrec ?R ?F) ?R nm) nm" by (rule wfrec [OF wf])
    also have "map (\<lambda>c. cut (wfrec ?R ?F) ?R nm (ic_node (snd c))) (output_connections e nm)
        = map (\<lambda>c. wfrec ?R ?F (ic_node (snd c))) (output_connections e nm)"
      by (rule map_cong) (simp_all add: cut_def output_connections_follow)
    finally show "(\<Sum>c\<leftarrow>output_connections e nm. wfrec ?R ?F (ic_node (snd c))) < wfrec ?R ?F nm" by simp
  qed
  then show ?thesis by (rule exI [of _ "wfrec ?R ?F"])
qed

end
