(* ===== verification/Request_Order.thy ===== *)
theory Request_Order
  imports Engine_Termination
begin

text \<open>In which order a node that asks for others and the nodes it asks for come to the stack.\<close>

definition stack_names :: "engine \<Rightarrow> string list" where
  "stack_names e = map (\<lambda>d. n_name (ed_node d)) (en_stack e)"

lemma stack_names_enqueue:
  "stack_names (enqueue d e) = (if en_v1 e then n_name (ed_node d) # stack_names e else stack_names e @ [n_name (ed_node d)])"
  by (simp add: stack_names_def enqueue_def)

lemma same_graph_get: "same_graph e e' \<Longrightarrow> getNode (en_workflow e') nm = None \<longleftrightarrow> getNode (en_workflow e) nm = None"
proof -
  assume "same_graph e e'"
  then have "map fst (map (\<lambda>p. (fst p, n_name (snd p))) (wf_nodes (en_workflow e')))
      = map fst (map (\<lambda>p. (fst p, n_name (snd p))) (wf_nodes (en_workflow e)))" by (simp add: same_graph_def)
  then have "fst ` set (wf_nodes (en_workflow e')) = fst ` set (wf_nodes (en_workflow e))"
    by (simp add: comp_def) (metis list.set_map)
  then show ?thesis by (simp add: getNode_def map_of_eq_None_iff)
qed

lemma same_graph_inputs: "same_graph e e' \<Longrightarrow> numberOfInputs e' nm = numberOfInputs e nm"
  by (simp add: same_graph_def numberOfInputs_def)

lemma prepare_action_spec:
  assumes "prepare_action nd ri d a (e, ns, as) = Inr (e', ns', as')"
  shows "stack_names e' = stack_names e" "getNode (en_workflow e) (a_nodeName a) \<noteq> None"
    "\<exists>t. ns' = ns @ [t] \<and> ic_node (tb_connection t) = a_nodeName a"
proof -
  obtain node where node: "getNode (en_workflow e) (a_nodeName a) = Some node"
    using assms by (cases "getNode (en_workflow e) (a_nodeName a)") (simp_all add: prepare_action_def)
  then show "getNode (en_workflow e) (a_nodeName a) \<noteq> None" by simp
  have u: "stack_names (update_node r (\<lambda>n. n\<lparr>n_rewireOutputLogTo := t\<rparr>) e) = stack_names e" for r t
    by (simp add: stack_names_def update_node_def comp_def)
  have sr: "stack_names (x\<lparr>en_runData := rd\<rparr>) = stack_names x" for x rd by (simp add: stack_names_def)
  note p = assms [symmetric, unfolded prepare_action_def prod.case, unfolded node option.case Let_def prod.case_eq_if sum.inject prod.inject]
  show "stack_names e' = stack_names e"
    by (simp only: conjunct1 [OF p] sr u)
  show "\<exists>t. ns' = ns @ [t] \<and> ic_node (tb_connection t) = a_nodeName a"
    by (rule exI, rule conjI [OF conjunct1 [OF conjunct2 [OF p]]]) simp
qed

lemma prepare_actions_spec:
  assumes "foldS (prepare_action nd ri d) actions (e, ns, as) = ((e', ns', as'), None)"
  shows "stack_names e' = stack_names e \<and> same_graph e e' \<and> (\<forall>a\<in>set actions. getNode (en_workflow e) (a_nodeName a) \<noteq> None)
    \<and> (\<exists>ts. ns' = ns @ ts \<and> map (\<lambda>t. ic_node (tb_connection t)) ts = map a_nodeName actions)"
  using assms
proof (induction actions arbitrary: e ns as)
  case Nil
  then show ?case by (auto simp: graph.refl)
next
  case (Cons a actions)
  obtain e1 ns1 as1 where 1: "prepare_action nd ri d a (e, ns, as) = Inr (e1, ns1, as1)"
    using Cons.prems by (cases "prepare_action nd ri d a (e, ns, as)") auto
  note s = prepare_action_spec [OF 1]
  have g: "same_graph e e1" using graph.prepare_action_R [OF 1] by simp
  from Cons.prems 1 have "foldS (prepare_action nd ri d) actions (e1, ns1, as1) = ((e', ns', as'), None)" by simp
  from Cons.IH [OF this] s same_graph_get [OF g] graph.trans [OF g] show ?case by auto
qed

lemma schedule_single:
  assumes "names_ok e" "numberOfInputs e (ic_node (tb_connection t)) \<le> 1" "getNode (en_workflow e) (ic_node (tb_connection t)) \<noteq> None"
  shows "\<exists>d. schedule t e = (enqueue d e, None) \<and> n_name (ed_node d) = ic_node (tb_connection t)"
proof -
  obtain node where n: "getNode (en_workflow e) (ic_node (tb_connection t)) = Some node"
    using assms(3) by (cases "getNode (en_workflow e) (ic_node (tb_connection t))") auto
  then have "n_name node = ic_node (tb_connection t)" by (rule names_ok_get [OF assms(1)])
  with n assms(2) show ?thesis by (auto simp: schedule_def addNodeToBeExecuted_def add_to_stack_def)
qed

lemma schedule_all:
  assumes "names_ok e" "\<forall>t\<in>set ts. numberOfInputs e (ic_node (tb_connection t)) \<le> 1 \<and> getNode (en_workflow e) (ic_node (tb_connection t)) \<noteq> None"
  shows "\<exists>e'. foldO schedule ts e = (e', None) \<and> stack_names e' = (if en_v1 e then rev (map (\<lambda>t. ic_node (tb_connection t)) ts) @ stack_names e
    else stack_names e @ map (\<lambda>t. ic_node (tb_connection t)) ts)"
  using assms
proof (induction ts arbitrary: e)
  case (Cons t ts)
  from schedule_single [of e t] Cons.prems obtain d where d: "schedule t e = (enqueue d e, None)"
    "n_name (ed_node d) = ic_node (tb_connection t)" by auto
  have g: "same_graph e (enqueue d e)" by (rule graph.enqueue_R)
  have "names_ok (enqueue d e)" by (rule names_ok_same [OF g Cons.prems(1)])
  from Cons.IH [OF this] Cons.prems(2) same_graph_inputs [OF g] same_graph_get [OF g] obtain e' where
    "foldO schedule ts (enqueue d e) = (e', None)" "stack_names e' = (if en_v1 (enqueue d e)
       then rev (map (\<lambda>t. ic_node (tb_connection t)) ts) @ stack_names (enqueue d e)
       else stack_names (enqueue d e) @ map (\<lambda>t. ic_node (tb_connection t)) ts)" by auto
  with d show ?case by (auto simp: stack_names_enqueue enqueue_def [of d e, THEN arg_cong, of en_v1])
qed simp

text \<open>The node is resumed over a connection to itself.\<close>

lemma resuming_node: "prepareRequestingNodeForResuming d = Some (c, p, md) \<Longrightarrow> ic_node c = n_name (ed_node d)"
  by (auto simp: prepareRequestingNodeForResuming_def Let_def split: option.splits if_splits)

lemma request_order:
  assumes "names_ok e" "getNode (en_workflow e) (n_name (ed_node d)) \<noteq> None"
    and "\<forall>nm\<in>insert (n_name (ed_node d)) (a_nodeName ` set actions). numberOfInputs e nm \<le> 1"
    and "prepareRequestingNodeForResuming d \<noteq> None" "handleEngineRequest nd actions md ri d e = (e', None)"
  shows "stack_names e' = (if en_v1 e then rev (map a_nodeName actions) @ [n_name (ed_node d)] @ stack_names e
    else stack_names e @ [n_name (ed_node d)] @ map a_nodeName actions)"
proof -
  obtain c p rmd where r: "prepareRequestingNodeForResuming d = Some (c, p, rmd)"
    using assms(4) by (cases "prepareRequestingNodeForResuming d") auto
  obtain e1 ns as err where f: "foldS (prepare_action nd ri d) actions (e, [], []) = ((e1, ns, as), err)" by (metis prod_cases4 prod.collapse)
  have "err = None" using assms(5) f
    by (cases err) (simp_all add: handleEngineRequest_def handleRequest_def prepareRequestedNodesForExecution_def)
  note S = prepare_actions_spec [OF f [unfolded this]]
  from S have g: "same_graph e e1" and st: "stack_names e1 = stack_names e"
    and names: "map (\<lambda>t. ic_node (tb_connection t)) ns = map a_nodeName actions" by auto
  from assms(5) f \<open>err = None\<close> r obtain t where t: "ic_node (tb_connection t) = n_name (ed_node d)" "foldO schedule (t # ns) e1 = (e', None)"
    by (simp add: handleEngineRequest_def handleRequest_def prepareRequestedNodesForExecution_def resuming_node
        del: foldO.simps) (metis node_to_execute.select_convs(1) resuming_node)
  have all: "ic_node (tb_connection x) \<in> insert (n_name (ed_node d)) (a_nodeName ` set actions)" if "x \<in> set (t # ns)" for x
  proof (cases "x = t")
    case False
    with that have "ic_node (tb_connection x) \<in> set (map (\<lambda>t. ic_node (tb_connection t)) ns)" by simp
    then show ?thesis unfolding names by simp
  qed (use t(1) in simp)
  have "\<forall>x\<in>set (t # ns). numberOfInputs e1 (ic_node (tb_connection x)) \<le> 1 \<and> getNode (en_workflow e1) (ic_node (tb_connection x)) \<noteq> None"
  proof
    fix x assume "x \<in> set (t # ns)"
    note a = all [OF this]
    then have "getNode (en_workflow e) (ic_node (tb_connection x)) \<noteq> None" using assms(2) S by auto
    with a show "numberOfInputs e1 (ic_node (tb_connection x)) \<le> 1 \<and> getNode (en_workflow e1) (ic_node (tb_connection x)) \<noteq> None"
      using assms(3) same_graph_inputs [OF g] same_graph_get [OF g] by auto
  qed
  from schedule_all [OF names_ok_same [OF g assms(1)] this] t(2) have
    "stack_names e' = (if en_v1 e1 then rev (map (\<lambda>t. ic_node (tb_connection t)) (t # ns)) @ stack_names e1
      else stack_names e1 @ map (\<lambda>t. ic_node (tb_connection t)) (t # ns))" by auto
  moreover have "en_v1 e1 = en_v1 e" using g by (simp add: same_graph_def)
  ultimately show ?thesis using t(1) names st by simp
qed

end
