(* ===== verification/Engine_Calls.thy ===== *)
theory Engine_Calls
  imports Engine_Runs
begin

text \<open>
  How often the code of a node is called in one iteration. The inner loop of retries advances the index of
  the outer one only after a call that returns, so a node with \<open>m\<close> tries may be called \<open>2 * m - 1\<close> times.
\<close>

text \<open>Everything but \<^verbatim>\<open>runNode\<close> leaves the number of calls alone.\<close>

interpretation calls: state_frame "\<lambda>e e'. en_calls e' = en_calls e" name k for name k
  by unfold_locales (auto simp: update_node_def ensure_runs_def store_task_def log_hook_def Let_def)

text \<open>The calls that remain at the try \<open>t\<close>.\<close>

definition budget :: "nat \<Rightarrow> nat \<Rightarrow> nat" where
  "budget m t = (if t < m then 2 * (m - t) - 1 else 0)"

lemma budget_simps [simp]:
  "m \<le> t \<Longrightarrow> budget m t = 0"
  "Suc t = m \<Longrightarrow> budget m t = 1"
  "Suc t < m \<Longrightarrow> budget m t = budget m (Suc t) + 2"
  by (auto simp: budget_def)

lemma budget_pos: "t < m \<Longrightarrow> 0 < budget m t"
  by (simp add: budget_def)

lemma budget_next: "t < m \<Longrightarrow> budget m (Suc t) \<le> budget m t - 1"
  by (cases "Suc t < m") auto

lemma runNode_calls: "en_calls (fst (runNode ev d rs e)) \<le> Suc (en_calls e)"
  by (simp add: runNode_def Let_def call_code_def split: option.splits sum.splits)

lemma rerun_calls:
  assumes "rerun ev m t out d e = (e', d', out', t')" "t < m"
  shows "en_calls e' + budget m (Suc t') \<le> en_calls e + (budget m t - 1)"
  using assms
proof (induction ev m t out d e rule: rerun.induct)
  case (1 ev m t out d e)
  note eq = rerun.simps [of ev m t]
  show ?case
  proof (cases "checkFailure out \<and> Suc t < m")
    case True
    obtain e1 d1 r where r: "runNode ev d [] e = (e1, d1, r)" by (metis prod_cases3)
    have e1: "en_calls e1 \<le> Suc (en_calls e)" using runNode_calls [of ev d "[]" e] r by simp
    show ?thesis
    proof (cases r)
      case (Inl err)
      with "1.prems"(1) True r have "e' = e1" "t' = t" by (simp_all add: eq)
      with e1 True show ?thesis by simp
    next
      case (Inr out1)
      with "1.prems"(1) True r have "rerun ev m (Suc t) out1 d1 e1 = (e', d', out', t')" by (simp add: eq)
      from "1.IH" [OF True r [symmetric] refl Inr this] True
      have "en_calls e' + budget m (Suc t') \<le> en_calls e1 + (budget m (Suc t) - 1)" by simp
      with e1 True budget_pos [of "Suc t" m] show ?thesis by simp
    qed
  next
    case False
    with "1.prems" have "e' = e" "t' = t" by (auto simp: eq)
    with budget_next [OF "1.prems"(2)] show ?thesis by simp
  qed
qed

lemma run_once_calls:
  assumes "run_once ev ri m t a = (a', t', r)" "t < m"
  shows "en_calls (at_engine a') + (case r of TryError err \<Rightarrow> budget m (Suc t') | _ \<Rightarrow> 0) \<le> en_calls (at_engine a) + budget m t"
proof (cases "pinned_items (at_engine a) (ed_node (at_data a))")
  case (Some items)
  let ?b = "a\<lparr>at_nd := Some [Some items], at_pinned := True\<rparr>"
  from assms(1) Some have "a' = fst (finish_try ?b)" "t' = t" by (auto simp: run_once_def Let_def split: prod.splits)
  then show ?thesis using calls.finish_try_R [where a = ?b] budget_next [OF assms(2)] by (auto split: try_result.splits)
next
  case None
  let ?rs = "at_responses a @ collectResponses (at_engine a) (at_data a)"
  obtain e1 d1 o1 where r1: "runNode ev (at_data a) ?rs (at_engine a) = (e1, d1, o1)" by (metis prod_cases3)
  have e1: "en_calls e1 \<le> Suc (en_calls (at_engine a))" using runNode_calls [of ev "at_data a" ?rs "at_engine a"] r1 by simp
  have pos: "0 < budget m t" "budget m (Suc t) \<le> budget m t - 1" using assms(2) budget_pos budget_next by simp_all
  show ?thesis
  proof (cases o1)
    case (Inl err)
    with assms(1) None r1 have "at_engine a' = e1" "t' = t" by (auto simp: run_once_def Let_def)
    with e1 pos show ?thesis by (auto split: try_result.splits)
  next
    case (Inr out)
    obtain e2 d2 o2 t2 where r2: "rerun ev m t out d1 e1 = (e2, d2, o2, t2)" by (metis prod_cases4)
    note unf = assms(1) [unfolded run_once_def Let_def, simplified None r1 Inr r2 option.case prod.case sum.case]
    let ?b = "a\<lparr>at_responses := ?rs, at_engine := e2, at_data := d2\<rparr>"
    have "en_calls (at_engine a') = en_calls e2 \<and> t' = t2"
    proof (cases o2)
      case (Inl err)
      with unf show ?thesis by auto
    next
      case out2: (Inr out2)
      show ?thesis
      proof (cases out2)
        case (NodeData nd hs)
        with unf out2 have "a' = fst (accept_output ev nd hs ?b)" "t' = t2" by (auto split: prod.splits)
        then show ?thesis using calls.accept_output_R [where a = ?b and ev = ev and nd = nd and hs = hs] by simp
      next
        case (NodeRequest as md)
        let ?h = "handleEngineRequest (ed_node (at_data a)) as md ri d2 e2"
        from unf out2 NodeRequest have "at_engine a' = fst ?h" "t' = t2" by (auto split: prod.splits option.splits)
        then show ?thesis using calls.handleEngineRequest_R [where e = e2 and nd = "ed_node (at_data a)" and as = as and md = md and ri = ri and d = d2] by simp
      qed
    qed
    with rerun_calls [OF r2 assms(2)] e1 pos show ?thesis by (auto split: try_result.splits)
  qed
qed

lemma try_loop_calls:
  assumes "try_loop ev ri m t err a = (a', err', b)"
  shows "en_calls (at_engine a') \<le> en_calls (at_engine a) + budget m t"
  using assms
proof (induction ev ri m t err a rule: try_loop.induct)
  case (1 ev ri m t err a)
  note eq = try_loop.simps [of ev ri m t err a]
  show ?case
  proof (cases "m \<le> t")
    case True
    with "1.prems" show ?thesis by (simp add: eq)
  next
    case False
    obtain a1 t1 r where r: "run_once ev ri m t a = (a1, t1, r)" by (metis prod_cases3)
    note a1 = run_once_calls [OF r]
    show ?thesis
    proof (cases r)
      case (TryError e1)
      let ?a = "a1\<lparr>at_engine := (at_engine a1)\<lparr>en_lastNode := Some (n_name (ed_node (at_data a1)))\<rparr>\<rparr>"
      from False r TryError "1.prems" have "try_loop ev ri m (Suc t1) (Some e1) ?a = (a', err', b)" by (simp add: eq)
      from "1.IH" [OF False r [symmetric] refl TryError this] a1 TryError False show ?thesis by simp
    qed (use False r a1 "1.prems" in \<open>auto simp: eq\<close>)
  qed
qed

lemma execute_entry_calls:
  "en_calls (lp_engine (step_loop (execute_entry ev k ri d lp))) \<le> en_calls (lp_engine lp) + (2 * max_tries (ed_node d) - 1)"
proof -
  let ?e = "if Option.bind (ed_metadata d) md_nodeWasResumed = Some True then lp_engine lp
    else log_hook (NodeExecuteBefore (n_name (ed_node d))) (lp_engine lp)"
  obtain a err b where t: "try_loop ev ri (max_tries (ed_node d)) 0 None (start_attempt d ?e) = (a, err, b)" by (metis prod_cases3)
  have "en_calls (at_engine a) \<le> en_calls (lp_engine lp) + (2 * max_tries (ed_node d) - 1)"
    using try_loop_calls [OF t] max_tries_bounds [of "ed_node d"] by (simp add: start_attempt_def budget_def log_hook_def split: if_splits)
  moreover have "en_calls (lp_engine (step_loop (after_tries ev k ri a err lp))) = en_calls (at_engine a)"
    using calls.after_tries_R [where a = a and name = "n_name (ed_node (at_data a))" and ev = ev and k = k and ri = ri and err = err and lp = lp] by simp
  ultimately show ?thesis using t by (cases b) (simp_all add: execute_entry_def Let_def)
qed

lemma ensureInputData_calls: "en_calls (fst (ensureInputData d e)) = en_calls e"
  by (simp add: ensureInputData_def)

lemma exec_step_calls:
  assumes "en_stack (lp_engine lp) = d # rest"
  shows "en_calls (lp_engine (step_loop (exec_step ev lp))) \<le> en_calls (lp_engine lp) + (2 * max_tries (ed_node d) - 1)"
proof (cases "ev_timeout ev (en_execIndex (lp_engine lp)) \<or> en_status (lp_engine lp) = StCanceled")
  case True
  then show ?thesis by (simp add: exec_step_cancelled)
next
  case False
  let ?e = "(lp_engine lp)\<lparr>en_stack := rest, en_execIndex := Suc (en_execIndex (lp_engine lp))\<rparr>"
  let ?lp = "lp\<lparr>lp_engine := ?e, lp_error := None\<rparr>" and ?d = "pair_inputs d"
  obtain e1 b where i: "ensureInputData ?d ?e = (e1, b)" by fastforce
  then have e1: "en_calls e1 = en_calls (lp_engine lp)" using ensureInputData_calls [of ?d ?e] by simp
  have "en_calls (lp_engine (step_loop (execute_entry ev k ri ?d (?lp\<lparr>lp_engine := e1\<rparr>))))
      \<le> en_calls (lp_engine lp) + (2 * max_tries (ed_node d) - 1)" for k ri
    using execute_entry_calls [of ev k ri ?d "?lp\<lparr>lp_engine := e1\<rparr>"] e1 by simp
  then show ?thesis using False assms i e1
    by (auto simp: exec_step_def Let_def split: if_splits bool.splits)
qed

end
