(* ===== verification/Engine_Liveness.thy ===== *)
theory Engine_Liveness
  imports Engine_Release
begin

text \<open>
  What the release of waiting nodes achieves: without cycles, when it leaves the stack empty, a node still waits only
  for a node that lacks inputs its type requires.
\<close>

lemma try_release_shrinks:
  "try_release ev ws e nm = Inr (Emptied e') \<Longrightarrow>
    en_workflow e' = en_workflow e \<and> en_v1 e' = en_v1 e \<and> fst ` set (en_waiting e') \<subseteq> fst ` set (en_waiting e)"
proof -
  assume "try_release ev ws e nm = Inr (Emptied e')"
  then obtain k where k: "first_run_index (entries_of e nm) = Some k" "e' = remove_waiting nm k e"
    by (auto simp: try_release_def Let_def split: option.splits if_splits)
  have "nm \<in> fst ` set (en_waiting e)"
  proof (rule ccontr)
    assume "\<not> ?thesis"
    then have "entries_of e nm = []" by (simp add: entries_of_def map_of_eq_None_iff [symmetric])
    with first_run_index_key [OF k(1)] show False by simp
  qed
  then have "fst ` set (mset_at nm m (en_waiting e)) \<subseteq> fst ` set (en_waiting e)" for m
    using keys_set [of nm m "en_waiting e"] by (metis order_refl set_map)
  moreover have "fst ` set (mdel nm (en_waiting e)) \<subseteq> fst ` set (en_waiting e)"
    using keys_del [of nm "en_waiting e"] by (metis filter_is_subset set_map)
  ultimately show ?thesis unfolding k(2) by (simp add: remove_waiting_def Let_def)
qed

lemma release_loop_shrinks:
  assumes "release_loop ev ws i e = (e', None)" "en_stack e' = en_stack e"
  shows "en_workflow e' = en_workflow e \<and> en_v1 e' = en_v1 e \<and> fst ` set (en_waiting e') \<subseteq> fst ` set (en_waiting e)"
  using assms
proof (induction ev ws i e rule: release_loop.induct)
  case (1 ev ws i e)
  note eq = release_loop.simps [of ev ws i e]
  show ?case
  proof (cases "length ws \<le> i")
    case True
    with "1.prems" show ?thesis by (simp add: eq)
  next
    case False
    show ?thesis
    proof (cases "try_release ev ws e (ws ! i)")
      case (Inl err)
      with False "1.prems" show ?thesis by (simp add: eq)
    next
      case (Inr r)
      show ?thesis
      proof (cases r)
        case Skip
        with Inr False "1.prems" "1.IH"(1) [OF False Inr Skip] show ?thesis by (simp add: eq)
      next
        case (Added e2)
        have "en_stack e2 \<noteq> en_stack e"
          using Inr Added by (auto simp: try_release_def Let_def remove_waiting_def split: option.splits if_splits)
        with Inr Added False "1.prems" show ?thesis by (simp add: eq)
      next
        case (Emptied e2)
        have st: "en_stack e2 = en_stack e"
          using Inr Emptied by (auto simp: try_release_def Let_def remove_waiting_def split: option.splits if_splits)
        from Inr Emptied False "1.prems"(1) have "release_loop ev (obj_keys (en_waiting e2)) 0 e2 = (e', None)" by (simp add: eq)
        from "1.IH"(2) [OF False Inr Emptied this] "1.prems"(2) st try_release_shrinks [of ev ws e "ws ! i" e2] Inr Emptied
        show ?thesis by auto
      qed
    qed
  qed
qed

text \<open>
  A node is skipped only for a reason: it lacks inputs that its type requires (in the order \<^verbatim>\<open>v1\<close>), or a node
  before it is waiting.
\<close>

definition lacks_required :: "env \<Rightarrow> engine \<Rightarrow> string \<Rightarrow> bool" where
  "lacks_required ev e nm = (en_v1 e \<and>
     (case getNode (en_workflow e) nm of
        None \<Rightarrow> False
      | Some node \<Rightarrow> (case ev_types ev (n_type node) (n_typeVersion node) of
          None \<Rightarrow> False
        | Some ty \<Rightarrow> ti_requiredInputs ty \<noteq> None \<and>
            (all_required (ti_requiredInputs ty) (ti_inputs ty) \<or>
             (case first_run_index (entries_of e nm) of
                None \<Rightarrow> False
              | Some k \<Rightarrow> required_missing (ti_requiredInputs ty) (waiting_main e nm k))))))"

lemma try_release_skip:
  assumes "try_release ev ws e nm = Inr Skip" "getNode (en_workflow e) nm \<noteq> None" "\<not> lacks_required ev e nm"
  shows "\<exists>m. m \<in> set ws \<and> (nm, m) \<in> (follow (wf_byDest (en_workflow e)) (OfType Main))\<^sup>+"
proof -
  obtain node where node: "getNode (en_workflow e) nm = Some node" using assms(2) by (cases "getNode (en_workflow e) nm") auto
  let ?ty = "ev_types ev (n_type node) (n_typeVersion node)"
  define req where "req = (if en_v1 e then ti_requiredInputs (the ?ty) else None)"
  note skip = assms(1) [unfolded try_release_def node option.case Let_def, folded req_def]
  have known: "\<not> (en_v1 e \<and> ?ty = None)"
  proof
    assume "en_v1 e \<and> ?ty = None"
    with skip show False by simp
  qed
  have all: "\<not> (req \<noteq> None \<and> all_required req (ti_inputs (the ?ty)))"
    using known assms(3) node by (auto simp: lacks_required_def req_def split: if_splits)
  have missing: "\<not> required_missing req (waiting_main e nm k)" if "first_run_index (entries_of e nm) = Some k" for k
    using known assms(3) node that
    by (auto simp: lacks_required_def required_missing_def req_def split: if_splits option.splits)
  have "list_ex (\<lambda>p. p \<in> set ws) (getParentNodes (wf_byDest (en_workflow e)) nm (OfType Main) (- 1))"
  proof (rule ccontr)
    assume no: "\<not> ?thesis"
    note rest = skip [unfolded if_not_P [OF known] if_not_P [OF all] if_not_P [OF no]]
    show False
    proof (cases "first_run_index (entries_of e nm)")
      case None
      with rest show False by simp
    next
      case (Some k)
      with rest missing [OF Some] show False by (simp split: option.splits if_splits)
    qed
  qed
  then obtain m where "m \<in> set ws" "m \<in> set (getConnectedNodes (wf_byDest (en_workflow e)) nm (OfType Main) (- 1) [])"
    by (auto simp: list_ex_iff getParentNodes_def)
  then show ?thesis unfolding getConnectedNodes_set by (auto simp: trancl_power)
qed

text \<open>Following the reasons, one ends at a node that lacks required inputs.\<close>

lemma acyclic_blocked:
  assumes "acyclic R" "finite R" "x \<in> K" and step: "\<And>x. x \<in> K \<Longrightarrow> B x \<or> (\<exists>y\<in>K. (x, y) \<in> R\<^sup>+)"
  shows "\<exists>y\<in>K. (x, y) \<in> R\<^sup>* \<and> B y"
proof -
  have "wf ((R\<inverse>)\<^sup>+)" using assms(1,2) by (intro wf_trancl finite_acyclic_wf_converse)
  then show ?thesis
    using assms(3)
  proof (induction x rule: wf_induct_rule)
    case (less x)
    from step [OF less.prems] show ?case
    proof (elim disjE bexE)
      fix y assume y: "y \<in> K" "(x, y) \<in> R\<^sup>+"
      then have "(y, x) \<in> (R\<inverse>)\<^sup>+" by (simp add: trancl_converse)
      from less.IH [OF this y(1)] obtain z where "z \<in> K" "(y, z) \<in> R\<^sup>*" "B z" by blast
      with y(2) show ?thesis by (meson rtrancl_trans trancl_into_rtrancl)
    qed (use less.prems in blast)
  qed
qed

lemma only_blocked_wait:
  assumes "releaseWaiting ev e = (e', None)" "en_stack e' = []" and st: "en_stack e = []"
    and "acyclic (follow (wf_byDest (en_workflow e)) (OfType Main))"
    and "\<And>nm. nm \<in> fst ` set (en_waiting e) \<Longrightarrow> getNode (en_workflow e) nm \<noteq> None"
    and nm: "nm \<in> fst ` set (en_waiting e')"
  shows "\<exists>m \<in> fst ` set (en_waiting e'). (nm, m) \<in> (follow (wf_byDest (en_workflow e)) (OfType Main))\<^sup>* \<and> lacks_required ev e' m"
proof -
  have r: "release_loop ev (obj_keys (en_waiting e)) 0 e = (e', None)"
  proof (cases "obj_keys (en_waiting e) = []")
    case True
    then have "en_waiting e = []" using length_obj_keys [of "en_waiting e"] by simp
    with assms(1) True nm show ?thesis by (simp add: releaseWaiting_def)
  qed (use assms(1) st in \<open>simp add: releaseWaiting_def\<close>)
  have same: "en_stack e' = en_stack e" using st assms(2) by simp
  note sh = release_loop_shrinks [OF r same]
  let ?K = "fst ` set (en_waiting e')" and ?R = "follow (wf_byDest (en_workflow e')) (OfType Main)"
  have skip: "\<forall>nm\<in>?K. try_release ev (obj_keys (en_waiting e')) e' nm = Inr Skip"
    using release_loop_stuck [OF r same refl] by simp
  have "acyclic ?R" using assms(4) sh by simp
  moreover have "lacks_required ev e' x \<or> (\<exists>y\<in>?K. (x, y) \<in> ?R\<^sup>+)" if x: "x \<in> ?K" for x
  proof (cases "lacks_required ev e' x")
    case False
    have node: "getNode (en_workflow e') x \<noteq> None" using assms(5) [of x] sh x by auto
    from try_release_skip [OF skip [THEN bspec, OF x] node False] show ?thesis by (simp add: Bex_def)
  qed simp
  ultimately have "\<exists>m\<in>?K. (nm, m) \<in> ?R\<^sup>* \<and> lacks_required ev e' m"
    by (rule acyclic_blocked [OF _ finite_follow nm])
  then show ?thesis using sh by simp
qed

end
