(* ===== verification/Engine_Outputs.thy ===== *)
theory Engine_Outputs
  imports Engine_Requests
begin

text \<open>
  What becomes of the items a node returns: the pairing of items with the input, and the split of failed
  items to the error output; and the order in which requested nodes come to the stack.
\<close>

section \<open>Paired items\<close>

text \<open>Every item without a pairing gets one, as a function of its index.\<close>

definition fill :: "(nat \<Rightarrow> paired) \<Rightarrow> items \<Rightarrow> items" where
  "fill f items = map (\<lambda>(k, item). if i_pairedItem item = PairedNone then item\<lparr>i_pairedItem := f k\<rparr> else item) (enumerate0 items)"

definition fill_outputs :: "(nat \<Rightarrow> paired) \<Rightarrow> items option list \<Rightarrow> items option list" where
  "fill_outputs f = map (map_option (fill f))"

lemma enumerate0_Cons: "enumerate0 (x # xs) = (0, x) # map (\<lambda>(k, y). (Suc k, y)) (enumerate0 xs)"
proof -
  have "zip (map Suc [0..<length xs]) xs = map (\<lambda>(k, y). (Suc k, y)) (zip [0..<length xs] xs)"
    by (simp add: zip_map1 case_prod_beta)
  then show ?thesis by (simp add: enumerate0_def upt_conv_Cons map_Suc_upt del: upt_Suc)
qed

lemma fill_Cons:
  "fill f (x # xs) = (if i_pairedItem x = PairedNone then x\<lparr>i_pairedItem := f 0\<rparr> else x) # fill (\<lambda>k. f (Suc k)) xs"
  by (simp add: fill_def enumerate0_Cons case_prod_beta comp_def)

lemma fix_items_all: "fix_items (\<lambda>k. Some (f k)) i items = (fill (\<lambda>k. f (i + k)) items, False)"
proof (induction items arbitrary: i)
  case Nil
  then show ?case by (simp add: fill_def enumerate0_def)
next
  case (Cons x xs)
  from Cons [of "Suc i"] show ?case by (simp add: fill_Cons)
qed

lemma fix_items_none: "fst (fix_items (\<lambda>_. None) i items) = items"
proof (induction items arbitrary: i)
  case (Cons x xs)
  from Cons [of "Suc i"] show ?case by (cases "fix_items (\<lambda>_. None) (Suc i) xs") simp
qed simp

lemma fix_outputs_all: "fix_outputs (\<lambda>k. Some (f k)) outputs = fill_outputs f outputs"
proof (induction outputs)
  case (Cons x xs)
  then show ?case by (cases x) (simp_all add: fill_outputs_def fix_items_all)
qed (simp add: fill_outputs_def)

lemma fix_outputs_none: "fix_outputs (\<lambda>_. None) outputs = outputs"
proof (induction outputs)
  case (Cons x xs)
  show ?case
  proof (cases x)
    case (Some items)
    obtain l b where l: "fix_items (\<lambda>_. None) 0 items = (l, b)" by fastforce
    then have "l = items" using fix_items_none [of 0 items] by simp
    with Cons Some l show ?thesis by simp
  qed (use Cons in simp)
qed simp

lemma assignPairedItems_one_input:
  assumes "assignPairedItems (Some outputs) d = Inr r" "mget (ed_data d) Main = Some [Some input]"
  shows "r = Some (if length input = 1 then fill_outputs (\<lambda>_. paired_at 0) outputs
    else if length outputs = 1 \<and> map_option length (outputs ! 0) = Some (length input) then fill_outputs paired_at outputs
    else if length outputs = 1 \<and> map_option length (outputs ! 0) = Some 1 \<and> length input > 1
      then fill_outputs (\<lambda>_. paired_at 0) outputs
    else outputs)"
proof -
  have main: "has_main (ed_data d)" "main_data (ed_data d) = [Some input]" "input_count [Some input] = Some (length input)"
    using assms(2) by (simp_all add: has_main_def mhas_def main_data_def input_count_def arr_get_def)
  show ?thesis
  proof (cases "outputs = []")
    case True
    with assms(1) show ?thesis by (auto simp: assignPairedItems_def fill_outputs_def)
  next
    case False
    then have "bindE (pairing outputs [Some input]) (\<lambda>f. Inr (Some (fix_outputs f outputs))) = Inr r"
      using assms(1) main by (simp add: assignPairedItems_def)
    then obtain f where f: "pairing outputs [Some input] = Inr f" "r = Some (fix_outputs f outputs)"
      by (auto simp: bindE_eq_Inr)
    show ?thesis
    proof (cases "length outputs = 1")
      case True
      then obtain x where x: "outputs = [x]" by (cases outputs) auto
      with f(1) obtain l where l: "x = Some l" by (cases x) (auto simp: pairing_def)
      from f(1) have "f = (\<lambda>k. if length input = 1 then Some (paired_at 0) else if length input = length l then Some (paired_at k)
          else if length l = 1 \<and> length input > 1 then Some (paired_at 0) else None)"
        by (auto simp: pairing_def x l main(3) fun_eq_iff)
      then show ?thesis using f(2) x l
        by (auto simp: fix_outputs_all fix_outputs_none simp del: fix_outputs.simps)
    next
      case ne: False
      from f(1) ne have "f = (\<lambda>k. if length input = 1 then Some (paired_at 0) else None)"
        by (auto simp: pairing_def main(3) fun_eq_iff)
      then show ?thesis using f(2) ne by (auto simp: fix_outputs_all fix_outputs_none)
    qed
  qed
qed

text \<open>With any number of inputs, and with inputs that have no data; only one \<^verbatim>\<open>null\<close> for all outputs makes it throw.\<close>

definition pair_outputs :: "items option list \<Rightarrow> items option list \<Rightarrow> items option list" where
  "pair_outputs main outputs = (case main of
     [Some input] \<Rightarrow>
       (if length input = 1 then fill_outputs (\<lambda>_. paired_at 0) outputs
        else if length outputs = 1 \<and> map_option length (outputs ! 0) = Some (length input) then fill_outputs paired_at outputs
        else if length outputs = 1 \<and> map_option length (outputs ! 0) = Some 1 \<and> length input > 1
          then fill_outputs (\<lambda>_. paired_at 0) outputs
        else outputs)
   | _ \<Rightarrow> outputs)"

lemma pairing_throws: "(\<exists>err. pairing outputs main = Inl err) \<longleftrightarrow> outputs = [None] \<and> length main = 1"
  by (cases outputs) (auto simp: pairing_def split: option.splits)

lemma assignPairedItems_spec:
  assumes "mget (ed_data d) Main = Some main"
  shows "assignPairedItems (Some outputs) d = (if outputs = [None] \<and> length main = 1 then Inl (TypeError ''length'')
    else Inr (Some (pair_outputs main outputs)))"
proof -
  have main: "has_main (ed_data d)" "main_data (ed_data d) = main" using assms by (simp_all add: has_main_def mhas_def main_data_def)
  show ?thesis
  proof (cases "outputs = [None] \<and> length main = 1 \<or> outputs = []")
    case True
    then show ?thesis using main
      by (auto simp: assignPairedItems_def pairing_def pair_outputs_def fill_outputs_def split: list.splits option.splits)
  next
    case False
    then obtain f where f: "pairing outputs main = Inr f" using pairing_throws [of outputs main] by (cases "pairing outputs main") auto
    with False main have a: "assignPairedItems (Some outputs) d = Inr (Some (fix_outputs f outputs))"
      by (simp add: assignPairedItems_def)
    show ?thesis
    proof (cases "\<exists>input. main = [Some input]")
      case True
      then obtain input where "main = [Some input]" ..
      with assignPairedItems_one_input [OF a] assms False a show ?thesis by (auto simp: pair_outputs_def)
    next
      case ne: False
      then have "length main = 1 \<longrightarrow> input_count main = None"
        by (cases main) (auto simp: input_count_def arr_get_def)
      with f have "f = (\<lambda>_. None)" by (auto simp: pairing_def fun_eq_iff bindE_eq_Inr split: if_splits option.splits)
      moreover have "pair_outputs main outputs = outputs" using ne by (auto simp: pair_outputs_def split: list.splits option.splits)
      ultimately show ?thesis using a False by (auto simp: fix_outputs_none)
    qed
  qed
qed

section \<open>Failed items\<close>

definition items_at :: "items option list \<Rightarrow> nat \<Rightarrow> items" where
  "items_at outputs i = case_option [] id (Option.bind (arr_get outputs i) id)"

text \<open>What the error output holds for a failed item.\<close>

definition failed_as :: "item \<Rightarrow> item \<Rightarrow> bool" where
  "failed_as x item \<longleftrightarrow> x = item \<or> (\<exists>j. x = item\<lparr>i_json := spread j (i_json item)\<rparr>)"

lemma error_item_failed_as: "error_item ev d item = Inr x \<Longrightarrow> failed_as x item"
  by (auto simp: error_item_def failed_as_def split: option.splits)

lemma split_items:
  assumes "foldE (\<lambda>item (good, bad). if item_failed item then bindE (error_item ev d item) (\<lambda>x. Inr (good, bad @ [x]))
      else Inr (good @ [item], bad)) items (good, bad) = Inr (good', bad')"
  shows "good' = good @ filter (\<lambda>x. \<not> item_failed x) items \<and> (\<exists>xs. bad' = bad @ xs \<and> list_all2 failed_as xs (filter item_failed items))"
  using assms
proof (induction items arbitrary: good bad)
  case (Cons x items)
  show ?case
  proof (cases "item_failed x")
    case True
    with Cons.prems obtain y where y: "error_item ev d x = Inr y" by (cases "error_item ev d x") auto
    with Cons.IH [of good "bad @ [y]"] Cons.prems True obtain xs where
      "good' = good @ filter (\<lambda>x. \<not> item_failed x) items" "bad' = bad @ [y] @ xs" "list_all2 failed_as xs (filter item_failed items)" by auto
    with True error_item_failed_as [OF y] show ?thesis by (auto intro!: exI [of _ "y # xs"])
  next
    case False
    with Cons.IH [of "good @ [x]" bad] Cons.prems show ?thesis by simp
  qed
qed simp

lemma split_output_spec:
  assumes "split_output ev d i (nd, bad) = Inr (nd', bad')"
  shows "nd' = arr_put i (Some (filter (\<lambda>x. \<not> item_failed x) (items_at nd i))) nd
    \<and> (\<exists>xs. bad' = bad @ xs \<and> list_all2 failed_as xs (filter item_failed (items_at nd i)))"
proof -
  let ?F = "foldE (\<lambda>item (good, bad). if item_failed item then bindE (error_item ev d item) (\<lambda>x. Inr (good, bad @ [x]))
      else Inr (good @ [item], bad)) (items_at nd i) ([], bad)"
  from assms obtain good where "?F = Inr (good, bad')" "nd' = arr_put i (Some good) nd"
    by (auto simp: split_output_def Let_def items_at_def bindE_eq_Inr)
  with split_items [of ev d "items_at nd i" "[]" bad good bad'] show ?thesis by simp
qed

lemma items_at_put: "items_at (arr_put i x nd) j = (if j = i then case_option [] id x else items_at nd j)"
  by (auto simp: items_at_def arr_get_put) (auto simp: arr_get_def)

lemma split_outputs:
  assumes "foldE (split_output ev d) [0..<n] (nd, []) = Inr (nd', bad)"
  shows "(\<forall>i. items_at nd' i = (if i < n then filter (\<lambda>x. \<not> item_failed x) (items_at nd i) else items_at nd i))
    \<and> list_all2 failed_as bad (concat (map (\<lambda>i. filter item_failed (items_at nd i)) [0..<n]))"
  using assms
proof (induction n arbitrary: nd' bad)
  case (Suc n)
  from Suc.prems obtain nd1 bad1 where 1: "foldE (split_output ev d) [0..<n] (nd, []) = Inr (nd1, bad1)"
    "split_output ev d n (nd1, bad1) = Inr (nd', bad)"
    by (auto simp: foldE_append bindE_eq_Inr)
  note IH = Suc.IH [OF 1(1)]
  from split_output_spec [OF 1(2)] IH obtain xs where
    "nd' = arr_put n (Some (filter (\<lambda>x. \<not> item_failed x) (items_at nd n))) nd1" "bad = bad1 @ xs"
    "list_all2 failed_as xs (filter item_failed (items_at nd n))" by auto
  with IH show ?case by (auto simp: items_at_put less_Suc_eq intro: list_all2_appendI)
qed simp

end
