(* ===== verification/Engine_Samples.thy ===== *)
theory Engine_Samples
  imports Sample_Data Request_Order Engine_Calls Engine_Liveness Engine_Outputs
begin

text \<open>Small workflows, node code and states, the inputs at which the witnesses run the engine.\<close>

section \<open>Workflows\<close>

definition into :: "string \<Rightarrow> nat \<Rightarrow> iconn" where
  "into b j = \<lparr>ic_node = b, ic_type = Main, ic_index = j\<rparr>"

definition engine_workflow :: "inode list \<Rightarrow> iconnections \<Rightarrow> workflow" where
  "engine_workflow nodes cs = new_workflow (\<lambda>_ _. None) (\<lambda>_ _. None) nodes cs None []"

definition new_engine :: "bool \<Rightarrow> workflow \<Rightarrow> engine" where
  "new_engine v1 w = \<lparr>en_workflow = w, en_v1 = v1, en_stack = [], en_waiting = [], en_waitingSource = [],
     en_runData = [], en_pinData = None, en_metadata = [], en_lastNode = None, en_error = None, en_waitTill = False,
     en_runNodeFilter = None, en_destination = None, en_execIndex = 0, en_status = StNew, en_calls = 0, en_log = []\<rparr>"

text \<open>\<open>T -> A -> C\<close> and \<open>T -> B -> C\<close>; the node \<open>C\<close> has two inputs.\<close>

definition diamond :: workflow where
  "diamond = engine_workflow [nodeT, nodeA, nodeB, nodeC]
     [(''T'', [(Main, [Some [into ''A'' 0, into ''B'' 0]])]), (''A'', [(Main, [Some [into ''C'' 0]])]),
      (''B'', [(Main, [Some [into ''C'' 1]])])]"

text \<open>\<open>T -> A -> B\<close>.\<close>

definition line :: workflow where
  "line = engine_workflow [nodeT, nodeA, nodeB]
     [(''T'', [(Main, [Some [into ''A'' 0]])]), (''A'', [(Main, [Some [into ''B'' 0]])])]"

section \<open>Node code\<close>

definition sample_type :: type_info where
  "sample_type = \<lparr>ti_execute = True, ti_poll = False, ti_trigger = False, ti_webhook = False, ti_supplyData = False,
     ti_declarative = False, ti_customOperations = None, ti_inputs = 2, ti_requiredInputs = None\<rparr>"

definition sample_env :: "(nat \<Rightarrow> inode \<Rightarrow> task_data_conns \<Rightarrow> action_response list \<Rightarrow> node_output res) \<Rightarrow> env" where
  "sample_env code = \<lparr>ev_types = (\<lambda>_ _. Some sample_type),
     ev_code = (\<lambda>k n d r. \<lparr>cf_result = code k n d r, cf_wait = False\<rparr>), ev_manual = True,
     ev_outputs = (\<lambda>_. [Main]), ev_pairedJson = (\<lambda>_ _ _. None), ev_tag = (\<lambda>_ _. None), ev_convert = Inr,
     ev_timeout = (\<lambda>_. False)\<rparr>"

text \<open>Code that returns the items of its first input.\<close>

definition pass_code :: "nat \<Rightarrow> inode \<Rightarrow> task_data_conns \<Rightarrow> action_response list \<Rightarrow> node_output res" where
  "pass_code k n d r = Inr (NodeData (map_option (take 1) (mget d Main)) [])"

definition no_issues :: "inode \<Rightarrow> string list \<Rightarrow> json option" where
  "no_issues n pins = None"

definition all_types :: node_types where
  "all_types = (\<lambda>_ _. Some \<lparr>nt_name = ''set'', nt_group = [], nt_trigger = False, nt_poll = False, nt_outputs = None\<rparr>)"

section \<open>Runs\<close>

definition start_loop :: "engine \<Rightarrow> loop" where
  "start_loop e = \<lparr>lp_engine = start_engine e nodeT None None None None, lp_lastTry = None, lp_error = None\<rparr>"

text \<open>What is looked at after a run: the hooks, whether it finished, its error and status, the waiting nodes.\<close>

definition outcome :: "run_result option \<Rightarrow> (hook_event list \<times> bool \<times> string option \<times> exec_status \<times> string list) option" where
  "outcome r = map_option (\<lambda>r. (en_log (rr_engine r), rr_finished r, rr_error r, en_status (rr_engine r),
     map fst (en_waiting (rr_engine r)))) r"

text \<open>One delivery: the items \<open>[k]\<close> of output 0 of a node to an input.\<close>

definition deliver :: "string \<Rightarrow> string \<Rightarrow> nat \<Rightarrow> nat \<Rightarrow> engine \<Rightarrow> engine" where
  "deliver a b i k e = fst (addNodeToBeExecuted (into b i) 0 a (Some [Some [sample_item k]]) 0 None None e)"

section \<open>Edges of a concrete workflow\<close>

lemma follow_code [code]:
  "follow cs ct = set (concat (map (\<lambda>p. case mget cs (fst p) of None \<Rightarrow> [] | Some byType \<Rightarrow>
     concat (map (\<lambda>ty. case mget byType ty of None \<Rightarrow> [] | Some byIndex \<Rightarrow> map (\<lambda>c. (fst p, ic_node c)) (index_conns byIndex))
       (types_of ct byType))) cs))"
  (is "_ = ?R")
proof (rule set_eqI)
  fix x :: "string \<times> string"
  obtain a b where x: "x = (a, b)" by fastforce
  have "(a, b) \<in> follow cs ct \<longleftrightarrow> (\<exists>byType ty byIndex c. mget cs a = Some byType \<and> ty \<in> set (types_of ct byType)
      \<and> mget byType ty = Some byIndex \<and> c \<in> set (index_conns byIndex) \<and> b = ic_node c)"
    by (auto simp: follow_def)
  also have "\<dots> \<longleftrightarrow> (\<exists>p\<in>set cs. (a, b) \<in> set (case mget cs (fst p) of None \<Rightarrow> [] | Some byType \<Rightarrow>
     concat (map (\<lambda>ty. case mget byType ty of None \<Rightarrow> [] | Some byIndex \<Rightarrow> map (\<lambda>c. (fst p, ic_node c)) (index_conns byIndex))
       (types_of ct byType))))" (is "?L \<longleftrightarrow> (\<exists>p\<in>set cs. ?G (fst p))")
  proof -
    have h: "(a, b) \<in> set (case mget byType ty of None \<Rightarrow> [] | Some byIndex \<Rightarrow> map (\<lambda>c. (k, ic_node c)) (index_conns byIndex))
        \<longleftrightarrow> a = k \<and> (\<exists>byIndex c. mget byType ty = Some byIndex \<and> c \<in> set (index_conns byIndex) \<and> b = ic_node c)" for byType ty k
      by (cases "mget byType ty") auto
    have g: "?G k \<longleftrightarrow> a = k \<and> ?L" for k
    proof (cases "mget cs k")
      case (Some byType)
      have "?G k \<longleftrightarrow> (\<exists>ty\<in>set (types_of ct byType). a = k
          \<and> (\<exists>byIndex c. mget byType ty = Some byIndex \<and> c \<in> set (index_conns byIndex) \<and> b = ic_node c))"
        unfolding Some option.case set_concat set_map UN_iff bex_simps image_iff by (simp only: h) blast
      also have "\<dots> \<longleftrightarrow> a = k \<and> ?L" using Some by auto blast+
      finally show ?thesis .
    qed auto
    have "?L \<Longrightarrow> a \<in> fst ` set cs" by (metis map_of_eq_None_iff option.distinct(1))
    then show ?thesis unfolding g by auto
  qed
  also have "\<dots> \<longleftrightarrow> (a, b) \<in> ?R" by simp
  finally show "x \<in> follow cs ct \<longleftrightarrow> x \<in> ?R" unfolding x .
qed

lemma acyclic_measure: "(\<And>x y. (x, y) \<in> R \<Longrightarrow> f x < (f y :: nat)) \<Longrightarrow> acyclic R"
  by (rule acyclic_subset [OF wf_acyclic [OF wf_measure [of f]]]) (auto simp: measure_def inv_image_def)

end
