(* ===== verification/Join_Runs.thy ===== *)
theory Join_Runs
  imports Engine_Join Engine_Requests "HOL-Library.Sublist"
begin

text \<open>
  Sequences of deliveries to one node. As long as every set that is completed leaves nothing waiting, the calls of
  \<^verbatim>\<open>addNodeToBeExecuted\<close> together implement one queue per input.
\<close>

section \<open>Specification\<close>

text \<open>The sets of data a sequence of deliveries \<open>(input, data)\<close> completes, in their order.\<close>

fun join_run :: "nat \<Rightarrow> (nat \<Rightarrow> 'a list) \<Rightarrow> (nat \<times> 'a) list \<Rightarrow> (nat \<Rightarrow> 'a list) \<times> 'a list list" where
  "join_run n q [] = (q, [])"
| "join_run n q ((i, x) # ds) = (case join_step n q i x of (q', out) \<Rightarrow>
     (case join_run n q' ds of (q'', outs) \<Rightarrow> (q'', case_option [] (\<lambda>y. [y]) out @ outs)))"

text \<open>No input runs ahead: what completes a set, but for the last delivery, leaves all queues empty.\<close>

fun in_step :: "nat \<Rightarrow> (nat \<Rightarrow> 'a list) \<Rightarrow> (nat \<times> 'a) list \<Rightarrow> bool" where
  "in_step n q [] = True"
| "in_step n q ((i, x) # ds) = (case join_step n q i x of (q', out) \<Rightarrow>
     (out = None \<or> ds = [] \<or> list_all (\<lambda>j. q' j = []) [0..<n]) \<and> in_step n q' ds)"

section \<open>Deliveries\<close>

text \<open>The arguments of a call of \<^verbatim>\<open>addNodeToBeExecuted\<close>.\<close>

record delivery =
  dl_connection :: iconn
  dl_outputIndex :: nat
  dl_parentNode :: string
  dl_data :: "items option list option"
  dl_runIndex :: nat

definition add_delivery :: "delivery \<Rightarrow> engine \<Rightarrow> engine \<times> js_error option" where
  "add_delivery d e = addNodeToBeExecuted (dl_connection d) (dl_outputIndex d) (dl_parentNode d) (dl_data d) (dl_runIndex d) None None e"

definition delivers_to :: "nat \<Rightarrow> string \<Rightarrow> delivery \<Rightarrow> bool" where
  "delivers_to n nm d \<longleftrightarrow> ic_node (dl_connection d) = nm \<and> ic_index (dl_connection d) < n
     \<and> output_data (dl_data d) (dl_outputIndex d) \<noteq> None"

definition delivered :: "delivery \<Rightarrow> nat \<times> items" where
  "delivered d = (ic_index (dl_connection d), the (output_data (dl_data d) (dl_outputIndex d)))"

text \<open>What an entry of the stack is looked at for: its node and its main inputs.\<close>

definition entry_view :: "exec_data \<Rightarrow> inode \<times> items option list" where
  "entry_view d = (ed_node d, main_of (ed_data d))"

section \<open>Rows without data\<close>

definition filled :: "nat \<Rightarrow> 'a option list list \<Rightarrow> bool" where
  "filled n rs \<longleftrightarrow> (\<forall>r\<in>set rs. \<exists>j<n. cell r j \<noteq> None)"

lemma filled_put_first: "filled n rs \<Longrightarrow> i < n \<Longrightarrow> filled n (put_first n i x rs)"
  by (induction n i x rs rule: put_first.induct) (auto simp: filled_def cell_arr_put split: if_splits)

lemma filled_take_full: "filled n rs \<Longrightarrow> filled n (fst (take_full n rs))"
  by (cases rs) (auto simp: filled_def take_full_def)

lemma filled_queues: "filled n rs \<Longrightarrow> list_all (\<lambda>j. queues rs j = []) [0..<n] \<Longrightarrow> rs = []"
proof (rule ccontr)
  assume f: "filled n rs" "list_all (\<lambda>j. queues rs j = []) [0..<n]" and "rs \<noteq> []"
  then obtain r where r: "r \<in> set rs" by (meson list.set_sel(1))
  with f(1) obtain j where "j < n" "cell r j \<noteq> None" unfolding filled_def by blast
  with f(2) r show False by (auto simp: list_all_iff queues_eq_Nil)
qed

section \<open>The refinement\<close>

text \<open>What the completed sets \<open>outs\<close> do to the stack: in the order \<open>v1\<close> one entry each goes to the front, in the legacy order
  to the end, where entries for other nodes may stand between them.\<close>

definition completes :: "inode \<Rightarrow> items list list \<Rightarrow> engine \<Rightarrow> engine \<Rightarrow> bool" where
  "completes node outs e e' \<longleftrightarrow> (\<exists>added. en_stack e' = (if en_v1 e then rev added @ en_stack e else en_stack e @ added)
     \<and> (if en_v1 e then map entry_view added = map (\<lambda>data. (node, map Some data)) outs
        else subseq (map (\<lambda>data. (node, map Some data)) outs) (map entry_view added)))"

lemma completes_Nil: "en_stack e' = en_stack e @ added \<Longrightarrow> (en_v1 e \<longrightarrow> added = []) \<Longrightarrow> completes node [] e e'"
  unfolding completes_def by (intro exI [of _ added]) auto

lemma completes_one: "en_stack e' = en_stack (enqueue d e) \<Longrightarrow> entry_view d = (node, map Some data) \<Longrightarrow> completes node [data] e e'"
  unfolding completes_def by (intro exI [of _ "[d]"]) (simp add: enqueue_def)

lemma completes_append:
  assumes "completes node outs e e1" "completes node outs' e1 e2" "en_v1 e1 = en_v1 e"
  shows "completes node (outs @ outs') e e2"
proof -
  from assms(1) obtain a where a: "en_stack e1 = (if en_v1 e then rev a @ en_stack e else en_stack e @ a)"
    "if en_v1 e then map entry_view a = map (\<lambda>data. (node, map Some data)) outs
     else subseq (map (\<lambda>data. (node, map Some data)) outs) (map entry_view a)" unfolding completes_def by blast
  from assms(2,3) obtain b where b: "en_stack e2 = (if en_v1 e then rev b @ en_stack e1 else en_stack e1 @ b)"
    "if en_v1 e then map entry_view b = map (\<lambda>data. (node, map Some data)) outs'
     else subseq (map (\<lambda>data. (node, map Some data)) outs') (map entry_view b)" unfolding completes_def by auto
  show ?thesis unfolding completes_def
  proof (intro exI [of _ "a @ b"] conjI)
    show "en_stack e2 = (if en_v1 e then rev (a @ b) @ en_stack e else en_stack e @ a @ b)" using a(1) b(1) by simp
  qed (use a(2) b(2) in \<open>auto intro: list_emb_append_mono\<close>)
qed

lemma delivery_step:
  assumes ok: "waiting_ok e nm" and f: "filled (numberOfInputs e nm) (rows e nm)" and n: "1 < numberOfInputs e nm"
    and node: "getNode (en_workflow e) nm = Some node" and d: "delivers_to (numberOfInputs e nm) nm d"
    and add: "add_delivery d e = (e1, None)"
    and step: "join_step (numberOfInputs e nm) (queues (rows e nm)) (fst (delivered d)) (snd (delivered d)) = (q, out)"
  shows "queues (rows e1 nm) = q \<and> completes node (case_option [] (\<lambda>y. [y]) out) e e1
    \<and> filled (numberOfInputs e nm) (rows e1 nm) \<and> (\<forall>nm'. nm' \<noteq> nm \<longrightarrow> entries_of e1 nm' = entries_of e nm')
    \<and> en_workflow e1 = en_workflow e \<and> en_v1 e1 = en_v1 e
    \<and> (out = None \<or> list_all (\<lambda>j. q j = []) [0..<numberOfInputs e nm] \<longrightarrow> waiting_ok e1 nm)"
proof -
  obtain x where x: "output_data (dl_data d) (dl_outputIndex d) = Some x" "delivered d = (ic_index (dl_connection d), x)"
    using d by (auto simp: delivers_to_def delivered_def)
  have c: "ic_node (dl_connection d) = nm" "ic_index (dl_connection d) < numberOfInputs e nm" using d by (simp_all add: delivers_to_def)
  note J = addNodeToBeExecuted_join [OF ok c n x(1) node add [unfolded add_delivery_def]]
  have s: "join_step (numberOfInputs e nm) (queues (rows e nm)) (ic_index (dl_connection d)) x = (q, out)" using step x(2) by simp
  have q: "queues (rows e1 nm) = q" using J(1) s by simp
  have f1: "filled (numberOfInputs e nm) (rows e1 nm)"
    unfolding J(5) by (intro filled_take_full filled_put_first f c(2))
  have "completes node (case_option [] (\<lambda>y. [y]) out) e e1 \<and> (out = None \<longrightarrow> waiting_ok e1 nm)"
  proof (cases out)
    case None
    with J(2) s show ?thesis by (auto intro: completes_Nil)
  next
    case (Some data)
    with J(2) s show ?thesis by (auto intro!: completes_one simp: entry_view_def)
  qed
  moreover have "waiting_ok e1 nm" if "list_all (\<lambda>j. q j = []) [0..<numberOfInputs e nm]"
    using filled_queues [OF f1] that q by (intro J(4)) simp
  ultimately show ?thesis using q f1 J(3,6,7) by blast
qed

lemma deliveries_join:
  assumes "waiting_ok e nm" "filled n (rows e nm)" "numberOfInputs e nm = n" "1 < n" "getNode (en_workflow e) nm = Some node"
    and "list_all (delivers_to n nm) ds" "in_step n (queues (rows e nm)) (map delivered ds)" "foldO add_delivery ds e = (e', None)"
  shows "queues (rows e' nm) = fst (join_run n (queues (rows e nm)) (map delivered ds))
    \<and> completes node (snd (join_run n (queues (rows e nm)) (map delivered ds))) e e'
    \<and> (\<forall>nm'. nm' \<noteq> nm \<longrightarrow> entries_of e' nm' = entries_of e nm')"
  using assms
proof (induction ds arbitrary: e)
  case Nil
  then show ?case by (auto intro: completes_Nil)
next
  case (Cons d ds)
  obtain e1 where e1: "add_delivery d e = (e1, None)" "foldO add_delivery ds e1 = (e', None)"
    using Cons.prems(8) by (auto split: prod.splits option.splits)
  obtain i x where ix: "delivered d = (i, x)" by fastforce
  obtain q out where q: "join_step n (queues (rows e nm)) i x = (q, out)" by fastforce
  have S: "queues (rows e1 nm) = q" "completes node (case_option [] (\<lambda>y. [y]) out) e e1" "filled n (rows e1 nm)"
      "\<forall>nm'. nm' \<noteq> nm \<longrightarrow> entries_of e1 nm' = entries_of e nm'" "en_workflow e1 = en_workflow e" "en_v1 e1 = en_v1 e"
      "out = None \<or> list_all (\<lambda>j. q j = []) [0..<n] \<longrightarrow> waiting_ok e1 nm"
    using delivery_step [OF Cons.prems(1) _ _ Cons.prems(5) _ e1(1), of q out] Cons.prems(2-4,6) ix q by simp_all
  show ?case
  proof (cases "ds = []")
    case True
    with S e1(2) ix q show ?thesis by simp
  next
    case False
    then have ok: "waiting_ok e1 nm" and st: "in_step n q (map delivered ds)"
      using Cons.prems(7) S(7) ix q by auto
    have n: "numberOfInputs e1 nm = n" using Cons.prems(3) numberOfInputs_cong [OF S(5)] by simp
    have "getNode (en_workflow e1) nm = Some node" "list_all (delivers_to n nm) ds" using Cons.prems(5,6) S(5) by simp_all
    from Cons.IH [OF ok S(3) n Cons.prems(4) this _ e1(2)] st S(1)
    have "queues (rows e' nm) = fst (join_run n q (map delivered ds))"
      "completes node (snd (join_run n q (map delivered ds))) e1 e'" "\<forall>nm'. nm' \<noteq> nm \<longrightarrow> entries_of e' nm' = entries_of e1 nm'" by simp_all
    moreover have "completes node (case_option [] (\<lambda>y. [y]) out @ snd (join_run n q (map delivered ds))) e e'"
      by (rule completes_append [OF S(2) _ S(6)]) (use calculation in simp)
    ultimately show ?thesis using S(4) ix q by (simp add: split_def)
  qed
qed

text \<open>The same from a state in which nothing waits for the node.\<close>

lemma deliveries_join_new:
  assumes "entries_of e nm = []" "numberOfInputs e nm = n" "1 < n" "getNode (en_workflow e) nm = Some node"
    and "list_all (delivers_to n nm) ds" "in_step n (\<lambda>_. []) (map delivered ds)" "foldO add_delivery ds e = (e', None)"
  shows "queues (rows e' nm) = fst (join_run n (\<lambda>_. []) (map delivered ds))
    \<and> completes node (snd (join_run n (\<lambda>_. []) (map delivered ds))) e e'
    \<and> (\<forall>nm'. nm' \<noteq> nm \<longrightarrow> entries_of e' nm' = entries_of e nm')"
proof -
  have r: "rows e nm = []" using assms(1) by (simp add: rows_def int_keys_def)
  then have "waiting_ok e nm" using assms(1) by (simp add: waiting_ok_def int_keys_def staircase_def)
  moreover have q: "queues (rows e nm) = (\<lambda>_. [])" by (simp add: r fun_eq_iff)
  ultimately show ?thesis using deliveries_join [of e nm n node ds e'] assms by (simp add: r filled_def)
qed

end
