(* ===== verification/Engine_Properties.thy ===== *)
theory Engine_Properties
  imports Engine_Samples Join_Runs
begin

text \<open>What the execution engine promises, and where it does not keep it.\<close>

section \<open>Nodes with several inputs\<close>

text \<open>
  C5: for a node for which nothing waits, the calls of \<^verbatim>\<open>addNodeToBeExecuted\<close> that deliver data to its inputs implement one
  queue per input as long as no input runs ahead of the others, that is as long as every set that is completed, but for
  the last, leaves nothing waiting (\<open>in_step\<close>): at the end the waiting entries hold the queues, and each completed set has gone to
  the stack as one entry with the heads of all queues, in their order. In the order \<^verbatim>\<open>v1\<close> these entries are all that was put on the
  stack, at its front; in the legacy order entries for other nodes may stand between them. The waiting entries of other nodes do
  not change. Where an input runs ahead data can be lost, see \<open>addNodeToBeExecuted_loses_data\<close>.
\<close>

theorem addNodeToBeExecuted_refines:
  assumes "entries_of e nm = []" "numberOfInputs e nm = n" "1 < n" "getNode (en_workflow e) nm = Some node"
    and "list_all (delivers_to n nm) ds" "in_step n (\<lambda>_. []) (map delivered ds)" "foldO add_delivery ds e = (e', None)"
  shows "case join_run n (\<lambda>_. []) (map delivered ds) of (qs, outs) \<Rightarrow>
    queues (rows e' nm) = qs \<and> completes node outs e e' \<and> (\<forall>nm'. nm' \<noteq> nm \<longrightarrow> entries_of e' nm' = entries_of e nm')"
  using deliveries_join_new [OF assms] by (simp add: split_def)

definition diamond_engine :: engine where
  "diamond_engine = new_engine True diamond"

text \<open>Two sets for the node \<open>C\<close>, the second one in the other order, and the beginning of a third.\<close>

definition delivery_to :: "string \<Rightarrow> nat \<Rightarrow> nat \<Rightarrow> delivery" where
  "delivery_to a i k = \<lparr>dl_connection = into ''C'' i, dl_outputIndex = 0, dl_parentNode = a,
     dl_data = Some [Some [sample_item k]], dl_runIndex = 0\<rparr>"

definition five_deliveries :: "delivery list" where
  "five_deliveries = [delivery_to ''A'' 0 1, delivery_to ''B'' 1 2, delivery_to ''B'' 1 3, delivery_to ''A'' 0 4, delivery_to ''A'' 0 5]"

theorem addNodeToBeExecuted_refines_witness:
  "map entry_view (en_stack (fst (foldO add_delivery five_deliveries diamond_engine)))
     = [(nodeC, [Some [sample_item 4], Some [sample_item 3]]), (nodeC, [Some [sample_item 1], Some [sample_item 2]])]
   \<and> queues (rows (fst (foldO add_delivery five_deliveries diamond_engine)) ''C'') 0 = [[sample_item 5]]"
proof -
  let ?e = "fst (foldO add_delivery five_deliveries diamond_engine)" and ?r = "join_run 2 (\<lambda>_. []) (map delivered five_deliveries)"
  have e: "entries_of diamond_engine ''C'' = []" "numberOfInputs diamond_engine ''C'' = 2" "1 < (2::nat)"
    "getNode (en_workflow diamond_engine) ''C'' = Some nodeC" "list_all (delivers_to 2 ''C'') five_deliveries"
    "in_step 2 (\<lambda>_. []) (map delivered five_deliveries)" by code_simp+
  have "snd (foldO add_delivery five_deliveries diamond_engine) = None" by code_simp
  then have "foldO add_delivery five_deliveries diamond_engine = (?e, None)" by (metis prod.collapse)
  from addNodeToBeExecuted_refines [OF e this]
  have r: "queues (rows ?e ''C'') = fst ?r" "completes nodeC (snd ?r) diamond_engine ?e" by (simp_all add: split_def)
  have q: "fst ?r 0 = [[sample_item 5]]" "snd ?r = [[[sample_item 1], [sample_item 2]], [[sample_item 4], [sample_item 3]]]" by code_simp+
  have v: "en_v1 diamond_engine" "en_stack diamond_engine = []" by code_simp+
  show ?thesis using r q v by (auto simp: completes_def rev_map [symmetric])
qed

text \<open>
  when data for one input runs ahead, the waiting entries get a gap, and the index of a new entry, their number, is
  taken: of the deliveries 1 and 2 to input 0, 3 to input 1 and 4 to input 0, the first and the third are
  run together, and the fourth overwrites the second, which is lost.
\<close>

definition lost_delivery :: engine where
  "lost_delivery = deliver ''A'' ''C'' 0 4 (deliver ''B'' ''C'' 1 3 (deliver ''A'' ''C'' 0 2 (deliver ''A'' ''C'' 0 1 diamond_engine)))"

theorem addNodeToBeExecuted_loses_data:
  "map (\<lambda>d. main_of (ed_data d)) (en_stack lost_delivery) = [[Some [sample_item 1], Some [sample_item 3]]]
   \<and> en_waiting lost_delivery = [(''C'', [(1, [(Main, [Some [sample_item 4], None])])])]"
  by code_simp

text \<open>
  C31: the release of waiting nodes leaves nothing waiting but what cannot run: on connections without a cycle, when all
  waiting nodes exist and the stack is empty, it puts a node on the stack, or every node that still waits lacks inputs its
  type requires or comes after a waiting node that does (types require inputs in the order \<^verbatim>\<open>v1\<close> only).
\<close>

theorem releaseWaiting_live:
  assumes "releaseWaiting ev e = (e', None)" "en_stack e = []"
    and "acyclic (follow (wf_byDest (en_workflow e)) (OfType Main))"
    and "\<And>nm. nm \<in> fst ` set (en_waiting e) \<Longrightarrow> getNode (en_workflow e) nm \<noteq> None"
  shows "en_stack e' \<noteq> [] \<or>
    (\<forall>nm \<in> fst ` set (en_waiting e'). \<exists>m \<in> fst ` set (en_waiting e').
       (nm, m) \<in> (follow (wf_byDest (en_workflow e)) (OfType Main))\<^sup>* \<and> lacks_required ev e' m)"
proof (cases "en_stack e' = []")
  case True
  from only_blocked_wait [OF assms(1) True assms(2-4)] show ?thesis by blast
qed simp

definition one_input :: engine where
  "one_input = deliver ''A'' ''C'' 0 1 diamond_engine"

definition rank :: "string \<Rightarrow> nat" where
  "rank nm = (if nm = ''T'' then 2 else if nm = ''C'' then 0 else 1)"

lemma acyclic_diamond: "acyclic (follow (wf_byDest (en_workflow one_input)) (OfType Main))"
proof (rule acyclic_measure [of _ rank])
  have "\<forall>p\<in>follow (wf_byDest (en_workflow one_input)) (OfType Main). rank (fst p) < rank (snd p)" by code_simp
  then show "rank x < rank y" if "(x, y) \<in> follow (wf_byDest (en_workflow one_input)) (OfType Main)" for x y using that by auto
qed

text \<open>A join of which the second input is required, and has no data.\<close>

definition required_env :: env where
  "required_env = (sample_env pass_code)\<lparr>ev_types := \<lambda>ty v. map_option (\<lambda>t. t\<lparr>ti_requiredInputs := Some (RequiredSet [1])\<rparr>)
     (ev_types (sample_env pass_code) ty v)\<rparr>"

theorem releaseWaiting_live_witness:
  "fst ` set (en_waiting (fst (releaseWaiting required_env one_input))) = {''C''}
    \<and> lacks_required required_env (fst (releaseWaiting required_env one_input)) ''C''"
proof -
  let ?r = "releaseWaiting required_env one_input"
  have r: "?r = (fst ?r, None)"
  proof -
    have "snd ?r = None" by code_simp
    then show ?thesis by (metis prod.collapse)
  qed
  have st: "en_stack one_input = []" "en_stack (fst ?r) = []" by code_simp+
  have w: "fst ` set (en_waiting (fst ?r)) = {''C''}" by code_simp
  have "fst ` set (en_waiting one_input) = {''C''}" "getNode (en_workflow one_input) ''C'' = Some nodeC" by code_simp+
  then have nodes: "getNode (en_workflow one_input) nm \<noteq> None" if "nm \<in> fst ` set (en_waiting one_input)" for nm
    using that by simp
  from releaseWaiting_live [OF r st(1) acyclic_diamond nodes] st(2) w show ?thesis by auto
qed

text \<open>
  waiting nodes are only released after a node that has output. When the last node of the stack returns
  no data, the loop goes on without a look at the waiting nodes and ends: here \<open>A\<close> returns
  \<^verbatim>\<open>null\<close> after \<open>B\<close> has delivered to \<open>C\<close>, which is never run, and the execution counts as finished. Had
  \<open>A\<close> returned its data first, \<open>C\<close> would have been run with the data of \<open>B\<close>.
\<close>

definition null_code :: "nat \<Rightarrow> inode \<Rightarrow> task_data_conns \<Rightarrow> action_response list \<Rightarrow> node_output res" where
  "null_code k n d r = (if n_name n = ''A'' then Inr (NodeData None []) else pass_code k n d r)"

theorem null_output_strands_waiting:
  "outcome (run_loop (sample_env null_code) 20 (start_loop diamond_engine)) =
     Some ([NodeExecuteBefore ''T'', NodeExecuteAfter ''T'', NodeExecuteBefore ''B'', NodeExecuteAfter ''B'', NodeExecuteBefore ''A''],
       True, None, StSuccess, [''C''])"
  by code_simp

section \<open>Whole executions\<close>

text \<open>
  C2: an execution with a destination runs no node but the ancestors of the destination over main and over
  other connections, the destination itself if it is included, and the nodes the caller adds.
\<close>

theorem run_only_ancestors:
  assumes "run types issues ev fuel e startNode (Some (d, inclusive)) pins trig extra = Inr (Some r)"
    and "en_log e = []" "h \<in> set (en_log (rr_engine r))"
  shows "hook_node h \<in> set (getParentNodes (wf_byDest (en_workflow e)) d (OfType Main) (- 1))
    \<union> set (getParentNodes (wf_byDest (en_workflow e)) d AllNonMain (- 1))
    \<union> (if inclusive then {d} else {}) \<union> set (case_option [] id extra)"
proof -
  let ?f = "mk_set (getParentNodes (wf_byDest (en_workflow e)) d (OfType Main) (- 1)
    @ getParentNodes (wf_byDest (en_workflow e)) d AllNonMain (- 1) @ (if inclusive then [d] else []) @ case_option [] id extra)"
  from run_loop_of_run [OF assms(1)] obtain n where
    r: "run_loop ev fuel \<lparr>lp_engine = start_engine (e\<lparr>en_status := StRunning\<rparr>) n (Some (d, inclusive)) pins trig extra,
      lp_lastTry = None, lp_error = None\<rparr> = Some r" by auto
  have "filtered_log ?f (start_engine (e\<lparr>en_status := StRunning\<rparr>) n (Some (d, inclusive)) pins trig extra)"
    using assms(2) by (simp add: filtered_log_def start_engine_def Let_def)
  with only_filter.run_I [OF r, of ?f] obtain lp where "filtered_log ?f (lp_engine lp)"
    "r = end_loop lp \<or> (\<exists>err. r = processFailure err (lp_engine lp))" by auto
  with assms(3) have "hook_node h \<in> set ?f" by (auto simp: filtered_log_def)
  then show ?thesis by (auto split: if_splits)
qed

theorem run_only_ancestors_witness:
  "(case run all_types no_issues (sample_env pass_code) 20 diamond_engine (Some nodeT) (Some (''A'', True)) None None None of
     Inr (Some r) \<Rightarrow> hook_node (hd (en_log (rr_engine r))) \<in> {''T'', ''A''} | _ \<Rightarrow> False)"
proof -
  let ?r = "run all_types no_issues (sample_env pass_code) 20 diamond_engine (Some nodeT) (Some (''A'', True)) None None None"
  have "case ?r of Inr (Some r) \<Rightarrow> en_log (rr_engine r) \<noteq> [] | _ \<Rightarrow> False" by code_simp
  then obtain r where r: "?r = Inr (Some r)" "en_log (rr_engine r) \<noteq> []" by (auto split: sum.splits option.splits)
  have p: "set (getParentNodes (wf_byDest (en_workflow diamond_engine)) ''A'' (OfType Main) (- 1)) = {''T''}"
    "set (getParentNodes (wf_byDest (en_workflow diamond_engine)) ''A'' AllNonMain (- 1)) = {}" by code_simp+
  have "en_log diamond_engine = []" by code_simp
  from run_only_ancestors [OF r(1) this hd_in_set [OF r(2)]] p r(1) show ?thesis by auto
qed

text \<open>
  execution indices are below the number of iterations: in the result of an execution every run of every
  node has an execution index, smaller than the next one to be given.
\<close>

theorem run_execution_indices:
  assumes "run types issues ev fuel e startNode dest pins trig extra = Inr (Some r)"
    and "mget (en_runData (rr_engine r)) nm = Some runs" "td \<in> set runs"
  shows "\<exists>j. td_executionIndex td = Some j \<and> j < en_execIndex (rr_engine r)"
proof -
  from run_loop_of_run [OF assms(1)] obtain n where
    r: "run_loop ev fuel \<lparr>lp_engine = start_engine (e\<lparr>en_status := StRunning\<rparr>) n dest pins trig extra,
      lp_lastTry = None, lp_error = None\<rparr> = Some r" by auto
  have "indices_ok (start_engine (e\<lparr>en_status := StRunning\<rparr>) n dest pins trig extra)"
    by (simp add: indices_ok_def start_engine_def Let_def indices_below_def)
  with all_indices.run_I [OF r] obtain lp where lp: "indices_ok (lp_engine lp)"
    "r = end_loop lp \<or> (\<exists>err. r = processFailure err (lp_engine lp))" by auto
  then have "indices_below (en_execIndex (rr_engine r)) (en_runData (rr_engine r))"
    by (auto simp: indices_ok_def intro: end_loop_indices processFailure_indices)
  from indices_below_get [OF this, of nm] assms(2,3) show ?thesis by (auto simp: runs_below_def)
qed

theorem run_execution_indices_witness:
  "(case run all_types no_issues (sample_env pass_code) 20 diamond_engine (Some nodeT) None None None None of
     Inr (Some r) \<Rightarrow> (case mget (en_runData (rr_engine r)) ''C'' of
       Some (td # _) \<Rightarrow> the (td_executionIndex td) < en_execIndex (rr_engine r) | _ \<Rightarrow> False) | _ \<Rightarrow> False)"
proof -
  let ?r = "run all_types no_issues (sample_env pass_code) 20 diamond_engine (Some nodeT) None None None None"
  have "case ?r of Inr (Some r) \<Rightarrow> (case mget (en_runData (rr_engine r)) ''C'' of Some (td # _) \<Rightarrow> True | _ \<Rightarrow> False) | _ \<Rightarrow> False"
    by code_simp
  then obtain r td tds where r: "?r = Inr (Some r)" "mget (en_runData (rr_engine r)) ''C'' = Some (td # tds)"
    by (auto split: sum.splits option.splits list.splits)
  from run_execution_indices [OF r, of td] r show ?thesis by auto
qed

text \<open>
  C1: executions end: in the order \<^verbatim>\<open>v1\<close>, on a workflow whose main connections have no cycle and whose nodes
  are registered under their names, with node code that asks for no other nodes, there is a number of
  iterations after which every execution has ended, whatever the node code returns or throws and
  whatever it is started with.
\<close>

theorem run_terminates:
  assumes "en_v1 e" "names_ok e" "acyclic (follow (wf_bySource (en_workflow e)) (OfType Main))" "\<not> asks ev"
    and "case_option True has_main trig"
  shows "\<exists>fuel. run types issues ev fuel e startNode dest pins trig extra \<noteq> Inr None"
proof -
  from run_cases [of types issues ev e startNode dest pins trig extra] show ?thesis
  proof
    assume "\<exists>n. \<forall>fuel. run types issues ev fuel e startNode dest pins trig extra = Inr (run_loop ev fuel
        \<lparr>lp_engine = start_engine (e\<lparr>en_status := StRunning\<rparr>) n dest pins trig extra, lp_lastTry = None, lp_error = None\<rparr>)"
    then obtain n where r: "run types issues ev fuel e startNode dest pins trig extra = Inr (run_loop ev fuel
        \<lparr>lp_engine = start_engine (e\<lparr>en_status := StRunning\<rparr>) n dest pins trig extra, lp_lastTry = None, lp_error = None\<rparr>)" for fuel
      by blast
    let ?e = "start_engine (e\<lparr>en_status := StRunning\<rparr>) n dest pins trig extra"
    obtain w where "weighted w e" using weights_exist [OF assms(3)] by blast
    moreover have "has_main [(Main, [Some [json_item []]])]" by (simp add: has_main_def mhas_def)
    ultimately have "measured w ?e"
      using assms(1,2,5) by (auto simp: measured_def start_engine_def Let_def names_ok_def weighted_def
          output_connections_def stack_main_def split: option.splits)
    from run_loop_ends [OF _ assms(4), of w "\<lparr>lp_engine = ?e, lp_lastTry = None, lp_error = None\<rparr>" "weight w ?e"] this
    obtain res where "run_loop ev (weight w ?e) \<lparr>lp_engine = ?e, lp_lastTry = None, lp_error = None\<rparr> = Some res" by auto
    with r have "run types issues ev (weight w ?e) e startNode dest pins trig extra \<noteq> Inr None" by simp
    then show ?thesis ..
  qed auto
qed

lemma acyclic_source_diamond: "acyclic (follow (wf_bySource (en_workflow diamond_engine)) (OfType Main))"
proof (rule acyclic_measure [of _ "\<lambda>nm. 2 - rank nm"])
  have "\<forall>p\<in>follow (wf_bySource (en_workflow diamond_engine)) (OfType Main). 2 - rank (fst p) < 2 - rank (snd p)" by code_simp
  then show "2 - rank x < 2 - rank y" if "(x, y) \<in> follow (wf_bySource (en_workflow diamond_engine)) (OfType Main)" for x y
    using that by auto
qed

theorem run_terminates_witness:
  "\<exists>fuel. run all_types no_issues (sample_env pass_code) fuel diamond_engine (Some nodeT) None None None None \<noteq> Inr None"
proof (rule run_terminates)
  show "en_v1 diamond_engine" by code_simp
  have "list_all (\<lambda>p. n_name (snd p) = fst p) (wf_nodes (en_workflow diamond_engine))" by code_simp
  then show "names_ok diamond_engine" by (simp add: names_ok_def list_all_iff)
  show "acyclic (follow (wf_bySource (en_workflow diamond_engine)) (OfType Main))" by (rule acyclic_source_diamond)
  show "\<not> asks (sample_env pass_code)" by (simp add: asks_def sample_env_def pass_code_def)
qed simp

text \<open>
  C32: one iteration calls the code of a node at most \<open>2 * maxTries - 1\<close> times, so at most nine times.
\<close>

theorem node_calls_bounded:
  assumes "en_stack (lp_engine lp) = d # rest"
  shows "en_calls (lp_engine (step_loop (exec_step ev lp))) \<le> en_calls (lp_engine lp) + (2 * max_tries (ed_node d) - 1)
    \<and> 2 * max_tries (ed_node d) - 1 \<le> 9"
  using exec_step_calls [OF assms, of ev] max_tries_bounds [of "ed_node d"] by auto

definition retry_node :: inode where
  "retry_node = nodeA\<lparr>n_retryOnFail := Some True, n_maxTries := Some 2\<rparr>"

definition retry_engine :: engine where
  "retry_engine = new_engine True (engine_workflow [nodeT, retry_node, nodeB]
     [(''T'', [(Main, [Some [into ''A'' 0]])]), (''A'', [(Main, [Some [into ''B'' 0]])])])"

definition retry_entry :: exec_data where
  "retry_entry = \<lparr>ed_node = retry_node, ed_data = [(Main, [Some [sample_item 1]])], ed_source = None,
     ed_runIndex = None, ed_metadata = None\<rparr>"

definition retry_loop :: loop where
  "retry_loop = \<lparr>lp_engine = retry_engine\<lparr>en_stack := [retry_entry]\<rparr>, lp_lastTry = None, lp_error = None\<rparr>"

text \<open>Code that first returns an error item, and then throws.\<close>

definition retry_code :: "nat \<Rightarrow> inode \<Rightarrow> task_data_conns \<Rightarrow> action_response list \<Rightarrow> node_output res" where
  "retry_code k n d r = (if k = 0 then Inr (NodeData (Some [Some [json_item [(''error'', JStr ''x'')]]]) []) else Inl (NodeError ''y''))"

theorem node_calls_bounded_witness:
  "en_calls (lp_engine (step_loop (exec_step (sample_env retry_code) retry_loop))) \<le> 3"
proof -
  have s: "en_stack (lp_engine retry_loop) = retry_entry # []" by (simp add: retry_loop_def)
  have "en_calls (lp_engine retry_loop) = 0" "max_tries (ed_node retry_entry) = 2" by code_simp+
  with node_calls_bounded [OF s, of "sample_env retry_code"] show ?thesis by simp
qed

text \<open>
  the bound is reached, so \<^verbatim>\<open>maxTries\<close> does not bound the tries: a node with two tries that first
  returns an error item and then throws is called three times, because a call of the inner loop that
  throws has not advanced the index of the outer loop.
\<close>

theorem retries_exceed_maxTries:
  "max_tries retry_node = 2 \<and> en_calls (lp_engine retry_loop) = 0
   \<and> en_calls (lp_engine (step_loop (exec_step (sample_env retry_code) retry_loop))) = 3"
  by code_simp

section \<open>Items\<close>

text \<open>
  C29: \<^verbatim>\<open>handleNodeErrorOutput\<close> loses no item and makes none up: every main output but the last keeps exactly
  its items that are not errors, in order, and the last one, whatever it held, gets the failed items of the
  others in order, each as it was or with the \<^verbatim>\<open>json\<close> of its paired item put under its own.
\<close>

theorem handleNodeErrorOutput_partition:
  assumes "handleNodeErrorOutput ev d nd = Inr nd'" "ev_outputs ev (ed_node d) = replicate (Suc n) Main"
  shows "(\<forall>i<n. items_at nd' i = filter (\<lambda>x. \<not> item_failed x) (items_at nd i))
    \<and> list_all2 failed_as (items_at nd' n) (concat (map (\<lambda>i. filter item_failed (items_at nd i)) [0..<n]))"
proof -
  have m: "length (filter (\<lambda>t. t = Main) (ev_outputs ev (ed_node d))) = Suc n" unfolding assms(2) by simp
  from assms(1) obtain nd1 bad where "foldE (split_output ev d) [0..<n] (nd, []) = Inr (nd1, bad)"
    "nd' = arr_put n (Some bad) nd1"
    unfolding handleNodeErrorOutput_def m by (auto simp: Let_def bindE_eq_Inr split: if_splits)
  with split_outputs [of ev d n nd nd1 bad] show ?thesis by (simp add: items_at_put)
qed

definition error_env :: env where
  "error_env = (sample_env pass_code)\<lparr>ev_outputs := \<lambda>_. [Main, Main]\<rparr>"

definition mixed_output :: "items option list" where
  "mixed_output = [Some [sample_item 1, json_item [(''error'', JStr ''x'')]]]"

theorem handleNodeErrorOutput_partition_witness:
  "case handleNodeErrorOutput error_env retry_entry mixed_output of
     Inr nd' \<Rightarrow> items_at nd' 0 = [sample_item 1] \<and> length (items_at nd' 1) = 1 | Inl err \<Rightarrow> False"
proof -
  have "case handleNodeErrorOutput error_env retry_entry mixed_output of Inr nd' \<Rightarrow> True | Inl err \<Rightarrow> False" by code_simp
  then obtain nd' where h: "handleNodeErrorOutput error_env retry_entry mixed_output = Inr nd'" by (auto split: sum.splits)
  have o: "ev_outputs error_env (ed_node retry_entry) = replicate (Suc 1) Main" by code_simp
  have f: "filter (\<lambda>x. \<not> item_failed x) (items_at mixed_output 0) = [sample_item 1]"
    "length (filter item_failed (items_at mixed_output 0)) = 1" by code_simp+
  from handleNodeErrorOutput_partition [OF h o] f h show ?thesis by (auto dest: list_all2_lengthD)
qed

text \<open>
  C33: \<^verbatim>\<open>assignPairedItems\<close> equals the following description: for a node with one input that has data, with one input item
  every unpaired item is paired with it; else with one output of as many items as the input, item by item;
  else with one output of one item, with the first of the input items; else, and with no or several inputs, nothing changes. Items
  that are paired are left as they are; it throws when the output is one \<^verbatim>\<open>null\<close> and there is one input. The comment of the function
  excludes the third pairing.
\<close>

theorem assignPairedItems_correct:
  assumes "mget (ed_data d) Main = Some main"
  shows "assignPairedItems (Some outputs) d = (if outputs = [None] \<and> length main = 1 then Inl (TypeError ''length'')
    else Inr (Some (case main of
      [Some input] \<Rightarrow>
        (if length input = 1 then fill_outputs (\<lambda>_. paired_at 0) outputs
         else if length outputs = 1 \<and> map_option length (outputs ! 0) = Some (length input) then fill_outputs paired_at outputs
         else if length outputs = 1 \<and> map_option length (outputs ! 0) = Some 1 \<and> length input > 1
           then fill_outputs (\<lambda>_. paired_at 0) outputs
         else outputs)
    | _ \<Rightarrow> outputs)))"
  unfolding assignPairedItems_spec [OF assms] pair_outputs_def by (rule refl)

theorem assignPairedItems_correct_witness:
  "assignPairedItems (Some [Some [sample_item 5]]) retry_entry
     = Inr (Some [Some [(sample_item 5)\<lparr>i_pairedItem := paired_at 0\<rparr>]])"
proof -
  have m: "mget (ed_data retry_entry) Main = Some [Some [sample_item 1]]" by (simp add: retry_entry_def)
  from assignPairedItems_correct [OF m] show ?thesis
    by (simp add: fill_outputs_def fill_def enumerate0_def sample_item_def json_item_def)
qed

text \<open>
  a third pairing the comment of the function does not know: of several input items and one output item, the output item is paired
  with the first input item, though the comment says that in all other cases the pairing remains undefined.
\<close>

theorem aggregated_item_is_paired:
  assumes "mget (ed_data d) Main = Some [Some (x # y # input)]" "i_pairedItem z = PairedNone"
  shows "assignPairedItems (Some [Some [z]]) d = Inr (Some [Some [z\<lparr>i_pairedItem := paired_at 0\<rparr>]])"
  unfolding assignPairedItems_spec [OF assms(1)]
  using assms(2) by (simp add: pair_outputs_def fill_outputs_def fill_def enumerate0_def)

theorem aggregated_item_is_paired_witness:
  "assignPairedItems (Some [Some [sample_item 3]]) (retry_entry\<lparr>ed_data := [(Main, [Some [sample_item 1, sample_item 2]])]\<rparr>)
     = Inr (Some [Some [(sample_item 3)\<lparr>i_pairedItem := paired_at 0\<rparr>]])"
  by (rule aggregated_item_is_paired) (simp_all add: sample_item_def json_item_def)

section \<open>Errors\<close>

text \<open>
  a node that fails for good can be restarted: the iteration ends the loop with the error, the entry is back in front of the
  stack, and the error is in the run data of the node.
\<close>

theorem failed_node_restartable:
  assumes "\<not> continues_on_error (ed_node (at_data a))"
  shows "\<exists>lp' runs td. after_tries ev k ri a (Some err) lp = Break lp' \<and> rr_error (end_loop lp') = Some (message_text err)
    \<and> \<not> rr_finished (end_loop lp') \<and> en_stack (lp_engine lp') = at_data a # en_stack (at_engine a)
    \<and> mget (en_runData (lp_engine lp')) (n_name (ed_node (at_data a))) = Some runs
    \<and> td \<in> set runs \<and> td_error td = Some (message_text err) \<and> td_status td = Some StError"
proof -
  let ?name = "n_name (ed_node (at_data a))" and ?e = "ensure_runs (n_name (ed_node (at_data a))) (at_engine a)"
  let ?td = "new_task k (at_data a) (at_hints a) (en_waitTill ?e) (Some err)"
  define td where "td = (case n_rewireOutputLogTo (ed_node (at_data a)) of None \<Rightarrow> ?td
    | Some t \<Rightarrow> ?td\<lparr>td_inputOverride := Some (input_override ?name ri ?e),
        td_data := Some [(t, [Some [json_item [(''error'', JStr (message_text err))]]])]\<rparr>)"
  have st: "en_stack (store_task ?name ri td ?e) = en_stack (at_engine a)" by (simp add: store_task_def ensure_runs_def Let_def)
  have td: "stop_on_error ri err ?td (at_data a) ?e
      = log_hook (NodeExecuteAfter ?name) ((store_task ?name ri td ?e)\<lparr>en_stack := at_data a # en_stack (at_engine a)\<rparr>)"
    "td_error td = Some (message_text err)" "td_status td = Some StError"
    unfolding st [symmetric] unfolding stop_on_error_def Let_def td_def
    by (simp_all add: new_task_def split: option.splits)
  let ?runs = "case mget (en_runData ?e) ?name of None \<Rightarrow> [] | Some l \<Rightarrow> l"
  define lp' where "lp' = lp\<lparr>lp_engine := stop_on_error ri err ?td (at_data a) ?e, lp_error := Some err\<rparr>"
  have "after_tries ev k ri a (Some err) lp = Break lp'"
    using assms by (simp add: after_tries_def Let_def lp'_def)
  moreover have "rr_error (end_loop lp') = Some (message_text err)" "\<not> rr_finished (end_loop lp')"
    by (simp_all add: end_loop_def processSuccessExecution_def Let_def lp'_def)
  moreover have "en_stack (lp_engine lp') = at_data a # en_stack (at_engine a)" by (simp add: lp'_def td(1) log_hook_def)
  moreover have "\<exists>runs td. mget (en_runData (lp_engine lp')) ?name = Some runs \<and> td \<in> set runs
      \<and> td_error td = Some (message_text err) \<and> td_status td = Some StError"
  proof (cases "ri < length ?runs")
    case True
    have "assign_task (?runs ! ri) td \<in> set (?runs[ri := assign_task (?runs ! ri) td])" using True by (rule set_update_memI)
    with True td(2,3) show ?thesis
      by (intro exI [of _ "?runs[ri := assign_task (?runs ! ri) td]"] exI [of _ "assign_task (?runs ! ri) td"])
        (simp add: lp'_def td(1) log_hook_def store_task_def Let_def assign_task_def or_else_def)
  next
    case False
    with td(2,3) show ?thesis
      by (intro exI [of _ "?runs @ [td]"] exI [of _ td]) (simp add: lp'_def td(1) log_hook_def store_task_def Let_def)
  qed
  ultimately show ?thesis by blast
qed

theorem failed_node_restartable_witness:
  "case after_tries (sample_env pass_code) 0 0 (start_attempt retry_entry retry_engine) (Some (NodeError ''y'')) retry_loop of
     Break lp' \<Rightarrow> rr_error (end_loop lp') = Some ''y'' | _ \<Rightarrow> False"
proof -
  have "\<not> continues_on_error (ed_node (at_data (start_attempt retry_entry retry_engine)))" by code_simp
  from failed_node_restartable [OF this, of "sample_env pass_code" 0 0 "NodeError ''y''" retry_loop]
  show ?thesis by auto
qed

text \<open>
  an error of a node that continues on errors is forgotten as soon as another node runs, but not when the node is
  the last one: with the same node set to continue, the execution succeeds when \<open>A\<close> fails and
  \<open>B\<close> follows, and ends with status error when \<open>B\<close> fails.
\<close>

definition continuing_engine :: engine where
  "continuing_engine = new_engine True (engine_workflow [nodeT, nodeA\<lparr>n_onError := Some ContinueRegularOutput\<rparr>,
       nodeB\<lparr>n_onError := Some ContinueRegularOutput\<rparr>]
     [(''T'', [(Main, [Some [into ''A'' 0]])]), (''A'', [(Main, [Some [into ''B'' 0]])])])"

definition failing_code :: "string \<Rightarrow> nat \<Rightarrow> inode \<Rightarrow> task_data_conns \<Rightarrow> action_response list \<Rightarrow> node_output res" where
  "failing_code nm k n d r = (if n_name n = nm then Inl (NodeError ''boom'') else pass_code k n d r)"

definition status_of :: "run_result option \<Rightarrow> (bool \<times> string option \<times> exec_status) option" where
  "status_of r = map_option (\<lambda>r. (rr_finished r, rr_error r, en_status (rr_engine r))) r"

theorem last_continued_error_fails:
  "status_of (run_loop (sample_env (failing_code ''A'')) 20 (start_loop continuing_engine)) = Some (True, None, StSuccess)
   \<and> status_of (run_loop (sample_env (failing_code ''B'')) 20 (start_loop continuing_engine)) = Some (False, Some ''boom'', StError)"
  by code_simp

text \<open>
  in the legacy order a node needs the data of all its inputs, but the test of the length is off by one: an
  entry that has data for the first of two inputs only is run at once, while the same entry with an explicit
  \<^verbatim>\<open>null\<close> for the second waits.
\<close>

definition partial_entry :: "items option list \<Rightarrow> exec_data" where
  "partial_entry main = \<lparr>ed_node = nodeC, ed_data = [(Main, main)], ed_source = None, ed_runIndex = None, ed_metadata = None\<rparr>"

theorem ensureInputData_misses_input:
  "snd (ensureInputData (partial_entry [Some [sample_item 1]]) (new_engine False diamond))
   \<and> \<not> snd (ensureInputData (partial_entry [Some [sample_item 1], None]) (new_engine False diamond))"
  by code_simp

section \<open>Requests\<close>

text \<open>
  C30: a node that asks for others is resumed after them in the order \<^verbatim>\<open>v1\<close>, where the entries go to the
  front of the stack, the last requested node first; in the legacy order the entries go to the back, and the node
  is resumed before the nodes it asked for.
\<close>

theorem handleEngineRequest_order:
  assumes "names_ok e" "getNode (en_workflow e) (n_name (ed_node d)) \<noteq> None"
    and "\<forall>nm\<in>insert (n_name (ed_node d)) (a_nodeName ` set actions). numberOfInputs e nm \<le> 1"
    and "prepareRequestingNodeForResuming d \<noteq> None" "handleEngineRequest nd actions md ri d e = (e', None)"
  shows "stack_names e' = (if en_v1 e then rev (map a_nodeName actions) @ [n_name (ed_node d)] @ stack_names e
    else stack_names e @ [n_name (ed_node d)] @ map a_nodeName actions)"
  by (rule request_order [OF assms])

definition agent_entry :: exec_data where
  "agent_entry = \<lparr>ed_node = nodeA, ed_data = [(Main, [Some [sample_item 1]])],
     ed_source = Some [(Main, [Some \<lparr>s_previousNode = ''T'', s_previousNodeOutput = Some 0, s_previousNodeRun = Some 0\<rparr>])],
     ed_runIndex = None, ed_metadata = None\<rparr>"

definition call_tool :: "string \<Rightarrow> action" where
  "call_tool nm = \<lparr>a_nodeName = nm, a_type = AiTool, a_input = [], a_id = nm, a_parentNodeName = None, a_itemIndex = None\<rparr>"

definition legacy_engine :: engine where
  "legacy_engine = new_engine False (engine_workflow [nodeT, nodeA, nodeB, nodeC] [(''T'', [(Main, [Some [into ''A'' 0]])])])"

theorem handleEngineRequest_order_witness:
  "stack_names (fst (handleEngineRequest nodeA [call_tool ''B'', call_tool ''C''] [] 0 agent_entry legacy_engine)) = [''A'', ''B'', ''C'']"
proof -
  let ?h = "handleEngineRequest nodeA [call_tool ''B'', call_tool ''C''] [] 0 agent_entry legacy_engine"
  have "list_all (\<lambda>p. n_name (snd p) = fst p) (wf_nodes (en_workflow legacy_engine))" by code_simp
  then have n: "names_ok legacy_engine" by (simp add: names_ok_def list_all_iff)
  have "snd ?h = None" by code_simp
  then have h: "?h = (fst ?h, None)" by (metis prod.collapse)
  have g: "getNode (en_workflow legacy_engine) (n_name (ed_node agent_entry)) \<noteq> None" by code_simp
  have i: "\<forall>nm\<in>insert (n_name (ed_node agent_entry)) (a_nodeName ` set [call_tool ''B'', call_tool ''C'']). numberOfInputs legacy_engine nm \<le> 1"
    by code_simp
  have p: "prepareRequestingNodeForResuming agent_entry \<noteq> None" by code_simp
  have "en_v1 legacy_engine = False" "stack_names legacy_engine = []" "n_name (ed_node agent_entry) = ''A''"
    "map a_nodeName [call_tool ''B'', call_tool ''C''] = [''B'', ''C'']" by code_simp+
  with handleEngineRequest_order [OF n g i p h] show ?thesis by simp
qed

end
