(* ===== verification/Graph_Conversion.thy ===== *)
theory Graph_Conversion
  imports Graph_Edit Workflow_Class
begin

text \<open>
  Conversions between \<^verbatim>\<open>DirectedGraph\<close> and the nested connection objects of a workflow
  (\<^verbatim>\<open>toIConnections\<close>, \<^verbatim>\<open>fromNodesAndConnections\<close>, \<^verbatim>\<open>toWorkflow\<close>,
  \<^verbatim>\<open>fromWorkflow\<close> of \<^verbatim>\<open>directed-graph.ts\<close>) and their round trip.
\<close>

section \<open>Definitions\<close>

text \<open>
  One iteration of \<^verbatim>\<open>toIConnections\<close>: a node that has no entry gets one for the type of this
  connection only, so that for another type \<^verbatim>\<open>resultConnection[type]\<close> is \<^verbatim>\<open>undefined\<close>.
\<close>

definition group_at :: "node_inputs \<Rightarrow> nat \<Rightarrow> iconn list" where
  "group_at outputs i = case_option [] id (Option.bind (arr_get outputs i) id)"

definition write_connection :: "gconn \<Rightarrow> iconnections \<Rightarrow> iconnections res" where
  "write_connection c result =
     (let name = n_name (gc_from c); type = gc_type c;
          resultConnection = (case mget result name of None \<Rightarrow> [(type, [])] | Some r \<Rightarrow> r)
      in case mget resultConnection type of
           None \<Rightarrow> Inl (TypeError ''outputIndex'')
         | Some outputs \<Rightarrow>
             let group = group_at outputs (gc_outputIndex c)
             in Inr (mset_at name (mset_at type
                  (arr_put (gc_outputIndex c) (Some (group @
                     [\<lparr>ic_node = n_name (gc_to c), ic_type = type, ic_index = gc_inputIndex c\<rparr>])) outputs)
                  resultConnection) result))"

definition toIConnections :: "digraph \<Rightarrow> iconnections res" where
  "toIConnections g = foldE write_connection (conns g) []"

text \<open>
  The nested loops that read a connection object; \<open>lookup\<close> finds the nodes. The type of the input is ignored.
\<close>

definition read_output ::
  "(string \<Rightarrow> inode option) \<Rightarrow> inode \<Rightarrow> conn_type \<Rightarrow> nat \<times> iconn list option \<Rightarrow> digraph \<Rightarrow> digraph res" where
  "read_output lookup from outputType output = (case output of (outputIndex, outgoing) \<Rightarrow>
     foldE (\<lambda>conn graph. case lookup (ic_node conn) of
         None \<Rightarrow> Inl (AssertionError ''to'')
       | Some to \<Rightarrow> addConnection from to (Some outputType) (Some outputIndex) (Some (ic_index conn)) graph)
       (case_option [] id outgoing))"

definition read_entry :: "(string \<Rightarrow> inode option) \<Rightarrow> string \<times> node_inputs obj \<Rightarrow> digraph \<Rightarrow> digraph res" where
  "read_entry lookup entry graph = (case entry of (fromNodeName, iConnection) \<Rightarrow>
     case lookup fromNodeName of
       None \<Rightarrow> Inl (AssertionError ''from'')
     | Some from \<Rightarrow> foldE (\<lambda>(outputType, outputs). foldE (read_output lookup from outputType) (enumerate0 outputs))
         (obj_entries iConnection) graph)"

definition fromNodesAndConnections :: "inode list \<Rightarrow> iconnections \<Rightarrow> digraph res" where
  "fromNodesAndConnections nodes connections =
     (let nodeMap = foldl (\<lambda>m node. mset_at (n_name node) node m) [] nodes
      in foldE (read_entry (mget nodeMap)) (obj_entries connections) (addNodes nodes empty_graph))"

definition fromWorkflow :: "workflow \<Rightarrow> digraph res" where
  "fromWorkflow w =
     foldE (read_entry (getNode w)) (obj_entries (wf_bySource w)) (addNodes (obj_values (wf_nodes w)) empty_graph)"

text \<open>
  \<^verbatim>\<open>toWorkflow\<close> with the other properties of the workflow \<open>w\<close>. The constructor assigns the
  parameters of the node objects, which the graph shares: the second component is the graph afterwards.
\<close>

definition map_graph :: "(inode \<Rightarrow> inode) \<Rightarrow> digraph \<Rightarrow> digraph" where
  "map_graph f g =
     \<lparr>dg_nodes = map (\<lambda>(k, n). (k, f n)) (dg_nodes g),
      dg_connections = map (\<lambda>(k, c). (k, c\<lparr>gc_from := f (gc_from c), gc_to := f (gc_to c)\<rparr>)) (dg_connections g)\<rparr>"

definition toWorkflow ::
  "node_types \<Rightarrow> (node_type \<Rightarrow> inode \<Rightarrow> json obj option) \<Rightarrow> workflow \<Rightarrow> digraph \<Rightarrow> (workflow \<times> digraph) res" where
  "toWorkflow types defaults w g = bindE (toIConnections g) (\<lambda>connections.
     Inr (new_workflow types defaults (node_list g) connections (wf_pinData w) (wf_staticData w),
          map_graph (with_defaults types defaults) g))"

section \<open>Writing connections\<close>

definition one_type :: "gconn list \<Rightarrow> bool" where
  "one_type cs \<longleftrightarrow> (\<forall>c\<in>set cs. \<forall>d\<in>set cs. n_name (gc_from c) = n_name (gc_from d) \<longrightarrow> gc_type c = gc_type d)"

lemma one_typeD:
  "one_type cs \<Longrightarrow> c \<in> set cs \<Longrightarrow> d \<in> set cs \<Longrightarrow> n_name (gc_from c) = n_name (gc_from d) \<Longrightarrow> gc_type c = gc_type d"
  unfolding one_type_def by blast

lemma one_type_snocI:
  assumes "one_type cs" and "\<And>d. d \<in> set cs \<Longrightarrow> n_name (gc_from d) = n_name (gc_from c) \<Longrightarrow> gc_type d = gc_type c"
  shows "one_type (cs @ [c])"
  unfolding one_type_def
proof (intro ballI impI)
  fix x y assume "x \<in> set (cs @ [c])" "y \<in> set (cs @ [c])" and e: "n_name (gc_from x) = n_name (gc_from y)"
  then consider "x \<in> set cs" "y \<in> set cs" | "x \<in> set cs" "y = c" | "x = c" "y \<in> set cs" | "x = c" "y = c"
    unfolding set_append list.set Un_iff insert_iff empty_iff by blast
  then show "gc_type x = gc_type y"
  proof cases
    case 1
    then show ?thesis by (rule one_typeD [OF assms(1) _ _ e])
  next
    case 2
    with e show ?thesis by (auto intro: assms(2))
  next
    case 3
    with e show ?thesis by (auto intro: assms(2) [symmetric])
  qed simp
qed

definition target_conn :: "gconn \<Rightarrow> iconn" where
  "target_conn c = \<lparr>ic_node = n_name (gc_to c), ic_type = gc_type c, ic_index = gc_inputIndex c\<rparr>"

text \<open>The connection object holds exactly these connections, and the entry of a node has their one type.\<close>

definition holds :: "gconn list \<Rightarrow> iconnections \<Rightarrow> bool" where
  "holds cs result \<longleftrightarrow>
     (\<forall>a ty i x. conn_at result a ty i x \<longleftrightarrow>
        (\<exists>c\<in>set cs. n_name (gc_from c) = a \<and> gc_type c = ty \<and> gc_outputIndex c = i \<and> target_conn c = x))
     \<and> (\<forall>a. mget result a \<noteq> None \<longleftrightarrow> (\<exists>c\<in>set cs. n_name (gc_from c) = a))
     \<and> (\<forall>a byType. mget result a = Some byType \<longrightarrow>
          (\<exists>c\<in>set cs. n_name (gc_from c) = a \<and> map fst byType = [gc_type c]))"

lemma holdsD:
  assumes "holds cs r"
  shows "conn_at r a ty i x \<longleftrightarrow>
      (\<exists>c\<in>set cs. n_name (gc_from c) = a \<and> gc_type c = ty \<and> gc_outputIndex c = i \<and> target_conn c = x)"
    and "mget r a \<noteq> None \<longleftrightarrow> (\<exists>c\<in>set cs. n_name (gc_from c) = a)"
    and "mget r a = Some byType \<Longrightarrow> \<exists>c\<in>set cs. n_name (gc_from c) = a \<and> map fst byType = [gc_type c]"
  using assms unfolding holds_def by simp_all

lemma conn_at_group: "conn_at cs a ty i c \<longleftrightarrow> c \<in> set (group_at (cells cs a ty) i)"
  by (auto simp: conn_at_def arr_get_def group_at_def)

lemma group_at_put [simp]: "group_at (arr_put i (Some l) xs) j = (if j = i then l else group_at xs j)"
  unfolding group_at_def arr_get_put by (auto simp: arr_get_def)

lemma group_at_Nil [simp]: "group_at [] i = []"
  by (simp add: group_at_def arr_get_def)

lemma write_connection_holds:
  assumes h: "holds cs result" and t: "one_type (cs @ [c])"
  shows "\<exists>r. write_connection c result = Inr r \<and> holds (cs @ [c]) r"
proof -
  let ?nm = "n_name (gc_from c)" and ?ty = "gc_type c"
  define rc where "rc = (case mget result ?nm of None \<Rightarrow> [(?ty, [])] | Some r \<Rightarrow> r)"
  have rc: "map fst rc = [?ty]"
  proof (cases "mget result ?nm")
    case None
    then show ?thesis by (simp add: rc_def)
  next
    case (Some byType)
    from holdsD(3) [OF h Some] obtain d where d: "d \<in> set cs" "n_name (gc_from d) = ?nm" "map fst byType = [gc_type d]"
      by (elim bexE conjE)
    then have "gc_type d = ?ty" by (intro one_typeD [OF t]) simp_all
    with d(3) Some show ?thesis by (simp add: rc_def)
  qed
  then obtain outputs where o: "rc = [(?ty, outputs)]" by (cases rc) auto
  have cells: "cells result ?nm ?ty = outputs"
    using o by (auto simp: cells_def rc_def split: option.splits)
  define group where "group = group_at outputs (gc_outputIndex c)"
  define r where "r = mset_at ?nm [(?ty, arr_put (gc_outputIndex c) (Some (group @ [target_conn c])) outputs)] result"
  have w: "write_connection c result = Inr r"
    unfolding write_connection_def Let_def rc_def [symmetric] o by (simp add: r_def group_def target_conn_def)
  have at: "conn_at r a ty i x \<longleftrightarrow> conn_at result a ty i x \<or> a = ?nm \<and> ty = ?ty \<and> i = gc_outputIndex c \<and> x = target_conn c" for a ty i x
  proof (cases "a = ?nm")
    case True
    have c: "cells r a ty = (if ty = ?ty then arr_put (gc_outputIndex c) (Some (group @ [target_conn c])) outputs else [])"
      by (simp add: r_def cells_def True)
    show ?thesis
    proof (cases "ty = ?ty")
      case ty: True
      have "cells result a ty = outputs" using True ty cells by simp
      then show ?thesis unfolding conn_at_group c using ty True by (auto simp: group_def)
    next
      case False
      have "cells result a ty = []" using False o True by (auto simp: cells_def rc_def split: option.splits)
      then show ?thesis unfolding conn_at_group c using False by simp
    qed
  qed (auto simp: conn_at_def cells_def r_def)
  have "holds (cs @ [c]) r"
    unfolding holds_def
  proof (intro conjI allI impI)
    fix a ty i x
    show "conn_at r a ty i x \<longleftrightarrow> (\<exists>c\<in>set (cs @ [c]). n_name (gc_from c) = a \<and> gc_type c = ty \<and> gc_outputIndex c = i \<and> target_conn c = x)"
      unfolding at holdsD(1) [OF h] by auto
  next
    fix a
    show "mget r a \<noteq> None \<longleftrightarrow> (\<exists>c\<in>set (cs @ [c]). n_name (gc_from c) = a)"
      using holdsD(2) [OF h, of a] by (auto simp: r_def)
  next
    fix a byType
    assume "mget r a = Some byType"
    then show "\<exists>c\<in>set (cs @ [c]). n_name (gc_from c) = a \<and> map fst byType = [gc_type c]"
      using holdsD(3) [OF h, of a] by (auto simp: r_def split: if_splits)
  qed
  with w show ?thesis by blast
qed

lemma write_connection_fails:
  assumes h: "holds cs result" and t: "one_type cs" "\<not> one_type (cs @ [c])"
  shows "write_connection c result = Inl (TypeError ''outputIndex'')"
proof -
  obtain d where d: "d \<in> set cs" "n_name (gc_from d) = n_name (gc_from c)" "gc_type d \<noteq> gc_type c"
    using t one_type_snocI by blast
  then obtain byType where r: "mget result (n_name (gc_from c)) = Some byType"
    using holdsD(2) [OF h, of "n_name (gc_from c)"] by auto
  from holdsD(3) [OF h r] obtain e where e: "e \<in> set cs" "n_name (gc_from e) = n_name (gc_from c)" "map fst byType = [gc_type e]"
    by (elim bexE conjE)
  have "gc_type e = gc_type d" by (rule one_typeD [OF t(1) e(1) d(1)]) (simp add: e(2) d(2))
  with e(3) d(3) obtain o' where "byType = [(gc_type d, o')]" by (cases byType) auto
  then show ?thesis using d(3) by (simp add: write_connection_def Let_def r)
qed

text \<open>\<open>toIConnections\<close> succeeds exactly when no node has outgoing connections of two types.\<close>

lemma write_connections:
  "if one_type cs then \<exists>r. foldE write_connection cs [] = Inr r \<and> holds cs r
   else foldE write_connection cs [] = Inl (TypeError ''outputIndex'')"
proof (induction cs rule: rev_induct)
  case Nil
  have "holds [] []" by (simp add: holds_def conn_at_def cells_def)
  then show ?case by (simp add: one_type_def)
next
  case (snoc c cs)
  show ?case
  proof (cases "one_type cs")
    case True
    with snoc obtain r where r: "foldE write_connection cs [] = Inr r" "holds cs r" by auto
    show ?thesis
      using write_connection_holds [OF r(2), of c] write_connection_fails [OF r(2) True, of c]
      by (simp add: foldE_append r(1)) (metis bindE_simps(2) foldE.simps(1))
  next
    case False
    then have "\<not> one_type (cs @ [c])" by (auto simp: one_type_def)
    with False snoc show ?thesis by (simp add: foldE_append)
  qed
qed

section \<open>Reading connections\<close>

definition gconn_of :: "(string \<Rightarrow> inode option) \<Rightarrow> string \<Rightarrow> conn_type \<Rightarrow> nat \<Rightarrow> iconn \<Rightarrow> gconn" where
  "gconn_of lookup a ty i c = \<lparr>gc_from = the (lookup a), gc_to = the (lookup (ic_node c)), gc_type = ty,
     gc_outputIndex = i, gc_inputIndex = ic_index c\<rparr>"

definition output_gconns :: "(string \<Rightarrow> inode option) \<Rightarrow> string \<Rightarrow> conn_type \<Rightarrow> nat \<times> iconn list option \<Rightarrow> gconn list" where
  "output_gconns lookup a ty out = map (gconn_of lookup a ty (fst out)) (case_option [] id (snd out))"

definition entry_gconns :: "(string \<Rightarrow> inode option) \<Rightarrow> string \<times> node_inputs obj \<Rightarrow> gconn list" where
  "entry_gconns lookup entry = concat (map (\<lambda>(ty, outputs).
     concat (map (output_gconns lookup (fst entry) ty) (enumerate0 outputs))) (obj_entries (snd entry)))"

definition gconns_of :: "(string \<Rightarrow> inode option) \<Rightarrow> iconnections \<Rightarrow> gconn list" where
  "gconns_of lookup cs = concat (map (entry_gconns lookup) (obj_entries cs))"

lemma set_output_gconns:
  "set (output_gconns lookup a ty out) = gconn_of lookup a ty (fst out) ` set (case_option [] id (snd out))"
  by (simp add: output_gconns_def)

lemma set_gconns_of: "set (gconns_of lookup cs) = {gconn_of lookup a ty i c | a ty i c. conn_at cs a ty i c}"
proof -
  have "x \<in> set (gconns_of lookup cs) \<longleftrightarrow> (\<exists>a byType ty outputs i l. mget cs a = Some byType \<and> mget byType ty = Some outputs
      \<and> (i, l) \<in> set (enumerate0 outputs) \<and> x \<in> set (output_gconns lookup a ty (i, l)))" for x
    unfolding gconns_of_def entry_gconns_def by (auto simp: set_obj_entries Bex_def)
  then show ?thesis unfolding conn_at_iff set_output_gconns set_enumerate0 by fastforce
qed

text \<open>When the lookups succeed and find nodes of the graph, the loops set one connection after the other.\<close>

abbreviation set_all :: "digraph \<Rightarrow> gconn list \<Rightarrow> digraph" where
  "set_all \<equiv> foldl (\<lambda>g c. set_connection c g)"

lemma set_all_nodes [simp]: "dg_nodes (set_all g cs) = dg_nodes g"
  by (induction cs arbitrary: g) simp_all

definition resolves :: "(string \<Rightarrow> inode option) \<Rightarrow> digraph \<Rightarrow> iconnections \<Rightarrow> bool" where
  "resolves lookup g cs \<longleftrightarrow> (\<forall>a. mget cs a \<noteq> None \<longrightarrow> (\<exists>n. lookup a = Some n \<and> nodeExists g n))
     \<and> (\<forall>a ty i c. conn_at cs a ty i c \<longrightarrow> (\<exists>n. lookup (ic_node c) = Some n \<and> nodeExists g n))"

lemma resolves_source: "resolves lookup g cs \<Longrightarrow> mget cs a = Some byType \<Longrightarrow> \<exists>n. lookup a = Some n \<and> nodeExists g n"
  unfolding resolves_def by blast

lemma resolves_target: "resolves lookup g cs \<Longrightarrow> conn_at cs a ty i c \<Longrightarrow> \<exists>n. lookup (ic_node c) = Some n \<and> nodeExists g n"
  unfolding resolves_def by blast

text \<open>A loop whose iterations each set a list of connections sets them all.\<close>

lemma foldE_set_all:
  assumes "\<And>x h. x \<in> set xs \<Longrightarrow> dg_nodes h = dg_nodes g \<Longrightarrow> f x h = Inr (set_all h (L x))" and "dg_nodes h = dg_nodes g"
  shows "foldE f xs h = Inr (set_all h (concat (map L xs)))"
  using assms
proof (induction xs arbitrary: h)
  case (Cons x xs)
  from Cons.prems have "f x h = Inr (set_all h (L x))" by simp
  moreover have "foldE f xs (set_all h (L x)) = Inr (set_all (set_all h (L x)) (concat (map L xs)))"
    by (rule Cons.IH) (use Cons.prems in simp_all)
  ultimately show ?case by simp
qed simp

lemma read_output_sets:
  assumes "resolves lookup g cs" "lookup a = Some from" "nodeExists g from" "dg_nodes h = dg_nodes g"
    and "\<And>c. c \<in> set (case_option [] id (snd out)) \<Longrightarrow> conn_at cs a ty (fst out) c"
  shows "read_output lookup from ty out h = Inr (set_all h (output_gconns lookup a ty out))"
proof -
  let ?conns = "case_option [] id (snd out)" and ?L = "\<lambda>c. [gconn_of lookup a ty (fst out) c]"
  have "foldE (\<lambda>conn graph. case lookup (ic_node conn) of None \<Rightarrow> Inl (AssertionError ''to'')
       | Some to \<Rightarrow> addConnection from to (Some ty) (Some (fst out)) (Some (ic_index conn)) graph) ?conns h
     = Inr (set_all h (concat (map ?L ?conns)))"
  proof (rule foldE_set_all [OF _ assms(4)])
    fix c and s :: digraph assume c: "c \<in> set ?conns" and s: "dg_nodes s = dg_nodes g"
    from resolves_target [OF assms(1) assms(5) [OF c]] obtain n where n: "lookup (ic_node c) = Some n" "nodeExists g n" by blast
    with assms(2,3) s show "(case lookup (ic_node c) of None \<Rightarrow> Inl (AssertionError ''to'')
       | Some to \<Rightarrow> addConnection from to (Some ty) (Some (fst out)) (Some (ic_index c)) s) = Inr (set_all s (?L c))"
      by (simp add: addConnection_def nodeExists_def gconn_of_def)
  qed
  then show ?thesis by (simp add: read_output_def output_gconns_def case_prod_unfold concat_map_singleton)
qed

lemma read_entry_sets:
  assumes r: "resolves lookup g cs" and a: "mget cs (fst entry) = Some (snd entry)" and h: "dg_nodes h = dg_nodes g"
  shows "read_entry lookup entry h = Inr (set_all h (entry_gconns lookup entry))"
proof -
  from resolves_source [OF r a] obtain n where n: "lookup (fst entry) = Some n" "nodeExists g n" by blast
  have "foldE (\<lambda>(ty, outputs). foldE (read_output lookup n ty) (enumerate0 outputs)) (obj_entries (snd entry)) h
      = Inr (set_all h (concat (map (\<lambda>(ty, outputs). concat (map (output_gconns lookup (fst entry) ty) (enumerate0 outputs)))
          (obj_entries (snd entry)))))"
  proof (rule foldE_set_all [OF _ h], clarify)
    fix ty outputs and s :: digraph assume ty: "(ty, outputs) \<in> set (obj_entries (snd entry))" and s: "dg_nodes s = dg_nodes g"
    show "foldE (read_output lookup n ty) (enumerate0 outputs) s
        = Inr (set_all s (concat (map (output_gconns lookup (fst entry) ty) (enumerate0 outputs))))"
    proof (rule foldE_set_all [OF _ s])
      fix out and s :: digraph assume i: "out \<in> set (enumerate0 outputs)" and s: "dg_nodes s = dg_nodes g"
      obtain i l where out: "out = (i, l)" by fastforce
      have "conn_at cs (fst entry) ty (fst out) c" if "c \<in> set (case_option [] id (snd out))" for c
        unfolding conn_at_iff using that ty i a by (auto simp: out set_obj_entries set_enumerate0)
      from read_output_sets [OF r n s this]
      show "read_output lookup n ty out s = Inr (set_all s (output_gconns lookup (fst entry) ty out))" .
    qed
  qed
  then show ?thesis by (simp add: read_entry_def n entry_gconns_def case_prod_unfold)
qed

lemma read_connections:
  assumes "resolves lookup g cs"
  shows "foldE (read_entry lookup) (obj_entries cs) g = Inr (set_all g (gconns_of lookup cs))"
  unfolding gconns_of_def
  by (rule foldE_set_all [OF read_entry_sets [OF assms] HOL.refl]) (auto simp: set_obj_entries)

section \<open>The round trip\<close>

text \<open>Setting connections whose keys do not clash: the graph has them, and no others.\<close>

lemma set_all_lookup:
  assumes "inj_on makeKey (set cs)"
  shows "mget (dg_connections (set_all g cs)) k =
     (case find (\<lambda>c. makeKey c = k) cs of Some c \<Rightarrow> Some c | None \<Rightarrow> mget (dg_connections g) k)"
  using assms
proof (induction cs arbitrary: g)
  case (Cons c cs)
  then have IH: "mget (dg_connections (set_all (set_connection c g) cs)) k =
     (case find (\<lambda>c. makeKey c = k) cs of Some c \<Rightarrow> Some c | None \<Rightarrow> mget (dg_connections (set_connection c g)) k)" by simp
  have "d = c" if "find (\<lambda>c. makeKey c = k) cs = Some d" "makeKey c = k" for d
  proof -
    have "d \<in> set cs" "makeKey d = k" using that(1) by (auto simp: find_Some_iff)
    with Cons.prems that(2) show ?thesis by (auto simp: inj_on_def)
  qed
  with IH show ?case by (cases "find (\<lambda>c. makeKey c = k) cs") (auto simp: set_connection_lookup)
qed simp

lemma find_SomeD: "find P xs = Some x \<Longrightarrow> x \<in> set xs \<and> P x"
  by (induction xs) (auto split: if_splits)

lemma wf_set_all:
  "wf_graph g \<Longrightarrow> (\<And>c. c \<in> set cs \<Longrightarrow> nodeExists g (gc_from c) \<and> nodeExists g (gc_to c)) \<Longrightarrow> wf_graph (set_all g cs)"
  by (induction cs arbitrary: g) (simp_all add: wf_set_connection)

lemma wf_inj_makeKey: "wf_graph g \<Longrightarrow> inj_on makeKey (set (conns g))"
  by (rule inj_onI) (metis wf_conn_lookup option.inject)

lemma addNodes_lookup:
  "mget (dg_nodes (addNodes ns g)) k = (case find (\<lambda>n. n_name n = k) (rev ns) of Some n \<Rightarrow> Some n | None \<Rightarrow> mget (dg_nodes g) k)"
  by (induction ns rule: rev_induct) (simp_all add: addNodes_def addNode_def)

lemma addNodes_empty:
  "wf_graph (addNodes ns empty_graph)" "dg_connections (addNodes ns empty_graph) = []"
proof -
  have "dg_connections (addNodes ns empty_graph) = [] \<and> distinct (map fst (dg_nodes (addNodes ns empty_graph)))"
    by (induction ns rule: rev_induct) (simp_all add: addNodes_def addNode_def empty_graph_def distinct_update)
  moreover have "n_name n = k" if "mget (dg_nodes (addNodes ns empty_graph)) k = Some n" for k n
    using that by (auto simp: addNodes_lookup empty_graph_def split: option.splits dest: find_SomeD)
  ultimately show "dg_connections (addNodes ns empty_graph) = []" "wf_graph (addNodes ns empty_graph)"
    by (auto intro: wf_graphI)
qed

text \<open>Nodes stored under their names survive the way through \<^verbatim>\<open>Object.values\<close>.\<close>

lemma addNodes_obj_values:
  assumes "\<And>k n. mget m k = Some n \<Longrightarrow> n_name n = k"
  shows "mget (dg_nodes (addNodes (obj_values m) empty_graph)) k = mget m k"
proof (cases "find (\<lambda>n. n_name n = k) (rev (obj_values m))")
  case None
  then have "mget m k \<noteq> Some n" for n
    using assms [of k n] by (auto simp: find_None_iff set_obj_values ran_def)
  with None show ?thesis by (simp add: addNodes_lookup empty_graph_def) (metis not_None_eq)
next
  case (Some n)
  from find_SomeD [OF this] have "n \<in> ran (map_of m)" "n_name n = k" by (simp_all add: set_obj_values)
  then obtain k' where "mget m k' = Some n" by (auto simp: ran_def)
  with assms [of k' n] \<open>n_name n = k\<close> Some show ?thesis by (simp add: addNodes_lookup)
qed

lemma conns_map_graph: "conns (map_graph f g) = map (\<lambda>c. c\<lparr>gc_from := f (gc_from c), gc_to := f (gc_to c)\<rparr>) (conns g)"
  by (simp add: conns_def map_graph_def case_prod_unfold)

lemma node_list_map_graph: "node_list (map_graph f g) = map f (node_list g)"
  by (simp add: node_list_def map_graph_def case_prod_unfold)

lemma wf_map_graph:
  assumes "wf_graph g" "\<And>n. n_name (f n) = n_name n"
  shows "wf_graph (map_graph f g)"
proof -
  have ex: "nodeExists (map_graph f g) (f n)" if "nodeExists g n" for n
    using that by (simp add: nodeExists_def map_graph_def map_of_map assms(2))
  show ?thesis
  proof (rule wf_graphI)
    show "makeKey c = k \<and> nodeExists (map_graph f g) (gc_from c) \<and> nodeExists (map_graph f g) (gc_to c)"
      if "mget (dg_connections (map_graph f g)) k = Some c" for k c
      using that wf_graphD(4-6) [OF assms(1)] ex
      by (auto simp: map_graph_def map_of_map makeKey_def assms(2))
  qed (use wf_graphD(1-3) [OF assms(1)] in \<open>auto simp: map_graph_def map_of_map assms(2) comp_def case_prod_unfold\<close>)
qed

text \<open>A graph is read back from what was written for it.\<close>

lemma read_back:
  assumes g: "wf_graph g" and h: "holds (conns g) cs" and l: "\<And>k. lookup k = mget (dg_nodes g) k"
    and g0: "wf_graph g0" "dg_connections g0 = []" "\<And>k. mget (dg_nodes g0) k = mget (dg_nodes g) k"
  shows "\<exists>h. foldE (read_entry lookup) (obj_entries cs) g0 = Inr h \<and> wf_graph h \<and> dg_nodes h = dg_nodes g0
    \<and> (\<forall>k. mget (dg_connections h) k = mget (dg_connections g) k)"
proof -
  have node: "lookup (n_name n) = Some n \<and> nodeExists g0 n" if "nodeExists g n" for n
    using that by (simp add: l g0(3) nodeExists_def)
  have ends: "nodeExists g (gc_from c)" "nodeExists g (gc_to c)" if "c \<in> set (conns g)" for c
    using wf_graph_conn [OF g that] by simp_all
  have r: "resolves lookup g0 cs"
    unfolding resolves_def
  proof (intro conjI allI impI)
    fix a assume "mget cs a \<noteq> None"
    with holdsD(2) [OF h, of a] obtain c where "c \<in> set (conns g)" "n_name (gc_from c) = a" by blast
    with node [OF ends(1)] show "\<exists>n. lookup a = Some n \<and> nodeExists g0 n" by blast
  next
    fix a ty i x assume "conn_at cs a ty i x"
    then obtain c where "c \<in> set (conns g)" "target_conn c = x" unfolding holdsD(1) [OF h] by blast
    with node [OF ends(2)] show "\<exists>n. lookup (ic_node x) = Some n \<and> nodeExists g0 n" by (auto simp: target_conn_def)
  qed
  have same: "gconn_of lookup (n_name (gc_from c)) (gc_type c) (gc_outputIndex c) (target_conn c) = c" if "c \<in> set (conns g)" for c
    using node [OF ends(1) [OF that]] node [OF ends(2) [OF that]] by (simp add: gconn_of_def target_conn_def)
  have "set (gconns_of lookup cs) = (\<lambda>c. gconn_of lookup (n_name (gc_from c)) (gc_type c) (gc_outputIndex c) (target_conn c)) ` set (conns g)"
    unfolding set_gconns_of holdsD(1) [OF h] by blast
  then have s: "set (gconns_of lookup cs) = set (conns g)" using same by simp
  let ?h = "set_all g0 (gconns_of lookup cs)"
  have inj: "inj_on makeKey (set (gconns_of lookup cs))" unfolding s by (rule wf_inj_makeKey [OF g])
  have "mget (dg_connections ?h) k = mget (dg_connections g) k" for k
  proof (cases "find (\<lambda>c. makeKey c = k) (gconns_of lookup cs)")
    case None
    then have "mget (dg_connections g) k \<noteq> Some c" for c
      using wf_graphD(4) [OF g] wf_conn_lookup [OF g, of c] s by (auto simp: find_None_iff)
    with None show ?thesis by (simp add: set_all_lookup [OF inj] g0(2)) (metis not_None_eq)
  next
    case (Some c)
    from find_SomeD [OF this] have "c \<in> set (conns g)" "makeKey c = k" using s by simp_all
    with Some show ?thesis by (simp add: set_all_lookup [OF inj] wf_conn_lookup [OF g])
  qed
  moreover have "wf_graph ?h" by (rule wf_set_all [OF g0(1)]) (use node ends s in blast)
  ultimately show ?thesis using read_connections [OF r] by simp
qed

lemma nodeMap_lookup: "mget (foldl (\<lambda>m node. mset_at (n_name node) node m) m ns) k = (case find (\<lambda>n. n_name n = k) (rev ns) of
    Some n \<Rightarrow> Some n | None \<Rightarrow> mget m k)"
  by (induction ns rule: rev_induct) simp_all

lemma wf_find_node:
  assumes "wf_graph g"
  shows "find (\<lambda>n. n_name n = k) (rev (node_list g)) = mget (dg_nodes g) k"
proof (cases "find (\<lambda>n. n_name n = k) (rev (node_list g))")
  case None
  then have "\<not> nodeExists g n" if "n_name n = k" for n
    using that wf_nodeExists_iff [OF assms] by (auto simp: find_None_iff)
  with None show ?thesis using wf_graphD(3) [OF assms] by (cases "mget (dg_nodes g) k") (auto simp: nodeExists_def)
next
  case (Some n)
  from find_SomeD [OF this] have "n \<in> set (node_list g)" "n_name n = k" by simp_all
  with Some wf_nodeExists_iff [OF assms, of n] show ?thesis by (auto simp: nodeExists_def)
qed

lemma toIConnections_cases:
  "if one_type (conns g) then \<exists>cs. toIConnections g = Inr cs \<and> holds (conns g) cs
   else toIConnections g = Inl (TypeError ''outputIndex'')"
  using write_connections [of "conns g"] by (simp add: toIConnections_def)

lemma nodes_connections_roundtrip:
  assumes "wf_graph g" "one_type (conns g)"
  shows "\<exists>cs h. toIConnections g = Inr cs \<and> fromNodesAndConnections (node_list g) cs = Inr h \<and> wf_graph h
    \<and> (\<forall>k. mget (dg_nodes h) k = mget (dg_nodes g) k) \<and> (\<forall>k. mget (dg_connections h) k = mget (dg_connections g) k)"
proof -
  from toIConnections_cases [of g] assms(2) obtain cs where cs: "toIConnections g = Inr cs" "holds (conns g) cs" by auto
  have n: "mget (dg_nodes (addNodes (node_list g) empty_graph)) k = mget (dg_nodes g) k" for k
    by (simp add: addNodes_lookup wf_find_node [OF assms(1)] empty_graph_def split: option.split)
  have l: "mget (foldl (\<lambda>m node. mset_at (n_name node) node m) [] (node_list g)) k = mget (dg_nodes g) k" for k
    unfolding nodeMap_lookup wf_find_node [OF assms(1)] by (simp split: option.split)
  from read_back [OF assms(1) cs(2) l addNodes_empty n] cs(1) n show ?thesis
    by (fastforce simp: fromNodesAndConnections_def Let_def)
qed

lemma workflow_roundtrip:
  assumes "wf_graph g" "toWorkflow types defaults w g = Inr (w', g')"
  shows "\<exists>h. fromWorkflow w' = Inr h \<and> wf_graph h
    \<and> (\<forall>k. mget (dg_nodes h) k = mget (dg_nodes g') k) \<and> (\<forall>k. mget (dg_connections h) k = mget (dg_connections g') k)"
proof -
  let ?D = "with_defaults types defaults"
  from assms(2) obtain cs where cs: "toIConnections g = Inr cs" and g': "g' = map_graph ?D g"
    and w': "wf_bySource w' = cs" "wf_nodes w' = foldl (\<lambda>m node. mset_at (n_name node) node m) [] (map ?D (node_list g))"
    by (auto simp: toWorkflow_def bindE_eq_Inr new_workflow_def setPinData_def setConnections_def setNodes_def)
  have wf: "wf_graph g'" unfolding g' by (rule wf_map_graph [OF assms(1)]) simp
  have nm: "node_list g' = map ?D (node_list g)" by (simp add: g' node_list_map_graph)
  have l: "getNode w' k = mget (dg_nodes g') k" for k
    unfolding getNode_def w'(2) nm [symmetric] nodeMap_lookup wf_find_node [OF wf] by (simp split: option.split)
  have "holds (conns g) cs" using toIConnections_cases [of g] cs by (auto split: if_splits)
  then have h: "holds (conns g') cs" by (auto simp: holds_def g' conns_map_graph target_conn_def)
  have n: "mget (dg_nodes (addNodes (obj_values (wf_nodes w')) empty_graph)) k = mget (dg_nodes g') k" for k
    using wf_graphD(3) [OF wf] l by (subst addNodes_obj_values) (simp_all add: getNode_def)
  from read_back [OF wf h l addNodes_empty n] n show ?thesis by (fastforce simp: fromWorkflow_def w'(1))
qed

end
