(* ===== verification/Find_Trigger.thy ===== *)
theory Find_Trigger
  imports Graph_Search Workflow_Class
begin

text \<open>
  \<^verbatim>\<open>find-trigger-for-partial-execution.ts\<close>: the trigger a partial execution starts from; and the
  test for tools of \<^verbatim>\<open>node-helpers.ts\<close>.
\<close>

section \<open>Tools\<close>

fun output_is_tool :: "output_desc list \<Rightarrow> bool" where
  "output_is_tool [] = False"
| "output_is_tool (OutputName ty # outputs) = (ty = AiTool)"
| "output_is_tool (OutputConfig ty # outputs) = (ty = Some AiTool \<or> output_is_tool outputs)"

definition isTool :: "node_type \<Rightarrow> json obj \<Rightarrow> bool" where
  "isTool nodeType parameters =
     (if contains ''vectorStore'' (nt_name nodeType) then mget parameters ''mode'' = Some (JStr ''retrieve-as-tool'')
      else case nt_outputs nodeType of Some (OutputList outputs) \<Rightarrow> output_is_tool outputs | _ \<Rightarrow> False)"

section \<open>Triggers\<close>

definition isTriggerNode :: "node_type \<Rightarrow> bool" where
  "isTriggerNode nodeType = (''trigger'' \<in> set (nt_group nodeType))"

text \<open>A parent that is no node, or whose type is not known, is an error.\<close>

definition typed_node :: "node_types \<Rightarrow> inode \<Rightarrow> node_type res" where
  "typed_node types node = (case types (n_type node) (n_typeVersion node) of
     None \<Rightarrow> Inl (TypeError ''description'') | Some nodeType \<Rightarrow> Inr nodeType)"

definition findAllParentTriggers :: "node_types \<Rightarrow> workflow \<Rightarrow> string \<Rightarrow> inode list res" where
  "findAllParentTriggers types w destinationNodeName =
     bindE (foldE (\<lambda>name acc. case getNode w name of
         None \<Rightarrow> Inl (AssertionError ''node'') | Some node \<Rightarrow> Inr (acc @ [node]))
       (getParentNodes (wf_byDest w) destinationNodeName (OfType Main) (- 1)) []) (\<lambda>parentNodes.
     foldE (\<lambda>node acc. bindE (typed_node types node) (\<lambda>nodeType.
         Inr (if isTriggerNode nodeType then acc @ [node] else acc))) parentNodes [])"

definition anyReachableRootHasRunData :: "digraph \<Rightarrow> string \<Rightarrow> run_data \<Rightarrow> bool res" where
  "anyReachableRootHasRunData g destinationNodeName runData =
     (case mget (getNodes g) destinationNodeName of
        None \<Rightarrow> Inr False
      | Some destinationNode \<Rightarrow>
          bindE (getParentConnections g destinationNode) (\<lambda>parentConnections.
          bindE (foldE (\<lambda>parentNode rootNodes. bindE (getDirectParentConnections g parentNode) (\<lambda>cs.
              Inr (if list_ex (\<lambda>c. gc_type c = Main) cs then rootNodes else sadd parentNode rootNodes)))
            (mk_set (map gc_from parentConnections)) []) (\<lambda>rootNodes.
          Inr (list_ex (\<lambda>rootNode. mhas runData (n_name rootNode)) rootNodes))))"

text \<open>
  The comparison of the sort answers \<open>-1\<close> whenever its first argument is a webhook, also for two
  webhooks. The engine's sort inserts every element into the sorted ones before it and compares it as the first
  argument, so a webhook moves to the front and any other node stays: the webhooks come
  first, in reversed order, and the other nodes follow in their order.
\<close>

definition is_webhook :: "inode \<Rightarrow> bool" where
  "is_webhook node = ends_with ''webhook'' (n_type node)"

definition webhooks_first :: "inode list \<Rightarrow> inode list" where
  "webhooks_first nodes = foldl (\<lambda>acc node. if is_webhook node then node # acc else acc @ [node]) [] nodes"

definition select_trigger :: "workflow \<Rightarrow> run_data \<Rightarrow> inode list \<Rightarrow> inode option" where
  "select_trigger w runData parentTriggers =
     (case find (\<lambda>trigger. mhas runData (n_name trigger)) parentTriggers of
        Some trigger \<Rightarrow> Some trigger
      | None \<Rightarrow>
          (case webhooks_first (filter (\<lambda>trigger. getPinDataOfNode w (n_name trigger) \<noteq> None) parentTriggers) of
             trigger # _ \<Rightarrow> Some trigger
           | [] \<Rightarrow>
               (case filter is_webhook parentTriggers of
                  trigger # _ \<Rightarrow> Some trigger
                | [] \<Rightarrow> arr_get parentTriggers 0)))"

definition findTriggerForPartialExecution ::
  "node_types \<Rightarrow> workflow \<Rightarrow> string \<Rightarrow> run_data \<Rightarrow> inode option res" where
  "findTriggerForPartialExecution types w destinationNodeName runData =
     (case getNode w destinationNodeName of
        None \<Rightarrow> Inr None
      | Some destinationNode \<Rightarrow>
          bindE (typed_node types destinationNode) (\<lambda>destinationNodeType.
            if isTriggerNode destinationNodeType \<and> \<not> disabled destinationNode then Inr (Some destinationNode)
            else bindE (findAllParentTriggers types w destinationNodeName) (\<lambda>triggers.
              Inr (select_trigger w runData (filter (\<lambda>trigger. \<not> disabled trigger) triggers)))))"

section \<open>Which trigger is found\<close>

definition trigger_of :: "node_types \<Rightarrow> inode \<Rightarrow> bool" where
  "trigger_of types node = (case types (n_type node) (n_typeVersion node) of None \<Rightarrow> False | Some t \<Rightarrow> isTriggerNode t)"

text \<open>The enabled triggers above the destination, in the order of the search.\<close>

definition parent_triggers :: "node_types \<Rightarrow> workflow \<Rightarrow> string \<Rightarrow> inode list" where
  "parent_triggers types w nm = filter (\<lambda>n. trigger_of types n \<and> \<not> disabled n)
     (List.map_filter (getNode w) (getParentNodes (wf_byDest w) nm (OfType Main) (- 1)))"

lemma foldE_snoc_map:
  "foldE (\<lambda>x acc. case f x of None \<Rightarrow> Inl err | Some y \<Rightarrow> Inr (acc @ [y])) xs acc =
     (if list_all (\<lambda>x. f x \<noteq> None) xs then Inr (acc @ List.map_filter f xs) else Inl err)"
  by (induction xs arbitrary: acc) (simp_all add: map_filter_simps split: option.split)

lemma foldE_snoc_filter:
  "foldE (\<lambda>x acc. bindE (typed_node types x) (\<lambda>t. Inr (if isTriggerNode t then acc @ [x] else acc))) xs acc =
     (if list_all (\<lambda>x. types (n_type x) (n_typeVersion x) \<noteq> None) xs then Inr (acc @ filter (trigger_of types) xs)
      else Inl (TypeError ''description''))"
  by (induction xs arbitrary: acc) (auto simp: typed_node_def trigger_of_def split: option.split)

lemma findAllParentTriggers_eq:
  "findAllParentTriggers types w nm =
     (let names = getParentNodes (wf_byDest w) nm (OfType Main) (- 1); nodes = List.map_filter (getNode w) names in
      if \<not> list_all (\<lambda>x. getNode w x \<noteq> None) names then Inl (AssertionError ''node'')
      else if \<not> list_all (\<lambda>x. types (n_type x) (n_typeVersion x) \<noteq> None) nodes then Inl (TypeError ''description'')
      else Inr (filter (trigger_of types) nodes))"
  unfolding findAllParentTriggers_def Let_def foldE_snoc_map by (simp add: foldE_snoc_filter)

lemma webhooks_first_eq: "webhooks_first nodes = rev (filter is_webhook nodes) @ filter (\<lambda>n. \<not> is_webhook n) nodes"
  by (induction nodes rule: rev_induct) (simp_all add: webhooks_first_def)

lemma webhooks_first_Nil: "webhooks_first nodes = [] \<longleftrightarrow> nodes = []"
proof -
  have "length (webhooks_first nodes) = length nodes"
    using sum_length_filter_compl [of is_webhook nodes] by (simp add: webhooks_first_eq)
  then show ?thesis by (cases nodes; cases "webhooks_first nodes") simp_all
qed

text \<open>The rank of a trigger; the selected one has the least rank.\<close>

definition trigger_rank :: "workflow \<Rightarrow> run_data \<Rightarrow> inode \<Rightarrow> nat" where
  "trigger_rank w runData n =
     (if mhas runData (n_name n) then 0
      else if getPinDataOfNode w (n_name n) \<noteq> None then (if is_webhook n then 1 else 2)
      else if is_webhook n then 3 else 4)"

lemma select_trigger_Some:
  assumes "select_trigger w runData ts = Some t"
  shows "t \<in> set ts \<and> (\<forall>t'\<in>set ts. trigger_rank w runData t \<le> trigger_rank w runData t')"
proof (cases "find (\<lambda>trigger. mhas runData (n_name trigger)) ts")
  case (Some a)
  then have "a \<in> set ts" "mhas runData (n_name a)" by (auto simp: find_Some_iff)
  with Some assms show ?thesis by (auto simp: select_trigger_def trigger_rank_def)
next
  case None
  then have n: "\<not> mhas runData (n_name x)" if "x \<in> set ts" for x using that by (auto simp: find_None_iff)
  let ?pin = "filter (\<lambda>trigger. getPinDataOfNode w (n_name trigger) \<noteq> None) ts"
  show ?thesis
  proof (cases "webhooks_first ?pin")
    case (Cons a as)
    with None assms have t: "t = a" by (simp add: select_trigger_def)
    from Cons have "a \<in> set (webhooks_first ?pin)" by simp
    then have a: "a \<in> set ?pin" by (auto simp: webhooks_first_eq)
    have "is_webhook a" if "x \<in> set ?pin" "is_webhook x" for x
    proof -
      have "rev (filter is_webhook ?pin) \<noteq> []" using that by (auto simp: filter_empty_conv)
      with Cons have "a \<in> set (rev (filter is_webhook ?pin))"
        unfolding webhooks_first_eq by (cases "rev (filter is_webhook ?pin)") simp_all
      then show ?thesis by simp
    qed
    then have "trigger_rank w runData a \<le> trigger_rank w runData x" if "x \<in> set ts" for x
      using that a n [of x] n [of a] by (cases "getPinDataOfNode w (n_name x)") (auto simp: trigger_rank_def)
    with a show ?thesis unfolding t by simp
  next
    case Nil
    then have p: "getPinDataOfNode w (n_name x) = None" if "x \<in> set ts" for x
      using that by (auto simp: webhooks_first_Nil filter_empty_conv)
    show ?thesis
    proof (cases "filter is_webhook ts")
      case (Cons a as)
      with None Nil assms have "t = a" by (simp add: select_trigger_def)
      moreover have "a \<in> set (filter is_webhook ts)" using Cons by simp
      ultimately show ?thesis using n p by (auto simp: trigger_rank_def)
    next
      case empty: Nil
      with None Nil assms have "ts \<noteq> [] \<and> t = hd ts" by (cases ts) (simp_all add: select_trigger_def arr_get_def)
      then show ?thesis using n p empty by (auto simp: trigger_rank_def filter_empty_conv)
    qed
  qed
qed

lemma select_trigger_None: "select_trigger w runData ts = None \<longleftrightarrow> ts = []"
proof
  assume s: "select_trigger w runData ts = None"
  then have "find (\<lambda>trigger. mhas runData (n_name trigger)) ts = None"
    "webhooks_first (filter (\<lambda>trigger. getPinDataOfNode w (n_name trigger) \<noteq> None) ts) = []" "filter is_webhook ts = []"
    by (auto simp: select_trigger_def split: option.splits list.splits)
  with s show "ts = []" by (cases ts) (simp_all add: select_trigger_def arr_get_def)
qed (simp add: select_trigger_def arr_get_def webhooks_first_def)

lemma findTrigger_Inr:
  assumes "findTriggerForPartialExecution types w nm runData = Inr r" "getNode w nm = Some d" "\<not> (trigger_of types d \<and> \<not> disabled d)"
  shows "r = select_trigger w runData (parent_triggers types w nm)"
proof -
  from assms obtain t where t: "types (n_type d) (n_typeVersion d) = Some t"
    by (auto simp: findTriggerForPartialExecution_def typed_node_def bindE_eq_Inr split: option.splits)
  with assms(1-3) obtain ts where ts: "findAllParentTriggers types w nm = Inr ts"
    and r: "r = select_trigger w runData (filter (\<lambda>trigger. \<not> disabled trigger) ts)"
    by (auto simp: findTriggerForPartialExecution_def typed_node_def trigger_of_def bindE_eq_Inr split: if_splits)
  from ts have "ts = filter (trigger_of types) (List.map_filter (getNode w) (getParentNodes (wf_byDest w) nm (OfType Main) (- 1)))"
    by (auto simp: findAllParentTriggers_eq Let_def split: if_splits)
  with r show ?thesis by (simp add: parent_triggers_def conj_commute)
qed

end
