(* ===== verification/Partial_Run.thy ===== *)
theory Partial_Run
  imports Graph_Conversion Find_Trigger Find_Subgraph Rewire_Graph Handle_Cycles Start_Nodes Recreate_Stack Engine_Termination Engine_Runs
begin

text \<open>
  \<^verbatim>\<open>runPartialWorkflow2\<close> of \<^verbatim>\<open>workflow-execute.ts\<close>: the graph is read from the
  workflow, cut down to what the destination needs, the run data is cleaned, the stack is recreated, and the
  engine runs.
\<close>

section \<open>Definitions\<close>

text \<open>
  What the code takes from its surroundings: node types, default parameters, \<^verbatim>\<open>JSON.stringify\<close>, the
  identity of the new node, the comparison of names, the issues of a node.
\<close>

record partial_env =
  pv_types :: node_types
  pv_defaults :: "node_type \<Rightarrow> inode \<Rightarrow> json obj option"
  pv_stringify :: "json obj \<Rightarrow> string"
  pv_ref :: nat
  pv_compare :: "string \<Rightarrow> string \<Rightarrow> int"
  pv_issues :: "inode \<Rightarrow> string list \<Rightarrow> json option"

record partial_target =
  pt_workflow :: workflow
  pt_graph :: digraph
  pt_node :: inode
  pt_destination :: "string \<times> bool"

text \<open>The destination; that of a tool is a virtual node in place of the agent.\<close>

definition partial_target ::
  "partial_env \<Rightarrow> workflow \<Rightarrow> string \<times> bool \<Rightarrow> agent_request option \<Rightarrow> partial_target res" where
  "partial_target pv w destinationNode agentRequest =
     (case getNode w (fst destinationNode) of
        None \<Rightarrow> Inl (AssertionError ''Could not find a node with the name in the workflow'')
      | Some destination \<Rightarrow>
          bindE (fromWorkflow w) (\<lambda>graph.
          bindE (typed_node (pv_types pv) destination) (\<lambda>destinationNodeType.
            if isTool destinationNodeType (n_parameters destination) then
              bindE (rewireGraph (pv_stringify pv) (pv_ref pv) destination graph agentRequest) (\<lambda>(graph, _).
              bindE (toWorkflow (pv_types pv) (pv_defaults pv) w graph) (\<lambda>(w, graph).
                case getNode w TOOL_EXECUTOR_NODE_NAME of
                  None \<Rightarrow> Inl (OperationalError ''ToolExecutor can not be found'')
                | Some toolExecutor \<Rightarrow>
                    Inr \<lparr>pt_workflow = w, pt_graph = graph, pt_node = toolExecutor,
                      pt_destination = (n_name toolExecutor, True)\<rparr>))
            else Inr \<lparr>pt_workflow = w, pt_graph = graph, pt_node = destination, pt_destination = destinationNode\<rparr>)))"

text \<open>The trigger, or else the first parent that has run data.\<close>

definition partial_trigger :: "partial_env \<Rightarrow> workflow \<Rightarrow> string \<Rightarrow> run_data \<Rightarrow> inode res" where
  "partial_trigger pv w nodeName runData =
     bindE (findTriggerForPartialExecution (pv_types pv) w nodeName runData) (\<lambda>trigger.
       case trigger of
         Some t \<Rightarrow> Inr t
       | None \<Rightarrow>
           (case Option.bind (find (mhas runData) (getParentNodes (wf_byDest w) nodeName (OfType Main) (- 1))) (getNode w) of
              Some startNode \<Rightarrow> Inr startNode
            | None \<Rightarrow> Inl (UserError ''Connect a trigger to run this node'')))"

text \<open>The steps 2 to 7: the subgraph, the run data that is kept, and the recreated stack.\<close>

definition partial_plan :: "partial_env \<Rightarrow> partial_target \<Rightarrow> inode \<Rightarrow> run_data \<Rightarrow> pin_data \<Rightarrow> string list
    \<Rightarrow> (digraph \<times> run_data \<times> recreated) res" where
  "partial_plan pv target trigger runData pinData dirtyNodeNames =
     bindE (filterDisabledNodes (pt_graph target)) (\<lambda>filtered.
     bindE (findSubgraph filtered (pt_node target) trigger) (\<lambda>graph.
     bindE (cleanRunData runData graph (getNodesByNames graph dirtyNodeNames)) (\<lambda>runData.
     bindE (findStartNodes graph trigger (pt_node target) pinData runData) (\<lambda>startNodes.
     bindE (handleCycles graph startNodes trigger) (\<lambda>startNodes.
     bindE (cleanRunData runData graph startNodes) (\<lambda>runData.
     bindE (recreateNodeExecutionStack (pv_compare pv) graph startNodes runData pinData) (\<lambda>recreated.
       Inr (graph, runData, recreated))))))))"

definition partial_engine :: "engine \<Rightarrow> partial_target \<Rightarrow> pin_data \<Rightarrow> digraph \<times> run_data \<times> recreated \<Rightarrow> engine" where
  "partial_engine e target pinData plan = (case plan of (graph, runData, recreated) \<Rightarrow>
     e\<lparr>en_workflow := pt_workflow target, en_stack := rc_stack recreated, en_waiting := rc_waiting recreated,
       en_waitingSource := rc_waitingSource recreated, en_runData := runData, en_pinData := Some pinData,
       en_metadata := [], en_lastNode := None, en_error := None, en_waitTill := False,
       en_runNodeFilter := Some (map n_name (map snd (getNodes graph))), en_destination := Some (pt_destination target),
       en_execIndex := getNextExecutionIndex runData, en_status := StRunning\<rparr>)"

definition runPartialWorkflow2 :: "partial_env \<Rightarrow> env \<Rightarrow> nat \<Rightarrow> engine \<Rightarrow> run_data \<Rightarrow> pin_data \<Rightarrow> string list
    \<Rightarrow> string \<times> bool \<Rightarrow> agent_request option \<Rightarrow> run_result option res" where
  "runPartialWorkflow2 pv ev fuel e runData pinData dirtyNodeNames destinationNode agentRequest =
     bindE (partial_target pv (en_workflow e) destinationNode agentRequest) (\<lambda>target.
     bindE (partial_trigger pv (pt_workflow target) (fst (pt_destination target)) runData) (\<lambda>trigger.
     bindE (partial_plan pv target trigger runData pinData dirtyNodeNames) (\<lambda>plan.
       processRunExecutionData (pv_types pv) (pv_issues pv) ev fuel (partial_engine e target pinData plan))))"

section \<open>The graph of the target\<close>

lemma addConnection_wf: "addConnection from to ty out inp g = Inr h \<Longrightarrow> wf_graph g \<Longrightarrow> wf_graph h"
  by (auto simp: addConnection_def bindE_eq_Inr Let_def intro: wf_set_connection)

lemma read_output_wf: "read_output lookup from ty out g = Inr h \<Longrightarrow> wf_graph g \<Longrightarrow> wf_graph h"
  unfolding read_output_def case_prod_unfold
  by (erule foldE_invariant [where I = wf_graph]) (auto split: option.splits intro: addConnection_wf)

lemma read_entry_wf:
  assumes "read_entry lookup entry g = Inr h" "wf_graph g"
  shows "wf_graph h"
proof -
  from assms obtain from' where
    "foldE (\<lambda>(ty, outputs). foldE (read_output lookup from' ty) (enumerate0 outputs)) (obj_entries (snd entry)) g = Inr h"
    by (auto simp: read_entry_def case_prod_unfold split: option.splits)
  then show ?thesis
  proof (rule foldE_invariant [where I = wf_graph])
    fix x and a b :: digraph
    assume a: "wf_graph a" and x: "(\<lambda>(ty, outputs). foldE (read_output lookup from' ty) (enumerate0 outputs)) x a = Inr b"
    from x have "foldE (read_output lookup from' (fst x)) (enumerate0 (snd x)) a = Inr b" by (simp add: case_prod_unfold)
    then show "wf_graph b" by (rule foldE_invariant [where I = wf_graph]) (use a read_output_wf in blast)+
  qed (rule assms(2))
qed

text \<open>Every graph that is read is well-formed.\<close>

lemma fromWorkflow_wf: "fromWorkflow w = Inr g \<Longrightarrow> wf_graph g"
  unfolding fromWorkflow_def
  by (erule foldE_invariant [where I = wf_graph]) (auto intro: addNodes_empty read_entry_wf)

section \<open>What the editing keeps\<close>

text \<open>No editing step makes connections between nodes that had no path.\<close>

lemma edges_set_connection: "edges (set_connection c g) \<subseteq> insert (gc_from c, gc_to c) (edges g)"
  using conns_set_connection_subset [of c g] by (auto simp: edges_def)

lemma addConnection_edges:
  "addConnection from to ty out inp g = Inr h \<Longrightarrow> edges h \<subseteq> insert (from, to) (edges g)"
  using edges_set_connection by (fastforce simp: addConnection_def bindE_eq_Inr Let_def)

lemma set_all_edges: "edges g \<subseteq> R \<Longrightarrow> (\<And>c. c \<in> set cs \<Longrightarrow> (gc_from c, gc_to c) \<in> R) \<Longrightarrow> edges (set_all g cs) \<subseteq> R"
proof (induction cs arbitrary: g)
  case (Cons c cs)
  have "edges (set_connection c g) \<subseteq> R" using edges_set_connection [of c g] Cons.prems by auto
  with Cons show ?case by simp
qed simp

lemma edges_sub:
  "edges (drop_node_connections n g) \<subseteq> edges g" "edges (delete_node_entry n g) = edges g" "edges (addNodes ns g) = edges g"
proof -
  show "edges (addNodes ns g) = edges g" by (induction ns arbitrary: g) (simp_all add: addNodes_def)
qed (force simp: edges_def conns_def drop_node_connections_def delete_node_entry_def)+

lemma removeNode_edges:
  assumes "removeNode n reconnect skip g = Inr (h, new)" "edges g \<subseteq> R\<^sup>+"
  shows "edges h \<subseteq> R\<^sup>+"
proof (cases reconnect)
  case False
  with assms edges_sub(1) [of n g] show ?thesis by (auto simp: removeNode_def edges_sub(2))
next
  case True
  with assms(1) obtain new' where h: "h = delete_node_entry n (set_all (drop_node_connections n g) new')"
    and new': "new' = newConnections skip (filter (\<lambda>c. gc_to c = n) (conns g)) (filter (\<lambda>c. gc_from c = n) (conns g))"
    by (auto simp: removeNode_def bindE_eq_Inr Let_def getDirectParentConnections_def getDirectChildConnections_def)
  have "(gc_from c, gc_to c) \<in> R\<^sup>+" if "c \<in> set new'" for c
  proof -
    from that obtain i p where c: "c = i\<lparr>gc_to := gc_to p, gc_inputIndex := gc_inputIndex p\<rparr>"
      and i: "i \<in> set (conns g)" "gc_to i = n" and p: "p \<in> set (conns g)" "gc_from p = n"
      unfolding new' set_newConnections by auto
    then have "(gc_from i, n) \<in> R\<^sup>+" "(n, gc_to p) \<in> R\<^sup>+" using assms(2) by (auto simp: edges_def)
    then have "(gc_from i, gc_to p) \<in> R\<^sup>+" by (rule trancl_trans)
    with c show ?thesis by simp
  qed
  with edges_sub(1) [of n g] assms(2) have "edges (set_all (drop_node_connections n g) new') \<subseteq> R\<^sup>+"
    by (intro set_all_edges) auto
  with h show ?thesis by (simp add: edges_sub(2))
qed

lemma clone_edges:
  assumes "clone g = Inr h"
  shows "edges h \<subseteq> edges g"
proof -
  from assms have "foldE addGConn (conns g) (addNodes (node_list g) empty_graph) = Inr h"
    by (simp add: clone_def addConnections_def)
  then show ?thesis
  proof (rule foldE_invariant [where I = "\<lambda>h. edges h \<subseteq> edges g"])
    show "edges (addNodes (node_list g) empty_graph) \<subseteq> edges g"
      by (simp add: edges_sub(3)) (simp add: edges_def empty_graph_def conns_def)
    fix c a b assume "c \<in> set (conns g)" "edges a \<subseteq> edges g" "addGConn c a = Inr b"
    moreover from this have "edges b \<subseteq> insert (gc_from c, gc_to c) (edges a)"
      unfolding addGConn_def by (intro addConnection_edges)
    moreover have "(gc_from c, gc_to c) \<in> edges g" using \<open>c \<in> set (conns g)\<close> by (auto simp: edges_def)
    ultimately show "edges b \<subseteq> edges g" by blast
  qed
qed

lemma filterDisabledNodes_edges:
  assumes "filterDisabledNodes g = Inr h"
  shows "edges h \<subseteq> (edges g)\<^sup>+"
proof -
  from assms obtain g0 where g0: "clone g = Inr g0" "foldE removeDisabled (map snd (getNodes g0)) g0 = Inr h"
    by (auto simp: filterDisabledNodes_def bindE_eq_Inr)
  from g0(2) show ?thesis
  proof (rule foldE_invariant [where I = "\<lambda>h. edges h \<subseteq> (edges g)\<^sup>+"])
    show "edges g0 \<subseteq> (edges g)\<^sup>+" using clone_edges [OF g0(1)] by auto
    fix n a b assume a: "edges a \<subseteq> (edges g)\<^sup>+" and "removeDisabled n a = Inr b"
    then consider "b = a" | r where "removeNode n True (\<lambda>c. gc_type c \<noteq> Main) a = Inr (b, r)"
      by (auto simp: removeDisabled_def bindE_eq_Inr split: if_splits)
    then show "edges b \<subseteq> (edges g)\<^sup>+" by cases (use a removeNode_edges in simp_all)
  qed
qed

text \<open>Every node of the subgraph leads to the destination.\<close>

definition leads :: "digraph \<Rightarrow> inode \<Rightarrow> digraph \<Rightarrow> bool" where
  "leads g d h \<longleftrightarrow> (\<forall>n\<in>set (node_list h). (n, d) \<in> (edges g)\<^sup>*)"

lemma node_list_addNodes: "set (node_list (addNodes ns h)) \<subseteq> set ns \<union> set (node_list h)"
proof (induction ns arbitrary: h)
  case (Cons n ns)
  have "set (node_list (addNode n h)) \<subseteq> insert n (set (node_list h))"
    unfolding node_list_def addNode_def set_map by (simp add: values_set_subset)
  with Cons.IH [of "addNode n h"] show ?case by (auto simp: addNodes_def)
qed (simp add: addNodes_def)

lemma keep_connection_leads:
  assumes "keep_connection c h = Inr h'" "leads g d h" "(gc_from c, d) \<in> (edges g)\<^sup>*" "(gc_to c, d) \<in> (edges g)\<^sup>*"
  shows "leads g d h'"
proof -
  from assms(1) have "dg_nodes h' = dg_nodes (addNodes [gc_from c, gc_to c] h)"
    by (auto simp: keep_connection_def addGConn_def addConnection_def bindE_eq_Inr Let_def)
  then have "node_list h' = node_list (addNodes [gc_from c, gc_to c] h)" by (simp add: node_list_def)
  with node_list_addNodes [of "[gc_from c, gc_to c]" h] assms(2-4) show ?thesis by (auto simp: leads_def)
qed

lemma keep_branch_leads:
  assumes "keep_branch branch h = Inr h'" "leads g d h"
    and "\<And>c. c \<in> set branch \<Longrightarrow> (gc_from c, d) \<in> (edges g)\<^sup>* \<and> (gc_to c, d) \<in> (edges g)\<^sup>*"
  shows "leads g d h'"
  using assms(1) unfolding keep_branch_def
  by (rule foldE_invariant [where I = "leads g d"]) (use assms(2,3) keep_connection_leads in blast)+

lemma findSubgraphRecursive_leads:
  "findSubgraphRecursive g dn current t branch h = Inr h' \<Longrightarrow> leads g d h \<Longrightarrow> (current, d) \<in> (edges g)\<^sup>* \<Longrightarrow>
   (\<And>c. c \<in> set branch \<Longrightarrow> (gc_from c, d) \<in> (edges g)\<^sup>* \<and> (gc_to c, d) \<in> (edges g)\<^sup>*) \<Longrightarrow> leads g d h'"
proof (induction g dn current t branch h arbitrary: h' rule: findSubgraphRecursive.induct)
  case (1 g dn current t branch h)
  note eq = findSubgraphRecursive.simps [of g dn current t branch h]
  show ?case
  proof (cases "current = t")
    case True
    with "1.prems"(1) have k: "keep_branch branch (addNode t h) = Inr h'" using eq by simp
    have "leads g d (addNode t h)"
      using node_list_addNodes [of "[t]" h] "1.prems"(2,3) True by (auto simp: leads_def addNodes_def)
    from keep_branch_leads [OF k this "1.prems"(4)] show ?thesis by blast
  next
    case False
    with "1.prems"(1) obtain pcs where pcs: "getDirectParentConnections g current = Inr pcs" by (auto simp: eq bindE_eq_Inr)
    show ?thesis
    proof (cases "pcs = [] \<or> current = dn \<and> dn \<in> set (map gc_to branch) \<or> current \<in> set (map gc_to branch)")
      case True
      then have "h' = h \<or> keep_branch branch h = Inr h'"
        using "1.prems"(1) False pcs by (auto simp: eq split: if_splits)
      with keep_branch_leads [OF _ "1.prems"(2,4)] "1.prems"(2) show ?thesis by blast
    next
      case no: False
      then have c: "pcs \<noteq> []" "\<not> (current = dn \<and> dn \<in> set (map gc_to branch))" "current \<notin> set (map gc_to branch)" by blast+
      have f: "foldE (\<lambda>pc h. if gc_type pc \<noteq> Main then Inr h
          else findSubgraphRecursive g dn (gc_from pc) t (branch @ [pc]) h) pcs h = Inr h'"
        using "1.prems"(1) unfolding eq pcs bindE_simps if_not_P [OF False] if_not_P [OF c(1)] if_not_P [OF c(2)] if_not_P [OF c(3)] .
      show ?thesis
      proof (rule foldE_invariant [where I = "leads g d", OF f "1.prems"(2)])
        fix pc a b assume pc: "pc \<in> set pcs" and a: "leads g d a"
          and b: "(if gc_type pc \<noteq> Main then Inr a else findSubgraphRecursive g dn (gc_from pc) t (branch @ [pc]) a) = Inr b"
        from pc pcs have e: "pc \<in> set (conns g)" "gc_to pc = current" by (auto simp: getDirectParentConnections_Inr)
        then have "(gc_from pc, current) \<in> edges g" by (auto simp: edges_def)
        with "1.prems"(3) have "(gc_from pc, d) \<in> (edges g)\<^sup>*" by (rule converse_rtrancl_into_rtrancl [rotated])
        with e a b "1.IH" [OF False pcs _ _ _ pc] "1.prems"(3,4) no show "leads g d b" by (auto split: if_splits)
      qed
    qed
  qed
qed

lemma getParentConnections_sound:
  assumes "getParentConnections g n = Inr cs" "c \<in> set cs"
  shows "c \<in> set (conns g) \<and> (gc_to c, n) \<in> (edges g)\<^sup>*"
proof -
  from assms(1) have r: "parents_loop g (filter (\<lambda>c. gc_to c = n) (conns g)) [] = Inr cs"
    by (simp add: getParentConnections_loop)
  from parents.loop_result [OF r] assms(2) obtain b where b: "b \<in> set (conns g)" "gc_to b = n" "(b, c) \<in> (parents.step g)\<^sup>*" by auto
  from parents_chain_path [OF b(3,1)] b(2) show ?thesis by simp
qed

lemma addUtilityConnections_leads:
  assumes "addUtilityConnections g n h = Inr h'" "leads g d h" "(n, d) \<in> (edges g)\<^sup>*"
  shows "leads g d h'"
proof -
  from assms(1) obtain cs where cs: "getParentConnections g n = Inr cs"
    and f: "foldE (\<lambda>c h. if gc_type c = Main then Inr h else keep_connection c h) cs h = Inr h'"
    by (auto simp: addUtilityConnections_def bindE_eq_Inr)
  show ?thesis
  proof (rule foldE_invariant [where I = "leads g d", OF f assms(2)])
    fix c a b assume c: "c \<in> set cs" and a: "leads g d a"
      and b: "(if gc_type c = Main then Inr a else keep_connection c a) = Inr b"
    from getParentConnections_sound [OF cs c] have e: "c \<in> set (conns g)" "(gc_to c, n) \<in> (edges g)\<^sup>*" by simp_all
    then have t: "(gc_to c, d) \<in> (edges g)\<^sup>*" using assms(3) by (meson rtrancl_trans)
    have "(gc_from c, gc_to c) \<in> edges g" using e(1) by (auto simp: edges_def)
    with t have "(gc_from c, d) \<in> (edges g)\<^sup>*" by (rule converse_rtrancl_into_rtrancl [rotated])
    with t a b keep_connection_leads show "leads g d b" by (auto split: if_splits)
  qed
qed

lemma findSubgraph_leads:
  assumes "findSubgraph g d t = Inr h"
  shows "leads g d h"
proof -
  from assms obtain k where k: "findSubgraphRecursive g d d t [] empty_graph = Inr k"
    and f: "foldE (addUtilityConnections g) (map snd (getNodes k)) k = Inr h"
    by (auto simp: findSubgraph_def bindE_eq_Inr)
  have e: "leads g d empty_graph" by (simp add: leads_def empty_graph_def node_list_def)
  have lk: "leads g d k" by (rule findSubgraphRecursive_leads [OF k e]) simp_all
  show ?thesis
  proof (rule foldE_invariant [where I = "leads g d", OF f lk])
    fix n a b assume "n \<in> set (map snd (getNodes k))" and a: "leads g d a" and b: "addUtilityConnections g n a = Inr b"
    then have "(n, d) \<in> (edges g)\<^sup>*" using lk unfolding leads_def getNodes_def node_list_def by blast
    with a b show "leads g d b" by (intro addUtilityConnections_leads [OF b])
  qed
qed

section \<open>The recreated stack\<close>

lemma foldE_assert: "foldE (\<lambda>x _. assertE (Q x) msg) xs u = Inr v \<Longrightarrow> x \<in> set xs \<Longrightarrow> Q x"
  by (induction xs arbitrary: u) (auto simp: bindE_eq_Inr)

lemma recreated_enabled:
  assumes "recreateNodeExecutionStack cmp g starts rd pd = Inr r" "n \<in> set (node_list g)"
  shows "\<not> disabled n"
proof -
  from assms(1) obtain u where "foldE (\<lambda>node _. assertE (\<not> disabled node) ''Graph contains disabled nodes'') (map snd (getNodes g)) () = Inr u"
    by (auto simp: recreateNodeExecutionStack_def bindE_eq_Inr)
  from foldE_assert [OF this, of n] assms(2) show ?thesis by (simp add: getNodes_def node_list_def)
qed

definition main_entries :: "recreated \<Rightarrow> bool" where
  "main_entries r \<longleftrightarrow> (\<forall>d\<in>set (rc_stack r). has_main (ed_data d))"

lemma has_main_entry: "has_main (ed_data (stack_entry n d s))"
  by (simp add: stack_entry_def has_main_def mhas_def)

lemma complete_group_main: "complete_group n rd pd sg st = Inr st' \<Longrightarrow> main_entries st \<Longrightarrow> main_entries st'"
  by (auto simp: complete_group_def bindE_eq_Inr main_entries_def has_main_entry)

lemma incomplete_group_main:
  assumes "incomplete_group n rd sg st = Inr st'" "main_entries st"
  shows "main_entries st'"
  using assms(1) unfolding incomplete_group_def Let_def
  by (rule foldE_invariant [where I = main_entries])
    (use assms(2) in \<open>auto simp: incomplete_connection_def bindE_eq_Inr main_entries_def split: option.splits\<close>)

lemma recreate_start_node_main:
  assumes "recreate_start_node cmp g rd pd n st = Inr st'" "main_entries st"
  shows "main_entries st'"
proof -
  from assms(1) consider "st' = st\<lparr>rc_stack := rc_stack st @ [stack_entry n [Some [json_item []]] None]\<rparr>"
    | "foldE (\<lambda>sg. if sg_complete sg then complete_group n rd pd sg else incomplete_group n rd sg)
        (getSourceDataGroups cmp g n rd pd) st = Inr st'"
    by (auto simp: recreate_start_node_def bindE_eq_Inr Let_def split: if_splits)
  then show ?thesis
  proof cases
    case 1
    with assms(2) show ?thesis by (auto simp: main_entries_def has_main_entry)
  next
    case 2
    then show ?thesis
    proof (rule foldE_invariant [where I = main_entries])
      fix sg a b assume "main_entries a" "(if sg_complete sg then complete_group n rd pd sg else incomplete_group n rd sg) a = Inr b"
      then show "main_entries b" using complete_group_main incomplete_group_main by (auto split: if_splits)
    qed (rule assms(2))
  qed
qed

lemma recreated_main:
  assumes "recreateNodeExecutionStack cmp g starts rd pd = Inr r"
  shows "main_entries r"
proof -
  from assms have "foldE (recreate_start_node cmp g rd pd) starts \<lparr>rc_stack = [], rc_waiting = [], rc_waitingSource = []\<rparr> = Inr r"
    by (auto simp: recreateNodeExecutionStack_def bindE_eq_Inr)
  then show ?thesis
    by (rule foldE_invariant [where I = main_entries]) (use recreate_start_node_main in \<open>auto simp: main_entries_def\<close>)
qed

section \<open>Whole partial executions\<close>

definition partial_loop :: "engine \<Rightarrow> partial_target \<Rightarrow> pin_data \<Rightarrow> digraph \<times> run_data \<times> recreated \<Rightarrow> loop" where
  "partial_loop e target pinData plan = \<lparr>lp_engine = partial_engine e target pinData plan, lp_lastTry = None, lp_error = None\<rparr>"

text \<open>A partial execution fails before the loop, whatever the fuel, or it is a loop over the prepared state.\<close>

lemma runPartialWorkflow2_cases:
  "(\<exists>err. \<forall>fuel. runPartialWorkflow2 pv ev fuel e rd pd dirty dest req = Inl err)
   \<or> (\<exists>target trigger plan. partial_target pv (en_workflow e) dest req = Inr target
        \<and> partial_trigger pv (pt_workflow target) (fst (pt_destination target)) rd = Inr trigger
        \<and> partial_plan pv target trigger rd pd dirty = Inr plan
        \<and> (\<forall>fuel. runPartialWorkflow2 pv ev fuel e rd pd dirty dest req = Inr (run_loop ev fuel (partial_loop e target pd plan))))"
proof (cases "partial_target pv (en_workflow e) dest req")
  case (Inl err)
  then show ?thesis by (simp add: runPartialWorkflow2_def)
next
  case t: (Inr target)
  show ?thesis
  proof (cases "partial_trigger pv (pt_workflow target) (fst (pt_destination target)) rd")
    case (Inl err)
    with t show ?thesis by (simp add: runPartialWorkflow2_def)
  next
    case g: (Inr trigger)
    show ?thesis
    proof (cases "partial_plan pv target trigger rd pd dirty")
      case (Inl err)
      with t g show ?thesis by (simp add: runPartialWorkflow2_def)
    next
      case p: (Inr plan)
      let ?e = "partial_engine e target pd plan"
      have s: "?e\<lparr>en_status := StRunning\<rparr> = ?e" "handleWaitingState ?e = (?e, None)"
        by (simp_all add: partial_engine_def handleWaitingState_def split: prod.split)
      then have r: "runPartialWorkflow2 pv ev fuel e rd pd dirty dest req = (case checkForWorkflowIssues (pv_types pv) (pv_issues pv) ?e of
          Inl err \<Rightarrow> Inl err | Inr u \<Rightarrow> Inr (run_loop ev fuel (partial_loop e target pd plan)))" for fuel
        using t g p by (simp add: runPartialWorkflow2_def processRunExecutionData_def partial_loop_def bindE_def Let_def split: sum.split)
      show ?thesis
      proof (cases "checkForWorkflowIssues (pv_types pv) (pv_issues pv) ?e")
        case (Inl err)
        with r show ?thesis by simp
      next
        case (Inr u)
        with r t g p show ?thesis by (intro disjI2 exI [of _ target] exI [of _ trigger] exI [of _ plan]) simp
      qed
    qed
  qed
qed

lemma runPartialWorkflow2_loop:
  assumes "runPartialWorkflow2 pv ev fuel e rd pd dirty dest req = Inr r"
  obtains tg trigger plan where "partial_target pv (en_workflow e) dest req = Inr tg"
    "partial_trigger pv (pt_workflow tg) (fst (pt_destination tg)) rd = Inr trigger"
    "partial_plan pv tg trigger rd pd dirty = Inr plan" "r = run_loop ev fuel (partial_loop e tg pd plan)"
  using runPartialWorkflow2_cases [of pv ev e rd pd dirty dest req] assms that by force

lemma partial_plan_Inr:
  assumes "partial_plan pv tg trigger rd pd dirty = Inr (g, rd', rc)"
  shows "\<exists>filtered starts rd0. filterDisabledNodes (pt_graph tg) = Inr filtered \<and> findSubgraph filtered (pt_node tg) trigger = Inr g
    \<and> cleanRunData rd0 g starts = Inr rd'
    \<and> recreateNodeExecutionStack (pv_compare pv) g starts rd' pd = Inr rc"
  using assms by (auto simp: partial_plan_def bindE_eq_Inr)

lemma partial_run_leads:
  assumes "partial_plan pv tg trigger rd pd dirty = Inr (g, rd', rc)" "n \<in> set (node_list g)"
  shows "\<not> disabled n \<and> (n, pt_node tg) \<in> (edges (pt_graph tg))\<^sup>*"
proof -
  from partial_plan_Inr [OF assms(1)] obtain filtered starts where f: "filterDisabledNodes (pt_graph tg) = Inr filtered"
    and s: "findSubgraph filtered (pt_node tg) trigger = Inr g"
    and r: "recreateNodeExecutionStack (pv_compare pv) g starts rd' pd = Inr rc" by blast
  have "(n, pt_node tg) \<in> (edges filtered)\<^sup>*" using findSubgraph_leads [OF s] assms(2) by (simp add: leads_def)
  moreover have "(edges filtered)\<^sup>* \<subseteq> ((edges (pt_graph tg))\<^sup>+)\<^sup>*" by (rule rtrancl_mono [OF filterDisabledNodes_edges [OF f]])
  ultimately have "(n, pt_node tg) \<in> (edges (pt_graph tg))\<^sup>*" by (simp add: subset_iff)
  with recreated_enabled [OF r assms(2)] show ?thesis by simp
qed

text \<open>The prepared state fits the measure of the loop.\<close>

lemma partial_measured:
  assumes "en_v1 e" "names_ok (e\<lparr>en_workflow := pt_workflow tg\<rparr>)" "weighted w (e\<lparr>en_workflow := pt_workflow tg\<rparr>)"
    and "partial_plan pv tg trigger rd pd dirty = Inr plan"
  shows "measured w (partial_engine e tg pd plan)"
proof -
  obtain g rd' rc where plan: "plan = (g, rd', rc)" by (cases plan) auto
  from assms(4) partial_plan_Inr [of pv tg trigger rd pd dirty g rd' rc] have "main_entries rc"
    by (auto simp: plan intro: recreated_main)
  with assms(1-3) show ?thesis
    by (simp add: measured_def names_ok_def weighted_def output_connections_def stack_main_def main_entries_def partial_engine_def plan)
qed

text \<open>The workflow of the target has its nodes under their names.\<close>

lemma new_workflow_names:
  assumes "p \<in> set (wf_nodes (new_workflow types defaults ns cs pin static))"
  shows "n_name (snd p) = fst p"
proof -
  have "\<forall>p\<in>set (foldl (\<lambda>m node. mset_at (n_name node) node m) m ns). n_name (snd p) = fst p"
    if "\<forall>p\<in>set m. n_name (snd p) = fst p" for m :: "inode obj" and ns
    using that
  proof (induction ns arbitrary: m)
    case (Cons n ns)
    have "\<forall>p\<in>set (mset_at (n_name n) n m). n_name (snd p) = fst p"
      using Cons.prems by (induction m) (auto split: if_splits)
    with Cons.IH show ?case by simp
  qed simp
  from this [of "[]"] assms show ?thesis
    by (simp add: new_workflow_def setPinData_def setConnections_def setNodes_def)
qed

lemma partial_target_names:
  assumes "partial_target pv (en_workflow e) dest req = Inr tg" "names_ok e"
  shows "names_ok (e\<lparr>en_workflow := pt_workflow tg\<rparr>)"
proof -
  from assms(1) consider "pt_workflow tg = en_workflow e"
    | w g g' where "toWorkflow (pv_types pv) (pv_defaults pv) (en_workflow e) g = Inr (w, g')" "pt_workflow tg = w"
    by (auto simp: partial_target_def bindE_eq_Inr split: option.splits if_splits)
  then show ?thesis
  proof cases
    case 1
    with assms(2) show ?thesis by (simp add: names_ok_def)
  next
    case (2 w g g')
    from 2(1) have "\<exists>cs. new_workflow (pv_types pv) (pv_defaults pv) (node_list g) cs
        (wf_pinData (en_workflow e)) (wf_staticData (en_workflow e)) = w"
      by (cases "toIConnections g") (auto simp: toWorkflow_def)
    then have "n_name (snd p) = fst p" if "p \<in> set (wf_nodes w)" for p
      using that new_workflow_names [of p] by blast
    then show ?thesis by (simp add: names_ok_def 2(2))
  qed
qed

end
