(* ===== verification/Partial_Run_Properties.thy ===== *)
theory Partial_Run_Properties
  imports Engine_Properties Partial_Run
begin

text \<open>What holds for partial executions as a whole: the composition of the graph functions with the engine.\<close>

section \<open>Graphs and workflows\<close>

text \<open>
  C27: \<^verbatim>\<open>toWorkflow\<close> and \<^verbatim>\<open>fromWorkflow\<close> are inverse: \<^verbatim>\<open>toWorkflow\<close> fails exactly when
  a node has outgoing connections of two types (with a \<^verbatim>\<open>TypeError\<close>), and otherwise the graph read from
  the workflow is well-formed and has exactly the nodes and connections of the original.
\<close>

theorem toWorkflow_fromWorkflow:
  assumes "wf_graph g"
  shows "case toWorkflow types defaults w g of
      Inl err \<Rightarrow> err = TypeError ''outputIndex'' \<and> \<not> one_type (conns g)
    | Inr (w', g') \<Rightarrow> one_type (conns g) \<and> (\<exists>h. fromWorkflow w' = Inr h \<and> wf_graph h
        \<and> (\<forall>k. mget (dg_nodes h) k = mget (dg_nodes g') k) \<and> (\<forall>k. mget (dg_connections h) k = mget (dg_connections g') k))"
proof (cases "toWorkflow types defaults w g")
  case (Inl err)
  with toIConnections_cases [of g] show ?thesis by (auto simp: toWorkflow_def bindE_eq_Inl split: if_splits)
next
  case (Inr p)
  obtain w' g' where p: "p = (w', g')" by fastforce
  have "one_type (conns g)" using toIConnections_cases [of g] Inr by (auto simp: toWorkflow_def split: if_splits)
  with workflow_roundtrip [OF assms Inr [unfolded p]] Inr p show ?thesis by simp
qed

definition two_types_graph :: digraph where
  "two_types_graph = mk_graph [nodeT, nodeA, nodeB] [main_conn nodeT nodeA, (main_conn nodeT nodeB)\<lparr>gc_type := AiTool\<rparr>]"

theorem toWorkflow_fromWorkflow_witness:
  "\<not> one_type (conns two_types_graph) \<and>
   (case toWorkflow all_types (\<lambda>_ n. Some (n_parameters n)) diamond chain_graph of
      Inl err \<Rightarrow> False
    | Inr (w', g') \<Rightarrow> \<exists>h. fromWorkflow w' = Inr h \<and> mget (dg_connections h) ''A-main-0-0-D'' = Some (main_conn nodeA nodeD))"
proof
  have "wf_graph two_types_graph" by code_simp
  note t = toWorkflow_fromWorkflow [OF this, of all_types "\<lambda>_ n. Some (n_parameters n)" diamond]
  have "case toWorkflow all_types (\<lambda>_ n. Some (n_parameters n)) diamond two_types_graph of Inl err \<Rightarrow> True | Inr r \<Rightarrow> False" by code_simp
  with t show "\<not> one_type (conns two_types_graph)" by (auto split: sum.splits)
  let ?t = "toWorkflow all_types (\<lambda>_ n. Some (n_parameters n)) diamond chain_graph"
  have "case ?t of Inl err \<Rightarrow> False | Inr (w', g') \<Rightarrow> mget (dg_connections g') ''A-main-0-0-D'' = Some (main_conn nodeA nodeD)" by code_simp
  with toWorkflow_fromWorkflow [OF wf_chain_graph, of all_types "\<lambda>_ n. Some (n_parameters n)" diamond]
  show "case ?t of Inl err \<Rightarrow> False
    | Inr (w', g') \<Rightarrow> \<exists>h. fromWorkflow w' = Inr h \<and> mget (dg_connections h) ''A-main-0-0-D'' = Some (main_conn nodeA nodeD)"
    by (auto split: sum.splits)
qed

section \<open>The trigger\<close>

text \<open>
  C28: \<^verbatim>\<open>findTriggerForPartialExecution\<close> returns the destination if it is an enabled trigger itself;
  else a trigger of least rank among the enabled triggers above it, and none exactly when there is none. A trigger with run data
  ranks before one with pinned data, that before the others, and webhooks before the rest of their class.
\<close>

theorem findTriggerForPartialExecution_best:
  assumes "findTriggerForPartialExecution types w nm runData = Inr r" "getNode w nm = Some d"
  shows "if trigger_of types d \<and> \<not> disabled d then r = Some d
    else case r of
      None \<Rightarrow> parent_triggers types w nm = []
    | Some t \<Rightarrow> t \<in> set (parent_triggers types w nm)
        \<and> (\<forall>t'\<in>set (parent_triggers types w nm). trigger_rank w runData t \<le> trigger_rank w runData t')"
proof (cases "trigger_of types d \<and> \<not> disabled d")
  case True
  with assms show ?thesis
    by (auto simp: findTriggerForPartialExecution_def typed_node_def trigger_of_def bindE_eq_Inr split: option.splits)
next
  case False
  from findTrigger_Inr [OF assms False] have "r = select_trigger w runData (parent_triggers types w nm)" .
  with False select_trigger_Some [of w runData "parent_triggers types w nm"]
    select_trigger_None [of w runData "parent_triggers types w nm"]
  show ?thesis by (auto split: option.split)
qed

definition partial_types :: node_types where
  "partial_types = (\<lambda>ty _. Some \<lparr>nt_name = ty, nt_group = [ty], nt_trigger = False, nt_poll = False,
     nt_outputs = Some (OutputList [OutputName Main])\<rparr>)"

theorem findTriggerForPartialExecution_best_witness:
  "case findTriggerForPartialExecution partial_types diamond ''C'' [] of
     Inr (Some t) \<Rightarrow> t \<in> set (parent_triggers partial_types diamond ''C'') | _ \<Rightarrow> False"
proof -
  let ?f = "findTriggerForPartialExecution partial_types diamond ''C'' []"
  have "case ?f of Inr (Some t) \<Rightarrow> True | _ \<Rightarrow> False" by code_simp
  then obtain t where t: "?f = Inr (Some t)" by (auto split: sum.splits option.splits)
  have c: "getNode diamond ''C'' = Some nodeC" "\<not> trigger_of partial_types nodeC" by code_simp+
  from findTriggerForPartialExecution_best [OF t c(1)] c(2) t show ?thesis by simp
qed

section \<open>Partial executions\<close>

definition sample_partial :: partial_env where
  "sample_partial = \<lparr>pv_types = partial_types, pv_defaults = (\<lambda>_ n. Some (n_parameters n)), pv_stringify = (\<lambda>_. ''{}''),
     pv_ref = 99, pv_compare = compare_names, pv_issues = no_issues\<rparr>"

text \<open>
  C3: a partial execution runs only enabled nodes from which the destination (of a tool: the virtual executor) can be
  reached, whatever the workflow, the run data, the pinned data and the dirty nodes are.
\<close>

theorem runPartialWorkflow2_only_ancestors:
  assumes "runPartialWorkflow2 pv ev fuel e rd pd dirty dest req = Inr (Some r)"
    and "en_log e = []" "h \<in> set (en_log (rr_engine r))"
  shows "\<exists>tg n. partial_target pv (en_workflow e) dest req = Inr tg \<and> n_name n = hook_node h \<and> \<not> disabled n
    \<and> (n, pt_node tg) \<in> (edges (pt_graph tg))\<^sup>*"
proof (rule runPartialWorkflow2_loop [OF assms(1)])
  fix tg trigger plan
  assume tg: "partial_target pv (en_workflow e) dest req = Inr tg"
    and p: "partial_plan pv tg trigger rd pd dirty = Inr plan" and r: "Some r = run_loop ev fuel (partial_loop e tg pd plan)"
  obtain g rd' rc where plan: "plan = (g, rd', rc)" by (cases plan) auto
  let ?f = "map n_name (map snd (getNodes g))"
  have "filtered_log ?f (lp_engine (partial_loop e tg pd plan))"
    using assms(2) by (simp add: filtered_log_def partial_loop_def partial_engine_def plan)
  with only_filter.run_I [OF r [symmetric], of ?f] obtain lp where "filtered_log ?f (lp_engine lp)"
    "r = end_loop lp \<or> (\<exists>err. r = processFailure err (lp_engine lp))" by auto
  with assms(3) have "hook_node h \<in> set ?f" by (auto simp: filtered_log_def)
  then have "hook_node h \<in> n_name ` set (node_list g)" by (simp add: getNodes_def node_list_def image_image)
  then obtain n where n: "n \<in> set (node_list g)" "n_name n = hook_node h" by (metis imageE)
  from partial_run_leads [OF p [unfolded plan] n(1)] n(2) tg show ?thesis by blast
qed

theorem runPartialWorkflow2_only_ancestors_witness:
  "case runPartialWorkflow2 sample_partial (sample_env pass_code) 20 diamond_engine [] [] [] (''A'', True) None of
     Inr (Some r) \<Rightarrow> (\<exists>tg n. partial_target sample_partial diamond (''A'', True) None = Inr tg
       \<and> n_name n = hook_node (hd (en_log (rr_engine r))) \<and> (n, nodeA) \<in> (edges (pt_graph tg))\<^sup>*)
   | _ \<Rightarrow> False"
proof -
  let ?r = "runPartialWorkflow2 sample_partial (sample_env pass_code) 20 diamond_engine [] [] [] (''A'', True) None"
  have "case ?r of Inr (Some r) \<Rightarrow> en_log (rr_engine r) \<noteq> [] | _ \<Rightarrow> False" by code_simp
  then obtain r where r: "?r = Inr (Some r)" "en_log (rr_engine r) \<noteq> []" by (auto split: sum.splits option.splits)
  have t: "case partial_target sample_partial diamond (''A'', True) None of Inr tg \<Rightarrow> pt_node tg = nodeA | Inl err \<Rightarrow> False" by code_simp
  have "en_log diamond_engine = []" "en_workflow diamond_engine = diamond" by (code_simp, simp add: diamond_engine_def new_engine_def)
  from runPartialWorkflow2_only_ancestors [OF r(1) this(1) hd_in_set [OF r(2)]] this(2) r(1) t show ?thesis by auto
qed

text \<open>
  C4: partial executions end: in the order \<^verbatim>\<open>v1\<close>, when the main connections of the target's workflow have no
  cycle and node code asks for no other nodes, some number of iterations is enough, whatever the node code
  returns or throws and whatever the run data, the pinned data and the dirty nodes are.
\<close>

theorem runPartialWorkflow2_terminates:
  assumes "en_v1 e" "names_ok e" "\<not> asks ev"
    and "\<And>tg. partial_target pv (en_workflow e) dest req = Inr tg \<Longrightarrow> acyclic (follow (wf_bySource (pt_workflow tg)) (OfType Main))"
  shows "\<exists>fuel. runPartialWorkflow2 pv ev fuel e rd pd dirty dest req \<noteq> Inr None"
  using runPartialWorkflow2_cases [of pv ev e rd pd dirty dest req]
proof (elim disjE exE conjE)
  fix tg trigger plan
  assume tg: "partial_target pv (en_workflow e) dest req = Inr tg" and p: "partial_plan pv tg trigger rd pd dirty = Inr plan"
    and r: "\<forall>fuel. runPartialWorkflow2 pv ev fuel e rd pd dirty dest req = Inr (run_loop ev fuel (partial_loop e tg pd plan))"
  have "acyclic (follow (wf_bySource (en_workflow (e\<lparr>en_workflow := pt_workflow tg\<rparr>))) (OfType Main))" using assms(4) [OF tg] by simp
  from weights_exist [OF this] obtain w where "weighted w (e\<lparr>en_workflow := pt_workflow tg\<rparr>)" by blast
  from partial_measured [OF assms(1) partial_target_names [OF tg assms(2)] this p]
  have "measured w (lp_engine (partial_loop e tg pd plan))" by (simp add: partial_loop_def)
  from run_loop_ends [OF this assms(3) order_refl] r show ?thesis by auto
qed auto

theorem runPartialWorkflow2_terminates_witness:
  "\<exists>fuel. runPartialWorkflow2 sample_partial (sample_env pass_code) fuel diamond_engine [] [] [] (''C'', True) None \<noteq> Inr None"
proof (rule runPartialWorkflow2_terminates)
  show "en_v1 diamond_engine" by code_simp
  have "list_all (\<lambda>p. n_name (snd p) = fst p) (wf_nodes (en_workflow diamond_engine))" by code_simp
  then show "names_ok diamond_engine" by (simp add: names_ok_def list_all_iff)
  show "\<not> asks (sample_env pass_code)" by (simp add: asks_def sample_env_def pass_code_def)
  fix tg assume "partial_target sample_partial (en_workflow diamond_engine) (''C'', True) None = Inr tg"
  moreover have "case partial_target sample_partial (en_workflow diamond_engine) (''C'', True) None of
      Inr tg \<Rightarrow> pt_workflow tg = en_workflow diamond_engine | Inl err \<Rightarrow> False" by code_simp
  ultimately show "acyclic (follow (wf_bySource (pt_workflow tg)) (OfType Main))" using acyclic_source_diamond by simp
qed

text \<open>
  a disabled node on the way stops a partial execution: in \<open>T -> A -> D -> B\<close> with \<open>D\<close> disabled, the subgraph connects
  \<open>A\<close> with \<open>B\<close>, but the engine follows the original connections and skips \<open>D\<close>, which is not in the
  filter, without passing its data on. The destination \<open>B\<close> is not run, and the execution counts as successful; a full
  execution with the same destination runs \<open>B\<close>.
\<close>

definition disabled_engine :: engine where
  "disabled_engine = new_engine True (engine_workflow [nodeT, nodeA, nodeD, nodeB]
     [(''T'', [(Main, [Some [into ''A'' 0]])]), (''A'', [(Main, [Some [into ''D'' 0]])]), (''D'', [(Main, [Some [into ''B'' 0]])])])"

definition names_run :: "run_result option res \<Rightarrow> (string list \<times> bool) option" where
  "names_run r = (case r of Inr (Some r) \<Rightarrow> Some (mk_set (map hook_node (en_log (rr_engine r))), rr_finished r) | _ \<Rightarrow> None)"

theorem partial_run_stops_at_disabled:
  "names_run (runPartialWorkflow2 sample_partial (sample_env pass_code) 20 disabled_engine [] [] [] (''B'', True) None)
     = Some ([''T'', ''A''], True)
   \<and> names_run (run partial_types no_issues (sample_env pass_code) 20 disabled_engine (Some nodeT) (Some (''B'', True)) None None None)
     = Some ([''T'', ''A'', ''D'', ''B''], True)"
  by code_simp

end
