(* ===== verification/Concurrency_Control.thy ===== *)
theory Concurrency_Control
  imports N8n_Prelude
begin

text \<open>
  The limits on concurrent executions: \<^verbatim>\<open>ConcurrencyQueue\<close> and
  \<^verbatim>\<open>ConcurrencyControlService\<close> of \<^verbatim>\<open>packages/cli/src/concurrency\<close>, and the evaluation limit of
  \<^verbatim>\<open>evaluation-concurrency.helper.ts\<close>. An execution that is enqueued waits for a promise; a
  resolved promise is the identifier of the execution that starts. Logging and telemetry are left out.
\<close>

section \<open>One queue\<close>

record cqueue =
  cq_capacity :: int
  cq_items :: "string list"

text \<open>The second component tells whether the execution has to wait.\<close>

definition cq_enqueue :: "string \<Rightarrow> cqueue \<Rightarrow> cqueue \<times> bool" where
  "cq_enqueue executionId q =
     (let q = q\<lparr>cq_capacity := cq_capacity q - 1\<rparr> in
      if cq_capacity q < 0 then (q\<lparr>cq_items := cq_items q @ [executionId]\<rparr>, True) else (q, False))"

definition cq_resolveNext :: "cqueue \<Rightarrow> cqueue \<times> string option" where
  "cq_resolveNext q = (case cq_items q of [] \<Rightarrow> (q, None) | item # rest \<Rightarrow> (q\<lparr>cq_items := rest\<rparr>, Some item))"

definition cq_dequeue :: "cqueue \<Rightarrow> cqueue \<times> string option" where
  "cq_dequeue q = cq_resolveNext (q\<lparr>cq_capacity := cq_capacity q + 1\<rparr>)"

definition cq_remove :: "string \<Rightarrow> cqueue \<Rightarrow> cqueue \<times> string option" where
  "cq_remove executionId q =
     (if executionId \<in> set (cq_items q)
      then cq_resolveNext (q\<lparr>cq_items := remove1 executionId (cq_items q), cq_capacity := cq_capacity q + 1\<rparr>)
      else (q, None))"

definition cq_getAll :: "cqueue \<Rightarrow> string list" where
  "cq_getAll q = mk_set (cq_items q)"

definition cq_has :: "string \<Rightarrow> cqueue \<Rightarrow> bool" where
  "cq_has executionId q = (executionId \<in> set (cq_items q))"

section \<open>The service\<close>

datatype concurrency_queue = Production | Evaluation

text \<open>
  The configuration: whether executions go to workers, the two limits, whether the environment variable is
  set, the quota of the license when it is a number, and the plan.
\<close>

record concurrency_config =
  cfg_queueMode :: bool
  cfg_productionLimit :: int
  cfg_evaluationLimit :: int
  cfg_envSet :: bool
  cfg_quota :: "int option"
  cfg_plan :: string

definition EVALUATION_TIER_DEFAULTS :: "int obj" where
  "EVALUATION_TIER_DEFAULTS = [(''Community'', 1), (''Pro'', 1), (''Business'', 3), (''Enterprise'', 5)]"

definition readLicenseQuota :: "concurrency_config \<Rightarrow> int option" where
  "readLicenseQuota cfg = (case cfg_quota cfg of None \<Rightarrow> None | Some raw \<Rightarrow> if raw = 0 then None else Some raw)"

definition resolveEvaluationConcurrencyLimit :: "concurrency_config \<Rightarrow> int" where
  "resolveEvaluationConcurrencyLimit cfg =
     (if cfg_envSet cfg then cfg_evaluationLimit cfg
      else case readLicenseQuota cfg of
        Some fromLicense \<Rightarrow> fromLicense
      | None \<Rightarrow> (case mget EVALUATION_TIER_DEFAULTS (cfg_plan cfg) of Some l \<Rightarrow> l | None \<Rightarrow> 1))"

text \<open>The queues are \<^verbatim>\<open>undefined\<close> when executions go to workers.\<close>

record control =
  cc_isEnabled :: bool
  cc_limits :: "(concurrency_queue, int) jsmap"
  cc_queues :: "(concurrency_queue, cqueue) jsmap option"
  cc_evalQueueResolved :: bool

definition normaliseLimit :: "int \<Rightarrow> int res" where
  "normaliseLimit limit =
     (if limit = 0 then Inl (UserError ''Concurrency limit set to invalid value'')
      else Inr (if limit < - 1 then - 1 else limit))"

definition new_control :: "concurrency_config \<Rightarrow> control res" where
  "new_control cfg =
     bindE (normaliseLimit (cfg_productionLimit cfg)) (\<lambda>normalisedProduction.
     bindE (normaliseLimit (cfg_evaluationLimit cfg)) (\<lambda>normalisedEvaluation.
       let limits = [(Production, normalisedProduction), (Evaluation, normalisedEvaluation)] in
       if cfg_queueMode cfg then
         Inr \<lparr>cc_isEnabled = False, cc_limits = limits, cc_queues = None, cc_evalQueueResolved = False\<rparr>
       else
         let queues = (if normalisedProduction > 0
               then [(Production, \<lparr>cq_capacity = normalisedProduction, cq_items = []\<rparr>)] else []);
             queues = (if normalisedEvaluation > 0
               then mset_at Evaluation \<lparr>cq_capacity = normalisedEvaluation, cq_items = []\<rparr> queues else queues)
         in Inr \<lparr>cc_isEnabled = (queues \<noteq> []), cc_limits = limits, cc_queues = Some queues,
              cc_evalQueueResolved = (normalisedEvaluation > 0)\<rparr>))"

text \<open>An invalid limit is thrown after the queue has been marked as resolved.\<close>

definition ensureEvalQueueResolved :: "concurrency_config \<Rightarrow> control \<Rightarrow> control \<times> js_error option" where
  "ensureEvalQueueResolved cfg c =
     (if cc_evalQueueResolved c then (c, None)
      else
        let c = c\<lparr>cc_evalQueueResolved := True\<rparr> in
        if cfg_queueMode cfg then (c, None)
        else case normaliseLimit (resolveEvaluationConcurrencyLimit cfg) of
          Inl err \<Rightarrow> (c, Some err)
        | Inr normalised \<Rightarrow>
            let c = c\<lparr>cc_limits := mset_at Evaluation normalised (cc_limits c)\<rparr> in
            if normalised > 0
            then (c\<lparr>cc_queues := map_option (mset_at Evaluation \<lparr>cq_capacity = normalised, cq_items = []\<rparr>) (cc_queues c),
                    cc_isEnabled := True\<rparr>, None)
            else (c, None))"

text \<open>The queue of a mode: \<open>None\<close> for the modes without a limit.\<close>

definition queue_type :: "string \<Rightarrow> concurrency_queue option res" where
  "queue_type mode =
     (if mode \<in> set [''error'', ''integrated'', ''cli'', ''internal'', ''manual'', ''retry''] then Inr None
      else if mode \<in> set [''webhook'', ''trigger'', ''chat''] then Inr (Some Production)
      else if mode = ''evaluation'' then Inr (Some Evaluation)
      else Inl (UnexpectedError ''Unknown execution mode''))"

definition getQueue :: "string \<Rightarrow> control \<Rightarrow> (concurrency_queue \<times> cqueue) option res" where
  "getQueue mode c = bindE (queue_type mode) (\<lambda>type. case type of
     None \<Rightarrow> Inr None
   | Some t \<Rightarrow> (case cc_queues c of
       None \<Rightarrow> Inl (TypeError ''get'')
     | Some queues \<Rightarrow> Inr (map_option (Pair t) (mget queues t))))"

definition put_queue :: "concurrency_queue \<Rightarrow> cqueue \<Rightarrow> control \<Rightarrow> control" where
  "put_queue t q c = c\<lparr>cc_queues := map_option (mset_at t q) (cc_queues c)\<rparr>"

text \<open>
  \<^verbatim>\<open>throttle\<close>, \<^verbatim>\<open>release\<close> and \<^verbatim>\<open>remove\<close> share their guards; \<open>none\<close> is
  the answer when nothing is limited.
\<close>

definition with_queue :: "concurrency_config \<Rightarrow> string \<Rightarrow> control \<Rightarrow> 'a \<Rightarrow> (cqueue \<Rightarrow> cqueue \<times> 'a) \<Rightarrow> control \<times> 'a res" where
  "with_queue cfg mode c none f =
     (case (if mode = ''evaluation'' then ensureEvalQueueResolved cfg c else (c, None)) of
        (c, Some err) \<Rightarrow> (c, Inl err)
      | (c, None) \<Rightarrow>
          if \<not> cc_isEnabled c then (c, Inr none)
          else case getQueue mode c of
            Inl err \<Rightarrow> (c, Inl err)
          | Inr None \<Rightarrow> (c, Inr none)
          | Inr (Some (t, q)) \<Rightarrow> (case f q of (q', r) \<Rightarrow> (put_queue t q' c, Inr r)))"

definition throttle :: "concurrency_config \<Rightarrow> string \<Rightarrow> string \<Rightarrow> control \<Rightarrow> control \<times> bool res" where
  "throttle cfg mode executionId c = with_queue cfg mode c False (cq_enqueue executionId)"

definition release_capacity :: "concurrency_config \<Rightarrow> string \<Rightarrow> control \<Rightarrow> control \<times> string option res" where
  "release_capacity cfg mode c = with_queue cfg mode c None cq_dequeue"

definition remove_queued :: "concurrency_config \<Rightarrow> string \<Rightarrow> string \<Rightarrow> control \<Rightarrow> control \<times> string option res" where
  "remove_queued cfg mode executionId c = with_queue cfg mode c None (cq_remove executionId)"

definition has_queued :: "string \<Rightarrow> control \<Rightarrow> bool" where
  "has_queued executionId c = (if \<not> cc_isEnabled c then False
     else list_ex (\<lambda>p. cq_has executionId (snd p)) (case_option [] id (cc_queues c)))"

text \<open>
  \<^verbatim>\<open>removeAll\<close> empties every queue; it returns the executions whose promises are resolved on the way, and
  those that are cancelled in the database.
\<close>

definition drain_queue :: "cqueue \<Rightarrow> cqueue \<times> string list" where
  "drain_queue q = foldl (\<lambda>(q, started) executionId. case cq_remove executionId q of
      (q, next) \<Rightarrow> (q, started @ case_option [] (\<lambda>x. [x]) next)) (q, []) (cq_getAll q)"

definition removeAll_queued :: "string list \<Rightarrow> control \<Rightarrow> control \<times> (concurrency_queue \<times> string) list \<times> string list" where
  "removeAll_queued executionIdsToCancel c =
     (if \<not> cc_isEnabled c then (c, [], [])
      else
        let drained = map (\<lambda>(t, q). (t, drain_queue q)) (case_option [] id (cc_queues c))
        in (c\<lparr>cc_queues := map_option (\<lambda>_. map (\<lambda>(t, q, _). (t, q)) drained) (cc_queues c)\<rparr>,
            concat (map (\<lambda>(t, _, started). map (Pair t) started) drained), executionIdsToCancel))"

definition disable_control :: "control \<Rightarrow> control" where
  "disable_control c = c\<lparr>cc_isEnabled := False\<rparr>"

section \<open>A queue as a semaphore\<close>

text \<open>
  With \<open>limit\<close> slots and \<open>n\<close> executions that hold one, the capacity counts the free slots less the waiting
  executions; an execution only waits when all slots are taken. Each removal of a waiting execution may have let another one
  go on without a slot: there may be \<open>x\<close> more than the limit.
\<close>

definition semaphore :: "nat \<Rightarrow> int \<Rightarrow> nat \<Rightarrow> cqueue \<Rightarrow> bool" where
  "semaphore x limit n q \<longleftrightarrow> 0 < limit \<and> int n \<le> limit + int x \<and> cq_capacity q = limit - int n - int (length (cq_items q))
     \<and> (cq_items q \<noteq> [] \<longrightarrow> limit \<le> int n)"

lemma semaphore_new: "0 < limit \<Longrightarrow> semaphore x limit 0 \<lparr>cq_capacity = limit, cq_items = []\<rparr>"
  by (simp add: semaphore_def)

lemma semaphore_enqueue:
  assumes "semaphore x limit n q" "cq_enqueue executionId q = (q', waits)"
  shows "semaphore x limit (if waits then n else Suc n) q' \<and> (waits \<longleftrightarrow> limit \<le> int n)
    \<and> cq_items q' = cq_items q @ (if waits then [executionId] else [])"
  using assms by (auto simp: semaphore_def cq_enqueue_def Let_def split: if_splits)

lemma semaphore_dequeue:
  assumes "semaphore x limit (Suc n) q" "cq_dequeue q = (q', next)"
  shows "semaphore x limit (case next of None \<Rightarrow> n | Some _ \<Rightarrow> Suc n) q'
    \<and> cq_items q = case_option [] (\<lambda>x. [x]) next @ cq_items q'"
  using assms by (auto simp: semaphore_def cq_dequeue_def cq_resolveNext_def split: list.splits)

text \<open>Removing a waiting execution keeps the count but starts another one without a free slot.\<close>

lemma semaphore_remove:
  assumes "semaphore x limit n q" "cq_remove executionId q = (q', next)"
  shows "semaphore (Suc x) limit (case next of None \<Rightarrow> n | Some _ \<Rightarrow> Suc n) q'
    \<and> remove1 executionId (cq_items q) = case_option [] (\<lambda>x. [x]) next @ cq_items q'"
proof (cases "executionId \<in> set (cq_items q)")
  case True
  then have len: "length (cq_items q) = Suc (length (remove1 executionId (cq_items q)))" "cq_items q \<noteq> []"
    using length_pos_if_in_set [OF True] by (auto simp: length_remove1)
  show ?thesis
  proof (cases "remove1 executionId (cq_items q)")
    case Nil
    with assms True len show ?thesis by (auto simp: semaphore_def cq_remove_def cq_resolveNext_def)
  next
    case (Cons b rest)
    with assms True len show ?thesis by (auto simp: semaphore_def cq_remove_def cq_resolveNext_def)
  qed
next
  case False
  with assms show ?thesis by (auto simp: semaphore_def cq_remove_def remove1_idem)
qed

lemma remove_starts_without_slot:
  assumes "semaphore x limit n q" "executionId \<in> set (cq_items q)" "1 < length (cq_items q)"
  shows "\<exists>q' j. cq_remove executionId q = (q', Some j) \<and> remove1 executionId (cq_items q) = j # cq_items q' \<and> limit \<le> int n"
proof -
  have "length (remove1 executionId (cq_items q)) \<noteq> 0" using assms(2,3) by (simp add: length_remove1)
  then obtain j rest where "remove1 executionId (cq_items q) = j # rest" by (cases "remove1 executionId (cq_items q)") auto
  moreover have "limit \<le> int n" using assms by (auto simp: semaphore_def)
  ultimately show ?thesis using assms(2) by (simp add: cq_remove_def cq_resolveNext_def)
qed

section \<open>The service as semaphores\<close>

definition queue_of :: "control \<Rightarrow> concurrency_queue \<Rightarrow> cqueue option" where
  "queue_of c t = Option.bind (cc_queues c) (\<lambda>queues. mget queues t)"

definition items_of :: "control \<Rightarrow> concurrency_queue \<Rightarrow> string list" where
  "items_of c t = case_option [] cq_items (queue_of c t)"

text \<open>
  When \<open>h t\<close> executions hold a slot of the queue \<open>t\<close>, every queue is a semaphore for its limit. As long as the evaluation limit
  is not resolved there is no evaluation queue and no evaluation execution.
\<close>

definition capacity_ok :: "nat \<Rightarrow> concurrency_config \<Rightarrow> (concurrency_queue \<Rightarrow> nat) \<Rightarrow> control \<Rightarrow> bool" where
  "capacity_ok x cfg h c \<longleftrightarrow>
     (\<forall>t q. queue_of c t = Some q \<longrightarrow> cc_isEnabled c \<and> (\<exists>limit. mget (cc_limits c) t = Some limit \<and> semaphore x limit (h t) q))
     \<and> (\<not> cc_evalQueueResolved c \<longrightarrow> queue_of c Evaluation = None \<and> h Evaluation = 0)
     \<and> (cc_queues c = None \<longleftrightarrow> cfg_queueMode cfg) \<and> (cfg_queueMode cfg \<longrightarrow> \<not> cc_isEnabled c)
     \<and> cfg_evaluationLimit cfg \<noteq> 0"

lemma queue_of_put: "queue_of (put_queue t q c) t' = (if t' = t \<and> cc_queues c \<noteq> None then Some q else queue_of c t')"
  by (cases "cc_queues c") (auto simp: queue_of_def put_queue_def)

lemma put_queue_sel [simp]:
  "cc_isEnabled (put_queue t q c) = cc_isEnabled c" "cc_limits (put_queue t q c) = cc_limits c"
  "cc_evalQueueResolved (put_queue t q c) = cc_evalQueueResolved c" "cc_queues (put_queue t q c) = None \<longleftrightarrow> cc_queues c = None"
  by (simp_all add: put_queue_def)

lemma new_control_ok:
  assumes "new_control cfg = Inr c"
  shows "capacity_ok x cfg (\<lambda>_. 0) c \<and> items_of c t = []"
proof -
  from assms obtain p e where l: "normaliseLimit (cfg_productionLimit cfg) = Inr p" "normaliseLimit (cfg_evaluationLimit cfg) = Inr e"
    by (auto simp: new_control_def bindE_eq_Inr)
  then have e0: "cfg_evaluationLimit cfg \<noteq> 0" by (auto simp: normaliseLimit_def)
  show ?thesis
  proof (cases "cfg_queueMode cfg")
    case True
    with assms l have "c = \<lparr>cc_isEnabled = False, cc_limits = [(Production, p), (Evaluation, e)], cc_queues = None, cc_evalQueueResolved = False\<rparr>"
      by (simp add: new_control_def)
    with True e0 show ?thesis by (simp add: capacity_ok_def queue_of_def items_of_def)
  next
    case False
    with assms l e0 show ?thesis
      by (auto simp: new_control_def Let_def capacity_ok_def queue_of_def items_of_def semaphore_new split: if_splits)
  qed
qed

lemma resolved_limit_nonzero: "cfg_evaluationLimit cfg \<noteq> 0 \<Longrightarrow> resolveEvaluationConcurrencyLimit cfg \<noteq> 0"
  by (auto simp: resolveEvaluationConcurrencyLimit_def readLicenseQuota_def EVALUATION_TIER_DEFAULTS_def split: option.splits if_splits)

lemma ensureEval_ok:
  assumes "capacity_ok x cfg h c" "ensureEvalQueueResolved cfg c = (c', err)"
  shows "capacity_ok x cfg h c' \<and> cc_evalQueueResolved c' \<and> items_of c' = items_of c \<and> err = None"
proof (cases "cc_evalQueueResolved c \<or> cfg_queueMode cfg")
  case True
  with assms show ?thesis by (auto simp: ensureEvalQueueResolved_def capacity_ok_def queue_of_def items_of_def split: if_splits)
next
  case False
  with assms(1) obtain queues where q: "cc_queues c = Some queues" "queue_of c Evaluation = None" "h Evaluation = 0"
    by (auto simp: capacity_ok_def)
  show ?thesis
  proof (cases "normaliseLimit (resolveEvaluationConcurrencyLimit cfg)")
    case (Inl e)
    with assms(1) resolved_limit_nonzero [of cfg] show ?thesis by (simp add: normaliseLimit_def capacity_ok_def split: if_splits)
  next
    case (Inr l)
    have other: "queue_of c Production = Some qq \<Longrightarrow> cc_isEnabled c
        \<and> (\<exists>limit. mget (cc_limits c) Production = Some limit \<and> semaphore x limit (h Production) qq)" for qq
      using assms(1) by (auto simp: capacity_ok_def)
    have c': "c' = (if l > 0
        then c\<lparr>cc_evalQueueResolved := True, cc_limits := mset_at Evaluation l (cc_limits c),
          cc_queues := Some (mset_at Evaluation \<lparr>cq_capacity = l, cq_items = []\<rparr> queues), cc_isEnabled := True\<rparr>
        else c\<lparr>cc_evalQueueResolved := True, cc_limits := mset_at Evaluation l (cc_limits c)\<rparr>)"
      using False Inr assms(2) q(1) by (auto simp: ensureEvalQueueResolved_def Let_def)
    have "cc_isEnabled c' \<and> (\<exists>limit. mget (cc_limits c') t = Some limit \<and> semaphore x limit (h t) qq)"
      if "queue_of c' t = Some qq" for t qq
    proof (cases t)
      case Production
      with that other [of qq] show ?thesis unfolding c' by (auto simp: queue_of_def q(1) split: if_splits)
    next
      case Evaluation
      with that q show ?thesis unfolding c' by (auto simp: queue_of_def semaphore_new split: if_splits)
    qed
    moreover have "items_of c' t = items_of c t" for t
      using q(2) by (cases t) (simp_all add: items_of_def c' queue_of_def q(1))
    moreover have "err = None" "cfg_evaluationLimit cfg \<noteq> 0"
      using False Inr assms by (auto simp: ensureEvalQueueResolved_def Let_def capacity_ok_def split: if_splits)
    ultimately show ?thesis using False q(1) by (simp add: capacity_ok_def fun_eq_iff) (simp add: c')
  qed
qed

lemma queue_type_evaluation: "queue_type mode = Inr (Some Evaluation) \<Longrightarrow> mode = ''evaluation''"
  by (simp add: queue_type_def split: if_splits)

text \<open>The guards the operations share: nothing is limited, or there is a queue and it is operated on.\<close>

lemma with_queue_cases:
  assumes ok: "capacity_ok x cfg h c" and w: "with_queue cfg mode c none f = (c', r)"
  obtains (unlimited) "capacity_ok x cfg h c'" "items_of c' = items_of c" "r = Inr none"
      "\<And>t. queue_type mode = Inr (Some t) \<Longrightarrow> queue_of c' t = None \<and> (t = Evaluation \<longrightarrow> cc_evalQueueResolved c')"
    | (queued) c1 t q q' y where "capacity_ok x cfg h c1" "items_of c1 = items_of c" "queue_type mode = Inr (Some t)"
      "queue_of c1 t = Some q" "f q = (q', y)" "r = Inr y" "c' = put_queue t q' c1"
    | (failed) err where "capacity_ok x cfg h c'" "items_of c' = items_of c" "r = Inl err" "\<And>t. queue_type mode \<noteq> Inr (Some t)"
proof -
  define p where "p = (if mode = ''evaluation'' then ensureEvalQueueResolved cfg c else (c, None))"
  obtain c1 e where p1: "p = (c1, e)" by fastforce
  have c1: "capacity_ok x cfg h c1" "items_of c1 = items_of c" "mode = ''evaluation'' \<longrightarrow> cc_evalQueueResolved c1" and e: "e = None"
    using ensureEval_ok [OF ok, of c1 e] ok p1 by (auto simp: p_def split: if_splits)
  have res: "cc_evalQueueResolved c1" if "queue_type mode = Inr (Some Evaluation)"
    using c1(3) queue_type_evaluation [OF that] by simp
  have none: "queue_of c1 t = None" if "\<not> cc_isEnabled c1" for t
    using c1(1) that by (cases "queue_of c1 t") (auto simp: capacity_ok_def)
  show ?thesis
    proof (cases "cc_isEnabled c1")
      case False
      with w p1 e have "c' = c1" "r = Inr none" unfolding with_queue_def p_def [symmetric] by simp_all
      with c1 none [OF False] res show ?thesis by (intro unlimited) auto
    next
      case en: True
      show ?thesis
      proof (cases "getQueue mode c1")
        case (Inl err)
        with w p1 e en have "c' = c1" "r = Inl err" unfolding with_queue_def p_def [symmetric] by simp_all
        moreover have "cc_queues c1 \<noteq> None" using c1(1) en by (auto simp: capacity_ok_def)
        with Inl have "queue_type mode \<noteq> Inr (Some t)" for t by (auto simp: getQueue_def split: option.splits)
        ultimately show ?thesis using c1 by (intro failed) simp_all
      next
        case (Inr g)
        show ?thesis
        proof (cases g)
          case None
          with Inr w p1 e en have r: "c' = c1" "r = Inr none" unfolding with_queue_def p_def [symmetric] by simp_all
          have "queue_of c1 t = None" if "queue_type mode = Inr (Some t)" for t
            using Inr None that by (auto simp: getQueue_def queue_of_def split: option.splits)
          with r c1 res show ?thesis by (intro unlimited) auto
        next
          case (Some tq)
          obtain t q where tq: "tq = (t, q)" by fastforce
          from Inr Some tq have q: "queue_type mode = Inr (Some t)" "queue_of c1 t = Some q"
            by (auto simp: getQueue_def bindE_eq_Inr queue_of_def split: option.splits)
          obtain q' y where f: "f q = (q', y)" by fastforce
          from Inr Some tq w p1 e en f have "c' = put_queue t q' c1" "r = Inr y" unfolding with_queue_def p_def [symmetric] by simp_all
          with q f c1 show ?thesis by (intro queued [of c1 t q q' y]) simp_all
        qed
      qed
    qed
qed

lemma semaphore_mono: "semaphore x limit n q \<Longrightarrow> x \<le> y \<Longrightarrow> semaphore y limit n q"
  by (simp add: semaphore_def)

lemma capacity_ok_mono: "capacity_ok x cfg h c \<Longrightarrow> x \<le> y \<Longrightarrow> capacity_ok y cfg h c"
  unfolding capacity_ok_def using semaphore_mono by blast

lemma capacity_ok_put_more:
  assumes ok: "capacity_ok x cfg h c" and q: "queue_of c t = Some q"
    and s: "\<And>limit. semaphore x limit (h t) q \<Longrightarrow> semaphore y limit n q'" and xy: "x \<le> y"
  shows "capacity_ok y cfg (h(t := n)) (put_queue t q' c)" "items_of (put_queue t q' c) = (items_of c)(t := cq_items q')"
proof -
  have c: "cc_queues c \<noteq> None" using q by (cases "cc_queues c") (simp_all add: queue_of_def)
  have lim: "cc_isEnabled c" "\<exists>limit. mget (cc_limits c) t = Some limit \<and> semaphore x limit (h t) q"
    using ok q by (auto simp: capacity_ok_def)
  have "cc_evalQueueResolved c" if "t = Evaluation" using ok q that by (auto simp: capacity_ok_def)
  moreover have qo: "queue_of (put_queue t q' c) t' = (if t' = t then Some q' else queue_of c t')" for t' using c by (simp add: queue_of_put)
  moreover have "cc_isEnabled c \<and> (\<exists>limit. mget (cc_limits c) t' = Some limit \<and> semaphore y limit (h t') qq)"
    if "t' \<noteq> t" "queue_of c t' = Some qq" for t' qq
    using ok that semaphore_mono [OF _ xy] unfolding capacity_ok_def by blast
  moreover obtain qs where "cc_queues (put_queue t q' c) = Some qs" using c by (auto simp: put_queue_def)
  ultimately show "capacity_ok y cfg (h(t := n)) (put_queue t q' c)" using ok lim s c by (auto simp: capacity_ok_def)
  show "items_of (put_queue t q' c) = (items_of c)(t := cq_items q')" by (rule ext) (simp add: items_of_def qo)
qed

lemmas capacity_ok_put = capacity_ok_put_more [OF _ _ _ order.refl]

lemma capacity_ok_untracked:
  assumes "capacity_ok x cfg h c" and "queue_of c t = None" "t = Evaluation \<Longrightarrow> cc_evalQueueResolved c"
  shows "capacity_ok x cfg (h(t := n)) c"
  using assms by (auto simp: capacity_ok_def)

text \<open>A slot of the mode is taken or given back; modes without a limit have none.\<close>

definition slot :: "string \<Rightarrow> concurrency_queue \<Rightarrow> nat" where
  "slot mode t = (if queue_type mode = Inr (Some t) then 1 else 0)"

definition taken :: "string \<Rightarrow> (concurrency_queue \<Rightarrow> nat) \<Rightarrow> concurrency_queue \<Rightarrow> nat" where
  "taken mode h t = h t + slot mode t"

lemma taken_typed: "queue_type mode = Inr (Some t) \<Longrightarrow> taken mode h = h(t := Suc (h t))"
  by (rule ext) (simp add: taken_def slot_def)

lemma taken_none: "(\<And>t. queue_type mode \<noteq> Inr (Some t)) \<Longrightarrow> taken mode h = h"
  by (rule ext) (simp add: taken_def slot_def)

lemma untracked_taken:
  assumes "capacity_ok x cfg h c"
    and "\<And>t. queue_type mode = Inr (Some t) \<Longrightarrow> queue_of c t = None \<and> (t = Evaluation \<longrightarrow> cc_evalQueueResolved c)"
  shows "capacity_ok x cfg (taken mode h) c"
proof (cases "\<exists>t. queue_type mode = Inr (Some t)")
  case True
  then obtain t where "queue_type mode = Inr (Some t)" ..
  with capacity_ok_untracked [OF assms(1)] assms(2) show ?thesis by (simp add: taken_typed)
qed (use assms(1) in \<open>simp add: taken_none\<close>)

lemma untracked_given:
  assumes "capacity_ok x cfg (taken mode h) c"
    and "\<And>t. queue_type mode = Inr (Some t) \<Longrightarrow> queue_of c t = None \<and> (t = Evaluation \<longrightarrow> cc_evalQueueResolved c)"
  shows "capacity_ok x cfg h c"
proof (cases "\<exists>t. queue_type mode = Inr (Some t)")
  case True
  then obtain t where t: "queue_type mode = Inr (Some t)" ..
  have "capacity_ok x cfg ((taken mode h)(t := h t)) c" using capacity_ok_untracked [OF assms(1)] assms(2) t by blast
  then show ?thesis by (simp add: taken_typed [OF t])
qed (use assms(1) in \<open>simp add: taken_none\<close>)

lemma throttle_ok:
  assumes ok: "capacity_ok x cfg h c" and t: "throttle cfg mode executionId c = (c', r)"
  shows "case r of
      Inl err \<Rightarrow> capacity_ok x cfg h c' \<and> items_of c' = items_of c
    | Inr False \<Rightarrow> capacity_ok x cfg (taken mode h) c' \<and> items_of c' = items_of c
    | Inr True \<Rightarrow> capacity_ok x cfg h c' \<and> (\<exists>t. queue_type mode = Inr (Some t) \<and> items_of c' = (items_of c)(t := items_of c t @ [executionId]))"
proof (rule with_queue_cases [OF ok t [unfolded throttle_def]])
  fix c1 ty q q' y
  assume c1: "capacity_ok x cfg h c1" "items_of c1 = items_of c" and q: "queue_type mode = Inr (Some ty)" "queue_of c1 ty = Some q"
    "cq_enqueue executionId q = (q', y)" and r: "r = Inr y" "c' = put_queue ty q' c1"
  have i: "items_of c ty = cq_items q" using c1(2) q(2) by (simp add: items_of_def fun_eq_iff) (metis option.simps(5))
  show ?thesis
  proof (cases y)
    case True
    have items: "cq_items q' = cq_items q @ [executionId]" using True q(3) by (auto simp: cq_enqueue_def Let_def split: if_splits)
    have "capacity_ok x cfg (h(ty := h ty)) (put_queue ty q' c1)" "items_of (put_queue ty q' c1) = (items_of c1)(ty := cq_items q')"
      by (rule capacity_ok_put [OF c1(1) q(2), of "h ty" q'], use semaphore_enqueue [OF _ q(3)] True in simp)+
    with True items i c1(2) q(1) r show ?thesis by simp
  next
    case False
    have "capacity_ok x cfg (h(ty := Suc (h ty))) (put_queue ty q' c1)"
      by (rule capacity_ok_put(1) [OF c1(1) q(2)]) (use semaphore_enqueue [OF _ q(3)] False in simp)
    moreover have "items_of (put_queue ty q' c1) = items_of c"
    proof -
      have "cq_items q' = cq_items q" using False q(3) by (auto simp: cq_enqueue_def Let_def split: if_splits)
      then have "(items_of c1)(ty := cq_items q') = items_of c1" using i c1(2) by (simp add: fun_upd_idem)
      moreover have "items_of (put_queue ty q' c1) = (items_of c1)(ty := cq_items q')"
        by (rule capacity_ok_put(2) [OF c1(1) q(2), of "Suc (h ty)"]) (use semaphore_enqueue [OF _ q(3)] False in simp)
      ultimately show ?thesis using c1(2) by simp
    qed
    ultimately show ?thesis using False r by (simp add: taken_typed [OF q(1)])
  qed
qed (auto intro: untracked_taken)

lemma release_ok:
  assumes ok: "capacity_ok x cfg (taken mode h) c" and t: "release_capacity cfg mode c = (c', r)"
  shows "case r of
      Inl err \<Rightarrow> capacity_ok x cfg h c' \<and> items_of c' = items_of c
    | Inr None \<Rightarrow> capacity_ok x cfg h c' \<and> items_of c' = items_of c
    | Inr (Some i) \<Rightarrow> capacity_ok x cfg (taken mode h) c' \<and> (\<exists>t. queue_type mode = Inr (Some t) \<and> items_of c = (items_of c')(t := i # items_of c' t))"
proof (rule with_queue_cases [OF ok t [unfolded release_capacity_def]])
  fix c1 ty q q' y
  assume c1: "capacity_ok x cfg (taken mode h) c1" "items_of c1 = items_of c" and q: "queue_type mode = Inr (Some ty)" "queue_of c1 ty = Some q"
    "cq_dequeue q = (q', y)" and r: "r = Inr y" "c' = put_queue ty q' c1"
  have i: "items_of c ty = cq_items q" using c1(2) q(2) by (simp add: items_of_def fun_eq_iff) (metis option.simps(5))
  have h: "taken mode h ty = Suc (h ty)" by (simp add: taken_typed [OF q(1)])
  note s = semaphore_dequeue [OF _ q(3)]
  let ?n = "case y of None \<Rightarrow> h ty | Some _ \<Rightarrow> Suc (h ty)"
  have put: "capacity_ok x cfg ((taken mode h)(ty := ?n)) c'" "items_of c' = (items_of c1)(ty := cq_items q')"
    unfolding r(2) by (rule capacity_ok_put [OF c1(1) q(2), of ?n q'], use s h in auto)+
  have items: "cq_items q = case_option [] (\<lambda>x. [x]) y @ cq_items q'"
    using q(3) by (auto simp: cq_dequeue_def cq_resolveNext_def split: list.splits)
  show ?thesis
  proof (cases y)
    case None
    with put items i c1(2) r(1) show ?thesis by (simp add: taken_typed [OF q(1)] fun_upd_idem)
  next
    case (Some z)
    with put items i c1(2) r(1) q(1) show ?thesis
      by (auto simp: taken_typed [OF q(1)] fun_eq_iff intro!: exI [of _ ty])
  qed
qed (auto intro: untracked_given simp: taken_none)

text \<open>A removal takes the execution out of its queue and lets the next one go on.\<close>

lemma remove_ok:
  assumes ok: "capacity_ok x cfg h c" and t: "remove_queued cfg mode executionId c = (c', r)"
  shows "case r of
      Inl err \<Rightarrow> capacity_ok (Suc x) cfg h c' \<and> items_of c' = items_of c
    | Inr None \<Rightarrow> capacity_ok (Suc x) cfg h c' \<and> (items_of c' = items_of c \<and> (\<forall>t. queue_type mode = Inr (Some t) \<longrightarrow> items_of c t = [])
        \<or> (\<exists>t. queue_type mode = Inr (Some t) \<and> items_of c' = (items_of c)(t := remove1 executionId (items_of c t))))
    | Inr (Some i) \<Rightarrow> capacity_ok (Suc x) cfg (taken mode h) c' \<and> (\<exists>t. queue_type mode = Inr (Some t)
        \<and> (items_of c)(t := remove1 executionId (items_of c t)) = (items_of c')(t := i # items_of c' t))"
proof (rule with_queue_cases [OF ok t [unfolded remove_queued_def]])
  fix c1 ty q q' y
  assume c1: "capacity_ok x cfg h c1" "items_of c1 = items_of c" and q: "queue_type mode = Inr (Some ty)" "queue_of c1 ty = Some q"
    "cq_remove executionId q = (q', y)" and r: "r = Inr y" "c' = put_queue ty q' c1"
  have i: "items_of c ty = cq_items q" using c1(2) q(2) by (simp add: items_of_def fun_eq_iff) (metis option.simps(5))
  note s = semaphore_remove [OF _ q(3)]
  let ?n = "case y of None \<Rightarrow> h ty | Some _ \<Rightarrow> Suc (h ty)"
  have put: "capacity_ok (Suc x) cfg (h(ty := ?n)) c'" "items_of c' = (items_of c1)(ty := cq_items q')"
    unfolding r(2) by (rule capacity_ok_put_more [OF c1(1) q(2), of "Suc x" ?n q'], use s in auto)+
  have "\<exists>limit. semaphore x limit (h ty) q" using c1(1) q(2) unfolding capacity_ok_def by blast
  then have items: "remove1 executionId (cq_items q) = case_option [] (\<lambda>x. [x]) y @ cq_items q'" using s by blast
  show ?thesis
  proof (cases y)
    case None
    with put items i c1(2) r(1) q(1) show ?thesis by simp
  next
    case (Some z)
    with put items i c1(2) r(1) q(1) show ?thesis
      by (auto simp: taken_typed [OF q(1)] fun_eq_iff intro!: exI [of _ ty])
  qed
next
  assume u: "capacity_ok x cfg h c'" "items_of c' = items_of c" "r = Inr None"
    and none: "\<And>t. queue_type mode = Inr (Some t) \<Longrightarrow> queue_of c' t = None \<and> (t = Evaluation \<longrightarrow> cc_evalQueueResolved c')"
  have "items_of c t = []" if "queue_type mode = Inr (Some t)" for t
    using none [OF that] u(2) by (simp add: items_of_def fun_eq_iff) (metis option.simps(4))
  with u capacity_ok_mono [OF u(1)] show ?thesis by simp
qed (simp add: capacity_ok_mono)

lemma remove_disabled:
  assumes ok: "capacity_ok x cfg h c" and t: "remove_queued cfg mode executionId c = (c', r)" and off: "\<not> cc_isEnabled c'"
  shows "items_of c t = []"
proof -
  have none: "queue_of c'' t = None" if "capacity_ok x cfg h c''" "\<not> cc_isEnabled c''" for c''
    using that by (cases "queue_of c'' t") (auto simp: capacity_ok_def)
  show ?thesis
  proof (rule with_queue_cases [OF ok t [unfolded remove_queued_def]])
    assume "capacity_ok x cfg h c'" "items_of c' = items_of c"
    with none [OF _ off] show ?thesis by (simp add: items_of_def fun_eq_iff) (metis option.simps(4))
  next
    fix c1 ty q q' y
    assume "capacity_ok x cfg h c1" "items_of c1 = items_of c" "c' = put_queue ty q' c1"
    with none [of c1] off show ?thesis by (simp add: items_of_def fun_eq_iff) (metis option.simps(4))
  next
    assume "capacity_ok x cfg h c'" "items_of c' = items_of c"
    with none [OF _ off] show ?thesis by (simp add: items_of_def fun_eq_iff) (metis option.simps(4))
  qed
qed

end
