(* ===== verification/Active_Executions.thy ===== *)
theory Active_Executions
  imports Concurrency_Control
begin

text \<open>
  \<^verbatim>\<open>ActiveExecutions\<close> (\<^verbatim>\<open>packages/cli/src/active-executions.ts\<close>): the executions of this process, each
  with a reservation of capacity (\<^verbatim>\<open>concurrency-capacity-reservation.ts\<close>) that is released when its promise is settled.
  What an \<^verbatim>\<open>await\<close> separates are steps of their own; the answers of the database are arguments.
\<close>

section \<open>State\<close>

datatype promise = Pending | Resolved | Rejected

text \<open>
  \<^verbatim>\<open>IExecutingWorkflowData\<close>, with the reservation the closure of \<^verbatim>\<open>add\<close> holds (the mode it was acquired for) and
  whether the callbacks of the promise have run.
\<close>

record execution =
  ax_id :: string
  ax_mode :: string
  ax_status :: string
  ax_startedAt :: nat
  ax_attached :: bool
  ax_response :: "promise option"
  ax_promise :: promise
  ax_reservation :: "string option"
  ax_done :: bool

text \<open>A call of \<^verbatim>\<open>add\<close> that has asked for capacity.\<close>

record add_call =
  ac_id :: string
  ac_mode :: string
  ac_existing :: bool

text \<open>
  The objects created so far (an index is the identity of an object, as entries are replaced when an execution resumes),
  the active ones by id, the calls of \<^verbatim>\<open>add\<close> that wait for capacity, and those whose promise is resolved and
  that have not gone on yet.
\<close>

record active_executions =
  av_control :: control
  av_objects :: "execution list"
  av_active :: "nat obj"
  av_responseModes :: "string obj"
  av_waiting :: "add_call list"
  av_started :: "add_call list"

definition new_active_executions :: "control \<Rightarrow> active_executions" where
  "new_active_executions c = \<lparr>av_control = c, av_objects = [], av_active = [], av_responseModes = [],
     av_waiting = [], av_started = []\<rparr>"

section \<open>Operations\<close>

definition has_execution :: "string \<Rightarrow> active_executions \<Rightarrow> bool" where
  "has_execution executionId s = (mget (av_active s) executionId \<noteq> None)"

definition getExecutionOrFail :: "string \<Rightarrow> active_executions \<Rightarrow> execution res" where
  "getExecutionOrFail executionId s = (case mget (av_active s) executionId of
     None \<Rightarrow> Inl (UnexpectedError ''No active execution found'')
   | Some k \<Rightarrow> Inr (av_objects s ! k))"

definition change_object :: "nat \<Rightarrow> (execution \<Rightarrow> execution) \<Rightarrow> active_executions \<Rightarrow> active_executions" where
  "change_object k f s = s\<lparr>av_objects := (av_objects s)[k := f (av_objects s ! k)]\<rparr>"

text \<open>A resolved promise: the call of \<^verbatim>\<open>add\<close> that waited in the queue \<open>t\<close> goes on.\<close>

definition waits_in :: "concurrency_queue \<Rightarrow> add_call \<Rightarrow> bool" where
  "waits_in t a = (queue_type (ac_mode a) = Inr (Some t))"

definition start_waiting :: "concurrency_queue \<Rightarrow> string \<Rightarrow> active_executions \<Rightarrow> active_executions" where
  "start_waiting t i s = (case find (\<lambda>a. waits_in t a \<and> ac_id a = i) (av_waiting s) of
     None \<Rightarrow> s
   | Some a \<Rightarrow> s\<lparr>av_waiting := remove1 a (av_waiting s), av_started := av_started s @ [a]\<rparr>)"

definition start_next :: "string \<Rightarrow> string option \<Rightarrow> active_executions \<Rightarrow> active_executions" where
  "start_next mode next s = (case (queue_type mode, next) of
     (Inr (Some t), Some i) \<Rightarrow> start_waiting t i s
   | _ \<Rightarrow> s)"

definition release_reservation :: "concurrency_config \<Rightarrow> string option \<Rightarrow> active_executions \<Rightarrow> active_executions \<times> js_error option" where
  "release_reservation cfg acquired s = (case acquired of
     None \<Rightarrow> (s, None)
   | Some mode \<Rightarrow> (case release_capacity cfg mode (av_control s) of
       (c, Inl err) \<Rightarrow> (s\<lparr>av_control := c\<rparr>, Some err)
     | (c, Inr next) \<Rightarrow> (start_next mode next (s\<lparr>av_control := c\<rparr>), None)))"

text \<open>
  \<^verbatim>\<open>ConcurrencyControlService.remove\<close>, called when a waiting execution is stopped. The promise of the removed call
  is dropped with its place in the queue, so the call never goes on; when the limits are disabled nothing is removed.
\<close>

definition drop_waiting :: "string \<Rightarrow> string \<Rightarrow> active_executions \<Rightarrow> active_executions" where
  "drop_waiting mode i s = (case queue_type mode of
     Inr (Some t) \<Rightarrow> (case find (\<lambda>a. waits_in t a \<and> ac_id a = i) (av_waiting s) of
         None \<Rightarrow> s
       | Some a \<Rightarrow> s\<lparr>av_waiting := remove1 a (av_waiting s)\<rparr>)
   | _ \<Rightarrow> s)"

definition remove_execution :: "concurrency_config \<Rightarrow> string \<Rightarrow> string \<Rightarrow> active_executions \<Rightarrow> active_executions \<times> js_error option" where
  "remove_execution cfg mode executionId s = (case remove_queued cfg mode executionId (av_control s) of
     (c, Inl err) \<Rightarrow> (s\<lparr>av_control := c\<rparr>, Some err)
   | (c, Inr next) \<Rightarrow>
       let s = s\<lparr>av_control := c\<rparr>
       in (start_next mode next (if cc_isEnabled c then drop_waiting mode executionId s else s), None))"

text \<open>
  \<^verbatim>\<open>add\<close> up to the reservation. The call waits, or it is started; an error of
  \<^verbatim>\<open>throttle\<close> is thrown again, there is nothing to release.
\<close>

definition add_execution :: "concurrency_config \<Rightarrow> add_call \<Rightarrow> active_executions \<Rightarrow> active_executions \<times> js_error option" where
  "add_execution cfg a s =
     (case throttle cfg (ac_mode a) (ac_id a) (av_control s) of
        (c, Inl err) \<Rightarrow> (s\<lparr>av_control := c\<rparr>, Some err)
      | (c, Inr True) \<Rightarrow> (s\<lparr>av_control := c, av_waiting := av_waiting s @ [a]\<rparr>, None)
      | (c, Inr False) \<Rightarrow> (s\<lparr>av_control := c, av_started := av_started s @ [a]\<rparr>, None))"

text \<open>
  The rest of \<^verbatim>\<open>add\<close>: the database is updated (\<open>db\<close> is an error it throws; for an existing execution
  \<open>updated\<close> tells whether it was still waiting), and the execution is registered at the time \<open>now\<close>.
\<close>

definition register_execution :: "add_call \<Rightarrow> nat \<Rightarrow> active_executions \<Rightarrow> active_executions" where
  "register_execution a now s =
     (let resuming = map_option ((!) (av_objects s)) (mget (av_active s) (ac_id a));
          ob = \<lparr>ax_id = ac_id a, ax_mode = ac_mode a, ax_status = ''running'',
            ax_startedAt = (case resuming of None \<Rightarrow> now | Some r \<Rightarrow> ax_startedAt r), ax_attached = False,
            ax_response = Option.bind resuming ax_response, ax_promise = Pending,
            ax_reservation = Some (ac_mode a), ax_done = False\<rparr>
      in s\<lparr>av_objects := av_objects s @ [ob], av_active := mset_at (ac_id a) (length (av_objects s)) (av_active s)\<rparr>)"

definition continue_add :: "concurrency_config \<Rightarrow> add_call \<Rightarrow> js_error option \<Rightarrow> bool \<Rightarrow> nat \<Rightarrow> active_executions
    \<Rightarrow> active_executions \<times> js_error option" where
  "continue_add cfg a db updated now s =
     (let s = s\<lparr>av_started := remove1 a (av_started s)\<rparr>;
          failure = (case db of Some err \<Rightarrow> Some err
            | None \<Rightarrow> if ac_existing a \<and> \<not> updated then Some (OperationalError ''Execution is already being resumed by another process'') else None)
      in case failure of
           Some err \<Rightarrow> (case release_reservation cfg (Some (ac_mode a)) s of (s, e) \<Rightarrow> (s, Some (case e of None \<Rightarrow> err | Some e \<Rightarrow> e)))
         | None \<Rightarrow> (register_execution a now s, None))"

text \<open>The callback of the settled promise of an object.\<close>

definition post_execute :: "concurrency_config \<Rightarrow> nat \<Rightarrow> active_executions \<Rightarrow> active_executions \<times> js_error option" where
  "post_execute cfg k s =
     (let ob = av_objects s ! k;
          s = change_object k (\<lambda>x. x\<lparr>ax_done := True\<rparr>) s in
      case release_reservation cfg (ax_reservation ob) s of
        (s, Some err) \<Rightarrow> (s, Some err)
      | (s, None) \<Rightarrow>
          let s = change_object k (\<lambda>x. x\<lparr>ax_reservation := None\<rparr>) s in
          if ax_status ob = ''waiting'' then (change_object k (\<lambda>x. x\<lparr>ax_attached := False\<rparr>) s, None)
          else (s\<lparr>av_active := mdel (ax_id ob) (av_active s), av_responseModes := mdel (ax_id ob) (av_responseModes s)\<rparr>, None))"

definition attachWorkflowExecution :: "string \<Rightarrow> active_executions \<Rightarrow> active_executions res" where
  "attachWorkflowExecution executionId s = bindE (getExecutionOrFail executionId s) (\<lambda>_.
     Inr (change_object (the (mget (av_active s) executionId)) (\<lambda>x. x\<lparr>ax_attached := True\<rparr>) s))"

definition attachResponsePromise :: "string \<Rightarrow> active_executions \<Rightarrow> active_executions res" where
  "attachResponsePromise executionId s = bindE (getExecutionOrFail executionId s) (\<lambda>_.
     Inr (change_object (the (mget (av_active s) executionId)) (\<lambda>x. x\<lparr>ax_response := Some Pending\<rparr>) s))"

text \<open>A promise is settled once.\<close>

definition settle :: "promise \<Rightarrow> promise \<Rightarrow> promise" where
  "settle outcome p = (if p = Pending then outcome else p)"

definition resolveResponsePromise :: "string \<Rightarrow> active_executions \<Rightarrow> active_executions" where
  "resolveResponsePromise executionId s = (case mget (av_active s) executionId of
     None \<Rightarrow> s
   | Some k \<Rightarrow> change_object k (\<lambda>x. x\<lparr>ax_response := map_option (settle Resolved) (ax_response x)\<rparr>) s)"

definition resolveExecutionResponsePromise :: "string \<Rightarrow> active_executions \<Rightarrow> active_executions" where
  "resolveExecutionResponsePromise executionId s = (case mget (av_active s) executionId of
     None \<Rightarrow> s
   | Some k \<Rightarrow> if ax_status (av_objects s ! k) = ''waiting'' then s
       else change_object k (\<lambda>x. x\<lparr>ax_response := map_option (settle Resolved) (ax_response x)\<rparr>) s)"

definition stopExecution :: "string \<Rightarrow> active_executions \<Rightarrow> active_executions" where
  "stopExecution executionId s = (case mget (av_active s) executionId of
     None \<Rightarrow> s
   | Some k \<Rightarrow>
       let s = change_object k (\<lambda>x. x\<lparr>ax_response := map_option (settle Rejected) (ax_response x)\<rparr>) s in
       if ax_status (av_objects s ! k) = ''waiting''
       then s\<lparr>av_active := mdel executionId (av_active s), av_responseModes := mdel executionId (av_responseModes s)\<rparr>
       else change_object k (\<lambda>x. x\<lparr>ax_promise := settle Rejected (ax_promise x)\<rparr>) s)"

definition finalizeExecution :: "string \<Rightarrow> active_executions \<Rightarrow> active_executions" where
  "finalizeExecution executionId s = (case mget (av_active s) executionId of
     None \<Rightarrow> s
   | Some k \<Rightarrow> change_object k (\<lambda>x. x\<lparr>ax_promise := settle Resolved (ax_promise x)\<rparr>) s)"

definition setExecutionStatus :: "string \<Rightarrow> string \<Rightarrow> active_executions \<Rightarrow> active_executions res" where
  "setExecutionStatus executionId status s = bindE (getExecutionOrFail executionId s) (\<lambda>_.
     Inr (change_object (the (mget (av_active s) executionId)) (\<lambda>x. x\<lparr>ax_status := status\<rparr>) s))"

definition setResponseMode :: "string \<Rightarrow> string \<Rightarrow> active_executions \<Rightarrow> active_executions" where
  "setResponseMode executionId mode s = s\<lparr>av_responseModes := mset_at executionId mode (av_responseModes s)\<rparr>"

text \<open>
  \<^verbatim>\<open>shutdown\<close> up to the wait for the remaining executions; the last component are the executions cancelled in
  the database.
\<close>

definition shutdown_execution :: "bool \<Rightarrow> string \<Rightarrow> active_executions \<times> string list \<Rightarrow> active_executions \<times> string list" where
  "shutdown_execution cancel executionId acc = (case acc of (s, toCancel) \<Rightarrow>
     case mget (av_active s) executionId of
       None \<Rightarrow> (s, toCancel)
     | Some k \<Rightarrow>
         let status = ax_status (av_objects s ! k) in
         if cancel then (stopExecution executionId s, toCancel @ [executionId])
         else if status = ''waiting'' \<or> status = ''new'' then (s\<lparr>av_active := mdel executionId (av_active s)\<rparr>, toCancel)
         else (s, toCancel))"

definition shutdown :: "concurrency_config \<Rightarrow> bool \<Rightarrow> active_executions \<Rightarrow> active_executions \<times> string list" where
  "shutdown cfg cancelAll s =
     (let regular = \<not> cfg_queueMode cfg;
          s = (if regular then s\<lparr>av_control := disable_control (av_control s)\<rparr> else s);
          (s, toCancel) = foldl (\<lambda>acc executionId. shutdown_execution (regular \<and> cancelAll) executionId acc)
            (s, []) (obj_keys (av_active s))
      in case removeAll_queued toCancel (av_control s) of
           (c, started, cancelled) \<Rightarrow> (foldl (\<lambda>s (t, i). start_waiting t i s) (s\<lparr>av_control := c\<rparr>) started, cancelled))"

section \<open>Steps\<close>

text \<open>
  Everything that happens to a running process, in any order: \<open>own_step\<close> for \<^verbatim>\<open>ActiveExecutions\<close>, and the removal of a
  waiting execution that is stopped. Only the shutdown is not among the steps: it switches the limits off.
\<close>

inductive own_step :: "concurrency_config \<Rightarrow> active_executions \<Rightarrow> active_executions \<Rightarrow> bool" for cfg where
  add: "add_execution cfg a s = (s', r) \<Longrightarrow> own_step cfg s s'"
| go_on: "a \<in> set (av_started s) \<Longrightarrow> continue_add cfg a db updated now s = (s', r) \<Longrightarrow> own_step cfg s s'"
| settled: "k < length (av_objects s) \<Longrightarrow> ax_promise (av_objects s ! k) \<noteq> Pending \<Longrightarrow> \<not> ax_done (av_objects s ! k) \<Longrightarrow>
    post_execute cfg k s = (s', r) \<Longrightarrow> own_step cfg s s'"
| attach: "attachWorkflowExecution i s = Inr s' \<Longrightarrow> own_step cfg s s'"
| attach_response: "attachResponsePromise i s = Inr s' \<Longrightarrow> own_step cfg s s'"
| respond: "own_step cfg s (resolveResponsePromise i s)"
| redirect: "own_step cfg s (resolveExecutionResponsePromise i s)"
| stop: "own_step cfg s (stopExecution i s)"
| finalize: "own_step cfg s (finalizeExecution i s)"
| status: "setExecutionStatus i st s = Inr s' \<Longrightarrow> own_step cfg s s'"
| response_mode: "own_step cfg s (setResponseMode i m s)"

inductive active_step :: "concurrency_config \<Rightarrow> active_executions \<Rightarrow> active_executions \<Rightarrow> bool" for cfg where
  own: "own_step cfg s s' \<Longrightarrow> active_step cfg s s'"
| remove: "remove_execution cfg mode i s = (s', r) \<Longrightarrow> active_step cfg s s'"

text \<open>The states of a process that has started, and how often waiting executions were removed before.\<close>

inductive process_run :: "concurrency_config \<Rightarrow> nat \<Rightarrow> active_executions \<Rightarrow> bool" for cfg where
  started: "new_control cfg = Inr c \<Longrightarrow> process_run cfg 0 (new_active_executions c)"
| own: "process_run cfg n s \<Longrightarrow> own_step cfg s s' \<Longrightarrow> process_run cfg n s'"
| removal: "process_run cfg n s \<Longrightarrow> remove_execution cfg mode i s = (s', r) \<Longrightarrow> process_run cfg (Suc n) s'"

definition reachable :: "concurrency_config \<Rightarrow> active_executions \<Rightarrow> bool" where
  "reachable cfg s \<longleftrightarrow> (\<exists>c. new_control cfg = Inr c \<and> (active_step cfg)\<^sup>*\<^sup>* (new_active_executions c) s)"

section \<open>Slots\<close>

text \<open>The slots of a queue: those of reservations, and those of calls of \<^verbatim>\<open>add\<close> that go on.\<close>

definition held :: "active_executions \<Rightarrow> concurrency_queue \<Rightarrow> nat" where
  "held s t = (\<Sum>m\<leftarrow>map ax_reservation (av_objects s). case m of None \<Rightarrow> 0 | Some mode \<Rightarrow> slot mode t)
     + (\<Sum>a\<leftarrow>av_started s. slot (ac_mode a) t)"

definition slots_ok :: "nat \<Rightarrow> concurrency_config \<Rightarrow> active_executions \<Rightarrow> bool" where
  "slots_ok x cfg s \<longleftrightarrow> capacity_ok x cfg (held s) (av_control s)
     \<and> (\<forall>t. items_of (av_control s) t = map ac_id (filter (waits_in t) (av_waiting s)))"

lemma slots_ok_new: "new_control cfg = Inr c \<Longrightarrow> slots_ok x cfg (new_active_executions c)"
  using new_control_ok by (simp add: slots_ok_def new_active_executions_def held_def [abs_def])

lemma map_change_object: "(\<And>x. g (f x) = g x) \<Longrightarrow> map g (av_objects (change_object k f s)) = map g (av_objects s)"
  by (cases "k < length (av_objects s)") (simp_all add: change_object_def map_update list_update_same_conv list_update_beyond)

lemma change_object_sel [simp]:
  "av_control (change_object k f s) = av_control s" "av_active (change_object k f s) = av_active s"
  "av_responseModes (change_object k f s) = av_responseModes s" "av_waiting (change_object k f s) = av_waiting s"
  "av_started (change_object k f s) = av_started s" "length (av_objects (change_object k f s)) = length (av_objects s)"
  by (simp_all add: change_object_def)

lemma slots_ok_cong:
  assumes "slots_ok x cfg s" "av_control s' = av_control s" "av_waiting s' = av_waiting s" "av_started s' = av_started s"
    "map ax_reservation (av_objects s') = map ax_reservation (av_objects s)"
  shows "slots_ok x cfg s'"
proof -
  have "held s' = held s" by (rule ext) (simp only: held_def assms(4,5))
  with assms(1-3) show ?thesis by (simp add: slots_ok_def)
qed

text \<open>A released promise moves the first waiting call of its queue to the calls that go on.\<close>

lemma find_first_waiting:
  assumes "map ac_id (filter (waits_in t) W) = i # rest"
  shows "\<exists>a. find (\<lambda>a. waits_in t a \<and> ac_id a = i) W = Some a \<and> waits_in t a
    \<and> (\<forall>t'. map ac_id (filter (waits_in t') W) = (if t' = t then i # rest else map ac_id (filter (waits_in t') (remove1 a W))))
    \<and> map ac_id (filter (waits_in t) (remove1 a W)) = rest"
  using assms
proof (induction W)
  case (Cons b W)
  show ?case
  proof (cases "waits_in t b")
    case True
    with Cons.prems have "\<not> waits_in t' b" if "t' \<noteq> t" for t' using that by (auto simp: waits_in_def)
    with True Cons.prems show ?thesis by auto
  next
    case False
    with Cons obtain a where "find (\<lambda>a. waits_in t a \<and> ac_id a = i) W = Some a" "waits_in t a"
      "\<forall>t'. map ac_id (filter (waits_in t') W) = (if t' = t then i # rest else map ac_id (filter (waits_in t') (remove1 a W)))"
      "map ac_id (filter (waits_in t) (remove1 a W)) = rest" by auto
    with False show ?thesis by auto
  qed
qed simp

lemma held_started: "held (s\<lparr>av_started := av_started s @ [a]\<rparr>) = taken (ac_mode a) (held s)"
  by (rule ext) (simp add: held_def taken_def)

lemma held_remove_started: "a \<in> set (av_started s) \<Longrightarrow> held s = taken (ac_mode a) (held (s\<lparr>av_started := remove1 a (av_started s)\<rparr>))"
  by (rule ext) (simp add: held_def taken_def sum_list_map_remove1)

lemma taken_same: "queue_type m = queue_type m' \<Longrightarrow> taken m h = taken m' h"
  by (simp add: taken_def [abs_def] slot_def)

lemma start_first_slots:
  assumes t: "queue_type mode = Inr (Some t)" and ok: "capacity_ok x cfg (taken mode (held s)) (av_control s)"
    and items: "\<And>t'. map ac_id (filter (waits_in t') (av_waiting s)) = ((items_of (av_control s))(t := i # items_of (av_control s) t)) t'"
  shows "slots_ok x cfg (start_waiting t i s)"
proof -
  from items [of t] have "map ac_id (filter (waits_in t) (av_waiting s)) = i # items_of (av_control s) t" by simp
  from find_first_waiting [OF this] obtain a where a: "find (\<lambda>a. waits_in t a \<and> ac_id a = i) (av_waiting s) = Some a" "waits_in t a"
    "\<forall>t'. map ac_id (filter (waits_in t') (av_waiting s)) = (if t' = t then i # items_of (av_control s) t
       else map ac_id (filter (waits_in t') (remove1 a (av_waiting s))))"
    "map ac_id (filter (waits_in t) (remove1 a (av_waiting s))) = items_of (av_control s) t" by (elim exE conjE)
  have s': "start_waiting t i s = s\<lparr>av_waiting := remove1 a (av_waiting s), av_started := av_started s @ [a]\<rparr>"
    using a(1) by (simp add: start_waiting_def)
  have "items_of (av_control s) t' = map ac_id (filter (waits_in t') (remove1 a (av_waiting s)))" for t'
    using items [of t'] a(3) [THEN spec, of t'] a(4) by (cases "t' = t") simp_all
  moreover have "held (start_waiting t i s) = taken mode (held s)"
    using a(2) t by (simp add: s' held_def [abs_def] taken_def [abs_def] slot_def waits_in_def add.assoc)
  ultimately show ?thesis using ok by (simp add: slots_ok_def s')
qed

lemma release_slots:
  assumes ok: "capacity_ok x cfg (taken mode (held s)) (av_control s)"
    and items: "\<And>t. items_of (av_control s) t = map ac_id (filter (waits_in t) (av_waiting s))"
    and rel: "release_reservation cfg (Some mode) s = (s', r)"
  shows "slots_ok x cfg s'"
proof -
  obtain c v where rc: "release_capacity cfg mode (av_control s) = (c, v)" by fastforce
  note r = release_ok [OF ok rc]
  show ?thesis
  proof (cases v)
    case (Inl err)
    with r rc rel items show ?thesis by (auto simp: release_reservation_def slots_ok_def held_def [abs_def])
  next
    case (Inr nx)
    show ?thesis
    proof (cases nx)
      case None
      with Inr rc rel have "s' = s\<lparr>av_control := c\<rparr>"
        by (simp add: release_reservation_def start_next_def split: sum.splits option.splits)
      with None Inr r items show ?thesis by (simp add: slots_ok_def held_def [abs_def])
    next
      case (Some i)
      with Inr r obtain t where t: "capacity_ok x cfg (taken mode (held s)) c" "queue_type mode = Inr (Some t)"
        "items_of (av_control s) = (items_of c)(t := i # items_of c t)" by auto
      then have "slots_ok x cfg (start_waiting t i (s\<lparr>av_control := c\<rparr>))"
        using items by (intro start_first_slots [OF t(2)]) (simp_all add: held_def [abs_def])
      then show ?thesis using Inr Some rc rel t(2) by (simp add: release_reservation_def start_next_def)
    qed
  qed
qed

text \<open>Every operation keeps the slots.\<close>

lemma add_slots:
  assumes "slots_ok x cfg s" "add_execution cfg a s = (s', r)"
  shows "slots_ok x cfg s'"
proof -
  obtain c v where t: "throttle cfg (ac_mode a) (ac_id a) (av_control s) = (c, v)" by fastforce
  note r = throttle_ok [OF _ t, where h = "held s"]
  from assms(1) have ok: "capacity_ok x cfg (held s) (av_control s)"
    and items: "\<And>t. items_of (av_control s) t = map ac_id (filter (waits_in t) (av_waiting s))" by (simp_all add: slots_ok_def)
  show ?thesis
  proof (cases v)
    case (Inl err)
    with assms(2) t have s': "s' = s\<lparr>av_control := c\<rparr>" by (simp add: add_execution_def)
    with r [OF ok] Inl items show ?thesis by (simp add: slots_ok_def held_def [abs_def])
  next
    case (Inr waits)
    show ?thesis
    proof (cases waits)
      case True
      with Inr assms(2) t have s': "s' = s\<lparr>av_control := c, av_waiting := av_waiting s @ [a]\<rparr>" by (simp add: add_execution_def)
      from r [OF ok] Inr True obtain ty where "capacity_ok x cfg (held s) c" "queue_type (ac_mode a) = Inr (Some ty)"
        "items_of c = (items_of (av_control s))(ty := items_of (av_control s) ty @ [ac_id a])" by auto
      with items s' show ?thesis by (simp add: slots_ok_def held_def [abs_def] waits_in_def)
    next
      case False
      with Inr assms(2) t have s': "s' = s\<lparr>av_control := c, av_started := av_started s @ [a]\<rparr>" by (simp add: add_execution_def)
      have "held s' = taken (ac_mode a) (held s)" by (rule ext) (simp add: s' held_def taken_def)
      with r [OF ok] Inr False items s' show ?thesis by (simp add: slots_ok_def)
    qed
  qed
qed

lemma register_slots:
  assumes "capacity_ok x cfg (taken (ac_mode a) (held s)) (av_control s)"
    "\<And>t. items_of (av_control s) t = map ac_id (filter (waits_in t) (av_waiting s))"
  shows "slots_ok x cfg (register_execution a now s)"
proof -
  have "held (register_execution a now s) = taken (ac_mode a) (held s)"
    by (rule ext) (simp add: held_def taken_def register_execution_def Let_def)
  moreover have "av_control (register_execution a now s) = av_control s" "av_waiting (register_execution a now s) = av_waiting s"
    by (simp_all add: register_execution_def Let_def)
  ultimately show ?thesis using assms by (simp add: slots_ok_def)
qed

lemma continue_slots:
  assumes "slots_ok x cfg s" "a \<in> set (av_started s)" "continue_add cfg a db updated now s = (s', r)"
  shows "slots_ok x cfg s'"
proof -
  let ?s = "s\<lparr>av_started := remove1 a (av_started s)\<rparr>"
  have ok: "capacity_ok x cfg (taken (ac_mode a) (held ?s)) (av_control ?s)"
    using assms(1) held_remove_started [OF assms(2)] by (simp add: slots_ok_def)
  have items: "items_of (av_control ?s) t = map ac_id (filter (waits_in t) (av_waiting ?s))" for t
    using assms(1) by (simp add: slots_ok_def)
  have "s' = register_execution a now ?s \<or> (\<exists>r'. release_reservation cfg (Some (ac_mode a)) ?s = (s', r'))"
    using assms(3) by (auto simp: continue_add_def Let_def split: option.splits if_splits prod.splits)
  then show ?thesis using register_slots [OF ok items] release_slots [OF ok items] by auto
qed

text \<open>The removal of a waiting call may let the next one go on without a slot.\<close>

lemma find_waiting_remove1:
  "find (\<lambda>a. waits_in t a \<and> ac_id a = i) W = Some a \<Longrightarrow> map ac_id (filter (waits_in t') (remove1 a W))
     = (if t' = t then remove1 i (map ac_id (filter (waits_in t) W)) else map ac_id (filter (waits_in t') W))"
proof (induction W)
  case (Cons b W)
  have other: "waits_in t b \<Longrightarrow> waits_in t' b \<longleftrightarrow> t' = t" by (auto simp: waits_in_def)
  show ?case
  proof (cases "waits_in t b \<and> ac_id b = i")
    case True
    with Cons.prems other show ?thesis by (cases "t' = t") simp_all
  next
    case False
    with Cons.prems have f: "find (\<lambda>a. waits_in t a \<and> ac_id a = i) W = Some a" by (auto split: if_splits)
    then have "waits_in t a \<and> ac_id a = i" by (auto simp: find_Some_iff)
    with False have "b \<noteq> a" by auto
    with Cons.IH [OF f] False show ?thesis by (cases "t' = t") auto
  qed
qed simp

lemma find_waiting_None:
  "find (\<lambda>a. waits_in t a \<and> ac_id a = i) W = None \<Longrightarrow> i \<notin> set (map ac_id (filter (waits_in t) W))"
  by (induction W) (auto split: if_splits)

lemma drop_waiting_items:
  "map ac_id (filter (waits_in t') (av_waiting (drop_waiting mode i s))) = (if queue_type mode = Inr (Some t')
     then remove1 i (map ac_id (filter (waits_in t') (av_waiting s))) else map ac_id (filter (waits_in t') (av_waiting s)))"
proof (cases "\<exists>t. queue_type mode = Inr (Some t)")
  case True
  then obtain t where t: "queue_type mode = Inr (Some t)" ..
  show ?thesis
  proof (cases "find (\<lambda>a. waits_in t a \<and> ac_id a = i) (av_waiting s)")
    case None
    then show ?thesis using t find_waiting_None [OF None] by (auto simp: drop_waiting_def remove1_idem)
  next
    case (Some a)
    then show ?thesis using t find_waiting_remove1 [OF Some, of t'] by (auto simp: drop_waiting_def)
  qed
qed (auto simp: drop_waiting_def split: sum.splits option.splits)

lemma drop_waiting_sel [simp]: "av_control (drop_waiting mode i s) = av_control s" "held (drop_waiting mode i s) = held s"
  by (simp_all add: drop_waiting_def held_def [abs_def] split: sum.splits option.splits)

lemma remove_slots:
  assumes ok: "slots_ok x cfg s" and rem: "remove_execution cfg mode i s = (s', r)"
  shows "slots_ok (Suc x) cfg s'"
proof -
  obtain c v where rc: "remove_queued cfg mode i (av_control s) = (c, v)" by fastforce
  have cap: "capacity_ok x cfg (held s) (av_control s)"
    and items: "\<And>t. items_of (av_control s) t = map ac_id (filter (waits_in t) (av_waiting s))" using ok by (simp_all add: slots_ok_def)
  note r = remove_ok [OF cap rc]
  show ?thesis
  proof (cases v)
    case (Inl err)
    with r rc rem items show ?thesis by (auto simp: remove_execution_def slots_ok_def held_def [abs_def])
  next
    case (Inr nx)
    define s1 where "s1 = (if cc_isEnabled c then drop_waiting mode i (s\<lparr>av_control := c\<rparr>) else s\<lparr>av_control := c\<rparr>)"
    have s': "s' = start_next mode nx s1" using Inr rc rem by (simp add: remove_execution_def s1_def Let_def)
    have "held (s\<lparr>av_control := c\<rparr>) = held s" by (simp add: held_def [abs_def])
    then have c: "av_control s1 = c" "held s1 = held s" by (simp_all add: s1_def)
    have W: "map ac_id (filter (waits_in t) (av_waiting s1)) = (if queue_type mode = Inr (Some t)
        then remove1 i (items_of (av_control s) t) else items_of (av_control s) t)" for t
    proof (cases "cc_isEnabled c")
      case True
      then show ?thesis using items [of t] by (simp add: s1_def drop_waiting_items)
    next
      case False
      with remove_disabled [OF cap rc] items [of t] show ?thesis by (simp add: s1_def)
    qed
    show ?thesis
    proof (cases nx)
      case None
      then have "s' = s1" using s' by (simp add: start_next_def split: sum.splits option.splits)
      with None Inr r c W show ?thesis by (auto simp: slots_ok_def)
    next
      case (Some j)
      with Inr r obtain t where t: "capacity_ok (Suc x) cfg (taken mode (held s)) c" "queue_type mode = Inr (Some t)"
        "(items_of (av_control s))(t := remove1 i (items_of (av_control s) t)) = (items_of c)(t := j # items_of c t)" by auto
      have "map ac_id (filter (waits_in t') (av_waiting s1)) = ((items_of c)(t := j # items_of c t)) t'" for t'
        unfolding t(3) [symmetric] using W [of t'] t(2) by simp
      then have "slots_ok (Suc x) cfg (start_waiting t j s1)"
        using t(1) c by (intro start_first_slots [OF t(2)]) simp_all
      then show ?thesis using s' Some t(2) by (simp add: start_next_def)
    qed
  qed
qed

text \<open>A call of \<open>release\<close> only fails for a mode that has no queue.\<close>

lemma release_reservation_error:
  assumes "capacity_ok x cfg (taken mode (held s)) (av_control s)" "release_reservation cfg (Some mode) s = (s', Some err)"
  shows "slot mode = (\<lambda>_. 0)"
proof -
  obtain c v where rc: "release_capacity cfg mode (av_control s) = (c, v)" by fastforce
  with assms(2) have "v = Inl err" by (auto simp: release_reservation_def split: sum.splits)
  with with_queue_cases [OF assms(1) rc [unfolded release_capacity_def]] have "queue_type mode \<noteq> Inr (Some t)" for t by fastforce
  then show ?thesis by (simp add: slot_def [abs_def])
qed

lemma held_change:
  assumes "k < length (av_objects s)" "ax_reservation (av_objects s ! k) = Some mode" "\<And>x. ax_reservation (f x) = None"
  shows "held s = taken mode (held (change_object k f s))"
proof (rule ext)
  fix t
  let ?g = "\<lambda>x. case ax_reservation x of None \<Rightarrow> 0 | Some mode \<Rightarrow> slot mode t"
  have "sum_list (map ?g xs) = sum_list (map ?g (xs[k := f (xs ! k)])) + slot mode t"
    if "k < length xs" "ax_reservation (xs ! k) = Some mode" for xs
    using that by (induction xs arbitrary: k) (auto simp: assms(3) nth_Cons split: nat.splits)
  from this [OF assms(1,2)] show "held s t = taken mode (held (change_object k f s)) t"
    by (simp add: held_def taken_def change_object_def o_def)
qed

lemma start_waiting_change: "start_waiting t i (change_object k f s) = change_object k f (start_waiting t i s)"
  by (simp add: start_waiting_def change_object_def split: option.splits)

lemma start_next_change: "start_next mode nx (change_object k f s) = change_object k f (start_next mode nx s)"
  by (simp add: start_next_def start_waiting_change split: sum.splits option.splits)

lemma release_change:
  assumes "release_reservation cfg r s = (s', e)"
  shows "release_reservation cfg r (change_object k f s) = (change_object k f s', e)"
proof -
  have "(change_object k f s)\<lparr>av_control := c\<rparr> = change_object k f (s\<lparr>av_control := c\<rparr>)" for c
    by (simp add: change_object_def)
  with assms show ?thesis
    by (auto simp: release_reservation_def start_next_change split: option.splits prod.splits sum.splits)
qed

lemma start_next_objects [simp]: "av_objects (start_next mode nx s) = av_objects s" "av_active (start_next mode nx s) = av_active s"
  by (simp_all add: start_next_def start_waiting_def split: sum.splits option.splits)

lemma release_objects:
  assumes "release_reservation cfg r s = (s', e)"
  shows "av_objects s' = av_objects s" "av_active s' = av_active s"
  using assms by (auto simp: release_reservation_def split: option.splits prod.splits sum.splits)

lemma post_execute_slots:
  assumes ok: "slots_ok x cfg s" and k: "k < length (av_objects s)" and p: "post_execute cfg k s = (s', r)"
  shows "slots_ok x cfg s'"
proof -
  let ?clear = "change_object k (\<lambda>x. x\<lparr>ax_reservation := None\<rparr>)"
  define s1 where "s1 = change_object k (\<lambda>x. x\<lparr>ax_done := True\<rparr>) s"
  have ok1: "slots_ok x cfg s1" by (rule slots_ok_cong [OF ok]) (simp_all add: s1_def map_change_object)
  obtain s2 e where rel: "release_reservation cfg (ax_reservation (av_objects s ! k)) s1 = (s2, e)" by fastforce
  have k1: "k < length (av_objects s1)" "ax_reservation (av_objects s1 ! k) = ax_reservation (av_objects s ! k)"
    using k by (simp_all add: s1_def change_object_def)
  have s': "(\<exists>err. e = Some err \<and> s' = s2) \<or> slots_ok x cfg s' = slots_ok x cfg (?clear s2)"
  proof (cases e)
    case None
    then consider "s' = change_object k (\<lambda>x. x\<lparr>ax_attached := False\<rparr>) (?clear s2)"
      | m i where "s' = (?clear s2)\<lparr>av_active := m, av_responseModes := i\<rparr>"
      using p rel by (auto simp: post_execute_def Let_def s1_def [symmetric] split: if_splits)
    then show ?thesis
    proof cases
      case 1
      then have "held s' = held (?clear s2)" by (simp add: held_def [abs_def] map_change_object)
      with 1 show ?thesis by (simp add: slots_ok_def)
    qed (simp add: slots_ok_def held_def [abs_def])
  qed (use p rel in \<open>auto simp: post_execute_def Let_def s1_def [symmetric]\<close>)
  show ?thesis
  proof (cases "ax_reservation (av_objects s ! k)")
    case None
    with rel have "s2 = s1" "e = None" by (simp_all add: release_reservation_def)
    moreover have "map ax_reservation (av_objects (?clear s1)) = map ax_reservation (av_objects s1)"
      using k1 None by (simp add: change_object_def map_update list_update_same_conv)
    then have "slots_ok x cfg (?clear s1)" by (intro slots_ok_cong [OF ok1]) simp_all
    ultimately show ?thesis using s' by auto
  next
    case (Some mode)
    have h: "held s1 = taken mode (held (?clear s1))" by (rule held_change) (use k1 Some in simp_all)
    have c: "capacity_ok x cfg (taken mode (held (?clear s1))) (av_control (?clear s1))"
      and i: "\<And>t. items_of (av_control (?clear s1)) t = map ac_id (filter (waits_in t) (av_waiting (?clear s1)))"
      using ok1 h by (simp_all add: slots_ok_def)
    have rel': "release_reservation cfg (Some mode) (?clear s1) = (?clear s2, e)" using release_change rel Some by simp
    have ok2: "slots_ok x cfg (?clear s2)" by (rule release_slots [OF c i rel'])
    show ?thesis
    proof (cases e)
      case None
      with s' ok2 show ?thesis by simp
    next
      case err: (Some err)
      have "slot mode = (\<lambda>_. 0)" by (rule release_reservation_error [OF c]) (use rel' err in simp)
      moreover have "held s2 = taken mode (held (?clear s2))"
        by (rule held_change) (use k1 Some release_objects [OF rel] in simp_all)
      ultimately have "held s2 = held (?clear s2)" by (simp add: taken_def [abs_def])
      with ok2 have "slots_ok x cfg s2" by (simp add: slots_ok_def)
      moreover have "s' = s2" using p rel err by (simp add: post_execute_def Let_def s1_def [symmetric])
      ultimately show ?thesis by simp
    qed
  qed
qed

text \<open>The remaining operations change neither reservations nor calls.\<close>

definition same_slots :: "active_executions \<Rightarrow> active_executions \<Rightarrow> bool" where
  "same_slots s s' \<longleftrightarrow> av_control s' = av_control s \<and> av_waiting s' = av_waiting s \<and> av_started s' = av_started s
     \<and> map ax_reservation (av_objects s') = map ax_reservation (av_objects s)"

lemma same_slots_change: "(\<And>x. ax_reservation (f x) = ax_reservation x) \<Longrightarrow> same_slots s (change_object k f s)"
  by (simp add: same_slots_def map_change_object)

lemma same_slots_bindE:
  assumes "bindE r (\<lambda>_. Inr (change_object k f s)) = Inr s'" "\<And>x. ax_reservation (f x) = ax_reservation x"
  shows "same_slots s s'"
  using assms same_slots_change by (auto simp: bindE_eq_Inr)

lemma same_slots_stop: "same_slots s (stopExecution i s)"
proof (cases "mget (av_active s) i")
  case (Some k)
  let ?s = "change_object k (\<lambda>x. x\<lparr>ax_response := map_option (settle Rejected) (ax_response x)\<rparr>) s"
  have "same_slots s ?s" by (rule same_slots_change) simp
  moreover have "same_slots ?s (change_object k (\<lambda>x. x\<lparr>ax_promise := settle Rejected (ax_promise x)\<rparr>) ?s)"
    by (rule same_slots_change) simp
  ultimately show ?thesis using Some by (simp add: stopExecution_def same_slots_def Let_def)
qed (simp add: stopExecution_def same_slots_def)

theorem own_step_slots:
  assumes "own_step cfg s s'" "slots_ok x cfg s"
  shows "slots_ok x cfg s'"
proof -
  have other: "slots_ok x cfg s'" if "same_slots s s'"
    using that by (intro slots_ok_cong [OF assms(2)]) (simp_all add: same_slots_def)
  from assms(1) show ?thesis
  proof cases
    case (add a r)
    then show ?thesis using add_slots [OF assms(2)] by simp
  next
    case (go_on a db updated now r)
    then show ?thesis using continue_slots [OF assms(2)] by simp
  next
    case (settled k r)
    then show ?thesis using post_execute_slots [OF assms(2)] by simp
  next
    case (attach i)
    then show ?thesis by (intro other, unfold attachWorkflowExecution_def) (erule same_slots_bindE, simp)
  next
    case (attach_response i)
    then show ?thesis by (intro other, unfold attachResponsePromise_def) (erule same_slots_bindE, simp)
  next
    case (status i st)
    then show ?thesis by (intro other, unfold setExecutionStatus_def) (erule same_slots_bindE, simp)
  next
    case (respond i)
    then show ?thesis by (intro other) (auto simp: resolveResponsePromise_def intro!: same_slots_change split: option.splits, simp add: same_slots_def)
  next
    case (redirect i)
    then show ?thesis by (intro other) (auto simp: resolveExecutionResponsePromise_def intro!: same_slots_change split: option.splits, simp_all add: same_slots_def)
  next
    case (stop i)
    then show ?thesis by (intro other) (simp add: same_slots_stop)
  next
    case (finalize i)
    then show ?thesis by (intro other) (auto simp: finalizeExecution_def intro!: same_slots_change split: option.splits, simp add: same_slots_def)
  next
    case (response_mode i m)
    then show ?thesis by (intro other) (simp add: setResponseMode_def same_slots_def)
  qed
qed

section \<open>Identities\<close>

text \<open>
  What a step does to objects: identifiers stay, only new objects become active, and an object that is not active
  is left alone until its promise is settled.
\<close>

definition step_effect :: "active_executions \<Rightarrow> active_executions \<Rightarrow> bool" where
  "step_effect s s' \<longleftrightarrow> length (av_objects s) \<le> length (av_objects s')
     \<and> (\<forall>k < length (av_objects s). ax_id (av_objects s' ! k) = ax_id (av_objects s ! k)
          \<and> ((\<forall>i. mget (av_active s) i \<noteq> Some k) \<longrightarrow> ax_promise (av_objects s ! k) = Pending \<longrightarrow> av_objects s' ! k = av_objects s ! k))
     \<and> (\<forall>i k. mget (av_active s') i = Some k \<longrightarrow> mget (av_active s) i = Some k
          \<or> k = length (av_objects s) \<and> k < length (av_objects s') \<and> ax_id (av_objects s' ! k) = i)"

lemma nth_update: "xs[k := x] ! j = (if j = k \<and> k < length xs then x else xs ! j)"
  by (cases "k < length xs") (auto simp: nth_list_update list_update_beyond)

lemma step_effect_refl: "av_objects s' = av_objects s \<Longrightarrow> av_active s' = av_active s \<Longrightarrow> step_effect s s'"
  by (simp add: step_effect_def)

lemma step_effect_change:
  "mget (av_active s) i = Some k \<Longrightarrow> (\<And>x. ax_id (f x) = ax_id x) \<Longrightarrow> step_effect s (change_object k f s)"
  by (auto simp: step_effect_def change_object_def nth_update)

lemma step_effect_bindE:
  assumes "bindE (getExecutionOrFail i s) (\<lambda>_. Inr (change_object (the (mget (av_active s) i)) f s)) = Inr s'" "\<And>x. ax_id (f x) = ax_id x"
  shows "step_effect s s'"
  using assms step_effect_change [of s i] by (auto simp: bindE_eq_Inr getExecutionOrFail_def split: option.splits)

lemma step_effect_stop: "step_effect s (stopExecution i s)"
proof (cases "mget (av_active s) i")
  case (Some k)
  let ?f = "\<lambda>x. x\<lparr>ax_response := map_option (settle Rejected) (ax_response x)\<rparr>"
  have "(change_object k f s)\<lparr>av_active := mdel i (av_active s), av_responseModes := m\<rparr>
      = change_object k f (s\<lparr>av_active := mdel i (av_active s), av_responseModes := m\<rparr>)" for f m by (simp add: change_object_def)
  moreover have "step_effect s (change_object k ?f (s\<lparr>av_active := mdel i (av_active s), av_responseModes := m\<rparr>))" for m
    using Some by (auto simp: step_effect_def change_object_def nth_update)
  moreover have "change_object k g (change_object k ?f s) = change_object k (\<lambda>x. g (?f x)) s" for g
    by (cases "k < length (av_objects s)") (simp_all add: change_object_def list_update_beyond)
  moreover have "step_effect s (change_object k (\<lambda>x. (?f x)\<lparr>ax_promise := settle Rejected (ax_promise (?f x))\<rparr>) s)"
    by (rule step_effect_change [OF Some]) simp
  ultimately show ?thesis using Some by (simp add: stopExecution_def Let_def)
qed (simp add: stopExecution_def step_effect_refl)

lemma step_effect_post:
  assumes "ax_promise (av_objects s ! k) \<noteq> Pending" "post_execute cfg k s = (s', r)"
  shows "step_effect s s'"
proof -
  define s1 where "s1 = change_object k (\<lambda>x. x\<lparr>ax_done := True\<rparr>) s"
  obtain s2 e where rel: "release_reservation cfg (ax_reservation (av_objects s ! k)) s1 = (s2, e)" by fastforce
  have "av_objects s2 = (av_objects s)[k := (av_objects s ! k)\<lparr>ax_done := True\<rparr>]" "av_active s2 = av_active s"
    using release_objects [OF rel] by (simp_all add: s1_def change_object_def)
  then have eff: "step_effect s s'" if "av_objects s' = av_objects s2 \<or> (\<exists>x. av_objects s' = (av_objects s2)[k := x] \<and> ax_id x = ax_id (av_objects s2 ! k))"
    "av_active s' = av_active s \<or> (\<exists>i. av_active s' = mdel i (av_active s))" for s'
    using that assms(1) by (auto simp: step_effect_def nth_update split: if_splits)
  show ?thesis
  proof (cases e)
    case (Some err)
    with assms(2) rel have "s' = s2" by (simp add: post_execute_def Let_def s1_def)
    then show ?thesis using \<open>av_active s2 = av_active s\<close> by (intro eff) simp_all
  next
    case None
    let ?s = "change_object k (\<lambda>x. x\<lparr>ax_reservation := None\<rparr>) s2"
    have "s' = (if ax_status (av_objects s ! k) = ''waiting'' then change_object k (\<lambda>x. x\<lparr>ax_attached := False\<rparr>) ?s
        else ?s\<lparr>av_active := mdel (ax_id (av_objects s ! k)) (av_active ?s), av_responseModes := mdel (ax_id (av_objects s ! k)) (av_responseModes ?s)\<rparr>)"
      using assms(2) rel None by (simp add: post_execute_def Let_def s1_def split: if_splits)
    moreover have "change_object k f ?s = change_object k (\<lambda>x. f (x\<lparr>ax_reservation := None\<rparr>)) s2" for f
      by (cases "k < length (av_objects s2)") (simp_all add: change_object_def list_update_beyond)
    ultimately show ?thesis using \<open>av_active s2 = av_active s\<close> by (intro eff) (auto simp: change_object_def)
  qed
qed

lemma step_effect_continue:
  assumes "continue_add cfg a db updated now s = (s', r)"
  shows "step_effect s s'"
proof -
  let ?s = "s\<lparr>av_started := remove1 a (av_started s)\<rparr>"
  from assms consider "s' = register_execution a now ?s" | r' where "release_reservation cfg (Some (ac_mode a)) ?s = (s', r')"
    by (auto simp: continue_add_def Let_def split: option.splits if_splits prod.splits)
  then show ?thesis
  proof cases
    case 1
    then show ?thesis by (auto simp: step_effect_def register_execution_def Let_def nth_append split: if_splits)
  next
    case 2
    then show ?thesis using release_objects [OF 2] by (simp add: step_effect_refl)
  qed
qed

lemma own_step_effect: "own_step cfg s s' \<Longrightarrow> step_effect s s'"
proof (induction rule: own_step.induct)
  case (add a s s' r)
  then show ?case by (intro step_effect_refl) (auto simp: add_execution_def split: prod.splits sum.splits bool.splits)
next
  case (go_on a s db updated now s' r)
  then show ?case by (intro step_effect_continue)
next
  case (settled k s s' r)
  then show ?case by (intro step_effect_post)
next
  case (attach i s s')
  then show ?case unfolding attachWorkflowExecution_def by (rule step_effect_bindE) simp
next
  case (attach_response i s s')
  then show ?case unfolding attachResponsePromise_def by (rule step_effect_bindE) simp
next
  case (status i st s s')
  then show ?case unfolding setExecutionStatus_def by (rule step_effect_bindE) simp
next
  case (respond s i)
  then show ?case by (auto simp: resolveResponsePromise_def step_effect_refl intro: step_effect_change split: option.splits)
next
  case (redirect s i)
  then show ?case by (auto simp: resolveExecutionResponsePromise_def step_effect_refl intro: step_effect_change split: option.splits)
next
  case (stop s i)
  then show ?case by (rule step_effect_stop)
next
  case (finalize s i)
  then show ?case by (auto simp: finalizeExecution_def step_effect_refl intro: step_effect_change split: option.splits)
next
  case (response_mode s i m)
  then show ?case by (simp add: setResponseMode_def step_effect_refl)
qed

lemma drop_waiting_objects [simp]:
  "av_objects (drop_waiting mode i s) = av_objects s" "av_active (drop_waiting mode i s) = av_active s"
  by (simp_all add: drop_waiting_def split: sum.splits option.splits)

lemma step_effect_remove: "remove_execution cfg mode i s = (s', r) \<Longrightarrow> step_effect s s'"
  by (intro step_effect_refl) (auto simp: remove_execution_def Let_def split: prod.splits sum.splits if_splits)

lemma active_step_effect: "active_step cfg s s' \<Longrightarrow> step_effect s s'"
  by (auto elim!: active_step.cases intro: own_step_effect step_effect_remove)

definition active_wf :: "active_executions \<Rightarrow> bool" where
  "active_wf s \<longleftrightarrow> (\<forall>i k. mget (av_active s) i = Some k \<longrightarrow> k < length (av_objects s) \<and> ax_id (av_objects s ! k) = i)"

lemma active_wf_effect: "active_wf s \<Longrightarrow> step_effect s s' \<Longrightarrow> active_wf s'"
  unfolding active_wf_def step_effect_def by (metis order.strict_trans2)

text \<open>An object that is not active any more and whose promise is pending.\<close>

definition orphan :: "execution \<Rightarrow> nat \<Rightarrow> active_executions \<Rightarrow> bool" where
  "orphan ob k s \<longleftrightarrow> k < length (av_objects s) \<and> (\<forall>i. mget (av_active s) i \<noteq> Some k) \<and> av_objects s ! k = ob \<and> ax_promise ob = Pending"

lemma orphan_effect: "orphan ob k s \<Longrightarrow> step_effect s s' \<Longrightarrow> orphan ob k s'"
  unfolding orphan_def step_effect_def by (metis order.strict_trans2 nless_le)

lemma process_run_slots: "process_run cfg n s \<Longrightarrow> slots_ok n cfg s"
proof (induction rule: process_run.induct)
  case (started c)
  then show ?case by (rule slots_ok_new)
next
  case (own n s s')
  then show ?case using own_step_slots by blast
next
  case (removal n s mode i s' r)
  then show ?case using remove_slots by blast
qed

lemma steps_keep:
  assumes "(active_step cfg)\<^sup>*\<^sup>* s s'" "P s" "\<And>s s'. active_step cfg s s' \<Longrightarrow> P s \<Longrightarrow> P s'"
  shows "P s'"
  using assms by (induction rule: rtranclp_induct) auto

lemma reachable_process_run:
  assumes "reachable cfg s"
  shows "\<exists>n. process_run cfg n s"
proof -
  from assms obtain c where c: "new_control cfg = Inr c" "(active_step cfg)\<^sup>*\<^sup>* (new_active_executions c) s"
    unfolding reachable_def by (elim exE conjE)
  show ?thesis
  proof (rule steps_keep [OF c(2), of "\<lambda>s. \<exists>n. process_run cfg n s"])
    show "\<exists>n. process_run cfg n (new_active_executions c)" using process_run.started [OF c(1)] by blast
  next
    fix s s'
    assume "active_step cfg s s'" "\<exists>n. process_run cfg n s"
    then show "\<exists>n. process_run cfg n s'" by (elim exE) (erule active_step.cases; blast intro: process_run.own process_run.removal)
  qed
qed

lemma reachable_slots: "reachable cfg s \<Longrightarrow> \<exists>n. slots_ok n cfg s"
  using reachable_process_run process_run_slots by blast

lemma reachable_wf:
  assumes "reachable cfg s"
  shows "active_wf s"
proof -
  from assms obtain c where c: "(active_step cfg)\<^sup>*\<^sup>* (new_active_executions c) s" unfolding reachable_def by (elim exE conjE)
  show ?thesis
  proof (rule steps_keep [OF c])
    show "active_wf (new_active_executions c)" by (simp add: active_wf_def new_active_executions_def)
  qed (rule active_wf_effect [OF _ active_step_effect])
qed

end
