(* ===== verification/Executions_Properties.thy ===== *)
theory Executions_Properties
  imports Active_Executions
begin

text \<open>
  Properties of the executions of a process and of their limits: the limit holds in every order of steps, but for one execution more with every removal of a waiting one, a slot that is
  freed goes to the execution that waits the longest, and the three ways in which the count goes wrong.
\<close>

section \<open>Progress of waiting calls\<close>

lemma items_of_Some: "queue_of c t = Some q \<Longrightarrow> items_of c t = cq_items q"
  by (simp add: items_of_def)

lemma items_of_None: "queue_of c t = None \<Longrightarrow> items_of c t = []"
  by (simp add: items_of_def)

lemma release_first:
  assumes ok: "capacity_ok x cfg h c" and t: "queue_type mode = Inr (Some t)" and i: "items_of c t = i # rest"
  shows "\<exists>c'. release_capacity cfg mode c = (c', Inr (Some i))"
proof -
  obtain c' r where rc: "release_capacity cfg mode c = (c', r)" by fastforce
  have "r = Inr (Some i)"
  proof (rule with_queue_cases [OF ok rc [unfolded release_capacity_def]])
    assume "items_of c' = items_of c" and none: "\<And>t. queue_type mode = Inr (Some t) \<Longrightarrow> queue_of c' t = None \<and> (t = Evaluation \<longrightarrow> cc_evalQueueResolved c')"
    have "items_of c' t = []" by (rule items_of_None) (rule none [OF t, THEN conjunct1])
    with \<open>items_of c' = items_of c\<close> i show ?thesis by simp
  next
    fix c1 t' q q' y
    assume "items_of c1 = items_of c" "queue_type mode = Inr (Some t')" "queue_of c1 t' = Some q" "cq_dequeue q = (q', y)" "r = Inr y"
    moreover from this have "items_of c1 t = cq_items q" using t by (intro items_of_Some) simp
    ultimately show ?thesis using i by (simp add: cq_dequeue_def cq_resolveNext_def split: list.splits)
  qed (use t in auto)
  with rc show ?thesis by auto
qed

lemma slots_ok_queue:
  assumes "slots_ok x cfg s" "queue_of (av_control s) t = Some q"
  shows "\<exists>limit. mget (cc_limits (av_control s)) t = Some limit \<and> semaphore x limit (held s t) q \<and> cc_isEnabled (av_control s)"
proof -
  have "capacity_ok x cfg (held s) (av_control s)" using assms(1) by (simp add: slots_ok_def)
  then show ?thesis using assms(2) unfolding capacity_ok_def by blast
qed

lemma find_filter: "filter P xs = a # rest \<Longrightarrow> find (\<lambda>x. P x \<and> g x = g a) xs = Some a"
  by (induction xs) (auto split: if_splits)

lemma release_starts_first:
  assumes "slots_ok x cfg s" "queue_type mode = Inr (Some t)" "filter (waits_in t) (av_waiting s) = a # rest"
  shows "\<exists>c. release_reservation cfg (Some mode) s
    = (s\<lparr>av_control := c, av_waiting := remove1 a (av_waiting s), av_started := av_started s @ [a]\<rparr>, None)"
proof -
  have "items_of (av_control s) t = ac_id a # map ac_id rest" using assms(1,3) by (simp add: slots_ok_def)
  moreover have "capacity_ok x cfg (held s) (av_control s)" using assms(1) by (simp add: slots_ok_def)
  ultimately obtain c where "release_capacity cfg mode (av_control s) = (c, Inr (Some (ac_id a)))"
    using release_first [OF _ assms(2)] by fast
  then show ?thesis using assms(2) find_filter [OF assms(3), of ac_id]
    by (intro exI [of _ c]) (simp add: release_reservation_def start_next_def start_waiting_def)
qed

section \<open>States reached by calls\<close>

lemma reachable_new: "new_control cfg = Inr c \<Longrightarrow> reachable cfg (new_active_executions c)"
  by (auto simp: reachable_def)

lemma reachable_step: "reachable cfg s \<Longrightarrow> active_step cfg s s' \<Longrightarrow> reachable cfg s'"
  unfolding reachable_def by (meson rtranclp.rtrancl_into_rtrancl)

lemma run_reachable: "process_run cfg n s \<Longrightarrow> reachable cfg s"
  by (induction rule: process_run.induct) (blast intro: reachable_new reachable_step active_step.intros)+

lemma run_add: "process_run cfg n s \<Longrightarrow> process_run cfg n (fst (add_execution cfg a s))"
  by (rule process_run.own [OF _ own_step.add [of cfg a s _ "snd (add_execution cfg a s)"]]) simp_all

lemma run_go_on: "process_run cfg n s \<Longrightarrow> a \<in> set (av_started s) \<Longrightarrow> process_run cfg n (fst (continue_add cfg a db updated now s))"
  by (rule process_run.own [OF _ own_step.go_on [of a s cfg db updated now _ "snd (continue_add cfg a db updated now s)"]]) simp_all

text \<open>A process with one slot for production executions, and three calls of \<^verbatim>\<open>add\<close>.\<close>

definition one_slot :: concurrency_config where
  "one_slot = \<lparr>cfg_queueMode = False, cfg_productionLimit = 1, cfg_evaluationLimit = - 1, cfg_envSet = False,
     cfg_quota = None, cfg_plan = ''Community''\<rparr>"

definition webhook_call :: "string \<Rightarrow> add_call" where
  "webhook_call i = \<lparr>ac_id = i, ac_mode = ''webhook'', ac_existing = False\<rparr>"

definition idle_process :: active_executions where
  "idle_process = new_active_executions (case new_control one_slot of Inr c \<Rightarrow> c
     | Inl _ \<Rightarrow> \<lparr>cc_isEnabled = False, cc_limits = [], cc_queues = None, cc_evalQueueResolved = False\<rparr>)"

definition busy_process :: active_executions where
  "busy_process = fst (add_execution one_slot (webhook_call ''3'') (fst (add_execution one_slot (webhook_call ''2'')
     (fst (continue_add one_slot (webhook_call ''1'') None True 7 (fst (add_execution one_slot (webhook_call ''1'') idle_process)))))))"

lemma idle_run: "process_run one_slot 0 idle_process"
proof -
  have "case new_control one_slot of Inl _ \<Rightarrow> False | Inr _ \<Rightarrow> True" by code_simp
  then show ?thesis by (auto simp: idle_process_def intro: process_run.started split: sum.splits)
qed

lemma busy_run: "process_run one_slot 0 busy_process"
proof -
  have "webhook_call ''1'' \<in> set (av_started (fst (add_execution one_slot (webhook_call ''1'') idle_process)))" by code_simp
  then show ?thesis unfolding busy_process_def by (intro run_add run_go_on idle_run)
qed

lemma busy_reachable: "reachable one_slot busy_process"
  by (rule run_reachable [OF busy_run])

section \<open>The limit\<close>

text \<open>C6: until the process shuts down (which switches the limits off), whatever the order of its calls and the answers of the
  database, the slots of a queue that are held are at most its limit and the number \<open>n\<close> of removals of waiting executions
  before (the limit itself when there were none); its capacity is the limit less the held slots and the waiting calls, it lists the
  waiting calls in their order, and a call only waits when the held slots reach the limit.\<close>

theorem concurrency_limit_kept:
  assumes "process_run cfg n s" "queue_of (av_control s) t = Some q"
  shows "\<exists>limit. mget (cc_limits (av_control s)) t = Some limit \<and> int (held s t) \<le> limit + int n
    \<and> cq_items q = map ac_id (filter (waits_in t) (av_waiting s))
    \<and> cq_capacity q = limit - int (held s t) - int (length (cq_items q)) \<and> (cq_items q = [] \<or> limit \<le> int (held s t))"
proof -
  have s: "slots_ok n cfg s" by (rule process_run_slots [OF assms(1)])
  from slots_ok_queue [OF s assms(2)] obtain limit
    where l: "mget (cc_limits (av_control s)) t = Some limit" "semaphore n limit (held s t) q" by (elim exE conjE)
  have "cq_items q = map ac_id (filter (waits_in t) (av_waiting s))" using s items_of_Some [OF assms(2)] by (simp add: slots_ok_def)
  with l show ?thesis by (auto simp: semaphore_def)
qed

theorem concurrency_limit_kept_witness:
  "\<exists>limit. mget (cc_limits (av_control busy_process)) Production = Some limit \<and> int (held busy_process Production) \<le> limit"
proof -
  have "queue_of (av_control busy_process) Production = Some \<lparr>cq_capacity = - 2, cq_items = [''2'', ''3'']\<rparr>" by code_simp
  from concurrency_limit_kept [OF busy_run this] show ?thesis by auto
qed

text \<open>C7: no slot is lost: when the promise of an execution with a slot is settled and calls wait in its queue, the call that
  waits the longest goes on, and the others stay in their order.\<close>

theorem settled_execution_starts_first_waiting:
  assumes "reachable cfg s" "ax_reservation (av_objects s ! k) = Some mode" "queue_type mode = Inr (Some t)"
    "filter (waits_in t) (av_waiting s) = a # rest" "post_execute cfg k s = (s', r)"
  shows "r = None \<and> av_started s' = av_started s @ [a] \<and> filter (waits_in t) (av_waiting s') = rest"
proof -
  let ?s = "change_object k (\<lambda>x. x\<lparr>ax_done := True\<rparr>) s"
  from reachable_slots [OF assms(1)] obtain n where "slots_ok n cfg s" ..
  then have "slots_ok n cfg ?s" by (rule slots_ok_cong) (simp_all add: map_change_object)
  from release_starts_first [OF this assms(3)] assms(4) obtain c where
    rel: "release_reservation cfg (Some mode) ?s = (?s\<lparr>av_control := c, av_waiting := remove1 a (av_waiting s), av_started := av_started s @ [a]\<rparr>, None)"
    by auto
  have "filter (waits_in t) (remove1 a (av_waiting s)) = remove1 a (filter (waits_in t) (av_waiting s))" by (simp add: filter_remove1)
  with assms(2,4,5) rel show ?thesis by (auto simp: post_execute_def Let_def split: if_splits)
qed

theorem settled_execution_starts_first_waiting_witness:
  "av_started (fst (post_execute one_slot 0 (finalizeExecution ''1'' busy_process))) = [webhook_call ''2'']"
proof -
  let ?s = "finalizeExecution ''1'' busy_process"
  have reach: "reachable one_slot ?s" by (rule reachable_step [OF busy_reachable active_step.own [OF own_step.finalize]])
  have s: "ax_reservation (av_objects ?s ! 0) = Some ''webhook''" "queue_type ''webhook'' = Inr (Some Production)"
    "filter (waits_in Production) (av_waiting ?s) = [webhook_call ''2'', webhook_call ''3'']" by code_simp+
  have "av_started ?s = []" by code_simp
  with settled_execution_starts_first_waiting [OF reach s prod.collapse [symmetric]] show ?thesis by simp
qed

section \<open>Where the count goes wrong\<close>

text \<open>C40: stopping an execution that waits for a slot, while others wait in its queue, starts one of them although no slot is free: in
  any state that can be reached, one more slot is held afterwards, and the held ones had reached the limit before.\<close>

theorem remove_exceeds_limit:
  assumes "reachable cfg s" "a \<in> set (av_waiting s)" "waits_in t a" "1 < length (filter (waits_in t) (av_waiting s))"
    "mget (cc_limits (av_control s)) t = Some limit"
  shows "held (fst (remove_execution cfg (ac_mode a) (ac_id a) s)) t = Suc (held s t) \<and> limit \<le> int (held s t)"
proof -
  from reachable_slots [OF assms(1)] obtain n where s: "slots_ok n cfg s" ..
  have ta: "queue_type (ac_mode a) = Inr (Some t)" using assms(3) by (simp add: waits_in_def)
  let ?items = "map ac_id (filter (waits_in t) (av_waiting s))"
  have items: "items_of (av_control s) t = ?items" using s by (simp add: slots_ok_def)
  then obtain q where q: "queue_of (av_control s) t = Some q" "cq_items q = ?items"
    using assms(4) by (cases "queue_of (av_control s) t") (auto simp: items_of_def)
  with slots_ok_queue [OF s q(1)] assms(5) have sem: "semaphore n limit (held s t) q" "cc_isEnabled (av_control s)" by auto
  have "ac_id a \<in> set (cq_items q)" "1 < length (cq_items q)" using q(2) assms(2,3,4) by auto
  from remove_starts_without_slot [OF sem(1) this] obtain q' j where
    rm: "cq_remove (ac_id a) q = (q', Some j)" "remove1 (ac_id a) ?items = j # cq_items q'" "limit \<le> int (held s t)"
    unfolding q(2) by (elim exE conjE)
  obtain qs where qs: "cc_queues (av_control s) = Some qs" "mget qs t = Some q" using q(1) by (auto simp: queue_of_def bind_eq_Some_conv)
  have "cc_evalQueueResolved (av_control s)" if "ac_mode a = ''evaluation''"
    using s q(1) ta that by (auto simp: slots_ok_def capacity_ok_def queue_type_def)
  then have "(if ac_mode a = ''evaluation'' then ensureEvalQueueResolved cfg (av_control s) else (av_control s, None)) = (av_control s, None)"
    by (simp add: ensureEvalQueueResolved_def)
  moreover have "getQueue (ac_mode a) (av_control s) = Inr (Some (t, q))" using ta qs by (simp add: getQueue_def)
  ultimately have rq: "remove_queued cfg (ac_mode a) (ac_id a) (av_control s) = (put_queue t q' (av_control s), Inr (Some j))"
    using sem(2) rm(1) unfolding remove_queued_def with_queue_def by simp
  define s1 where "s1 = drop_waiting (ac_mode a) (ac_id a) (s\<lparr>av_control := put_queue t q' (av_control s)\<rparr>)"
  have "map ac_id (filter (waits_in t) (av_waiting s1)) = j # cq_items q'" using rm(2) ta by (simp add: s1_def drop_waiting_items)
  from find_first_waiting [OF this] obtain b where
    b: "find (\<lambda>x. waits_in t x \<and> ac_id x = j) (av_waiting s1) = Some b" "waits_in t b" by blast
  have "fst (remove_execution cfg (ac_mode a) (ac_id a) s) = start_waiting t j s1"
    using rq sem(2) ta by (simp add: remove_execution_def start_next_def s1_def Let_def)
  then have "fst (remove_execution cfg (ac_mode a) (ac_id a) s) = s1\<lparr>av_waiting := remove1 b (av_waiting s1), av_started := av_started s1 @ [b]\<rparr>"
    using b(1) by (simp add: start_waiting_def)
  moreover have "held s1 t = held s t" by (simp add: s1_def) (simp add: held_def)
  moreover have "slot (ac_mode b) t = 1" using b(2) by (simp add: waits_in_def slot_def)
  ultimately show ?thesis using rm(3) by (simp add: held_def)
qed

theorem remove_exceeds_limit_witness:
  "held (fst (remove_execution one_slot ''webhook'' ''3'' busy_process)) Production = 2"
proof -
  have s: "webhook_call ''3'' \<in> set (av_waiting busy_process)" "waits_in Production (webhook_call ''3'')"
    "1 < length (filter (waits_in Production) (av_waiting busy_process))" "mget (cc_limits (av_control busy_process)) Production = Some 1" by code_simp+
  have "held busy_process Production = 1" by code_simp
  with remove_exceeds_limit [OF busy_reachable s] show ?thesis by (simp add: webhook_call_def)
qed

text \<open>C37: an execution that is stopped after its status has become waiting, and before its run is finalized, never gives its slot
  back: it is not active any more, so whatever happens later (short of a shutdown) its promise stays pending and its reservation is kept.\<close>

theorem stopped_while_waiting_keeps_slot:
  assumes "reachable cfg s" "mget (av_active s) i = Some k" "ax_status (av_objects s ! k) = ''waiting''"
    "ax_promise (av_objects s ! k) = Pending" "(active_step cfg)\<^sup>*\<^sup>* (stopExecution i s) s'"
  shows "ax_promise (av_objects s' ! k) = Pending \<and> ax_reservation (av_objects s' ! k) = ax_reservation (av_objects s ! k)
    \<and> (\<forall>j. mget (av_active s') j \<noteq> Some k)"
proof -
  have wf: "k < length (av_objects s)" "ax_id (av_objects s ! k) = i" "\<And>j. mget (av_active s) j = Some k \<Longrightarrow> j = i"
    using reachable_wf [OF assms(1)] assms(2) unfolding active_wf_def by auto
  let ?ob = "(av_objects s ! k)\<lparr>ax_response := map_option (settle Rejected) (ax_response (av_objects s ! k))\<rparr>"
  have stop: "stopExecution i s = s\<lparr>av_objects := (av_objects s)[k := ?ob], av_active := mdel i (av_active s),
      av_responseModes := mdel i (av_responseModes s)\<rparr>"
    by (simp add: stopExecution_def assms(2,3) change_object_def Let_def wf(1))
  have none: "mget (mdel i (av_active s)) j \<noteq> Some k" for j using wf(3) [of j] by (auto simp: mget_del)
  have "orphan ?ob k (stopExecution i s)"
    unfolding orphan_def stop using none by (simp add: wf(1) assms(4) del: mget_del)
  then have "orphan ?ob k s'" by (rule steps_keep [OF assms(5)]) (rule orphan_effect [OF _ active_step_effect])
  then show ?thesis using assms(4) by (simp add: orphan_def)
qed

definition waiting_process :: active_executions where
  "waiting_process = (case setExecutionStatus ''1'' ''waiting'' busy_process of Inr s \<Rightarrow> s | Inl _ \<Rightarrow> idle_process)"

theorem stopped_while_waiting_keeps_slot_witness:
  "ax_reservation (av_objects (finalizeExecution ''1'' (stopExecution ''1'' waiting_process)) ! 0) = Some ''webhook''"
proof -
  have w: "setExecutionStatus ''1'' ''waiting'' busy_process = Inr waiting_process" by code_simp
  have reach: "reachable one_slot waiting_process" by (rule reachable_step [OF busy_reachable active_step.own [OF own_step.status [OF w]]])
  have s: "mget (av_active waiting_process) ''1'' = Some 0" "ax_status (av_objects waiting_process ! 0) = ''waiting''"
    "ax_promise (av_objects waiting_process ! 0) = Pending" by code_simp+
  have r: "ax_reservation (av_objects waiting_process ! 0) = Some ''webhook''" by code_simp
  have "(active_step one_slot)\<^sup>*\<^sup>* (stopExecution ''1'' waiting_process) (finalizeExecution ''1'' (stopExecution ''1'' waiting_process))"
    by (intro r_into_rtranclp active_step.own [OF own_step.finalize])
  from stopped_while_waiting_keeps_slot [OF reach s this] r show ?thesis by simp
qed

lemma shutdown_execution_frame:
  "fst (shutdown_execution b i (s, l)) = s' \<Longrightarrow> av_control s' = av_control s \<and> av_waiting s' = av_waiting s \<and> av_started s' = av_started s"
  using same_slots_stop [of s i] by (auto simp: shutdown_execution_def Let_def same_slots_def split: option.splits if_splits)

lemma shutdown_fold_frame:
  "foldl (\<lambda>acc i. shutdown_execution b i acc) (s, l) ids = (s', l') \<Longrightarrow>
     av_control s' = av_control s \<and> av_waiting s' = av_waiting s \<and> av_started s' = av_started s"
proof (induction ids arbitrary: s l)
  case (Cons i ids)
  obtain s1 l1 where "shutdown_execution b i (s, l) = (s1, l1)" by fastforce
  with Cons.IH [of s1 l1] Cons.prems shutdown_execution_frame [of b i s l s1] show ?case by simp
qed simp

text \<open>a shutdown never cancels an execution in the database and starts none that waits: the limits are disabled before
  \<^verbatim>\<open>removeAll\<close> is called, which then returns at once.\<close>

theorem shutdown_cancels_nothing:
  assumes "reachable cfg s"
  shows "snd (shutdown cfg cancelAll s) = [] \<and> av_waiting (fst (shutdown cfg cancelAll s)) = av_waiting s
    \<and> av_started (fst (shutdown cfg cancelAll s)) = av_started s"
proof -
  define s0 where "s0 = (if \<not> cfg_queueMode cfg then s\<lparr>av_control := disable_control (av_control s)\<rparr> else s)"
  have off: "\<not> cc_isEnabled (av_control s0)"
    using reachable_slots [OF assms] by (auto simp: s0_def disable_control_def slots_ok_def capacity_ok_def)
  obtain s1 l where f: "foldl (\<lambda>acc i. shutdown_execution (\<not> cfg_queueMode cfg \<and> cancelAll) i acc) (s0, []) (obj_keys (av_active s0)) = (s1, l)"
    by fastforce
  have s1: "av_control s1 = av_control s0" "av_waiting s1 = av_waiting s" "av_started s1 = av_started s"
    using shutdown_fold_frame [OF f] by (simp_all add: s0_def)
  have "shutdown cfg cancelAll s = (s1\<lparr>av_control := av_control s0\<rparr>, [])"
    using f off s1(1) by (simp add: shutdown_def Let_def s0_def [symmetric] removeAll_queued_def)
  with s1 show ?thesis by simp
qed

theorem shutdown_cancels_nothing_witness:
  "snd (shutdown one_slot True busy_process) = []"
  using shutdown_cancels_nothing [OF busy_reachable] by simp

end
