(* ===== verification/Workflow_Diff.thy ===== *)
theory Workflow_Diff
  imports Connections_Diff "HOL-Library.Sublist" "HOL-Library.Multiset"
begin

text \<open>
  \<^verbatim>\<open>packages/workflow/src/workflow-diff.ts\<close>: the differences between two versions of a workflow, and the grouping of a
  history of versions by rules that say when a version may be dropped in favour of the next one. Nodes are objects with any
  properties; \<^verbatim>\<open>isEqual\<close> and \<^verbatim>\<open>pick\<close> of lodash are written out for JSON values.
\<close>

section \<open>Values\<close>

fun js_typeof :: "json \<Rightarrow> string" where
  "js_typeof JNull = ''object''"
| "js_typeof JUndef = ''undefined''"
| "js_typeof (JBool _) = ''boolean''"
| "js_typeof (JNum _) = ''number''"
| "js_typeof (JStr _) = ''string''"
| "js_typeof (JArr _) = ''object''"
| "js_typeof (JObj _) = ''object''"

definition get_prop :: "json obj \<Rightarrow> string \<Rightarrow> json" where
  "get_prop m k = (case mget m k of None \<Rightarrow> JUndef | Some v \<Rightarrow> v)"

lemma size_zip_left: "(v, w) \<in> set (zip xs ys) \<Longrightarrow> size v < size (JArr xs)"
  by (auto dest!: set_zip_leftD simp: less_Suc_eq_le intro: size_list_estimation')

lemma size_entry: "(k, v) \<in> set kvs \<Longrightarrow> size v < size (JObj kvs)"
  by (auto simp: less_Suc_eq_le intro!: size_list_estimation' [where x = "(k, v)"])

text \<open>\<^verbatim>\<open>isEqual\<close>: objects are compared without regard to the order of their keys.\<close>

function (sequential) isEqual :: "json \<Rightarrow> json \<Rightarrow> bool" where
  "isEqual (JArr xs) (JArr ys) = (length xs = length ys \<and> list_all (\<lambda>(x, y). isEqual x y) (zip xs ys))"
| "isEqual (JObj a) (JObj b) = (length a = length b
     \<and> list_all (\<lambda>(k, v). case mget b k of None \<Rightarrow> False | Some w \<Rightarrow> isEqual v w) a)"
| "isEqual x y = (x = y)"
  by pat_completeness auto

termination isEqual
  by (relation "measure (\<lambda>(x, y). size x)") (auto simp del: json.size dest: size_zip_left size_entry)

definition pick :: "json obj \<Rightarrow> string list \<Rightarrow> json obj" where
  "pick m ks = List.map_filter (\<lambda>k. map_option (Pair k) (mget m k)) ks"

section \<open>Differences of nodes\<close>

record diff_node =
  dn_id :: string
  dn_props :: "json obj"

definition compareNodes :: "diff_node option \<Rightarrow> diff_node option \<Rightarrow> bool" where
  "compareNodes base target =
     (let propsToCompare = [''name'', ''type'', ''typeVersion'', ''webhookId'', ''credentials'', ''parameters'']
      in isEqual (JObj (pick (case_option [] dn_props base) propsToCompare))
           (JObj (pick (case_option [] dn_props target) propsToCompare)))"

datatype diff_status = Eq | Modified | Added | Deleted

type_synonym workflow_diff = "(string, diff_status \<times> diff_node) jsmap"

definition nodes_by_id :: "diff_node list \<Rightarrow> (string, diff_node) jsmap" where
  "nodes_by_id nodes = foldl (\<lambda>acc node. mset_at (dn_id node) node acc) [] nodes"

definition compareWorkflowsNodes ::
  "(diff_node option \<Rightarrow> diff_node option \<Rightarrow> bool) \<Rightarrow> diff_node list \<Rightarrow> diff_node list \<Rightarrow> workflow_diff" where
  "compareWorkflowsNodes nodesEqual base target =
     (let baseNodes = nodes_by_id base;
          targetNodes = nodes_by_id target;
          diff = foldl (\<lambda>diff (id, node).
            if \<not> mhas targetNodes id then mset_at id (Deleted, node) diff
            else if \<not> nodesEqual (mget baseNodes id) (mget targetNodes id) then mset_at id (Modified, node) diff
            else mset_at id (Eq, node) diff) [] baseNodes
      in foldl (\<lambda>diff (id, node). if \<not> mhas baseNodes id then mset_at id (Added, node) diff else diff) diff targetNodes)"

section \<open>Versions of workflows\<close>

text \<open>\<open>dw_ref\<close> is the identity of the object, \<open>dw_createdAt\<close> a time in milliseconds.\<close>

record version =
  dw_ref :: nat
  dw_nodes :: "diff_node list"
  dw_connections :: iconnections
  dw_createdAt :: int
  dw_authors :: "string option"

record change_set =
  ws_nodes :: workflow_diff
  ws_added :: connections_diff
  ws_removed :: connections_diff

definition WorkflowChangeSet :: "(iconn \<Rightarrow> string) \<Rightarrow> version \<Rightarrow> version \<Rightarrow> change_set" where
  "WorkflowChangeSet str fromW toW =
     (if dw_ref fromW = dw_ref toW then
        \<lparr>ws_nodes = foldl (\<lambda>m node. mset_at (dn_id node) (Eq, node) m) [] (dw_nodes fromW), ws_added = [], ws_removed = []\<rparr>
      else case compareConnections str (dw_connections fromW) (dw_connections toW) of
        (added, removed) \<Rightarrow>
          \<lparr>ws_nodes = compareWorkflowsNodes compareNodes (dw_nodes fromW) (dw_nodes toW), ws_added = added, ws_removed = removed\<rparr>)"

section \<open>Supersets\<close>

text \<open>The loop over the indices of \<open>s\<close>; \<^verbatim>\<open>substr[marker]\<close> is undefined behind the end.\<close>

fun parts_loop :: "string \<Rightarrow> string \<Rightarrow> nat \<Rightarrow> nat \<Rightarrow> nat \<Rightarrow> string \<Rightarrow> bool" where
  "parts_loop s substr diffSize i marker [] = (length substr \<le> marker)"
| "parts_loop s substr diffSize i marker (c # rest) =
     (let marker = (if arr_get substr marker = Some c then Suc marker else marker) in
      if int i - int marker > int diffSize then False
      else parts_loop s substr diffSize (Suc i) marker rest)"

definition stringContainsParts :: "string \<Rightarrow> string \<Rightarrow> bool" where
  "stringContainsParts s substr =
     (if length substr > length s then False
      else parts_loop s substr (length s - length substr) 0 0 s)"

text \<open>The own enumerable properties of a value: the keys of an array are its indices.\<close>

fun own_entries :: "json \<Rightarrow> json obj" where
  "own_entries (JArr xs) = map (\<lambda>(i, v). (show_nat i, v)) (enumerate0 xs)"
| "own_entries (JObj m) = m"
| "own_entries _ = []"

function (sequential) parametersAreSuperset :: "json \<Rightarrow> json \<Rightarrow> bool" where
  "parametersAreSuperset (JStr p) (JStr n) = stringContainsParts n p"
| "parametersAreSuperset (JArr ps) (JArr ns) = (length ps = length ns \<and> list_all (\<lambda>(p, n). parametersAreSuperset p n) (zip ps ns))"
| "parametersAreSuperset (JArr ps) n = False"
| "parametersAreSuperset (JObj p) JNull = False"
| "parametersAreSuperset (JObj p) n =
     (js_typeof n = ''object'' \<and> length p = length (own_entries n)
      \<and> list_all (\<lambda>(key, v). case mget (own_entries n) key of None \<Rightarrow> False | Some w \<Rightarrow> parametersAreSuperset v w) p)"
| "parametersAreSuperset p n = (js_typeof p = js_typeof n \<and> p = n)"
  by pat_completeness auto

termination parametersAreSuperset
  by (relation "measure (\<lambda>(x, y). size x)") (auto simp del: json.size dest: size_zip_left size_entry)

definition with_parameters :: "json \<Rightarrow> diff_node \<Rightarrow> diff_node" where
  "with_parameters v n = n\<lparr>dn_props := mdel ''parameters'' (dn_props n) @ [(''parameters'', v)]\<rparr>"

definition nodeIsSuperset :: "diff_node \<Rightarrow> diff_node \<Rightarrow> bool" where
  "nodeIsSuperset prevNode nextNode =
     (if \<not> compareNodes (Some (with_parameters (JObj []) prevNode)) (Some (with_parameters (JObj []) nextNode)) then False
      else parametersAreSuperset (get_prop (dn_props prevNode) ''parameters'') (get_prop (dn_props nextNode) ''parameters''))"

section \<open>Rules\<close>

type_synonym diff_rule = "version \<Rightarrow> version \<Rightarrow> change_set \<Rightarrow> nat option \<Rightarrow> bool res"

fun additive_nodes :: "version \<Rightarrow> workflow_diff \<Rightarrow> bool res" where
  "additive_nodes nxt [] = Inr True"
| "additive_nodes nxt ((_, status, node) # rest) =
     (if status = Deleted then Inr False
      else if status = Added then additive_nodes nxt rest
      else case find (\<lambda>x. dn_id x = dn_id node) (dw_nodes nxt) of
        None \<Rightarrow> Inl (PlainError ''invariant broken - no next node'')
      | Some nextNode \<Rightarrow>
          if status = Modified \<and> \<not> nodeIsSuperset node nextNode then Inr False
          else additive_nodes nxt rest)"

definition mergeAdditiveChanges :: diff_rule where
  "mergeAdditiveChanges _ nxt diff _ =
     bindE (additive_nodes nxt (ws_nodes diff)) (\<lambda>ok.
       if \<not> ok then Inr False
       else if length (obj_keys (ws_removed diff)) > 0 then Inr False
       else Inr True)"

definition makeSkipTimeDifference :: "int \<Rightarrow> diff_rule" where
  "makeSkipTimeDifference timeDiffMs prev nxt _ _ = Inr (\<bar>dw_createdAt nxt - dw_createdAt prev\<bar> > timeDiffMs)"

definition makeMergeShortTimeSpan :: "int \<Rightarrow> version \<Rightarrow> version \<Rightarrow> bool" where
  "makeMergeShortTimeSpan timeDiffMs prev nxt = (\<bar>dw_createdAt nxt - dw_createdAt prev\<bar> < timeDiffMs)"

definition makeMergeDependingOnSizeRule :: "(int, int) jsmap \<Rightarrow> diff_rule" where
  "makeMergeDependingOnSizeRule mapping prev nxt _ score = Inr (case score of
     None \<Rightarrow> False
   | Some n \<Rightarrow> (case find (\<lambda>(count, time). int n > count) (sort_key (\<lambda>p. - fst p) mapping) of
       None \<Rightarrow> False
     | Some (_, time) \<Rightarrow> makeMergeShortTimeSpan time prev nxt))"

definition skipDifferentUsers :: diff_rule where
  "skipDifferentUsers prev nxt _ _ = Inr (dw_authors nxt \<noteq> dw_authors prev)"

fun determineNodeSize :: "json \<Rightarrow> nat" where
  "determineNodeSize (JStr s) = (if s = [] then 1 else length s)"
| "determineNodeSize (JArr xs) = foldl (\<lambda>acc v. acc + determineNodeSize v) 1 xs"
| "determineNodeSize (JObj m) = foldl (\<lambda>acc v. acc + determineNodeSize v) 1 (map snd m)"
| "determineNodeSize _ = 1"

definition determineNodeParametersSize :: "version \<Rightarrow> nat" where
  "determineNodeParametersSize w = foldl (\<lambda>acc x. acc + determineNodeSize (get_prop (dn_props x) ''parameters'')) 0 (dw_nodes w)"

section \<open>Grouping\<close>

fun some_rule :: "diff_rule list \<Rightarrow> diff_rule" where
  "some_rule [] prev nxt wcs score = Inr False"
| "some_rule (r # rs) prev nxt wcs score =
     bindE (r prev nxt wcs score) (\<lambda>b. if b then Inr True else some_rule rs prev nxt wcs score)"

fun diffLoop :: "(iconn \<Rightarrow> string) \<Rightarrow> diff_rule list \<Rightarrow> diff_rule list \<Rightarrow> nat option \<Rightarrow> nat
    \<Rightarrow> version list \<Rightarrow> version list \<Rightarrow> (version list \<times> version list) res" where
  "diffLoop str rules skipRules score 0 remaining removed = Inr (removed, remaining)"
| "diffLoop str rules skipRules score (Suc i) remaining removed =
     (let prev = remaining ! i; nxt = remaining ! Suc i; wcs = WorkflowChangeSet str prev nxt in
      bindE (some_rule skipRules prev nxt wcs score) (\<lambda>skip.
        if skip then diffLoop str rules skipRules score i remaining removed
        else bindE (some_rule rules prev nxt wcs score) (\<lambda>merge.
          if merge then diffLoop str rules skipRules score i (remove_at i remaining) (removed @ [prev])
          else diffLoop str rules skipRules score i remaining removed)))"

text \<open>The score is taken from the last version and the one in the middle.\<close>

definition size_score :: "bool \<Rightarrow> version list \<Rightarrow> nat option" where
  "size_score requested workflows =
     (if requested
      then Some (max (determineNodeParametersSize (workflows ! (length workflows div 2)))
        (determineNodeParametersSize (workflows ! (length workflows - 1))))
      else None)"

definition groupWorkflows :: "(iconn \<Rightarrow> string) \<Rightarrow> version list \<Rightarrow> diff_rule list \<Rightarrow> diff_rule list \<Rightarrow> bool
    \<Rightarrow> (version list \<times> version list) res" where
  "groupWorkflows str workflows rules skipRules withSizeScore =
     (if length workflows = 0 then Inr ([], [])
      else if length workflows = 1 then Inr ([], workflows)
      else diffLoop str rules skipRules (size_score withSizeScore workflows) (length workflows - 1) workflows [])"

section \<open>Tests of changes\<close>

definition conns_json :: "iconnections \<Rightarrow> json" where
  "conns_json cs = JObj (map (\<lambda>(a, m). (a, JObj (map (\<lambda>(ty, outputs). (ty, JArr (map (\<lambda>l. case l of None \<Rightarrow> JNull
     | Some l \<Rightarrow> JArr (map (\<lambda>c. JObj [(''node'', JStr (ic_node c)), (''type'', JStr (ic_type c)), (''index'', JNum (of_nat (ic_index c)))]) l))
     outputs))) m))) cs)"

definition hasNonPositionalChanges :: "diff_node list \<Rightarrow> diff_node list \<Rightarrow> iconnections \<Rightarrow> iconnections \<Rightarrow> bool" where
  "hasNonPositionalChanges oldNodes newNodes oldConnections newConnections =
     (if list_ex (\<lambda>(_, status, _). status \<noteq> Eq) (compareWorkflowsNodes compareNodes oldNodes newNodes) then True
      else \<not> isEqual (conns_json oldConnections) (conns_json newConnections))"

definition credentials_of :: "diff_node \<Rightarrow> json obj" where
  "credentials_of n = (case get_prop (dn_props n) ''credentials'' of JObj m \<Rightarrow> m | _ \<Rightarrow> [])"

definition credential_id :: "json obj \<Rightarrow> string \<Rightarrow> json" where
  "credential_id creds credType = (case get_prop creds credType of JObj m \<Rightarrow> get_prop m ''id'' | _ \<Rightarrow> JUndef)"

definition node_credentials_changed :: "diff_node \<Rightarrow> diff_node \<Rightarrow> bool" where
  "node_credentials_changed oldNode newNode =
     (let oldCreds = credentials_of oldNode; newCreds = credentials_of newNode in
      list_ex (\<lambda>credType. \<not> mhas newCreds credType \<or> credential_id oldCreds credType \<noteq> credential_id newCreds credType) (obj_keys oldCreds)
      \<or> list_ex (\<lambda>credType. \<not> mhas oldCreds credType) (obj_keys newCreds))"

definition hasCredentialChanges :: "diff_node list \<Rightarrow> diff_node list \<Rightarrow> bool" where
  "hasCredentialChanges oldNodes newNodes =
     (let newNodesMap = nodes_by_id newNodes in
      list_ex (\<lambda>oldNode. case mget newNodesMap (dn_id oldNode) of
          None \<Rightarrow> False
        | Some newNode \<Rightarrow> node_credentials_changed oldNode newNode) oldNodes)"

section \<open>Strings\<close>

lemma not_subseq_longer: "length ys < length xs \<Longrightarrow> \<not> subseq xs ys"
  using list_emb_length [of "(=)" xs ys] by auto

lemma parts_loop_subseq:
  assumes "substr = pre @ suf" "i + length rest = length s" "length substr \<le> length s"
  shows "parts_loop s substr (length s - length substr) i (length pre) rest = subseq suf rest"
  using assms
proof (induction rest arbitrary: i pre suf)
  case Nil
  then show ?case by (cases suf) auto
next
  case (Cons c rest)
  show ?case
  proof (cases suf)
    case Nil
    with Cons.prems have "parts_loop s substr (length s - length substr) (Suc i) (length pre) rest = subseq suf rest" by (intro Cons.IH) auto
    moreover have "\<not> int i - int (length pre) > int (length s - length substr)" "arr_get substr (length pre) \<noteq> Some c"
      using Cons.prems Nil by (auto simp: arr_get_Some)
    ultimately show ?thesis using Nil by (simp add: Let_def)
  next
    case suf: (Cons a suf')
    have g: "arr_get substr (length pre) = Some c \<longleftrightarrow> a = c" using Cons.prems(1) suf by (auto simp: arr_get_Some)
    show ?thesis
    proof (cases "a = c")
      case True
      with Cons.prems suf have "parts_loop s substr (length s - length substr) (Suc i) (length (pre @ [c])) rest = subseq suf' rest"
        by (intro Cons.IH) auto
      moreover have "\<not> subseq suf' rest" if "int i - int (Suc (length pre)) > int (length s - length substr)"
        by (rule not_subseq_longer) (use that Cons.prems suf in auto)
      ultimately show ?thesis using g True suf by (auto simp: Let_def)
    next
      case False
      with Cons.prems suf have "parts_loop s substr (length s - length substr) (Suc i) (length pre) rest = subseq suf rest"
        by (intro Cons.IH) auto
      moreover have "\<not> subseq suf rest" if "int i - int (length pre) > int (length s - length substr)"
        by (rule not_subseq_longer) (use that Cons.prems suf in auto)
      ultimately show ?thesis using g False suf by (auto simp: Let_def subseq_Cons2_neq)
    qed
  qed
qed

lemma stringContainsParts_iff: "stringContainsParts s substr \<longleftrightarrow> subseq substr s"
  using parts_loop_subseq [of substr "[]" substr 0 s s] not_subseq_longer [of s substr]
  by (simp add: stringContainsParts_def)

section \<open>Values inside parameters\<close>

fun value_at :: "json \<Rightarrow> string list \<Rightarrow> json option" where
  "value_at v [] = Some v"
| "value_at v (k # ks) = (case mget (own_entries v) k of None \<Rightarrow> None | Some w \<Rightarrow> value_at w ks)"

lemma own_entries_array: "own_entries (JArr xs) = map (\<lambda>i. (show_nat i, xs ! i)) [0..<length xs]"
  by (intro nth_equalityI) (simp_all add: enumerate0_def)

lemma mget_array: "mget (own_entries (JArr xs)) k = Some v \<longleftrightarrow> (\<exists>i < length xs. k = show_nat i \<and> v = xs ! i)"
proof -
  have d: "distinct (map fst (map (\<lambda>i. (show_nat i, xs ! i)) [0..<length xs]))"
    by (simp add: distinct_map o_def inj_on_def)
  show ?thesis unfolding own_entries_array map_of_eq_Some_iff [OF d] by auto
qed

lemma superset_object:
  assumes "parametersAreSuperset (JObj p) n"
  shows "js_typeof n = ''object''" "length p = length (own_entries n)"
    "(k, v) \<in> set p \<Longrightarrow> \<exists>w. mget (own_entries n) k = Some w \<and> parametersAreSuperset v w"
proof -
  have "js_typeof n = ''object'' \<and> length p = length (own_entries n)
      \<and> list_all (\<lambda>(key, v). case mget (own_entries n) key of None \<Rightarrow> False | Some w \<Rightarrow> parametersAreSuperset v w) p"
    using assms by (cases n) (simp_all del: own_entries.simps)
  moreover from this have "case (k, v) of (key, v) \<Rightarrow> case mget (own_entries n) key of None \<Rightarrow> False | Some w \<Rightarrow> parametersAreSuperset v w"
    if "(k, v) \<in> set p" using that unfolding list_all_iff by blast
  ultimately show "js_typeof n = ''object''" "length p = length (own_entries n)"
    "(k, v) \<in> set p \<Longrightarrow> \<exists>w. mget (own_entries n) k = Some w \<and> parametersAreSuperset v w"
    by (auto split: option.splits)
qed

lemma superset_array:
  assumes "parametersAreSuperset (JArr ps) n"
  obtains ns where "n = JArr ns" "length ps = length ns" "\<And>i. i < length ps \<Longrightarrow> parametersAreSuperset (ps ! i) (ns ! i)"
  using assms by (cases n) (auto simp: list_all_length)

lemma superset_entry:
  assumes "parametersAreSuperset p n" "mget (own_entries p) k = Some v"
  shows "\<exists>w. mget (own_entries n) k = Some w \<and> parametersAreSuperset v w"
proof (cases p)
  case (JArr ps)
  with assms(1) have "parametersAreSuperset (JArr ps) n" by simp
  then obtain ns where ns: "n = JArr ns" "length ps = length ns" "\<And>i. i < length ps \<Longrightarrow> parametersAreSuperset (ps ! i) (ns ! i)"
    by (elim superset_array) simp
  from assms(2) JArr obtain i where "i < length ps" "k = show_nat i" "v = ps ! i" by (auto simp only: mget_array)
  with ns show ?thesis by (auto simp only: mget_array)
next
  case (JObj m)
  with assms(2) have "(k, v) \<in> set m" by (simp add: map_of_SomeD)
  with superset_object(3) assms(1) JObj show ?thesis by blast
qed (use assms(2) in auto)

lemma superset_value_at:
  assumes "parametersAreSuperset p n" "value_at p path = Some v"
  shows "\<exists>w. value_at n path = Some w \<and> parametersAreSuperset v w"
  using assms
proof (induction path arbitrary: p n)
  case (Cons k ks)
  from Cons.prems(2) obtain v' where v': "mget (own_entries p) k = Some v'" "value_at v' ks = Some v" by (auto split: option.splits)
  from superset_entry [OF Cons.prems(1) v'(1)] obtain w' where w': "mget (own_entries n) k = Some w'" "parametersAreSuperset v' w'"
    by (elim exE conjE)
  from Cons.IH [OF w'(2) v'(2)] w'(1) show ?case by simp
qed auto

text \<open>Objects have every key once.\<close>

fun json_wf :: "json \<Rightarrow> bool" where
  "json_wf (JArr xs) = list_all json_wf xs"
| "json_wf (JObj m) = (distinct (map fst m) \<and> list_all json_wf (map snd m))"
| "json_wf _ = True"

lemma foldl_plus: "foldl (\<lambda>acc v. acc + f v) (a :: nat) xs = a + sum_list (map f xs)"
  by (induction xs arbitrary: a) auto

lemma size_entries: "js_typeof v = ''object'' \<Longrightarrow> determineNodeSize v = 1 + (\<Sum>e\<leftarrow>own_entries v. determineNodeSize (snd e))"
proof (cases v)
  case (JArr xs)
  have "map (\<lambda>e. determineNodeSize (snd e)) (own_entries (JArr xs)) = map determineNodeSize xs"
    unfolding own_entries_array by (intro nth_equalityI) simp_all
  with JArr show ?thesis by (simp add: foldl_plus del: own_entries.simps)
qed (auto simp: foldl_plus o_def)

lemma sum_entries_le:
  fixes f :: "'a \<Rightarrow> nat"
  assumes "distinct (map fst p)" "length p = length n" "\<And>k v. (k, v) \<in> set p \<Longrightarrow> \<exists>w. mget n k = Some w \<and> f v \<le> f w"
  shows "(\<Sum>e\<leftarrow>p. f (snd e)) \<le> (\<Sum>e\<leftarrow>n. f (snd e))"
  using assms
proof (induction p arbitrary: n)
  case (Cons e p)
  obtain k v where e: "e = (k, v)" by fastforce
  with Cons.prems(3) obtain w where w: "mget n k = Some w" "f v \<le> f w" by auto
  then have m: "(k, w) \<in> set n" by (simp add: map_of_SomeD)
  have other: "mget (remove1 (k, w) n) k' = mget n k'" if "k' \<noteq> k" for k' using that by (induction n) auto
  have "(\<Sum>e\<leftarrow>p. f (snd e)) \<le> (\<Sum>e\<leftarrow>remove1 (k, w) n. f (snd e))"
  proof (rule Cons.IH)
    show "length p = length (remove1 (k, w) n)" using Cons.prems(2) m by (simp add: length_remove1)
    show "\<exists>w'. mget (remove1 (k, w) n) k' = Some w' \<and> f v' \<le> f w'" if "(k', v') \<in> set p" for k' v'
      using Cons.prems(1,3) that e other [of k'] by force
  qed (use Cons.prems(1) in simp)
  moreover have "(\<Sum>e\<leftarrow>n. f (snd e)) = f w + (\<Sum>e\<leftarrow>remove1 (k, w) n. f (snd e))"
    using sum_list_map_remove1 [OF m, of "\<lambda>e. f (snd e)"] by simp
  ultimately show ?case using w(2) e by simp
qed simp

lemma superset_size:
  assumes "parametersAreSuperset p n" "json_wf p"
  shows "determineNodeSize p \<le> determineNodeSize n"
  using assms
proof (induction p arbitrary: n)
  case (JStr s)
  then obtain t where "n = JStr t" "subseq s t" by (cases n) (auto simp: stringContainsParts_iff)
  then show ?case using list_emb_length [of "(=)" s t] by (auto simp: Suc_le_eq)
next
  case (JArr ps)
  from JArr.prems(1) obtain ns where ns: "n = JArr ns" "length ps = length ns" "\<And>i. i < length ps \<Longrightarrow> parametersAreSuperset (ps ! i) (ns ! i)"
    by (elim superset_array) simp
  have "determineNodeSize (ps ! i) \<le> determineNodeSize (ns ! i)" if "i < length ps" for i
    using JArr.IH [of "ps ! i"] ns(3) that JArr.prems(2) by (simp add: list_all_length)
  then have "sum_list (map determineNodeSize ps) \<le> sum_list (map determineNodeSize ns)"
    using ns(2) by (auto simp: sum_list_sum_nth intro: sum_mono)
  then show ?case by (simp add: foldl_plus ns(1))
next
  case (JObj m)
  have wf: "distinct (map fst m)" "\<And>k v. (k, v) \<in> set m \<Longrightarrow> json_wf v" using JObj.prems(2) by (auto simp: list_all_iff)
  have "\<exists>w. mget (own_entries n) k = Some w \<and> determineNodeSize v \<le> determineNodeSize w" if "(k, v) \<in> set m" for k v
    using superset_object(3) [OF JObj.prems(1) that] JObj.IH [OF that] wf(2) [OF that] by fastforce
  from sum_entries_le [OF wf(1) superset_object(2) [OF JObj.prems(1)] this]
  show ?case using size_entries [of "JObj m"] size_entries [OF superset_object(1) [OF JObj.prems(1)]] by simp
qed (case_tac n; simp)+

section \<open>The difference of the nodes\<close>

lemma nodes_by_id_fold: "mget (foldl (\<lambda>acc node. mset_at (dn_id node) node acc) acc nodes) i
    = (case find (\<lambda>n. dn_id n = i) (rev nodes) of None \<Rightarrow> mget acc i | Some n \<Rightarrow> Some n)"
  by (induction nodes rule: rev_induct) auto

lemma nodes_by_id_last: "mget (nodes_by_id nodes) i = find (\<lambda>n. dn_id n = i) (rev nodes)"
  by (simp add: nodes_by_id_def nodes_by_id_fold split: option.splits)

lemma nodes_by_id_distinct: "distinct (map fst (nodes_by_id nodes))"
proof -
  have "distinct (map fst acc) \<Longrightarrow> distinct (map fst (foldl (\<lambda>acc node. mset_at (dn_id node) node acc) acc nodes))" for acc
    by (induction nodes arbitrary: acc) (simp_all add: distinct_update)
  then show ?thesis by (simp add: nodes_by_id_def)
qed

lemma status_fold:
  assumes "distinct (map fst m)"
  shows "mget (foldl (\<lambda>d (i, node). if P i then mset_at i (g i, node) d else d) acc m) i
      = (case mget m i of None \<Rightarrow> mget acc i | Some node \<Rightarrow> if P i then Some (g i, node) else mget acc i)"
    "distinct (map fst acc) \<Longrightarrow> distinct (map fst (foldl (\<lambda>d (i, node). if P i then mset_at i (g i, node) d else d) acc m))"
proof -
  show "mget (foldl (\<lambda>d (i, node). if P i then mset_at i (g i, node) d else d) acc m) i
      = (case mget m i of None \<Rightarrow> mget acc i | Some node \<Rightarrow> if P i then Some (g i, node) else mget acc i)"
    using assms
  proof (induction m arbitrary: acc)
    case (Cons e m)
    then have "mget m (fst e) = None" by (simp add: map_of_eq_None_iff)
    with Cons show ?case by (cases e) (auto split: option.splits)
  qed simp
  show "distinct (map fst acc) \<Longrightarrow> distinct (map fst (foldl (\<lambda>d (i, node). if P i then mset_at i (g i, node) d else d) acc m))"
    by (induction m arbitrary: acc) (auto simp: distinct_update)
qed

lemma compareWorkflowsNodes_folds:
  "compareWorkflowsNodes eq b t =
     (let base = nodes_by_id b; target = nodes_by_id t;
          diff = foldl (\<lambda>d (i, node). if True then mset_at i (if \<not> mhas target i then Deleted
            else if \<not> eq (mget base i) (mget target i) then Modified else Eq, node) d else d) [] base
      in foldl (\<lambda>d (i, node). if \<not> mhas base i then mset_at i (Added, node) d else d) diff target)"
  unfolding compareWorkflowsNodes_def Let_def by (intro arg_cong2 [where f = "\<lambda>x y. foldl x y (nodes_by_id t)"] foldl_cong) auto

lemma compareWorkflowsNodes_entry:
  "mget (compareWorkflowsNodes eq b t) i =
     (case (mget (nodes_by_id b) i, mget (nodes_by_id t) i) of
        (None, None) \<Rightarrow> None
      | (Some n, None) \<Rightarrow> Some (Deleted, n)
      | (None, Some n) \<Rightarrow> Some (Added, n)
      | (Some n, Some n') \<Rightarrow> Some (if eq (Some n) (Some n') then Eq else Modified, n))"
  unfolding compareWorkflowsNodes_folds Let_def status_fold(1) [OF nodes_by_id_distinct]
  by (simp add: mhas_def split: option.splits)

lemma compareWorkflowsNodes_distinct: "distinct (map fst (compareWorkflowsNodes eq b t))"
  unfolding compareWorkflowsNodes_folds Let_def by (intro status_fold(2) nodes_by_id_distinct) simp

lemma compareWorkflowsNodes_set:
  "(i, e) \<in> set (compareWorkflowsNodes eq b t) \<longleftrightarrow> mget (compareWorkflowsNodes eq b t) i = Some e"
  using compareWorkflowsNodes_distinct by simp

section \<open>Additive changes\<close>

text \<open>What the rule asks of an entry of the difference.\<close>

definition additive_entry :: "version \<Rightarrow> diff_status \<times> diff_node \<Rightarrow> bool" where
  "additive_entry nxt e \<longleftrightarrow> fst e \<noteq> Deleted
     \<and> (fst e = Modified \<longrightarrow> (\<exists>n. find (\<lambda>x. dn_id x = dn_id (snd e)) (dw_nodes nxt) = Some n \<and> nodeIsSuperset (snd e) n))"

lemma additive_nodes_iff:
  assumes "\<And>i st node. (i, st, node) \<in> set d \<Longrightarrow> st = Eq \<or> st = Modified \<Longrightarrow> find (\<lambda>x. dn_id x = dn_id node) (dw_nodes nxt) \<noteq> None"
  shows "additive_nodes nxt d = Inr (\<forall>(i, e) \<in> set d. additive_entry nxt e)"
  using assms
proof (induction d)
  case (Cons x d)
  obtain i st node where x: "x = (i, st, node)" by (cases x) auto
  have IH: "additive_nodes nxt d = Inr (\<forall>(i, e) \<in> set d. additive_entry nxt e)"
  proof (rule Cons.IH)
    fix i st node assume "(i, st, node) \<in> set d" "st = Eq \<or> st = Modified"
    then show "find (\<lambda>x. dn_id x = dn_id node) (dw_nodes nxt) \<noteq> None" using Cons.prems [of i st node] by simp
  qed
  have f: "find (\<lambda>x. dn_id x = dn_id node) (dw_nodes nxt) \<noteq> None" if "st = Eq \<or> st = Modified"
    using Cons.prems [of i st node] x that by simp
  show ?case by (cases st) (use f in \<open>auto simp: x IH additive_entry_def\<close>)
qed simp

lemma nodes_by_id_key: "mget (nodes_by_id nodes) i = Some n \<Longrightarrow> n \<in> set nodes \<and> dn_id n = i"
  unfolding nodes_by_id_last find_Some_iff by (metis nth_mem set_rev)

lemma additive_changes_iff:
  assumes "dw_ref w \<noteq> dw_ref v"
  shows "mergeAdditiveChanges w v (WorkflowChangeSet str w v) score
    = Inr ((\<forall>(i, e) \<in> set (compareWorkflowsNodes compareNodes (dw_nodes w) (dw_nodes v)). additive_entry v e)
        \<and> snd (compareConnections str (dw_connections w) (dw_connections v)) = [])"
proof -
  let ?d = "compareWorkflowsNodes compareNodes (dw_nodes w) (dw_nodes v)"
  have "additive_nodes v ?d = Inr (\<forall>(i, e) \<in> set ?d. additive_entry v e)"
  proof (rule additive_nodes_iff)
    fix i st node assume d: "(i, st, node) \<in> set ?d" "st = Eq \<or> st = Modified"
    then obtain n' where n: "mget (nodes_by_id (dw_nodes w)) i = Some node" "mget (nodes_by_id (dw_nodes v)) i = Some n'"
      by (auto simp: compareWorkflowsNodes_set compareWorkflowsNodes_entry split: option.splits)
    from nodes_by_id_key [OF n(1)] nodes_by_id_key [OF n(2)]
    show "find (\<lambda>x. dn_id x = dn_id node) (dw_nodes v) \<noteq> None" by (auto simp: find_None_iff)
  qed
  moreover have "length (obj_keys r) > 0 \<longleftrightarrow> r \<noteq> []" for r :: "'a obj" by simp
  ultimately show ?thesis using assms
    by (auto simp: mergeAdditiveChanges_def WorkflowChangeSet_def bindE_def split: prod.splits)
qed

section \<open>Grouping as a fold\<close>

text \<open>Whether a version is dropped in favour of the next one.\<close>

definition drops :: "(iconn \<Rightarrow> string) \<Rightarrow> diff_rule list \<Rightarrow> diff_rule list \<Rightarrow> nat option \<Rightarrow> version \<Rightarrow> version \<Rightarrow> bool" where
  "drops str rules skipRules score prev nxt \<longleftrightarrow>
     some_rule skipRules prev nxt (WorkflowChangeSet str prev nxt) score = Inr False
     \<and> some_rule rules prev nxt (WorkflowChangeSet str prev nxt) score = Inr True"

text \<open>From the last version to the first: a version is kept unless it is dropped in favour of the first of those kept so far.\<close>

fun keep :: "(version \<Rightarrow> version \<Rightarrow> bool) \<Rightarrow> version \<Rightarrow> version list \<Rightarrow> version list" where
  "keep d w [] = [w]"
| "keep d w (x # xs) = (if d w x then x # xs else w # x # xs)"

lemma keep_ne: "keep d w xs \<noteq> []"
  by (cases xs) auto

lemma remove_at_append: "remove_at (length xs) (xs @ y # ys) = xs @ ys"
  by (induction xs) auto

lemma diffLoop_foldr:
  assumes "diffLoop str rules skipRules score (length pre) (pre @ kept) removed = Inr (rm, rest)" "kept \<noteq> []"
  shows "rest = foldr (keep (drops str rules skipRules score)) pre kept \<and> mset rm + mset rest = mset removed + mset pre + mset kept
    \<and> (\<forall>w \<in> set rm. w \<in> set removed \<or> (\<exists>x \<in> set rest. drops str rules skipRules score w x))"
  using assms
proof (induction pre arbitrary: kept removed rule: rev_induct)
  case (snoc w pre)
  let ?d = "drops str rules skipRules score"
  obtain x xs where k: "kept = x # xs" using snoc.prems(2) by (cases kept) auto
  let ?wcs = "WorkflowChangeSet str w x"
  have nth: "(pre @ w # x # xs) ! length pre = w" "(pre @ w # x # xs) ! Suc (length pre) = x" by (simp_all add: nth_append)
  from snoc.prems(1) have loop: "bindE (some_rule skipRules w x ?wcs score) (\<lambda>skip.
        if skip then diffLoop str rules skipRules score (length pre) (pre @ w # kept) removed
        else bindE (some_rule rules w x ?wcs score) (\<lambda>merge.
          if merge then diffLoop str rules skipRules score (length pre) (pre @ kept) (removed @ [w])
          else diffLoop str rules skipRules score (length pre) (pre @ w # kept) removed)) = Inr (rm, rest)"
    using nth remove_at_append [of pre w kept] by (simp add: k Let_def cong: if_cong)
  show ?case
  proof (cases "?d w x")
    case True
    with loop have "diffLoop str rules skipRules score (length pre) (pre @ kept) (removed @ [w]) = Inr (rm, rest)" by (simp add: drops_def)
    from snoc.IH [OF this snoc.prems(2)]
    have IH: "rest = foldr (keep ?d) pre kept" "mset rm + mset rest = mset (removed @ [w]) + mset pre + mset kept"
      "\<forall>w' \<in> set rm. w' \<in> set (removed @ [w]) \<or> (\<exists>x \<in> set rest. ?d w' x)" by blast+
    have "x \<in> set (foldr (keep ?d) ys kept)" for ys
    proof (induction ys)
      case (Cons y ys)
      then show ?case by (cases "foldr (keep ?d) ys kept") auto
    qed (simp add: k)
    then have "x \<in> set rest" by (simp add: IH(1))
    moreover have "mset (removed @ [w]) + mset pre + mset kept = mset removed + mset (pre @ [w]) + mset kept" by (simp add: ac_simps)
    ultimately show ?thesis using IH True k by auto
  next
    case False
    from loop obtain skip where skip: "some_rule skipRules w x ?wcs score = Inr skip" by (auto simp: bindE_eq_Inr)
    have "diffLoop str rules skipRules score (length pre) (pre @ w # kept) removed = Inr (rm, rest)"
    proof (cases skip)
      case True
      with loop skip show ?thesis by simp
    next
      case no: False
      with loop skip obtain merge where "some_rule rules w x ?wcs score = Inr merge" by (auto simp: bindE_eq_Inr)
      with loop skip no False show ?thesis by (cases merge) (simp_all add: drops_def)
    qed
    from snoc.IH [OF this] False k show ?thesis by auto
  qed
qed simp

lemma keep_subseq: "subseq (foldr (keep d) ws kept) (ws @ kept)"
proof (induction ws)
  case (Cons w ws)
  then show ?case by (cases "foldr (keep d) ws kept") (auto intro: list_emb_Cons dest: subseq_Cons')
qed simp

lemma keep_last: "kept \<noteq> [] \<Longrightarrow> foldr (keep d) ws kept \<noteq> [] \<and> last (foldr (keep d) ws kept) = last kept"
proof (induction ws)
  case (Cons w ws)
  then show ?case by (cases "foldr (keep d) ws kept") auto
qed simp

end
