(* ===== verification/Diff_Properties.thy ===== *)
theory Diff_Properties
  imports Workflow_Diff Workflow_Properties
begin

text \<open>Properties of the comparison and the grouping of workflow versions.\<close>

section \<open>Strings and parameters\<close>

text \<open>\<^verbatim>\<open>stringContainsParts\<close>, with its early exit, decides whether the second string is a subsequence of the first.\<close>

theorem stringContainsParts_subsequence: "stringContainsParts s substr \<longleftrightarrow> subseq substr s"
  by (rule stringContainsParts_iff)

text \<open>when \<^verbatim>\<open>parametersAreSuperset\<close> accepts new parameters, no value is lost: whatever path leads to a string leads
  to a string that has all its characters in order, and any other value that is neither an array nor an object is unchanged.\<close>

theorem parametersAreSuperset_keeps_values:
  assumes "parametersAreSuperset prev new" "value_at prev path = Some v"
  shows "\<exists>w. value_at new path = Some w \<and> (case v of
      JStr s \<Rightarrow> (\<exists>t. w = JStr t \<and> subseq s t)
    | JArr _ \<Rightarrow> True
    | JObj _ \<Rightarrow> True
    | _ \<Rightarrow> w = v)"
proof -
  obtain w where w: "value_at new path = Some w" "parametersAreSuperset v w" using superset_value_at [OF assms] by (elim exE conjE)
  moreover have "case v of JStr s \<Rightarrow> (\<exists>t. w = JStr t \<and> subseq s t) | JArr _ \<Rightarrow> True | JObj _ \<Rightarrow> True | _ \<Rightarrow> w = v"
    using w(2) by (cases v; cases w) (simp_all add: stringContainsParts_iff)
  ultimately show ?thesis by (intro exI conjI)
qed

definition old_parameters :: json where
  "old_parameters = JObj [(''text'', JStr ''hello''), (''tags'', JArr [JStr ''a'', JBool True])]"

definition new_parameters :: json where
  "new_parameters = JObj [(''tags'', JArr [JStr ''xa'', JBool True]), (''text'', JStr ''hello you'')]"

theorem parametersAreSuperset_keeps_values_witness:
  "\<exists>w. value_at new_parameters [''tags'', ''0''] = Some w \<and> (\<exists>t. w = JStr t \<and> subseq ''a'' t)"
proof -
  have "parametersAreSuperset old_parameters new_parameters" "value_at old_parameters [''tags'', ''0''] = Some (JStr ''a'')" by code_simp+
  from parametersAreSuperset_keeps_values [OF this] show ?thesis by simp
qed

text \<open>Parameters that are accepted as a superset are not smaller, by the size the rules measure.\<close>

theorem parametersAreSuperset_size:
  assumes "parametersAreSuperset prev new" "json_wf prev"
  shows "determineNodeSize prev \<le> determineNodeSize new"
  by (rule superset_size [OF assms])

theorem parametersAreSuperset_size_witness: "determineNodeSize old_parameters = 9 \<and> 9 \<le> determineNodeSize new_parameters"
proof -
  have v: "parametersAreSuperset old_parameters new_parameters" "json_wf old_parameters" "determineNodeSize old_parameters = 9" by code_simp+
  from parametersAreSuperset_size [OF v(1,2)] v(3) show ?thesis by simp
qed

section \<open>Differences\<close>

text \<open>The difference of two node lists has exactly one entry for every identifier of a node: deleted, added, equal or modified,
  with the node of the old version where there is one.\<close>

theorem compareWorkflowsNodes_exact:
  "distinct (map fst (compareWorkflowsNodes eq base new))
   \<and> mget (compareWorkflowsNodes eq base new) i =
      (case (find (\<lambda>n. dn_id n = i) (rev base), find (\<lambda>n. dn_id n = i) (rev new)) of
         (None, None) \<Rightarrow> None
       | (Some n, None) \<Rightarrow> Some (Deleted, n)
       | (None, Some n) \<Rightarrow> Some (Added, n)
       | (Some n, Some n') \<Rightarrow> Some (if eq (Some n) (Some n') then Eq else Modified, n))"
  using compareWorkflowsNodes_entry [of eq base new i] compareWorkflowsNodes_distinct by (simp add: nodes_by_id_last)

section \<open>Grouping\<close>

lemma groupWorkflows_parts:
  assumes "groupWorkflows str ws rules skipRules withSizeScore = Inr (removed, remaining)" "ws \<noteq> []"
  shows "remaining = foldr (keep (drops str rules skipRules (size_score withSizeScore ws))) (butlast ws) [last ws]
    \<and> mset removed + mset remaining = mset ws
    \<and> (\<forall>w \<in> set removed. \<exists>x \<in> set remaining. drops str rules skipRules (size_score withSizeScore ws) w x)"
proof (cases "length ws = 1")
  case True
  then obtain w where "ws = [w]" by (auto simp: length_Suc_conv)
  with assms(1) show ?thesis by (auto simp: groupWorkflows_def)
next
  case False
  have "length ws - 1 = length (butlast ws)" "butlast ws @ [last ws] = ws" using assms(2) by simp_all
  with assms False have "diffLoop str rules skipRules (size_score withSizeScore ws) (length (butlast ws)) (butlast ws @ [last ws]) [] = Inr (removed, remaining)"
    by (simp add: groupWorkflows_def)
  from diffLoop_foldr [OF this] have "remaining = foldr (keep (drops str rules skipRules (size_score withSizeScore ws))) (butlast ws) [last ws]"
    "mset removed + mset remaining = mset (butlast ws) + mset [last ws]"
    "\<forall>w \<in> set removed. \<exists>x \<in> set remaining. drops str rules skipRules (size_score withSizeScore ws) w x" by auto
  moreover have "mset (butlast ws) + mset [last ws] = mset ws"
    unfolding mset_append [symmetric] using assms(2) by simp
  ultimately show ?thesis by simp
qed

text \<open>C36: the grouping of a history equals a fold from the last version to the first, in which a version is dropped when
  no skip rule holds and some rule merges it into the first of the versions kept so far. Nothing gets lost or duplicated, the order stays,
  the last version is kept, and every dropped version is merged into one that is kept.\<close>

theorem groupWorkflows_fold:
  assumes "groupWorkflows str ws rules skipRules withSizeScore = Inr (removed, remaining)"
  shows "remaining = foldr (keep (drops str rules skipRules (size_score withSizeScore ws))) ws [] \<and> mset removed + mset remaining = mset ws
    \<and> subseq remaining ws \<and> (ws = [] \<or> remaining \<noteq> [] \<and> last remaining = last ws)
    \<and> (\<forall>w. w \<notin> set removed \<or> (\<exists>x \<in> set remaining. drops str rules skipRules (size_score withSizeScore ws) w x))"
proof -
  let ?d = "drops str rules skipRules (size_score withSizeScore ws)"
  show ?thesis
  proof (cases "ws = []")
    case True
    with assms show ?thesis by (simp add: groupWorkflows_def)
  next
    case False
    have "foldr (keep ?d) ws [] = foldr (keep ?d) (butlast ws @ [last ws]) []" using False by simp
    also have "\<dots> = foldr (keep ?d) (butlast ws) [last ws]" by (simp del: append_butlast_last_id)
    finally have "remaining = foldr (keep ?d) ws []" using groupWorkflows_parts [OF assms False] by simp
    then show ?thesis
      using groupWorkflows_parts [OF assms False] keep_subseq [of ?d ws "[]"] keep_last [of "[last ws]" ?d "butlast ws"] False by auto
  qed
qed

text \<open>Three versions: the second only adds to the first, the third deletes the node.\<close>

definition text_node :: "string \<Rightarrow> diff_node" where
  "text_node t = \<lparr>dn_id = ''1'', dn_props = [(''name'', JStr ''A''), (''parameters'', JObj [(''text'', JStr t)])]\<rparr>"

definition text_version :: "nat \<Rightarrow> diff_node list \<Rightarrow> version" where
  "text_version i nodes = \<lparr>dw_ref = i, dw_nodes = nodes, dw_connections = [], dw_createdAt = int i, dw_authors = Some ''ann''\<rparr>"

definition history :: "version list" where
  "history = [text_version 1 [text_node ''ab''], text_version 2 [text_node ''abc''], text_version 3 []]"

lemma history_groups: "groupWorkflows conn_text history [mergeAdditiveChanges] [skipDifferentUsers] True
    = Inr ([text_version 1 [text_node ''ab'']], [text_version 2 [text_node ''abc''], text_version 3 []])"
  by code_simp

theorem groupWorkflows_fold_witness:
  "subseq [text_version 2 [text_node ''abc''], text_version 3 []] history"
  using groupWorkflows_fold [OF history_groups] by (elim conjE) assumption

text \<open>whether two lists of nodes and their connections differ is decided exactly: there is a change unless every identifier has
  equal nodes in both lists, or none, and the connections are equal.\<close>

theorem hasNonPositionalChanges_exact:
  "hasNonPositionalChanges old new oldConns newConns \<longleftrightarrow>
     \<not> ((\<forall>i. case (find (\<lambda>n. dn_id n = i) (rev old), find (\<lambda>n. dn_id n = i) (rev new)) of
           (None, None) \<Rightarrow> True
         | (Some n, Some n') \<Rightarrow> compareNodes (Some n) (Some n')
         | _ \<Rightarrow> False)
       \<and> isEqual (conns_json oldConns) (conns_json newConns))"
proof -
  let ?d = "compareWorkflowsNodes compareNodes old new"
  have "list_ex (\<lambda>(_, status, _). status \<noteq> Eq) ?d \<longleftrightarrow> (\<exists>i st n. (i, st, n) \<in> set ?d \<and> st \<noteq> Eq)" by (auto simp: list_ex_iff)
  also have "\<dots> \<longleftrightarrow> (\<exists>i. \<not> (case mget ?d i of None \<Rightarrow> True | Some (st, n) \<Rightarrow> st = Eq))"
    unfolding compareWorkflowsNodes_set by (rule iffI; elim exE) (fastforce split: option.splits)+
  also have "\<dots> \<longleftrightarrow> \<not> (\<forall>i. case (find (\<lambda>n. dn_id n = i) (rev old), find (\<lambda>n. dn_id n = i) (rev new)) of
           (None, None) \<Rightarrow> True
         | (Some n, Some n') \<Rightarrow> compareNodes (Some n) (Some n')
         | _ \<Rightarrow> False)"
  proof -
    have "(case mget ?d i of None \<Rightarrow> True | Some (st, n) \<Rightarrow> st = Eq)
      = (case (find (\<lambda>n. dn_id n = i) (rev old), find (\<lambda>n. dn_id n = i) (rev new)) of
           (None, None) \<Rightarrow> True
         | (Some n, Some n') \<Rightarrow> compareNodes (Some n) (Some n')
         | _ \<Rightarrow> False)" for i
      unfolding compareWorkflowsNodes_entry nodes_by_id_last
      by (cases "find (\<lambda>n. dn_id n = i) (rev old)"; cases "find (\<lambda>n. dn_id n = i) (rev new)") simp_all
    then show ?thesis by simp
  qed
  finally show ?thesis by (simp add: hasNonPositionalChanges_def)
qed

section \<open>Nothing is lost\<close>

lemma find_by_id:
  assumes "distinct (map dn_id nodes)" "n \<in> set nodes"
  shows "find (\<lambda>x. dn_id x = dn_id n) (rev nodes) = Some n"
proof -
  from assms(2) obtain m where m: "find (\<lambda>x. dn_id x = dn_id n) (rev nodes) = Some m"
    by (cases "find (\<lambda>x. dn_id x = dn_id n) (rev nodes)") (auto simp: find_None_iff)
  then have "m \<in> set nodes" "dn_id m = dn_id n" unfolding find_Some_iff by (metis nth_mem set_rev)+
  with assms m show ?thesis by (metis distinct_map inj_onD)
qed

lemma no_removed_connections:
  assumes "inj str" "snd (compareConnections str prv nxt) = []"
  shows "set (conns_of prv a ty i) \<subseteq> set (conns_of nxt a ty i)"
proof
  fix c assume c: "c \<in> set (conns_of prv a ty i)"
  have "set (entries_at (snd (compareConnections str prv nxt)) a ty) = {}" by (simp add: assms(2) entries_at_def)
  then have "(\<Union>i. missing str nxt prv a ty i) = {}" unfolding compareConnections_entries .
  with missing_connections [OF assms(1), of i c nxt prv a ty] c show "c \<in> set (conns_of nxt a ty i)" by blast
qed

lemma removed_is_dropped:
  assumes "groupWorkflows str ws rules skipRules withSizeScore = Inr (removed, remaining)" and "w \<in> set removed"
  obtains v where "v \<in> set remaining" "drops str rules skipRules (size_score withSizeScore ws) w v"
    "w \<in> set ws" "v \<in> set ws"
proof -
  have "ws \<noteq> []" using assms by (auto simp: groupWorkflows_def)
  note g = groupWorkflows_parts [OF assms(1) this]
  then obtain v where "v \<in> set remaining" "drops str rules skipRules (size_score withSizeScore ws) w v"
    using assms(2) by blast
  moreover have "mset removed + mset remaining = mset ws" using g by (elim conjE)
  from arg_cong [OF this, of set_mset] have "set removed \<union> set remaining = set ws" by simp
  ultimately show thesis using that assms(2) by auto
qed

lemma additive_node_survives:
  assumes add: "\<And>i e. (i, e) \<in> set (compareWorkflowsNodes compareNodes olds news) \<Longrightarrow> additive_entry v e"
    and news: "news = dw_nodes v" and "distinct (map dn_id olds)" and "n \<in> set olds"
  shows "\<exists>n' \<in> set news. dn_id n' = dn_id n \<and> (n' = n \<or> compareNodes (Some n) (Some n') \<or> nodeIsSuperset n n')"
proof -
  have "mget (nodes_by_id olds) (dn_id n) = Some n"
    unfolding nodes_by_id_last by (rule find_by_id [OF assms(3, 4)])
  then have e: "mget (compareWorkflowsNodes compareNodes olds news) (dn_id n)
      = Some (case mget (nodes_by_id news) (dn_id n) of None \<Rightarrow> (Deleted, n)
        | Some n' \<Rightarrow> (if compareNodes (Some n) (Some n') then Eq else Modified, n))"
    by (simp add: compareWorkflowsNodes_entry split: option.splits)
  note a = add [OF compareWorkflowsNodes_set [THEN iffD2, OF e]]
  show ?thesis
  proof (cases "mget (nodes_by_id news) (dn_id n)")
    case None
    with a show ?thesis by (simp add: additive_entry_def)
  next
    case (Some n')
    show ?thesis
    proof (cases "compareNodes (Some n) (Some n')")
      case True
      with nodes_by_id_key [OF Some] show ?thesis by blast
    next
      case False
      with a Some obtain m where m: "find (\<lambda>x. dn_id x = dn_id n) news = Some m" "nodeIsSuperset n m"
        by (auto simp: additive_entry_def news)
      then have "m \<in> set news" "dn_id m = dn_id n" unfolding find_Some_iff by (metis nth_mem)+
      with m(2) show ?thesis by blast
    qed
  qed
qed

text \<open>C35: when a history is grouped by additive changes, every version that is dropped lives on in a version that is kept: that
  version has all its connections, and for each of its nodes a node with the same identifier that is equal or a superset.\<close>

theorem additive_grouping_loses_nothing:
  assumes "groupWorkflows str ws [mergeAdditiveChanges] skipRules withSizeScore = Inr (removed, remaining)"
    "inj str" "inj_on dw_ref (set ws)" "list_all (\<lambda>v. distinct (map dn_id (dw_nodes v))) ws" "w \<in> set removed"
  shows "\<exists>v \<in> set remaining.
      list_all (\<lambda>n. \<exists>n' \<in> set (dw_nodes v). dn_id n' = dn_id n
        \<and> (n' = n \<or> compareNodes (Some n) (Some n') \<or> nodeIsSuperset n n')) (dw_nodes w)
      \<and> (\<forall>a ty i. set (conns_of (dw_connections w) a ty i) \<subseteq> set (conns_of (dw_connections v) a ty i))"
proof -
  obtain v where v: "v \<in> set remaining" "drops str [mergeAdditiveChanges] skipRules (size_score withSizeScore ws) w v"
    "w \<in> set ws" "v \<in> set ws"
    using removed_is_dropped [OF assms(1, 5)] .
  show ?thesis
  proof (cases "dw_ref w = dw_ref v")
    case True
    then have "w = v" using assms(3) v(3,4) by (simp add: inj_on_def)
    with v(1) show ?thesis by (auto simp: list_all_iff)
  next
    case False
    have "mergeAdditiveChanges w v (WorkflowChangeSet str w v) (size_score withSizeScore ws) = Inr True"
      using v(2) by (auto simp: drops_def bindE_eq_Inr split: if_splits)
    then have add: "(i, e) \<in> set (compareWorkflowsNodes compareNodes (dw_nodes w) (dw_nodes v)) \<Longrightarrow> additive_entry v e"
      and cons: "snd (compareConnections str (dw_connections w) (dw_connections v)) = []" for i e
      unfolding additive_changes_iff [OF False] by auto
    have "distinct (map dn_id (dw_nodes w))" using assms(4) v(3) by (simp add: list_all_iff)
    note additive_node_survives [OF add HOL.refl this]
    then show ?thesis using no_removed_connections [OF assms(2) cons]
      by (intro bexI [OF _ v(1)] conjI) (simp_all add: list_all_iff)
  qed
qed

theorem additive_grouping_loses_nothing_witness:
  "\<exists>v \<in> set [text_version 2 [text_node ''abc''], text_version 3 []].
     list_all (\<lambda>n. \<exists>n' \<in> set (dw_nodes v). dn_id n' = dn_id n
        \<and> (n' = n \<or> compareNodes (Some n) (Some n') \<or> nodeIsSuperset n n')) [text_node ''ab'']"
proof -
  have s: "inj_on dw_ref (set history)" "list_all (\<lambda>v. distinct (map dn_id (dw_nodes v))) history"
    by (simp_all add: history_def text_version_def text_node_def inj_on_def)
  have "text_version 1 [text_node ''ab''] \<in> set [text_version 1 [text_node ''ab'']]" by simp
  from additive_grouping_loses_nothing [OF history_groups inj_conn_text s this] show ?thesis
    by (elim bexE conjE, intro bexI) (simp_all add: text_version_def)
qed

text \<open>Credentials have changed exactly when some node that is in both versions has a credential of a type with another identifier, or
  a type of credential only in one of them.\<close>

theorem hasCredentialChanges_exact:
  "hasCredentialChanges old new \<longleftrightarrow> (\<exists>o_node \<in> set old. \<exists>n_node. find (\<lambda>n. dn_id n = dn_id o_node) (rev new) = Some n_node
     \<and> (\<exists>ty. mhas (credentials_of o_node) ty \<noteq> mhas (credentials_of n_node) ty
        \<or> mhas (credentials_of o_node) ty \<and> credential_id (credentials_of o_node) ty \<noteq> credential_id (credentials_of n_node) ty))"
proof -
  have "node_credentials_changed a b \<longleftrightarrow> (\<exists>ty. mhas (credentials_of a) ty \<noteq> mhas (credentials_of b) ty
        \<or> mhas (credentials_of a) ty \<and> credential_id (credentials_of a) ty \<noteq> credential_id (credentials_of b) ty)" for a b
    by (auto simp: node_credentials_changed_def list_ex_iff mhas_iff Let_def)
  then have "(case find (\<lambda>n. dn_id n = dn_id a) (rev new) of None \<Rightarrow> False | Some b \<Rightarrow> node_credentials_changed a b)
      \<longleftrightarrow> (\<exists>b. find (\<lambda>n. dn_id n = dn_id a) (rev new) = Some b
        \<and> (\<exists>ty. mhas (credentials_of a) ty \<noteq> mhas (credentials_of b) ty
          \<or> mhas (credentials_of a) ty \<and> credential_id (credentials_of a) ty \<noteq> credential_id (credentials_of b) ty))" for a
    by (cases "find (\<lambda>n. dn_id n = dn_id a) (rev new)") simp_all
  then show ?thesis unfolding hasCredentialChanges_def Let_def list_ex_iff nodes_by_id_last by (rule bex_cong [OF HOL.refl])
qed

end
