(* ===== verification/Task_Broker.thy ===== *)
theory Task_Broker
  imports N8n_Types
begin

text \<open>
  \<^verbatim>\<open>TaskBroker\<close> (\<^verbatim>\<open>packages/cli/src/task-runners/task-broker/task-broker.service.ts\<close>), which hands the tasks
  of requesters to the runners that offer to run them. Messages are collected in the order they are sent. A promise that is answered
  from outside (by a message or a timer) is a record of its own, and the code behind its \<^verbatim>\<open>await\<close> a step; awaits of calls that
  return at once are not. Logging is left out.
\<close>

section \<open>Data\<close>

record runner =
  rn_id :: string
  rn_taskTypes :: "string list"

record task =
  tk_id :: string
  tk_runnerId :: string
  tk_requesterId :: string
  tk_taskType :: string
  tk_timeout :: bool

record task_offer =
  of_offerId :: string
  of_runnerId :: string
  of_taskType :: string
  of_validFor :: int
  of_validUntil :: int

text \<open>\<open>rq_ref\<close> is the identity of the object, which \<^verbatim>\<open>acceptOffer\<close> holds while the request may leave the list.\<close>

record task_request =
  rq_ref :: nat
  rq_requestId :: string
  rq_requesterId :: string
  rq_taskType :: string
  rq_acceptInProgress :: bool

datatype task_failure = FailedWith js_error | ErrorData json

datatype to_runner =
    RunnerRegistered
  | TaskOfferAccept string string
  | TaskCancel string string
  | TaskSettings string json
  | TaskDataResponse string string json
  | NodeTypesResponse string string json
  | RpcResponse string string string json

datatype to_requester =
    TaskReady string string
  | RequestExpired string string
  | TaskDone string json
  | TaskError string task_failure
  | TaskDataRequest string string json
  | NodeTypesRequest string string json
  | RpcRequest string string string json

datatype broker_message = ToRunner string to_runner | ToRequester string to_requester

datatype answer = Accept json | Reject string | Defer | TimedOut

datatype accept_phase = AskRunner | AskRequester

text \<open>A call of \<^verbatim>\<open>acceptOffer\<close> that waits for an answer, or has one (\<open>ca_answer\<close>) and has not gone on yet.\<close>

record accept_call =
  ca_taskId :: string
  ca_offer :: task_offer
  ca_request :: task_request
  ca_phase :: accept_phase
  ca_answer :: "answer option"

datatype runner_mode = Internal | External

record broker =
  br_runners :: "(string, runner) jsmap"
  br_requesters :: "string list"
  br_tasks :: "(string, task) jsmap"
  br_isDraining :: bool
  br_runnerAccepts :: "string list"
  br_requesterAccepts :: "string list"
  br_offers :: "task_offer list"
  br_requests :: "task_request list"
  br_warned :: "string list"
  br_calls :: "accept_call list"
  br_ids :: nat
  br_refs :: nat
  br_sent :: "broker_message list"

definition new_broker :: broker where
  "new_broker = \<lparr>br_runners = [], br_requesters = [], br_tasks = [], br_isDraining = False, br_runnerAccepts = [],
     br_requesterAccepts = [], br_offers = [], br_requests = [], br_warned = [], br_calls = [], br_ids = 0, br_refs = 0, br_sent = []\<rparr>"

section \<open>Messages\<close>

definition messageRunner :: "string \<Rightarrow> to_runner \<Rightarrow> broker \<Rightarrow> broker" where
  "messageRunner runnerId msg s = (if mhas (br_runners s) runnerId then s\<lparr>br_sent := br_sent s @ [ToRunner runnerId msg]\<rparr> else s)"

definition messageRequester :: "string \<Rightarrow> to_requester \<Rightarrow> broker \<Rightarrow> broker" where
  "messageRequester requesterId msg s = (if requesterId \<in> set (br_requesters s)
     then s\<lparr>br_sent := br_sent s @ [ToRequester requesterId msg]\<rparr> else s)"

section \<open>Runners and requesters\<close>

definition registerRunner :: "runner \<Rightarrow> broker \<Rightarrow> broker" where
  "registerRunner r s = messageRunner (rn_id r) RunnerRegistered (s\<lparr>br_runners := mset_at (rn_id r) r (br_runners s)\<rparr>)"

definition failTask :: "string \<Rightarrow> js_error \<Rightarrow> broker \<Rightarrow> broker" where
  "failTask taskId err s = (case mget (br_tasks s) taskId of
     None \<Rightarrow> s
   | Some task \<Rightarrow> messageRequester (tk_requesterId task) (TaskError taskId (FailedWith err)) (s\<lparr>br_tasks := mdel taskId (br_tasks s)\<rparr>))"

text \<open>A promise is settled once.\<close>

definition answer_call :: "accept_phase \<Rightarrow> string \<Rightarrow> answer \<Rightarrow> broker \<Rightarrow> broker" where
  "answer_call ph taskId ans s = s\<lparr>br_calls := map (\<lambda>a.
     if ca_taskId a = taskId \<and> ca_phase a = ph \<and> ca_answer a = None then a\<lparr>ca_answer := Some ans\<rparr> else a) (br_calls s)\<rparr>"

definition answer_runner :: "string \<Rightarrow> answer \<Rightarrow> broker \<Rightarrow> broker" where
  "answer_runner taskId ans s = (if taskId \<in> set (br_runnerAccepts s)
     then (answer_call AskRunner taskId ans s)\<lparr>br_runnerAccepts := remove1 taskId (br_runnerAccepts s)\<rparr> else s)"

definition handleRunnerAccept :: "string \<Rightarrow> broker \<Rightarrow> broker" where
  "handleRunnerAccept taskId s = answer_runner taskId (Accept JUndef) s"

definition handleRunnerReject :: "string \<Rightarrow> string \<Rightarrow> broker \<Rightarrow> broker" where
  "handleRunnerReject taskId reason s = answer_runner taskId (Reject reason) s"

definition handleRunnerDeferred :: "string \<Rightarrow> broker \<Rightarrow> broker" where
  "handleRunnerDeferred taskId s = answer_runner taskId Defer s"

definition error_message :: "js_error \<Rightarrow> string" where
  "error_message e = (case e of UnexpectedError m \<Rightarrow> m | OperationalError m \<Rightarrow> m | UserError m \<Rightarrow> m | ApplicationError m \<Rightarrow> m
     | PlainError m \<Rightarrow> m | TypeError m \<Rightarrow> m | AssertionError m \<Rightarrow> m | NodeError m \<Rightarrow> m | WorkflowHasIssues \<Rightarrow> ''Workflow has issues'')"

definition deregisterRunner :: "string \<Rightarrow> js_error \<Rightarrow> broker \<Rightarrow> broker" where
  "deregisterRunner runnerId err s =
     (let s = s\<lparr>br_runners := mdel runnerId (br_runners s), br_offers := filter (\<lambda>x. of_runnerId x \<noteq> runnerId) (br_offers s)\<rparr> in
      foldl (\<lambda>s (taskId, task). if tk_runnerId task = runnerId
          then handleRunnerReject (tk_id task) (''The Task Runner ('' @ runnerId @ '') has disconnected: '' @ error_message err)
            (failTask (tk_id task) err s)
          else s) s (br_tasks s))"

definition registerRequester :: "string \<Rightarrow> broker \<Rightarrow> broker" where
  "registerRequester requesterId s = s\<lparr>br_requesters := sadd requesterId (br_requesters s)\<rparr>"

definition deregisterRequester :: "string \<Rightarrow> broker \<Rightarrow> broker" where
  "deregisterRequester requesterId s = s\<lparr>br_requesters := filter (\<lambda>r. r \<noteq> requesterId) (br_requesters s)\<rparr>"

section \<open>Matching\<close>

definition expireTasks :: "int \<Rightarrow> broker \<Rightarrow> broker" where
  "expireTasks now s = s\<lparr>br_offers := filter (\<lambda>x. of_validFor x = - 1 \<or> \<not> of_validUntil x < now) (br_offers s)\<rparr>"

text \<open>\<^verbatim>\<open>acceptOffer\<close> up to its first answer; \<open>nanoid\<close> gives the identifiers.\<close>

definition acceptOffer :: "(nat \<Rightarrow> string) \<Rightarrow> task_offer \<Rightarrow> task_request \<Rightarrow> broker \<Rightarrow> broker" where
  "acceptOffer nanoid offer request s =
     (let taskId = nanoid (br_ids s);
          s = s\<lparr>br_ids := Suc (br_ids s), br_runnerAccepts := sadd taskId (br_runnerAccepts s),
            br_calls := br_calls s @ [\<lparr>ca_taskId = taskId, ca_offer = offer, ca_request = request, ca_phase = AskRunner, ca_answer = None\<rparr>]\<rparr>
      in messageRunner (of_runnerId offer) (TaskOfferAccept (of_offerId offer) taskId) s)"

definition set_accept :: "nat \<Rightarrow> bool \<Rightarrow> broker \<Rightarrow> broker" where
  "set_accept ref b s = s\<lparr>br_requests := map (\<lambda>r. if rq_ref r = ref then r\<lparr>rq_acceptInProgress := b\<rparr> else r) (br_requests s)\<rparr>"

definition warnOnTaskTypeMismatch :: "task_request \<Rightarrow> broker \<Rightarrow> broker" where
  "warnOnTaskTypeMismatch request s =
     (if br_offers s = [] then s
      else if rq_requestId request \<in> set (br_warned s) then s
      else s\<lparr>br_warned := sadd (rq_requestId request) (br_warned s)\<rparr>)"

text \<open>The first element that satisfies a predicate, and the list without it.\<close>

fun take_first :: "('a \<Rightarrow> bool) \<Rightarrow> 'a list \<Rightarrow> ('a \<times> 'a list) option" where
  "take_first P [] = None"
| "take_first P (x # xs) = (if P x then Some (x, xs) else map_option (\<lambda>(y, ys). (y, x # ys)) (take_first P xs))"

fun settle_requests :: "(nat \<Rightarrow> string) \<Rightarrow> task_request list \<Rightarrow> broker \<Rightarrow> broker" where
  "settle_requests nanoid [] s = s"
| "settle_requests nanoid (request # rest) s =
     (if rq_acceptInProgress request then settle_requests nanoid rest s
      else case take_first (\<lambda>x. of_taskType x = rq_taskType request) (br_offers s) of
        None \<Rightarrow> settle_requests nanoid rest (warnOnTaskTypeMismatch request s)
      | Some (offer, offers) \<Rightarrow>
          settle_requests nanoid rest (acceptOffer nanoid offer (request\<lparr>rq_acceptInProgress := True\<rparr>)
            ((set_accept (rq_ref request) True s)\<lparr>br_offers := offers,
               br_warned := filter (\<lambda>i. i \<noteq> rq_requestId request) (br_warned s)\<rparr>)))"

definition settleTasks :: "(nat \<Rightarrow> string) \<Rightarrow> int \<Rightarrow> broker \<Rightarrow> broker" where
  "settleTasks nanoid now s = (let s = expireTasks now s in settle_requests nanoid (br_requests s) s)"

definition taskRequested :: "(nat \<Rightarrow> string) \<Rightarrow> int \<Rightarrow> task_request \<Rightarrow> broker \<Rightarrow> broker" where
  "taskRequested nanoid now request s =
     (if br_isDraining s then messageRequester (rq_requesterId request) (RequestExpired (rq_requestId request) ''draining'') s
      else settleTasks nanoid now (s\<lparr>br_requests := br_requests s @ [request]\<rparr>))"

definition taskOffered :: "(nat \<Rightarrow> string) \<Rightarrow> int \<Rightarrow> task_offer \<Rightarrow> broker \<Rightarrow> broker" where
  "taskOffered nanoid now offer s = settleTasks nanoid now (s\<lparr>br_offers := br_offers s @ [offer]\<rparr>)"

definition handleRequestTimeout :: "string \<Rightarrow> broker \<Rightarrow> broker" where
  "handleRequestTimeout requestId s = (case take_first (\<lambda>r. rq_requestId r = requestId) (br_requests s) of
     None \<Rightarrow> s
   | Some (request, rest) \<Rightarrow> messageRequester (rq_requesterId request) (RequestExpired (rq_requestId request) ''timeout'')
       (s\<lparr>br_requests := rest, br_warned := filter (\<lambda>i. i \<noteq> requestId) (br_warned s)\<rparr>))"

section \<open>Tasks\<close>

definition cancelTask :: "string \<Rightarrow> string \<Rightarrow> broker \<Rightarrow> broker" where
  "cancelTask taskId reason s = (case mget (br_tasks s) taskId of
     None \<Rightarrow> s
   | Some task \<Rightarrow> messageRunner (tk_runnerId task) (TaskCancel taskId reason) (s\<lparr>br_tasks := mdel taskId (br_tasks s)\<rparr>))"

definition getRunnerOrFailTask :: "string \<Rightarrow> broker \<Rightarrow> broker \<times> runner res" where
  "getRunnerOrFailTask taskId s = (case mget (br_tasks s) taskId of
     None \<Rightarrow> (s, Inl (UnexpectedError (''Cannot find runner, failed to find task ('' @ taskId @ '')'')))
   | Some task \<Rightarrow> (case mget (br_runners s) (tk_runnerId task) of
       None \<Rightarrow> (let err = UnexpectedError (''Cannot find runner, failed to find runner ('' @ tk_runnerId task @ '')'')
                 in (failTask taskId err s, Inl err))
     | Some r \<Rightarrow> (s, Inr r)))"

text \<open>Answers of a requester are passed on to the runner of the task.\<close>

definition pass_to_runner :: "string \<Rightarrow> to_runner \<Rightarrow> broker \<Rightarrow> broker \<times> js_error option" where
  "pass_to_runner taskId msg s = (if \<not> mhas (br_tasks s) taskId then (s, None)
     else case getRunnerOrFailTask taskId s of
       (s, Inl err) \<Rightarrow> (s, Some err)
     | (s, Inr r) \<Rightarrow> (messageRunner (rn_id r) msg s, None))"

definition sendTaskSettings :: "string \<Rightarrow> json \<Rightarrow> broker \<Rightarrow> broker \<times> js_error option" where
  "sendTaskSettings taskId settings s = (if \<not> mhas (br_tasks s) taskId then (s, None)
     else case getRunnerOrFailTask taskId s of
       (s, Inl err) \<Rightarrow> (s, Some err)
     | (s, Inr r) \<Rightarrow> (case mget (br_tasks s) taskId of
         None \<Rightarrow> (s, None)
       | Some task \<Rightarrow> (messageRunner (rn_id r) (TaskSettings taskId settings)
           (s\<lparr>br_tasks := mset_at taskId (task\<lparr>tk_timeout := True\<rparr>) (br_tasks s)\<rparr>), None)))"

definition taskDoneHandler :: "string \<Rightarrow> json \<Rightarrow> broker \<Rightarrow> broker" where
  "taskDoneHandler taskId data s = (case mget (br_tasks s) taskId of
     None \<Rightarrow> s
   | Some task \<Rightarrow> (messageRequester (tk_requesterId task) (TaskDone (tk_id task) data) s)\<lparr>br_tasks := mdel (tk_id task) (br_tasks s)\<rparr>)"

definition taskErrorHandler :: "string \<Rightarrow> task_failure \<Rightarrow> broker \<Rightarrow> broker" where
  "taskErrorHandler taskId err s = (case mget (br_tasks s) taskId of
     None \<Rightarrow> s
   | Some task \<Rightarrow> (messageRequester (tk_requesterId task) (TaskError (tk_id task) err) s)\<lparr>br_tasks := mdel (tk_id task) (br_tasks s)\<rparr>)"

definition handleTaskTimeout :: "runner_mode \<Rightarrow> js_error \<Rightarrow> string \<Rightarrow> broker \<Rightarrow> broker" where
  "handleTaskTimeout mode timeoutError taskId s = (case mget (br_tasks s) taskId of
     None \<Rightarrow> s
   | Some task \<Rightarrow> taskErrorHandler taskId (FailedWith timeoutError)
       (case mode of Internal \<Rightarrow> s | External \<Rightarrow> messageRunner (tk_runnerId task) (TaskCancel taskId ''Task execution timed out'') s))"

text \<open>Requests of a runner are passed on to the requester of the task.\<close>

definition pass_to_requester :: "string \<Rightarrow> to_requester \<Rightarrow> broker \<Rightarrow> broker" where
  "pass_to_requester taskId msg s = (case mget (br_tasks s) taskId of
     None \<Rightarrow> s
   | Some task \<Rightarrow> messageRequester (tk_requesterId task) msg s)"

definition handleResponse :: "string \<Rightarrow> string \<Rightarrow> json \<Rightarrow> broker \<Rightarrow> broker" where
  "handleResponse taskId requestId data s = (case mget (br_tasks s) taskId of
     None \<Rightarrow> s
   | Some task \<Rightarrow> messageRunner (tk_requesterId task) (TaskDataResponse taskId requestId data) s)"

definition answer_requester :: "string \<Rightarrow> answer \<Rightarrow> broker \<Rightarrow> broker" where
  "answer_requester taskId ans s = (if taskId \<in> set (br_requesterAccepts s)
     then (answer_call AskRequester taskId ans s)\<lparr>br_requesterAccepts := remove1 taskId (br_requesterAccepts s)\<rparr> else s)"

definition handleRequesterAccept :: "string \<Rightarrow> json \<Rightarrow> broker \<Rightarrow> broker" where
  "handleRequesterAccept taskId settings s = answer_requester taskId (Accept settings) s"

definition handleRequesterReject :: "string \<Rightarrow> string \<Rightarrow> broker \<Rightarrow> broker" where
  "handleRequesterReject taskId reason s = answer_requester taskId (Reject reason) s"

section \<open>The rest of \<open>acceptOffer\<close>\<close>

definition drop_call :: "accept_call \<Rightarrow> broker \<Rightarrow> broker" where
  "drop_call a s = s\<lparr>br_calls := remove1 a (br_calls s)\<rparr>"

definition runner_accepted :: "accept_call \<Rightarrow> broker \<Rightarrow> broker" where
  "runner_accepted a s =
     (let request = ca_request a; taskId = ca_taskId a; offer = ca_offer a;
          s = s\<lparr>br_tasks := mset_at taskId \<lparr>tk_id = taskId, tk_runnerId = of_runnerId offer, tk_requesterId = rq_requesterId request,
            tk_taskType = of_taskType offer, tk_timeout = False\<rparr> (br_tasks s)\<rparr>
      in case take_first (\<lambda>r. rq_requestId r = rq_requestId request) (br_requests s) of
           None \<Rightarrow> s
         | Some (_, rest) \<Rightarrow> messageRequester (rq_requesterId request) (TaskReady (rq_requestId request) taskId)
             (s\<lparr>br_requests := rest, br_requesterAccepts := sadd taskId (br_requesterAccepts s),
                br_calls := br_calls s @ [a\<lparr>ca_phase := AskRequester, ca_answer := None\<rparr>]\<rparr>))"

definition resume_accept :: "accept_call \<Rightarrow> answer \<Rightarrow> broker \<Rightarrow> broker" where
  "resume_accept a ans s =
     (let s = drop_call a s in
      case ca_phase a of
        AskRunner \<Rightarrow> (case ans of
          Accept _ \<Rightarrow> runner_accepted a s
        | _ \<Rightarrow> set_accept (rq_ref (ca_request a)) False s)
      | AskRequester \<Rightarrow> (case ans of
          Accept settings \<Rightarrow> (case sendTaskSettings (ca_taskId a) settings s of
            (s, None) \<Rightarrow> s
          | (s, Some _) \<Rightarrow> cancelTask (ca_taskId a) ''Unknown reason'' s)
        | Reject reason \<Rightarrow> cancelTask (ca_taskId a) reason s
        | _ \<Rightarrow> cancelTask (ca_taskId a) ''Unknown reason'' s))"

section \<open>Incoming messages\<close>

datatype from_runner =
    RunnerAccepted string
  | RunnerRejected string string
  | RunnerDeferred string
  | RunnerOffer string string int
  | RunnerDone string json
  | RunnerError string json
  | RunnerDataRequest string string json
  | RunnerNodeTypesRequest string string json
  | RunnerRpc string string string json
  | RunnerInfo

fun onRunnerMessage :: "(nat \<Rightarrow> string) \<Rightarrow> int \<Rightarrow> string \<Rightarrow> from_runner \<Rightarrow> broker \<Rightarrow> broker" where
  "onRunnerMessage nanoid now runnerId message s =
     (if \<not> mhas (br_runners s) runnerId then s
      else case message of
        RunnerAccepted taskId \<Rightarrow> handleRunnerAccept taskId s
      | RunnerRejected taskId reason \<Rightarrow> handleRunnerReject taskId reason s
      | RunnerDeferred taskId \<Rightarrow> handleRunnerDeferred taskId s
      | RunnerOffer taskType offerId validFor \<Rightarrow> taskOffered nanoid now
          \<lparr>of_offerId = offerId, of_runnerId = runnerId, of_taskType = taskType, of_validFor = validFor,
             of_validUntil = (if validFor = - 1 then 0 else now + validFor * 1000000)\<rparr> s
      | RunnerDone taskId data \<Rightarrow> taskDoneHandler taskId data s
      | RunnerError taskId err \<Rightarrow> taskErrorHandler taskId (ErrorData err) s
      | RunnerDataRequest taskId requestId requestParams \<Rightarrow> pass_to_requester taskId (TaskDataRequest taskId requestId requestParams) s
      | RunnerNodeTypesRequest taskId requestId requestParams \<Rightarrow> pass_to_requester taskId (NodeTypesRequest taskId requestId requestParams) s
      | RunnerRpc taskId callId name params \<Rightarrow> pass_to_requester taskId (RpcRequest taskId callId name params) s
      | RunnerInfo \<Rightarrow> s)"

datatype from_requester =
    RequesterSettings string json
  | RequesterCancel string string
  | RequesterRequest string string
  | RequesterData string string json
  | RequesterNodeTypes string string json
  | RequesterRpc string string string json

fun onRequesterMessage :: "(nat \<Rightarrow> string) \<Rightarrow> int \<Rightarrow> string \<Rightarrow> from_requester \<Rightarrow> broker \<Rightarrow> broker \<times> js_error option" where
  "onRequesterMessage nanoid now requesterId message s = (case message of
     RequesterSettings taskId settings \<Rightarrow> (handleRequesterAccept taskId settings s, None)
   | RequesterCancel taskId reason \<Rightarrow> (cancelTask taskId reason s, None)
   | RequesterRequest taskType requestId \<Rightarrow> (taskRequested nanoid now
       \<lparr>rq_ref = br_refs s, rq_requestId = requestId, rq_requesterId = requesterId, rq_taskType = taskType,
          rq_acceptInProgress = False\<rparr> (s\<lparr>br_refs := Suc (br_refs s)\<rparr>), None)
   | RequesterData taskId requestId data \<Rightarrow> pass_to_runner taskId (TaskDataResponse taskId requestId data) s
   | RequesterNodeTypes taskId requestId nodeTypes \<Rightarrow> pass_to_runner taskId (NodeTypesResponse taskId requestId nodeTypes) s
   | RequesterRpc taskId callId status data \<Rightarrow> pass_to_runner taskId (RpcResponse taskId callId status data) s)"

definition startDraining :: "broker \<Rightarrow> broker" where
  "startDraining s = s\<lparr>br_isDraining := True\<rparr>"

definition hasActiveTasks :: "broker \<Rightarrow> bool" where
  "hasActiveTasks s = (length (br_tasks s) > 0)"

section \<open>Steps\<close>

text \<open>Messages, timers and continuations, in any order. A timer may fire at any time.\<close>

inductive broker_step :: "(nat \<Rightarrow> string) \<Rightarrow> broker \<Rightarrow> broker \<Rightarrow> bool" for nanoid where
  register_runner: "broker_step nanoid s (registerRunner r s)"
| deregister_runner: "broker_step nanoid s (deregisterRunner i err s)"
| register_requester: "broker_step nanoid s (registerRequester i s)"
| deregister_requester: "broker_step nanoid s (deregisterRequester i s)"
| runner_message: "broker_step nanoid s (onRunnerMessage nanoid now i m s)"
| requester_message: "onRequesterMessage nanoid now i m' s = (s', err) \<Longrightarrow> broker_step nanoid s s'"
| request_timer: "broker_step nanoid s (handleRequestTimeout i s)"
| runner_accept_timer: "broker_step nanoid s (answer_call AskRunner t TimedOut s)"
| requester_accept_timer: "broker_step nanoid s (answer_call AskRequester t TimedOut s)"
| task_timer: "broker_step nanoid s (handleTaskTimeout mode err t s)"
| resume: "a \<in> set (br_calls s) \<Longrightarrow> ca_answer a = Some ans \<Longrightarrow> broker_step nanoid s (resume_accept a ans s)"
| draining: "broker_step nanoid s (startDraining s)"

end
