(* ===== verification/Broker_Matching.thy ===== *)
theory Broker_Matching
  imports Task_Broker "HOL-Library.Sublist"
begin

text \<open>
  The matching of requests and offers: per type of task the first idle request gets the first valid offer, the second the second, until one
  of the two is used up.
\<close>

section \<open>What the operations leave alone\<close>

lemma messageRunner_sel [simp]:
  "br_runners (messageRunner i m s) = br_runners s" "br_requesters (messageRunner i m s) = br_requesters s"
  "br_tasks (messageRunner i m s) = br_tasks s" "br_isDraining (messageRunner i m s) = br_isDraining s"
  "br_runnerAccepts (messageRunner i m s) = br_runnerAccepts s" "br_requesterAccepts (messageRunner i m s) = br_requesterAccepts s"
  "br_offers (messageRunner i m s) = br_offers s" "br_requests (messageRunner i m s) = br_requests s"
  "br_calls (messageRunner i m s) = br_calls s" "br_ids (messageRunner i m s) = br_ids s" "br_refs (messageRunner i m s) = br_refs s"
  by (simp_all add: messageRunner_def)

lemma messageRequester_sel [simp]:
  "br_runners (messageRequester i m s) = br_runners s" "br_requesters (messageRequester i m s) = br_requesters s"
  "br_tasks (messageRequester i m s) = br_tasks s" "br_isDraining (messageRequester i m s) = br_isDraining s"
  "br_runnerAccepts (messageRequester i m s) = br_runnerAccepts s" "br_requesterAccepts (messageRequester i m s) = br_requesterAccepts s"
  "br_offers (messageRequester i m s) = br_offers s" "br_requests (messageRequester i m s) = br_requests s"
  "br_calls (messageRequester i m s) = br_calls s" "br_ids (messageRequester i m s) = br_ids s" "br_refs (messageRequester i m s) = br_refs s"
  by (simp_all add: messageRequester_def)

lemma warn_sel [simp]:
  "br_runners (warnOnTaskTypeMismatch r s) = br_runners s" "br_requesters (warnOnTaskTypeMismatch r s) = br_requesters s"
  "br_tasks (warnOnTaskTypeMismatch r s) = br_tasks s" "br_runnerAccepts (warnOnTaskTypeMismatch r s) = br_runnerAccepts s"
  "br_offers (warnOnTaskTypeMismatch r s) = br_offers s" "br_requests (warnOnTaskTypeMismatch r s) = br_requests s"
  "br_calls (warnOnTaskTypeMismatch r s) = br_calls s" "br_ids (warnOnTaskTypeMismatch r s) = br_ids s"
  "br_refs (warnOnTaskTypeMismatch r s) = br_refs s"
  by (simp_all add: warnOnTaskTypeMismatch_def)

section \<open>The loop\<close>

lemma subseq_set: "subseq xs ys \<Longrightarrow> set xs \<subseteq> set ys"
  by (auto elim: list_emb_set)

lemma subseq_distinct: "subseq xs ys \<Longrightarrow> distinct ys \<Longrightarrow> distinct xs"
  by (induction rule: list_emb.induct) (use subseq_set in auto)

lemma take_first_None: "take_first P xs = None \<longleftrightarrow> (\<forall>x \<in> set xs. \<not> P x)"
  by (induction xs) auto

lemma take_first_Some: "take_first P xs = Some (x, ys) \<Longrightarrow> \<exists>us vs. xs = us @ x # vs \<and> ys = us @ vs \<and> P x \<and> (\<forall>u \<in> set us. \<not> P u)"
proof (induction xs arbitrary: ys)
  case (Cons y xs)
  show ?case
  proof (cases "P y")
    case True
    with Cons.prems show ?thesis by (intro exI [of _ "[]"] exI [of _ ys]) auto
  next
    case False
    with Cons.prems obtain zs where "take_first P xs = Some (x, zs)" "ys = y # zs" by auto
    with Cons.IH obtain us vs where "xs = us @ x # vs" "zs = us @ vs" "P x" "\<forall>u \<in> set us. \<not> P u" by blast
    with False \<open>ys = y # zs\<close> show ?thesis by (intro exI [of _ "y # us"] exI [of _ vs]) auto
  qed
qed simp

lemma take_first_filter:
  assumes "take_first P xs = Some (x, ys)"
  shows "P x" "filter P xs = x # filter P ys" "\<not> Q x \<Longrightarrow> filter Q ys = filter Q xs" "set ys \<subseteq> set xs" "x \<in> set xs"
  using take_first_Some [OF assms] by auto

definition offers_for :: "string \<Rightarrow> broker \<Rightarrow> task_offer list" where
  "offers_for ty s = filter (\<lambda>x. of_taskType x = ty) (br_offers s)"

definition idle_for :: "string \<Rightarrow> task_request list \<Rightarrow> task_request list" where
  "idle_for ty rs = filter (\<lambda>r. rq_taskType r = ty \<and> \<not> rq_acceptInProgress r) rs"

definition assigned :: "string \<Rightarrow> accept_call list \<Rightarrow> (nat \<times> task_offer) list" where
  "assigned ty calls = map (\<lambda>a. (rq_ref (ca_request a), ca_offer a)) (filter (\<lambda>a. rq_taskType (ca_request a) = ty) calls)"

text \<open>Everything the loop over \<open>reqs\<close> does; \<open>new\<close> are the calls of \<^verbatim>\<open>acceptOffer\<close>.\<close>

definition settled_by :: "(nat \<Rightarrow> string) \<Rightarrow> task_request list \<Rightarrow> broker \<Rightarrow> broker \<Rightarrow> accept_call list \<Rightarrow> bool" where
  "settled_by nanoid reqs s s' new \<longleftrightarrow>
     br_calls s' = br_calls s @ new \<and> br_ids s' = br_ids s + length new
     \<and> map ca_taskId new = map nanoid [br_ids s..<br_ids s + length new]
     \<and> (\<forall>ty. assigned ty new = zip (map rq_ref (idle_for ty reqs)) (offers_for ty s))
     \<and> (\<forall>ty. offers_for ty s' = drop (length (idle_for ty reqs)) (offers_for ty s))
     \<and> (\<forall>a \<in> set new. ca_phase a = AskRunner \<and> ca_answer a = None \<and> of_taskType (ca_offer a) = rq_taskType (ca_request a)
          \<and> (\<exists>r \<in> set reqs. ca_request a = r\<lparr>rq_acceptInProgress := True\<rparr> \<and> \<not> rq_acceptInProgress r))
     \<and> subseq (map (\<lambda>a. rq_ref (ca_request a)) new) (map rq_ref reqs)
     \<and> br_requests s' = map (\<lambda>r. if rq_ref r \<in> (\<lambda>a. rq_ref (ca_request a)) ` set new then r\<lparr>rq_acceptInProgress := True\<rparr> else r) (br_requests s)
     \<and> set (br_offers s') \<subseteq> set (br_offers s) \<and> br_runners s' = br_runners s \<and> br_tasks s' = br_tasks s \<and> br_refs s' = br_refs s
     \<and> set (br_runnerAccepts s') = set (br_runnerAccepts s) \<union> ca_taskId ` set new
     \<and> (distinct (br_runnerAccepts s) \<longrightarrow> distinct (br_runnerAccepts s'))"

lemma settle_requests_settled: "\<exists>new. settled_by nanoid reqs s (settle_requests nanoid reqs s) new"
proof (induction reqs arbitrary: s)
  case Nil
  show ?case by (rule exI [of _ "[]"]) (simp add: settled_by_def assigned_def idle_for_def)
next
  case (Cons r reqs)
  show ?case
  proof (cases "rq_acceptInProgress r")
    case True
    then have e: "settle_requests nanoid (r # reqs) s = settle_requests nanoid reqs s" by simp
    have "settled_by nanoid (r # reqs) s s' new" if "settled_by nanoid reqs s s' new" for s' new
      using that True unfolding settled_by_def by (auto simp: idle_for_def)
    with Cons.IH [of s] show ?thesis unfolding e by blast
  next
    case idle: False
    show ?thesis
    proof (cases "take_first (\<lambda>x. of_taskType x = rq_taskType r) (br_offers s)")
      case None
      let ?s = "warnOnTaskTypeMismatch r s"
      have e: "settle_requests nanoid (r # reqs) s = settle_requests nanoid reqs ?s" using idle None by simp
      have none: "offers_for (rq_taskType r) s = []" using None by (simp add: offers_for_def take_first_None filter_empty_conv)
      obtain new where new: "settled_by nanoid reqs ?s (settle_requests nanoid reqs ?s) new" using Cons.IH by blast
      let ?s' = "settle_requests nanoid reqs ?s"
      have off: "offers_for ty ?s = offers_for ty s" for ty by (simp add: offers_for_def)
      have "assigned ty new = zip (map rq_ref (idle_for ty (r # reqs))) (offers_for ty s)
          \<and> offers_for ty ?s' = drop (length (idle_for ty (r # reqs))) (offers_for ty s)" for ty
        using new none off [of ty] unfolding settled_by_def by (cases "ty = rq_taskType r") (auto simp: idle_for_def)
      with new have "settled_by nanoid (r # reqs) s ?s' new" unfolding settled_by_def by auto
      then show ?thesis unfolding e by blast
    next
      case (Some p)
      obtain offer offers where p: "p = (offer, offers)" by fastforce
      note tf = take_first_filter [OF Some [unfolded p]]
      let ?r = "r\<lparr>rq_acceptInProgress := True\<rparr>"
      let ?s = "acceptOffer nanoid offer ?r ((set_accept (rq_ref r) True s)\<lparr>br_offers := offers,
               br_warned := filter (\<lambda>i. i \<noteq> rq_requestId r) (br_warned s)\<rparr>)"
      let ?c = "\<lparr>ca_taskId = nanoid (br_ids s), ca_offer = offer, ca_request = ?r, ca_phase = AskRunner, ca_answer = None\<rparr>"
      have e: "settle_requests nanoid (r # reqs) s = settle_requests nanoid reqs ?s" using idle Some p by simp
      have sel: "br_calls ?s = br_calls s @ [?c]" "br_ids ?s = Suc (br_ids s)" "br_offers ?s = offers" "br_runners ?s = br_runners s"
        "br_tasks ?s = br_tasks s" "br_refs ?s = br_refs s" "br_runnerAccepts ?s = sadd (nanoid (br_ids s)) (br_runnerAccepts s)"
        "br_requests ?s = map (\<lambda>x. if rq_ref x = rq_ref r then x\<lparr>rq_acceptInProgress := True\<rparr> else x) (br_requests s)"
        by (simp_all add: acceptOffer_def Let_def set_accept_def)
      obtain new where new: "settled_by nanoid reqs ?s (settle_requests nanoid reqs ?s) new" using Cons.IH by blast
      let ?s' = "settle_requests nanoid reqs ?s"
      have ofs: "offers_for ty s = (if ty = rq_taskType r then offer # offers_for ty ?s else offers_for ty ?s)" for ty
        using tf(1,2) tf(3) [of "\<lambda>x. of_taskType x = ty"] by (auto simp: offers_for_def sel(3))
      have "assigned ty (?c # new) = zip (map rq_ref (idle_for ty (r # reqs))) (offers_for ty s)
          \<and> offers_for ty ?s' = drop (length (idle_for ty (r # reqs))) (offers_for ty s)" for ty
        using new idle unfolding settled_by_def ofs [of ty] by (auto simp: idle_for_def assigned_def)
      moreover have "map ca_taskId (?c # new) = map nanoid [br_ids s..<br_ids s + length (?c # new)]"
      proof -
        have "map ca_taskId new = map nanoid [Suc (br_ids s)..<Suc (br_ids s) + length new]"
          using new unfolding settled_by_def sel(2) by (elim conjE)
        then show ?thesis using upt_conv_Cons [of "br_ids s" "br_ids s + Suc (length new)"] by (simp del: upt_Suc)
      qed
      moreover have "br_requests ?s' = map (\<lambda>x. if rq_ref x \<in> (\<lambda>a. rq_ref (ca_request a)) ` set (?c # new)
          then x\<lparr>rq_acceptInProgress := True\<rparr> else x) (br_requests s)"
        using new unfolding settled_by_def sel(8) by auto
      ultimately have "settled_by nanoid (r # reqs) s ?s' (?c # new)"
        using new tf idle unfolding settled_by_def sel by (auto simp: sel)
      then show ?thesis unfolding e by blast
    qed
  qed
qed

end
