(* ===== verification/Broker_Invariants.thy ===== *)
theory Broker_Invariants
  imports Broker_Matching
begin

text \<open>
  What holds of the broker in every order of messages, timers and continuations: a request is offered to one runner at a time, tasks and
  calls have identifiers of their own, offers belong to runners that are connected.
\<close>

section \<open>Calls\<close>

definition asking :: "accept_call list \<Rightarrow> accept_call list" where
  "asking calls = filter (\<lambda>a. ca_phase a = AskRunner) calls"

definition call_refs :: "accept_call list \<Rightarrow> nat list" where
  "call_refs calls = map (\<lambda>a. rq_ref (ca_request a)) (asking calls)"

text \<open>\<open>ids_ok\<close>: identifiers come from the supply; \<open>calls_ok\<close>: requests and the calls that ask for them.\<close>

definition known_id :: "(nat \<Rightarrow> string) \<Rightarrow> broker \<Rightarrow> string \<Rightarrow> bool" where
  "known_id nanoid s t \<longleftrightarrow> (\<exists>k < br_ids s. t = nanoid k)"

definition ids_ok :: "(nat \<Rightarrow> string) \<Rightarrow> broker \<Rightarrow> bool" where
  "ids_ok nanoid s \<longleftrightarrow> distinct (map ca_taskId (br_calls s)) \<and> distinct (br_runnerAccepts s)
     \<and> (\<forall>a \<in> set (br_calls s). known_id nanoid s (ca_taskId a))
     \<and> (\<forall>t \<in> set (br_runnerAccepts s). known_id nanoid s t \<and> mget (br_tasks s) t = None)
     \<and> (\<forall>t tk. mget (br_tasks s) t = Some tk \<longrightarrow> tk_id tk = t \<and> known_id nanoid s t)
     \<and> (\<forall>a \<in> set (br_calls s). ca_phase a = AskRunner \<longrightarrow> mget (br_tasks s) (ca_taskId a) = None
          \<and> (\<forall>v. ca_answer a = Some (Accept v) \<longrightarrow> ca_taskId a \<notin> set (br_runnerAccepts s)))"

definition calls_ok :: "broker \<Rightarrow> bool" where
  "calls_ok s \<longleftrightarrow> distinct (map rq_ref (br_requests s)) \<and> distinct (call_refs (br_calls s))
     \<and> (\<forall>r \<in> set (br_requests s). rq_ref r < br_refs s) \<and> (\<forall>a \<in> set (br_calls s). rq_ref (ca_request a) < br_refs s)
     \<and> (\<forall>r \<in> set (br_requests s). rq_ref r \<in> set (call_refs (br_calls s)) \<longrightarrow> rq_acceptInProgress r)
     \<and> (\<forall>a \<in> set (br_calls s). of_taskType (ca_offer a) = rq_taskType (ca_request a))"

definition offers_ok :: "broker \<Rightarrow> bool" where
  "offers_ok s \<longleftrightarrow> (\<forall>x \<in> set (br_offers s). mhas (br_runners s) (of_runnerId x))"

definition broker_ok :: "(nat \<Rightarrow> string) \<Rightarrow> broker \<Rightarrow> bool" where
  "broker_ok nanoid s \<longleftrightarrow> ids_ok nanoid s \<and> calls_ok s \<and> offers_ok s"

lemma broker_ok_new: "broker_ok nanoid new_broker"
  by (simp add: broker_ok_def ids_ok_def calls_ok_def offers_ok_def new_broker_def call_refs_def asking_def)

text \<open>The invariant looks at these parts only.\<close>

lemma broker_ok_cong:
  assumes "broker_ok nanoid s" "br_calls s' = br_calls s" "br_runnerAccepts s' = br_runnerAccepts s" "br_tasks s' = br_tasks s"
    "br_ids s' = br_ids s" "br_refs s' = br_refs s" "br_requests s' = br_requests s" "br_offers s' = br_offers s" "br_runners s' = br_runners s"
  shows "broker_ok nanoid s'"
  using assms by (simp add: broker_ok_def ids_ok_def calls_ok_def offers_ok_def known_id_def)

lemma broker_ok_messages [simp]:
  "broker_ok nanoid (messageRunner i m s) = broker_ok nanoid s" "broker_ok nanoid (messageRequester j m' s) = broker_ok nanoid s"
  by (simp_all add: broker_ok_def ids_ok_def calls_ok_def offers_ok_def known_id_def)

text \<open>Taking things away keeps it.\<close>

lemma broker_ok_less:
  assumes "broker_ok nanoid s" "\<And>t tk. mget m t = Some tk \<Longrightarrow> mget (br_tasks s) t = Some tk"
    "subseq rs (br_requests s)" "set os \<subseteq> set (br_offers s)"
  shows "broker_ok nanoid (s\<lparr>br_tasks := m, br_requests := rs, br_offers := os\<rparr>)"
proof -
  have n: "mget m t = None" if "mget (br_tasks s) t = None" for t using assms(2) [of t] that by (cases "mget m t") auto
  have rs: "set rs \<subseteq> set (br_requests s)" "distinct (map rq_ref (br_requests s)) \<Longrightarrow> distinct (map rq_ref rs)"
    using subseq_set [OF assms(3)] subseq_distinct [OF subseq_map [OF assms(3), of rq_ref]] by simp_all
  have "ids_ok nanoid (s\<lparr>br_tasks := m, br_requests := rs, br_offers := os\<rparr>)"
    using assms(1) n assms(2) unfolding broker_ok_def ids_ok_def known_id_def by simp
  moreover have "calls_ok (s\<lparr>br_tasks := m, br_requests := rs, br_offers := os\<rparr>)"
    using assms(1) rs unfolding broker_ok_def calls_ok_def by auto
  moreover have "offers_ok (s\<lparr>br_tasks := m, br_requests := rs, br_offers := os\<rparr>)"
    using assms(1,4) unfolding broker_ok_def offers_ok_def by auto
  ultimately show ?thesis by (simp add: broker_ok_def)
qed

lemma broker_ok_drop_task: "broker_ok nanoid s \<Longrightarrow> broker_ok nanoid (s\<lparr>br_tasks := mdel t (br_tasks s)\<rparr>)"
proof -
  assume ok: "broker_ok nanoid s"
  have "broker_ok nanoid (s\<lparr>br_tasks := mdel t (br_tasks s), br_requests := br_requests s, br_offers := br_offers s\<rparr>)"
    by (rule broker_ok_less [OF ok]) (simp_all split: if_splits)
  then show ?thesis by simp
qed

lemma failTask_ok: "broker_ok nanoid s \<Longrightarrow> broker_ok nanoid (failTask t err s)"
  by (simp add: failTask_def broker_ok_drop_task split: option.split)

lemma cancelTask_ok: "broker_ok nanoid s \<Longrightarrow> broker_ok nanoid (cancelTask t reason s)"
  by (simp add: cancelTask_def broker_ok_drop_task split: option.split)

lemma taskDone_ok: "broker_ok nanoid s \<Longrightarrow> broker_ok nanoid (taskDoneHandler t d s)"
proof (cases "mget (br_tasks s) t")
  case (Some tk)
  assume "broker_ok nanoid s"
  then have "broker_ok nanoid (messageRequester (tk_requesterId tk) (TaskDone (tk_id tk) d) s)" by simp
  from broker_ok_drop_task [OF this, of "tk_id tk"] Some show ?thesis by (simp add: taskDoneHandler_def)
qed (simp add: taskDoneHandler_def)

lemma taskError_ok: "broker_ok nanoid s \<Longrightarrow> broker_ok nanoid (taskErrorHandler t e s)"
proof (cases "mget (br_tasks s) t")
  case (Some tk)
  assume "broker_ok nanoid s"
  then have "broker_ok nanoid (messageRequester (tk_requesterId tk) (TaskError (tk_id tk) e) s)" by simp
  from broker_ok_drop_task [OF this, of "tk_id tk"] Some show ?thesis by (simp add: taskErrorHandler_def)
qed (simp add: taskErrorHandler_def)

lemma taskTimeout_ok: "broker_ok nanoid s \<Longrightarrow> broker_ok nanoid (handleTaskTimeout mode e t s)"
  by (auto simp: handleTaskTimeout_def taskError_ok split: option.split runner_mode.split)

lemma requestTimeout_ok:
  assumes "broker_ok nanoid s"
  shows "broker_ok nanoid (handleRequestTimeout i s)"
proof (cases "take_first (\<lambda>r. rq_requestId r = i) (br_requests s)")
  case (Some p)
  obtain r rest where p: "p = (r, rest)" by fastforce
  have "subseq rest (br_requests s)" using take_first_Some [OF Some [unfolded p]] by (auto intro!: list_emb_append_mono)
  from broker_ok_less [OF assms _ this, of "br_tasks s" "br_offers s"] have "broker_ok nanoid (s\<lparr>br_requests := rest\<rparr>)" by simp
  then have "broker_ok nanoid (s\<lparr>br_requests := rest, br_warned := filter (\<lambda>x. x \<noteq> i) (br_warned s)\<rparr>)"
    by (rule broker_ok_cong) simp_all
  with Some p show ?thesis by (simp add: handleRequestTimeout_def)
qed (simp add: handleRequestTimeout_def assms)

section \<open>Answers\<close>

lemma answer_call_sel [simp]:
  "br_runnerAccepts (answer_call ph t ans s) = br_runnerAccepts s" "br_tasks (answer_call ph t ans s) = br_tasks s"
  "br_ids (answer_call ph t ans s) = br_ids s" "br_refs (answer_call ph t ans s) = br_refs s"
  "br_requests (answer_call ph t ans s) = br_requests s" "br_offers (answer_call ph t ans s) = br_offers s"
  "br_runners (answer_call ph t ans s) = br_runners s"
  by (simp_all add: answer_call_def)

lemma call_refs_map:
  assumes "\<And>a. ca_phase (f a) = ca_phase a" "\<And>a. ca_request (f a) = ca_request a"
  shows "call_refs (map f xs) = call_refs xs"
  by (induction xs) (simp_all add: call_refs_def asking_def assms)

lemma answer_calls:
  "map ca_taskId (br_calls (answer_call ph t ans s)) = map ca_taskId (br_calls s)"
  "call_refs (br_calls (answer_call ph t ans s)) = call_refs (br_calls s)"
proof -
  let ?f = "\<lambda>a. if ca_taskId a = t \<and> ca_phase a = ph \<and> ca_answer a = None then a\<lparr>ca_answer := Some ans\<rparr> else a"
  have "map ca_taskId (map ?f xs) = map ca_taskId xs" "call_refs (map ?f xs) = call_refs xs" for xs
    by simp (rule call_refs_map, simp_all)
  then show "map ca_taskId (br_calls (answer_call ph t ans s)) = map ca_taskId (br_calls s)"
    "call_refs (br_calls (answer_call ph t ans s)) = call_refs (br_calls s)" unfolding answer_call_def by simp_all
qed

lemma in_answer_call:
  assumes "a' \<in> set (br_calls (answer_call ph t ans s))"
  obtains a where "a \<in> set (br_calls s)" "ca_taskId a' = ca_taskId a" "ca_request a' = ca_request a" "ca_offer a' = ca_offer a"
    "ca_phase a' = ca_phase a" "ca_answer a' = ca_answer a \<or> ca_taskId a = t \<and> ca_phase a = ph \<and> ca_answer a' = Some ans"
  using assms by (auto simp: answer_call_def split: if_splits)

lemma answer_call_ok:
  assumes ok: "broker_ok nanoid s" and acc: "set acc \<subseteq> set (br_runnerAccepts s)" "distinct acc"
    and ans: "\<And>v. ans = Accept v \<Longrightarrow> ph = AskRunner \<Longrightarrow> t \<notin> set acc"
  shows "broker_ok nanoid ((answer_call ph t ans s)\<lparr>br_runnerAccepts := acc\<rparr>)"
proof -
  let ?s = "(answer_call ph t ans s)\<lparr>br_runnerAccepts := acc\<rparr>"
  have sel: "br_calls ?s = br_calls (answer_call ph t ans s)" by simp
  have "ids_ok nanoid ?s"
  proof -
    have "known_id nanoid ?s (ca_taskId a') \<and> (ca_phase a' = AskRunner \<longrightarrow> mget (br_tasks ?s) (ca_taskId a') = None
          \<and> (\<forall>v. ca_answer a' = Some (Accept v) \<longrightarrow> ca_taskId a' \<notin> set (br_runnerAccepts ?s)))"
      if "a' \<in> set (br_calls ?s)" for a'
    proof -
      from that have "a' \<in> set (br_calls (answer_call ph t ans s))" by simp
      then obtain a where a: "a \<in> set (br_calls s)" "ca_taskId a' = ca_taskId a" "ca_phase a' = ca_phase a"
        "ca_answer a' = ca_answer a \<or> ca_taskId a = t \<and> ca_phase a = ph \<and> ca_answer a' = Some ans" by (rule in_answer_call)
      have "known_id nanoid s (ca_taskId a)" "ca_phase a = AskRunner \<Longrightarrow> mget (br_tasks s) (ca_taskId a) = None"
        "ca_phase a = AskRunner \<Longrightarrow> ca_answer a = Some (Accept v) \<Longrightarrow> ca_taskId a \<notin> set (br_runnerAccepts s)" for v
        using ok a(1) by (auto simp: broker_ok_def ids_ok_def)
      with a(2-4) acc(1) ans show ?thesis by (auto simp: known_id_def)
    qed
    then show ?thesis using ok acc unfolding broker_ok_def ids_ok_def
      by (simp add: answer_calls known_id_def) blast
  qed
  moreover have "calls_ok ?s"
  proof -
    have "rq_ref (ca_request a') < br_refs ?s \<and> of_taskType (ca_offer a') = rq_taskType (ca_request a')" if "a' \<in> set (br_calls ?s)" for a'
    proof -
      from that have "a' \<in> set (br_calls (answer_call ph t ans s))" by simp
      then obtain a where "a \<in> set (br_calls s)" "ca_request a' = ca_request a" "ca_offer a' = ca_offer a" by (rule in_answer_call)
      with ok show ?thesis by (auto simp: broker_ok_def calls_ok_def)
    qed
    then show ?thesis using ok unfolding broker_ok_def calls_ok_def by (simp add: answer_calls)
  qed
  moreover have "offers_ok ?s" using ok by (simp add: broker_ok_def offers_ok_def)
  ultimately show ?thesis by (simp add: broker_ok_def)
qed

lemma runner_accepts_distinct: "broker_ok nanoid s \<Longrightarrow> distinct (br_runnerAccepts s)"
  by (simp add: broker_ok_def ids_ok_def)

lemma answer_runner_ok:
  assumes "broker_ok nanoid s"
  shows "broker_ok nanoid (answer_runner t ans s)"
proof (cases "t \<in> set (br_runnerAccepts s)")
  case True
  have "broker_ok nanoid ((answer_call AskRunner t ans s)\<lparr>br_runnerAccepts := remove1 t (br_runnerAccepts s)\<rparr>)"
    by (rule answer_call_ok [OF assms]) (use runner_accepts_distinct [OF assms] in \<open>auto dest: in_set_remove1 set_remove1_subset [THEN subsetD]\<close>)
  with True show ?thesis by (simp add: answer_runner_def)
qed (simp add: answer_runner_def assms)

lemma answer_requester_ok:
  assumes "broker_ok nanoid s"
  shows "broker_ok nanoid (answer_requester t ans s)"
proof (cases "t \<in> set (br_requesterAccepts s)")
  case True
  have "broker_ok nanoid ((answer_call AskRequester t ans s)\<lparr>br_runnerAccepts := br_runnerAccepts s\<rparr>)"
    by (rule answer_call_ok [OF assms]) (use runner_accepts_distinct [OF assms] in auto)
  then have "broker_ok nanoid ((answer_call AskRequester t ans s)\<lparr>br_requesterAccepts := remove1 t (br_requesterAccepts s)\<rparr>)"
    by (rule broker_ok_cong) simp_all
  with True show ?thesis by (simp add: answer_requester_def)
qed (simp add: answer_requester_def assms)

lemma timed_out_ok:
  assumes "broker_ok nanoid s"
  shows "broker_ok nanoid (answer_call ph t TimedOut s)"
proof -
  have "broker_ok nanoid ((answer_call ph t TimedOut s)\<lparr>br_runnerAccepts := br_runnerAccepts s\<rparr>)"
    by (rule answer_call_ok [OF assms]) (use runner_accepts_distinct [OF assms] in auto)
  then show ?thesis by (rule broker_ok_cong) simp_all
qed

section \<open>Matching\<close>

lemma call_refs_append: "call_refs (xs @ ys) = call_refs xs @ call_refs ys"
  by (simp add: call_refs_def asking_def)

lemma in_call_refs: "a \<in> set calls \<Longrightarrow> ca_phase a = AskRunner \<Longrightarrow> rq_ref (ca_request a) \<in> set (call_refs calls)"
  by (auto simp: call_refs_def asking_def)

lemma settled_ids:
  assumes inj: "inj nanoid" and ok: "ids_ok nanoid s" and set: "settled_by nanoid reqs s s' new"
  shows "ids_ok nanoid s'"
proof -
  let ?new = "map nanoid [br_ids s..<br_ids s + length new]"
  have f: "br_calls s' = br_calls s @ new" "br_ids s' = br_ids s + length new" "map ca_taskId new = ?new" "br_tasks s' = br_tasks s"
    "set (br_runnerAccepts s') = set (br_runnerAccepts s) \<union> ca_taskId ` set new" "distinct (br_runnerAccepts s')"
    "\<forall>a \<in> set new. ca_phase a = AskRunner \<and> ca_answer a = None"
    using set ok unfolding settled_by_def ids_ok_def by (elim conjE; blast)+
  have new: "ca_taskId ` set new = set ?new" using arg_cong [OF f(3), of set] by simp
  have fresh: "t \<notin> set ?new" if known_t: "known_id nanoid s t" for t 
  proof
    assume "t \<in> set ?new"
    then obtain j where "br_ids s \<le> j" "t = nanoid j" by auto
    moreover obtain k where "k < br_ids s" "t = nanoid k" using known_t by (auto simp: known_id_def)
    ultimately show False using injD [OF inj, of j k] by simp
  qed
  have known: "known_id nanoid s' t" if "known_id nanoid s t \<or> t \<in> set ?new" for t
  proof (cases "known_id nanoid s t")
    case True
    then obtain k where "k < br_ids s" "t = nanoid k" by (auto simp: known_id_def)
    then show ?thesis unfolding known_id_def f(2) by (intro exI [of _ k]) simp
  next
    case False
    with that show ?thesis by (auto simp: known_id_def f(2))
  qed
  have none: "mget (br_tasks s) t = None" if "t \<in> set ?new" for t
    using fresh [of t] that ok by (cases "mget (br_tasks s) t") (auto simp: ids_ok_def)
  have "distinct (map ca_taskId (br_calls s'))"
  proof -
    have "distinct ?new" unfolding distinct_map using inj_on_subset [OF inj subset_UNIV] by simp
    moreover have "known_id nanoid s t" if "t \<in> set (map ca_taskId (br_calls s))" for t
      using ok that unfolding ids_ok_def set_map by (elim conjE imageE) simp
    then have "set (map ca_taskId (br_calls s)) \<inter> set ?new = {}" using fresh by blast
    ultimately show ?thesis using ok unfolding f(1) map_append f(3) distinct_append by (simp add: ids_ok_def)
  qed
  moreover have "known_id nanoid s' (ca_taskId a) \<and> (ca_phase a = AskRunner \<longrightarrow> mget (br_tasks s') (ca_taskId a) = None
          \<and> (\<forall>v. ca_answer a = Some (Accept v) \<longrightarrow> ca_taskId a \<notin> set (br_runnerAccepts s')))" if a: "a \<in> set (br_calls s')" for a
  proof (cases "a \<in> set (br_calls s)")
    case True
    then have "known_id nanoid s (ca_taskId a)" "ca_phase a = AskRunner \<Longrightarrow> mget (br_tasks s) (ca_taskId a) = None"
      "\<And>v. ca_phase a = AskRunner \<Longrightarrow> ca_answer a = Some (Accept v) \<Longrightarrow> ca_taskId a \<notin> set (br_runnerAccepts s)"
      using ok by (auto simp: ids_ok_def)
    with known fresh show ?thesis unfolding f(4,5) new by auto
  next
    case False
    with a have "a \<in> set new" by (simp add: f(1))
    moreover from this have "ca_taskId a \<in> set ?new" using new by blast
    ultimately show ?thesis using f(7) known none unfolding f(4) by simp
  qed
  moreover have "known_id nanoid s' t \<and> mget (br_tasks s') t = None" if "t \<in> set (br_runnerAccepts s')" for t
    using that ok known none unfolding f(4,5) new ids_ok_def by auto
  moreover have "tk_id tk = t \<and> known_id nanoid s' t" if "mget (br_tasks s') t = Some tk" for t tk
    using that ok known unfolding f(4) ids_ok_def by auto
  ultimately show ?thesis using f(6) by (simp add: ids_ok_def)
qed

lemma settled_calls:
  assumes ok: "calls_ok s" and set: "settled_by nanoid (br_requests s) s s' new"
  shows "calls_ok s'"
proof -
  let ?refs = "map (\<lambda>a. rq_ref (ca_request a)) new"
  have f: "br_calls s' = br_calls s @ new" "br_refs s' = br_refs s"
    "br_requests s' = map (\<lambda>r. if rq_ref r \<in> (\<lambda>a. rq_ref (ca_request a)) ` set new then r\<lparr>rq_acceptInProgress := True\<rparr> else r) (br_requests s)"
    "\<forall>a \<in> set new. ca_phase a = AskRunner \<and> ca_answer a = None \<and> of_taskType (ca_offer a) = rq_taskType (ca_request a)
          \<and> (\<exists>r \<in> set (br_requests s). ca_request a = r\<lparr>rq_acceptInProgress := True\<rparr> \<and> \<not> rq_acceptInProgress r)"
    "subseq ?refs (map rq_ref (br_requests s))"
    using set unfolding settled_by_def by (elim conjE; blast)+
  have new: "call_refs new = ?refs" using f(4) by (simp add: call_refs_def asking_def filter_id_conv [THEN iffD2])
  have refs: "map rq_ref (br_requests s') = map rq_ref (br_requests s)" unfolding f(3) by simp
  have "set (call_refs (br_calls s)) \<inter> set ?refs = {}"
  proof (intro equals0I, elim IntE)
    fix x assume x: "x \<in> set (call_refs (br_calls s))" "x \<in> set ?refs"
    from x(2) f(4) obtain r where "r \<in> set (br_requests s)" "rq_ref r = x" "\<not> rq_acceptInProgress r" by fastforce
    with ok x(1) show False by (auto simp: calls_ok_def)
  qed
  moreover have "distinct ?refs" using ok by (intro subseq_distinct [OF f(5)]) (simp add: calls_ok_def)
  ultimately have "distinct (call_refs (br_calls s'))" using ok by (simp add: f(1) call_refs_append new calls_ok_def)
  moreover have "rq_ref r < br_refs s' \<and> (rq_ref r \<in> set (call_refs (br_calls s')) \<longrightarrow> rq_acceptInProgress r)"
    if "r \<in> set (br_requests s')" for r
    using that ok unfolding f(1,2,3) call_refs_append new by (auto simp: calls_ok_def split: if_splits)
  moreover have "rq_ref (ca_request a) < br_refs s' \<and> of_taskType (ca_offer a) = rq_taskType (ca_request a)" if "a \<in> set (br_calls s')" for a
    using that ok f(4) unfolding f(1,2) by (auto simp: calls_ok_def)
  ultimately show ?thesis using ok refs by (simp add: calls_ok_def)
qed

lemma settleTasks_ok:
  assumes inj: "inj nanoid" and ok: "broker_ok nanoid s"
  shows "broker_ok nanoid (settleTasks nanoid now s)"
proof -
  have exp: "broker_ok nanoid (expireTasks now s)"
    using broker_ok_less [OF ok, of "br_tasks s" "br_requests s" "br_offers (expireTasks now s)"] by (simp add: expireTasks_def)
  let ?s = "expireTasks now s"
  obtain new where new: "settled_by nanoid (br_requests ?s) ?s (settle_requests nanoid (br_requests ?s) ?s) new"
    using settle_requests_settled by blast
  have "offers_ok (settle_requests nanoid (br_requests ?s) ?s)"
    using new exp unfolding settled_by_def broker_ok_def offers_ok_def by auto
  then show ?thesis using exp settled_ids [OF inj _ new] settled_calls [OF _ new]
    by (simp add: settleTasks_def broker_ok_def Let_def)
qed

section \<open>Steps\<close>

lemma registerRunner_ok: "broker_ok nanoid s \<Longrightarrow> broker_ok nanoid (registerRunner r s)"
  by (auto simp: registerRunner_def broker_ok_def ids_ok_def calls_ok_def offers_ok_def known_id_def mhas_def)

lemma handleRunnerReject_ok: "broker_ok nanoid s \<Longrightarrow> broker_ok nanoid (handleRunnerReject t m s)"
  by (simp add: handleRunnerReject_def answer_runner_ok)

lemma deregister_fold_ok:
  "broker_ok nanoid s \<Longrightarrow> broker_ok nanoid (foldl (\<lambda>s (taskId, task). if tk_runnerId task = i
      then handleRunnerReject (tk_id task) m (failTask (tk_id task) e s) else s) s ts)"
proof (induction ts arbitrary: s)
  case (Cons x ts)
  then show ?case by (cases x) (simp add: handleRunnerReject_ok failTask_ok)
qed simp

lemma deregisterRunner_ok:
  assumes "broker_ok nanoid s"
  shows "broker_ok nanoid (deregisterRunner i e s)"
proof -
  have "offers_ok (s\<lparr>br_runners := mdel i (br_runners s), br_offers := filter (\<lambda>x. of_runnerId x \<noteq> i) (br_offers s)\<rparr>)"
    using assms by (auto simp: broker_ok_def offers_ok_def mhas_def)
  then have "broker_ok nanoid (s\<lparr>br_runners := mdel i (br_runners s), br_offers := filter (\<lambda>x. of_runnerId x \<noteq> i) (br_offers s)\<rparr>)"
    using assms by (simp add: broker_ok_def ids_ok_def calls_ok_def known_id_def)
  then show ?thesis unfolding deregisterRunner_def Let_def by (intro deregister_fold_ok)
qed

lemma taskOffered_ok:
  assumes "inj nanoid" "broker_ok nanoid s" "mhas (br_runners s) (of_runnerId x)"
  shows "broker_ok nanoid (taskOffered nanoid now x s)"
  unfolding taskOffered_def
proof (rule settleTasks_ok [OF assms(1)])
  show "broker_ok nanoid (s\<lparr>br_offers := br_offers s @ [x]\<rparr>)"
    using assms(2,3) by (auto simp: broker_ok_def ids_ok_def calls_ok_def offers_ok_def known_id_def)
qed

lemma taskRequested_ok:
  assumes "inj nanoid" "broker_ok nanoid s" "rq_ref r = br_refs s" "\<not> rq_acceptInProgress r"
  shows "broker_ok nanoid (taskRequested nanoid now r (s\<lparr>br_refs := Suc (br_refs s)\<rparr>))"
proof -
  have refs: "broker_ok nanoid (s\<lparr>br_refs := Suc (br_refs s)\<rparr>)"
    using assms(2) by (auto simp: broker_ok_def ids_ok_def calls_ok_def offers_ok_def known_id_def intro: less_SucI)
  have "br_refs s \<notin> set (call_refs (br_calls s))" "br_refs s \<notin> rq_ref ` set (br_requests s)"
    using assms(2) by (auto simp: broker_ok_def calls_ok_def call_refs_def asking_def)
  then have "calls_ok (s\<lparr>br_refs := Suc (br_refs s), br_requests := br_requests s @ [r]\<rparr>)"
    using assms(2-4) by (auto simp: broker_ok_def calls_ok_def intro: less_SucI)
  then have "broker_ok nanoid (s\<lparr>br_refs := Suc (br_refs s), br_requests := br_requests s @ [r]\<rparr>)"
    using assms(2) by (simp add: broker_ok_def ids_ok_def offers_ok_def known_id_def)
  then show ?thesis using refs settleTasks_ok [OF assms(1)] by (simp add: taskRequested_def)
qed

section \<open>Continuations\<close>

lemma drop_call_sel [simp]:
  "br_calls (drop_call a s) = remove1 a (br_calls s)" "br_tasks (drop_call a s) = br_tasks s" "br_runners (drop_call a s) = br_runners s"
  "br_requests (drop_call a s) = br_requests s" "br_offers (drop_call a s) = br_offers s" "br_runnerAccepts (drop_call a s) = br_runnerAccepts s"
  "br_ids (drop_call a s) = br_ids s" "br_refs (drop_call a s) = br_refs s"
  by (simp_all add: drop_call_def)

lemma call_refs_remove1: "call_refs (remove1 a xs) = map (\<lambda>a. rq_ref (ca_request a)) (remove1 a (asking xs))"
  by (simp add: call_refs_def asking_def filter_remove1)

lemma remove1_keys: "x \<in> set xs \<Longrightarrow> distinct (map f xs) \<Longrightarrow> f x \<notin> f ` set (remove1 x xs)"
  by (induction xs) (auto simp: image_iff)

lemma distinct_map_remove1: "distinct (map f xs) \<Longrightarrow> distinct (map f (remove1 x xs))"
proof (induction xs)
  case (Cons y xs)
  then show ?case using set_remove1_subset [of x xs] by auto
qed simp

lemma drop_call_ok:
  assumes ok: "broker_ok nanoid s" and a: "a \<in> set (br_calls s)"
  shows "broker_ok nanoid (drop_call a s)" "ca_taskId a \<notin> ca_taskId ` set (remove1 a (br_calls s))"
    "ca_phase a = AskRunner \<Longrightarrow> rq_ref (ca_request a) \<notin> set (call_refs (remove1 a (br_calls s)))"
proof -
  have d: "distinct (map ca_taskId (br_calls s))" "distinct (call_refs (br_calls s))" using ok by (auto simp: broker_ok_def ids_ok_def calls_ok_def)
  show "ca_taskId a \<notin> ca_taskId ` set (remove1 a (br_calls s))" by (rule remove1_keys [OF a d(1)])
  have r: "distinct (call_refs (remove1 a (br_calls s)))" "set (call_refs (remove1 a (br_calls s))) \<subseteq> set (call_refs (br_calls s))"
    unfolding call_refs_remove1 unfolding call_refs_def
    using distinct_map_remove1 [OF d(2) [unfolded call_refs_def]] image_mono [OF set_remove1_subset [of a "asking (br_calls s)"]]
    by simp_all
  show "rq_ref (ca_request a) \<notin> set (call_refs (remove1 a (br_calls s)))" if "ca_phase a = AskRunner"
    using remove1_keys [of a "asking (br_calls s)" "\<lambda>a. rq_ref (ca_request a)"] d(2) a that
    unfolding call_refs_remove1 unfolding call_refs_def by (simp add: asking_def)
  have sub: "x \<in> set (br_calls s)" if "x \<in> set (remove1 a (br_calls s))" for x using that set_remove1_subset by fast
  have "ids_ok nanoid (drop_call a s)"
    using ok sub distinct_map_remove1 [OF d(1)] unfolding broker_ok_def ids_ok_def known_id_def by simp
  moreover have "calls_ok (drop_call a s)" using ok sub r unfolding broker_ok_def calls_ok_def by auto
  moreover have "offers_ok (drop_call a s)" using ok by (simp add: broker_ok_def offers_ok_def)
  ultimately show "broker_ok nanoid (drop_call a s)" by (simp add: broker_ok_def)
qed

lemma set_accept_ok:
  assumes "broker_ok nanoid s" "ref \<notin> set (call_refs (br_calls s))"
  shows "broker_ok nanoid (set_accept ref False s)"
proof -
  have "map rq_ref (br_requests (set_accept ref False s)) = map rq_ref (br_requests s)" by (simp add: set_accept_def)
  moreover have "rq_ref r < br_refs s \<and> (rq_ref r \<in> set (call_refs (br_calls s)) \<longrightarrow> rq_acceptInProgress r)"
    if "r \<in> set (br_requests (set_accept ref False s))" for r
    using assms that by (auto simp: broker_ok_def calls_ok_def set_accept_def split: if_splits)
  moreover have "br_calls (set_accept ref False s) = br_calls s" "br_refs (set_accept ref False s) = br_refs s" by (simp_all add: set_accept_def)
  ultimately have "calls_ok (set_accept ref False s)" using assms(1) unfolding broker_ok_def calls_ok_def by simp
  then show ?thesis using assms(1) by (simp add: broker_ok_def ids_ok_def offers_ok_def set_accept_def known_id_def)
qed

lemma runner_accepted_ok:
  assumes ok: "broker_ok nanoid s" and new: "ca_taskId a \<notin> ca_taskId ` set (br_calls s)" "known_id nanoid s (ca_taskId a)"
    "ca_taskId a \<notin> set (br_runnerAccepts s)" "rq_ref (ca_request a) < br_refs s" "of_taskType (ca_offer a) = rq_taskType (ca_request a)"
  shows "broker_ok nanoid (runner_accepted a s)"
proof -
  let ?t = "\<lparr>tk_id = ca_taskId a, tk_runnerId = of_runnerId (ca_offer a), tk_requesterId = rq_requesterId (ca_request a),
            tk_taskType = of_taskType (ca_offer a), tk_timeout = False\<rparr>"
  let ?s = "s\<lparr>br_tasks := mset_at (ca_taskId a) ?t (br_tasks s)\<rparr>"
  have "ids_ok nanoid ?s"
  proof -
    have "ca_taskId x \<noteq> ca_taskId a" if "x \<in> set (br_calls s)" for x using new(1) that by (metis imageI)
    moreover have "t \<noteq> ca_taskId a" if "t \<in> set (br_runnerAccepts s)" for t using new(3) that by blast
    ultimately show ?thesis using ok new(2) unfolding broker_ok_def ids_ok_def known_id_def by simp
  qed
  with ok have s: "broker_ok nanoid ?s" by (simp add: broker_ok_def calls_ok_def offers_ok_def)
  show ?thesis
  proof (cases "take_first (\<lambda>r. rq_requestId r = rq_requestId (ca_request a)) (br_requests s)")
    case None
    with s show ?thesis by (simp add: runner_accepted_def Let_def)
  next
    case (Some p)
    obtain r rest where p: "p = (r, rest)" by fastforce
    have sub: "subseq rest (br_requests ?s)" using take_first_Some [OF Some [unfolded p]] by (auto intro!: list_emb_append_mono)
    let ?c = "a\<lparr>ca_phase := AskRequester, ca_answer := None\<rparr>"
    have less: "broker_ok nanoid (?s\<lparr>br_requests := rest\<rparr>)" using broker_ok_less [OF s _ sub, of "br_tasks ?s" "br_offers ?s"] by simp
    have "ids_ok nanoid (?s\<lparr>br_requests := rest, br_calls := br_calls s @ [?c]\<rparr>)"
      using less new(1,2) by (simp add: broker_ok_def ids_ok_def known_id_def)
    moreover have "calls_ok (?s\<lparr>br_requests := rest, br_calls := br_calls s @ [?c]\<rparr>)"
      using less new(4,5) by (simp add: broker_ok_def calls_ok_def call_refs_append) (simp add: call_refs_def asking_def)
    moreover have "offers_ok (?s\<lparr>br_requests := rest, br_calls := br_calls s @ [?c]\<rparr>)" using less by (simp add: broker_ok_def offers_ok_def)
    ultimately have "broker_ok nanoid (?s\<lparr>br_requests := rest, br_calls := br_calls s @ [?c]\<rparr>)" by (simp add: broker_ok_def)
    then have "broker_ok nanoid (?s\<lparr>br_requests := rest, br_requesterAccepts := sadd (ca_taskId a) (br_requesterAccepts s),
        br_calls := br_calls s @ [?c]\<rparr>)" by (rule broker_ok_cong) simp_all
    with Some p show ?thesis by (simp add: runner_accepted_def Let_def)
  qed
qed

lemma getRunner_ok:
  assumes "broker_ok nanoid s" "getRunnerOrFailTask t s = (s', r)"
  shows "broker_ok nanoid s'"
  using assms by (auto simp: getRunnerOrFailTask_def Let_def failTask_ok split: option.splits)

lemma pass_to_runner_ok: "broker_ok nanoid s \<Longrightarrow> broker_ok nanoid (fst (pass_to_runner t m s))"
  by (auto simp: pass_to_runner_def split: prod.splits sum.splits dest: getRunner_ok)

lemma sendTaskSettings_ok:
  assumes "broker_ok nanoid s"
  shows "broker_ok nanoid (fst (sendTaskSettings t v s))"
proof (cases "getRunnerOrFailTask t s")
  case (Pair s1 r)
  have ok: "broker_ok nanoid s1" by (rule getRunner_ok [OF assms Pair])
  have "broker_ok nanoid (s1\<lparr>br_tasks := mset_at t (tk\<lparr>tk_timeout := b\<rparr>) (br_tasks s1)\<rparr>)" if tk: "mget (br_tasks s1) t = Some tk" for tk b
  proof -
    have "ids_ok nanoid (s1\<lparr>br_tasks := mset_at t (tk\<lparr>tk_timeout := b\<rparr>) (br_tasks s1)\<rparr>)"
    proof -
      have "ca_taskId x \<noteq> t" if "x \<in> set (br_calls s1)" "ca_phase x = AskRunner" for x using ok that tk by (auto simp: broker_ok_def ids_ok_def)
      moreover have "t' \<noteq> t" if "t' \<in> set (br_runnerAccepts s1)" for t' using ok that tk by (auto simp: broker_ok_def ids_ok_def)
      ultimately show ?thesis using ok tk unfolding broker_ok_def ids_ok_def known_id_def by simp
    qed
    with ok show ?thesis by (simp add: broker_ok_def calls_ok_def offers_ok_def)
  qed
  with Pair ok assms show ?thesis by (auto simp: sendTaskSettings_def split: sum.splits option.splits)
qed

lemma resume_ok:
  assumes ok: "broker_ok nanoid s" and a: "a \<in> set (br_calls s)" "ca_answer a = Some ans"
  shows "broker_ok nanoid (resume_accept a ans s)"
proof -
  note d = drop_call_ok [OF ok a(1)]
  show ?thesis
  proof (cases "ca_phase a")
    case AskRunner
    have acc: "broker_ok nanoid (set_accept (rq_ref (ca_request a)) False (drop_call a s))" by (rule set_accept_ok [OF d(1)]) (use d(3) AskRunner in simp)
    have "broker_ok nanoid (runner_accepted a (drop_call a s))" if "ans = Accept v" for v
    proof (rule runner_accepted_ok [OF d(1)])
      show "ca_taskId a \<notin> ca_taskId ` set (br_calls (drop_call a s))" using d(2) by simp
      show "known_id nanoid (drop_call a s) (ca_taskId a)" using ok a(1) by (auto simp: broker_ok_def ids_ok_def known_id_def)
      show "ca_taskId a \<notin> set (br_runnerAccepts (drop_call a s))" using ok a that AskRunner by (auto simp: broker_ok_def ids_ok_def)
      show "rq_ref (ca_request a) < br_refs (drop_call a s)" using ok a(1) by (auto simp: broker_ok_def calls_ok_def)
      show "of_taskType (ca_offer a) = rq_taskType (ca_request a)" using ok a(1) by (auto simp: broker_ok_def calls_ok_def)
    qed
    with acc AskRunner show ?thesis by (cases ans) (simp_all add: resume_accept_def)
  next
    case AskRequester
    have "broker_ok nanoid (fst (sendTaskSettings t v (drop_call a s)))" for t v by (rule sendTaskSettings_ok [OF d(1)])
    moreover have "broker_ok nanoid (cancelTask t m (drop_call a s))" for t m by (rule cancelTask_ok [OF d(1)])
    ultimately show ?thesis using AskRequester
      by (cases ans) (auto simp: resume_accept_def Let_def split: prod.splits option.splits intro!: cancelTask_ok, metis fst_conv, metis fst_conv)
  qed
qed

section \<open>The invariant\<close>

lemma pass_to_requester_ok: "broker_ok nanoid s \<Longrightarrow> broker_ok nanoid (pass_to_requester t m s)"
  by (simp add: pass_to_requester_def split: option.split)

lemma onRunnerMessage_ok:
  assumes "inj nanoid" "broker_ok nanoid s"
  shows "broker_ok nanoid (onRunnerMessage nanoid now i m s)"
  using assms by (cases m) (simp_all add: handleRunnerAccept_def handleRunnerReject_def handleRunnerDeferred_def answer_runner_ok
      taskOffered_ok taskDone_ok taskError_ok pass_to_requester_ok)

lemma onRequesterMessage_ok:
  assumes "inj nanoid" "broker_ok nanoid s"
  shows "broker_ok nanoid (fst (onRequesterMessage nanoid now i m s))"
  using assms by (cases m) (simp_all add: handleRequesterAccept_def answer_requester_ok cancelTask_ok taskRequested_ok pass_to_runner_ok)

theorem broker_step_ok:
  assumes "broker_step nanoid s s'" "inj nanoid" "broker_ok nanoid s"
  shows "broker_ok nanoid s'"
  using assms(1)
proof cases
  case (requester_message now i m err)
  then show ?thesis using onRequesterMessage_ok [OF assms(2,3), of now i m] by simp
next
  case (register_requester i)
  then show ?thesis using broker_ok_cong [OF assms(3)] by (simp add: registerRequester_def)
next
  case (deregister_requester i)
  then show ?thesis using broker_ok_cong [OF assms(3)] by (simp add: deregisterRequester_def)
next
  case draining
  then show ?thesis using broker_ok_cong [OF assms(3)] by (simp add: startDraining_def)
next
  case (resume a ans)
  then show ?thesis using resume_ok [OF assms(3)] by simp
qed (use assms(2,3) in \<open>simp_all only: registerRunner_ok deregisterRunner_ok onRunnerMessage_ok requestTimeout_ok timed_out_ok taskTimeout_ok\<close>)

definition broker_reachable :: "(nat \<Rightarrow> string) \<Rightarrow> broker \<Rightarrow> bool" where
  "broker_reachable nanoid s \<longleftrightarrow> (broker_step nanoid)\<^sup>*\<^sup>* new_broker s"

lemma broker_reachable_ok:
  assumes "broker_reachable nanoid s" "inj nanoid"
  shows "broker_ok nanoid s"
  using assms(1) unfolding broker_reachable_def
  by (induction rule: rtranclp_induct) (simp_all add: broker_ok_new broker_step_ok [OF _ assms(2)])

end
