(* ===== verification/Broker_Properties.thy ===== *)
theory Broker_Properties
  imports Broker_Invariants
begin

text \<open>Properties of the task broker.\<close>

section \<open>Matching\<close>

lemma filter_drop: "distinct xs \<Longrightarrow> filter (\<lambda>x. x \<notin> set (take n xs)) xs = drop n xs"
proof -
  assume d: "distinct xs"
  have "set (take n xs) \<inter> set (drop n xs) = {}" using d by (rule set_take_disj_set_drop_if_distinct) simp
  then have "filter (\<lambda>x. x \<notin> set (take n xs)) (take n xs @ drop n xs) = drop n xs"
    unfolding filter_append by (auto simp: filter_empty_conv filter_id_conv)
  then show ?thesis by simp
qed

lemma settled_idle:
  assumes set: "settled_by nanoid (br_requests s) s s' new" and d: "distinct (map rq_ref (br_requests s))"
  shows "map rq_ref (idle_for ty (br_requests s')) = drop (length (offers_for ty s)) (map rq_ref (idle_for ty (br_requests s)))"
proof -
  let ?taken = "(\<lambda>a. rq_ref (ca_request a)) ` set new" and ?L = "map rq_ref (idle_for ty (br_requests s))"
  have req: "br_requests s' = map (\<lambda>r. if rq_ref r \<in> ?taken then r\<lparr>rq_acceptInProgress := True\<rparr> else r) (br_requests s)"
    and new: "\<forall>a \<in> set new. \<exists>r \<in> set (br_requests s). ca_request a = r\<lparr>rq_acceptInProgress := True\<rparr> \<and> \<not> rq_acceptInProgress r"
    and asg: "assigned ty new = zip ?L (offers_for ty s)"
    using set unfolding settled_by_def by (elim conjE; blast)+
  have "map rq_ref (idle_for ty (map (\<lambda>r. if rq_ref r \<in> ?taken then r\<lparr>rq_acceptInProgress := True\<rparr> else r) rs))
      = filter (\<lambda>x. x \<notin> ?taken) (map rq_ref (idle_for ty rs))" for rs
    by (induction rs) (simp_all add: idle_for_def)
  then have idle: "map rq_ref (idle_for ty (br_requests s')) = filter (\<lambda>x. x \<notin> ?taken) ?L" unfolding req .
  have fst: "fst ` set (assigned ty new) = set (take (length (offers_for ty s)) ?L)"
    unfolding asg set_map [symmetric] map_fst_zip_take by (simp add: min_def)
  have "x \<in> ?taken \<longleftrightarrow> x \<in> set (take (length (offers_for ty s)) ?L)" if "x \<in> set ?L" for x
  proof
    assume "x \<in> ?taken"
    then obtain a r where a: "a \<in> set new" "x = rq_ref (ca_request a)" "r \<in> set (br_requests s)" "ca_request a = r\<lparr>rq_acceptInProgress := True\<rparr>"
      using new by blast
    from that obtain r' where r': "r' \<in> set (br_requests s)" "rq_taskType r' = ty" "rq_ref r' = x" by (auto simp: idle_for_def)
    have "r' = r" using d a r' by (auto simp: distinct_map dest: inj_onD)
    with a r' have "a \<in> set (filter (\<lambda>a. rq_taskType (ca_request a) = ty) new)" by simp
    then have "x \<in> fst ` set (assigned ty new)" using a(2) by (force simp: assigned_def)
    then show "x \<in> set (take (length (offers_for ty s)) ?L)" by (simp only: fst)
  next
    assume "x \<in> set (take (length (offers_for ty s)) ?L)"
    then have "x \<in> fst ` set (assigned ty new)" by (simp only: fst)
    then show "x \<in> ?taken" by (auto simp: assigned_def)
  qed
  then have "filter (\<lambda>x. x \<notin> ?taken) ?L = filter (\<lambda>x. x \<notin> set (take (length (offers_for ty s)) ?L)) ?L" by (intro filter_cong) auto
  also have "\<dots> = drop (length (offers_for ty s)) ?L"
    by (rule filter_drop) (use d in \<open>simp add: idle_for_def distinct_map_filter\<close>)
  finally show ?thesis using idle by simp
qed

text \<open>C8: \<^verbatim>\<open>settleTasks\<close> is fair for every type of task: the first idle request gets the first offer that has not expired, the
  second the second, and so on; what is left over is the rest of the offers or the rest of the requests, so no request and offer of
  one type remain together.\<close>

theorem settleTasks_first_come_first_served:
  assumes "distinct (map rq_ref (br_requests s))"
  shows "\<exists>new. br_calls (settleTasks nanoid now s) = br_calls s @ new
    \<and> (\<forall>ty. assigned ty new = zip (map rq_ref (idle_for ty (br_requests s))) (offers_for ty (expireTasks now s))
        \<and> offers_for ty (settleTasks nanoid now s) = drop (length (idle_for ty (br_requests s))) (offers_for ty (expireTasks now s))
        \<and> map rq_ref (idle_for ty (br_requests (settleTasks nanoid now s)))
           = drop (length (offers_for ty (expireTasks now s))) (map rq_ref (idle_for ty (br_requests s))))"
proof -
  let ?s = "expireTasks now s"
  have sel: "br_requests ?s = br_requests s" "br_calls ?s = br_calls s" by (simp_all add: expireTasks_def)
  obtain new where new: "settled_by nanoid (br_requests ?s) ?s (settleTasks nanoid now s) new"
    using settle_requests_settled unfolding settleTasks_def Let_def by blast
  from settled_idle [OF new] assms sel new show ?thesis unfolding settled_by_def sel by (intro exI [of _ new]) simp
qed

definition task_id :: "nat \<Rightarrow> string" where
  "task_id k = ''t'' @ show_nat k"

lemma inj_task_id: "inj task_id"
  by (simp add: inj_def task_id_def)

text \<open>A runner that has made two offers, and a request.\<close>

definition python_runner :: runner where
  "python_runner = \<lparr>rn_id = ''R'', rn_taskTypes = [''py'']\<rparr>"

definition offered :: broker where
  "offered = onRunnerMessage task_id 1 ''R'' (RunnerOffer ''py'' ''o2'' (- 1))
     (onRunnerMessage task_id 0 ''R'' (RunnerOffer ''py'' ''o1'' (- 1)) (registerRequester ''Q'' (registerRunner python_runner new_broker)))"

definition matched :: broker where
  "matched = fst (onRequesterMessage task_id 2 ''Q'' (RequesterRequest ''py'' ''r1'') offered)"

lemma reachable_steps:
  "broker_reachable nanoid new_broker"
  "broker_reachable nanoid s \<Longrightarrow> broker_reachable nanoid (registerRunner r s)"
  "broker_reachable nanoid s \<Longrightarrow> broker_reachable nanoid (registerRequester i s)"
  "broker_reachable nanoid s \<Longrightarrow> broker_reachable nanoid (onRunnerMessage nanoid now i m s)"
  "broker_reachable nanoid s \<Longrightarrow> broker_reachable nanoid (fst (onRequesterMessage nanoid now i m' s))"
  "broker_reachable nanoid s \<Longrightarrow> broker_reachable nanoid (handleRequestTimeout i s)"
  "broker_reachable nanoid s \<Longrightarrow> a \<in> set (br_calls s) \<Longrightarrow> ca_answer a = Some ans \<Longrightarrow> broker_reachable nanoid (resume_accept a ans s)"
proof -
  have step: "broker_reachable nanoid s'" if "broker_reachable nanoid s" "broker_step nanoid s s'" for s s'
    using that unfolding broker_reachable_def by (rule rtranclp.rtrancl_into_rtrancl)
  show "broker_reachable nanoid new_broker" by (simp add: broker_reachable_def)
  show "broker_reachable nanoid s \<Longrightarrow> broker_reachable nanoid (registerRunner r s)" by (erule step) (rule broker_step.intros)
  show "broker_reachable nanoid s \<Longrightarrow> broker_reachable nanoid (registerRequester i s)" by (erule step) (rule broker_step.intros)
  show "broker_reachable nanoid s \<Longrightarrow> broker_reachable nanoid (onRunnerMessage nanoid now i m s)" by (erule step) (rule broker_step.intros)
  show "broker_reachable nanoid s \<Longrightarrow> broker_reachable nanoid (fst (onRequesterMessage nanoid now i m' s))"
    by (erule step, rule broker_step.requester_message [OF surjective_pairing])
  show "broker_reachable nanoid s \<Longrightarrow> broker_reachable nanoid (handleRequestTimeout i s)" by (erule step) (rule broker_step.intros)
  show "broker_reachable nanoid s \<Longrightarrow> a \<in> set (br_calls s) \<Longrightarrow> ca_answer a = Some ans \<Longrightarrow> broker_reachable nanoid (resume_accept a ans s)"
    by (erule step, rule broker_step.resume)
qed

lemma matched_reachable: "broker_reachable task_id matched"
  unfolding matched_def offered_def by (intro reachable_steps)

theorem settleTasks_first_come_first_served_witness:
  "map rq_ref (idle_for ''py'' (br_requests (settleTasks task_id 3 matched))) = []"
proof -
  have d: "distinct (map rq_ref (br_requests matched))" by code_simp
  have "offers_for ''py'' (expireTasks 3 matched) \<noteq> []" "idle_for ''py'' (br_requests matched) = []" by code_simp+
  moreover have "map rq_ref (idle_for ''py'' (br_requests (settleTasks task_id 3 matched)))
      = drop (length (offers_for ''py'' (expireTasks 3 matched))) (map rq_ref (idle_for ''py'' (br_requests matched)))"
    using settleTasks_first_come_first_served [OF d, of task_id 3] by blast
  ultimately show ?thesis by simp
qed

section \<open>Safety\<close>

text \<open>C9: in every state the broker reaches, whatever the order of messages, timers and continuations, no request is offered to two
  runners at the same time (and such a request is marked), every accepted offer is of the type that was requested, the identifiers of calls are
  distinct, a task is filed under its identifier, and no runner can still answer for a task that has started.\<close>

theorem broker_assigns_once:
  assumes "broker_reachable nanoid s" "inj nanoid"
  shows "distinct (call_refs (br_calls s)) \<and> distinct (map ca_taskId (br_calls s))
    \<and> list_all (\<lambda>r. rq_ref r \<notin> set (call_refs (br_calls s)) \<or> rq_acceptInProgress r) (br_requests s)
    \<and> list_all (\<lambda>a. of_taskType (ca_offer a) = rq_taskType (ca_request a)) (br_calls s)
    \<and> list_all (\<lambda>t. mget (br_tasks s) t = None) (br_runnerAccepts s)
    \<and> (\<forall>t. mget (br_tasks s) t = None \<or> map_option tk_id (mget (br_tasks s) t) = Some t)"
  using broker_reachable_ok [OF assms] unfolding broker_ok_def ids_ok_def calls_ok_def by (auto simp: list_all_iff)

theorem broker_assigns_once_witness: "distinct (call_refs (br_calls matched)) \<and> length (br_calls matched) = 1"
proof -
  have "length (br_calls matched) = 1" by code_simp
  with broker_assigns_once [OF matched_reachable inj_task_id] show ?thesis by blast
qed

section \<open>Where tasks and requests are left behind\<close>

text \<open>C38: when a runner accepts an offer after the request has expired, the task is stored and nobody hears of it: no message is sent,
  no call waits for its settings, and the broker counts it as active.\<close>

theorem accepted_expired_request_is_stranded:
  assumes "broker_reachable nanoid s" "inj nanoid" "a \<in> set (br_calls s)" "ca_phase a = AskRunner"
    "find (\<lambda>r. rq_requestId r = rq_requestId (ca_request a)) (br_requests s) = None"
  shows "br_sent (resume_accept a (Accept v) s) = br_sent s \<and> hasActiveTasks (resume_accept a (Accept v) s)
    \<and> map_option tk_runnerId (mget (br_tasks (resume_accept a (Accept v) s)) (ca_taskId a)) = Some (of_runnerId (ca_offer a))
    \<and> ca_taskId a \<notin> ca_taskId ` set (br_calls (resume_accept a (Accept v) s))"
proof -
  have "take_first (\<lambda>r. rq_requestId r = rq_requestId (ca_request a)) (br_requests s) = None"
    using assms(5) by (simp add: take_first_None find_None_iff)
  then have r: "resume_accept a (Accept v) s = (drop_call a s)\<lparr>br_tasks := mset_at (ca_taskId a)
      \<lparr>tk_id = ca_taskId a, tk_runnerId = of_runnerId (ca_offer a), tk_requesterId = rq_requesterId (ca_request a),
        tk_taskType = of_taskType (ca_offer a), tk_timeout = False\<rparr> (br_tasks s)\<rparr>"
    using assms(4) by (simp add: resume_accept_def runner_accepted_def Let_def)
  have "mget (mset_at (ca_taskId a) t (br_tasks s)) (ca_taskId a) \<noteq> mget [] (ca_taskId a)" for t by simp
  then have "mset_at (ca_taskId a) t (br_tasks s) \<noteq> []" for t by metis
  with drop_call_ok(2) [OF broker_reachable_ok [OF assms(1,2)] assms(3)] show ?thesis
    unfolding r by (simp add: hasActiveTasks_def drop_call_def)
qed

definition expired :: broker where
  "expired = onRunnerMessage task_id 9 ''R'' (RunnerAccepted ''t0'') (handleRequestTimeout ''r1'' matched)"

theorem accepted_expired_request_is_stranded_witness:
  "hasActiveTasks (resume_accept (hd (br_calls expired)) (Accept JUndef) expired)"
proof -
  have reach: "broker_reachable task_id expired" unfolding expired_def by (intro reachable_steps matched_reachable)
  have s: "br_calls expired \<noteq> []" "ca_phase (hd (br_calls expired)) = AskRunner"
    "find (\<lambda>r. rq_requestId r = rq_requestId (ca_request (hd (br_calls expired)))) (br_requests expired) = None" by code_simp+
  from accepted_expired_request_is_stranded [OF reach inj_task_id hd_in_set [OF s(1)] s(2,3)] show ?thesis by blast
qed

text \<open>Every entry of the tasks is filed under its identifier.\<close>

definition filed :: "(string, task) jsmap \<Rightarrow> bool" where
  "filed m \<longleftrightarrow> (\<forall>(t, tk) \<in> set m. tk_id tk = t)"

lemma filed_del [simp]: "filed m \<Longrightarrow> filed (mdel t m)"
  by (auto simp: filed_def AList.delete_eq)

lemma filed_set: "filed m \<Longrightarrow> tk_id tk = t \<Longrightarrow> filed (mset_at t tk m)"
  by (induction m) (auto simp: filed_def)

lemma filed_mget: "filed m \<Longrightarrow> mget m t = Some tk \<Longrightarrow> tk_id tk = t"
  by (auto simp: filed_def dest: map_of_SomeD)

text \<open>The operations change the tasks by these only.\<close>

lemma failTask_filed: "filed (br_tasks s) \<Longrightarrow> filed (br_tasks (failTask t e s))"
  by (simp add: failTask_def split: option.split)

lemma cancelTask_filed: "filed (br_tasks s) \<Longrightarrow> filed (br_tasks (cancelTask t r s))"
  by (simp add: cancelTask_def split: option.split)

lemma answer_runner_filed [simp]: "br_tasks (answer_runner t ans s) = br_tasks s"
  by (simp add: answer_runner_def)

lemma answer_requester_filed [simp]: "br_tasks (answer_requester t ans s) = br_tasks s"
  by (simp add: answer_requester_def)

lemma settleTasks_tasks [simp]: "br_tasks (settleTasks nanoid now s) = br_tasks s"
proof -
  obtain new where "settled_by nanoid (br_requests (expireTasks now s)) (expireTasks now s) (settleTasks nanoid now s) new"
    using settle_requests_settled unfolding settleTasks_def Let_def by blast
  then show ?thesis by (simp add: settled_by_def expireTasks_def)
qed

lemma getRunner_filed: "filed (br_tasks s) \<Longrightarrow> getRunnerOrFailTask t s = (s', r) \<Longrightarrow> filed (br_tasks s')"
  by (auto simp: getRunnerOrFailTask_def Let_def failTask_filed split: option.splits)

lemma deregister_fold_filed:
  "filed (br_tasks s) \<Longrightarrow> filed (br_tasks (foldl (\<lambda>s (taskId, task). if tk_runnerId task = i
      then handleRunnerReject (tk_id task) m (failTask (tk_id task) e s) else s) s ts))"
proof (induction ts arbitrary: s)
  case (Cons x ts)
  then show ?case by (cases x) (simp add: handleRunnerReject_def failTask_filed)
qed simp

lemma sendTaskSettings_filed: "filed (br_tasks s) \<Longrightarrow> filed (br_tasks (fst (sendTaskSettings t v s)))"
proof -
  assume f: "filed (br_tasks s)"
  obtain s1 r where r: "getRunnerOrFailTask t s = (s1, r)" by fastforce
  have f1: "filed (br_tasks s1)" by (rule getRunner_filed [OF f r])
  then have "filed (mset_at t (tk\<lparr>tk_timeout := True\<rparr>) (br_tasks s1))" if "mget (br_tasks s1) t = Some tk" for tk
    using filed_mget [OF f1 that] by (intro filed_set) simp_all
  with f f1 r show ?thesis by (auto simp: sendTaskSettings_def split: sum.splits option.splits)
qed

lemma resume_filed: "filed (br_tasks s) \<Longrightarrow> filed (br_tasks (resume_accept a ans s))"
proof -
  assume f: "filed (br_tasks s)"
  have "filed (br_tasks (runner_accepted a (drop_call a s)))"
    by (simp add: runner_accepted_def Let_def filed_set f split: option.split prod.split)
  moreover have "filed (br_tasks (set_accept r False (drop_call a s)))" for r by (simp add: set_accept_def f)
  moreover have "filed (br_tasks (fst (sendTaskSettings t v (drop_call a s))))" for t v by (simp add: sendTaskSettings_filed f)
  moreover have "filed (br_tasks (cancelTask t m (drop_call a s)))" for t m by (simp add: cancelTask_filed f)
  ultimately show ?thesis
    by (auto simp: resume_accept_def Let_def split: accept_phase.split answer.split prod.splits option.splits intro!: cancelTask_filed)
      (metis fst_conv)+
qed

lemma broker_step_filed:
  assumes "broker_step nanoid s s'" "filed (br_tasks s)"
  shows "filed (br_tasks s')"
  using assms(1)
proof cases
  case (register_runner r)
  then show ?thesis using assms(2) by (simp add: registerRunner_def)
next
  case (deregister_runner i err)
  then show ?thesis using assms(2) unfolding deregisterRunner_def Let_def by (simp add: deregister_fold_filed)
next
  case (runner_message now i m)
  then show ?thesis using assms(2)
    by (cases m) (simp_all add: handleRunnerAccept_def handleRunnerReject_def handleRunnerDeferred_def taskOffered_def taskDoneHandler_def
        taskErrorHandler_def pass_to_requester_def split: option.split)
next
  case (requester_message now i m err)
  have "filed (br_tasks (fst (pass_to_runner t msg s)))" for t msg
    using assms(2) by (auto simp: pass_to_runner_def dest: getRunner_filed split: prod.splits sum.splits)
  then have "filed (br_tasks (fst (onRequesterMessage nanoid now i m s)))" using assms(2)
    by (cases m) (simp_all add: handleRequesterAccept_def cancelTask_filed taskRequested_def)
  with requester_message show ?thesis by simp
next
  case (task_timer mode err t)
  then show ?thesis using assms(2) by (simp add: handleTaskTimeout_def taskErrorHandler_def split: option.split runner_mode.split)
next
  case (resume a ans)
  then show ?thesis using assms(2) by (simp add: resume_filed)
qed (use assms(2) in \<open>simp_all add: registerRequester_def deregisterRequester_def startDraining_def handleRequestTimeout_def split: option.split\<close>)

lemma broker_reachable_filed: "broker_reachable nanoid s \<Longrightarrow> filed (br_tasks s)"
  unfolding broker_reachable_def
proof (induction rule: rtranclp_induct)
  case base
  show ?case by (simp add: new_broker_def filed_def)
qed (rule broker_step_filed)

lemma deregister_fold_calls:
  "list_all (\<lambda>(t, tk). tk_id tk \<notin> set (br_runnerAccepts s)) ts \<Longrightarrow>
    br_calls (foldl (\<lambda>s (taskId, task). if tk_runnerId task = i
      then handleRunnerReject (tk_id task) m (failTask (tk_id task) e s) else s) s ts) = br_calls s"
proof (induction ts arbitrary: s)
  case (Cons x ts)
  obtain t tk where x: "x = (t, tk)" by fastforce
  have f: "br_runnerAccepts (failTask u e s) = br_runnerAccepts s" "br_calls (failTask u e s) = br_calls s" for u
    by (simp_all add: failTask_def split: option.split)
  from Cons.prems have "handleRunnerReject (tk_id tk) m (failTask (tk_id tk) e s) = failTask (tk_id tk) e s"
    by (simp add: x handleRunnerReject_def answer_runner_def f)
  with Cons.IH [of "failTask (tk_id tk) e s"] Cons.IH [of s] Cons.prems show ?case by (simp add: x f)
qed simp

text \<open>when a runner disconnects, calls that wait for its answer are not rejected: only the promises of its started
  tasks are looked up, and those have none any more.\<close>

theorem disconnected_runner_keeps_pending_calls:
  assumes "broker_reachable nanoid s" "inj nanoid"
  shows "br_calls (deregisterRunner runnerId err s) = br_calls s"
proof -
  let ?s = "s\<lparr>br_runners := mdel runnerId (br_runners s), br_offers := filter (\<lambda>x. of_runnerId x \<noteq> runnerId) (br_offers s)\<rparr>"
  have "tk_id tk \<notin> set (br_runnerAccepts s)" if "(t, tk) \<in> set (br_tasks s)" for t tk
  proof -
    have "tk_id tk = t" using broker_reachable_filed [OF assms(1)] that by (auto simp: filed_def)
    moreover have "mget (br_tasks s) t \<noteq> None" using that by (metis weak_map_of_SomeI option.distinct(1))
    ultimately show ?thesis using broker_reachable_ok [OF assms] by (auto simp: broker_ok_def ids_ok_def)
  qed
  then have "list_all (\<lambda>(t, tk). tk_id tk \<notin> set (br_runnerAccepts ?s)) (br_tasks ?s)" by (auto simp: list_all_iff)
  from deregister_fold_calls [OF this] show ?thesis unfolding deregisterRunner_def Let_def by simp
qed

theorem disconnected_runner_keeps_pending_calls_witness:
  "map ca_answer (br_calls (deregisterRunner ''R'' (PlainError ''gone'') matched)) = [None]"
proof -
  have "map ca_answer (br_calls matched) = [None]" by code_simp
  then show ?thesis using disconnected_runner_keeps_pending_calls [OF matched_reachable inj_task_id] by simp
qed

definition rejected :: broker where
  "rejected = onRunnerMessage task_id 9 ''R'' (RunnerRejected ''t0'' ''busy'') matched"

text \<open>After a runner has rejected a request, the request stays idle beside a matching offer: nothing is settled before another offer
  or request arrives.\<close>

theorem rejected_request_waits_beside_offer:
  "\<exists>s. broker_reachable task_id s \<and> map rq_requestId (idle_for ''py'' (br_requests s)) = [''r1'']
     \<and> map of_offerId (offers_for ''py'' s) = [''o2''] \<and> br_calls s = []"
proof -
  let ?s = "resume_accept (hd (br_calls rejected)) (Reject ''busy'') rejected"
  have r: "br_calls rejected \<noteq> []" "ca_answer (hd (br_calls rejected)) = Some (Reject ''busy'')" by code_simp+
  have "broker_reachable task_id rejected" unfolding rejected_def by (intro reachable_steps matched_reachable)
  then have "broker_reachable task_id ?s" using hd_in_set [OF r(1)] r(2) by (rule reachable_steps)
  moreover have "map rq_requestId (idle_for ''py'' (br_requests ?s)) = [''r1'']" "map of_offerId (offers_for ''py'' ?s) = [''o2'']"
    "br_calls ?s = []" by code_simp+
  ultimately show ?thesis by (intro exI [of _ ?s] conjI)
qed

end
