(* ===== verification/Parameter_Order.thy ===== *)
theory Parameter_Order
  imports N8n_Types
begin

text \<open>
  The parameters of a node (\<^verbatim>\<open>packages/workflow/src/node-helpers.ts\<close>): their descriptions, which of them depend on
  which, and the order in which they are resolved. The loop of \<^verbatim>\<open>getParameterResolveOrder\<close> has fuel, and enough of it.
\<close>

section \<open>Descriptions\<close>

type_synonym display_rules = "json list obj"

text \<open>
  \<^verbatim>\<open>INodeProperties\<close>, the parts the resolution of parameters reads: the rules of \<^verbatim>\<open>displayOptions\<close>
  (by \<^verbatim>\<open>show\<close> and \<^verbatim>\<open>hide\<close>), \<^verbatim>\<open>typeOptions.multipleValues\<close>, the options of a collection, and those of a
  fixed collection by name.
\<close>

datatype node_property = NodeProperty
  (p_name: string)
  (p_type: string)
  (p_default: json)
  (p_display: "display_rules obj option")
  (p_noDataExpression: bool)
  (p_multipleValues: "bool option")
  (p_options: "node_property list")
  (p_collections: "(string \<times> node_property list) list")

section \<open>Dependencies\<close>

definition starts_with_char :: "char \<Rightarrow> string \<Rightarrow> bool" where
  "starts_with_char c s = (s \<noteq> [] \<and> hd s = c)"

definition add_dependency :: "string list \<Rightarrow> string \<Rightarrow> string list" where
  "add_dependency ds parameterName =
     (if parameterName \<in> set ds then ds
      else if starts_with_char (CHR ''@'') parameterName then ds
      else ds @ [parameterName])"

definition property_dependencies :: "node_property \<Rightarrow> string list obj \<Rightarrow> string list obj" where
  "property_dependencies nodeProperties dependencies =
     (let name = p_name nodeProperties;
          dependencies = (if mhas dependencies name then dependencies else mset_at name [] dependencies)
      in case p_display nodeProperties of
           None \<Rightarrow> dependencies
         | Some displayOptions \<Rightarrow>
             foldl (\<lambda>dependencies parameterName.
                 mset_at name (add_dependency (case mget dependencies name of None \<Rightarrow> [] | Some ds \<Rightarrow> ds) parameterName) dependencies)
               dependencies (concat (map obj_keys (obj_values displayOptions))))"

definition getParameterDependencies :: "node_property list \<Rightarrow> string list obj" where
  "getParameterDependencies nodePropertiesArray = foldl (\<lambda>deps p. property_dependencies p deps) [] nodePropertiesArray"

section \<open>The order\<close>

record resolve_state =
  rs_indexToResolve :: "nat list"
  rs_executionOrder :: "nat list"
  rs_resolvedParameters :: "string list"
  rs_lastIndexLength :: nat
  rs_lastIndexReduction :: int
  rs_iterations :: int

definition resolve_init :: "node_property list \<Rightarrow> resolve_state" where
  "resolve_init props = \<lparr>rs_indexToResolve = [0..<length props], rs_executionOrder = [], rs_resolvedParameters = [],
     rs_lastIndexLength = length props, rs_lastIndexReduction = - 1, rs_iterations = 0\<rparr>"

text \<open>
  The inner loop adds the index once for every dependency that is missing, apart from those of the root; its
  \<^verbatim>\<open>continue\<close> goes on with the next dependency, so the parameter is added to the order all the same.
\<close>

definition missing_dependencies :: "string list \<Rightarrow> string list \<Rightarrow> string list" where
  "missing_dependencies resolved ds = filter (\<lambda>d. d \<notin> set resolved \<and> \<not> starts_with_char (CHR ''/'') d) ds"

definition resolve_step :: "node_property list \<Rightarrow> string list obj \<Rightarrow> nat \<Rightarrow> nat list \<Rightarrow> resolve_state \<Rightarrow> resolve_state res" where
  "resolve_step props dependencies index rest st =
     (let name = p_name (props ! index); iterations = rs_iterations st + 1 in
      case mget dependencies name of
        None \<Rightarrow> Inl (TypeError ''length'')
      | Some ds \<Rightarrow>
          let st = st\<lparr>rs_iterations := iterations, rs_executionOrder := rs_executionOrder st @ [index],
                rs_resolvedParameters := rs_resolvedParameters st @ [name],
                rs_indexToResolve := rest @ map (\<lambda>_. index) (missing_dependencies (rs_resolvedParameters st) ds)\<rparr> in
          if ds = [] then Inr st
          else
            let reduction = (if length (rs_indexToResolve st) < rs_lastIndexLength st then iterations else rs_lastIndexReduction st) in
            if iterations > reduction + int (length props)
            then Inl (ApplicationError ''Could not resolve parameter dependencies. Max iterations reached!'')
            else Inr (st\<lparr>rs_lastIndexReduction := reduction, rs_lastIndexLength := length (rs_indexToResolve st)\<rparr>))"

fun resolve_loop :: "node_property list \<Rightarrow> string list obj \<Rightarrow> nat \<Rightarrow> resolve_state \<Rightarrow> nat list res option" where
  "resolve_loop props dependencies 0 st = None"
| "resolve_loop props dependencies (Suc fuel) st = (case rs_indexToResolve st of
     [] \<Rightarrow> Some (Inr (rs_executionOrder st))
   | index # rest \<Rightarrow> (case resolve_step props dependencies index rest st of
       Inl err \<Rightarrow> Some (Inl err)
     | Inr st \<Rightarrow> resolve_loop props dependencies fuel st))"

definition deps_of :: "string list obj \<Rightarrow> string \<Rightarrow> string list" where
  "deps_of dependencies name = (case mget dependencies name of None \<Rightarrow> [] | Some ds \<Rightarrow> ds)"

definition resolve_fuel :: "node_property list \<Rightarrow> string list obj \<Rightarrow> nat" where
  "resolve_fuel props dependencies =
     (let n = length props; d = (\<Sum>p\<leftarrow>props. length (deps_of dependencies (p_name p))) in d * (n + 3) + n * (2 * n + 5) + 1)"

definition getParameterResolveOrder :: "node_property list \<Rightarrow> string list obj \<Rightarrow> nat list res" where
  "getParameterResolveOrder props dependencies =
     (case resolve_loop props dependencies (resolve_fuel props dependencies) (resolve_init props) of
        Some r \<Rightarrow> r
      | None \<Rightarrow> Inl (PlainError ''out of fuel''))"


section \<open>One step\<close>

abbreviation name_at :: "node_property list \<Rightarrow> nat \<Rightarrow> string" where
  "name_at props i \<equiv> p_name (props ! i)"

abbreviation deps_at :: "node_property list \<Rightarrow> string list obj \<Rightarrow> nat \<Rightarrow> string list" where
  "deps_at props deps i \<equiv> deps_of deps (name_at props i)"

text \<open>What a step that does not fail does to the state.\<close>

lemma resolve_step_Inr:
  assumes "resolve_step props deps i rest st = Inr st'"
  defines "m \<equiv> length (missing_dependencies (rs_resolvedParameters st) (deps_at props deps i))"
  shows "rs_iterations st' = rs_iterations st + 1" and "rs_executionOrder st' = rs_executionOrder st @ [i]"
    and "rs_resolvedParameters st' = rs_resolvedParameters st @ [name_at props i]"
    and "rs_indexToResolve st' = rest @ replicate m i"
    and "deps_at props deps i = [] \<Longrightarrow> rs_lastIndexLength st' = rs_lastIndexLength st
      \<and> rs_lastIndexReduction st' = rs_lastIndexReduction st"
    and "deps_at props deps i \<noteq> [] \<Longrightarrow> rs_lastIndexLength st' = length rest + m
      \<and> rs_lastIndexReduction st' = (if length rest + m < rs_lastIndexLength st then rs_iterations st + 1 else rs_lastIndexReduction st)
      \<and> rs_iterations st' \<le> rs_lastIndexReduction st' + int (length props)"
proof -
  obtain ds where ds: "mget deps (name_at props i) = Some ds"
    using assms(1) by (auto simp: resolve_step_def Let_def split: option.splits)
  then have D: "deps_at props deps i = ds" by (simp add: deps_of_def)
  note step = assms(1) [unfolded resolve_step_def Let_def ds option.case, simplified]
  show "rs_iterations st' = rs_iterations st + 1" "rs_executionOrder st' = rs_executionOrder st @ [i]"
    "rs_resolvedParameters st' = rs_resolvedParameters st @ [name_at props i]"
    "rs_indexToResolve st' = rest @ replicate m i"
    using step by (auto simp: m_def D map_replicate_const split: if_splits)
  show "rs_lastIndexLength st' = rs_lastIndexLength st \<and> rs_lastIndexReduction st' = rs_lastIndexReduction st"
    if "deps_at props deps i = []" using step that D by auto
  show "rs_lastIndexLength st' = length rest + m
      \<and> rs_lastIndexReduction st' = (if length rest + m < rs_lastIndexLength st then rs_iterations st + 1 else rs_lastIndexReduction st)
      \<and> rs_iterations st' \<le> rs_lastIndexReduction st' + int (length props)"
    if "deps_at props deps i \<noteq> []" using step that D by (auto simp: m_def split: if_splits)
qed

text \<open>When a step fails, the parameter having its entry among the dependencies.\<close>

lemma resolve_step_Inl:
  assumes "resolve_step props deps i rest st = Inl e" and "mhas deps (name_at props i)"
  defines "m \<equiv> length (missing_dependencies (rs_resolvedParameters st) (deps_at props deps i))"
  shows "rs_iterations st + 1 > (if length rest + m < rs_lastIndexLength st then rs_iterations st + 1 else rs_lastIndexReduction st)
      + int (length props)"
proof -
  obtain ds where ds: "mget deps (name_at props i) = Some ds" using assms(2) by (auto simp: mhas_def)
  then have D: "deps_at props deps i = ds" by (simp add: deps_of_def)
  show ?thesis using assms(1) [unfolded resolve_step_def Let_def ds option.case, simplified]
    by (auto simp: m_def D split: if_splits)
qed

lemma missing_le: "length (missing_dependencies R ds) \<le> length ds"
  by (simp add: missing_dependencies_def)

lemma missing_cong: "set R = set R' \<Longrightarrow> missing_dependencies R ds = missing_dependencies R' ds"
  by (simp add: missing_dependencies_def)

section \<open>The invariant and the measure of the loop\<close>

text \<open>
  The first \<open>n\<close> iterations take the \<open>n\<close> indices in their order; \<open>R\<close> holds what they left for later.
\<close>

definition resolve_inv :: "node_property list \<Rightarrow> nat \<Rightarrow> nat list \<Rightarrow> resolve_state \<Rightarrow> bool" where
  "resolve_inv props k R st \<longleftrightarrow>
     rs_iterations st = int k \<and> rs_indexToResolve st = [k..<length props] @ R \<and> set R \<subseteq> {..<length props}
     \<and> set (rs_executionOrder st) = {..<min k (length props)}
     \<and> rs_resolvedParameters st = map (name_at props) (rs_executionOrder st)
     \<and> length (rs_indexToResolve st) \<le> rs_lastIndexLength st
     \<and> - 1 \<le> rs_lastIndexReduction st \<and> rs_lastIndexReduction st \<le> int k"

lemma resolve_inv_init: "resolve_inv props 0 [] (resolve_init props)"
  by (simp add: resolve_inv_def resolve_init_def)

definition solvable :: "node_property list \<Rightarrow> string list obj \<Rightarrow> nat \<Rightarrow> bool" where
  "solvable props deps i = (missing_dependencies (map p_name props) (deps_at props deps i) = [])"

definition resolve_measure :: "node_property list \<Rightarrow> string list obj \<Rightarrow> nat \<Rightarrow> nat list \<Rightarrow> resolve_state \<Rightarrow> nat" where
  "resolve_measure props deps k R st =
     (let n = length props in
      (\<Sum>i\<leftarrow>[k..<n]. length (deps_at props deps i) * (n + 3) + (2 * n + 4))
      + length (filter (solvable props deps) R) * (n + 3)
      + (if length (rs_indexToResolve st) < rs_lastIndexLength st then n + 2 else 0)
      + nat (rs_lastIndexReduction st + int n - int k + 1))"

lemma resolve_queue_cases:
  assumes "resolve_inv props k R st" and "rs_indexToResolve st = i # rest"
  obtains (first) "k < length props" "i = k" "rest = [Suc k..<length props] @ R"
  | (later) R' where "length props \<le> k" "R = i # R'" "rest = [Suc k..<length props] @ R'"
proof (cases "k < length props")
  case True
  with assms have "[k..<length props] = k # [Suc k..<length props]" by (simp add: upt_conv_Cons)
  with assms True have "i = k" "rest = [Suc k..<length props] @ R" by (auto simp: resolve_inv_def)
  with True show ?thesis by (rule first)
next
  case False
  with assms have "R = i # rest" by (auto simp: resolve_inv_def)
  with False show ?thesis by (intro later [of rest]) auto
qed

lemma resolve_index_less:
  assumes "resolve_inv props k R st" and "rs_indexToResolve st = i # rest"
  shows "i < length props"
  by (rule resolve_queue_cases [OF assms]) (use assms(1) in \<open>auto simp: resolve_inv_def\<close>)

lemma resolve_inv_step:
  assumes I: "resolve_inv props k R st" and q: "rs_indexToResolve st = i # rest"
    and step: "resolve_step props deps i rest st = Inr st'" and rest: "rest = [Suc k..<length props] @ R'"
    and R': "set R' \<subseteq> {..<length props}" and seen: "set (rs_executionOrder st) \<union> {i} = {..<min (Suc k) (length props)}"
  defines "m \<equiv> length (missing_dependencies (rs_resolvedParameters st) (deps_at props deps i))"
  shows "resolve_inv props (Suc k) (R' @ replicate m i) st'"
proof -
  note s = resolve_step_Inr [OF step, folded m_def]
  have il: "i < length props" using resolve_index_less [OF I q] .
  have len: "length (rs_indexToResolve st) = Suc (length rest)" using q by simp
  have L: "length (rs_indexToResolve st') \<le> rs_lastIndexLength st' \<and> - 1 \<le> rs_lastIndexReduction st'
      \<and> rs_lastIndexReduction st' \<le> int (Suc k)"
  proof (cases "deps_at props deps i = []")
    case True
    then have "m = 0" by (simp add: m_def missing_dependencies_def)
    then show ?thesis using s(4) s(5) [OF True] I len by (simp add: resolve_inv_def)
  next
    case False
    show ?thesis using s(4) s(6) [OF False] I len by (auto simp: resolve_inv_def)
  qed
  then show ?thesis using I s(1-4) rest R' seen il by (auto simp: resolve_inv_def)
qed

lemma names_nth: "p_name ` set props = name_at props ` {..<length props}"
  by (auto simp: set_conv_nth)

lemma resolve_names:
  assumes "resolve_inv props k R st" and "length props \<le> k"
  shows "set (rs_resolvedParameters st) = set (map p_name props)"
proof -
  have "set (rs_executionOrder st) = {..<length props}" using assms by (simp add: resolve_inv_def min_absorb2)
  then show ?thesis using assms(1) by (simp add: resolve_inv_def names_nth)
qed

lemma filter_replicate: "filter P (replicate m x) = (if P x then replicate m x else [])"
  by (induction m) auto

text \<open>Every step that does not fail keeps the invariant and lowers the measure.\<close>

lemma resolve_step_decreases:
  assumes I: "resolve_inv props k R st" and q: "rs_indexToResolve st = i # rest"
    and step: "resolve_step props deps i rest st = Inr st'"
  shows "\<exists>R'. resolve_inv props (Suc k) R' st' \<and> resolve_measure props deps (Suc k) R' st' < resolve_measure props deps k R st"
proof -
  define n where "n = length props"
  define m where "m = length (missing_dependencies (rs_resolvedParameters st) (deps_at props deps i))"
  define F where "F k = (\<Sum>i\<leftarrow>[k..<n]. length (deps_at props deps i) * (n + 3) + (2 * n + 4))" for k
  define flag where "flag st = (if length (rs_indexToResolve st) < rs_lastIndexLength st then n + 2 else 0)" for st :: resolve_state
  have M: "resolve_measure props deps k R st = F k + length (filter (solvable props deps) R) * (n + 3) + flag st
      + nat (rs_lastIndexReduction st + int n - int k + 1)" for k R st
    by (simp add: resolve_measure_def n_def F_def flag_def Let_def)
  note s = resolve_step_Inr [OF step, folded m_def]
  have k: "rs_iterations st = int k" using I by (simp add: resolve_inv_def)
  have len: "length (rs_indexToResolve st) = Suc (length rest)" using q by simp
  have last_le: "length (rs_indexToResolve st) \<le> rs_lastIndexLength st" using I unfolding resolve_inv_def by (elim conjE)
  have len': "length (rs_indexToResolve st') = length rest + m" using s(4) by simp
  from I q show ?thesis
  proof (cases rule: resolve_queue_cases)
    case first
    have "insert k {..<k} = {..<Suc k}" by auto
    then have I': "resolve_inv props (Suc k) (R @ replicate m i) st'"
      unfolding m_def using first I
      by (intro resolve_inv_step [OF I q step]) (auto simp: resolve_inv_def)
    have Fk: "F k = length (deps_at props deps i) * (n + 3) + (2 * n + 4) + F (Suc k)"
      using first by (simp add: F_def n_def upt_conv_Cons)
    have "m \<le> length (deps_at props deps i)" by (simp add: m_def missing_le)
    then have "length (filter (solvable props deps) (replicate m i)) \<le> length (deps_at props deps i)"
      by (simp add: filter_replicate)
    then have G: "length (filter (solvable props deps) (replicate m i)) * (n + 3) \<le> length (deps_at props deps i) * (n + 3)"
      by (rule mult_le_mono1)
    have "rs_lastIndexReduction st' \<le> int (Suc k)" using I' by (simp add: resolve_inv_def)
    then have "nat (rs_lastIndexReduction st' + int n - int (Suc k) + 1) \<le> n + 1" by simp
    moreover have "flag st' \<le> n + 2" by (simp add: flag_def)
    ultimately have "resolve_measure props deps (Suc k) (R @ replicate m i) st' < resolve_measure props deps k R st"
      unfolding M Fk using G by (simp add: algebra_simps)
    with I' show ?thesis by blast
  next
    case (later R')
    have R': "set R' \<subseteq> {..<length props}" "i < length props" using I later by (auto simp: resolve_inv_def)
    have seen: "set (rs_executionOrder st) \<union> {i} = {..<min (Suc k) (length props)}"
      using I later R'(2) by (auto simp: resolve_inv_def)
    have I': "resolve_inv props (Suc k) (R' @ replicate m i) st'"
      unfolding m_def by (rule resolve_inv_step [OF I q step later(3) R'(1) seen])
    have "missing_dependencies (rs_resolvedParameters st) (deps_at props deps i)
        = missing_dependencies (map p_name props) (deps_at props deps i)"
      by (rule missing_cong, rule resolve_names [OF I later(1)])
    then have sol: "solvable props deps i \<longleftrightarrow> m = 0" by (simp add: m_def solvable_def)
    have F0: "F k = 0" "F (Suc k) = 0" using later(1) by (simp_all add: F_def n_def)
    have red: "rs_lastIndexReduction st \<le> int k" using I by (simp add: resolve_inv_def)
    have red': "rs_lastIndexReduction st' \<le> int (Suc k)" using I' by (simp add: resolve_inv_def)
    have "resolve_measure props deps (Suc k) (R' @ replicate m i) st' < resolve_measure props deps k R st"
    proof (cases "deps_at props deps i = []")
      case True
      then have m0: "m = 0" by (simp add: m_def missing_dependencies_def)
      have "flag st' \<le> flag st + (n + 2)" by (simp add: flag_def)
      moreover have "rs_lastIndexReduction st' = rs_lastIndexReduction st" using s(5) [OF True] by simp
      ultimately show ?thesis unfolding M F0 using m0 sol later(2) by simp
    next
      case False
      have flag': "flag st' = 0" using s(6) [OF False] len' by (simp add: flag_def)
      have slack': "rs_iterations st' \<le> rs_lastIndexReduction st' + int n" using s(6) [OF False] by (simp add: n_def)
      show ?thesis
      proof (cases "m = 0")
        case True
        have "nat (rs_lastIndexReduction st' + int n - int (Suc k) + 1) \<le> n + 1" using red' by simp
        then show ?thesis unfolding M F0 flag' using True sol later(2) by simp
      next
        case m: False
        have R: "filter (solvable props deps) (R' @ replicate m i) = filter (solvable props deps) R"
          using m sol later(2) by (simp add: filter_replicate)
        show ?thesis
        proof (cases "length rest + m < rs_lastIndexLength st")
          case True
          then have "flag st = n + 2" using len m last_le by (auto simp: flag_def)
          moreover have "nat (rs_lastIndexReduction st' + int n - int (Suc k) + 1) \<le> n + 1" using red' by simp
          ultimately show ?thesis unfolding M F0 flag' R by simp
        next
          case nless: False
          then have "rs_lastIndexReduction st' = rs_lastIndexReduction st" using s(6) [OF False] by simp
          then show ?thesis unfolding M F0 flag' R using slack' s(1) k by simp
        qed
      qed
    qed
    with I' show ?thesis by blast
  qed
qed

section \<open>The loop ends\<close>

lemma resolve_loop_total:
  assumes "resolve_inv props k R st" and "resolve_measure props deps k R st < fuel"
  shows "\<exists>r. resolve_loop props deps fuel st = Some r"
  using assms
proof (induction fuel arbitrary: k R st)
  case (Suc fuel)
  show ?case
  proof (cases "rs_indexToResolve st")
    case (Cons i rest)
    show ?thesis
    proof (cases "resolve_step props deps i rest st")
      case (Inr st')
      from resolve_step_decreases [OF Suc.prems(1) Cons Inr] obtain R'
        where "resolve_inv props (Suc k) R' st'"
          and "resolve_measure props deps (Suc k) R' st' < resolve_measure props deps k R st" by blast
      with Suc.IH [of "Suc k" R' st'] Suc.prems(2) show ?thesis using Cons Inr by simp
    qed (simp add: Cons)
  qed simp
qed simp

lemma resolve_loop_more: "resolve_loop props deps f st = Some r \<Longrightarrow> f \<le> g \<Longrightarrow> resolve_loop props deps g st = Some r"
proof (induction f arbitrary: st g)
  case (Suc f)
  then show ?case by (cases g) (auto split: list.splits sum.splits)
qed simp

lemma sum_list_upt_add: "(\<Sum>i\<leftarrow>xs. f i * c + (d :: nat)) = (\<Sum>i\<leftarrow>xs. f i) * c + length xs * d"
  by (induction xs) (simp_all add: algebra_simps)

lemma resolve_fuel_enough: "resolve_measure props deps 0 [] (resolve_init props) < resolve_fuel props deps"
proof -
  have "map (\<lambda>i. length (deps_at props deps i)) [0..<length props] = map (\<lambda>p. length (deps_of deps (p_name p))) props"
    by (rule nth_equalityI) simp_all
  then show ?thesis
    unfolding resolve_measure_def resolve_fuel_def resolve_init_def Let_def sum_list_upt_add
    by (simp add: algebra_simps)
qed

lemma resolve_loop_result:
  "resolve_loop props deps (resolve_fuel props deps) (resolve_init props) = Some (getParameterResolveOrder props deps)"
  using resolve_loop_total [OF resolve_inv_init resolve_fuel_enough, of props deps]
  by (auto simp: getParameterResolveOrder_def)

section \<open>Rules of the loop\<close>

lemma resolve_loop_rule:
  assumes "resolve_loop props deps f st = Some (Inr order)" and "P st"
    and "\<And>st i rest st'. P st \<Longrightarrow> rs_indexToResolve st = i # rest \<Longrightarrow> resolve_step props deps i rest st = Inr st' \<Longrightarrow> P st'"
  shows "\<exists>st'. P st' \<and> rs_indexToResolve st' = [] \<and> rs_executionOrder st' = order"
  using assms(1,2)
proof (induction f arbitrary: st)
  case (Suc f)
  then show ?case using assms(3) by (auto split: list.splits sum.splits)
qed simp

lemma resolve_loop_error:
  assumes "resolve_loop props deps f st = Some (Inl e)" and "P st"
    and "\<And>st i rest st'. P st \<Longrightarrow> rs_indexToResolve st = i # rest \<Longrightarrow> resolve_step props deps i rest st = Inr st' \<Longrightarrow> P st'"
  shows "\<exists>st i rest. P st \<and> rs_indexToResolve st = i # rest \<and> resolve_step props deps i rest st = Inl e"
  using assms(1,2)
proof (induction f arbitrary: st)
  case (Suc f)
  show ?case
  proof (cases "rs_indexToResolve st")
    case Nil
    then show ?thesis using Suc.prems(1) by simp
  next
    case (Cons i rest)
    show ?thesis
    proof (cases "resolve_step props deps i rest st")
      case (Inl err)
      then show ?thesis using Suc.prems Cons by auto
    next
      case (Inr st')
      then show ?thesis using Suc.prems Cons Suc.IH assms(3) [OF Suc.prems(2) Cons Inr] by simp
    qed
  qed
qed simp

section \<open>What the order gives\<close>

text \<open>Each index still waits, or stands in the order behind all it depends on.\<close>

definition placed_or_waiting :: "node_property list \<Rightarrow> string list obj \<Rightarrow> resolve_state \<Rightarrow> bool" where
  "placed_or_waiting props deps st \<longleftrightarrow>
     rs_resolvedParameters st = map (name_at props) (rs_executionOrder st)
     \<and> (\<forall>i<length props. i \<in> set (rs_indexToResolve st)
          \<or> (\<exists>xs ys. rs_executionOrder st = xs @ i # ys \<and> missing_dependencies (map (name_at props) xs) (deps_at props deps i) = []))"

lemma placed_or_waiting_step:
  assumes P: "placed_or_waiting props deps st" and q: "rs_indexToResolve st = i # rest"
    and step: "resolve_step props deps i rest st = Inr st'"
  shows "placed_or_waiting props deps st'"
  unfolding placed_or_waiting_def
proof (intro conjI allI impI)
  note s = resolve_step_Inr [OF step]
  have names: "rs_resolvedParameters st = map (name_at props) (rs_executionOrder st)"
    using P by (simp add: placed_or_waiting_def)
  show "rs_resolvedParameters st' = map (name_at props) (rs_executionOrder st')" using s(2,3) names by simp
  fix j assume j: "j < length props"
  show "j \<in> set (rs_indexToResolve st')
      \<or> (\<exists>xs ys. rs_executionOrder st' = xs @ j # ys \<and> missing_dependencies (map (name_at props) xs) (deps_at props deps j) = [])"
  proof (cases "j \<in> set (rs_indexToResolve st)")
    case True
    show ?thesis
    proof (cases "j \<in> set rest")
      case False
      with True q have ji: "j = i" by simp
      show ?thesis
      proof (cases "missing_dependencies (rs_resolvedParameters st) (deps_at props deps i) = []")
        case True
        then show ?thesis using s(2) ji names by auto
      qed (use s(4) ji in auto)
    qed (use s(4) in simp)
  next
    case False
    then obtain xs ys where "rs_executionOrder st = xs @ j # ys"
        "missing_dependencies (map (name_at props) xs) (deps_at props deps j) = []"
      using P j by (auto simp: placed_or_waiting_def)
    then show ?thesis using s(2) by auto
  qed
qed

lemma resolve_order_placed:
  assumes "getParameterResolveOrder props deps = Inr order" and "i < length props"
  shows "\<exists>xs ys. order = xs @ i # ys \<and> i \<notin> set ys
    \<and> (\<forall>d\<in>set (deps_at props deps i). starts_with_char (CHR ''/'') d \<or> d \<in> name_at props ` set xs)"
proof -
  have run: "resolve_loop props deps (resolve_fuel props deps) (resolve_init props) = Some (Inr order)"
    using resolve_loop_result [of props deps] assms(1) by simp
  have init: "placed_or_waiting props deps (resolve_init props)" by (simp add: placed_or_waiting_def resolve_init_def)
  have "\<exists>st'. placed_or_waiting props deps st' \<and> rs_indexToResolve st' = [] \<and> rs_executionOrder st' = order"
    by (rule resolve_loop_rule [OF run, of "placed_or_waiting props deps", OF init]) (rule placed_or_waiting_step)
  then obtain st' where "placed_or_waiting props deps st'" "rs_indexToResolve st' = []" "rs_executionOrder st' = order"
    by blast
  with assms(2) obtain xs ys where o1: "order = xs @ i # ys"
      and m: "missing_dependencies (map (name_at props) xs) (deps_at props deps i) = []"
    unfolding placed_or_waiting_def by auto
  have "i \<in> set (i # ys)" by simp
  then obtain us vs where uv: "i # ys = us @ i # vs" "i \<notin> set vs" by (meson split_list_last)
  have "order = (xs @ us) @ i # vs" using o1 uv(1) by simp
  moreover have "\<forall>d\<in>set (deps_at props deps i). starts_with_char (CHR ''/'') d \<or> d \<in> name_at props ` set (xs @ us)"
    using m by (auto simp: missing_dependencies_def filter_empty_conv)
  ultimately show ?thesis using uv(2) by blast
qed

section \<open>When there is an order\<close>

text \<open>An index with a dependency that no parameter has never leaves the queue.\<close>

lemma unsolvable_stays:
  assumes "resolve_step props deps i rest st = Inr st'" and "rs_indexToResolve st = i # rest"
    and "set (rs_resolvedParameters st) \<subseteq> p_name ` set props" and "set (rs_indexToResolve st) \<subseteq> {..<length props}"
    and "j \<in> set (rs_indexToResolve st)" and "\<not> solvable props deps j"
  shows "j \<in> set (rs_indexToResolve st')" and "set (rs_resolvedParameters st') \<subseteq> p_name ` set props"
    and "set (rs_indexToResolve st') \<subseteq> {..<length props}"
proof -
  note s = resolve_step_Inr [OF assms(1)]
  have "missing_dependencies (rs_resolvedParameters st) (deps_at props deps j) \<noteq> []"
    using assms(3,6) by (auto simp: solvable_def missing_dependencies_def filter_empty_conv)
  then show "j \<in> set (rs_indexToResolve st')" using s(4) assms(2,5) by auto
  show "set (rs_resolvedParameters st') \<subseteq> p_name ` set props" using s(3) assms(2,3,4) by auto
  show "set (rs_indexToResolve st') \<subseteq> {..<length props}" using s(4) assms(2,4) by (auto split: if_splits)
qed

lemma resolve_order_solvable:
  assumes "getParameterResolveOrder props deps = Inr order" and "j < length props"
  shows "solvable props deps j"
proof (rule ccontr)
  assume un: "\<not> solvable props deps j"
  define P where "P st \<longleftrightarrow> j \<in> set (rs_indexToResolve st) \<and> set (rs_resolvedParameters st) \<subseteq> p_name ` set props
    \<and> set (rs_indexToResolve st) \<subseteq> {..<length props}" for st :: resolve_state
  have run: "resolve_loop props deps (resolve_fuel props deps) (resolve_init props) = Some (Inr order)"
    using resolve_loop_result [of props deps] assms(1) by simp
  have init: "P (resolve_init props)" using assms(2) by (simp add: P_def resolve_init_def atLeast0LessThan)
  have "\<exists>st'. P st' \<and> rs_indexToResolve st' = [] \<and> rs_executionOrder st' = order"
  proof (rule resolve_loop_rule [OF run, of P, OF init])
    fix st i rest st'
    assume "P st" "rs_indexToResolve st = i # rest" "resolve_step props deps i rest st = Inr st'"
    then show "P st'" using unsolvable_stays [of props deps i rest st st' j] un unfolding P_def by blast
  qed
  then show False by (auto simp: P_def)
qed

text \<open>
  What the resolution relies on: the provider of the dependencies has an entry for every parameter.
\<close>

locale dependency_source =
  fixes depends :: "node_property list \<Rightarrow> string list obj"
  assumes dependencies_of_all: "i < length props \<Longrightarrow> mhas (depends props) (name_at props i)"
begin

text \<open>
  When every dependency is the name of some parameter and none the parameter's own, no step fails: the last of the
  first \<open>n\<close> finds all it needs, and from then on every step shortens the queue.
\<close>

lemma solvable_step:
  assumes I: "resolve_inv props k R st" and q: "rs_indexToResolve st = i # rest"
    and all: "\<And>j. j < length props \<Longrightarrow> solvable props (depends props) j"
    and own: "\<And>j. j < length props \<Longrightarrow> name_at props j \<notin> set (deps_at props (depends props) j)"
  shows "resolve_step props (depends props) i rest st \<noteq> Inl e"
proof
  assume err: "resolve_step props (depends props) i rest st = Inl e"
  define m where "m = length (missing_dependencies (rs_resolvedParameters st) (deps_at props (depends props) i))"
  have il: "i < length props" by (rule resolve_index_less [OF I q])
  note E = resolve_step_Inl [OF err dependencies_of_all [OF il], folded m_def]
  have k: "rs_iterations st = int k" and red: "- 1 \<le> rs_lastIndexReduction st"
    using I by (simp_all add: resolve_inv_def)
  have lens: "Suc (length rest) \<le> rs_lastIndexLength st" using I q unfolding resolve_inv_def by simp
  have kn: "length props \<le> Suc k" using E k red il by (simp split: if_splits)
  have "m = 0"
  proof (cases "length props \<le> k")
    case True
    have "missing_dependencies (rs_resolvedParameters st) (deps_at props (depends props) i)
        = missing_dependencies (map p_name props) (deps_at props (depends props) i)"
      by (rule missing_cong, rule resolve_names [OF I True])
    then show ?thesis using all [OF il] by (simp add: m_def solvable_def)
  next
    case False
    then have ki: "k = i" and n: "length props = Suc i"
      using kn I q by (auto simp: resolve_inv_def upt_conv_Cons)
    have "set (rs_resolvedParameters st) = name_at props ` {..<i}" using I n ki by (simp add: resolve_inv_def)
    moreover have "set (map p_name props) = insert (name_at props i) (name_at props ` {..<i})"
      using n by (simp add: names_nth lessThan_Suc)
    ultimately show ?thesis using all [OF il] own [OF il]
      by (auto simp: m_def solvable_def missing_dependencies_def filter_empty_conv)
  qed
  then show False using E lens il k by simp
qed

lemma order_exists:
  assumes "\<And>j. j < length props \<Longrightarrow> solvable props (depends props) j"
    and "\<And>j. j < length props \<Longrightarrow> name_at props j \<notin> set (deps_at props (depends props) j)"
  shows "\<exists>order. getParameterResolveOrder props (depends props) = Inr order"
proof (cases "getParameterResolveOrder props (depends props)")
  case (Inl e)
  then have run: "resolve_loop props (depends props) (resolve_fuel props (depends props)) (resolve_init props) = Some (Inl e)"
    using resolve_loop_result [of props "depends props"] by simp
  have init: "\<exists>k R. resolve_inv props k R (resolve_init props)" using resolve_inv_init by blast
  have "\<exists>st i rest. (\<exists>k R. resolve_inv props k R st) \<and> rs_indexToResolve st = i # rest
      \<and> resolve_step props (depends props) i rest st = Inl e"
  proof (rule resolve_loop_error [OF run, of "\<lambda>st. \<exists>k R. resolve_inv props k R st", OF init])
    fix st i rest st'
    assume "\<exists>k R. resolve_inv props k R st" "rs_indexToResolve st = i # rest"
      "resolve_step props (depends props) i rest st = Inr st'"
    then show "\<exists>k R. resolve_inv props k R st'" using resolve_step_decreases by blast
  qed
  then show ?thesis using solvable_step [OF _ _ assms] by blast
qed simp

lemma order_exists_iff:
  assumes "\<And>j. j < length props \<Longrightarrow> name_at props j \<notin> set (deps_at props (depends props) j)"
  shows "(\<exists>order. getParameterResolveOrder props (depends props) = Inr order)
    \<longleftrightarrow> (\<forall>j<length props. solvable props (depends props) j)"
  using order_exists [OF _ assms] resolve_order_solvable by blast

end

section \<open>The dependencies found\<close>

text \<open>The parameters the display rules of a property are about.\<close>

definition rule_names :: "node_property \<Rightarrow> string list" where
  "rule_names p = (case p_display p of None \<Rightarrow> [] | Some displayOptions \<Rightarrow> concat (map obj_keys (obj_values displayOptions)))"

lemma add_dependencies:
  "set (foldl add_dependency ds ks) = set ds \<union> {k \<in> set ks. \<not> starts_with_char (CHR ''@'') k}"
  "distinct ds \<Longrightarrow> distinct (foldl add_dependency ds ks)"
  by (induction ks arbitrary: ds) (auto simp: add_dependency_def)

lemma foldl_at_key:
  assumes "mget m k = Some v"
  shows "mget (foldl (\<lambda>m x. mset_at k (f (case mget m k of None \<Rightarrow> d | Some v \<Rightarrow> v) x) m) m xs) k'
    = (if k' = k then Some (foldl f v xs) else mget m k')"
  using assms by (induction xs arbitrary: m v) auto

lemma property_dependencies_get:
  "mget (property_dependencies p deps) k
    = (if k = p_name p then Some (foldl add_dependency (deps_of deps k) (rule_names p)) else mget deps k)"
proof -
  define deps1 where "deps1 = (if mhas deps (p_name p) then deps else mset_at (p_name p) [] deps)"
  have d1: "mget deps1 (p_name p) = Some (deps_of deps (p_name p))"
    by (auto simp: deps1_def mhas_def deps_of_def)
  have d2: "k \<noteq> p_name p \<Longrightarrow> mget deps1 k = mget deps k" by (simp add: deps1_def)
  have "property_dependencies p deps
      = foldl (\<lambda>deps x. mset_at (p_name p) (add_dependency (case mget deps (p_name p) of None \<Rightarrow> [] | Some ds \<Rightarrow> ds) x) deps)
          deps1 (rule_names p)"
    by (simp add: property_dependencies_def Let_def deps1_def rule_names_def split: option.split)
  then show ?thesis using d2 by (simp add: foldl_at_key [OF d1])
qed

lemma getParameterDependencies_fold:
  "mhas (foldl (\<lambda>deps p. property_dependencies p deps) deps props) k \<longleftrightarrow> mhas deps k \<or> k \<in> p_name ` set props"
  "set (deps_of (foldl (\<lambda>deps p. property_dependencies p deps) deps props) k)
     = set (deps_of deps k) \<union> {d. \<exists>p\<in>set props. p_name p = k \<and> d \<in> set (rule_names p) \<and> \<not> starts_with_char (CHR ''@'') d}"
proof (induction props arbitrary: deps)
  case (Cons p props)
  have has: "mhas (property_dependencies p deps) k \<longleftrightarrow> mhas deps k \<or> k = p_name p" for deps
    by (auto simp: mhas_def property_dependencies_get)
  have set: "set (deps_of (property_dependencies p deps) k)
      = set (deps_of deps k) \<union> {d. p_name p = k \<and> d \<in> set (rule_names p) \<and> \<not> starts_with_char (CHR ''@'') d}" for deps
    by (auto simp: deps_of_def property_dependencies_get add_dependencies split: if_splits)
  case 1 show ?case using Cons.IH(1) [of "property_dependencies p deps"] has by auto
  case 2 show ?case using Cons.IH(2) [of "property_dependencies p deps"] set by auto
qed simp_all

lemma getParameterDependencies_has: "mhas (getParameterDependencies props) k \<longleftrightarrow> k \<in> p_name ` set props"
  using getParameterDependencies_fold(1) [of "[]" props k] by (simp add: getParameterDependencies_def mhas_def)

lemma getParameterDependencies_set:
  "set (deps_of (getParameterDependencies props) k)
    = {d. \<exists>p\<in>set props. p_name p = k \<and> d \<in> set (rule_names p) \<and> \<not> starts_with_char (CHR ''@'') d}"
  using getParameterDependencies_fold(2) [of "[]" props k]
  by (simp add: getParameterDependencies_def deps_of_def [of "[]"])

interpretation pd: dependency_source getParameterDependencies
  by unfold_locales (auto simp: getParameterDependencies_has)

end
