(* ===== verification/Parameter_Conditions.thy ===== *)
theory Parameter_Conditions
  imports Parameter_Order
begin

text \<open>
  Which parameters of a node are displayed (\<^verbatim>\<open>packages/workflow/src/node-helpers.ts\<close>): the values a rule
  looks up, the conditions on them, and \<^verbatim>\<open>displayParameter\<close>. What JavaScript does with the values (truth,
  conversion to numbers and strings, comparison, enumeration) is written out first.
\<close>

section \<open>JavaScript on JSON values\<close>

text \<open>\<^verbatim>\<open>a || b\<close> and \<^verbatim>\<open>a ?? b\<close>.\<close>

definition or_else :: "json \<Rightarrow> json \<Rightarrow> json" where
  "or_else a b = (if truthy a then a else b)"

definition nullish_else :: "json \<Rightarrow> json \<Rightarrow> json" where
  "nullish_else a b = (if a = JUndef \<or> a = JNull then b else a)"

text \<open>\<^verbatim>\<open>typeof v === 'object'\<close>.\<close>

fun typeof_object :: "json \<Rightarrow> bool" where
  "typeof_object JNull = True"
| "typeof_object (JArr xs) = True"
| "typeof_object (JObj fs) = True"
| "typeof_object v = False"

text \<open>\<^verbatim>\<open>v[name]\<close>, own properties only; on \<^verbatim>\<open>undefined\<close> and \<^verbatim>\<open>null\<close> it throws.\<close>

definition list_prop :: "json list \<Rightarrow> string \<Rightarrow> json" where
  "list_prop xs name =
     (if name = ''length'' then JNum (of_nat (length xs))
      else if is_array_index name then (case arr_get xs (parse_nat name) of None \<Rightarrow> JUndef | Some x \<Rightarrow> x)
      else JUndef)"

fun prop_of :: "json \<Rightarrow> string \<Rightarrow> json" where
  "prop_of (JObj fs) name = (case mget fs name of None \<Rightarrow> JUndef | Some v \<Rightarrow> v)"
| "prop_of (JArr xs) name = list_prop xs name"
| "prop_of (JStr s) name = list_prop (map (\<lambda>c. JStr [c]) s) name"
| "prop_of v name = JUndef"

definition access :: "json \<Rightarrow> string \<Rightarrow> json res" where
  "access v name = (if v = JUndef \<or> v = JNull then Inl (TypeError name) else Inr (prop_of v name))"

text \<open>\<^verbatim>\<open>Object.entries(v)\<close> of a value that is not \<^verbatim>\<open>undefined\<close> or \<^verbatim>\<open>null\<close>, and \<^verbatim>\<open>Object.keys(v)\<close>.\<close>

definition index_entries :: "json list \<Rightarrow> json obj" where
  "index_entries xs = map (\<lambda>(i, x). (show_nat i, x)) (enumerate0 xs)"

fun own_entries_of :: "json \<Rightarrow> json obj" where
  "own_entries_of (JObj fs) = obj_entries fs"
| "own_entries_of (JArr xs) = index_entries xs"
| "own_entries_of (JStr s) = index_entries (map (\<lambda>c. JStr [c]) s)"
| "own_entries_of v = []"

abbreviation own_keys :: "json \<Rightarrow> string list" where
  "own_keys v \<equiv> map fst (own_entries_of v)"

text \<open>\<^verbatim>\<open>{ ...a, ...b }\<close>, \<^verbatim>\<open>a\<close> being an object.\<close>

definition spread :: "json obj \<Rightarrow> json \<Rightarrow> json obj" where
  "spread a b = foldl (\<lambda>ob (k, v). mset_at k v ob) a (own_entries_of b)"

text \<open>
  Strings of values, as \<^verbatim>\<open>String(v)\<close> gives them; \<open>num_string\<close> is the engine's conversion of numbers.
\<close>

definition join_comma :: "string list \<Rightarrow> string" where
  "join_comma ss = (case ss of [] \<Rightarrow> [] | s # ss \<Rightarrow> foldl (\<lambda>a b. a @ CHR '','' # b) s ss)"

fun js_string :: "(rat \<Rightarrow> string) \<Rightarrow> json \<Rightarrow> string" where
  "js_string ns JNull = ''null''"
| "js_string ns JUndef = ''undefined''"
| "js_string ns (JBool b) = (if b then ''true'' else ''false'')"
| "js_string ns (JNum r) = ns r"
| "js_string ns (JStr s) = s"
| "js_string ns (JArr xs) = join_comma (map (\<lambda>x. if x = JNull \<or> x = JUndef then [] else js_string ns x) xs)"
| "js_string ns (JObj fs) = ''[object Object]''"

subsection \<open>Numbers of strings\<close>

datatype jsnum = NaN | NegInfinity | Finite rat | Infinity

definition is_space :: "char \<Rightarrow> bool" where
  "is_space c = ((of_char c :: nat) \<in> {9, 10, 11, 12, 13, 32, 160})"

definition trim :: "string \<Rightarrow> string" where
  "trim s = rev (dropWhile is_space (rev (dropWhile is_space s)))"

definition hex_val :: "char \<Rightarrow> nat option" where
  "hex_val c = (let n = of_char c in
     if 48 \<le> n \<and> n \<le> 57 then Some (n - 48)
     else if 65 \<le> n \<and> n \<le> 70 then Some (n - 55)
     else if 97 \<le> n \<and> n \<le> 102 then Some (n - 87) else None)"

definition radix_number :: "nat \<Rightarrow> string \<Rightarrow> jsnum" where
  "radix_number b s =
     (if s \<noteq> [] \<and> list_all (\<lambda>c. case hex_val c of None \<Rightarrow> False | Some n \<Rightarrow> n < b) s
      then Finite (of_nat (foldl (\<lambda>a c. b * a + (case hex_val c of None \<Rightarrow> 0 | Some n \<Rightarrow> n)) 0 s)) else NaN)"

definition take_sign :: "string \<Rightarrow> bool \<times> string" where
  "take_sign s = (case s of c # cs \<Rightarrow> if c = CHR ''-'' then (True, cs) else if c = CHR ''+'' then (False, cs) else (False, s)
     | [] \<Rightarrow> (False, s))"

text \<open>\<^verbatim>\<open>StrUnsignedDecimalLiteral\<close>: digits, a fraction and an exponent, with a digit before the exponent.\<close>

definition exponent_of :: "string \<Rightarrow> int option" where
  "exponent_of s = (case s of [] \<Rightarrow> Some 0
     | c # cs \<Rightarrow>
        if c = CHR ''e'' \<or> c = CHR ''E''
        then (let (neg, ds) = take_sign cs in
              if ds \<noteq> [] \<and> list_all is_digit ds then Some (if neg then - int (parse_nat ds) else int (parse_nat ds)) else None)
        else None)"

definition decimal_number :: "string \<Rightarrow> jsnum" where
  "decimal_number s =
     (if s = ''Infinity'' then Infinity
      else let ip = takeWhile is_digit s; r = dropWhile is_digit s;
               fp = (case r of c # cs \<Rightarrow> if c = CHR ''.'' then takeWhile is_digit cs else [] | [] \<Rightarrow> []);
               r = (case r of c # cs \<Rightarrow> if c = CHR ''.'' then dropWhile is_digit cs else r | [] \<Rightarrow> r)
      in if ip = [] \<and> fp = [] then NaN
         else case exponent_of r of
             None \<Rightarrow> NaN
           | Some e \<Rightarrow> Finite (of_nat (parse_nat (ip @ fp)) * (10 powi (e - int (length fp)))))"

fun negate :: "jsnum \<Rightarrow> jsnum" where
  "negate NaN = NaN"
| "negate Infinity = NegInfinity"
| "negate NegInfinity = Infinity"
| "negate (Finite r) = Finite (- r)"

definition string_number :: "string \<Rightarrow> jsnum" where
  "string_number s0 =
     (let s = trim s0 in
      if s = [] then Finite 0
      else if take 2 s = ''0x'' \<or> take 2 s = ''0X'' then radix_number 16 (drop 2 s)
      else if take 2 s = ''0o'' \<or> take 2 s = ''0O'' then radix_number 8 (drop 2 s)
      else if take 2 s = ''0b'' \<or> take 2 s = ''0B'' then radix_number 2 (drop 2 s)
      else case take_sign s of (neg, u) \<Rightarrow> if neg then negate (decimal_number u) else decimal_number u)"

fun to_number :: "json \<Rightarrow> jsnum" where
  "to_number JNull = Finite 0"
| "to_number (JBool b) = Finite (if b then 1 else 0)"
| "to_number (JNum r) = Finite r"
| "to_number (JStr s) = string_number s"
| "to_number v = NaN"

subsection \<open>Comparison\<close>

definition to_primitive :: "(rat \<Rightarrow> string) \<Rightarrow> json \<Rightarrow> json" where
  "to_primitive ns v = (case v of JArr xs \<Rightarrow> JStr (js_string ns v) | JObj fs \<Rightarrow> JStr (js_string ns v) | _ \<Rightarrow> v)"

fun string_less :: "string \<Rightarrow> string \<Rightarrow> bool" where
  "string_less xs [] = False"
| "string_less [] (y # ys) = True"
| "string_less (x # xs) (y # ys) = ((of_char x :: nat) < of_char y \<or> (x = y \<and> string_less xs ys))"

fun number_less :: "jsnum \<Rightarrow> jsnum \<Rightarrow> bool option" where
  "number_less NaN b = None"
| "number_less a NaN = None"
| "number_less (Finite a) (Finite b) = Some (a < b)"
| "number_less NegInfinity b = Some (b \<noteq> NegInfinity)"
| "number_less a NegInfinity = Some False"
| "number_less Infinity b = Some False"
| "number_less a Infinity = Some True"

text \<open>\<^verbatim>\<open>IsLessThan\<close>: \<open>None\<close> for \<^verbatim>\<open>undefined\<close>, when a side is not a number.\<close>

definition js_less :: "(rat \<Rightarrow> string) \<Rightarrow> json \<Rightarrow> json \<Rightarrow> bool option" where
  "js_less ns a b =
     (case (to_primitive ns a, to_primitive ns b) of
        (JStr s, JStr t) \<Rightarrow> Some (string_less s t)
      | (a, b) \<Rightarrow> number_less (to_number a) (to_number b))"

definition js_lt where "js_lt ns a b = (js_less ns a b = Some True)"
definition js_gt where "js_gt ns a b = (js_less ns b a = Some True)"
definition js_le where "js_le ns a b = (js_less ns b a = Some False)"
definition js_ge where "js_ge ns a b = (js_less ns a b = Some False)"

text \<open>
  \<^verbatim>\<open>values.includes(condition)\<close>: a condition is part of a description, so an object or array of it is
  never the very object a node holds.
\<close>

definition same_value :: "json \<Rightarrow> json \<Rightarrow> bool" where
  "same_value a b = (a = b \<and> (case a of JArr xs \<Rightarrow> False | JObj fs \<Rightarrow> False | _ \<Rightarrow> True))"

section \<open>Conditions\<close>

text \<open>
  Functions that are not n8n's: \<^verbatim>\<open>get\<close> and \<^verbatim>\<open>isEqual\<close> of lodash, and of the engine regular
  expressions (whose construction may throw) and the printing of numbers.
\<close>

record param_env =
  lodash_get :: "json \<Rightarrow> string \<Rightarrow> json"
  lodash_isEqual :: "json \<Rightarrow> json \<Rightarrow> bool"
  regexp_test :: "json \<Rightarrow> string \<Rightarrow> bool res"
  number_string :: "rat \<Rightarrow> string"

fun someE :: "('a \<Rightarrow> bool res) \<Rightarrow> 'a list \<Rightarrow> bool res" where
  "someE p [] = Inr False"
| "someE p (x # xs) = bindE (p x) (\<lambda>b. if b then Inr True else someE p xs)"

fun everyE :: "('a \<Rightarrow> bool res) \<Rightarrow> 'a list \<Rightarrow> bool res" where
  "everyE p [] = Inr True"
| "everyE p (x # xs) = bindE (p x) (\<lambda>b. if b then everyE p xs else Inr False)"

definition check_value :: "param_env \<Rightarrow> string \<Rightarrow> json \<Rightarrow> json \<Rightarrow> bool res" where
  "check_value env key targetValue propertyValue =
     (let ns = number_string env; str = js_string ns in
      if key = ''eq'' then Inr (lodash_isEqual env propertyValue targetValue)
      else if key = ''not'' then Inr (\<not> lodash_isEqual env propertyValue targetValue)
      else if key = ''gte'' then Inr (js_ge ns propertyValue targetValue)
      else if key = ''lte'' then Inr (js_le ns propertyValue targetValue)
      else if key = ''gt'' then Inr (js_gt ns propertyValue targetValue)
      else if key = ''lt'' then Inr (js_lt ns propertyValue targetValue)
      else if key = ''between'' then
        bindE (access targetValue ''from'') (\<lambda>lower. bindE (access targetValue ''to'') (\<lambda>upper.
          Inr (js_ge ns propertyValue lower \<and> js_le ns propertyValue upper)))
      else if key = ''includes'' then
        Inr (case propertyValue of JStr s \<Rightarrow> contains (str targetValue) s | _ \<Rightarrow> False)
      else if key = ''startsWith'' then
        Inr (case propertyValue of JStr s \<Rightarrow> take (length (str targetValue)) s = str targetValue | _ \<Rightarrow> False)
      else if key = ''endsWith'' then
        Inr (case propertyValue of JStr s \<Rightarrow> ends_with (str targetValue) s | _ \<Rightarrow> False)
      else if key = ''regex'' then
        (case propertyValue of JStr s \<Rightarrow> regexp_test env targetValue s | _ \<Rightarrow> Inr False)
      else if key = ''exists'' then Inr (propertyValue \<noteq> JNull \<and> propertyValue \<noteq> JUndef \<and> propertyValue \<noteq> JStr [])
      else Inr False)"

text \<open>A condition of the form \<^verbatim>\<open>{ _cnd: ... }\<close> and nothing else.\<close>

definition display_condition :: "json \<Rightarrow> json option" where
  "display_condition c = (case c of
      JObj fs \<Rightarrow> if truthy (prop_of c ''_cnd'') \<and> length fs = 1 then Some (prop_of c ''_cnd'') else None
    | _ \<Rightarrow> None)"

definition check_condition :: "param_env \<Rightarrow> json list \<Rightarrow> json \<Rightarrow> bool res" where
  "check_condition env actualValues condition = (case display_condition condition of
      Some cnd \<Rightarrow> (case own_entries_of cnd of
          [] \<Rightarrow> Inl (TypeError ''undefined is not iterable'')
        | (key, targetValue) # _ \<Rightarrow>
            if actualValues = [] then Inr (key = ''not'')
            else everyE (check_value env key targetValue) actualValues)
    | None \<Rightarrow> Inr (\<exists>v\<in>set actualValues. same_value v condition))"

definition checkConditions :: "param_env \<Rightarrow> json list \<Rightarrow> json list \<Rightarrow> bool res" where
  "checkConditions env conditions actualValues = someE (check_condition env actualValues) conditions"

section \<open>Features and looked up values\<close>

text \<open>What \<^verbatim>\<open>INodeTypeDescription\<close> gives here: the name, and of each feature its \<^verbatim>\<open>@version\<close> conditions.\<close>

record type_desc =
  td_name :: string
  td_features :: "json list obj option"

definition evaluateFeature :: "param_env \<Rightarrow> json list \<Rightarrow> rat \<Rightarrow> bool res" where
  "evaluateFeature env versions nodeVersion = checkConditions env versions [JNum nodeVersion]"

definition getNodeFeatures :: "param_env \<Rightarrow> json list obj option \<Rightarrow> rat \<Rightarrow> bool obj res" where
  "getNodeFeatures env featuresDef nodeVersion = (case featuresDef of
      None \<Rightarrow> Inr []
    | Some defs \<Rightarrow> foldE (\<lambda>(featureName, condition) features.
          bindE (evaluateFeature env condition nodeVersion) (\<lambda>b. Inr (mset_at featureName b features)))
        (obj_entries defs) [])"

definition unwrap_rl :: "json \<Rightarrow> json" where
  "unwrap_rl value = (case value of
      JObj fs \<Rightarrow> if truthy (prop_of value ''__rl'') then prop_of value ''value'' else value
    | _ \<Rightarrow> value)"

definition as_values :: "json \<Rightarrow> json list" where
  "as_values value = (case unwrap_rl value of JArr xs \<Rightarrow> xs | v \<Rightarrow> [v])"

text \<open>\<open>node\<close> is the version of the node, absent without a node.\<close>

definition getPropertyValues :: "param_env \<Rightarrow> json \<Rightarrow> string \<Rightarrow> rat option \<Rightarrow> type_desc option \<Rightarrow> json \<Rightarrow> json list res" where
  "getPropertyValues env nodeValues propertyName node desc nodeValuesRoot =
     (if starts_with_char (CHR ''/'') propertyName then Inr (as_values (lodash_get env nodeValuesRoot (tl propertyName)))
      else if propertyName = ''@version'' then Inr (as_values (JNum (case node of None \<Rightarrow> 0 | Some v \<Rightarrow> v)))
      else if propertyName = ''@tool'' then
        Inr (as_values (JBool (case desc of None \<Rightarrow> False | Some d \<Rightarrow> ends_with ''Tool'' (td_name d))))
      else if propertyName = ''@feature'' then
        (case (desc, node) of
           (Some d, Some v) \<Rightarrow>
             if td_features d = None \<or> v = 0 then Inr []
             else bindE (getNodeFeatures env (td_features d) v) (\<lambda>features.
               Inr (map (\<lambda>(name, enabled). JStr name) (filter snd (obj_entries features))))
         | _ \<Rightarrow> Inr [])
      else Inr (as_values (lodash_get env nodeValues propertyName)))"

section \<open>Display\<close>

definition expression_value :: "json \<Rightarrow> bool" where
  "expression_value v = (case v of JStr s \<Rightarrow> starts_with_char (CHR ''='') s | _ \<Rightarrow> False)"

definition rules_at :: "json list obj \<Rightarrow> string \<Rightarrow> json list" where
  "rules_at rules name = (case mget rules name of None \<Rightarrow> [] | Some cs \<Rightarrow> cs)"

text \<open>The loop over the show rules; \<open>Some\<close> result is returned at once.\<close>

fun show_loop :: "param_env \<Rightarrow> (string \<Rightarrow> json list res) \<Rightarrow> json list obj \<Rightarrow> string list \<Rightarrow> bool option res" where
  "show_loop env look rules [] = Inr None"
| "show_loop env look rules (propertyName # names) =
     bindE (look propertyName) (\<lambda>values.
       if list_ex expression_value values then Inr (Some True)
       else bindE (checkConditions env (rules_at rules propertyName) values) (\<lambda>ok.
         if \<not> ok then Inr (Some False) else show_loop env look rules names))"

fun hide_loop :: "param_env \<Rightarrow> (string \<Rightarrow> json list res) \<Rightarrow> json list obj \<Rightarrow> string list \<Rightarrow> bool option res" where
  "hide_loop env look rules [] = Inr None"
| "hide_loop env look rules (propertyName # names) =
     bindE (look propertyName) (\<lambda>values.
       if values = [] then hide_loop env look rules names
       else bindE (checkConditions env (rules_at rules propertyName) values) (\<lambda>hit.
         if hit then Inr (Some False) else hide_loop env look rules names))"

definition opt_loop :: "(json list obj \<Rightarrow> string list \<Rightarrow> bool option res) \<Rightarrow> json list obj option \<Rightarrow> bool option res" where
  "opt_loop loop rules = (case rules of None \<Rightarrow> Inr None | Some rules \<Rightarrow> loop rules (obj_keys rules))"

definition displayParameter ::
  "param_env \<Rightarrow> json \<Rightarrow> display_rules obj option \<Rightarrow> rat option \<Rightarrow> type_desc option \<Rightarrow> json \<Rightarrow> bool res" where
  "displayParameter env nodeValues options node desc rootValues =
     (case options of
        None \<Rightarrow> Inr True
      | Some displayOptions \<Rightarrow>
          let look = (\<lambda>name. getPropertyValues env nodeValues name node desc (or_else rootValues nodeValues)) in
          bindE (opt_loop (show_loop env look) (mget displayOptions ''show'')) (\<lambda>r. case r of
            Some b \<Rightarrow> Inr b
          | None \<Rightarrow> bindE (opt_loop (hide_loop env look) (mget displayOptions ''hide'')) (\<lambda>r.
              case r of Some b \<Rightarrow> Inr b | None \<Rightarrow> Inr True)))"

text \<open>\<^verbatim>\<open>path.split('.').indexOf('parameters') === 0\<close>: the first segment is \<^verbatim>\<open>parameters\<close>.\<close>

definition displayParameterPath ::
  "param_env \<Rightarrow> json \<Rightarrow> display_rules obj option \<Rightarrow> string \<Rightarrow> rat option \<Rightarrow> type_desc option \<Rightarrow> bool res" where
  "displayParameterPath env nodeValues options path node desc =
     (let resolvedNodeValues = (if path \<noteq> [] then lodash_get env nodeValues path else nodeValues);
          nodeValuesRoot = (if path \<noteq> [] \<and> takeWhile (\<lambda>c. c \<noteq> CHR ''.'') path = ''parameters''
            then lodash_get env nodeValues ''parameters'' else nodeValues)
      in displayParameter env resolvedNodeValues options node desc nodeValuesRoot)"

section \<open>The rules\<close>

definition rules_of :: "display_rules obj \<Rightarrow> string \<Rightarrow> json list obj" where
  "rules_of options key = (case mget options key of None \<Rightarrow> [] | Some rules \<Rightarrow> rules)"

lemma opt_loop_rules:
  assumes "\<And>rules. loop rules [] = Inr None"
  shows "opt_loop loop (mget options key) = loop (rules_of options key) (obj_keys (rules_of options key))"
  using assms by (simp add: opt_loop_def rules_of_def split: option.split)

lemma displayParameter_loops:
  "displayParameter env nodeValues (Some options) node desc rootValues =
    (let look = (\<lambda>name. getPropertyValues env nodeValues name node desc (or_else rootValues nodeValues)) in
     bindE (show_loop env look (rules_of options ''show'') (obj_keys (rules_of options ''show''))) (\<lambda>r. case r of
       Some b \<Rightarrow> Inr b
     | None \<Rightarrow> bindE (hide_loop env look (rules_of options ''hide'') (obj_keys (rules_of options ''hide''))) (\<lambda>r.
         case r of Some b \<Rightarrow> Inr b | None \<Rightarrow> Inr True)))"
  by (simp add: displayParameter_def opt_loop_rules)

lemma show_loop_rules:
  assumes "\<And>k. k \<in> set ks \<Longrightarrow> look k = Inr (vs k) \<and> \<not> list_ex expression_value (vs k)
      \<and> checkConditions env (rules_at rules k) (vs k) = Inr (ok k)"
  shows "show_loop env look rules ks = Inr (if \<forall>k\<in>set ks. ok k then None else Some False)"
  using assms by (induction ks) auto

lemma show_loop_append:
  assumes "show_loop env look rules ks = Inr None"
  shows "show_loop env look rules (ks @ ls) = show_loop env look rules ls"
  using assms
proof (induction ks)
  case (Cons k ks)
  then show ?case by (auto simp: bindE_eq_Inr split: if_splits)
qed simp

lemma hide_loop_rules:
  assumes "\<And>k. k \<in> set ks \<Longrightarrow> look k = Inr (vs k)
      \<and> (vs k \<noteq> [] \<longrightarrow> checkConditions env (rules_at rules k) (vs k) = Inr (hit k))"
  shows "hide_loop env look rules ks = Inr (if \<exists>k\<in>set ks. vs k \<noteq> [] \<and> hit k then Some False else None)"
  using assms
proof (induction ks)
  case (Cons k ks)
  from Cons.prems [of k] Cons.IH Cons.prems show ?case by auto
qed simp

section \<open>Conditions\<close>

lemma someE_pure: "(\<And>x. x \<in> set xs \<Longrightarrow> p x = Inr (q x)) \<Longrightarrow> someE p xs = Inr (\<exists>x\<in>set xs. q x)"
  by (induction xs) auto

lemma everyE_pure: "(\<And>x. x \<in> set xs \<Longrightarrow> p x = Inr (q x)) \<Longrightarrow> everyE p xs = Inr (\<forall>x\<in>set xs. q x)"
  by (induction xs) auto

text \<open>Plain values as conditions: one of them is among the values.\<close>

lemma checkConditions_plain:
  assumes "\<And>c. c \<in> set conditions \<Longrightarrow> display_condition c = None"
  shows "checkConditions env conditions vs = Inr (\<exists>c\<in>set conditions. \<exists>v\<in>set vs. same_value v c)"
  unfolding checkConditions_def by (rule someE_pure) (simp add: check_condition_def assms)

definition cnd :: "string \<Rightarrow> json \<Rightarrow> json" where
  "cnd key target = JObj [(''_cnd'', JObj [(key, target)])]"

lemma obj_entries_single [simp]: "obj_entries [(k, v)] = [(k, v)]"
  by (simp add: obj_entries_def obj_keys_def List.map_filter_def)

lemma display_condition_cnd [simp]: "display_condition (cnd key target) = Some (JObj [(key, target)])"
  by (simp add: display_condition_def cnd_def)

lemma check_condition_cnd:
  "check_condition env vs (cnd key target)
    = (if vs = [] then Inr (key = ''not'') else everyE (check_value env key target) vs)"
  by (simp add: check_condition_def)

text \<open>On numbers the comparisons of a condition are the comparisons of numbers.\<close>

lemma compare_numbers [simp]:
  "js_lt ns (JNum a) (JNum b) \<longleftrightarrow> a < b" "js_gt ns (JNum a) (JNum b) \<longleftrightarrow> a > b"
  "js_le ns (JNum a) (JNum b) \<longleftrightarrow> a \<le> b" "js_ge ns (JNum a) (JNum b) \<longleftrightarrow> a \<ge> b"
  by (auto simp: js_lt_def js_gt_def js_le_def js_ge_def js_less_def to_primitive_def)

section \<open>Features\<close>

lemma getNodeFeatures_fold:
  assumes "distinct (map fst es)" and "\<And>k c. (k, c) \<in> set es \<Longrightarrow> evaluateFeature env c v = Inr (on k)"
  shows "\<exists>features. foldE (\<lambda>(featureName, condition) features.
          bindE (evaluateFeature env condition v) (\<lambda>b. Inr (mset_at featureName b features))) es acc = Inr features
      \<and> (\<forall>k. mget features k = (if k \<in> fst ` set es then Some (on k) else mget acc k))"
  using assms
proof (induction es arbitrary: acc)
  case (Cons e es)
  obtain k c where e: "e = (k, c)" by (cases e)
  from Cons.IH [of "mset_at k (on k) acc"] Cons.prems e show ?case by fastforce
qed simp

lemma keys_obj_entries [simp]: "map fst (obj_entries ob) = obj_keys ob"
proof -
  have "map fst (List.map_filter (\<lambda>k. map_option (Pair k) (mget ob k)) ks) = ks" if "set ks \<subseteq> fst ` set ob" for ks
    using that
  proof (induction ks)
    case (Cons k ks)
    then obtain v where "mget ob k = Some v" by (cases "mget ob k") (auto simp: map_of_eq_None_iff)
    with Cons show ?case by (simp add: List.map_filter_simps)
  qed (simp add: List.map_filter_simps)
  then show ?thesis by (simp add: obj_entries_def)
qed

lemma getNodeFeatures_get:
  assumes "distinct (map fst defs)" and "\<And>k c. mget defs k = Some c \<Longrightarrow> evaluateFeature env c v = Inr (on k)"
  obtains features where "getNodeFeatures env (Some defs) v = Inr features"
    and "\<And>k. mget features k = (if k \<in> fst ` set defs then Some (on k) else None)"
proof -
  have "\<exists>features. getNodeFeatures env (Some defs) v = Inr features
      \<and> (\<forall>k. mget features k = (if k \<in> fst ` set (obj_entries defs) then Some (on k) else mget [] k))"
    unfolding getNodeFeatures_def option.case
    by (rule getNodeFeatures_fold) (use assms in \<open>auto simp: set_obj_entries\<close>)
  moreover have "fst ` set (obj_entries defs) = fst ` set defs"
    by (metis keys_obj_entries list.set_map set_obj_keys)
  ultimately show ?thesis using that by auto
qed

end
