(* ===== verification/Node_Parameters.thy ===== *)
theory Node_Parameters
  imports Parameter_Conditions
begin

text \<open>
  The parameters of a node with or without their default values (\<^verbatim>\<open>getNodeParameters\<close> of
  \<^verbatim>\<open>packages/workflow/src/node-helpers.ts\<close>). The recursion into collections is a parameter of the definitions
  for one property; \<open>getNodeParameters\<close> ties the knot, and the size of the descriptions bounds it.
\<close>

section \<open>State\<close>

text \<open>
  \<open>nodeParameters\<close> and \<open>nodeParametersFull\<close>. The values the display rules look at may be the object
  \<open>nodeParametersFull\<close> itself, which grows: \<open>None\<close> for that alias, \<open>Some\<close> for an object of their own.
  \<^verbatim>\<open>deepCopy\<close> of JSON data is the same value.
\<close>

record param_state =
  ps_nodeParameters :: "json obj"
  ps_nodeParametersFull :: "json obj"

definition display_values :: "json option \<Rightarrow> param_state \<Rightarrow> json" where
  "display_values check st = (case check of None \<Rightarrow> JObj (ps_nodeParametersFull st) | Some v \<Rightarrow> v)"

text \<open>A property is done with, or the function returns at once.\<close>

datatype param_flow = Continue param_state | Return json

definition set_both :: "string \<Rightarrow> json \<Rightarrow> param_state \<Rightarrow> param_state" where
  "set_both name v st = st\<lparr>ps_nodeParameters := mset_at name v (ps_nodeParameters st),
     ps_nodeParametersFull := mset_at name v (ps_nodeParametersFull st)\<rparr>"

section \<open>Simple properties\<close>

definition filter_default_options :: "json obj" where
  "filter_default_options = [(''caseSensitive'', JBool True), (''leftValue'', JStr []), (''typeValidation'', JStr ''strict''),
     (''version'', JNum 1)]"

text \<open>A filter gets its combinator and options; a filter is an object.\<close>

definition patch_filter :: "json \<Rightarrow> json" where
  "patch_filter v = (case v of
      JObj fs \<Rightarrow>
        let fs = mset_at ''combinator'' (nullish_else (prop_of v ''combinator'') (JStr ''and'')) fs;
            options = JObj (spread filter_default_options (prop_of v ''options''))
        in JObj (mset_at ''options'' options fs)
    | _ \<Rightarrow> v)"

definition value_with_default :: "node_property \<Rightarrow> json \<Rightarrow> json" where
  "value_with_default p value =
     (if p_type p \<in> {''boolean'', ''number'', ''options''} then (if value \<noteq> JUndef then value else p_default p)
      else if p_type p = ''resourceLocator'' \<and> typeof_object (p_default p)
      then (if value \<noteq> JUndef then value else JObj (spread [(''__rl'', JBool True)] (p_default p)))
      else if p_type p = ''filter'' \<and> value \<noteq> JUndef \<and> typeof_object value \<and> value \<noteq> JNull then patch_filter value
      else nullish_else value (p_default p))"

definition differs_from_default :: "param_env \<Rightarrow> string option \<Rightarrow> node_property \<Rightarrow> json \<Rightarrow> bool" where
  "differs_from_default env parentType p value =
     ((value \<noteq> p_default p \<and> \<not> typeof_object value)
      \<or> (typeof_object value \<and> \<not> lodash_isEqual env value (p_default p))
      \<or> (value \<noteq> JUndef \<and> parentType = Some ''collection''))"

definition strip_expression_prefix :: "node_property \<Rightarrow> param_state \<Rightarrow> param_state" where
  "strip_expression_prefix p st =
     (if p_noDataExpression p then
        (case mget (ps_nodeParameters st) (p_name p) of
           Some (JStr s) \<Rightarrow> if starts_with_char (CHR ''='') s then set_both (p_name p) (JStr (tl s)) st else st
         | _ \<Rightarrow> st)
      else st)"

definition simple_property :: "param_env \<Rightarrow> bool \<Rightarrow> string option \<Rightarrow> node_property \<Rightarrow> json \<Rightarrow> param_state \<Rightarrow> param_state" where
  "simple_property env returnDefaults parentType p value st =
     (if returnDefaults then strip_expression_prefix p (set_both (p_name p) (value_with_default p value) st)
      else if differs_from_default env parentType p value then set_both (p_name p) value st
      else strip_expression_prefix p st)"

section \<open>Collections\<close>

type_synonym param_rec = "node_property list \<Rightarrow> json \<Rightarrow> json \<Rightarrow> string \<Rightarrow> json res"

definition collection_property :: "param_rec \<Rightarrow> bool \<Rightarrow> json \<Rightarrow> node_property \<Rightarrow> json \<Rightarrow> param_state \<Rightarrow> param_state res" where
  "collection_property rec returnDefaults rootValues p value st =
     (if p_multipleValues p = Some True then
        let np = (if value \<noteq> JUndef then mset_at (p_name p) value (ps_nodeParameters st)
                  else if returnDefaults
                  then mset_at (p_name p) (case p_default p of JArr xs \<Rightarrow> JArr xs | _ \<Rightarrow> JArr []) (ps_nodeParameters st)
                  else ps_nodeParameters st)
        in Inr \<lparr>ps_nodeParameters = np,
             ps_nodeParametersFull = mset_at (p_name p) (prop_of (JObj np) (p_name p)) (ps_nodeParametersFull st)\<rparr>
      else if value \<noteq> JUndef then
        bindE (rec (p_options p) value rootValues (p_type p)) (\<lambda>temp.
          Inr (if temp \<noteq> JNull then set_both (p_name p) temp st else st))
      else if returnDefaults then Inr (set_both (p_name p) (p_default p) st)
      else Inr st)"

section \<open>Fixed collections\<close>

definition find_collection :: "node_property \<Rightarrow> string \<Rightarrow> node_property list option" where
  "find_collection p itemName = map_of (p_collections p) itemName"

definition iterate_json :: "json \<Rightarrow> json list res" where
  "iterate_json v = (case v of
      JArr xs \<Rightarrow> Inr xs
    | JStr s \<Rightarrow> Inr (map (\<lambda>c. JStr [c]) s)
    | _ \<Rightarrow> Inl (TypeError ''not iterable''))"

text \<open>
  The state of the loop over the items of a fixed collection: \<^verbatim>\<open>collectionValues\<close> and
  \<^verbatim>\<open>hadAnyVisibleFields\<close>.
\<close>

type_synonym fixed_state = "json obj \<times> bool"

definition multiple_item ::
  "param_rec \<Rightarrow> json \<Rightarrow> node_property \<Rightarrow> json \<Rightarrow> string \<Rightarrow> fixed_state \<Rightarrow> fixed_state res" where
  "multiple_item rec rootValues p propertyValues itemName fs =
     (case propertyValues of
        JObj values \<Rightarrow>
          (case find_collection p itemName of
             None \<Rightarrow> Inr fs
           | Some properties \<Rightarrow>
               bindE (iterate_json (prop_of propertyValues itemName)) (\<lambda>items.
                 bindE (foldE (\<lambda>nodeValue temp.
                     bindE (rec properties nodeValue rootValues (p_type p)) (\<lambda>tempValue.
                       Inr (if tempValue \<noteq> JNull then temp @ [tempValue] else temp))) items []) (\<lambda>temp.
                   Inr (mset_at itemName (JArr temp) (fst fs), snd fs))))
      | _ \<Rightarrow> Inr fs)"

definition hasNonDefaultValues :: "param_env \<Rightarrow> node_property list \<Rightarrow> json \<Rightarrow> bool" where
  "hasNonDefaultValues env properties values =
     (truthy values \<and> list_ex (\<lambda>key. case find (\<lambda>f. p_name f = key) properties of
          None \<Rightarrow> False
        | Some field \<Rightarrow> \<not> lodash_isEqual env (prop_of values key) (p_default field)) (own_keys values))"

text \<open>\<open>nodeValue\<close> is the value of the property in the node, not the default that may stand for it.\<close>

definition single_item ::
  "param_env \<Rightarrow> param_rec \<Rightarrow> bool \<Rightarrow> json \<Rightarrow> node_property \<Rightarrow> json \<Rightarrow> json \<Rightarrow> string \<Rightarrow> fixed_state \<Rightarrow> fixed_state res" where
  "single_item env rec returnDefaults rootValues p nodeValue propertyValues itemName fs =
     bindE (case find_collection p itemName of
         None \<Rightarrow> Inr ([], False)
       | Some properties \<Rightarrow>
           bindE (access nodeValue itemName) (\<lambda>itemNodeValues.
             bindE (rec properties itemNodeValues rootValues (p_type p)) (\<lambda>tempValue.
               Inr (if tempValue \<noteq> JNull
                 then (spread [] tempValue, own_keys tempValue \<noteq> [] \<or> \<not> hasNonDefaultValues env properties itemNodeValues)
                 else ([], False)))))
       (\<lambda>(tempNodeParameters, hadVisibleFields).
          Inr (if tempNodeParameters \<noteq> []
                 \<or> \<not> returnDefaults \<and> hadVisibleFields \<and> truthy propertyValues \<and> prop_of propertyValues itemName \<noteq> JUndef
               then mset_at itemName (JObj tempNodeParameters) (fst fs) else fst fs,
               snd fs \<or> hadVisibleFields))"

definition fixed_collection ::
  "param_env \<Rightarrow> param_rec \<Rightarrow> bool \<Rightarrow> json \<Rightarrow> node_property \<Rightarrow> json \<Rightarrow> json \<Rightarrow> param_state \<Rightarrow> param_flow res" where
  "fixed_collection env rec returnDefaults rootValues p nodeValues value st =
     (let propertyValues = (if returnDefaults \<and> value = JUndef then p_default p else value) in
      if \<not> returnDefaults \<and> p_multipleValues p = Some False \<and> truthy propertyValues \<and> own_keys propertyValues = []
      then Inr (Return nodeValues)
      else
        bindE (foldE (\<lambda>itemName fs.
            if p_multipleValues p = Some True then multiple_item rec rootValues p propertyValues itemName fs
            else single_item env rec returnDefaults rootValues p value propertyValues itemName fs)
          (if truthy propertyValues then own_keys propertyValues else []) ([], False))
        (\<lambda>(collectionValues, hadAnyVisibleFields).
          let st =
            (if \<not> returnDefaults \<and> hadAnyVisibleFields \<and> p_multipleValues p = Some False \<and> collectionValues = []
                \<and> (case propertyValues of JObj fs \<Rightarrow> fs \<noteq> [] | _ \<Rightarrow> False)
             then st\<lparr>ps_nodeParameters :=
               mset_at (p_name p) (JObj (map (\<lambda>key. (key, JObj [])) (own_keys propertyValues))) (ps_nodeParameters st)\<rparr>
             else st)
          in Inr (Continue (if collectionValues \<noteq> [] \<or> returnDefaults
               then set_both (p_name p) (JObj collectionValues) st else st))))"

section \<open>One property\<close>

text \<open>
  The body of the loop over the properties. \<open>check\<close> are the values of the display rules, \<open>given\<close> the root
  values of the options.
\<close>

definition property_step ::
  "param_env \<Rightarrow> param_rec \<Rightarrow> bool \<Rightarrow> bool \<Rightarrow> rat option \<Rightarrow> type_desc option \<Rightarrow> bool \<Rightarrow> string option \<Rightarrow> json \<Rightarrow> json option
   \<Rightarrow> string list \<Rightarrow> json \<Rightarrow> node_property \<Rightarrow> param_state \<Rightarrow> param_flow res" where
  "property_step env rec returnDefaults returnNoneDisplayed node desc onlySimpleTypes parentType given check
     duplicateParameterNames nodeValues p st =
     (let value = prop_of nodeValues (p_name p);
          nodeValuesRoot = or_else given (display_values check st);
          displayed = displayParameter env (display_values check st) (p_display p) node desc nodeValuesRoot in
      if \<not> truthy nodeValues \<or> value = JUndef \<and> (\<not> returnDefaults \<or> parentType = Some ''collection'') then Inr (Continue st)
      else bindE (if returnNoneDisplayed then Inr True else displayed) (\<lambda>shown.
        if \<not> shown then Inr (Continue st)
        else if p_type p \<notin> {''collection'', ''fixedCollection''} then
          bindE (if p_name p \<in> set duplicateParameterNames then displayed else Inr True) (\<lambda>shown.
            Inr (Continue (if shown then simple_property env returnDefaults parentType p value st else st)))
        else if onlySimpleTypes then Inr (Continue st)
        else if p_type p = ''collection'' then
          bindE (collection_property rec returnDefaults nodeValuesRoot p value st) (\<lambda>st. Inr (Continue st))
        else fixed_collection env rec returnDefaults nodeValuesRoot p nodeValues value st))"

definition duplicate_names :: "string list \<Rightarrow> string list" where
  "duplicate_names names = fst (foldl (\<lambda>(duplicates, seen) name.
      if name \<in> set seen then (sadd name duplicates, seen) else (duplicates, seen @ [name])) ([], []) names)"

section \<open>All properties\<close>

record gnp_options =
  go_onlySimpleTypes :: bool
  go_dataIsResolved :: bool
  go_nodeValuesRoot :: json
  go_parentType :: "string option"
  go_parameterDependencies :: "string list obj option"

definition no_options :: gnp_options where
  "no_options = \<lparr>go_onlySimpleTypes = False, go_dataIsResolved = False, go_nodeValuesRoot = JUndef,
     go_parentType = None, go_parameterDependencies = None\<rparr>"

text \<open>The descriptions a property holds: those of its options and of its fixed collections.\<close>

definition sub_properties :: "node_property \<Rightarrow> node_property list set" where
  "sub_properties p = insert (p_options p) (snd ` set (p_collections p))"

lemma find_collection_sub: "find_collection p k = Some ps \<Longrightarrow> ps \<in> sub_properties p"
  by (auto simp: find_collection_def sub_properties_def dest!: map_of_SomeD intro: rev_image_eqI)

lemma property_step_cong [fundef_cong]:
  assumes "p = p'" and "st = st'"
    and "\<And>ps v r t. ps \<in> sub_properties p' \<Longrightarrow> rec ps v r t = rec' ps v r t"
  shows "property_step env rec rd rnd node desc ost pt gv ch dup nv p st
    = property_step env rec' rd rnd node desc ost pt gv ch dup nv p' st'"
proof -
  have c: "collection_property rec rd r p v st = collection_property rec' rd r p v st" for r v
    using assms by (simp add: collection_property_def sub_properties_def)
  have m: "multiple_item rec r p pv = multiple_item rec' r p pv" for r pv
    using assms find_collection_sub [of p] by (auto simp: multiple_item_def fun_eq_iff split: json.split option.split)
  have s: "single_item env rec rd r p v pv = single_item env rec' rd r p v pv" for r v pv
    using assms find_collection_sub [of p]
    by (auto simp: single_item_def fun_eq_iff split: option.split intro!: arg_cong2 [where f = bindE] ext)
  have f: "fixed_collection env rec rd r p nv v st = fixed_collection env rec' rd r p nv v st" for r v
    unfolding fixed_collection_def m s ..
  show ?thesis unfolding assms(1,2) [symmetric] property_step_def c f ..
qed

lemma resolve_order_less:
  assumes "getParameterResolveOrder props deps = Inr order"
  shows "set order = {..<length props}"
proof -
  have run: "resolve_loop props deps (resolve_fuel props deps) (resolve_init props) = Some (Inr order)"
    using resolve_loop_result [of props deps] assms by simp
  have init: "\<exists>k R. resolve_inv props k R (resolve_init props)" using resolve_inv_init by blast
  have "\<exists>st'. (\<exists>k R. resolve_inv props k R st') \<and> rs_indexToResolve st' = [] \<and> rs_executionOrder st' = order"
  proof (rule resolve_loop_rule [OF run, of "\<lambda>st. \<exists>k R. resolve_inv props k R st", OF init])
    fix st i rest st'
    assume "\<exists>k R. resolve_inv props k R st" "rs_indexToResolve st = i # rest" "resolve_step props deps i rest st = Inr st'"
    then show "\<exists>k R. resolve_inv props k R st'" using resolve_step_decreases by blast
  qed
  then obtain st k R where "resolve_inv props k R st" "rs_indexToResolve st = []" "rs_executionOrder st = order" by blast
  then show ?thesis by (auto simp: resolve_inv_def min_absorb2)
qed

lemma sub_properties_size:
  assumes "p \<in> set props" and "ps \<in> sub_properties p"
  shows "size_list size ps < size_list size props"
proof -
  have "size_list size ps < size p"
  proof (cases p)
    case (NodeProperty nm ty df di nd mv op cs)
    show ?thesis
    proof (cases "ps = op")
      case False
      then obtain k where "(k, ps) \<in> set cs" using assms(2) NodeProperty by (auto simp: sub_properties_def)
      then have "size_prod (\<lambda>x. 0) (size_list size) (k, ps) \<le> size_list (size_prod (\<lambda>x. 0) (size_list size)) cs"
        by (rule size_list_estimation') simp
      then show ?thesis using NodeProperty by simp
    qed (simp add: NodeProperty)
  qed
  moreover have "size p \<le> size_list size props" using assms(1) by (rule size_list_estimation') simp
  ultimately show ?thesis by simp
qed

function getNodeParameters ::
  "param_env \<Rightarrow> node_property list \<Rightarrow> json \<Rightarrow> bool \<Rightarrow> bool \<Rightarrow> rat option \<Rightarrow> type_desc option \<Rightarrow> gnp_options \<Rightarrow> json res" where
  "getNodeParameters env props nodeValues returnDefaults returnNoneDisplayed node desc opts =
     (let deps = (case go_parameterDependencies opts of None \<Rightarrow> getParameterDependencies props | Some d \<Rightarrow> d) in
      bindE (if \<not> go_dataIsResolved opts \<and> \<not> returnNoneDisplayed
             then bindE (getNodeParameters env props nodeValues True True node desc
                   (opts\<lparr>go_onlySimpleTypes := True, go_dataIsResolved := True, go_parameterDependencies := Some deps\<rparr>)) (Inr \<circ> Some)
             else Inr None) (\<lambda>check.
      bindE (getParameterResolveOrder props deps) (\<lambda>order.
      bindE (foldE (\<lambda>index flow. case flow of
            Return v \<Rightarrow> Inr (Return v)
          | Continue st \<Rightarrow>
              property_step env
                (\<lambda>ps v r t. getNodeParameters env ps v returnDefaults returnNoneDisplayed node desc
                   (no_options\<lparr>go_nodeValuesRoot := r, go_parentType := Some t\<rparr>))
                returnDefaults returnNoneDisplayed node desc (go_onlySimpleTypes opts) (go_parentType opts)
                (go_nodeValuesRoot opts) check (duplicate_names (map p_name props)) nodeValues (props ! index) st)
          order (Continue \<lparr>ps_nodeParameters = [], ps_nodeParametersFull = []\<rparr>)) (\<lambda>flow.
      Inr (case flow of Continue st \<Rightarrow> JObj (ps_nodeParameters st) | Return v \<Rightarrow> v)))))"
  by pat_completeness auto
termination
proof (relation "measures [\<lambda>(env, props, v, rd, rnd, node, desc, opts). size_list size props,
    \<lambda>(env, props, v, rd, rnd, node, desc, opts). if \<not> go_dataIsResolved opts \<and> \<not> rnd then 1 else 0]", goal_cases)
  case 1
  show ?case by simp
next
  case 2
  then show ?case by simp
next
  case 3
  then show ?case by (auto dest!: resolve_order_less intro!: sub_properties_size [OF nth_mem])
qed

declare getNodeParameters.simps [simp del]

text \<open>For evaluation: the recursive call by name, so that it is unfolded only where it is applied.\<close>

definition child_parameters :: "param_env \<Rightarrow> bool \<Rightarrow> bool \<Rightarrow> rat option \<Rightarrow> type_desc option \<Rightarrow> param_rec" where
  "child_parameters env rd rnd node desc ps v r t =
     getNodeParameters env ps v rd rnd node desc (no_options\<lparr>go_nodeValuesRoot := r, go_parentType := Some t\<rparr>)"

lemma getNodeParameters_code [code]:
  "getNodeParameters env props nodeValues returnDefaults returnNoneDisplayed node desc opts =
     (let deps = (case go_parameterDependencies opts of None \<Rightarrow> getParameterDependencies props | Some d \<Rightarrow> d) in
      bindE (if \<not> go_dataIsResolved opts \<and> \<not> returnNoneDisplayed
             then bindE (getNodeParameters env props nodeValues True True node desc
                   (opts\<lparr>go_onlySimpleTypes := True, go_dataIsResolved := True, go_parameterDependencies := Some deps\<rparr>)) (Inr \<circ> Some)
             else Inr None) (\<lambda>check.
      bindE (getParameterResolveOrder props deps) (\<lambda>order.
      bindE (foldE (\<lambda>index flow. case flow of
            Return v \<Rightarrow> Inr (Return v)
          | Continue st \<Rightarrow>
              property_step env (child_parameters env returnDefaults returnNoneDisplayed node desc)
                returnDefaults returnNoneDisplayed node desc (go_onlySimpleTypes opts) (go_parentType opts)
                (go_nodeValuesRoot opts) check (duplicate_names (map p_name props)) nodeValues (props ! index) st)
          order (Continue \<lparr>ps_nodeParameters = [], ps_nodeParametersFull = []\<rparr>)) (\<lambda>flow.
      Inr (case flow of Continue st \<Rightarrow> JObj (ps_nodeParameters st) | Return v \<Rightarrow> v)))))"
  unfolding child_parameters_def [abs_def] by (rule getNodeParameters.simps)

section \<open>Simple properties without rules\<close>

definition plain_property :: "node_property \<Rightarrow> bool" where
  "plain_property p \<longleftrightarrow> p_type p \<notin> {''collection'', ''fixedCollection'', ''resourceLocator'', ''filter''}
     \<and> p_display p = None \<and> \<not> p_noDataExpression p"

lemma resolve_loop_plain:
  assumes "\<And>i. i \<in> set (rs_indexToResolve st) \<Longrightarrow> mget deps (name_at props i) = Some []"
    and "length (rs_indexToResolve st) < fuel"
  shows "resolve_loop props deps fuel st = Some (Inr (rs_executionOrder st @ rs_indexToResolve st))"
  using assms
proof (induction fuel arbitrary: st)
  case (Suc fuel)
  show ?case
  proof (cases "rs_indexToResolve st")
    case (Cons i rest)
    define st' where "st' = st\<lparr>rs_iterations := rs_iterations st + 1,
        rs_executionOrder := rs_executionOrder st @ [i],
        rs_resolvedParameters := rs_resolvedParameters st @ [name_at props i], rs_indexToResolve := rest\<rparr>"
    have "resolve_step props deps i rest st = Inr st'"
      using Suc.prems(1) Cons by (simp add: resolve_step_def missing_dependencies_def Let_def st'_def)
    moreover have "resolve_loop props deps fuel st' = Some (Inr (rs_executionOrder st' @ rs_indexToResolve st'))"
      by (rule Suc.IH) (use Suc.prems Cons in \<open>auto simp: st'_def\<close>)
    ultimately show ?thesis using Cons by (simp add: st'_def)
  qed simp
qed simp

lemma resolve_order_plain:
  assumes "\<And>p. p \<in> set props \<Longrightarrow> p_display p = None"
  shows "getParameterResolveOrder props (getParameterDependencies props) = Inr [0..<length props]"
proof -
  have none: "mget (getParameterDependencies props) (name_at props i) = Some []" if i: "i < length props" for i
  proof -
    have "mhas (getParameterDependencies props) (name_at props i)" using i by (simp add: getParameterDependencies_has)
    then obtain ds where ds: "mget (getParameterDependencies props) (name_at props i) = Some ds" by (auto simp: mhas_def)
    have "set ds = {}" using getParameterDependencies_set [of props "name_at props i"] ds assms
      by (auto simp: deps_of_def rule_names_def)
    with ds show ?thesis by simp
  qed
  have "resolve_loop props (getParameterDependencies props) (resolve_fuel props (getParameterDependencies props)) (resolve_init props)
      = Some (Inr (rs_executionOrder (resolve_init props) @ rs_indexToResolve (resolve_init props)))"
    by (rule resolve_loop_plain) (auto simp: resolve_init_def none resolve_fuel_def Let_def algebra_simps)
  then show ?thesis using resolve_loop_result [of props "getParameterDependencies props"] by (simp add: resolve_init_def)
qed

lemma duplicate_names_distinct:
  assumes "distinct names"
  shows "duplicate_names names = []"
proof -
  have "fst (foldl (\<lambda>(duplicates, seen) name.
      if name \<in> set seen then (sadd name duplicates, seen) else (duplicates, seen @ [name])) ([], seen) names) = []"
    if "set seen \<inter> set names = {}" for seen
    using that assms by (induction names arbitrary: seen) auto
  then show ?thesis by (simp add: duplicate_names_def)
qed

definition plain_entry :: "param_env \<Rightarrow> bool \<Rightarrow> json \<Rightarrow> node_property \<Rightarrow> (string \<times> json) option" where
  "plain_entry env returnDefaults v p =
     (let value = prop_of v (p_name p) in
      if returnDefaults then Some (p_name p, value_with_default p value)
      else if value \<noteq> JUndef \<and> differs_from_default env None p value then Some (p_name p, value) else None)"

definition plain_set :: "param_env \<Rightarrow> bool \<Rightarrow> json \<Rightarrow> node_property \<Rightarrow> param_state \<Rightarrow> param_state" where
  "plain_set env rd v p st = (case plain_entry env rd v p of None \<Rightarrow> st | Some (k, x) \<Rightarrow> set_both k x st)"

lemma property_step_plain:
  assumes "plain_property p" and "truthy v" and "p_name p \<notin> set dup"
  shows "property_step env rec rd rnd node desc ost None gv ch dup v p st = Inr (Continue (plain_set env rd v p st))"
  using assms by (auto simp: property_step_def plain_property_def plain_set_def plain_entry_def simple_property_def
      strip_expression_prefix_def displayParameter_def Let_def differs_from_default_def)

lemma foldE_plain:
  assumes "\<And>i. i \<in> set is \<Longrightarrow> plain_property (props ! i)" and "truthy v"
  shows "foldE (\<lambda>index flow. case flow of Return v \<Rightarrow> Inr (Return v)
      | Continue st \<Rightarrow> property_step env (rec :: param_rec) rd rnd node desc ost None gv ch [] v (props ! index) st) is (Continue st)
    = Inr (Continue (foldl (\<lambda>st i. plain_set env rd v (props ! i) st) st is))"
  using assms by (induction "is" arbitrary: st) (simp_all add: property_step_plain)

lemma plain_values:
  assumes "distinct (map p_name ps)" and "fst ` set (ps_nodeParameters st) \<inter> p_name ` set ps = {}"
  shows "ps_nodeParameters (foldl (\<lambda>st p. plain_set env rd v p st) st ps)
    = ps_nodeParameters st @ List.map_filter (plain_entry env rd v) ps"
  using assms
proof (induction ps arbitrary: st)
  case (Cons p ps)
  have k: "plain_entry env rd v p = Some (k, x) \<Longrightarrow> k = p_name p" for k x
    by (auto simp: plain_entry_def Let_def split: if_splits)
  show ?case
  proof (cases "plain_entry env rd v p")
    case None
    then have "plain_set env rd v p st = st" by (simp add: plain_set_def)
    with None Cons show ?thesis by (auto simp: List.map_filter_simps)
  next
    case (Some e)
    then obtain x where e: "plain_entry env rd v p = Some (p_name p, x)" using k by (cases e) auto
    have st: "ps_nodeParameters (plain_set env rd v p st) = ps_nodeParameters st @ [(p_name p, x)]"
      using Cons.prems(2) e by (auto simp: plain_set_def set_both_def intro!: mset_at_new)
    have "fst ` set (ps_nodeParameters (plain_set env rd v p st)) \<inter> p_name ` set ps = {}"
      using Cons.prems unfolding st by auto
    with Cons.IH [of "plain_set env rd v p st"] Cons.prems e st show ?thesis by (simp add: List.map_filter_simps)
  qed
qed (simp add: List.map_filter_simps)

lemma foldl_nth: "foldl (\<lambda>st i. f (xs ! i) st) st [0..<length xs] = foldl (\<lambda>st x. f x st) st xs"
proof -
  have "foldl (\<lambda>st i. f (xs ! i) st) st is = foldl (\<lambda>st x. f x st) st (map ((!) xs) is)" for "is"
    by (induction "is" arbitrary: st) simp_all
  then show ?thesis by (simp add: map_nth)
qed

lemma getNodeParameters_plain_alias:
  assumes plain: "\<And>p. p \<in> set props \<Longrightarrow> plain_property p" and dist: "distinct (map p_name props)" and v: "truthy v"
    and opts: "go_dataIsResolved opts \<or> rnd" "go_parentType opts = None"
      "go_parameterDependencies opts \<in> {None, Some (getParameterDependencies props)}"
  shows "getNodeParameters env props v rd rnd node desc opts = Inr (JObj (List.map_filter (plain_entry env rd v) props))"
proof -
  have order: "getParameterResolveOrder props (getParameterDependencies props) = Inr [0..<length props]"
    by (rule resolve_order_plain) (use plain in \<open>auto simp: plain_property_def\<close>)
  have deps: "(case go_parameterDependencies opts of None \<Rightarrow> getParameterDependencies props | Some d \<Rightarrow> d)
      = getParameterDependencies props" using opts(3) by auto
  have "\<And>i. i \<in> set [0..<length props] \<Longrightarrow> plain_property (props ! i)" using plain by simp
  note loop = foldE_plain [OF this v]
  have no: "\<not> (\<not> go_dataIsResolved opts \<and> \<not> rnd)" using opts(1) by blast
  show ?thesis
    by (subst getNodeParameters.simps)
      (simp only: Let_def deps order bindE_simps if_not_P [OF no] opts(2) duplicate_names_distinct [OF dist] loop
        param_flow.case foldl_nth plain_values [OF dist] param_state.simps list.set image_empty Int_empty_left append_Nil)
qed

lemma getNodeParameters_plain:
  assumes plain: "\<And>p. p \<in> set props \<Longrightarrow> plain_property p" and dist: "distinct (map p_name props)" and v: "truthy v"
  shows "getNodeParameters env props v rd rnd node desc no_options = Inr (JObj (List.map_filter (plain_entry env rd v) props))"
proof (cases rnd)
  case True
  then show ?thesis by (intro getNodeParameters_plain_alias assms) (simp_all add: no_options_def)
next
  case False
  let ?opts = "no_options\<lparr>go_onlySimpleTypes := True, go_dataIsResolved := True,
    go_parameterDependencies := Some (getParameterDependencies props)\<rparr>"
  have check: "getNodeParameters env props v True True node desc ?opts = Inr (JObj (List.map_filter (plain_entry env True v) props))"
    by (intro getNodeParameters_plain_alias assms) (simp_all add: no_options_def)
  have order: "getParameterResolveOrder props (getParameterDependencies props) = Inr [0..<length props]"
    by (rule resolve_order_plain) (use plain in \<open>auto simp: plain_property_def\<close>)
  have "\<And>i. i \<in> set [0..<length props] \<Longrightarrow> plain_property (props ! i)" using plain by simp
  note loop = foldE_plain [OF this v]
  have opts: "go_parameterDependencies no_options = None" "go_parentType no_options = None"
      "\<not> go_dataIsResolved no_options" by (simp_all add: no_options_def)
  have yes: "\<not> go_dataIsResolved no_options \<and> \<not> rnd" using False by (simp add: no_options_def)
  show ?thesis
    by (subst getNodeParameters.simps)
      (simp only: Let_def opts(1,2) option.case if_P [OF yes] check order bindE_simps o_apply
        duplicate_names_distinct [OF dist] loop param_flow.case foldl_nth
        plain_values [OF dist] param_state.simps list.set image_empty Int_empty_left append_Nil)
qed

end
