(* ===== verification/Parameter_Properties.thy ===== *)
theory Parameter_Properties
  imports Node_Parameters
begin

text \<open>
  What the resolution of parameters guarantees: an order that ends and respects the display rules, the meaning of
  those rules, and what is kept of a node's parameters when default values are left out. Then the cases in which
  the code gives up a guarantee.
\<close>

text \<open>An environment for examples: own properties only, structural equality, no regular expressions.\<close>

definition plain_env :: param_env where
  "plain_env = \<lparr>lodash_get = prop_of, lodash_isEqual = (=), regexp_test = (\<lambda>_ _. Inr False), number_string = (\<lambda>_. [])\<rparr>"

definition simple_prop :: "string \<Rightarrow> string \<Rightarrow> json \<Rightarrow> display_rules obj option \<Rightarrow> node_property" where
  "simple_prop name type dflt display = NodeProperty name type dflt display False None [] []"

section \<open>The order of resolution\<close>

text \<open>
  C16: The resolution of parameters always ends: with the fuel chosen, and any more, the loop gives the result of
  the model, an order or an error, whatever the properties and the dependencies are.
\<close>

theorem getParameterResolveOrder_terminates:
  assumes "resolve_fuel props deps \<le> fuel"
  shows "resolve_loop props deps fuel (resolve_init props) = Some (getParameterResolveOrder props deps)"
  using resolve_loop_more [OF resolve_loop_result assms] .

theorem getParameterResolveOrder_terminates_witness:
  "resolve_loop [simple_prop ''a'' ''string'' JNull None] [(''a'', [''b''])] 100
      (resolve_init [simple_prop ''a'' ''string'' JNull None])
    = Some (getParameterResolveOrder [simple_prop ''a'' ''string'' JNull None] [(''a'', [''b''])])"
  by (rule getParameterResolveOrder_terminates) (simp add: resolve_fuel_def deps_of_def simple_prop_def)

lemma solvable_iff:
  "solvable props deps i \<longleftrightarrow> (\<forall>d\<in>set (deps_at props deps i). starts_with_char (CHR ''/'') d \<or> d \<in> p_name ` set props)"
  by (auto simp: solvable_def missing_dependencies_def filter_empty_conv)

text \<open>
  C15: When no display rule of a property is about the property itself, there is an order of resolution exactly if
  every rule is about a root value or about a property that is there. In the order every property occurs, and at its
  last occurrence all the properties its rules are about stand before it.
\<close>

theorem getParameterResolveOrder_correct:
  fixes props :: "node_property list"
  defines "deps \<equiv> getParameterDependencies props"
  assumes own: "\<And>i. i < length props \<Longrightarrow> name_at props i \<notin> set (deps_at props deps i)"
  shows "((\<exists>order. getParameterResolveOrder props deps = Inr order)
        \<longleftrightarrow> (\<forall>i<length props. \<forall>d\<in>set (deps_at props deps i). starts_with_char (CHR ''/'') d \<or> d \<in> p_name ` set props))
    \<and> (\<forall>order. getParameterResolveOrder props deps = Inr order \<longrightarrow>
        set order = {..<length props}
        \<and> (\<forall>i<length props. \<exists>xs ys. order = xs @ i # ys \<and> i \<notin> set ys
            \<and> (\<forall>d\<in>set (deps_at props deps i). starts_with_char (CHR ''/'') d \<or> d \<in> name_at props ` set xs)))"
  using pd.order_exists_iff [of props] own resolve_order_less resolve_order_placed [of props deps]
  by (simp_all add: deps_def solvable_iff)

definition rule_on :: "string \<Rightarrow> json list \<Rightarrow> display_rules obj option" where
  "rule_on name conditions = Some [(''show'', [(name, conditions)])]"

theorem getParameterResolveOrder_correct_witness:
  "let props = [simple_prop ''a'' ''string'' JNull (rule_on ''b'' [JNum 1]), simple_prop ''b'' ''number'' JNull None];
       deps = getParameterDependencies props
   in getParameterResolveOrder props deps = Inr [0, 1, 0] \<and> (\<exists>order. getParameterResolveOrder props deps = Inr order)"
proof -
  let ?props = "[simple_prop ''a'' ''string'' JNull (rule_on ''b'' [JNum 1]), simple_prop ''b'' ''number'' JNull None]"
  have deps: "getParameterDependencies ?props = [(''a'', [''b'']), (''b'', [])]" by code_simp
  have "\<exists>order. getParameterResolveOrder ?props (getParameterDependencies ?props) = Inr order"
    by (subst getParameterResolveOrder_correct [THEN conjunct1])
      (auto simp: deps [unfolded simple_prop_def] less_Suc_eq simple_prop_def deps_of_def split: if_splits)
  moreover have "getParameterResolveOrder ?props (getParameterDependencies ?props) = Inr [0, 1, 0]" by code_simp
  ultimately show ?thesis by simp
qed

text \<open>
  Two properties whose display rules are about each other are not reported: the loop adds a property to the order
  although a dependency of it is missing, and once more later.
\<close>

theorem circular_rules_are_accepted:
  fixes ta tb :: string and da db :: json and ca cb :: "json list"
  assumes "a \<noteq> b" and "\<not> starts_with_char (CHR ''@'') a" and "\<not> starts_with_char (CHR ''@'') b"
    and "\<not> starts_with_char (CHR ''/'') a" and "\<not> starts_with_char (CHR ''/'') b"
  defines "props \<equiv> [simple_prop a ta da (rule_on b ca), simple_prop b tb db (rule_on a cb)]"
  shows "getParameterResolveOrder props (getParameterDependencies props) = Inr [0, 1, 0]"
proof -
  have deps: "getParameterDependencies props = [(a, [b]), (b, [a])]"
    using assms(1-3) by (simp add: props_def getParameterDependencies_def property_dependencies_def simple_prop_def
        rule_on_def add_dependency_def mhas_def obj_keys_def obj_values_def List.map_filter_simps)
  have "resolve_loop props [(a, [b]), (b, [a])] 4 (resolve_init props) = Some (Inr [0, 1, 0])"
    using assms(1,4,5) by (simp add: props_def simple_prop_def resolve_init_def resolve_step_def eval_nat_numeral
        missing_dependencies_def upt_rec Let_def)
  moreover have "4 \<le> resolve_fuel props [(a, [b]), (b, [a])]"
    by (simp add: resolve_fuel_def props_def Let_def)
  ultimately show ?thesis unfolding deps using resolve_loop_more resolve_loop_result by (metis option.inject)
qed

theorem circular_rules_are_accepted_witness:
  "getParameterResolveOrder [simple_prop ''a'' [] JNull (rule_on ''b'' []), simple_prop ''b'' [] JNull (rule_on ''a'' [])]
     (getParameterDependencies [simple_prop ''a'' [] JNull (rule_on ''b'' []), simple_prop ''b'' [] JNull (rule_on ''a'' [])])
   = Inr [0, 1, 0]"
  by (rule circular_rules_are_accepted) (simp_all add: starts_with_char_def)

section \<open>Display\<close>

text \<open>
  C17: As long as no value looked up by a show rule is an expression, a parameter is displayed exactly if every show
  rule holds and no hide rule with values holds.
\<close>

theorem displayParameter_rules:
  fixes options :: "display_rules obj"
  defines "show_rules \<equiv> rules_of options ''show''" and "hide_rules \<equiv> rules_of options ''hide''"
  assumes look: "\<And>k. k \<in> fst ` set show_rules \<union> fst ` set hide_rules
      \<Longrightarrow> getPropertyValues env nodeValues k node desc (or_else rootValues nodeValues) = Inr (vals k)"
    and no_expression: "\<And>k. k \<in> fst ` set show_rules \<Longrightarrow> \<not> list_ex expression_value (vals k)"
    and shown: "\<And>k. k \<in> fst ` set show_rules \<Longrightarrow> checkConditions env (rules_at show_rules k) (vals k) = Inr (holds k)"
    and hidden: "\<And>k. k \<in> fst ` set hide_rules \<Longrightarrow> vals k \<noteq> [] \<Longrightarrow> checkConditions env (rules_at hide_rules k) (vals k) = Inr (hides k)"
  shows "displayParameter env nodeValues (Some options) node desc rootValues
    = Inr ((\<forall>k\<in>fst ` set show_rules. holds k) \<and> \<not> (\<exists>k\<in>fst ` set hide_rules. vals k \<noteq> [] \<and> hides k))"
proof -
  let ?look = "\<lambda>name. getPropertyValues env nodeValues name node desc (or_else rootValues nodeValues)"
  have "show_loop env ?look show_rules (obj_keys show_rules)
      = Inr (if \<forall>k\<in>set (obj_keys show_rules). holds k then None else Some False)"
    by (rule show_loop_rules [where vs = "vals"]) (use look no_expression shown in auto)
  moreover have "hide_loop env ?look hide_rules (obj_keys hide_rules)
      = Inr (if \<exists>k\<in>set (obj_keys hide_rules). vals k \<noteq> [] \<and> hides k then Some False else None)"
    by (rule hide_loop_rules) (use look hidden in auto)
  ultimately show ?thesis
    unfolding displayParameter_loops Let_def show_rules_def [symmetric] hide_rules_def [symmetric] by simp
qed

theorem displayParameter_rules_witness:
  "displayParameter plain_env (JObj [(''mode'', JStr ''x''), (''size'', JNum 3)])
     (Some [(''show'', [(''mode'', [JStr ''x'', JStr ''y''])]), (''hide'', [(''size'', [cnd ''gte'' (JNum 5)])])]) None None JUndef
   = Inr True"
proof -
  have eq: "obj_entries [(k, v)] = [(k, v)]" for k :: string and v :: json by simp
  show ?thesis
    by (subst displayParameter_rules [where vals = "\<lambda>k. if k = ''mode'' then [JStr ''x''] else [JNum 3]"
            and holds = "\<lambda>_. True" and hides = "\<lambda>_. False"])
      (auto simp: rules_of_def rules_at_def getPropertyValues_def as_values_def unwrap_rl_def plain_env_def or_else_def
        starts_with_char_def expression_value_def checkConditions_def check_condition_def display_condition_def
        cnd_def same_value_def check_value_def eq)
qed

text \<open>
  A show rule that meets an expression ends the check: the parameter is displayed, whatever the later show rules
  and the hide rules say.
\<close>

theorem expression_overrides_rules:
  fixes options :: "display_rules obj" and env :: param_env and nodeValues rootValues :: json
    and node :: "rat option" and desc :: "type_desc option"
  defines "look \<equiv> \<lambda>name. getPropertyValues env nodeValues name node desc (or_else rootValues nodeValues)"
    and "show_rules \<equiv> rules_of options ''show''"
  assumes keys: "obj_keys show_rules = before @ k # after"
    and matched: "show_loop env look show_rules before = Inr None"
    and expression: "look k = Inr vs" "list_ex expression_value vs"
  shows "displayParameter env nodeValues (Some options) node desc rootValues = Inr True"
  unfolding displayParameter_loops Let_def show_rules_def [symmetric] look_def [symmetric] keys
  by (simp add: show_loop_append [OF matched] expression)

theorem expression_overrides_rules_witness:
  "displayParameter plain_env (JObj [(''mode'', JStr ''=x''), (''size'', JNum 3)])
     (Some [(''show'', [(''mode'', [JStr ''y'']), (''size'', [JNum 4])]), (''hide'', [(''size'', [JNum 3])])]) None None JUndef
   = Inr True"
  by (rule expression_overrides_rules [where before = "[]" and k = "''mode''" and after = "[''size'']" and vs = "[JStr ''=x'']"])
    (simp_all add: rules_of_def obj_keys_def is_array_index_def is_digit_def getPropertyValues_def as_values_def
      unwrap_rl_def plain_env_def starts_with_char_def expression_value_def)

lemma filter_enabled:
  assumes "\<And>k. mget features k = (if k \<in> K then Some (on k) else None)"
  shows "f \<in> fst ` set (filter snd (obj_entries features)) \<longleftrightarrow> f \<in> K \<and> on f"
  using assms by (force simp: set_obj_entries split: if_splits)

text \<open>
  C18: Showing a parameter by a feature is showing it by the versions of that feature, for a node with a version other
  than 0: the rule on @feature decides as the rule on @version with the feature's conditions.
\<close>

theorem feature_rule_is_version_rule:
  assumes feats: "td_features desc = Some defs" "distinct (map fst defs)" "mget defs f = Some conditions"
    and checks: "\<And>k c. mget defs k = Some c \<Longrightarrow> checkConditions env c [JNum v] = Inr (on k)"
    and plain: "\<And>k. k \<in> fst ` set defs \<Longrightarrow> \<not> starts_with_char (CHR ''='') k"
    and "v \<noteq> 0"
  shows "displayParameter env nodeValues (rule_on ''@feature'' [JStr f]) (Some v) (Some desc) rootValues
    = displayParameter env nodeValues (rule_on ''@version'' conditions) (Some v) (Some desc) rootValues"
proof -
  obtain features where features: "getNodeFeatures env (Some defs) v = Inr features"
      and get: "\<And>k. mget features k = (if k \<in> fst ` set defs then Some (on k) else None)"
    by (rule getNodeFeatures_get [of defs env v on]) (use feats checks in \<open>auto simp: evaluateFeature_def\<close>)
  define names where "names = map (\<lambda>(name, enabled). JStr name) (filter snd (obj_entries features))"
  have look: "getPropertyValues env nodeValues ''@feature'' (Some v) (Some desc) r = Inr names" for r
    using feats(1) \<open>v \<noteq> 0\<close> features by (simp add: getPropertyValues_def starts_with_char_def names_def)
  have vlook: "getPropertyValues env nodeValues ''@version'' (Some v) (Some desc) r = Inr [JNum v]" for r
    by (simp add: getPropertyValues_def starts_with_char_def as_values_def unwrap_rl_def)
  have enabled: "(\<exists>x\<in>set names. same_value x (JStr g)) \<longleftrightarrow> g \<in> fst ` set defs \<and> on g" for g
    unfolding filter_enabled [OF get, symmetric] by (force simp: names_def same_value_def)
  have "\<not> list_ex expression_value names"
    using plain enabled by (fastforce simp: names_def expression_value_def list_ex_iff same_value_def set_obj_entries get split: if_splits)
  moreover have "f \<in> fst ` set defs" using feats(3) by (force dest: map_of_SomeD)
  then have "checkConditions env [JStr f] names = Inr (on f)"
    using checkConditions_plain [of "[JStr f]" env names] enabled [of f] by (simp add: display_condition_def)
  moreover have "checkConditions env conditions [JNum v] = Inr (on f)" using checks feats(3) by simp
  moreover have "obj_keys [(k, c)] = [k]" for k and c :: "json list" by (simp add: obj_keys_def)
  ultimately show ?thesis
    by (simp add: rule_on_def displayParameter_def opt_loop_def rules_at_def look vlook expression_value_def)
qed

theorem feature_rule_is_version_rule_witness:
  "let desc = \<lparr>td_name = ''n8n-nodes-base.set'', td_features = Some [(''includeOther'', [cnd ''gte'' (JNum 3)])]\<rparr> in
   displayParameter plain_env (JObj []) (rule_on ''@feature'' [JStr ''includeOther'']) (Some 3) (Some desc) JUndef
   = displayParameter plain_env (JObj []) (rule_on ''@version'' [cnd ''gte'' (JNum 3)]) (Some 3) (Some desc) JUndef"
  unfolding Let_def
  by (rule feature_rule_is_version_rule [where defs = "[(''includeOther'', [cnd ''gte'' (JNum 3)])]" and on = "\<lambda>_. True"])
    (auto simp: checkConditions_def check_condition_cnd check_value_def starts_with_char_def split: if_splits)

section \<open>The parameters of a node\<close>

definition object_of :: "string set \<Rightarrow> json obj \<Rightarrow> bool" where
  "object_of names fs \<longleftrightarrow> distinct (map fst fs) \<and> fst ` set fs \<subseteq> names"

lemma object_of_set: "object_of names fs \<Longrightarrow> k \<in> names \<Longrightarrow> object_of names (mset_at k v fs)"
  using keys_set [of k v fs] by (auto simp: object_of_def distinct_update dom_update)

lemma strip_expression_object:
  "object_of names (ps_nodeParameters st) \<Longrightarrow> p_name p \<in> names
    \<Longrightarrow> object_of names (ps_nodeParameters (strip_expression_prefix p st))"
  by (auto simp: strip_expression_prefix_def set_both_def object_of_set split: option.split json.split)

lemma property_step_object:
  assumes step: "property_step env rec rd rnd node desc ost pt gv ch dup v p st = Inr flow"
    and st: "object_of names (ps_nodeParameters st)" and p: "p_name p \<in> names"
    and not_single: "rd \<or> \<not> (p_type p = ''fixedCollection'' \<and> p_multipleValues p = Some False)"
  shows "\<exists>st'. flow = Continue st' \<and> object_of names (ps_nodeParameters st')"
proof -
  have set: "object_of names (ps_nodeParameters (set_both (p_name p) x st))" for x
    using st p by (simp add: set_both_def object_of_set)
  have simple: "object_of names (ps_nodeParameters (simple_property env rd pt p x st))" for x
    unfolding simple_property_def using st p set by (simp add: strip_expression_object)
  have coll: "object_of names (ps_nodeParameters st')" if "collection_property rec rd r p x st = Inr st'" for r x st'
    using that st p set unfolding collection_property_def
    by (auto simp: Let_def bindE_eq_Inr object_of_set split: if_splits)
  have fixed: "\<exists>st'. flow = Continue st' \<and> object_of names (ps_nodeParameters st')"
    if "fixed_collection env rec rd r p v x st = Inr flow" "p_type p = ''fixedCollection''" for r x
    using that not_single st set unfolding fixed_collection_def
    by (auto simp: Let_def bindE_eq_Inr split: if_splits)
  show ?thesis
    using step st simple coll unfolding property_step_def Let_def
    by (auto simp: bindE_eq_Inr split: if_splits intro: fixed)
qed

text \<open>
  C19: What \<^verbatim>\<open>getNodeParameters\<close> returns is an object: its keys are names of the properties described,
  each once, provided default values are returned or no fixed collection takes a single value (an empty one that is left out
  makes it return all values of the node, see \<open>empty_single_collection_returns_everything\<close>).
\<close>

theorem getNodeParameters_object:
  assumes res: "getNodeParameters env props v rd rnd node desc opts = Inr w"
    and not_single: "\<And>p. p \<in> set props \<Longrightarrow> rd \<or> \<not> (p_type p = ''fixedCollection'' \<and> p_multipleValues p = Some False)"
  shows "\<exists>fs. w = JObj fs \<and> distinct (map fst fs) \<and> fst ` set fs \<subseteq> p_name ` set props"
proof -
  let ?P = "\<lambda>flow. \<exists>st. flow = Continue st \<and> object_of (p_name ` set props) (ps_nodeParameters st)"
  from res obtain check deps order flow where order: "getParameterResolveOrder props deps = Inr order"
    and loop: "foldE (\<lambda>index flow. case flow of
            Return v \<Rightarrow> Inr (Return v)
          | Continue st \<Rightarrow>
              property_step env (child_parameters env rd rnd node desc) rd rnd node desc (go_onlySimpleTypes opts) (go_parentType opts)
                (go_nodeValuesRoot opts) check (duplicate_names (map p_name props)) v (props ! index) st)
          order (Continue \<lparr>ps_nodeParameters = [], ps_nodeParametersFull = []\<rparr>) = Inr flow"
    and w: "w = (case flow of Continue st \<Rightarrow> JObj (ps_nodeParameters st) | Return v \<Rightarrow> v)"
    by (subst (asm) getNodeParameters_code) (auto simp: Let_def bindE_eq_Inr simp del: foldE.simps)
  have "?P flow"
  proof (rule foldE_invariant [OF loop, where I = ?P])
    fix i a b
    assume i: "i \<in> set order" and "?P a"
      and step: "(case a of
            Return v \<Rightarrow> Inr (Return v)
          | Continue st \<Rightarrow>
              property_step env (child_parameters env rd rnd node desc) rd rnd node desc (go_onlySimpleTypes opts) (go_parentType opts)
                (go_nodeValuesRoot opts) check (duplicate_names (map p_name props)) v (props ! i) st) = Inr b"
    then obtain st where a: "a = Continue st" and st: "object_of (p_name ` set props) (ps_nodeParameters st)" by blast
    have mem: "props ! i \<in> set props" using i resolve_order_less [OF order] by simp
    show "?P b"
      by (rule property_step_object [OF step [unfolded a param_flow.case] st _ not_single]) (use mem in auto)
  qed (simp add: object_of_def)
  then show ?thesis using w by (auto simp: object_of_def)
qed

theorem getNodeParameters_object_witness:
  "\<exists>fs. JObj [(''url'', JStr ''u''), (''junk'', JNum 1)] \<noteq> JObj fs \<and> distinct (map fst fs)
    \<and> getNodeParameters plain_env [simple_prop ''url'' ''string'' (JStr []) None]
        (JObj [(''url'', JStr ''u''), (''junk'', JNum 1)]) False True None None no_options = Inr (JObj fs)
    \<and> fst ` set fs \<subseteq> {''url''}"
proof -
  let ?g = "getNodeParameters plain_env [simple_prop ''url'' ''string'' (JStr []) None]
        (JObj [(''url'', JStr ''u''), (''junk'', JNum 1)]) False True None None no_options"
  have "?g = Inr (JObj [(''url'', JStr ''u'')])" by code_simp
  from getNodeParameters_object [OF this] this show ?thesis by (auto simp: simple_prop_def)
qed

subsection \<open>Leaving out defaults and putting them back\<close>

lemma plain_entry_name: "plain_entry env rd v p = Some (k, x) \<Longrightarrow> k = p_name p"
  by (auto simp: plain_entry_def Let_def split: if_splits)

lemma map_filter_get:
  assumes "distinct (map p_name props)" and "p \<in> set props"
  shows "mget (List.map_filter (plain_entry env rd v) props) (p_name p) = map_option snd (plain_entry env rd v p)"
  using assms
proof (induction props)
  case (Cons q props)
  have other: "mget (List.map_filter (plain_entry env rd v) ps) k = None" if "k \<notin> p_name ` set ps" for k ps
    using that by (force simp: map_of_eq_None_iff set_map_filter dest: plain_entry_name)
  show ?case
  proof (cases "p = q")
    case True
    then have "p_name p \<notin> p_name ` set props" using Cons.prems(1) by auto
    with other show ?thesis using True plain_entry_name [of env rd v q]
      by (auto simp: List.map_filter_simps split: option.split)
  next
    case False
    then have "p \<in> set props" "p_name q \<noteq> p_name p" using Cons.prems by auto
    with Cons show ?thesis using plain_entry_name [of env rd v q]
      by (auto simp: List.map_filter_simps split: option.split)
  qed
qed simp

lemma map_filter_cong: "(\<And>x. x \<in> set xs \<Longrightarrow> f x = g x) \<Longrightarrow> List.map_filter f xs = List.map_filter g xs"
  by (induction xs) (simp_all add: List.map_filter_simps cong: option.case_cong)

text \<open>
  C14: For plain properties, each name once, leaving out the default values loses nothing: the short form
  can be computed again from itself, and putting the defaults back gives what putting them into the original gives. Plain are
  the properties without display rules and without \<^verbatim>\<open>noDataExpression\<close> that are no collection, fixed collection, resource locator
  or filter; and equal for lodash must mean the same value where a value meets its default. (For a filter it is false: the empty
  value that equals its default is left out, and put back without the combinator and the options it gets when it is there.)
\<close>

theorem getNodeParameters_roundtrip:
  assumes plain: "\<And>p. p \<in> set props \<Longrightarrow> plain_property p" and dist: "distinct (map p_name props)" and v: "truthy v"
    and equal: "\<And>p. p \<in> set props \<Longrightarrow> lodash_isEqual env (prop_of v (p_name p)) (p_default p) \<Longrightarrow> prop_of v (p_name p) = p_default p"
  shows "\<exists>w. getNodeParameters env props v False rnd node desc no_options = Inr w
    \<and> getNodeParameters env props w False rnd node desc no_options = Inr w
    \<and> getNodeParameters env props w True rnd node desc no_options = getNodeParameters env props v True rnd node desc no_options"
proof -
  define w where "w = JObj (List.map_filter (plain_entry env False v) props)"
  have tw: "truthy w" by (simp add: w_def)
  note run = getNodeParameters_plain [of props, OF plain dist]
  have at: "prop_of w (p_name p) = (case plain_entry env False v p of None \<Rightarrow> JUndef | Some e \<Rightarrow> snd e)" if "p \<in> set props" for p
    using map_filter_get [OF dist that, of env False v] by (auto simp: w_def split: option.split)
  have kept: "plain_entry env False w p = plain_entry env False v p" if "p \<in> set props" for p
    using at [OF that] by (auto simp: plain_entry_def Let_def split: if_splits)
  have full: "plain_entry env True w p = plain_entry env True v p" if p: "p \<in> set props" for p
  proof (cases "prop_of w (p_name p) = prop_of v (p_name p)")
    case False
    then have wu: "prop_of w (p_name p) = JUndef" and vd: "prop_of v (p_name p) = p_default p"
      using at [OF p] equal [OF p] by (auto simp: plain_entry_def differs_from_default_def Let_def split: if_splits)
    have "p_type p \<notin> {''resourceLocator'', ''filter''}" using plain [OF p] by (simp add: plain_property_def)
    then show ?thesis by (simp add: plain_entry_def wu vd value_with_default_def nullish_else_def)
  qed (simp add: plain_entry_def)
  show ?thesis
  proof (intro exI conjI)
    show "getNodeParameters env props v False rnd node desc no_options = Inr w" by (simp add: run v w_def)
    have "List.map_filter (plain_entry env False w) props = List.map_filter (plain_entry env False v) props"
      by (rule map_filter_cong) (rule kept)
    then show "getNodeParameters env props w False rnd node desc no_options = Inr w"
      using run [OF _ tw, of env False rnd node desc] by (simp add: w_def)
    have "List.map_filter (plain_entry env True w) props = List.map_filter (plain_entry env True v) props"
      by (rule map_filter_cong) (rule full)
    then show "getNodeParameters env props w True rnd node desc no_options = getNodeParameters env props v True rnd node desc no_options"
      using run [OF _ tw, of env True rnd node desc] run [OF _ v, of env True rnd node desc] by simp
  qed
qed

theorem getNodeParameters_roundtrip_witness:
  "let props = [simple_prop ''url'' ''string'' (JStr ''u'') None, simple_prop ''size'' ''number'' (JNum 5) None];
       v = JObj [(''url'', JStr ''x''), (''size'', JNum 5)] in
   \<exists>w. getNodeParameters plain_env props v False False None None no_options = Inr w
    \<and> getNodeParameters plain_env props w False False None None no_options = Inr w
    \<and> getNodeParameters plain_env props w True False None None no_options
      = getNodeParameters plain_env props v True False None None no_options"
  unfolding Let_def
  by (rule getNodeParameters_roundtrip) (auto simp: plain_property_def simple_prop_def plain_env_def)

section \<open>Guarantees given up\<close>

text \<open>
  Leaving out defaults is not stable under display rules: the value of a hidden parameter is still looked at
  when the short form is made, but is itself left out, so a parameter shown because of it is kept the first time
  and lost the second time.
\<close>

theorem short_form_is_not_stable:
  defines "props \<equiv> [simple_prop ''mode'' ''options'' (JStr ''simple'') None,
    simple_prop ''detail'' ''options'' (JStr ''no'') (rule_on ''mode'' [JStr ''expert'']),
    simple_prop ''level'' ''number'' (JNum 1) (rule_on ''detail'' [JStr ''yes''])]"
  shows "getNodeParameters plain_env props (JObj [(''detail'', JStr ''yes''), (''level'', JNum 5)]) False False None None no_options
      = Inr (JObj [(''level'', JNum 5)])
    \<and> getNodeParameters plain_env props (JObj [(''level'', JNum 5)]) False False None None no_options = Inr (JObj [])"
  unfolding props_def by code_simp

lemma only_simple_continues:
  assumes "p_display p = None"
  shows "\<exists>st'. property_step env rec rd rnd node desc True pt gv ch dup v p st = Inr (Continue st')"
  using assms by (simp add: property_step_def displayParameter_def Let_def)

lemma only_simple_total:
  assumes "\<And>p. p \<in> set props \<Longrightarrow> p_display p = None"
  shows "\<exists>w. getNodeParameters env props v True True node desc
    (no_options\<lparr>go_onlySimpleTypes := True, go_dataIsResolved := True,
      go_parameterDependencies := Some (getParameterDependencies props)\<rparr>) = Inr w"
proof -
  let ?step = "\<lambda>index flow. case flow of Return v \<Rightarrow> Inr (Return v) | Continue st \<Rightarrow>
      property_step env (child_parameters env True True node desc) True True node desc True None JUndef None
        (duplicate_names (map p_name props)) v (props ! index) st"
  have "\<exists>flow. foldE ?step [0..<length props] (Continue \<lparr>ps_nodeParameters = [], ps_nodeParametersFull = []\<rparr>) = Inr flow \<and> True"
  proof (rule foldE_total)
    fix i flow assume "i \<in> set [0..<length props]"
    then have "p_display (props ! i) = None" using assms by simp
    note cont = only_simple_continues [OF this]
    show "\<exists>b. ?step i flow = Inr b \<and> True"
    proof (cases flow)
      case (Continue st)
      obtain st' where "property_step env (child_parameters env True True node desc) True True node desc True None JUndef None
        (duplicate_names (map p_name props)) v (props ! i) st = Inr (Continue st')" using cont by blast
      then show ?thesis by (simp add: Continue)
    qed simp
  qed simp
  then show ?thesis
    by (subst getNodeParameters_code) (auto simp: resolve_order_plain [OF assms] no_options_def)
qed

lemma returned: "foldE (\<lambda>index flow. case flow of Return v \<Rightarrow> Inr (Return v) | Continue st \<Rightarrow> f index st) is (Return v) = Inr (Return v)"
  by (induction "is") simp_all

text \<open>
  One fixed collection for a single value that was added and left empty switches the whole short form off:
  whatever is described before and behind it, all values of the node are returned as they are, defaults and values
  no property describes included.
\<close>

theorem empty_single_collection_returns_everything:
  assumes props: "props = xs @ p # ys" "distinct (map p_name props)"
    and plain: "\<And>q. q \<in> set xs \<Longrightarrow> plain_property q" "\<And>q. q \<in> set ys \<Longrightarrow> p_display q = None"
    and p: "p_type p = ''fixedCollection''" "p_multipleValues p = Some False" "p_display p = None"
    and v: "truthy v" "prop_of v (p_name p) = JObj []"
  shows "getNodeParameters env props v False rnd node desc no_options = Inr v"
proof -
  have none: "p_display q = None" if "q \<in> set props" for q
    using that props(1) plain p(3) by (auto simp: plain_property_def)
  let ?n = "length xs"
  have ord: "[0..<length props] = [0..<?n] @ ?n # [Suc ?n..<length props]"
    using upt_add_eq_append [of 0 ?n "Suc (length ys)"] by (simp add: props(1) upt_conv_Cons del: upt_Suc)
  have pl: "plain_property (props ! i)" if "i \<in> set [0..<?n]" for i
    using that plain(1) by (simp add: props(1) nth_append)
  have at: "props ! ?n = p" by (simp add: props(1))
  have step: "property_step env rec False rnd node desc False None gv ch [] v p st = Inr (Return v)" for rec gv ch st
    using p v by (simp add: property_step_def fixed_collection_def displayParameter_def Let_def obj_entries_def)
  have loop: "foldE (\<lambda>index flow. case flow of Return v \<Rightarrow> Inr (Return v) | Continue st \<Rightarrow>
      property_step env rec False rnd node desc False None gv ch [] v (props ! index) st)
      [0..<length props] (Continue st) = Inr (Return v)" for rec gv ch st
    unfolding ord foldE_append
    by (subst foldE_plain [OF pl v(1)]) (simp_all add: at step returned)
  have dup: "duplicate_names (map p_name props) = []" by (rule duplicate_names_distinct [OF props(2)])
  obtain w where w: "getNodeParameters env props v True True node desc
    (no_options\<lparr>go_onlySimpleTypes := True, go_dataIsResolved := True,
      go_parameterDependencies := Some (getParameterDependencies props)\<rparr>) = Inr w"
    using only_simple_total [of props, OF none] by blast
  have opts: "go_parameterDependencies no_options = None" "go_dataIsResolved no_options = False"
    "go_onlySimpleTypes no_options = False" "go_parentType no_options = None" by (simp_all add: no_options_def)
  show ?thesis
    by (subst getNodeParameters_code)
      (simp add: opts dup resolve_order_plain [of props, OF none] w loop)
qed

theorem empty_single_collection_returns_everything_witness:
  "getNodeParameters plain_env
     ([simple_prop ''url'' ''string'' (JStr ''u'') None]
       @ NodeProperty ''headers'' ''fixedCollection'' (JObj []) None False (Some False) [] []
       # [simple_prop ''body'' ''string'' (JStr []) None])
     (JObj [(''url'', JStr ''u''), (''headers'', JObj []), (''old'', JNum 1)]) False False None None no_options
   = Inr (JObj [(''url'', JStr ''u''), (''headers'', JObj []), (''old'', JNum 1)])"
  by (rule empty_single_collection_returns_everything [OF refl])
    (auto simp: simple_prop_def plain_property_def)

text \<open>
  The default of a fixed collection for a single value is never used: when the node has no value and the default
  has an item the collection describes, asking for the parameters with defaults throws.
\<close>

theorem default_of_single_collection_throws:
  assumes p: "p_type p = ''fixedCollection''" "p_multipleValues p \<noteq> Some True" "p_display p = None"
    and default: "p_default p = JObj fs" "obj_keys fs = k # ks" "find_collection p k = Some ps"
    and v: "truthy v" "prop_of v (p_name p) = JUndef"
  shows "getNodeParameters env [p] v True rnd node desc no_options = Inl (TypeError k)"
proof -
  have order: "getParameterResolveOrder [p] (getParameterDependencies [p]) = Inr [0]"
    using resolve_order_plain [of "[p]"] p(3) by simp
  have step: "property_step env rec True rnd node desc False None gv ch dup v p st = Inl (TypeError k)" for rec gv ch dup st
    using p default v
    by (simp add: property_step_def fixed_collection_def single_item_def displayParameter_def access_def Let_def)
  obtain w where w: "getNodeParameters env [p] v True True node desc
    (no_options\<lparr>go_onlySimpleTypes := True, go_dataIsResolved := True,
      go_parameterDependencies := Some (getParameterDependencies [p])\<rparr>) = Inr w"
    using only_simple_total [of "[p]" env v node desc] p(3) by auto
  have opts: "go_parameterDependencies no_options = None" "go_dataIsResolved no_options = False"
    "go_onlySimpleTypes no_options = False" "go_parentType no_options = None" by (simp_all add: no_options_def)
  show ?thesis
    by (subst getNodeParameters_code) (simp add: opts order w step)
qed

theorem default_of_single_collection_throws_witness:
  "getNodeParameters plain_env
     [NodeProperty ''headers'' ''fixedCollection'' (JObj [(''parameter'', JObj [])]) None False None []
       [(''parameter'', [simple_prop ''name'' ''string'' (JStr []) None])]]
     (JObj []) True False None None no_options = Inl (TypeError ''parameter'')"
  by (rule default_of_single_collection_throws [where fs = "[(''parameter'', JObj [])]" and ks = "[]"])
    (simp_all add: obj_keys_def find_collection_def is_array_index_def is_digit_def)

end
