(* ===== verification/Leader_Election.thy ===== *)
theory Leader_Election
  imports N8n_Prelude
begin

text \<open>
  The election of a leader among several main processes (\<^verbatim>\<open>packages/cli/src/scaling/multi-main-setup.ee.ts\<close>
  and \<^verbatim>\<open>leader-election-client.ts\<close>). A cluster is the key in Redis and the hosts. The code of a host between two
  awaits is one step; a Redis command is sent, executed and answered in separate steps, and anything may happen in
  between. The lease is not timed: the key may expire at any moment. A host shuts down between two checks: closing the
  connection ends a check that is under way.
\<close>

section \<open>Hosts\<close>

type_synonym host = string

datatype role = Leader | Follower | Unset

datatype leader_event = Takeover | Stepdown

datatype redis_command = SetIfNotExists | GetLeader | TryRenew | ClearLeader

datatype renewal = RenewSuccess | KeyMissing | OtherHost host

datatype redis_reply = RSet bool | RGet "host option" | RRenew renewal | RClear | RError

text \<open>The await at which a host's code stands; \<open>Fresh\<close> before \<^verbatim>\<open>init\<close>, \<open>Gone\<close> after the shutdown.\<close>

datatype position = Fresh | Idle | AtInit | AtRenew | AtReclaim | AtGet | AtClaim | AtClear | Gone

datatype wire = NoCommand | Sent redis_command | Answered redis_reply

record main_host =
  mh_role :: role
  mh_interval :: bool
  mh_checking :: bool
  mh_at :: position
  mh_wire :: wire
  mh_events :: "leader_event list"

definition fresh_host :: main_host where
  "fresh_host = \<lparr>mh_role = Unset, mh_interval = False, mh_checking = False, mh_at = Fresh, mh_wire = NoCommand, mh_events = []\<rparr>"

fun command_of :: "position \<Rightarrow> redis_command" where
  "command_of AtRenew = TryRenew"
| "command_of AtGet = GetLeader"
| "command_of AtClear = ClearLeader"
| "command_of _ = SetIfNotExists"

definition send :: "position \<Rightarrow> main_host \<Rightarrow> main_host" where
  "send p s = s\<lparr>mh_at := p, mh_wire := Sent (command_of p)\<rparr>"

definition takeOverAsLeader :: "main_host \<Rightarrow> main_host res" where
  "takeOverAsLeader s = bindE (assertE (mh_role s \<noteq> Leader) ''isLeader'') (\<lambda>_.
     Inr (s\<lparr>mh_role := Leader, mh_events := mh_events s @ [Takeover]\<rparr>))"

definition stepDownToFollower :: "main_host \<Rightarrow> main_host res" where
  "stepDownToFollower s = bindE (assertE (mh_role s = Leader) ''isLeader'') (\<lambda>_.
     Inr (s\<lparr>mh_role := Follower, mh_events := mh_events s @ [Stepdown]\<rparr>))"

definition markAsFollower :: "main_host \<Rightarrow> main_host" where
  "markAsFollower s = s\<lparr>mh_role := Follower\<rparr>"

text \<open>The end of \<^verbatim>\<open>init\<close>, of \<^verbatim>\<open>checkLeader\<close> and of \<^verbatim>\<open>shutdown\<close>.\<close>

definition end_init :: "main_host \<Rightarrow> main_host" where
  "end_init s = s\<lparr>mh_interval := True, mh_at := Idle, mh_wire := NoCommand\<rparr>"

definition end_check :: "main_host \<Rightarrow> main_host" where
  "end_check s = s\<lparr>mh_checking := False, mh_at := Idle, mh_wire := NoCommand\<rparr>"

definition leave :: "main_host \<Rightarrow> main_host" where
  "leave s = s\<lparr>mh_at := Gone, mh_wire := NoCommand\<rparr>"

section \<open>The code of a host\<close>

definition checkLeader :: "main_host \<Rightarrow> main_host" where
  "checkLeader s =
     (if mh_checking s then s
      else let s = s\<lparr>mh_checking := True\<rparr> in if mh_role s = Leader then send AtRenew s else send AtGet s)"

definition shutdown_host :: "main_host \<Rightarrow> main_host" where
  "shutdown_host s =
     (let s = s\<lparr>mh_interval := False\<rparr> in if mh_role s = Leader then send AtClear s else leave s)"

definition resume_init :: "redis_reply \<Rightarrow> main_host \<Rightarrow> main_host res" where
  "resume_init reply s = bindE
     (case reply of
        RSet True \<Rightarrow> takeOverAsLeader s
      | _ \<Rightarrow> Inr (markAsFollower s))
     (\<lambda>s. Inr (end_init s))"

definition resume_renew :: "redis_reply \<Rightarrow> main_host \<Rightarrow> main_host res" where
  "resume_renew reply s = (case reply of
      RRenew RenewSuccess \<Rightarrow> Inr (end_check s)
    | RRenew (OtherHost currentLeaderId) \<Rightarrow> bindE (stepDownToFollower s) (\<lambda>s. Inr (end_check s))
    | RRenew KeyMissing \<Rightarrow> Inr (send AtReclaim s)
    | _ \<Rightarrow> Inr (end_check s))"

definition resume_reclaim :: "redis_reply \<Rightarrow> main_host \<Rightarrow> main_host res" where
  "resume_reclaim reply s = (case reply of
      RSet True \<Rightarrow> Inr (end_check s)
    | _ \<Rightarrow> bindE (stepDownToFollower s) (\<lambda>s. Inr (end_check s)))"

text \<open>An empty identifier is no identifier in the conditions of the code.\<close>

definition resume_get :: "host \<Rightarrow> redis_reply \<Rightarrow> main_host \<Rightarrow> main_host res" where
  "resume_get hostId reply s = (case reply of
      RGet leaderId \<Rightarrow>
        (if leaderId = Some hostId \<and> hostId \<noteq> [] then bindE (takeOverAsLeader s) (\<lambda>s. Inr (end_check s))
         else if leaderId \<noteq> None \<and> leaderId \<noteq> Some [] then Inr (end_check s)
         else Inr (send AtClaim s))
    | _ \<Rightarrow> Inr (end_check s))"

definition resume_claim :: "redis_reply \<Rightarrow> main_host \<Rightarrow> main_host res" where
  "resume_claim reply s = (case reply of
      RSet True \<Rightarrow> bindE (takeOverAsLeader s) (\<lambda>s. Inr (end_check s))
    | _ \<Rightarrow> Inr (end_check s))"

definition resume :: "host \<Rightarrow> redis_reply \<Rightarrow> main_host \<Rightarrow> main_host res" where
  "resume hostId reply s = (case mh_at s of
      AtInit \<Rightarrow> resume_init reply s
    | AtRenew \<Rightarrow> resume_renew reply s
    | AtReclaim \<Rightarrow> resume_reclaim reply s
    | AtGet \<Rightarrow> resume_get hostId reply s
    | AtClaim \<Rightarrow> resume_claim reply s
    | AtClear \<Rightarrow> Inr (leave s)
    | _ \<Rightarrow> Inr s)"

section \<open>Redis\<close>

text \<open>What a command does to the key, and its reply; the renewal is a script, executed as one command.\<close>

fun redis_execute :: "host \<Rightarrow> redis_command \<Rightarrow> host option \<Rightarrow> host option \<times> redis_reply" where
  "redis_execute hostId SetIfNotExists key = (if key = None then (Some hostId, RSet True) else (key, RSet False))"
| "redis_execute hostId GetLeader key = (key, RGet key)"
| "redis_execute hostId TryRenew key = (key, RRenew (case key of
     None \<Rightarrow> KeyMissing
   | Some currentValue \<Rightarrow> if currentValue = hostId then RenewSuccess else OtherHost currentValue))"
| "redis_execute hostId ClearLeader key = (None, RClear)"

section \<open>The cluster\<close>

record cluster =
  cl_key :: "host option"
  cl_hosts :: "host \<Rightarrow> main_host"

definition init_cluster :: cluster where
  "init_cluster = \<lparr>cl_key = None, cl_hosts = (\<lambda>_. fresh_host)\<rparr>"

text \<open>
  \<open>Execute\<close>: Redis executes the command of a host and answers. \<open>Lose\<close>: the command fails, before or after
  Redis has executed it. \<open>Expire\<close>: the lease ends.
\<close>

datatype cluster_label =
    Start (lhost: host) | Check (lhost: host) | Execute (lhost: host) | Lose (lhost: host) bool
  | Resume (lhost: host) | Shutdown (lhost: host) | Expire

definition put_host :: "cluster \<Rightarrow> host \<Rightarrow> main_host \<Rightarrow> cluster" where
  "put_host c h s = c\<lparr>cl_hosts := (cl_hosts c)(h := s)\<rparr>"

text \<open>\<open>None\<close>: the step is not possible; an error is a failed assertion.\<close>

fun cluster_step :: "cluster_label \<Rightarrow> cluster \<Rightarrow> cluster res option" where
  "cluster_step (Start h) c =
     (if mh_at (cl_hosts c h) = Fresh then Some (Inr (put_host c h (send AtInit (cl_hosts c h)))) else None)"
| "cluster_step (Check h) c =
     (if mh_interval (cl_hosts c h) then Some (Inr (put_host c h (checkLeader (cl_hosts c h)))) else None)"
| "cluster_step (Execute h) c = (case mh_wire (cl_hosts c h) of
       Sent command \<Rightarrow>
         let (key, reply) = redis_execute h command (cl_key c)
         in Some (Inr ((put_host c h ((cl_hosts c h)\<lparr>mh_wire := Answered reply\<rparr>))\<lparr>cl_key := key\<rparr>))
     | _ \<Rightarrow> None)"
| "cluster_step (Lose h executed) c = (case mh_wire (cl_hosts c h) of
       Sent command \<Rightarrow>
         let (key, reply) = redis_execute h command (cl_key c)
         in Some (Inr ((put_host c h ((cl_hosts c h)\<lparr>mh_wire := Answered RError\<rparr>))
              \<lparr>cl_key := (if executed then key else cl_key c)\<rparr>))
     | _ \<Rightarrow> None)"
| "cluster_step (Resume h) c = (case mh_wire (cl_hosts c h) of
       Answered reply \<Rightarrow> Some (bindE (resume h reply (cl_hosts c h)) (\<lambda>s. Inr (put_host c h s)))
     | _ \<Rightarrow> None)"
| "cluster_step (Shutdown h) c =
     (if mh_at (cl_hosts c h) = Idle then Some (Inr (put_host c h (shutdown_host (cl_hosts c h)))) else None)"
| "cluster_step Expire c = Some (Inr (c\<lparr>cl_key := None\<rparr>))"

fun cluster_run :: "cluster_label list \<Rightarrow> cluster \<Rightarrow> cluster option" where
  "cluster_run [] c = Some c"
| "cluster_run (l # ls) c = (case cluster_step l c of Some (Inr c') \<Rightarrow> cluster_run ls c' | _ \<Rightarrow> None)"

text \<open>The states reached by steps of which all satisfy \<open>P\<close>.\<close>

inductive cluster_reachable :: "(cluster_label \<Rightarrow> bool) \<Rightarrow> cluster \<Rightarrow> bool" for P where
  reach_init: "cluster_reachable P init_cluster"
| reach_step: "cluster_reachable P c \<Longrightarrow> P l \<Longrightarrow> cluster_step l c = Some (Inr c') \<Longrightarrow> cluster_reachable P c'"

section \<open>Invariants\<close>

lemma cluster_run_keeps:
  assumes "\<And>c l c'. I c \<Longrightarrow> P l \<Longrightarrow> cluster_step l c = Some (Inr c') \<Longrightarrow> I c'"
  shows "I c \<Longrightarrow> list_all P ls \<Longrightarrow> cluster_run ls c = Some c' \<Longrightarrow> I c'"
  by (induction ls arbitrary: c) (auto split: option.splits sum.splits intro: assms)

lemma cluster_run_append:
  "cluster_run (ls @ ms) c = Some c' \<longleftrightarrow> (\<exists>d. cluster_run ls c = Some d \<and> cluster_run ms d = Some c')"
  by (induction ls arbitrary: c) (auto split: option.splits sum.splits)

text \<open>The contract of an invariant under the steps that \<open>P\<close> allows.\<close>

locale cluster_invariant =
  fixes P :: "cluster_label \<Rightarrow> bool" and I :: "cluster \<Rightarrow> bool"
  assumes holds_init: "I init_cluster"
    and holds_step: "I c \<Longrightarrow> P l \<Longrightarrow> cluster_step l c = Some (Inr c') \<Longrightarrow> I c'"
begin

lemma holds: "cluster_reachable P c \<Longrightarrow> I c"
  by (induction rule: cluster_reachable.induct) (auto intro: holds_init holds_step)

lemma holds_run: "I c \<Longrightarrow> list_all P ls \<Longrightarrow> cluster_run ls c = Some c' \<Longrightarrow> I c'"
  by (rule cluster_run_keeps [of I P]) (auto intro: holds_step)

end

subsection \<open>Every host\<close>

text \<open>The role after a sequence of events, as long as they alternate.\<close>

fun event_after :: "bool option \<Rightarrow> leader_event \<Rightarrow> bool option" where
  "event_after (Some False) Takeover = Some True"
| "event_after (Some True) Stepdown = Some False"
| "event_after _ _ = None"

definition leads_after :: "leader_event list \<Rightarrow> bool option" where
  "leads_after es = foldl event_after (Some False) es"

lemma leads_after_Nil [simp]: "leads_after [] = Some False"
  by (simp add: leads_after_def)

lemma leads_after_snoc [simp]: "leads_after (es @ [e]) = event_after (leads_after es) e"
  by (simp add: leads_after_def)

definition at_ok :: "main_host \<Rightarrow> bool" where
  "at_ok s = (case mh_at s of
      Fresh \<Rightarrow> mh_role s \<noteq> Leader \<and> mh_wire s = NoCommand \<and> \<not> mh_interval s \<and> \<not> mh_checking s
    | Idle \<Rightarrow> mh_wire s = NoCommand \<and> mh_interval s \<and> \<not> mh_checking s
    | AtInit \<Rightarrow> mh_role s \<noteq> Leader \<and> mh_wire s \<noteq> NoCommand \<and> \<not> mh_interval s \<and> \<not> mh_checking s
    | AtRenew \<Rightarrow> mh_role s = Leader \<and> mh_wire s \<noteq> NoCommand \<and> mh_checking s
    | AtReclaim \<Rightarrow> mh_role s = Leader \<and> mh_wire s \<noteq> NoCommand \<and> mh_checking s
    | AtGet \<Rightarrow> mh_role s \<noteq> Leader \<and> mh_wire s \<noteq> NoCommand \<and> mh_checking s
    | AtClaim \<Rightarrow> mh_role s \<noteq> Leader \<and> mh_wire s \<noteq> NoCommand \<and> mh_checking s
    | AtClear \<Rightarrow> mh_role s = Leader \<and> mh_wire s \<noteq> NoCommand \<and> \<not> mh_interval s \<and> \<not> mh_checking s
    | Gone \<Rightarrow> mh_wire s = NoCommand \<and> \<not> mh_interval s \<and> \<not> mh_checking s)"

definition host_ok :: "main_host \<Rightarrow> bool" where
  "host_ok s \<longleftrightarrow> leads_after (mh_events s) = Some (mh_role s = Leader) \<and> at_ok s
     \<and> (mh_checking s \<longrightarrow> mh_interval s)
     \<and> (\<forall>c. mh_wire s = Sent c \<longrightarrow> c = command_of (mh_at s))"

lemmas host_defs = host_ok_def at_ok_def send_def markAsFollower_def end_init_def end_check_def leave_def
  takeOverAsLeader_def stepDownToFollower_def

lemma fresh_host_ok: "host_ok fresh_host"
  by (simp add: fresh_host_def host_defs)

lemma start_ok: "host_ok s \<Longrightarrow> mh_at s = Fresh \<Longrightarrow> host_ok (send AtInit s)"
  by (simp add: host_defs)

lemma checkLeader_ok: "host_ok s \<Longrightarrow> mh_interval s \<Longrightarrow> host_ok (checkLeader s)"
  by (cases "mh_at s") (auto simp: checkLeader_def Let_def host_defs)

lemma shutdown_ok: "host_ok s \<Longrightarrow> mh_at s = Idle \<Longrightarrow> host_ok (shutdown_host s)"
  by (auto simp: shutdown_host_def Let_def host_defs)

lemma answered_ok: "host_ok s \<Longrightarrow> mh_wire s = Sent c \<Longrightarrow> host_ok (s\<lparr>mh_wire := Answered r\<rparr>)"
  by (cases "mh_at s") (auto simp: host_ok_def at_ok_def)

text \<open>No assertion fails: the code only takes over as a follower and only steps down as a leader.\<close>

lemma resume_host_ok:
  assumes "host_ok s" and "mh_wire s = Answered r"
  shows "\<exists>s'. resume h r s = Inr s' \<and> host_ok s'"
proof (cases "mh_at s")
  case AtInit
  with assms show ?thesis by (cases r) (auto simp: resume_def resume_init_def host_defs split: bool.split)
next
  case AtRenew
  with assms show ?thesis by (auto simp: resume_def resume_renew_def host_defs split: redis_reply.split renewal.split)
next
  case AtReclaim
  with assms show ?thesis by (auto simp: resume_def resume_reclaim_def host_defs split: redis_reply.split bool.split)
next
  case AtGet
  with assms show ?thesis by (auto simp: resume_def resume_get_def host_defs split: redis_reply.split)
next
  case AtClaim
  with assms show ?thesis by (auto simp: resume_def resume_claim_def host_defs split: redis_reply.split bool.split)
qed (use assms in \<open>auto simp: resume_def host_defs\<close>)

definition hosts_ok :: "cluster \<Rightarrow> bool" where
  "hosts_ok c \<longleftrightarrow> (\<forall>h. host_ok (cl_hosts c h))"

lemma put_host_simps [simp]:
  "cl_hosts (put_host c h s) = (cl_hosts c)(h := s)" "cl_key (put_host c h s) = cl_key c"
  by (simp_all add: put_host_def)

lemma hosts_ok_put: "hosts_ok c \<Longrightarrow> host_ok s \<Longrightarrow> hosts_ok (put_host c h s)"
  by (simp add: hosts_ok_def)

lemma hosts_ok_key [simp]: "hosts_ok (c\<lparr>cl_key := k\<rparr>) = hosts_ok c"
  by (simp add: hosts_ok_def)

lemma cluster_step_ok:
  assumes ok: "hosts_ok c" and step: "cluster_step l c = Some r"
  shows "\<exists>c'. r = Inr c' \<and> hosts_ok c'"
proof -
  have h: "host_ok (cl_hosts c h)" for h using ok by (simp add: hosts_ok_def)
  show ?thesis
  proof (cases l)
    case (Resume g)
    then obtain a where a: "mh_wire (cl_hosts c g) = Answered a"
        and r: "r = bindE (resume g a (cl_hosts c g)) (\<lambda>s. Inr (put_host c g s))"
      using step by (auto split: wire.splits)
    from resume_host_ok [OF h a] obtain s' where "resume g a (cl_hosts c g) = Inr s'" "host_ok s'" by blast
    with r show ?thesis using ok by (auto intro: hosts_ok_put)
  qed (use step ok h in \<open>auto simp: Let_def split: if_splits wire.splits prod.splits
      intro!: hosts_ok_put start_ok checkLeader_ok shutdown_ok answered_ok\<close>)
qed

interpretation ch: cluster_invariant "\<lambda>_. True" hosts_ok
proof
  show "hosts_ok init_cluster" by (simp add: hosts_ok_def init_cluster_def fresh_host_ok)
qed (use cluster_step_ok in blast)

subsection \<open>The key\<close>

text \<open>A host leads: it is the leader and has not begun to shut down.\<close>

definition leads :: "cluster \<Rightarrow> host \<Rightarrow> bool" where
  "leads c h \<longleftrightarrow> mh_role (cl_hosts c h) = Leader \<and> mh_at (cl_hosts c h) \<notin> {AtClear, Gone}"

text \<open>What a host may conclude from, as long as no lease ends: its claims on the key are true.\<close>

definition owns :: "host option \<Rightarrow> host \<Rightarrow> main_host \<Rightarrow> bool" where
  "owns key h s \<longleftrightarrow>
     (mh_role s = Leader \<and> mh_at s \<noteq> Gone \<and> \<not> (mh_at s = AtClear \<and> mh_wire s \<noteq> Sent ClearLeader) \<longrightarrow> key = Some h)
     \<and> (mh_wire s = Answered (RSet True) \<longrightarrow> key = Some h)
     \<and> (mh_wire s = Answered (RGet (Some h)) \<longrightarrow> key = Some h)
     \<and> mh_at s \<noteq> AtReclaim
     \<and> (\<forall>r. mh_at s = AtRenew \<and> mh_wire s = Answered (RRenew r) \<longrightarrow> r = RenewSuccess)"

definition key_ok :: "cluster \<Rightarrow> bool" where
  "key_ok c \<longleftrightarrow> hosts_ok c \<and> (\<forall>h. owns (cl_key c) h (cl_hosts c h))"

lemma owns_execute:
  assumes "host_ok s" and "owns key h s" and "mh_wire s = Sent command" and "redis_execute h command key = (key', reply)"
  shows "owns key' h (s\<lparr>mh_wire := Answered reply\<rparr>)"
    and "owns key' h (s\<lparr>mh_wire := Answered RError\<rparr>)" and "owns key h (s\<lparr>mh_wire := Answered RError\<rparr>)"
    and "key' = key \<or> key' = Some h \<and> key = None \<or> key = Some h"
proof -
  have "command = command_of (mh_at s)" using assms(1,3) by (simp add: host_ok_def)
  with assms show "owns key' h (s\<lparr>mh_wire := Answered reply\<rparr>)" "owns key' h (s\<lparr>mh_wire := Answered RError\<rparr>)"
    "owns key h (s\<lparr>mh_wire := Answered RError\<rparr>)" "key' = key \<or> key' = Some h \<and> key = None \<or> key = Some h"
    by (cases "mh_at s"; auto simp: owns_def host_ok_def at_ok_def split: if_splits option.splits)+
qed

lemma owns_other:
  assumes "owns key h s" and "g \<noteq> h" and "key' = key \<or> key' = Some g \<and> key = None \<or> key = Some g"
  shows "owns key' h s"
  using assms by (auto simp: owns_def)

lemma owns_resume:
  assumes "host_ok s" and "owns key h s" and "mh_wire s = Answered reply" and "resume h reply s = Inr s'"
  shows "owns key h s'"
proof (cases "mh_at s")
  case AtInit
  with assms show ?thesis
    by (cases reply) (auto simp: resume_def resume_init_def host_defs owns_def split: bool.splits)
next
  case AtRenew
  with assms show ?thesis
    by (auto simp: resume_def resume_renew_def host_defs owns_def split: redis_reply.splits renewal.splits)
next
  case AtReclaim
  with assms show ?thesis by (simp add: owns_def)
next
  case AtGet
  with assms show ?thesis
    by (auto simp: resume_def resume_get_def host_defs owns_def split: redis_reply.splits if_splits)
next
  case AtClaim
  with assms show ?thesis
    by (auto simp: resume_def resume_claim_def host_defs owns_def split: redis_reply.splits bool.splits)
qed (use assms in \<open>auto simp: resume_def host_defs owns_def\<close>)

lemma owns_local:
  assumes "host_ok s" and "owns key h s"
  shows "mh_at s = Fresh \<Longrightarrow> owns key h (send AtInit s)"
    and "mh_interval s \<Longrightarrow> owns key h (checkLeader s)"
    and "mh_at s = Idle \<Longrightarrow> owns key h (shutdown_host s)"
  using assms by (auto simp: owns_def host_defs checkLeader_def shutdown_host_def Let_def)

lemma key_ok_put:
  assumes "key_ok c" and "host_ok s" and "owns (cl_key c) h s"
  shows "key_ok (put_host c h s)"
  using assms by (simp add: key_ok_def hosts_ok_put)

lemma key_ok_execute:
  assumes ok: "key_ok c" and s: "host_ok s" "owns key' h s"
    and change: "key' = cl_key c \<or> key' = Some h \<and> cl_key c = None \<or> cl_key c = Some h"
  shows "key_ok ((put_host c h s)\<lparr>cl_key := key'\<rparr>)"
  using ok s owns_other [OF _ _ change] by (auto simp: key_ok_def hosts_ok_def)

lemma key_step:
  assumes ok: "key_ok c" and l: "l \<noteq> Expire" and step: "cluster_step l c = Some (Inr c')"
  shows "key_ok c'"
proof -
  have h: "host_ok (cl_hosts c h)" and o: "owns (cl_key c) h (cl_hosts c h)" for h
    using ok by (simp_all add: key_ok_def hosts_ok_def)
  show ?thesis
  proof (cases l)
    case (Execute g)
    then obtain command key reply where w: "mh_wire (cl_hosts c g) = Sent command"
        and e: "redis_execute g command (cl_key c) = (key, reply)"
        and c': "c' = (put_host c g ((cl_hosts c g)\<lparr>mh_wire := Answered reply\<rparr>))\<lparr>cl_key := key\<rparr>"
      using step by (auto simp: Let_def split: wire.splits prod.splits)
    note x = owns_execute [OF h o w e]
    show ?thesis unfolding c' by (rule key_ok_execute [OF ok answered_ok [OF h w] x(1,4)])
  next
    case (Lose g executed)
    then obtain command key reply where w: "mh_wire (cl_hosts c g) = Sent command"
        and e: "redis_execute g command (cl_key c) = (key, reply)"
        and c': "c' = (put_host c g ((cl_hosts c g)\<lparr>mh_wire := Answered RError\<rparr>))\<lparr>cl_key := (if executed then key else cl_key c)\<rparr>"
      using step by (auto simp: Let_def split: wire.splits prod.splits)
    note x = owns_execute [OF h o w e]
    show ?thesis unfolding c'
      by (rule key_ok_execute [OF ok answered_ok [OF h w]]) (use x in auto)
  next
    case (Resume g)
    then obtain a s where a: "mh_wire (cl_hosts c g) = Answered a" and r: "resume g a (cl_hosts c g) = Inr s"
        and c': "c' = put_host c g s"
      using step by (auto simp: bindE_eq_Inr split: wire.splits)
    have "host_ok s" using resume_host_ok [OF h a, of g] r by simp
    then show ?thesis unfolding c' by (rule key_ok_put [OF ok]) (rule owns_resume [OF h o a r])
  qed (use step ok h o l in \<open>auto split: if_splits intro!: key_ok_put start_ok checkLeader_ok shutdown_ok owns_local\<close>)
qed

interpretation ck: cluster_invariant "\<lambda>l. l \<noteq> Expire" key_ok
proof
  have "owns None h fresh_host" for h by (simp add: owns_def fresh_host_def)
  then show "key_ok init_cluster" using ch.holds_init by (simp add: key_ok_def init_cluster_def)
qed (use key_step in blast)

lemma key_ok_leads: "key_ok c \<Longrightarrow> leads c h \<Longrightarrow> cl_key c = Some h"
  by (auto simp: key_ok_def owns_def leads_def)

subsection \<open>Calm times\<close>

text \<open>No lease ends, no command fails, no host shuts down, and \<open>h\<close> holds the key.\<close>

fun calm_label :: "cluster_label \<Rightarrow> bool" where
  "calm_label (Lose h b) = False"
| "calm_label (Shutdown h) = False"
| "calm_label Expire = False"
| "calm_label _ = True"

definition calm :: "host \<Rightarrow> cluster \<Rightarrow> bool" where
  "calm h c \<longleftrightarrow> hosts_ok c \<and> cl_key c = Some h \<and> (\<forall>g. mh_at (cl_hosts c g) \<noteq> AtClear)"

lemma resume_not_clear: "mh_at s \<noteq> AtClear \<Longrightarrow> resume h r s = Inr s' \<Longrightarrow> mh_at s' \<noteq> AtClear"
  by (cases "mh_at s") (auto simp: resume_def resume_init_def resume_renew_def resume_reclaim_def resume_get_def
      resume_claim_def bindE_eq_Inr host_defs split: redis_reply.splits renewal.splits bool.splits if_splits)

lemma sent_command:
  "hosts_ok c \<Longrightarrow> mh_wire (cl_hosts c g) = Sent command \<Longrightarrow> command = command_of (mh_at (cl_hosts c g))"
  by (simp add: hosts_ok_def host_ok_def)

lemma calm_step:
  assumes c: "calm h c" and l: "calm_label l" and step: "cluster_step l c = Some (Inr c')"
  shows "calm h c'"
proof -
  have ok: "hosts_ok c'" using cluster_step_ok [of c l] c step by (auto simp: calm_def)
  have "cl_key c' = Some h \<and> (\<forall>g. mh_at (cl_hosts c' g) \<noteq> AtClear)"
  proof (cases l)
    case (Execute g)
    then obtain command key reply where w: "mh_wire (cl_hosts c g) = Sent command"
        and e: "redis_execute g command (Some h) = (key, reply)"
        and c': "c' = (put_host c g ((cl_hosts c g)\<lparr>mh_wire := Answered reply\<rparr>))\<lparr>cl_key := key\<rparr>"
      using step c by (auto simp: Let_def calm_def split: wire.splits prod.splits)
    have "command = command_of (mh_at (cl_hosts c g))" using sent_command w c by (simp add: calm_def)
    moreover have "mh_at (cl_hosts c g) \<noteq> AtClear" using c by (simp add: calm_def)
    ultimately have "command \<noteq> ClearLeader" by (cases "mh_at (cl_hosts c g)") auto
    with e have "key = Some h" by (cases command) auto
    then show ?thesis using c c' by (simp add: calm_def)
  next
    case (Resume g)
    then obtain a s where r: "resume g a (cl_hosts c g) = Inr s" and c': "c' = put_host c g s"
      using step by (auto simp: bindE_eq_Inr split: wire.splits)
    have "mh_at s \<noteq> AtClear" by (rule resume_not_clear [OF _ r]) (use c in \<open>simp add: calm_def\<close>)
    then show ?thesis using c c' by (simp add: calm_def)
  qed (use step c l in \<open>auto simp: calm_def send_def checkLeader_def Let_def split: if_splits\<close>)
  with ok show ?thesis by (simp add: calm_def)
qed

lemma calm_run: "calm h c \<Longrightarrow> list_all calm_label ls \<Longrightarrow> cluster_run ls c = Some c' \<Longrightarrow> calm h c'"
  by (rule cluster_run_keeps [of "calm h" calm_label]) (auto intro: calm_step)

lemma other_step:
  "cluster_step l c = Some (Inr c') \<Longrightarrow> calm_label l \<Longrightarrow> lhost l \<noteq> g \<Longrightarrow> cl_hosts c' g = cl_hosts c g"
  by (cases l) (auto simp: Let_def bindE_eq_Inr split: if_splits wire.splits prod.splits)

lemma other_run:
  "cluster_run ls c = Some c' \<Longrightarrow> list_all calm_label ls \<Longrightarrow> filter (\<lambda>l. lhost l = g) ls = [] \<Longrightarrow> cl_hosts c' g = cl_hosts c g"
  by (induction ls arbitrary: c) (auto split: option.splits sum.splits if_splits dest: other_step)

text \<open>A run up to the next step of \<open>g\<close>.\<close>

lemma next_step:
  assumes "calm h c" and "list_all calm_label ls" and "cluster_run ls c = Some c'"
    and "filter (\<lambda>l. lhost l = g) ls = l # rest"
  obtains c1 c2 ms where "calm h c1" "cl_hosts c1 g = cl_hosts c g" "cluster_step l c1 = Some (Inr c2)" "calm h c2"
    "calm_label l" "list_all calm_label ms" "cluster_run ms c2 = Some c'" "filter (\<lambda>l. lhost l = g) ms = rest"
proof -
  from filter_eq_ConsD [OF assms(4)] obtain us ms where ls: "ls = us @ l # ms"
      and us: "\<forall>u\<in>set us. lhost u \<noteq> g" and rest: "rest = filter (\<lambda>l. lhost l = g) ms" by blast
  from assms(2) have calms: "list_all calm_label us" "calm_label l" "list_all calm_label ms" by (simp_all add: ls)
  from assms(3) obtain c1 where c1: "cluster_run us c = Some c1" and r: "cluster_run (l # ms) c1 = Some c'"
    by (auto simp: ls cluster_run_append)
  have calm1: "calm h c1" by (rule calm_run [OF assms(1) calms(1) c1])
  have same: "cl_hosts c1 g = cl_hosts c g" by (rule other_run [OF c1 calms(1)]) (use us in \<open>simp add: filter_empty_conv\<close>)
  from r obtain c2 where c2: "cluster_step l c1 = Some (Inr c2)" "cluster_run ms c2 = Some c'"
    by (auto split: option.splits sum.splits)
  show ?thesis using that calm1 same c2 calm_step [OF calm1 calms(2) c2(1)] calms rest by blast
qed

text \<open>The role of \<open>g\<close> is right and the check it may be at will not change it.\<close>

definition settled :: "host \<Rightarrow> host \<Rightarrow> main_host \<Rightarrow> bool" where
  "settled h g s \<longleftrightarrow> (mh_role s = Leader \<longleftrightarrow> g = h)
     \<and> (mh_at s = Idle \<or> mh_at s = AtRenew \<and> mh_wire s \<in> {Sent TryRenew, Answered (RRenew RenewSuccess)}
        \<or> mh_at s = AtGet \<and> mh_wire s \<in> {Sent GetLeader, Answered (RGet (Some h))})"

lemma settled_step:
  assumes c: "calm h c" and s: "settled h g (cl_hosts c g)" and h: "h \<noteq> []" and l: "lhost l = g" "calm_label l"
    and step: "cluster_step l c = Some (Inr c')"
  shows "settled h g (cl_hosts c' g)"
proof -
  have ok: "host_ok (cl_hosts c g)" and key: "cl_key c = Some h" using c by (simp_all add: calm_def hosts_ok_def)
  show ?thesis
  proof (cases l)
    case (Start h')
    then show ?thesis using step l s by (auto simp: settled_def split: if_splits)
  next
    case (Check h')
    then show ?thesis using step l s ok
      by (auto simp: settled_def checkLeader_def send_def Let_def host_ok_def at_ok_def split: if_splits)
  next
    case (Execute h')
    then show ?thesis using step l s ok key
      by (auto simp: settled_def host_ok_def at_ok_def Let_def split: wire.splits)
  next
    case (Resume h')
    then show ?thesis using step l s ok key h
      by (auto simp: settled_def resume_def resume_renew_def resume_get_def host_defs split: wire.splits if_splits)
  qed (use l in auto)
qed

lemma settled_run:
  "calm h c \<Longrightarrow> list_all calm_label ls \<Longrightarrow> cluster_run ls c = Some c' \<Longrightarrow> h \<noteq> [] \<Longrightarrow> settled h g (cl_hosts c g)
    \<Longrightarrow> settled h g (cl_hosts c' g)"
proof (induction ls arbitrary: c)
  case (Cons l ls)
  then obtain d where d: "cluster_step l c = Some (Inr d)" "cluster_run ls d = Some c'"
    by (auto split: option.splits sum.splits)
  have l: "calm_label l" "list_all calm_label ls" using Cons.prems(2) by simp_all
  have "settled h g (cl_hosts d g)"
  proof (cases "lhost l = g")
    case True
    show ?thesis by (rule settled_step [OF Cons.prems(1,5,4) True l(1) d(1)])
  next
    case False
    show ?thesis using Cons.prems(5) other_step [OF d(1) l(1) False] by simp
  qed
  with Cons.IH [OF calm_step [OF Cons.prems(1) l(1) d(1)] l(2) d(2) Cons.prems(4)] show ?case by simp
qed simp

text \<open>One whole check of \<open>g\<close>, whatever the other hosts do in the meantime.\<close>

lemma check_settles:
  assumes c: "calm h c" and h: "h \<noteq> []" and idle: "mh_at (cl_hosts c g) = Idle"
    and ls: "list_all calm_label ls" "cluster_run ls c = Some c'"
    and own: "filter (\<lambda>l. lhost l = g) ls = Check g # Execute g # Resume g # rest"
  shows "settled h g (cl_hosts c' g)"
proof -
  from next_step [OF c ls own] obtain a1 a2 ms where a: "calm h a1" "cl_hosts a1 g = cl_hosts c g"
      "cluster_step (Check g) a1 = Some (Inr a2)" "calm h a2" "list_all calm_label ms" "cluster_run ms a2 = Some c'"
      "filter (\<lambda>l. lhost l = g) ms = Execute g # Resume g # rest" by metis
  from next_step [OF a(4-7)] obtain b1 b2 ns where b: "calm h b1" "cl_hosts b1 g = cl_hosts a2 g"
      "cluster_step (Execute g) b1 = Some (Inr b2)" "calm h b2" "list_all calm_label ns" "cluster_run ns b2 = Some c'"
      "filter (\<lambda>l. lhost l = g) ns = Resume g # rest" by metis
  from next_step [OF b(4-7)] obtain d1 d2 os where d: "calm h d1" "cl_hosts d1 g = cl_hosts b2 g"
      "cluster_step (Resume g) d1 = Some (Inr d2)" "calm h d2" "list_all calm_label os" "cluster_run os d2 = Some c'" by metis
  have ok: "host_ok (cl_hosts c g)" using c by (simp add: calm_def hosts_ok_def)
  have s1: "cl_hosts a2 g = checkLeader (cl_hosts c g)" using a(2,3) by (auto split: if_splits)
  have at1: "mh_at (cl_hosts a2 g) = (if mh_role (cl_hosts c g) = Leader then AtRenew else AtGet)"
      "mh_wire (cl_hosts a2 g) = Sent (if mh_role (cl_hosts c g) = Leader then TryRenew else GetLeader)"
      "mh_role (cl_hosts a2 g) = mh_role (cl_hosts c g)"
    using ok idle by (simp_all add: s1 checkLeader_def send_def Let_def host_ok_def at_ok_def)
  have s2: "cl_hosts b2 g = (cl_hosts a2 g)\<lparr>mh_wire := Answered (if mh_role (cl_hosts c g) = Leader
      then RRenew (if h = g then RenewSuccess else OtherHost h) else RGet (Some h))\<rparr>"
    using b(1-3) at1 by (auto simp: calm_def Let_def)
  have "settled h g (cl_hosts d2 g)"
    using d(2,3) at1 h unfolding s2
    by (auto simp: settled_def resume_def resume_renew_def resume_get_def host_defs split: if_splits)
  then show ?thesis using settled_run [OF d(4-6) h] by simp
qed

end
