(* ===== verification/Wait_Tracker.thy ===== *)
theory Wait_Tracker
  imports Leader_Election
begin

text \<open>
  The tracker of waiting executions (\<^verbatim>\<open>packages/cli/src/wait-tracker.ts\<close>), which the events of the election
  start and stop. Timers are numbered; the live timeouts and intervals are those that may still fire, while the
  tracker keeps handles of its own.
\<close>

section \<open>State\<close>

record tracker =
  wt_waitingExecutions :: "nat obj"
  wt_mainTimer :: "nat option"
  wt_timeouts :: "(nat \<times> string) list"
  wt_intervals :: "nat list"
  wt_queries :: nat
  wt_next :: nat
  wt_started :: "string list"

definition new_tracker :: tracker where
  "new_tracker = \<lparr>wt_waitingExecutions = [], wt_mainTimer = None, wt_timeouts = [], wt_intervals = [], wt_queries = 0,
     wt_next = 0, wt_started = []\<rparr>"

text \<open>A call of \<^verbatim>\<open>getWaitingExecutions\<close> up to its await: one more query is open.\<close>

definition open_query :: "tracker \<Rightarrow> tracker" where
  "open_query t = t\<lparr>wt_queries := Suc (wt_queries t)\<rparr>"

definition startTracking :: "tracker \<Rightarrow> tracker" where
  "startTracking t = open_query (t\<lparr>wt_mainTimer := Some (wt_next t), wt_intervals := wt_intervals t @ [wt_next t],
     wt_next := Suc (wt_next t)\<rparr>)"

definition init_tracker :: "bool \<Rightarrow> tracker \<Rightarrow> tracker" where
  "init_tracker isLeader t = (if isLeader then startTracking t else t)"

text \<open>The rest of \<^verbatim>\<open>getWaitingExecutions\<close>, with the answer of the database.\<close>

definition add_waiting :: "string \<Rightarrow> tracker \<Rightarrow> tracker" where
  "add_waiting executionId t =
     (if mhas (wt_waitingExecutions t) executionId then t
      else t\<lparr>wt_waitingExecutions := mset_at executionId (wt_next t) (wt_waitingExecutions t),
         wt_timeouts := wt_timeouts t @ [(wt_next t, executionId)], wt_next := Suc (wt_next t)\<rparr>)"

definition got_executions :: "string list option \<Rightarrow> tracker \<Rightarrow> tracker" where
  "got_executions answer t = (let t = t\<lparr>wt_queries := wt_queries t - 1\<rparr> in
     case answer of None \<Rightarrow> t | Some executions \<Rightarrow> foldl (\<lambda>t executionId. add_waiting executionId t) t executions)"

definition clear_timeout :: "nat \<Rightarrow> tracker \<Rightarrow> tracker" where
  "clear_timeout timer t = t\<lparr>wt_timeouts := filter (\<lambda>(i, e). i \<noteq> timer) (wt_timeouts t)\<rparr>"

definition stop_waiting :: "string \<Rightarrow> tracker \<Rightarrow> tracker" where
  "stop_waiting executionId t = (case mget (wt_waitingExecutions t) executionId of
      None \<Rightarrow> t
    | Some timer \<Rightarrow> let t = clear_timeout timer t in
        t\<lparr>wt_waitingExecutions := mdel executionId (wt_waitingExecutions t)\<rparr>)"

text \<open>\<^verbatim>\<open>startExecution\<close> up to its first await.\<close>

definition startExecution :: "string \<Rightarrow> tracker \<Rightarrow> tracker" where
  "startExecution executionId t = t\<lparr>wt_waitingExecutions := mdel executionId (wt_waitingExecutions t),
     wt_started := wt_started t @ [executionId]\<rparr>"

definition stopTracking :: "tracker \<Rightarrow> tracker" where
  "stopTracking t = (case wt_mainTimer t of
      None \<Rightarrow> t
    | Some timer \<Rightarrow>
        let t = t\<lparr>wt_intervals := filter (\<lambda>i. i \<noteq> timer) (wt_intervals t)\<rparr>
        in foldl (\<lambda>t timer. clear_timeout timer t) t (obj_values (wt_waitingExecutions t)))"

section \<open>Steps\<close>

text \<open>
  \<open>StartNow\<close>: \<^verbatim>\<open>startExecution\<close> called directly, for the parent of an execution that has ended. The
  answer of a query is \<open>None\<close> when it fails.
\<close>

datatype tracker_label =
    StartTracking | StopTracking | IntervalFires nat | QueryAnswered "string list option" | TimeoutFires nat
  | StopExecution string | StartNow string

fun tracker_step :: "tracker_label \<Rightarrow> tracker \<Rightarrow> tracker option" where
  "tracker_step StartTracking t = Some (startTracking t)"
| "tracker_step StopTracking t = Some (stopTracking t)"
| "tracker_step (IntervalFires i) t = (if i \<in> set (wt_intervals t) then Some (open_query t) else None)"
| "tracker_step (QueryAnswered answer) t = (if 0 < wt_queries t then Some (got_executions answer t) else None)"
| "tracker_step (TimeoutFires i) t = (case map_of (wt_timeouts t) i of
       None \<Rightarrow> None
     | Some executionId \<Rightarrow> Some (startExecution executionId (clear_timeout i t)))"
| "tracker_step (StopExecution executionId) t = Some (stop_waiting executionId t)"
| "tracker_step (StartNow executionId) t = Some (startExecution executionId t)"

fun tracker_run :: "tracker_label list \<Rightarrow> tracker \<Rightarrow> tracker option" where
  "tracker_run [] t = Some t"
| "tracker_run (l # ls) t = (case tracker_step l t of None \<Rightarrow> None | Some t' \<Rightarrow> tracker_run ls t')"

lemma tracker_run_append:
  "tracker_run (ls @ ms) t = Some t' \<longleftrightarrow> (\<exists>u. tracker_run ls t = Some u \<and> tracker_run ms u = Some t')"
  by (induction ls arbitrary: t) (auto split: option.splits)

lemma tracker_run_keeps:
  assumes "\<And>t l t'. I t \<Longrightarrow> P l \<Longrightarrow> tracker_step l t = Some t' \<Longrightarrow> I t'"
  shows "I t \<Longrightarrow> list_all P ls \<Longrightarrow> tracker_run ls t = Some t' \<Longrightarrow> I t'"
  by (induction ls arbitrary: t) (auto split: option.splits intro: assms)

section \<open>Resuming an execution\<close>

text \<open>
  The rest of \<^verbatim>\<open>startExecution\<close>: what the database returns and what the runner does are arguments; the
  result is the parent to resume when the execution has ended.
\<close>

record parent_execution =
  pe_executionId :: string
  pe_shouldResume :: "bool option"

record stored_execution =
  se_finished :: bool
  se_workflowId :: string
  se_parentExecution :: "parent_execution option"

datatype run_outcome = RunStarted | AlreadyResuming | RunFailed js_error

definition shouldRestartParentExecution :: "parent_execution option \<Rightarrow> bool" where
  "shouldRestartParentExecution parent = (case parent of
      None \<Rightarrow> False
    | Some p \<Rightarrow> pe_shouldResume p \<noteq> Some False)"

definition resume_execution :: "stored_execution option \<Rightarrow> run_outcome \<Rightarrow> string option res" where
  "resume_execution stored outcome = (case stored of
      None \<Rightarrow> Inl (UnexpectedError ''Execution does not exist.'')
    | Some e \<Rightarrow>
        if se_finished e then Inl (UnexpectedError ''The execution did succeed and can so not be started again.'')
        else if se_workflowId e = [] then Inl (UnexpectedError ''Only saved workflows can be resumed.'')
        else (case outcome of
            RunFailed err \<Rightarrow> Inl err
          | AlreadyResuming \<Rightarrow> Inr None
          | RunStarted \<Rightarrow> Inr (if shouldRestartParentExecution (se_parentExecution e)
              then map_option pe_executionId (se_parentExecution e) else None)))"

section \<open>Timers and entries\<close>

lemma clear_timeout_simps [simp]:
  "wt_waitingExecutions (clear_timeout i t) = wt_waitingExecutions t" "wt_mainTimer (clear_timeout i t) = wt_mainTimer t"
  "wt_intervals (clear_timeout i t) = wt_intervals t" "wt_started (clear_timeout i t) = wt_started t"
  "wt_next (clear_timeout i t) = wt_next t" "wt_queries (clear_timeout i t) = wt_queries t"
  "set (wt_timeouts (clear_timeout i t)) = {(j, e) \<in> set (wt_timeouts t). j \<noteq> i}"
  by (auto simp: clear_timeout_def)

lemma clear_timeouts:
  "wt_waitingExecutions (foldl (\<lambda>t i. clear_timeout i t) t is) = wt_waitingExecutions t"
  "wt_mainTimer (foldl (\<lambda>t i. clear_timeout i t) t is) = wt_mainTimer t"
  "wt_intervals (foldl (\<lambda>t i. clear_timeout i t) t is) = wt_intervals t"
  "wt_started (foldl (\<lambda>t i. clear_timeout i t) t is) = wt_started t"
  "wt_next (foldl (\<lambda>t i. clear_timeout i t) t is) = wt_next t"
  "wt_queries (foldl (\<lambda>t i. clear_timeout i t) t is) = wt_queries t"
  "set (wt_timeouts (foldl (\<lambda>t i. clear_timeout i t) t is)) = {(j, e) \<in> set (wt_timeouts t). j \<notin> set is}"
  by (induction "is" arbitrary: t) auto

lemma stopTracking_eqs:
  "wt_waitingExecutions (stopTracking t) = wt_waitingExecutions t" "wt_mainTimer (stopTracking t) = wt_mainTimer t"
  "wt_started (stopTracking t) = wt_started t" "wt_next (stopTracking t) = wt_next t" "wt_queries (stopTracking t) = wt_queries t"
  "wt_intervals (stopTracking t) = filter (\<lambda>i. Some i \<noteq> wt_mainTimer t) (wt_intervals t)"
  "set (wt_timeouts (stopTracking t)) = {(j, e) \<in> set (wt_timeouts t).
     wt_mainTimer t = None \<or> j \<notin> ran (mget (wt_waitingExecutions t))}"
  by (auto simp: stopTracking_def Let_def clear_timeouts set_obj_values split: option.split)

text \<open>Every live timeout is the one its execution's entry holds.\<close>

definition tracker_ok :: "tracker \<Rightarrow> bool" where
  "tracker_ok t \<longleftrightarrow> (\<forall>(i, e)\<in>set (wt_timeouts t). i < wt_next t \<and> mget (wt_waitingExecutions t) e = Some i)
     \<and> (\<forall>e i. mget (wt_waitingExecutions t) e = Some i \<longrightarrow> i < wt_next t)
     \<and> (\<forall>e e' i. mget (wt_waitingExecutions t) e = Some i \<and> mget (wt_waitingExecutions t) e' = Some i \<longrightarrow> e = e')"

lemma tracker_okI:
  assumes "\<And>i e. (i, e) \<in> set (wt_timeouts t) \<Longrightarrow> i < wt_next t \<and> mget (wt_waitingExecutions t) e = Some i"
    and "\<And>e i. mget (wt_waitingExecutions t) e = Some i \<Longrightarrow> i < wt_next t"
    and "\<And>e e' i. mget (wt_waitingExecutions t) e = Some i \<Longrightarrow> mget (wt_waitingExecutions t) e' = Some i \<Longrightarrow> e = e'"
  shows "tracker_ok t"
  using assms unfolding tracker_ok_def by blast

lemma tracker_okD:
  assumes "tracker_ok t"
  shows "(i, e) \<in> set (wt_timeouts t) \<Longrightarrow> i < wt_next t" and "(i, e) \<in> set (wt_timeouts t) \<Longrightarrow> mget (wt_waitingExecutions t) e = Some i"
    and "mget (wt_waitingExecutions t) e = Some i \<Longrightarrow> i < wt_next t"
    and "mget (wt_waitingExecutions t) e = Some i \<Longrightarrow> mget (wt_waitingExecutions t) e' = Some i \<Longrightarrow> e = e'"
  using assms unfolding tracker_ok_def by blast+

lemma startTracking_ok: "tracker_ok t \<Longrightarrow> tracker_ok (startTracking t)"
  by (rule tracker_okI) (auto simp: startTracking_def open_query_def intro: less_SucI dest: tracker_okD)

lemma add_waiting_ok: "tracker_ok t \<Longrightarrow> tracker_ok (add_waiting e t)"
proof (cases "mhas (wt_waitingExecutions t) e")
  case False
  assume t: "tracker_ok t"
  have none: "mget (wt_waitingExecutions t) e = None" using False by (simp add: mhas_def)
  have fresh: "mget (wt_waitingExecutions t) e' \<noteq> Some (wt_next t)" for e' using tracker_okD(3) [OF t] by blast
  show ?thesis
  proof (rule tracker_okI)
    fix i e' assume "(i, e') \<in> set (wt_timeouts (add_waiting e t))"
    then have "(i, e') \<in> set (wt_timeouts t) \<or> i = wt_next t \<and> e' = e" using False by (auto simp: add_waiting_def)
    then show "i < wt_next (add_waiting e t) \<and> mget (wt_waitingExecutions (add_waiting e t)) e' = Some i"
      using False none tracker_okD(1,2) [OF t] by (auto simp: add_waiting_def intro: less_SucI)
  next
    fix e' i assume "mget (wt_waitingExecutions (add_waiting e t)) e' = Some i"
    then show "i < wt_next (add_waiting e t)"
      using False tracker_okD(3) [OF t] by (auto simp: add_waiting_def intro: less_SucI split: if_splits)
  next
    fix e1 e2 i
    assume "mget (wt_waitingExecutions (add_waiting e t)) e1 = Some i" "mget (wt_waitingExecutions (add_waiting e t)) e2 = Some i"
    then show "e1 = e2" using False fresh tracker_okD(4) [OF t] by (auto simp: add_waiting_def split: if_splits)
  qed
qed (simp add: add_waiting_def)

lemma got_executions_ok: "tracker_ok t \<Longrightarrow> tracker_ok (got_executions answer t)"
proof -
  assume t: "tracker_ok t"
  have "tracker_ok (foldl (\<lambda>t e. add_waiting e t) t es)" if "tracker_ok t" for t es
    using that by (induction es arbitrary: t) (simp_all add: add_waiting_ok)
  moreover have "tracker_ok (t\<lparr>wt_queries := wt_queries t - 1\<rparr>)" using t by (simp add: tracker_ok_def)
  ultimately show ?thesis by (simp add: got_executions_def Let_def split: option.split)
qed

lemma drop_entry_ok:
  assumes t: "tracker_ok t" and e: "\<And>i. (i, e) \<notin> set (wt_timeouts u)"
    and u: "set (wt_timeouts u) \<subseteq> set (wt_timeouts t)" "wt_next u = wt_next t"
      "wt_waitingExecutions u = mdel e (wt_waitingExecutions t)"
  shows "tracker_ok u"
  using tracker_okD [OF t] e u by (intro tracker_okI) (auto split: if_splits)

lemma stop_waiting_ok: "tracker_ok t \<Longrightarrow> tracker_ok (stop_waiting e t)"
proof (cases "mget (wt_waitingExecutions t) e")
  case (Some i)
  assume t: "tracker_ok t"
  show ?thesis
    by (rule drop_entry_ok [OF t, of e]) (use tracker_okD(2) [OF t] Some in \<open>auto simp: stop_waiting_def Let_def\<close>)
qed (simp add: stop_waiting_def)

lemma timeout_ok:
  assumes t: "tracker_ok t" and m: "map_of (wt_timeouts t) i = Some e"
  shows "tracker_ok (startExecution e (clear_timeout i t))"
proof (rule drop_entry_ok [OF t, of e])
  fix j
  have "j = i" if "(j, e) \<in> set (wt_timeouts t)"
    using tracker_okD(2) [OF t that] tracker_okD(2) [OF t map_of_SomeD [OF m]] by simp
  then show "(j, e) \<notin> set (wt_timeouts (startExecution e (clear_timeout i t)))" by (auto simp: startExecution_def)
qed (auto simp: startExecution_def)

lemma stopTracking_ok: "tracker_ok t \<Longrightarrow> tracker_ok (stopTracking t)"
  by (rule tracker_okI) (auto simp: stopTracking_eqs dest: tracker_okD)

definition by_timers :: "tracker_label \<Rightarrow> bool" where
  "by_timers l = (case l of StartNow e \<Rightarrow> False | _ \<Rightarrow> True)"

lemma tracker_step_ok: "tracker_ok t \<Longrightarrow> by_timers l \<Longrightarrow> tracker_step l t = Some t' \<Longrightarrow> tracker_ok t'"
proof (cases l)
  case (IntervalFires i)
  assume "tracker_ok t" "tracker_step l t = Some t'"
  then show ?thesis using IntervalFires by (auto simp: tracker_ok_def open_query_def split: if_splits)
qed (auto simp: by_timers_def startTracking_ok stopTracking_ok got_executions_ok timeout_ok stop_waiting_ok
    split: option.splits if_splits)

lemma init_tracker_ok: "tracker_ok (init_tracker b new_tracker)"
proof -
  have "tracker_ok new_tracker" by (simp add: tracker_ok_def new_tracker_def)
  then show ?thesis by (simp add: init_tracker_def startTracking_ok)
qed

lemma tracker_run_ok:
  "list_all by_timers ls \<Longrightarrow> tracker_run ls (init_tracker b new_tracker) = Some t \<Longrightarrow> tracker_ok t"
  by (rule tracker_run_keeps [of tracker_ok by_timers]) (auto intro: tracker_step_ok init_tracker_ok)

section \<open>Forgotten executions\<close>

text \<open>An entry without a live timeout: no query adds the execution again, and no timer starts it.\<close>

definition forgotten :: "string \<Rightarrow> tracker \<Rightarrow> bool" where
  "forgotten e t \<longleftrightarrow> mhas (wt_waitingExecutions t) e \<and> (\<forall>i. (i, e) \<notin> set (wt_timeouts t))"

lemma forgotten_add: "forgotten e t \<Longrightarrow> forgotten e (add_waiting e' t)"
  by (auto simp: forgotten_def add_waiting_def mhas_def)

lemma add_waiting_simps [simp]:
  "wt_started (add_waiting e t) = wt_started t" "wt_intervals (add_waiting e t) = wt_intervals t"
  "wt_mainTimer (add_waiting e t) = wt_mainTimer t"
  by (simp_all add: add_waiting_def)

lemma forgotten_step:
  assumes f: "forgotten e t" and l: "l \<noteq> StopExecution e" "l \<noteq> StartNow e" and step: "tracker_step l t = Some t'"
  shows "forgotten e t'" and "\<exists>xs. wt_started t' = wt_started t @ xs \<and> e \<notin> set xs"
proof -
  have add: "forgotten e (foldl (\<lambda>t e. add_waiting e t) t es)
      \<and> wt_started (foldl (\<lambda>t e. add_waiting e t) t es) = wt_started t" if "forgotten e t" for t es
    using that by (induction es arbitrary: t) (simp_all add: forgotten_add)
  have "forgotten e t' \<and> (\<exists>xs. wt_started t' = wt_started t @ xs \<and> e \<notin> set xs)"
  proof (cases l)
    case (QueryAnswered answer)
    have "forgotten e (t\<lparr>wt_queries := wt_queries t - 1\<rparr>)" using f by (simp add: forgotten_def)
    from add [OF this] this show ?thesis using QueryAnswered step
      by (auto simp: got_executions_def Let_def split: option.splits if_splits)
  next
    case (TimeoutFires i)
    then obtain e' where m: "map_of (wt_timeouts t) i = Some e'" and t': "t' = startExecution e' (clear_timeout i t)"
      using step by (auto split: option.splits)
    have "e' \<noteq> e" using map_of_SomeD [OF m] f by (auto simp: forgotten_def)
    then show ?thesis using f t' by (auto simp: forgotten_def startExecution_def mhas_def)
  next
    case (StopExecution e')
    then show ?thesis using f l step
      by (auto simp: forgotten_def stop_waiting_def Let_def mhas_def split: option.splits)
  next
    case (StartNow e')
    then show ?thesis using f l step by (auto simp: forgotten_def startExecution_def mhas_def)
  qed (use f step in \<open>auto simp: forgotten_def startTracking_def open_query_def stopTracking_eqs split: if_splits\<close>)
  then show "forgotten e t'" "\<exists>xs. wt_started t' = wt_started t @ xs \<and> e \<notin> set xs" by simp_all
qed

lemma forgotten_run:
  assumes "forgotten e t" and "StopExecution e \<notin> set ls" and "StartNow e \<notin> set ls" and "tracker_run ls t = Some t'"
  shows "\<exists>xs. wt_started t' = wt_started t @ xs \<and> e \<notin> set xs"
  using assms
proof (induction ls arbitrary: t)
  case (Cons l ls)
  then obtain u where u: "tracker_step l t = Some u" "tracker_run ls u = Some t'" by (auto split: option.splits)
  have l: "l \<noteq> StopExecution e" "l \<noteq> StartNow e" using Cons.prems by auto
  from forgotten_step [OF Cons.prems(1) l u(1)] obtain xs where f: "forgotten e u"
      and xs: "wt_started u = wt_started t @ xs" "e \<notin> set xs" by blast
  from Cons.IH [OF f _ _ u(2)] Cons.prems obtain ys where "wt_started t' = wt_started u @ ys" "e \<notin> set ys" by auto
  then show ?case using xs by auto
qed simp

lemma stopTracking_forgets:
  assumes "tracker_ok t" and "wt_mainTimer t \<noteq> None" and "mhas (wt_waitingExecutions t) e"
  shows "forgotten e (stopTracking t)"
  using assms tracker_okD(2) [OF assms(1)] by (auto simp: forgotten_def stopTracking_eqs ran_def)

section \<open>Tracking\<close>

definition tracking :: "bool \<Rightarrow> tracker \<Rightarrow> bool" where
  "tracking b t \<longleftrightarrow> (if b then \<exists>i. wt_mainTimer t = Some i \<and> wt_intervals t = [i] else wt_intervals t = [])"

definition role_events :: "tracker_label list \<Rightarrow> leader_event list" where
  "role_events ls = List.map_filter (\<lambda>l. case l of
     StartTracking \<Rightarrow> Some Takeover | StopTracking \<Rightarrow> Some Stepdown | _ \<Rightarrow> None) ls"

lemma init_tracking: "tracking b (init_tracker b new_tracker)"
  by (simp add: tracking_def init_tracker_def startTracking_def open_query_def new_tracker_def)

lemma got_executions_intervals:
  "wt_intervals (got_executions answer t) = wt_intervals t" "wt_mainTimer (got_executions answer t) = wt_mainTimer t"
proof -
  have "wt_intervals (foldl (\<lambda>t e. add_waiting e t) t es) = wt_intervals t
      \<and> wt_mainTimer (foldl (\<lambda>t e. add_waiting e t) t es) = wt_mainTimer t" for t es
    by (induction es arbitrary: t) simp_all
  then show "wt_intervals (got_executions answer t) = wt_intervals t" "wt_mainTimer (got_executions answer t) = wt_mainTimer t"
    by (simp_all add: got_executions_def Let_def split: option.split)
qed

lemma event_after_None [simp]: "foldl event_after None es = None"
  by (induction es) (simp_all add: event_after.simps)

lemma tracking_run:
  assumes "tracker_run ls t = Some t'" and "tracking b t" and "foldl event_after (Some b) (role_events ls) = Some b'"
  shows "tracking b' t'"
  using assms
proof (induction ls arbitrary: t b)
  case Nil
  then show ?case by (simp add: role_events_def List.map_filter_simps)
next
  case (Cons l ls)
  then obtain u where u: "tracker_step l t = Some u" "tracker_run ls u = Some t'" by (auto split: option.splits)
  have keep: "tracking b u" if "wt_intervals u = wt_intervals t" "wt_mainTimer u = wt_mainTimer t"
    using that Cons.prems(2) by (simp add: tracking_def)
  show ?case
  proof (cases l)
    case StartTracking
    then have nb: "\<not> b" using Cons.prems(3) by (cases b) (simp_all add: role_events_def List.map_filter_simps)
    then have "tracking True u"
      using StartTracking Cons.prems u by (auto simp: role_events_def List.map_filter_simps tracking_def startTracking_def open_query_def)
    with Cons.IH [OF u(2), of True] Cons.prems(3) StartTracking nb show ?thesis
      by (simp add: role_events_def List.map_filter_simps)
  next
    case StopTracking
    then have b: "b" using Cons.prems(3) by (cases b) (simp_all add: role_events_def List.map_filter_simps)
    then have "tracking False u" using StopTracking Cons.prems(2) u(1) by (auto simp: tracking_def stopTracking_eqs)
    with Cons.IH [OF u(2), of False] Cons.prems(3) StopTracking b show ?thesis
      by (simp add: role_events_def List.map_filter_simps)
  qed (use Cons.IH [OF u(2) keep] Cons.prems(3) u(1) in \<open>auto simp: role_events_def List.map_filter_simps open_query_def
      got_executions_intervals startExecution_def stop_waiting_def Let_def split: option.splits if_splits\<close>)
qed

end
