(* ===== verification/Leadership_Properties.thy ===== *)
theory Leadership_Properties
  imports Wait_Tracker
begin

text \<open>
  What the election of a leader guarantees, with and without the end of a lease, and what the leader's events make of
  the tracker of waiting executions. Then the ways in which a waiting execution is forgotten or resumed by a follower,
  and two leaders arise although no lease has ended.
\<close>

lemma reachable_run:
  "cluster_reachable P c \<Longrightarrow> list_all P ls \<Longrightarrow> cluster_run ls c = Some c' \<Longrightarrow> cluster_reachable P c'"
  by (induction ls arbitrary: c) (auto split: option.splits sum.splits intro: reach_step)

lemma reachable_init_run:
  "list_all P ls \<Longrightarrow> cluster_run ls init_cluster \<noteq> None \<Longrightarrow> cluster_reachable P (the (cluster_run ls init_cluster))"
  by (auto intro: reachable_run reach_init)

section \<open>The election\<close>

text \<open>
  C10: As long as no lease ends, at most one host leads, and it holds the key, whatever commands fail or are lost and
  whoever starts and shuts down.
\<close>

theorem one_leader_while_leases_last:
  assumes "cluster_reachable (\<lambda>l. l \<noteq> Expire) c" and "leads c g" and "leads c h"
  shows "g = h \<and> cl_key c = Some g"
  using key_ok_leads [OF ck.holds [OF assms(1)] assms(2)] key_ok_leads [OF ck.holds [OF assms(1)] assms(3)] by simp

abbreviation elect :: "host \<Rightarrow> cluster_label list" where
  "elect h \<equiv> [Start h, Execute h, Resume h]"

abbreviation check :: "host \<Rightarrow> cluster_label list" where
  "check h \<equiv> [Check h, Execute h, Resume h]"

theorem one_leader_while_leases_last_witness:
  "let c = the (cluster_run (elect ''a'' @ elect ''b'' @ check ''b'') init_cluster)
   in leads c ''a'' \<and> \<not> leads c ''b'' \<and> cl_key c = Some ''a''"
proof -
  let ?ls = "elect ''a'' @ elect ''b'' @ check ''b''"
  have r: "cluster_reachable (\<lambda>l. l \<noteq> Expire) (the (cluster_run ?ls init_cluster))"
    by (rule reachable_init_run) (simp, code_simp)
  have a: "leads (the (cluster_run ?ls init_cluster)) ''a''" by code_simp
  have "cl_key (the (cluster_run ?ls init_cluster)) = Some ''a''" using one_leader_while_leases_last [OF r a a] by simp
  moreover have "\<not> leads (the (cluster_run ?ls init_cluster)) ''b''"
  proof
    assume "leads (the (cluster_run ?ls init_cluster)) ''b''"
    from one_leader_while_leases_last [OF r a this] show False by simp
  qed
  ultimately show ?thesis using a by (simp add: Let_def)
qed

text \<open>
  C11: The election repairs itself: take a state that can be reached, with several leaders or none, in which a host holds the
  key, no host is about to clear it and the hosts in question are between checks; and a run from it in which no command is lost, no
  host shuts down and no lease ends. Once each of these hosts has made one whole check, whatever they do in between, the
  holder of the key leads and nobody else of them.
\<close>

theorem checks_settle_leadership:
  assumes reach: "cluster_reachable (\<lambda>_. True) c" and key: "cl_key c = Some h" "h \<noteq> []"
    and no_clear: "\<And>g. mh_at (cl_hosts c g) \<noteq> AtClear"
    and run: "list_all calm_label ls" "cluster_run ls c = Some c'"
    and idle: "\<And>g. g \<in> hosts \<Longrightarrow> mh_at (cl_hosts c g) = Idle"
    and checks: "\<And>g. g \<in> hosts \<Longrightarrow> \<exists>rest. filter (\<lambda>l. lhost l = g) ls = Check g # Execute g # Resume g # rest"
  shows "{g \<in> hosts. leads c' g} = hosts \<inter> {h}"
proof -
  have c: "calm h c" using ch.holds [OF reach] key(1) no_clear by (simp add: calm_def)
  have "leads c' g \<longleftrightarrow> g = h" if g: "g \<in> hosts" for g
  proof -
    from checks [OF g] obtain rest where "filter (\<lambda>l. lhost l = g) ls = Check g # Execute g # Resume g # rest" by blast
    from check_settles [OF c key(2) idle [OF g] run this] have "settled h g (cl_hosts c' g)" .
    then show ?thesis by (auto simp: leads_def settled_def)
  qed
  then show ?thesis by blast
qed

text \<open>Two leaders after the end of a lease.\<close>

definition split_brain :: "cluster_label list" where
  "split_brain = elect ''a'' @ elect ''b'' @ [Expire, Check ''b'', Execute ''b'', Resume ''b'', Execute ''b'', Resume ''b'']"

theorem checks_settle_leadership_witness:
  "let c = the (cluster_run split_brain init_cluster);
       c' = the (cluster_run [Check ''b'', Check ''a'', Execute ''a'', Execute ''b'', Resume ''a'', Resume ''b''] c)
   in leads c ''a'' \<and> leads c ''b'' \<and> {g \<in> {''a'', ''b''}. leads c' g} = {''b''}"
proof -
  let ?c = "the (cluster_run split_brain init_cluster)"
  let ?ls = "[Check ''b'', Check ''a'', Execute ''a'', Execute ''b'', Resume ''a'', Resume ''b'']"
  have others: "mh_at (cl_hosts ?c g) \<noteq> AtClear" for g
  proof (cases "g = ''a'' \<or> g = ''b''")
    case True
    have "mh_at (cl_hosts ?c ''a'') \<noteq> AtClear" "mh_at (cl_hosts ?c ''b'') \<noteq> AtClear" by code_simp+
    then show ?thesis using True by auto
  next
    case False
    have "cl_hosts ?c g = fresh_host" if "''a'' \<noteq> g" "''b'' \<noteq> g"
      using that by (simp add: split_brain_def init_cluster_def put_host_def fresh_host_def send_def resume_def resume_init_def
          takeOverAsLeader_def markAsFollower_def end_init_def end_check_def checkLeader_def resume_get_def resume_claim_def
          Let_def)
    then show ?thesis using False by (auto simp: fresh_host_def)
  qed
  have "{g \<in> {''a'', ''b''}. leads (the (cluster_run ?ls ?c)) g} = {''a'', ''b''} \<inter> {''b''}"
  proof (rule checks_settle_leadership [of ?c "''b''" ?ls])
    show "cluster_reachable (\<lambda>_. True) ?c" by (rule reachable_init_run) (simp add: list_all_iff, code_simp)
    show "cl_key ?c = Some ''b''" by code_simp
    have "cluster_run ?ls ?c \<noteq> None" by code_simp
    then show "cluster_run ?ls ?c = Some (the (cluster_run ?ls ?c))" by simp
    have "mh_at (cl_hosts ?c ''a'') = Idle" "mh_at (cl_hosts ?c ''b'') = Idle" by code_simp+
    then show "mh_at (cl_hosts ?c g) = Idle" if "g \<in> {''a'', ''b''}" for g using that by auto
  qed (use others in auto)
  moreover have "leads ?c ''a''" "leads ?c ''b''" by code_simp+
  ultimately show ?thesis by simp
qed

text \<open>
  C39: A host that has lost its lease without noticing deletes the key of the leader when it shuts down, and the next
  host that starts leads beside it, although no lease has ended.
\<close>

theorem shutdown_deletes_foreign_key:
  assumes a: "mh_at (cl_hosts c a) = Idle" "mh_role (cl_hosts c a) = Leader"
    and b: "leads c b" "cl_key c = Some b" and new: "mh_at (cl_hosts c d) = Fresh" "mh_role (cl_hosts c d) \<noteq> Leader"
    and distinct: "a \<noteq> b" "d \<noteq> a" "d \<noteq> b"
  shows "\<exists>c'. cluster_run ([Shutdown a, Execute a, Resume a] @ elect d) c = Some c' \<and> leads c' b \<and> leads c' d"
  using assms by (simp add: shutdown_host_def leads_def send_def leave_def resume_def resume_init_def takeOverAsLeader_def
      end_init_def Let_def)

theorem shutdown_deletes_foreign_key_witness:
  "let c = the (cluster_run split_brain init_cluster)
   in \<exists>c'. cluster_run ([Shutdown ''a'', Execute ''a'', Resume ''a''] @ elect ''d'') c = Some c' \<and> leads c' ''b'' \<and> leads c' ''d''"
  unfolding Let_def by (rule shutdown_deletes_foreign_key) (code_simp+)

lemma role_by_events:
  "cluster_reachable (\<lambda>_. True) c \<Longrightarrow> leads_after (mh_events (cl_hosts c h)) = Some (mh_role (cl_hosts c h) = Leader)"
  using ch.holds [of c] by (auto simp: hosts_ok_def host_ok_def)

text \<open>
  The code never takes over as a leader nor steps down as a follower: no assertion of it fails, and the events a
  host emits alternate, beginning with a takeover, and say what role it has.
\<close>

theorem roles_alternate:
  assumes "cluster_reachable (\<lambda>_. True) c"
  shows "leads_after (mh_events (cl_hosts c h)) = Some (mh_role (cl_hosts c h) = Leader)
    \<and> cluster_step l c \<noteq> Some (Inl e)"
  using role_by_events [OF assms] cluster_step_ok [OF ch.holds [OF assms], of l "Inl e"] by auto

theorem roles_alternate_witness:
  "let c = the (cluster_run (split_brain @ check ''a'') init_cluster)
   in mh_events (cl_hosts c ''a'') = [Takeover, Stepdown] \<and> leads_after (mh_events (cl_hosts c ''a'')) = Some False
    \<and> cluster_step (Check ''a'') c \<noteq> Some (Inl (AssertionError ''isLeader''))"
proof -
  let ?c = "the (cluster_run (split_brain @ check ''a'') init_cluster)"
  have r: "cluster_reachable (\<lambda>_. True) ?c" by (rule reachable_init_run) (simp add: list_all_iff, code_simp)
  have e: "mh_events (cl_hosts ?c ''a'') = [Takeover, Stepdown]" "mh_role (cl_hosts ?c ''a'') = Follower" by code_simp+
  show ?thesis unfolding Let_def
    using roles_alternate [OF r, of "''a''" "Check ''a''" "AssertionError ''isLeader''"] e by simp
qed

section \<open>Tracking by the leader\<close>

text \<open>
  C12: When all events after the start of the tracker reach it, exactly the leader polls for waiting executions, with one
  interval: \<open>ls\<close> is what the tracker does, and its starts and stops are the events of the host. An event between the look at
  the role and the registration of the handlers does not reach it, see \<open>event_before_registration_is_lost\<close>.
\<close>

theorem leader_polls:
  assumes reach: "cluster_reachable (\<lambda>_. True) c"
    and run: "tracker_run ls (init_tracker (leads_after before = Some True) new_tracker) = Some t"
    and events: "mh_events (cl_hosts c h) = before @ role_events ls"
  shows "length (wt_intervals t) = (if mh_role (cl_hosts c h) = Leader then 1 else 0)"
proof -
  have l: "leads_after (before @ role_events ls) = Some (mh_role (cl_hosts c h) = Leader)"
    using role_by_events [OF reach, of h] events by simp
  then obtain b where b: "leads_after before = Some b" by (cases "leads_after before") (auto simp: leads_after_def)
  then have "foldl event_after (Some b) (role_events ls) = Some (mh_role (cl_hosts c h) = Leader)"
    using l by (simp add: leads_after_def)
  moreover have "tracking b (init_tracker (leads_after before = Some True) new_tracker)"
    using init_tracking [of b] b by simp
  ultimately have "tracking (mh_role (cl_hosts c h) = Leader) t" using tracking_run [OF run] by blast
  then show ?thesis by (auto simp: tracking_def)
qed

theorem leader_polls_witness:
  "let c = the (cluster_run (split_brain @ check ''a'') init_cluster);
       t = the (tracker_run [QueryAnswered (Some [''x'']), StopTracking] (init_tracker True new_tracker))
   in length (wt_intervals t) = (if mh_role (cl_hosts c ''a'') = Leader then 1 else 0)"
proof -
  let ?c = "the (cluster_run (split_brain @ check ''a'') init_cluster)"
  let ?ls = "[QueryAnswered (Some [''x'']), StopTracking]"
  have r: "cluster_reachable (\<lambda>_. True) ?c" by (rule reachable_init_run) (simp add: list_all_iff, code_simp)
  have l: "leads_after [Takeover] = Some True" by (simp add: leads_after_def)
  have "tracker_run ?ls (init_tracker True new_tracker) \<noteq> None" by code_simp
  then have run: "tracker_run ?ls (init_tracker (leads_after [Takeover] = Some True) new_tracker)
      = Some (the (tracker_run ?ls (init_tracker True new_tracker)))" using l by simp
  have "mh_events (cl_hosts ?c ''a'') = [Takeover] @ role_events ?ls" by code_simp
  from leader_polls [OF r run this] show ?thesis by (simp add: Let_def)
qed

text \<open>
  An execution has at most one live timer, and after \<^verbatim>\<open>stopExecution\<close> none, as long as executions
  are only started by their timers.
\<close>

theorem one_timer_per_execution:
  assumes "list_all by_timers ls" and "tracker_run ls (init_tracker b new_tracker) = Some t"
  shows "((i, e) \<in> set (wt_timeouts t) \<and> (j, e) \<in> set (wt_timeouts t) \<longrightarrow> i = j)
    \<and> (i, e) \<notin> set (wt_timeouts (stop_waiting e t))"
proof -
  note ok = tracker_run_ok [OF assms]
  have same: "i = j" if "(i, e) \<in> set (wt_timeouts t)" "(j, e) \<in> set (wt_timeouts t)" for i j
    using tracker_okD(2) [OF ok that(1)] tracker_okD(2) [OF ok that(2)] by simp
  have "(i, e) \<notin> set (wt_timeouts (stop_waiting e t))"
    using tracker_okD(2) [OF ok, of i e] by (auto simp: stop_waiting_def Let_def split: option.split)
  with same show ?thesis by blast
qed

theorem one_timer_per_execution_witness:
  "let t = the (tracker_run [QueryAnswered (Some [''x'']), IntervalFires 0, QueryAnswered (Some [''x'', ''y''])]
       (init_tracker True new_tracker))
   in wt_timeouts t = [(1, ''x''), (2, ''y'')] \<and> (1, ''x'') \<notin> set (wt_timeouts (stop_waiting ''x'' t))"
proof -
  let ?ls = "[QueryAnswered (Some [''x'']), IntervalFires 0, QueryAnswered (Some [''x'', ''y''])]"
  have "tracker_run ?ls (init_tracker True new_tracker) \<noteq> None" by code_simp
  then have run: "tracker_run ?ls (init_tracker True new_tracker) = Some (the (tracker_run ?ls (init_tracker True new_tracker)))"
    by simp
  have "wt_timeouts (the (tracker_run ?ls (init_tracker True new_tracker))) = [(1, ''x''), (2, ''y'')]" by code_simp
  moreover have "list_all by_timers ?ls" by (simp add: by_timers_def)
  ultimately show ?thesis using one_timer_per_execution [OF _ run] unfolding Let_def by blast
qed

section \<open>Executions left behind\<close>

text \<open>
  Stepping down clears the timers of waiting executions but keeps their entries. When the host leads again, no
  query sets their timers again: whatever happens, no timer of this host starts such an execution, unless it is
  stopped or started by hand.
\<close>

theorem stepdown_forgets_waiting:
  assumes t: "list_all by_timers ls0" "tracker_run ls0 (init_tracker b new_tracker) = Some t"
    and tracking: "wt_mainTimer t \<noteq> None" and waiting: "mhas (wt_waitingExecutions t) e"
    and run: "tracker_run (StopTracking # ls) t = Some t'" and others: "StopExecution e \<notin> set ls" "StartNow e \<notin> set ls"
  shows "\<exists>xs. wt_started t' = wt_started t @ xs \<and> e \<notin> set xs"
  using forgotten_run [OF stopTracking_forgets [OF tracker_run_ok [OF t] tracking waiting] others] run
  by (simp add: stopTracking_eqs)

theorem stepdown_forgets_waiting_witness:
  "let t = the (tracker_run [QueryAnswered (Some [''x''])] (init_tracker True new_tracker));
       t' = the (tracker_run [StopTracking, StartTracking, QueryAnswered (Some [''x'']), IntervalFires 2,
          QueryAnswered (Some [''x'', ''z'']), TimeoutFires 3] t)
   in \<exists>xs. wt_started t' = wt_started t @ xs \<and> ''x'' \<notin> set xs \<and> ''z'' \<in> set xs"
proof -
  let ?t = "the (tracker_run [QueryAnswered (Some [''x''])] (init_tracker True new_tracker))"
  let ?ls = "[StartTracking, QueryAnswered (Some [''x'']), IntervalFires 2, QueryAnswered (Some [''x'', ''z'']), TimeoutFires 3]"
  let ?u = "the (tracker_run (StopTracking # ?ls) ?t)"
  have t: "tracker_run [QueryAnswered (Some [''x''])] (init_tracker True new_tracker) = Some ?t" by code_simp
  have "tracker_run (StopTracking # ?ls) ?t \<noteq> None" by code_simp
  then have u: "tracker_run (StopTracking # ?ls) ?t = Some ?u" by simp
  have l: "list_all by_timers [QueryAnswered (Some [''x''])]" by (simp add: by_timers_def)
  have w: "wt_mainTimer ?t \<noteq> None" "mhas (wt_waitingExecutions ?t) ''x''" by code_simp+
  from stepdown_forgets_waiting [OF l t w u] obtain xs where xs: "wt_started ?u = wt_started ?t @ xs" "''x'' \<notin> set xs" by auto
  have "wt_started ?t = []" "wt_started ?u = [''z'']" by code_simp+
  with xs show ?thesis by (auto simp: Let_def)
qed

text \<open>
  A query that is open when the host steps down still sets timers when it is answered, so a follower, which polls
  no longer, resumes the executions it is given.
\<close>

theorem follower_resumes_executions:
  assumes t: "list_all by_timers ls" "tracker_run ls (init_tracker b new_tracker) = Some t"
    and query: "0 < wt_queries t" and new: "\<not> mhas (wt_waitingExecutions t) e"
  shows "\<exists>i t'. tracker_run [StopTracking, QueryAnswered (Some [e]), TimeoutFires i] t = Some t'
    \<and> wt_started t' = wt_started t @ [e] \<and> wt_intervals t' = wt_intervals (stopTracking t)"
proof -
  have ok: "tracker_ok t" by (rule tracker_run_ok [OF t])
  have "(wt_next t, e') \<notin> set (wt_timeouts (stopTracking t))" for e'
    using tracker_okD(1) [OF ok] by (auto simp: stopTracking_eqs)
  then have "map_of (wt_timeouts (stopTracking t)) (wt_next t) = None" by (force simp: map_of_eq_None_iff)
  then show ?thesis using query new
    by (intro exI [of _ "wt_next t"])
      (simp add: stopTracking_eqs got_executions_def add_waiting_def mhas_def startExecution_def map_add_def)
qed

theorem follower_resumes_executions_witness:
  "\<exists>i t'. tracker_run [StopTracking, QueryAnswered (Some [''5'']), TimeoutFires i] (init_tracker True new_tracker) = Some t'
    \<and> wt_started t' = wt_started (init_tracker True new_tracker) @ [''5'']
    \<and> wt_intervals t' = wt_intervals (stopTracking (init_tracker True new_tracker))"
  by (rule follower_resumes_executions [where ls = "[]" and b = True])
    (simp_all add: init_tracker_def startTracking_def open_query_def new_tracker_def mhas_def)

text \<open>
  The handlers of the events are registered after the tracker has been initialised. A takeover in between is lost:
  the host leads and does not poll, until it has stepped down and taken over again.
\<close>

theorem event_before_registration_is_lost:
  assumes reach: "cluster_reachable (\<lambda>_. True) c" and events: "mh_events (cl_hosts c h) = before @ [Takeover]"
  shows "mh_role (cl_hosts c h) = Leader
    \<and> wt_intervals (init_tracker (leads_after before = Some True) new_tracker) = []"
proof -
  have l: "event_after (leads_after before) Takeover = Some (mh_role (cl_hosts c h) = Leader)"
    using role_by_events [OF reach, of h] events by simp
  then have "leads_after before = Some False"
    by (cases "leads_after before" rule: option.exhaust) (auto elim: event_after.elims)
  with l show ?thesis by (simp add: init_tracker_def new_tracker_def)
qed

theorem event_before_registration_is_lost_witness:
  "let c = the (cluster_run split_brain init_cluster)
   in mh_role (cl_hosts c ''b'') = Leader \<and> wt_intervals (init_tracker (leads_after [] = Some True) new_tracker) = []"
proof -
  let ?c = "the (cluster_run split_brain init_cluster)"
  have r: "cluster_reachable (\<lambda>_. True) ?c" by (rule reachable_init_run) (simp add: list_all_iff, code_simp)
  have "mh_events (cl_hosts ?c ''b'') = [] @ [Takeover]" by code_simp
  from event_before_registration_is_lost [OF r this] show ?thesis by (simp add: Let_def)
qed

end
