(* ===== verification/Augment_Object.thy ===== *)
theory Augment_Object
  imports N8n_Types
begin

text \<open>
  Augmented objects and arrays (\<^verbatim>\<open>packages/workflow/src/augment-object.ts\<close>): proxies that take the writes
  of node code and leave the data behind them as it is. Objects live in a heap, since what matters is which object a
  write reaches; proxies are cells of the heap of their own kind.
\<close>

section \<open>The heap\<close>

text \<open>A value: a primitive, a reference or a built-in function.\<close>

datatype av = Prim json | Ref nat | Builtin string

text \<open>
  A proxy of an object holds its target, \<^verbatim>\<open>newData\<close> and \<^verbatim>\<open>deletedProperties\<close>; a proxy of an array its
  target and the copy it has made, if any. A hole of an array is \<^verbatim>\<open>undefined\<close>, other keys of arrays than
  indices and \<^verbatim>\<open>length\<close> are not modelled, nor prototypes and freezing; neither are methods \<^verbatim>\<open>toJSON\<close> and objects like dates, which
  are passed on as copies.
\<close>

datatype cell =
    PlainObj "av obj"
  | PlainArr "av list"
  | ProxyObj nat "av obj" "string list"
  | ProxyArr nat "av list option"

type_synonym heap = "cell list"

abbreviation Undef :: av where "Undef \<equiv> Prim JUndef"

definition obj_read :: "av obj \<Rightarrow> string \<Rightarrow> av" where
  "obj_read fs key = (case mget fs key of None \<Rightarrow> Undef | Some v \<Rightarrow> v)"

definition arr_read :: "av list \<Rightarrow> string \<Rightarrow> av" where
  "arr_read xs key =
     (if key = ''length'' then Prim (JNum (of_nat (length xs)))
      else if is_array_index key then (case arr_get xs (parse_nat key) of None \<Rightarrow> Undef | Some v \<Rightarrow> v)
      else Undef)"

definition pad :: "nat \<Rightarrow> av list \<Rightarrow> av list" where
  "pad n xs = xs @ replicate (n - length xs) Undef"

definition arr_write :: "string \<Rightarrow> av \<Rightarrow> av list \<Rightarrow> av list" where
  "arr_write key v xs =
     (if key = ''length'' then (case v of Prim (JNum r) \<Rightarrow> take (nat \<lfloor>r\<rfloor>) (pad (nat \<lfloor>r\<rfloor>) xs) | _ \<Rightarrow> xs)
      else if is_array_index key then (pad (Suc (parse_nat key)) xs)[parse_nat key := v]
      else xs)"

definition arr_remove :: "string \<Rightarrow> av list \<Rightarrow> av list" where
  "arr_remove key xs = (if is_array_index key then xs[parse_nat key := Undef] else xs)"

text \<open>Properties of the target of a proxy, which is not a proxy itself.\<close>

definition plain_fields :: "heap \<Rightarrow> nat \<Rightarrow> av obj" where
  "plain_fields h a = (case arr_get h a of Some (PlainObj fs) \<Rightarrow> fs | _ \<Rightarrow> [])"

definition plain_items :: "heap \<Rightarrow> nat \<Rightarrow> av list" where
  "plain_items h a = (case arr_get h a of Some (PlainArr xs) \<Rightarrow> xs | _ \<Rightarrow> [])"

section \<open>Augmenting\<close>

definition alloc :: "cell \<Rightarrow> heap \<Rightarrow> av \<times> heap" where
  "alloc c h = (Ref (length h), h @ [c])"

definition augment :: "av \<Rightarrow> heap \<Rightarrow> av \<times> heap" where
  "augment v h = (case v of
      Ref a \<Rightarrow> (case arr_get h a of
          Some (PlainObj fs) \<Rightarrow> alloc (ProxyObj a [] []) h
        | Some (PlainArr xs) \<Rightarrow> alloc (ProxyArr a None) h
        | _ \<Rightarrow> (v, h))
    | _ \<Rightarrow> (v, h))"

definition getData :: "heap \<Rightarrow> nat \<Rightarrow> av list option \<Rightarrow> av list" where
  "getData h t newData = (case newData of None \<Rightarrow> plain_items h t | Some xs \<Rightarrow> xs)"

section \<open>The traps\<close>

definition obj_get :: "nat \<Rightarrow> nat \<Rightarrow> av obj \<Rightarrow> string list \<Rightarrow> string \<Rightarrow> heap \<Rightarrow> av \<times> heap" where
  "obj_get a t newData deleted key h =
     (if key = ''constructor'' then (Builtin ''Object'', h)
      else if key \<in> set deleted then (Undef, h)
      else if mhas newData key then (obj_read newData key, h)
      else let value = obj_read (plain_fields h t) key; (newValue, h') = augment value h in
        if newValue \<noteq> value then (newValue, h'[a := ProxyObj t (mset_at key newValue newData) deleted])
        else (value, h'))"

definition arr_get_trap :: "nat \<Rightarrow> nat \<Rightarrow> av list option \<Rightarrow> string \<Rightarrow> heap \<Rightarrow> av \<times> heap" where
  "arr_get_trap a t newData key h =
     (if key = ''constructor'' then (Builtin ''Array'', h)
      else let value = arr_read (getData h t newData) key; (newValue, h') = augment value h in
        if newValue \<noteq> value then (newValue, h'[a := ProxyArr t (Some (arr_write key newValue (getData h t newData)))])
        else (value, h'))"

definition obj_set :: "nat \<Rightarrow> nat \<Rightarrow> av obj \<Rightarrow> string list \<Rightarrow> string \<Rightarrow> av \<Rightarrow> heap \<Rightarrow> heap" where
  "obj_set a t newData deleted key newValue h =
     (if newValue = Undef then
        h[a := ProxyObj t (mdel key newData) (if mhas (plain_fields h t) key then sadd key deleted else deleted)]
      else h[a := ProxyObj t (mset_at key newValue newData) (filter (\<lambda>k. k \<noteq> key) deleted)])"

definition obj_delete :: "nat \<Rightarrow> nat \<Rightarrow> av obj \<Rightarrow> string list \<Rightarrow> string \<Rightarrow> heap \<Rightarrow> heap" where
  "obj_delete a t newData deleted key h =
     h[a := ProxyObj t (mdel key newData) (if mhas (plain_fields h t) key then sadd key deleted else deleted)]"

definition obj_has :: "heap \<Rightarrow> nat \<Rightarrow> av obj \<Rightarrow> string list \<Rightarrow> string \<Rightarrow> bool" where
  "obj_has h t newData deleted key = (key \<notin> set deleted \<and> (mhas newData key \<or> mhas (plain_fields h t) key))"

definition obj_ownKeys :: "heap \<Rightarrow> nat \<Rightarrow> av obj \<Rightarrow> string list \<Rightarrow> string list" where
  "obj_ownKeys h t newData deleted =
     filter (\<lambda>key. key \<notin> set deleted) (mk_set (obj_keys (plain_fields h t) @ obj_keys newData))"

definition obj_descriptor :: "heap \<Rightarrow> nat \<Rightarrow> av obj \<Rightarrow> string list \<Rightarrow> string \<Rightarrow> av option" where
  "obj_descriptor h t newData deleted key =
     (if key \<in> set deleted then None
      else if mhas newData key then mget newData key else mget (plain_fields h t) key)"

definition arr_set :: "nat \<Rightarrow> nat \<Rightarrow> av list option \<Rightarrow> string \<Rightarrow> av \<Rightarrow> heap \<Rightarrow> heap" where
  "arr_set a t newData key v h =
     (let (newValue, h') = augment v h in h'[a := ProxyArr t (Some (arr_write key newValue (getData h t newData)))])"

definition arr_delete :: "nat \<Rightarrow> nat \<Rightarrow> av list option \<Rightarrow> string \<Rightarrow> heap \<Rightarrow> heap" where
  "arr_delete a t newData key h = h[a := ProxyArr t (Some (arr_remove key (getData h t newData)))]"

section \<open>Reading and writing by reference\<close>

text \<open>What \<^verbatim>\<open>a[key]\<close>, \<^verbatim>\<open>a[key] = v\<close> and \<^verbatim>\<open>delete a[key]\<close> do.\<close>

definition read_prop :: "nat \<Rightarrow> string \<Rightarrow> heap \<Rightarrow> av \<times> heap" where
  "read_prop a key h = (case arr_get h a of
      Some (PlainObj fs) \<Rightarrow> (obj_read fs key, h)
    | Some (PlainArr xs) \<Rightarrow> (arr_read xs key, h)
    | Some (ProxyObj t newData deleted) \<Rightarrow> obj_get a t newData deleted key h
    | Some (ProxyArr t newData) \<Rightarrow> arr_get_trap a t newData key h
    | None \<Rightarrow> (Undef, h))"

definition write_prop :: "nat \<Rightarrow> string \<Rightarrow> av \<Rightarrow> heap \<Rightarrow> heap" where
  "write_prop a key v h = (case arr_get h a of
      Some (PlainObj fs) \<Rightarrow> h[a := PlainObj (mset_at key v fs)]
    | Some (PlainArr xs) \<Rightarrow> h[a := PlainArr (arr_write key v xs)]
    | Some (ProxyObj t newData deleted) \<Rightarrow> obj_set a t newData deleted key v h
    | Some (ProxyArr t newData) \<Rightarrow> arr_set a t newData key v h
    | None \<Rightarrow> h)"

definition delete_prop :: "nat \<Rightarrow> string \<Rightarrow> heap \<Rightarrow> heap" where
  "delete_prop a key h = (case arr_get h a of
      Some (PlainObj fs) \<Rightarrow> h[a := PlainObj (mdel key fs)]
    | Some (PlainArr xs) \<Rightarrow> h[a := PlainArr (arr_remove key xs)]
    | Some (ProxyObj t newData deleted) \<Rightarrow> obj_delete a t newData deleted key h
    | Some (ProxyArr t newData) \<Rightarrow> arr_delete a t newData key h
    | None \<Rightarrow> h)"

text \<open>
  The descriptor trap of an array: before the first copy that of the array behind it, and after it the length of the
  copy, but of every other key still the descriptor of the array behind it.
\<close>

definition arr_own :: "av list \<Rightarrow> string \<Rightarrow> av option" where
  "arr_own xs key =
     (if key = ''length'' then Some (Prim (JNum (of_nat (length xs))))
      else if is_array_index key then arr_get xs (parse_nat key) else None)"

definition arr_descriptor :: "heap \<Rightarrow> nat \<Rightarrow> av list option \<Rightarrow> string \<Rightarrow> av option" where
  "arr_descriptor h t newData key = (case newData of
      None \<Rightarrow> arr_own (plain_items h t) key
    | Some xs \<Rightarrow>
        if key = ''length'' then arr_own xs key
        else case arr_own (plain_items h t) key of None \<Rightarrow> Some Undef | Some v \<Rightarrow> Some v)"

definition describe_prop :: "nat \<Rightarrow> string \<Rightarrow> heap \<Rightarrow> av option" where
  "describe_prop a key h = (case arr_get h a of
      Some (PlainObj fs) \<Rightarrow> mget fs key
    | Some (PlainArr xs) \<Rightarrow> arr_own xs key
    | Some (ProxyObj t newData deleted) \<Rightarrow> obj_descriptor h t newData deleted key
    | Some (ProxyArr t newData) \<Rightarrow> arr_descriptor h t newData key
    | None \<Rightarrow> None)"

text \<open>
  \<^verbatim>\<open>Object.defineProperty(a, key, { value: v, ... })\<close>: the proxies have no trap for it, so it is done to the
  object or array behind them. Nor have they traps for setting the prototype and for freezing, which reach the data
  in the same way; prototypes and frozen objects are not part of the heap.
\<close>

definition define_plain :: "nat \<Rightarrow> string \<Rightarrow> av \<Rightarrow> heap \<Rightarrow> heap" where
  "define_plain t key v h = (case arr_get h t of
      Some (PlainObj fs) \<Rightarrow> h[t := PlainObj (mset_at key v fs)]
    | Some (PlainArr xs) \<Rightarrow> h[t := PlainArr (arr_write key v xs)]
    | _ \<Rightarrow> h)"

definition define_prop :: "nat \<Rightarrow> string \<Rightarrow> av \<Rightarrow> heap \<Rightarrow> heap" where
  "define_prop a key v h = (case arr_get h a of
      Some (ProxyObj t newData deleted) \<Rightarrow> define_plain t key v h
    | Some (ProxyArr t newData) \<Rightarrow> define_plain t key v h
    | _ \<Rightarrow> define_plain a key v h)"

section \<open>Node code\<close>

text \<open>
  Code that is given an augmented value: it holds references, reads and writes through them, and makes objects and
  arrays of its own. \<open>Put\<close> assigns a held reference, \<open>PutPrim\<close> a primitive; \<open>Describe\<close> asks for the
  descriptor of a property, \<open>Define\<close> defines one with a held reference as its value.
\<close>

datatype code_op =
    Read nat string | Put nat string nat | PutPrim nat string json | Delete nat string | NewObject | NewArray
  | Describe nat string | Define nat string nat

definition hold :: "av \<Rightarrow> nat set \<Rightarrow> nat set" where
  "hold v held = (case v of Ref b \<Rightarrow> insert b held | _ \<Rightarrow> held)"

text \<open>\<open>None\<close> when the code uses a reference it does not hold.\<close>

fun code_step :: "code_op \<Rightarrow> heap \<times> nat set \<Rightarrow> (heap \<times> nat set) option" where
  "code_step (Read a key) (h, held) =
     (if a \<in> held then (let (v, h') = read_prop a key h in Some (h', hold v held)) else None)"
| "code_step (Put a key b) (h, held) =
     (if a \<in> held \<and> b \<in> held then Some (write_prop a key (Ref b) h, held) else None)"
| "code_step (PutPrim a key v) (h, held) =
     (if a \<in> held then Some (write_prop a key (Prim v) h, held) else None)"
| "code_step (Delete a key) (h, held) = (if a \<in> held then Some (delete_prop a key h, held) else None)"
| "code_step NewObject (h, held) = Some (h @ [PlainObj []], insert (length h) held)"
| "code_step NewArray (h, held) = Some (h @ [PlainArr []], insert (length h) held)"
| "code_step (Describe a key) (h, held) =
     (if a \<in> held then Some (h, case describe_prop a key h of None \<Rightarrow> held | Some v \<Rightarrow> hold v held) else None)"
| "code_step (Define a key b) (h, held) =
     (if a \<in> held \<and> b \<in> held then Some (define_prop a key (Ref b) h, held) else None)"

fun code_run :: "code_op list \<Rightarrow> heap \<times> nat set \<Rightarrow> (heap \<times> nat set) option" where
  "code_run [] s = Some s"
| "code_run (op # ops) s = (case code_step op s of None \<Rightarrow> None | Some s' \<Rightarrow> code_run ops s')"

text \<open>The code is started with the augmented value of a reference.\<close>

definition start_code :: "nat \<Rightarrow> heap \<Rightarrow> heap \<times> nat set" where
  "start_code r h = (let (v, h') = augment (Ref r) h in (h', hold v {}))"

section \<open>Isolation\<close>

text \<open>References below \<open>n\<close> are those of the data; own cells hold no such reference, except in the copies of arrays.\<close>

definition own :: "nat \<Rightarrow> av \<Rightarrow> bool" where
  "own n v = (case v of Ref b \<Rightarrow> n \<le> b | _ \<Rightarrow> True)"

definition plain_cell :: "cell \<Rightarrow> bool" where
  "plain_cell c = (case c of PlainObj fs \<Rightarrow> True | PlainArr xs \<Rightarrow> True | _ \<Rightarrow> False)"

definition cell_ok :: "nat \<Rightarrow> cell \<Rightarrow> bool" where
  "cell_ok n c = (case c of
      PlainObj fs \<Rightarrow> \<forall>v\<in>snd ` set fs. own n v
    | PlainArr xs \<Rightarrow> \<forall>v\<in>set xs. own n v
    | ProxyObj t newData deleted \<Rightarrow> \<forall>v\<in>snd ` set newData. own n v
    | ProxyArr t newData \<Rightarrow> True)"

definition heap_ok :: "heap \<Rightarrow> heap \<Rightarrow> bool" where
  "heap_ok h0 h \<longleftrightarrow> list_all plain_cell h0 \<and> take (length h0) h = h0 \<and> length h0 \<le> length h
     \<and> (\<forall>i<length h. length h0 \<le> i \<longrightarrow> cell_ok (length h0) (h ! i))"

lemma own_simps [simp]: "own n (Prim v)" "own n (Builtin f)" "own n (Ref b) \<longleftrightarrow> n \<le> b"
  by (simp_all add: own_def)

lemma heap_ok_old: "heap_ok h0 h \<Longrightarrow> a < length h0 \<Longrightarrow> h ! a = h0 ! a"
  unfolding heap_ok_def by (metis nth_take)

lemma heap_ok_append: "heap_ok h0 h \<Longrightarrow> cell_ok (length h0) c \<Longrightarrow> heap_ok h0 (h @ [c])"
  by (auto simp: heap_ok_def nth_append)

lemma heap_ok_update:
  assumes "heap_ok h0 h" and "length h0 \<le> a" and "cell_ok (length h0) c"
  shows "heap_ok h0 (h[a := c])"
  using assms by (cases "a < length h") (auto simp: heap_ok_def nth_list_update)

lemma augment_ok:
  assumes "heap_ok h0 h" and "augment v h = (v', h')"
  shows "heap_ok h0 h'" and "own (length h0) v'"
proof -
  have plain: "plain_cell (h ! a)" if "a < length h0" for a
    using heap_ok_old [OF assms(1) that] assms(1) that by (auto simp: heap_ok_def list_all_length)
  have len: "length h0 \<le> length h" using assms(1) by (simp add: heap_ok_def)
  show "heap_ok h0 h'"
    using assms by (auto simp: augment_def alloc_def cell_ok_def intro!: heap_ok_append split: av.splits option.splits cell.splits)
  show "own (length h0) v'"
  proof (cases v)
    case (Ref a)
    show ?thesis
    proof (cases "a < length h0")
      case True
      then have "arr_get h a = Some (h ! a)" using len by (simp add: arr_get_Some)
      then show ?thesis using assms(2) Ref plain [OF True] len
        by (cases "h ! a") (auto simp: augment_def alloc_def plain_cell_def)
    next
      case False
      then show ?thesis using assms(2) Ref len
        by (auto simp: augment_def alloc_def split: option.splits cell.splits)
    qed
  qed (use assms(2) in \<open>auto simp: augment_def\<close>)
qed

lemma own_obj_read: "(\<And>v. v \<in> snd ` set fs \<Longrightarrow> own n v) \<Longrightarrow> own n (obj_read fs key)"
  by (force simp: obj_read_def split: option.split dest: map_of_SomeD)

lemma own_arr_read: "(\<And>v. v \<in> set xs \<Longrightarrow> own n v) \<Longrightarrow> own n (arr_read xs key)"
  by (auto simp: arr_read_def arr_get_Some split: option.split)

lemma set_arr_write: "set (arr_write key v xs) \<subseteq> insert v (insert Undef (set xs))"
proof -
  have pad: "set (pad m xs) \<subseteq> insert Undef (set xs)" for m by (auto simp: pad_def)
  have "set (take m (pad m xs)) \<subseteq> insert Undef (set xs)" for m
    by (rule subset_trans [OF set_take_subset pad])
  moreover have "set ((pad m xs)[k := v]) \<subseteq> insert v (insert Undef (set xs))" for m k
    by (rule subset_trans [OF set_update_subset_insert insert_mono [OF pad]])
  ultimately show ?thesis unfolding arr_write_def by (auto split: av.splits json.splits)
qed

lemma set_arr_remove: "set (arr_remove key xs) \<subseteq> insert Undef (set xs)"
  using set_update_subset_insert [of xs "parse_nat key" Undef] by (auto simp: arr_remove_def)

lemma cell_at: "heap_ok h0 h \<Longrightarrow> length h0 \<le> a \<Longrightarrow> arr_get h a = Some c \<Longrightarrow> cell_ok (length h0) c"
  by (auto simp: heap_ok_def arr_get_Some)

lemma own_values_set: "(\<forall>v\<in>snd ` set fs. own n v) \<Longrightarrow> own n v \<Longrightarrow> \<forall>v\<in>snd ` set (mset_at key v fs). own n v"
  using values_set_subset [of key v fs] by blast

lemma set_mdel: "set (mdel key fs) \<subseteq> set fs"
  by (induction fs) auto

lemma own_values_del: "(\<forall>v\<in>snd ` set fs. own n v) \<Longrightarrow> \<forall>v\<in>snd ` set (mdel key fs). own n v"
  by (induction fs) auto

lemma read_prop_ok:
  assumes ok: "heap_ok h0 h" and a: "length h0 \<le> a" and r: "read_prop a key h = (v, h')"
  shows "heap_ok h0 h' \<and> own (length h0) v"
proof (cases "arr_get h a")
  case None
  then show ?thesis using r ok by (auto simp: read_prop_def)
next
  case (Some c)
  note c = cell_at [OF ok a Some]
  show ?thesis
  proof (cases c)
    case (PlainObj fs)
    then show ?thesis using r ok Some c by (auto simp: read_prop_def cell_ok_def intro!: own_obj_read)
  next
    case (PlainArr xs)
    then show ?thesis using r ok Some c by (auto simp: read_prop_def cell_ok_def intro!: own_arr_read)
  next
    case (ProxyObj t nd del)
    then have get: "obj_get a t nd del key h = (v, h')" using r Some by (simp add: read_prop_def)
    obtain v1 h1 where aug: "augment (obj_read (plain_fields h t) key) h = (v1, h1)" by fastforce
    note aok = augment_ok [OF ok aug]
    have nd: "\<forall>v\<in>snd ` set nd. own (length h0) v" using c ProxyObj by (simp add: cell_ok_def)
    have upd: "heap_ok h0 (h1[a := ProxyObj t (mset_at key v1 nd) del])"
    proof (rule heap_ok_update [OF aok(1) a])
      show "cell_ok (length h0) (ProxyObj t (mset_at key v1 nd) del)"
        unfolding cell_ok_def cell.case by (rule own_values_set [OF nd aok(2)])
    qed
    show ?thesis using get ok aok nd upd
      by (auto simp: obj_get_def aug Let_def intro: own_obj_read split: if_splits)
  next
    case (ProxyArr t nd)
    then have get: "arr_get_trap a t nd key h = (v, h')" using r Some by (simp add: read_prop_def)
    obtain v1 h1 where aug: "augment (arr_read (getData h t nd) key) h = (v1, h1)" by fastforce
    note aok = augment_ok [OF ok aug]
    have upd: "heap_ok h0 (h1[a := ProxyArr t x])" for x
      by (rule heap_ok_update [OF aok(1) a]) (simp add: cell_ok_def)
    show ?thesis using get ok aok upd by (auto simp: arr_get_trap_def aug Let_def split: if_splits)
  qed
qed

lemma write_prop_ok:
  assumes ok: "heap_ok h0 h" and a: "length h0 \<le> a" and v: "own (length h0) v"
  shows "heap_ok h0 (write_prop a key v h)"
proof (cases "arr_get h a")
  case (Some c)
  note c = cell_at [OF ok a Some]
  show ?thesis
  proof (cases c)
    case (PlainObj fs)
    have "\<forall>w\<in>snd ` set (mset_at key v fs). own (length h0) w"
      by (rule own_values_set [OF _ v]) (use c PlainObj in \<open>simp add: cell_ok_def\<close>)
    then have "cell_ok (length h0) (PlainObj (mset_at key v fs))" unfolding cell_ok_def cell.case .
    from heap_ok_update [OF ok a this] show ?thesis using Some PlainObj by (simp add: write_prop_def)
  next
    case (PlainArr xs)
    have "\<forall>w\<in>set (arr_write key v xs). own (length h0) w"
      using set_arr_write [of key v xs] c v PlainArr by (auto simp: cell_ok_def)
    then have "cell_ok (length h0) (PlainArr (arr_write key v xs))" unfolding cell_ok_def cell.case .
    from heap_ok_update [OF ok a this] show ?thesis using Some PlainArr by (simp add: write_prop_def)
  next
    case (ProxyObj t nd del)
    then have nd: "\<forall>v\<in>snd ` set nd. own (length h0) v" using c by (simp add: cell_ok_def)
    have "cell_ok (length h0) (ProxyObj t (mset_at key v nd) x)" for x
      unfolding cell_ok_def cell.case by (rule own_values_set [OF nd v])
    moreover have "cell_ok (length h0) (ProxyObj t (mdel key nd) x)" for x
      unfolding cell_ok_def cell.case by (rule own_values_del [OF nd])
    ultimately have "heap_ok h0 (h[a := ProxyObj t (mset_at key v nd) x])" "heap_ok h0 (h[a := ProxyObj t (mdel key nd) x])" for x
      by (simp_all add: heap_ok_update [OF ok a])
    then show ?thesis using Some ProxyObj by (simp add: write_prop_def obj_set_def)
  next
    case (ProxyArr t nd)
    obtain v1 h1 where aug: "augment v h = (v1, h1)" by fastforce
    show ?thesis using Some ProxyArr
      by (auto simp: write_prop_def arr_set_def aug cell_ok_def intro!: heap_ok_update [OF augment_ok(1) [OF ok aug] a])
  qed
qed (simp add: write_prop_def ok)

lemma delete_prop_ok:
  assumes ok: "heap_ok h0 h" and a: "length h0 \<le> a"
  shows "heap_ok h0 (delete_prop a key h)"
proof (cases "arr_get h a")
  case (Some c)
  note c = cell_at [OF ok a Some]
  show ?thesis
  proof (cases c)
    case (PlainArr xs)
    have "\<forall>w\<in>set (arr_remove key xs). own (length h0) w"
      using set_arr_remove [of key xs] c PlainArr by (auto simp: cell_ok_def)
    then show ?thesis using Some PlainArr by (auto simp: delete_prop_def cell_ok_def intro!: heap_ok_update [OF ok a])
  qed (use Some c in \<open>auto simp: delete_prop_def obj_delete_def arr_delete_def cell_ok_def
      intro!: heap_ok_update [OF ok a] dest!: subsetD [OF set_mdel]\<close>)
qed (simp add: delete_prop_def ok)

definition isolated :: "heap \<Rightarrow> heap \<times> nat set \<Rightarrow> bool" where
  "isolated h0 s \<longleftrightarrow> heap_ok h0 (fst s) \<and> snd s \<subseteq> {length h0..}"

lemma isolated_hold: "heap_ok h0 h \<Longrightarrow> held \<subseteq> {length h0..} \<Longrightarrow> own (length h0) v \<Longrightarrow> isolated h0 (h, hold v held)"
  by (auto simp: isolated_def hold_def split: av.split)

text \<open>The operations that do not go through what the traps keep apart.\<close>

definition bypasses :: "code_op \<Rightarrow> bool" where
  "bypasses op = (case op of Describe a key \<Rightarrow> True | Define a key b \<Rightarrow> True | _ \<Rightarrow> False)"

lemma code_step_isolated:
  assumes "isolated h0 s" and "code_step op s = Some s'" and "\<not> bypasses op"
  shows "isolated h0 s'"
proof -
  obtain h held where s: "s = (h, held)" by (cases s)
  have ok: "heap_ok h0 h" and held: "held \<subseteq> {length h0..}" using assms(1) by (simp_all add: isolated_def s)
  have len: "length h0 \<le> length h" using ok by (simp add: heap_ok_def)
  show ?thesis
  proof (cases op)
    case (Read a key)
    obtain v h' where r: "read_prop a key h = (v, h')" by fastforce
    have a: "length h0 \<le> a" and s': "s' = (h', hold v held)" using assms(2) s Read r held by (auto split: if_splits)
    show ?thesis unfolding s' using read_prop_ok [OF ok a r] held by (auto intro: isolated_hold)
  next
    case (Put a key b)
    then have "length h0 \<le> a" "length h0 \<le> b" "s' = (write_prop a key (Ref b) h, held)"
      using assms(2) s held by (auto split: if_splits)
    then show ?thesis using write_prop_ok [OF ok, of a "Ref b"] held by (simp add: isolated_def)
  next
    case (PutPrim a key v)
    then have "length h0 \<le> a" "s' = (write_prop a key (Prim v) h, held)" using assms(2) s held by (auto split: if_splits)
    then show ?thesis using write_prop_ok [OF ok, of a "Prim v"] held by (simp add: isolated_def)
  next
    case (Delete a key)
    then have "length h0 \<le> a" "s' = (delete_prop a key h, held)" using assms(2) s held by (auto split: if_splits)
    then show ?thesis using delete_prop_ok [OF ok] held by (simp add: isolated_def)
  next
    case NewObject
    then show ?thesis using assms(2) s ok held len heap_ok_append [OF ok, of "PlainObj []"]
      by (auto simp: isolated_def cell_ok_def)
  next
    case NewArray
    then show ?thesis using assms(2) s ok held len heap_ok_append [OF ok, of "PlainArr []"]
      by (auto simp: isolated_def cell_ok_def)
  next
    case (Describe a key)
    then show ?thesis using assms(3) by (simp add: bypasses_def)
  next
    case (Define a key b)
    then show ?thesis using assms(3) by (simp add: bypasses_def)
  qed
qed

lemma code_run_isolated:
  "isolated h0 s \<Longrightarrow> code_run ops s = Some s' \<Longrightarrow> list_all (\<lambda>op. \<not> bypasses op) ops \<Longrightarrow> isolated h0 s'"
  by (induction ops arbitrary: s) (auto split: option.splits intro: code_step_isolated)

lemma start_code_isolated:
  assumes "list_all plain_cell h0"
  shows "isolated h0 (start_code r h0)"
proof -
  have ok: "heap_ok h0 h0" using assms by (auto simp: heap_ok_def)
  obtain v h where a: "augment (Ref r) h0 = (v, h)" by fastforce
  show ?thesis using augment_ok [OF ok a] a by (simp add: start_code_def isolated_hold)
qed

section \<open>The view of an object\<close>

lemma obj_keys_has: "key \<in> set (obj_ownKeys h t nd del) \<longleftrightarrow> obj_has h t nd del key"
  by (auto simp: obj_ownKeys_def obj_has_def mhas_iff)

lemma plain_fields_update: "plain_fields (h[a := ProxyObj x y z]) t = (if t = a then [] else plain_fields h t) \<or> length h \<le> a"
  by (auto simp: plain_fields_def arr_get_def nth_list_update)

end
