(* ===== verification/Augment_Properties.thy ===== *)
theory Augment_Properties
  imports Augment_Object
begin

text \<open>
  What augmented data guarantees: node code cannot change the data behind it, and sees its own writes; and the way
  around it.
\<close>

text \<open>
  C13: Code that is given an augmented value, and that reads, assigns, deletes and builds objects and arrays of its own,
  leaves the data as it is and never comes to hold a reference into the data, whatever the order of these operations. It
  may not ask for the descriptor of a property nor define one, which reach the data (see below).
\<close>

theorem augment_isolates:
  assumes data: "list_all plain_cell data" and run: "code_run ops (start_code r data) = Some (h, held)"
    and ops: "list_all (\<lambda>op. \<not> bypasses op) ops"
  shows "take (length data) h = data \<and> held \<inter> {..<length data} = {}"
  using code_run_isolated [OF start_code_isolated [OF data] run ops] by (auto simp: isolated_def heap_ok_def)

theorem augment_isolates_witness:
  "let data = [PlainObj [(''json'', Ref 1)], PlainObj [(''x'', Prim (JNum 1))]];
       (h, held) = the (code_run [Read 2 ''json'', PutPrim 3 ''x'' (JNum 9), NewObject, Put 3 ''y'' 4, Delete 2 ''json''] (start_code 0 data))
   in take 2 h = data \<and> h ! 3 = ProxyObj 1 [(''x'', Prim (JNum 9)), (''y'', Ref 4)] [] \<and> held \<inter> {..<2} = {}"
proof -
  let ?data = "[PlainObj [(''json'', Ref 1)], PlainObj [(''x'', Prim (JNum 1))]]"
  let ?ops = "[Read 2 ''json'', PutPrim 3 ''x'' (JNum 9), NewObject, Put 3 ''y'' 4, Delete 2 ''json'']"
  let ?s = "the (code_run ?ops (start_code 0 ?data))"
  have "code_run ?ops (start_code 0 ?data) \<noteq> None" by code_simp
  then have run: "code_run ?ops (start_code 0 ?data) = Some (fst ?s, snd ?s)" by simp
  have "list_all plain_cell ?data" "list_all (\<lambda>op. \<not> bypasses op) ?ops" by (simp_all add: plain_cell_def bypasses_def)
  note safe = augment_isolates [OF this(1) run this(2)]
  have "fst ?s ! 3 = ProxyObj 1 [(''x'', Prim (JNum 9)), (''y'', Ref 4)] []" by code_simp
  with safe show ?thesis by (simp add: Let_def split_beta numeral_2_eq_2)
qed

text \<open>
  The descriptor of a property of an augmented object carries the value of the data itself: through it, code
  reaches the nested object behind the proxy and changes the data.
\<close>

theorem descriptor_leaks_data:
  assumes data: "arr_get data r = Some (PlainObj fs)" "mget fs k = Some (Ref b)" "arr_get data b = Some (PlainObj gs)"
  shows "\<exists>h held. code_run [Describe (length data) k, PutPrim b key v] (start_code r data) = Some (h, held)
    \<and> h ! b = PlainObj (mset_at key (Prim v) gs)"
proof -
  have r: "r < length data" "data ! r = PlainObj fs" and b: "b < length data" "data ! b = PlainObj gs"
    using data by (simp_all add: arr_get_Some)
  have start: "start_code r data = (data @ [ProxyObj r [] []], {length data})"
    by (simp add: start_code_def augment_def data(1) alloc_def hold_def)
  have old: "arr_get (data @ [c]) i = arr_get data i" if "i < length data" for c i
    using that by (simp add: arr_get_def nth_append)
  have new: "arr_get (data @ [c]) (length data) = Some c" for c by (simp add: arr_get_def)
  have "describe_prop (length data) k (data @ [ProxyObj r [] []]) = Some (Ref b)"
    using data by (simp add: describe_prop_def new obj_descriptor_def plain_fields_def old r mhas_def)
  then show ?thesis
    using data b by (simp add: start hold_def write_prop_def old)
qed

theorem descriptor_leaks_data_witness:
  "\<exists>h held. code_run [Describe 2 ''json'', PutPrim 1 ''x'' (JNum 9)]
       (start_code 0 [PlainObj [(''json'', Ref 1)], PlainObj [(''x'', Prim (JNum 1))]]) = Some (h, held)
    \<and> h ! 1 = PlainObj (mset_at ''x'' (Prim (JNum 9)) [(''x'', Prim (JNum 1))])"
  using descriptor_leaks_data [of "[PlainObj [(''json'', Ref 1)], PlainObj [(''x'', Prim (JNum 1))]]" 0 "[(''json'', Ref 1)]" "''json''" 1
      "[(''x'', Prim (JNum 1))]" "''x''" "JNum 9"]
  by (simp add: arr_get_def numeral_2_eq_2)

text \<open>
  Defining a property of an augmented object changes the object behind the proxy: there is no trap for it.
\<close>

theorem defining_changes_data:
  assumes data: "arr_get data r = Some (PlainObj fs)"
  shows "\<exists>h held. code_run [NewObject, Define (length data) k (Suc (length data))] (start_code r data) = Some (h, held)
    \<and> h ! r = PlainObj (mset_at k (Ref (Suc (length data))) fs)"
proof -
  have r: "r < length data" using data by (simp add: arr_get_Some)
  have start: "start_code r data = (data @ [ProxyObj r [] []], {length data})"
    by (simp add: start_code_def augment_def data alloc_def hold_def)
  have "arr_get ((data @ [c]) @ [d]) r = arr_get data r" "arr_get ((data @ [c]) @ [d]) (length data) = Some c" for c d
    using r by (simp_all add: arr_get_def nth_append)
  then show ?thesis using data r by (simp add: start define_prop_def define_plain_def)
qed

theorem defining_changes_data_witness:
  "\<exists>h held. code_run [NewObject, Define 1 ''x'' 2] (start_code 0 [PlainObj [(''x'', Prim (JNum 1))]]) = Some (h, held)
    \<and> h ! 0 = PlainObj (mset_at ''x'' (Ref 2) [(''x'', Prim (JNum 1))])"
  using defining_changes_data [of "[PlainObj [(''x'', Prim (JNum 1))]]" 0 "[(''x'', Prim (JNum 1))]" "''x''"]
  by (simp add: arr_get_def numeral_2_eq_2)

text \<open>
  An augmented object reads back what was assigned to it: the property assigned has the value, every other property
  is there as before with the same own value; and \<^verbatim>\<open>undefined\<close> removes the property.
\<close>

theorem augmented_object_reads_back:
  assumes a: "arr_get h a = Some (ProxyObj t newData deleted)" and key: "key \<noteq> ''constructor''" and v: "v \<noteq> Undef"
  shows "fst (read_prop a key (write_prop a key v h)) = v"
    and "t \<noteq> a \<Longrightarrow> arr_get (write_prop a key v h) a = Some (ProxyObj t newData' deleted')
      \<Longrightarrow> k \<in> set (obj_ownKeys (write_prop a key v h) t newData' deleted') \<longleftrightarrow> k = key \<or> k \<in> set (obj_ownKeys h t newData deleted)"
proof -
  have al: "a < length h" using a by (simp add: arr_get_Some)
  have w: "write_prop a key v h = h[a := ProxyObj t (mset_at key v newData) (filter (\<lambda>k. k \<noteq> key) deleted)]"
    using a v by (simp add: write_prop_def obj_set_def)
  have at: "arr_get (write_prop a key v h) a = Some (ProxyObj t (mset_at key v newData) (filter (\<lambda>k. k \<noteq> key) deleted))"
    using al by (simp add: w arr_get_Some)
  then show "fst (read_prop a key (write_prop a key v h)) = v"
    using key by (simp add: read_prop_def obj_get_def mhas_def obj_read_def)
  assume t: "t \<noteq> a" and at': "arr_get (write_prop a key v h) a = Some (ProxyObj t newData' deleted')"
  have "plain_fields (write_prop a key v h) t = plain_fields h t"
    using t by (simp add: w plain_fields_def arr_get_def)
  then show "k \<in> set (obj_ownKeys (write_prop a key v h) t newData' deleted') \<longleftrightarrow> k = key \<or> k \<in> set (obj_ownKeys h t newData deleted)"
    using at at' by (auto simp: obj_keys_has obj_has_def mhas_def)
qed

end
