(* ===== verification/Type_Validation.thy ===== *)
theory Type_Validation
  imports Parameter_Conditions
begin

text \<open>
  Values of expressions and their conversion to the types of fields (\<^verbatim>\<open>packages/workflow/src/type-validation.ts\<close>).
  A conversion that fails is \<open>None\<close>; only the description of form fields has messages of its own.
\<close>

section \<open>Values\<close>

text \<open>A value of an expression: JSON, a number JSON does not have, or a valid
  \<^verbatim>\<open>DateTime\<close>, by its milliseconds.\<close>

datatype fval = VJson json | VNum jsnum | VDate int

abbreviation VUndef :: fval where "VUndef \<equiv> VJson JUndef"

definition num_val :: "jsnum \<Rightarrow> fval" where
  "num_val n = (case n of Finite r \<Rightarrow> VJson (JNum r) | _ \<Rightarrow> VNum n)"

definition nullish :: "fval \<Rightarrow> bool" where
  "nullish v = (v = VUndef \<or> v = VJson JNull)"

definition val_is_NaN :: "fval \<Rightarrow> bool" where
  "val_is_NaN v = (v = VNum NaN)"

definition val_truthy :: "fval \<Rightarrow> bool" where
  "val_truthy v = (case v of VJson j \<Rightarrow> truthy j | VNum n \<Rightarrow> n \<noteq> NaN \<and> n \<noteq> Finite 0 | VDate d \<Rightarrow> True)"

text \<open>
  Functions that are not n8n's, or rest on such: dates (luxon), JSON, lower case, numbers as strings, the protocol of a
  URL, regular expressions by source and flags, and the reading of a JavaScript object (\<^verbatim>\<open>jsonParse\<close> with esprima).
\<close>

record value_env =
  fe_num_string :: "rat \<Rightarrow> string"
  fe_date_string :: "int \<Rightarrow> string"
  fe_lower :: "string \<Rightarrow> string"
  fe_locale_lower :: "string \<Rightarrow> string"
  fe_stringify :: "json \<Rightarrow> string"
  fe_json_parse :: "string \<Rightarrow> json option"
  fe_parse_object :: "string \<Rightarrow> json option"
  fe_parse_date :: "string \<Rightarrow> int option"
  fe_url_protocol :: "string \<Rightarrow> string option"
  fe_regexp :: "string \<Rightarrow> string \<Rightarrow> string \<Rightarrow> bool res"

definition number_of :: "value_env \<Rightarrow> fval \<Rightarrow> jsnum" where
  "number_of env v = (case v of VJson j \<Rightarrow> to_number (to_primitive (fe_num_string env) j) | VNum n \<Rightarrow> n | VDate d \<Rightarrow> Finite (of_int d))"

definition string_of :: "value_env \<Rightarrow> fval \<Rightarrow> string" where
  "string_of env v = (case v of
      VJson j \<Rightarrow> js_string (fe_num_string env) j
    | VNum Infinity \<Rightarrow> ''Infinity''
    | VNum NegInfinity \<Rightarrow> ''-Infinity''
    | VNum NaN \<Rightarrow> ''NaN''
    | VNum (Finite r) \<Rightarrow> fe_num_string env r
    | VDate d \<Rightarrow> fe_date_string env d)"

section \<open>Conversion\<close>

definition tryToParseNumber :: "value_env \<Rightarrow> fval \<Rightarrow> fval option" where
  "tryToParseNumber env v = (if number_of env v = NaN then None else Some (num_val (number_of env v)))"

definition tryToParseString :: "value_env \<Rightarrow> fval \<Rightarrow> fval option" where
  "tryToParseString env v = Some (VJson (JStr (case v of
      VJson j \<Rightarrow> if typeof_object j then fe_stringify env j else if j = JUndef then [] else js_string (fe_num_string env) j
    | VDate d \<Rightarrow> fe_stringify env (JStr (fe_date_string env d))
    | VNum n \<Rightarrow> string_of env v)))"

text \<open>\<^verbatim>\<open>/^[a-zA-Z_][a-zA-Z0-9_]*$/\<close>.\<close>

definition is_letter :: "char \<Rightarrow> bool" where
  "is_letter c = (let n = of_char c :: nat in (65 \<le> n \<and> n \<le> 90) \<or> (97 \<le> n \<and> n \<le> 122) \<or> n = 95)"

definition tryToParseAlphanumericString :: "value_env \<Rightarrow> fval \<Rightarrow> fval option" where
  "tryToParseAlphanumericString env v = (case tryToParseString env v of
      Some (VJson (JStr (c # cs))) \<Rightarrow>
        if is_letter c \<and> list_all (\<lambda>d. is_letter d \<or> is_digit d) cs then Some (VJson (JStr (c # cs))) else None
    | _ \<Rightarrow> None)"

definition tryToParseBoolean :: "value_env \<Rightarrow> fval \<Rightarrow> fval option" where
  "tryToParseBoolean env v =
     (let by_number =
        (if number_of env v = Finite 0 then Some (VJson (JBool False))
         else if number_of env v = Finite 1 then Some (VJson (JBool True)) else None)
      in case v of
        VJson (JBool b) \<Rightarrow> Some v
      | VJson (JStr s) \<Rightarrow>
          if fe_lower env s \<in> {''true'', ''false''} then Some (VJson (JBool (fe_lower env s = ''true'')))
          else if trim s = [] then None else by_number
      | _ \<Rightarrow> by_number)"

definition tryToParseDateTime :: "value_env \<Rightarrow> fval \<Rightarrow> fval option" where
  "tryToParseDateTime env v = (case v of
      VDate d \<Rightarrow> Some v
    | _ \<Rightarrow> map_option VDate (fe_parse_date env (trim (string_of env v))))"

definition single_to_double :: "string \<Rightarrow> string" where
  "single_to_double s = map (\<lambda>c. if (of_char c :: nat) = 39 then CHR 0x22 else c) s"

definition tryToParseArray :: "value_env \<Rightarrow> fval \<Rightarrow> fval option" where
  "tryToParseArray env v = (case v of
      VJson (JArr xs) \<Rightarrow> Some v
    | _ \<Rightarrow>
        let s = string_of env v;
            parsed = (case fe_json_parse env s of None \<Rightarrow> fe_json_parse env (single_to_double s) | p \<Rightarrow> p)
        in case parsed of Some (JArr xs) \<Rightarrow> Some (VJson (JArr xs)) | _ \<Rightarrow> None)"

text \<open>\<^verbatim>\<open>null\<close> is an object for \<^verbatim>\<open>typeof\<close>, so the text \<^verbatim>\<open>null\<close> is read as one.\<close>

definition tryToParseObject :: "value_env \<Rightarrow> fval \<Rightarrow> fval option" where
  "tryToParseObject env v = (case v of
      VJson (JObj fs) \<Rightarrow> Some v
    | VDate d \<Rightarrow> Some v
    | _ \<Rightarrow> (case fe_parse_object env (string_of env v) of
          Some (JObj fs) \<Rightarrow> Some (VJson (JObj fs))
        | Some JNull \<Rightarrow> Some (VJson JNull)
        | _ \<Rightarrow> None))"

definition is_string :: "fval \<Rightarrow> bool" where
  "is_string v = (case v of VJson (JStr s) \<Rightarrow> True | _ \<Rightarrow> False)"

definition is_number :: "fval \<Rightarrow> bool" where
  "is_number v = (case v of VJson (JNum r) \<Rightarrow> True | VNum n \<Rightarrow> True | _ \<Rightarrow> False)"

definition is_boolean :: "fval \<Rightarrow> bool" where
  "is_boolean v = (case v of VJson (JBool b) \<Rightarrow> True | _ \<Rightarrow> False)"

definition is_array :: "fval \<Rightarrow> bool" where
  "is_array v = (case v of VJson (JArr xs) \<Rightarrow> True | _ \<Rightarrow> False)"

definition is_object :: "fval \<Rightarrow> bool" where
  "is_object v = (case v of VJson (JArr xs) \<Rightarrow> True | VJson (JObj fs) \<Rightarrow> True | VDate d \<Rightarrow> True | _ \<Rightarrow> False)"

text \<open>
  \<^verbatim>\<open>/^\d{2}:\d{2}(:\d{2})?((\-|\+)\d{4})?((\-|\+)\d{1,2}(:\d{2})?)?$/\<close>: a part of the expression gives
  the rests it can leave.
\<close>

definition re_digits :: "nat \<Rightarrow> string \<Rightarrow> string list" where
  "re_digits n s = (if n \<le> length s \<and> list_all is_digit (take n s) then [drop n s] else [])"

definition re_char :: "char set \<Rightarrow> string \<Rightarrow> string list" where
  "re_char cs s = (case s of [] \<Rightarrow> [] | c # r \<Rightarrow> if c \<in> cs then [r] else [])"

definition re_then :: "(string \<Rightarrow> string list) \<Rightarrow> (string \<Rightarrow> string list) \<Rightarrow> string \<Rightarrow> string list" where
  "re_then p q s = concat (map q (p s))"

definition re_opt :: "(string \<Rightarrow> string list) \<Rightarrow> string \<Rightarrow> string list" where
  "re_opt p s = p s @ [s]"

definition re_or :: "(string \<Rightarrow> string list) \<Rightarrow> (string \<Rightarrow> string list) \<Rightarrow> string \<Rightarrow> string list" where
  "re_or p q s = p s @ q s"

definition re_colon_pair :: "string \<Rightarrow> string list" where
  "re_colon_pair = re_then (re_char {CHR '':''}) (re_digits 2)"

definition re_sign :: "string \<Rightarrow> string list" where
  "re_sign = re_char {CHR ''-'', CHR ''+''}"

definition is_time :: "string \<Rightarrow> bool" where
  "is_time s = ([] \<in> set
     (re_then (re_digits 2) (re_then re_colon_pair (re_then (re_opt re_colon_pair)
       (re_then (re_opt (re_then re_sign (re_digits 4)))
         (re_opt (re_then re_sign (re_then (re_or (re_digits 1) (re_digits 2)) (re_opt re_colon_pair))))))) s))"

definition tryToParseTime :: "value_env \<Rightarrow> fval \<Rightarrow> fval option" where
  "tryToParseTime env v = (if is_time (string_of env v) then Some (VJson (JStr (string_of env v))) else None)"

definition isBinaryValue :: "fval \<Rightarrow> bool" where
  "isBinaryValue v = (case v of
      VJson (JObj fs) \<Rightarrow> mhas fs ''mimeType'' \<and> (mhas fs ''data'' \<or> mhas fs ''id'')
    | _ \<Rightarrow> False)"

definition tryToParseBinary :: "fval \<Rightarrow> fval option" where
  "tryToParseBinary v = (if isBinaryValue v then Some v else None)"

text \<open>\<^verbatim>\<open>https://\<close> is put before a text without a protocol; the text that is returned is the new one.\<close>

definition tryToParseUrl :: "value_env \<Rightarrow> fval \<Rightarrow> fval option" where
  "tryToParseUrl env v =
     (let s = (case v of VJson (JStr t) \<Rightarrow> if contains ''://'' t then t else ''https://'' @ t | _ \<Rightarrow> string_of env v) in
      case fe_url_protocol env s of
        None \<Rightarrow> None
      | Some p \<Rightarrow> if p \<in> {''http:'', ''https:'', ''ftp:'', ''file:''} then Some (VJson (JStr s)) else None)"

text \<open>\<^verbatim>\<open>/^[A-Za-z0-9-_]+\.[A-Za-z0-9-_]+\.[A-Za-z0-9-_.+/=]*$/\<close>.\<close>

definition is_token_char :: "char \<Rightarrow> bool" where
  "is_token_char c = (is_letter c \<or> is_digit c \<or> c = CHR ''-'')"

definition is_jwt :: "string \<Rightarrow> bool" where
  "is_jwt s =
     (let a = takeWhile is_token_char s; r = dropWhile is_token_char s; b = takeWhile is_token_char (tl r);
          c = dropWhile is_token_char (tl r)
      in a \<noteq> [] \<and> r \<noteq> [] \<and> hd r = CHR ''.'' \<and> b \<noteq> [] \<and> c \<noteq> [] \<and> hd c = CHR ''.''
         \<and> list_all (\<lambda>d. is_token_char d \<or> d \<in> set ''.+/='') (tl c))"

definition tryToParseJwt :: "value_env \<Rightarrow> fval \<Rightarrow> fval option" where
  "tryToParseJwt env v =
     (if val_truthy v \<and> is_jwt (string_of env v) then Some (VJson (JStr (string_of env v))) else None)"

section \<open>Form fields\<close>

definition ALLOWED_FORM_FIELDS_KEYS :: "string list" where
  "ALLOWED_FORM_FIELDS_KEYS = [''fieldLabel'', ''fieldType'', ''placeholder'', ''defaultValue'', ''fieldOptions'',
     ''multiselect'', ''multipleFiles'', ''acceptFileTypes'', ''formatDate'', ''requiredField'', ''fieldValue'',
     ''elementName'', ''html'', ''fieldName'', ''limitSelection'', ''numberOfSelections'', ''minSelections'',
     ''maxSelections'']"

definition ALLOWED_FIELD_TYPES :: "string list" where
  "ALLOWED_FIELD_TYPES = [''date'', ''dropdown'', ''email'', ''file'', ''number'', ''password'', ''text'', ''textarea'',
     ''checkbox'', ''radio'', ''html'', ''hiddenField'']"

definition escape_char :: "char \<Rightarrow> string" where
  "escape_char c = (if c = CHR ''<'' then ''&lt;'' else if c = CHR ''>'' then ''&gt;'' else [c])"

definition escape_html :: "string \<Rightarrow> string" where
  "escape_html s = concat (map escape_char s)"

text \<open>The value a key gets: other values than texts, numbers and truth values become texts, texts are escaped.\<close>

definition form_value :: "value_env \<Rightarrow> string \<Rightarrow> json \<Rightarrow> json" where
  "form_value env key v =
     (let simple = (case v of JStr s \<Rightarrow> True | JNum r \<Rightarrow> True | JBool b \<Rightarrow> True | _ \<Rightarrow> False) in
      if key \<noteq> ''fieldOptions'' \<and> \<not> simple then JStr (js_string (fe_num_string env) v)
      else case v of JStr s \<Rightarrow> if key \<noteq> ''html'' then JStr (escape_html s) else v | _ \<Rightarrow> v)"

definition check_option :: "nat \<Rightarrow> nat \<times> json \<Rightarrow> unit \<Rightarrow> unit res" where
  "check_option index io u =
     (case snd io of
        JNull \<Rightarrow> Inl (TypeError ''keys'')
      | JUndef \<Rightarrow> Inl (TypeError ''keys'')
      | v \<Rightarrow>
          if length (own_keys v) \<noteq> 1 \<or> (case prop_of v ''option'' of JStr s \<Rightarrow> False | _ \<Rightarrow> True)
          then Inl (ApplicationError (''Field dropdown in field '' @ show_nat index @ '' has an invalid option '' @ show_nat (fst io)))
          else Inr ())"

definition form_options :: "nat \<Rightarrow> json \<Rightarrow> json res" where
  "form_options index v0 =
     (let v = (case v0 of JArr xs \<Rightarrow> JObj [(''values'', v0)] | _ \<Rightarrow> v0);
          invalid = ApplicationError (''Field dropdown in field '' @ show_nat index @ '' does has no ''
                      @ CHR 0x27 # ''values'' @ CHR 0x27 # '' property that contain an array of options'') in
      if \<not> typeof_object v then Inl invalid
      else bindE (access v ''values'') (\<lambda>vals.
        if \<not> truthy vals then Inl invalid
        else case vals of
            JArr options \<Rightarrow> bindE (foldE (check_option index) (enumerate0 options) ()) (\<lambda>u. Inr v)
          | _ \<Rightarrow> Inl (TypeError ''entries'')))"

definition form_key :: "value_env \<Rightarrow> nat \<Rightarrow> string \<Rightarrow> json obj \<Rightarrow> json obj res" where
  "form_key env index key field =
     (if key \<notin> set ALLOWED_FORM_FIELDS_KEYS
      then Inl (ApplicationError (''Key '' @ CHR 0x27 # key @ CHR 0x27 # '' in field '' @ show_nat index
                  @ '' is not valid for form fields''))
      else
        let v = form_value env key (prop_of (JObj field) key); field' = mset_at key v field in
        if key = ''fieldType'' \<and> v \<notin> JStr ` set ALLOWED_FIELD_TYPES
        then Inl (ApplicationError (''Field type '' @ CHR 0x27 # js_string (fe_num_string env) v @ CHR 0x27 # '' in field ''
                    @ show_nat index @ '' is not valid for form fields''))
        else if key = ''fieldOptions'' then bindE (form_options index v) (\<lambda>v'. Inr (mset_at key v' field'))
        else Inr field')"

text \<open>
  Of the fields that are no objects, those without keys of their own are kept, texts and arrays fail at their first
  index.
\<close>

definition form_field :: "value_env \<Rightarrow> nat \<times> json \<Rightarrow> json list \<Rightarrow> json list res" where
  "form_field env ifield checked =
     (case snd ifield of
        JNull \<Rightarrow> Inl (TypeError ''keys'')
      | JUndef \<Rightarrow> Inl (TypeError ''keys'')
      | JObj fs \<Rightarrow> bindE (foldE (form_key env (fst ifield)) (obj_keys fs) fs) (\<lambda>fs'. Inr (checked @ [JObj fs']))
      | v \<Rightarrow> (case own_keys v of
            [] \<Rightarrow> Inr (checked @ [v])
          | key # keys \<Rightarrow> Inl (ApplicationError (''Key '' @ CHR 0x27 # key @ CHR 0x27 # '' in field '' @ show_nat (fst ifield)
                @ '' is not valid for form fields''))))"

definition only_application_errors :: "'a res \<Rightarrow> 'a res" where
  "only_application_errors r = (case r of
      Inl (ApplicationError m) \<Rightarrow> r
    | Inl e \<Rightarrow> Inl (ApplicationError ''Value is not valid JSON'')
    | Inr x \<Rightarrow> r)"

definition tryToParseJsonToFormFields :: "value_env \<Rightarrow> fval \<Rightarrow> json list res" where
  "tryToParseJsonToFormFields env v = only_application_errors
     (case fe_parse_object env (string_of env v) of
        None \<Rightarrow> Inl (PlainError ''SyntaxError'')
      | Some (JArr rawFields) \<Rightarrow> foldE (form_field env) (enumerate0 rawFields) []
      | Some other \<Rightarrow> Inl (TypeError ''entries''))"

section \<open>Fields\<close>

text \<open>
  \<^verbatim>\<open>validateFieldType\<close>: \<open>None\<close> is not valid, \<open>Some\<close> is valid with the new value. The cases from
  \<^verbatim>\<open>time\<close> on come first.
\<close>

record validate_options =
  vo_valueOptions :: "json list"
  vo_strict :: bool
  vo_parseStrings :: bool

definition no_options :: validate_options where
  "no_options = \<lparr> vo_valueOptions = [], vo_strict = False, vo_parseStrings = False \<rparr>"

definition validate_structured :: "value_env \<Rightarrow> fval \<Rightarrow> string \<Rightarrow> validate_options \<Rightarrow> fval option" where
  "validate_structured env v type options =
     (let strict = vo_strict options in
      if type = ''time'' then tryToParseTime env v
      else if type = ''binary'' then tryToParseBinary v
      else if type = ''object'' then (if strict \<and> \<not> is_object v then None else tryToParseObject env v)
      else if type = ''array'' then (if strict \<and> \<not> is_array v then None else tryToParseArray env v)
      else if type = ''options'' then
        (case v of VJson j \<Rightarrow> if list_ex (\<lambda>option. same_value option j) (vo_valueOptions options) then Some v else None
         | _ \<Rightarrow> None)
      else if type = ''url'' then tryToParseUrl env v
      else if type = ''jwt'' then tryToParseJwt env v
      else if type = ''form-fields'' then
        (case tryToParseJsonToFormFields env v of Inl e \<Rightarrow> None | Inr checked \<Rightarrow> Some (VJson (JArr checked)))
      else Some v)"

text \<open>\<^verbatim>\<open>type.toLowerCase()\<close>: the names of types are ASCII.\<close>

definition lower_type :: "string \<Rightarrow> string" where
  "lower_type = map (\<lambda>c. let n = of_char c :: nat in if 65 \<le> n \<and> n \<le> 90 then char_of (n + 32) else c)"

lemma lower_type_names [simp]:
  "lower_type ''string'' = ''string''" "lower_type ''number'' = ''number''" "lower_type ''boolean'' = ''boolean''"
  "lower_type ''dateTime'' = ''datetime''" "lower_type ''array'' = ''array''" "lower_type ''object'' = ''object''"
  "lower_type ''any'' = ''any''"
  by code_simp+

definition validateFieldType :: "value_env \<Rightarrow> fval \<Rightarrow> string \<Rightarrow> validate_options \<Rightarrow> fval option" where
  "validateFieldType env v fieldType options =
     (let strict = vo_strict options; type = lower_type fieldType in
      if nullish v then Some VUndef
      else if type = ''string'' then
        (if \<not> vo_parseStrings options then Some v else if strict \<and> \<not> is_string v then None else tryToParseString env v)
      else if type = ''string-alphanumeric'' then tryToParseAlphanumericString env v
      else if type = ''number'' then (if strict \<and> \<not> is_number v then None else tryToParseNumber env v)
      else if type = ''boolean'' then (if strict \<and> \<not> is_boolean v then None else tryToParseBoolean env v)
      else if type = ''datetime'' then tryToParseDateTime env v
      else validate_structured env v type options)"

end
