(* ===== verification/Filter_Conditions.thy ===== *)
theory Filter_Conditions
  imports Type_Validation
begin

text \<open>
  The conditions of the nodes If, Filter and Switch
  (\<^verbatim>\<open>packages/workflow/src/node-parameters/filter-parameter.ts\<close>). Errors carry their messages; their
  descriptions, texts for the editor, are left out.
\<close>

section \<open>Conditions\<close>

record filter_operator =
  fo_type :: string
  fo_operation :: string
  fo_rightType :: "string option"
  fo_singleValue :: bool

record filter_condition =
  fc_leftValue :: fval
  fc_rightValue :: fval
  fc_operator :: filter_operator

record filter_options =
  fi_caseSensitive :: bool
  fi_strict :: bool
  fi_version :: nat

definition filter_type_options :: "bool \<Rightarrow> validate_options" where
  "filter_type_options strict = \<lparr> vo_valueOptions = [], vo_strict = strict, vo_parseStrings = True \<rparr>"

definition parseSingleFilterValue :: "value_env \<Rightarrow> fval \<Rightarrow> string \<Rightarrow> bool \<Rightarrow> nat \<Rightarrow> fval option" where
  "parseSingleFilterValue env v type strict version =
     (if type = ''any'' \<or> nullish v then Some v
      else if type = ''boolean'' \<and> \<not> strict then
        (case (if 2 \<le> version then validateFieldType env v type no_options else None) of
           Some v' \<Rightarrow> Some v'
         | None \<Rightarrow> Some (VJson (JBool (val_truthy v))))
      else if type = ''number'' \<and> val_is_NaN v then Some v
      else if type = ''number'' \<and> 3 \<le> version
          \<and> (case v of VJson (JStr s) \<Rightarrow> trim s = [] | VJson (JArr xs) \<Rightarrow> xs = [] | _ \<Rightarrow> False)
      then Some (VJson JNull)
      else validateFieldType env v type (filter_type_options strict))"

definition unresolved :: "bool \<Rightarrow> fval \<Rightarrow> bool" where
  "unresolved unresolvedExpressions v =
     (unresolvedExpressions \<and> (case v of VJson (JStr s) \<Rightarrow> starts_with_char (CHR ''='') s | _ \<Rightarrow> False))"

text \<open>\<^verbatim>\<open>typeof\<close>.\<close>

definition type_name :: "fval \<Rightarrow> string" where
  "type_name v = (case v of
      VJson JUndef \<Rightarrow> ''undefined'' | VJson (JBool b) \<Rightarrow> ''boolean'' | VJson (JNum r) \<Rightarrow> ''number'' | VJson (JStr s) \<Rightarrow> ''string''
    | VNum n \<Rightarrow> ''number'' | _ \<Rightarrow> ''object'')"

definition withIndefiniteArticle :: "string \<Rightarrow> string" where
  "withIndefiniteArticle noun =
     ((if noun = [] \<or> hd noun \<in> set ''aeiou'' then ''an '' else ''a '') @ noun)"

record filter_metadata =
  fm_index :: nat
  fm_itemIndex :: nat
  fm_unresolvedExpressions :: bool
  fm_inline :: bool

definition quoted :: "string \<Rightarrow> string" where
  "quoted s = CHR 0x27 # s @ [CHR 0x27]"

definition message_suffix :: "filter_metadata \<Rightarrow> string" where
  "message_suffix m =
     (if fm_inline m then ''[item '' @ show_nat (fm_itemIndex m) @ '']''
      else ''[condition '' @ show_nat (fm_index m) @ '', item '' @ show_nat (fm_itemIndex m) @ '']'')"

definition composeInvalidTypeMessage :: "bool \<Rightarrow> filter_metadata \<Rightarrow> string \<Rightarrow> string \<Rightarrow> string \<Rightarrow> string" where
  "composeInvalidTypeMessage strict m type fromType value =
     (if strict
      then ''Wrong type: '' @ quoted value @ '' is '' @ withIndefiniteArticle fromType @ '' but was expecting ''
             @ withIndefiniteArticle type @ '' '' @ message_suffix m
      else ''Conversion error: the '' @ fromType @ '' '' @ quoted value @ '' can'' @ [CHR 0x27]
             @ ''t be converted to '' @ withIndefiniteArticle type @ '' '' @ message_suffix m)"

text \<open>The two sides: what they are converted to, and whether that is accepted.\<close>

record parsed_sides =
  ps_rightType :: string
  ps_left :: "fval option"
  ps_right :: "fval option"
  ps_leftValid :: bool
  ps_rightValid :: bool

definition parse_sides :: "value_env \<Rightarrow> filter_condition \<Rightarrow> filter_options \<Rightarrow> filter_metadata \<Rightarrow> parsed_sides" where
  "parse_sides env condition options metadata =
     (let operator = fc_operator condition; strict = fi_strict options; version = fi_version options;
          leftValue = fc_leftValue condition; rightValue = fc_rightValue condition;
          rightType = (case fo_rightType operator of None \<Rightarrow> fo_type operator | Some t \<Rightarrow> t);
          parsedLeft = parseSingleFilterValue env leftValue (fo_type operator) strict version;
          parsedRight = parseSingleFilterValue env rightValue rightType strict version;
          unresolvedExpressions = fm_unresolvedExpressions metadata
      in \<lparr> ps_rightType = rightType, ps_left = parsedLeft, ps_right = parsedRight,
           ps_leftValid = (parsedLeft \<noteq> None \<or> unresolved unresolvedExpressions leftValue),
           ps_rightValid = (parsedRight \<noteq> None \<or> fo_singleValue operator
                            \<or> unresolved unresolvedExpressions rightValue) \<rparr>)"

definition value_or_undefined :: "fval option \<Rightarrow> fval" where
  "value_or_undefined p = (case p of None \<Rightarrow> VUndef | Some v \<Rightarrow> v)"

definition parseFilterConditionValues ::
  "value_env \<Rightarrow> filter_condition \<Rightarrow> filter_options \<Rightarrow> filter_metadata \<Rightarrow> (fval \<times> fval) res" where
  "parseFilterConditionValues env condition options metadata =
     (let sides = parse_sides env condition options metadata; strict = fi_strict options;
          type = fo_type (fc_operator condition); leftValue = fc_leftValue condition; rightValue = fc_rightValue condition in
      if \<not> ps_leftValid sides \<and> \<not> ps_rightValid sides \<and> type_name leftValue = type_name rightValue
      then Inl (FilterError (''Comparison type expects '' @ withIndefiniteArticle type
             @ '' but both fields are '' @ withIndefiniteArticle (type_name leftValue)))
      else if \<not> ps_leftValid sides
      then Inl (FilterError (composeInvalidTypeMessage strict metadata type (type_name leftValue)
             (string_of env leftValue)))
      else if \<not> ps_rightValid sides
      then Inl (FilterError (composeInvalidTypeMessage strict metadata (ps_rightType sides) (type_name rightValue)
             (string_of env rightValue)))
      else Inr (value_or_undefined (ps_left sides), value_or_undefined (ps_right sides)))"

section \<open>Evaluation\<close>

text \<open>\<^verbatim>\<open>===\<close>: an object or array of one side is not the one of the other.\<close>

definition val_same :: "fval \<Rightarrow> fval \<Rightarrow> bool" where
  "val_same a b = (a = b \<and> (case a of VJson j \<Rightarrow> same_value j j | VNum n \<Rightarrow> n \<noteq> NaN | VDate d \<Rightarrow> False))"

definition primitive :: "value_env \<Rightarrow> fval \<Rightarrow> fval" where
  "primitive env v = (case v of VJson j \<Rightarrow> VJson (to_primitive (fe_num_string env) j) | _ \<Rightarrow> v)"

definition val_less :: "value_env \<Rightarrow> fval \<Rightarrow> fval \<Rightarrow> bool option" where
  "val_less env a b = (case (primitive env a, primitive env b) of
      (VJson (JStr s), VJson (JStr t)) \<Rightarrow> Some (string_less s t)
    | _ \<Rightarrow> number_less (number_of env a) (number_of env b))"

text \<open>A pattern between slashes with flags behind, or the source of an expression.\<close>

definition regex_literal :: "string \<Rightarrow> (string \<times> string) option" where
  "regex_literal s =
     (let flags = rev (takeWhile (\<lambda>c. c \<noteq> CHR ''/'') (rev s)); front = take (length s - length flags) s in
      if 2 \<le> length front \<and> hd front = CHR ''/'' \<and> last front = CHR ''/'' \<and> set flags \<subseteq> set ''gimusy''
         \<and> list_all (\<lambda>c. (of_char c :: nat) \<notin> {10, 13}) front
      then Some (tl (butlast front), flags) else None)"

definition test_pattern :: "value_env \<Rightarrow> fval \<Rightarrow> string \<Rightarrow> bool res" where
  "test_pattern env pattern s =
     (let p = (if val_truthy pattern then pattern else VJson (JStr [])) in
      case p of
        VJson (JStr source) \<Rightarrow> (case regex_literal source of
            Some (r, flags) \<Rightarrow> fe_regexp env r flags s
          | None \<Rightarrow> fe_regexp env source [] s)
      | _ \<Rightarrow> Inl (TypeError ''match''))"

definition string_condition :: "value_env \<Rightarrow> bool \<Rightarrow> string \<Rightarrow> fval \<Rightarrow> fval \<Rightarrow> bool res option" where
  "string_condition env ignoreCase operation leftValue rightValue =
     (let lower = (\<lambda>v. case v of VJson (JStr s) \<Rightarrow> VJson (JStr (fe_locale_lower env s)) | _ \<Rightarrow> v);
          lv = (if ignoreCase then lower leftValue else leftValue);
          rv = (if ignoreCase \<and> operation \<notin> {''regex'', ''notRegex''} then lower rightValue else rightValue);
          left = (case lv of VJson (JStr s) \<Rightarrow> s | _ \<Rightarrow> []);
          right = (if nullish rv then VJson (JStr []) else rv);
          r = string_of env right
      in if operation = ''empty'' then Some (Inr (left = []))
         else if operation = ''notEmpty'' then Some (Inr (left \<noteq> []))
         else if operation = ''equals'' then Some (Inr (VJson (JStr left) = right))
         else if operation = ''notEquals'' then Some (Inr (VJson (JStr left) \<noteq> right))
         else if operation = ''contains'' then Some (Inr (contains r left))
         else if operation = ''notContains'' then Some (Inr (\<not> contains r left))
         else if operation = ''startsWith'' then Some (Inr (take (length r) left = r))
         else if operation = ''notStartsWith'' then Some (Inr (take (length r) left \<noteq> r))
         else if operation = ''endsWith'' then Some (Inr (ends_with r left))
         else if operation = ''notEndsWith'' then Some (Inr (\<not> ends_with r left))
         else if operation = ''regex'' then Some (test_pattern env right left)
         else if operation = ''notRegex'' then Some (bindE (test_pattern env right left) (\<lambda>b. Inr (\<not> b)))
         else None)"

definition number_condition :: "value_env \<Rightarrow> string \<Rightarrow> bool \<Rightarrow> fval \<Rightarrow> fval \<Rightarrow> bool res option" where
  "number_condition env operation exists left right =
     (if operation = ''empty'' then Some (Inr (\<not> exists))
      else if operation = ''notEmpty'' then Some (Inr exists)
      else if operation = ''equals'' then Some (Inr (val_same left right))
      else if operation = ''notEquals'' then Some (Inr (\<not> val_same left right))
      else if operation = ''gt'' then Some (Inr (val_less env right left = Some True))
      else if operation = ''lt'' then Some (Inr (val_less env left right = Some True))
      else if operation = ''gte'' then Some (Inr (val_less env left right = Some False))
      else if operation = ''lte'' then Some (Inr (val_less env right left = Some False))
      else None)"

definition millis :: "fval \<Rightarrow> int res" where
  "millis v = (case v of VDate d \<Rightarrow> Inr d | _ \<Rightarrow> Inl (TypeError ''toMillis''))"

definition date_condition :: "string \<Rightarrow> bool \<Rightarrow> fval \<Rightarrow> fval \<Rightarrow> bool res option" where
  "date_condition operation exists left right =
     (let compare = (\<lambda>f. Some (bindE (millis left) (\<lambda>a. bindE (millis right) (\<lambda>b. Inr (f a b))))) in
      if operation = ''empty'' then Some (Inr (\<not> exists))
      else if operation = ''notEmpty'' then Some (Inr exists)
      else if \<not> val_truthy left \<or> \<not> val_truthy right then Some (Inr False)
      else if operation = ''equals'' then compare (\<lambda>a b. a = b)
      else if operation = ''notEquals'' then compare (\<lambda>a b. a \<noteq> b)
      else if operation = ''after'' then compare (\<lambda>a b. a > b)
      else if operation = ''before'' then compare (\<lambda>a b. a < b)
      else if operation = ''afterOrEquals'' then compare (\<lambda>a b. a \<ge> b)
      else if operation = ''beforeOrEquals'' then compare (\<lambda>a b. a \<le> b)
      else None)"

definition boolean_condition :: "string \<Rightarrow> bool \<Rightarrow> fval \<Rightarrow> fval \<Rightarrow> bool res option" where
  "boolean_condition operation exists left right =
     (if operation = ''empty'' then Some (Inr (\<not> exists))
      else if operation = ''notEmpty'' then Some (Inr exists)
      else if operation = ''true'' then Some (Inr (val_truthy left))
      else if operation = ''false'' then Some (Inr (\<not> val_truthy left))
      else if operation = ''equals'' then Some (Inr (val_same left right))
      else if operation = ''notEquals'' then Some (Inr (\<not> val_same left right))
      else None)"

definition arrayContainsValue :: "value_env \<Rightarrow> json list \<Rightarrow> fval \<Rightarrow> bool \<Rightarrow> bool" where
  "arrayContainsValue env array value ignoreCase =
     (case value of
        VJson (JStr s) \<Rightarrow>
          if ignoreCase then list_ex (\<lambda>item. case item of JStr t \<Rightarrow> fe_locale_lower env t = fe_locale_lower env s | _ \<Rightarrow> False) array
          else list_ex (\<lambda>item. same_value item (JStr s)) array
      | VJson j \<Rightarrow> list_ex (\<lambda>item. same_value item j) array
      | _ \<Rightarrow> False)"

definition array_condition :: "value_env \<Rightarrow> bool \<Rightarrow> string \<Rightarrow> fval \<Rightarrow> fval \<Rightarrow> bool res option" where
  "array_condition env ignoreCase operation leftValue rightValue =
     (let left = (case leftValue of VJson (JArr xs) \<Rightarrow> xs | _ \<Rightarrow> []);
          size = VJson (JNum (of_nat (length left)))
      in if operation = ''contains'' then Some (Inr (arrayContainsValue env left rightValue ignoreCase))
         else if operation = ''notContains'' then Some (Inr (\<not> arrayContainsValue env left rightValue ignoreCase))
         else if operation = ''lengthEquals'' then Some (Inr (val_same size rightValue))
         else if operation = ''lengthNotEquals'' then Some (Inr (\<not> val_same size rightValue))
         else if operation = ''lengthGt'' then Some (Inr (val_less env rightValue size = Some True))
         else if operation = ''lengthLt'' then Some (Inr (val_less env size rightValue = Some True))
         else if operation = ''lengthGte'' then Some (Inr (val_less env size rightValue = Some False))
         else if operation = ''lengthLte'' then Some (Inr (val_less env rightValue size = Some False))
         else if operation = ''empty'' then Some (Inr (left = []))
         else if operation = ''notEmpty'' then Some (Inr (left \<noteq> []))
         else None)"

definition object_condition :: "string \<Rightarrow> fval \<Rightarrow> bool res option" where
  "object_condition operation left =
     (let no_keys = (case left of VJson j \<Rightarrow> own_keys j = [] | VNum n \<Rightarrow> True | VDate d \<Rightarrow> False) in
      if operation = ''empty'' then Some (Inr (\<not> val_truthy left \<or> no_keys))
      else if operation = ''notEmpty'' then Some (Inr (val_truthy left \<and> \<not> no_keys))
      else None)"

text \<open>The \<^verbatim>\<open>switch\<close> on the type; \<open>None\<close> is a combination it does not know.\<close>

definition typed_condition ::
  "value_env \<Rightarrow> bool \<Rightarrow> string \<Rightarrow> string \<Rightarrow> bool \<Rightarrow> fval \<Rightarrow> fval \<Rightarrow> bool res option" where
  "typed_condition env ignoreCase type operation exists left right =
     (if type = ''string'' then string_condition env ignoreCase operation left right
      else if type = ''number'' then number_condition env operation exists left right
      else if type = ''dateTime'' then date_condition operation exists left right
      else if type = ''boolean'' then boolean_condition operation exists left right
      else if type = ''array'' then array_condition env ignoreCase operation left right
      else if type = ''object'' then object_condition operation left
      else None)"

definition exists_value :: "fval \<Rightarrow> bool" where
  "exists_value v = (\<not> nullish v \<and> \<not> val_is_NaN v)"

definition executeFilterCondition :: "value_env \<Rightarrow> filter_condition \<Rightarrow> filter_options \<Rightarrow> filter_metadata \<Rightarrow> bool res" where
  "executeFilterCondition env condition filterOptions metadata =
     (let ignoreCase = (\<not> fi_caseSensitive filterOptions);
          operation = fo_operation (fc_operator condition); type = fo_type (fc_operator condition) in
      bindE (parseFilterConditionValues env condition filterOptions metadata) (\<lambda>(leftValue, rightValue).
        if operation = ''exists'' then Inr (exists_value leftValue)
        else if operation = ''notExists'' then Inr (\<not> exists_value leftValue)
        else case typed_condition env ignoreCase type operation (exists_value leftValue) leftValue rightValue of
            Some r \<Rightarrow> r
          | None \<Rightarrow> Inr False))"

record filter_value =
  fv_options :: filter_options
  fv_conditions :: "filter_condition list"
  fv_combinator :: string

definition execute_metadata :: "nat \<Rightarrow> nat \<Rightarrow> filter_metadata" where
  "execute_metadata index itemIndex =
     \<lparr> fm_index = index, fm_itemIndex = itemIndex, fm_unresolvedExpressions = False, fm_inline = False \<rparr>"

definition conditionPass :: "value_env \<Rightarrow> filter_value \<Rightarrow> nat \<Rightarrow> nat \<times> filter_condition \<Rightarrow> bool res" where
  "conditionPass env value itemIndex ic =
     executeFilterCondition env (snd ic) (fv_options value) (execute_metadata (fst ic) itemIndex)"

definition executeFilter :: "value_env \<Rightarrow> filter_value \<Rightarrow> nat \<Rightarrow> bool res" where
  "executeFilter env value itemIndex =
     (if fv_combinator value = ''and'' then everyE (conditionPass env value itemIndex) (enumerate0 (fv_conditions value))
      else if fv_combinator value = ''or'' then someE (conditionPass env value itemIndex) (enumerate0 (fv_conditions value))
      else Inr False)"

text \<open>
  \<^verbatim>\<open>parseFilterConditionValues\<close> returns a \<^verbatim>\<open>Result\<close>, which is dropped here, and throws nothing, so
  the handler that adds to the issues is not reached.
\<close>

definition validate_metadata :: "nat \<Rightarrow> filter_metadata" where
  "validate_metadata index =
     \<lparr> fm_index = index, fm_itemIndex = 0, fm_unresolvedExpressions = True, fm_inline = True \<rparr>"

definition validateFilterParameter :: "value_env \<Rightarrow> filter_value \<Rightarrow> string list obj" where
  "validateFilterParameter env value =
     foldl (\<lambda>issues (index, condition).
              (let dropped = parseFilterConditionValues env condition (fv_options value) (validate_metadata index) in issues))
       [] (enumerate0 (fv_conditions value))"

end
