(* ===== verification/Filter_Properties.thy ===== *)
theory Filter_Properties
  imports Filter_Conditions
begin

text \<open>
  What the conditions of filters promise: the converted values have the type of the operator, strict conversion
  changes nothing, an operator and its negation are complements, and with them whole filters.
\<close>

section \<open>Converted values\<close>

definition of_filter_type :: "string \<Rightarrow> fval \<Rightarrow> bool" where
  "of_filter_type type v =
     (nullish v \<or>
      (if type = ''string'' then is_string v
       else if type = ''number'' then is_number v
       else if type = ''boolean'' then is_boolean v
       else if type = ''dateTime'' then (case v of VDate d \<Rightarrow> True | _ \<Rightarrow> False)
       else if type = ''array'' then is_array v
       else if type = ''object'' then is_object v
       else True))"

lemma num_val_is_number: "is_number (num_val n)"
  by (simp add: num_val_def is_number_def split: jsnum.splits)

lemma parsed_number: "tryToParseNumber env v = Some v' \<Longrightarrow> is_number v'"
  by (auto simp: tryToParseNumber_def num_val_is_number split: if_splits)

lemma parsed_string: "tryToParseString env v = Some v' \<Longrightarrow> is_string v'"
  by (auto simp: tryToParseString_def is_string_def)

lemma parsed_boolean: "tryToParseBoolean env v = Some v' \<Longrightarrow> is_boolean v'"
  by (auto simp: tryToParseBoolean_def is_boolean_def Let_def split: if_splits fval.splits json.splits)

lemma parsed_date: "tryToParseDateTime env v = Some v' \<Longrightarrow> \<exists>d. v' = VDate d"
  by (auto simp: tryToParseDateTime_def split: fval.splits)

lemma parsed_array: "tryToParseArray env v = Some v' \<Longrightarrow> is_array v'"
  by (auto simp: tryToParseArray_def is_array_def Let_def split: if_splits fval.splits json.splits option.splits)

lemma parsed_object: "tryToParseObject env v = Some v' \<Longrightarrow> is_object v' \<or> v' = VJson JNull"
  by (auto simp: tryToParseObject_def is_object_def split: fval.splits json.splits option.splits)

lemma of_filter_type_nullish: "nullish v \<Longrightarrow> of_filter_type type v"
  by (simp add: of_filter_type_def)

lemma nullish_null [simp]: "nullish (VJson JNull)" "nullish VUndef"
  by (simp_all add: nullish_def)

lemma options_simps [simp]:
  "vo_strict (filter_type_options strict) = strict" "vo_parseStrings (filter_type_options strict) = True"
  "vo_strict no_options = False" "vo_parseStrings no_options = False"
  by (simp_all add: filter_type_options_def no_options_def)

lemma validated_cases:
  assumes "validateFieldType env v type (filter_type_options strict) = Some v'"
  obtains "v' = VUndef"
    | "type = ''string''" "tryToParseString env v = Some v'"
    | "type = ''number''" "tryToParseNumber env v = Some v'"
    | "type = ''boolean''" "tryToParseBoolean env v = Some v'"
    | "type = ''dateTime''" "tryToParseDateTime env v = Some v'"
    | "type = ''object''" "tryToParseObject env v = Some v'"
    | "type = ''array''" "tryToParseArray env v = Some v'"
    | "type \<notin> {''string'', ''number'', ''boolean'', ''dateTime'', ''object'', ''array''}"
proof (cases "nullish v")
  case True
  then show thesis using assms that(1) by (simp add: validateFieldType_def validate_structured_def)
next
  case False
  note by_type = assms [unfolded validateFieldType_def Let_def if_not_P [OF False]]
  show thesis
  proof (cases "type \<in> {''string'', ''number'', ''boolean'', ''dateTime'', ''object'', ''array''}")
    case True
    then show thesis
      using by_type that(2-7) by (elim insertE emptyE) (simp_all add: validate_structured_def split: if_splits)
  next
    case other: False
    then show thesis by (rule that(8))
  qed
qed

lemma validated_type:
  assumes "validateFieldType env v type (filter_type_options strict) = Some v'"
  shows "of_filter_type type v'"
  using assms
proof (cases rule: validated_cases)
  case 2 then show ?thesis using parsed_string by (simp add: of_filter_type_def)
next
  case 3 then show ?thesis using parsed_number by (simp add: of_filter_type_def)
next
  case 4 then show ?thesis using parsed_boolean by (simp add: of_filter_type_def)
next
  case 5 then show ?thesis using parsed_date by (fastforce simp: of_filter_type_def)
next
  case 6 then show ?thesis using parsed_object by (fastforce simp: of_filter_type_def)
next
  case 7 then show ?thesis using parsed_array by (simp add: of_filter_type_def)
qed (simp_all add: of_filter_type_def)

lemma validated_boolean:
  assumes "validateFieldType env v ''boolean'' no_options = Some v'"
  shows "of_filter_type ''boolean'' v'"
proof (cases "nullish v")
  case False
  then have "tryToParseBoolean env v = Some v'" using assms by (simp add: validateFieldType_def validate_structured_def split: if_splits)
  then show ?thesis by (simp add: of_filter_type_def parsed_boolean)
qed (use assms in \<open>auto simp: validateFieldType_def validate_structured_def of_filter_type_def\<close>)

lemma parsed_cases:
  assumes "parseSingleFilterValue env v type strict version = Some v'"
  obtains "type = ''any''" | "nullish v'" | "type = ''number''" "is_number v'"
    | "type = ''boolean''" "is_boolean v'"
    | "type = ''boolean''" "validateFieldType env v type no_options = Some v'"
    | "validateFieldType env v type (filter_type_options strict) = Some v'"
proof (cases "type = ''any'' \<or> nullish v")
  case True
  then show thesis using assms that(1, 2) by (auto simp: parseSingleFilterValue_def)
next
  case False
  note by_type = assms [unfolded parseSingleFilterValue_def if_not_P [OF False]]
  show thesis
  proof (cases "type = ''boolean'' \<and> \<not> strict")
    case True
    show thesis
      using by_type True that(4, 5) by (auto simp: is_boolean_def split: option.splits if_splits)
  next
    case other: False
    note rest = by_type [unfolded if_not_P [OF other]]
    show thesis
    proof (cases "type = ''number'' \<and> val_is_NaN v")
      case True
      then show thesis using rest that(3) by (auto simp: val_is_NaN_def is_number_def)
    next
      case no_NaN: False
      show thesis using rest [unfolded if_not_P [OF no_NaN]] that(2, 6) by (auto split: if_splits)
    qed
  qed
qed

text \<open>
  C21: a value converted for a condition has the type of its side, or is \<^verbatim>\<open>null\<close> or \<^verbatim>\<open>undefined\<close>, in
  strict and loose mode and in every version.
\<close>

theorem parseSingleFilterValue_type:
  assumes "parseSingleFilterValue env v type strict version = Some v'"
  shows "of_filter_type type v'"
  using assms
proof (cases rule: parsed_cases)
  case 5 then show ?thesis using validated_boolean by simp
next
  case 6 then show ?thesis by (rule validated_type)
qed (simp_all add: of_filter_type_def)

text \<open>A side that strict mode accepts is used as it is; nothing is converted.\<close>

theorem strict_accepts_unchanged:
  assumes "\<not> nullish v"
  shows "parseSingleFilterValue env v ''string'' True version = (if is_string v then Some v else None)"
    and "parseSingleFilterValue env v ''boolean'' True version = (if is_boolean v then Some v else None)"
    and "parseSingleFilterValue env v ''array'' True version = (if is_array v then Some v else None)"
proof -
  have "is_string v \<Longrightarrow> tryToParseString env v = Some v"
    by (auto simp: is_string_def tryToParseString_def split: fval.splits json.splits)
  then show "parseSingleFilterValue env v ''string'' True version = (if is_string v then Some v else None)"
    using assms by (simp add: parseSingleFilterValue_def validateFieldType_def validate_structured_def)
  have "is_boolean v \<Longrightarrow> tryToParseBoolean env v = Some v"
    by (simp add: is_boolean_def tryToParseBoolean_def split: fval.splits json.splits)
  then show "parseSingleFilterValue env v ''boolean'' True version = (if is_boolean v then Some v else None)"
    using assms by (simp add: parseSingleFilterValue_def validateFieldType_def validate_structured_def)
  have "is_array v \<Longrightarrow> tryToParseArray env v = Some v"
    by (simp add: is_array_def tryToParseArray_def split: fval.splits json.splits)
  then show "parseSingleFilterValue env v ''array'' True version = (if is_array v then Some v else None)"
    using assms by (simp add: parseSingleFilterValue_def validateFieldType_def validate_structured_def)
qed

section \<open>Negation\<close>

definition negations :: "string \<Rightarrow> (string \<times> string) list" where
  "negations type =
     (if type = ''string'' then
        [(''equals'', ''notEquals''), (''contains'', ''notContains''), (''startsWith'', ''notStartsWith''),
         (''endsWith'', ''notEndsWith''), (''regex'', ''notRegex'')]
      else if type = ''number'' then [(''equals'', ''notEquals'')]
      else if type = ''boolean'' then [(''equals'', ''notEquals''), (''true'', ''false'')]
      else if type = ''array'' then [(''contains'', ''notContains''), (''lengthEquals'', ''lengthNotEquals'')]
      else []) @ [(''empty'', ''notEmpty'')]"

definition negation :: "string \<Rightarrow> string \<Rightarrow> string option" where
  "negation type operation =
     (let pairs = (''exists'', ''notExists'') # negations type in
      map_of (pairs @ map (\<lambda>(p, q). (q, p)) pairs) operation)"

definition negateE :: "bool res \<Rightarrow> bool res" where
  "negateE r = bindE r (\<lambda>b. Inr (\<not> b))"

lemma negateE_simps [simp]: "negateE (Inr b) = Inr (\<not> b)" "negateE (Inl e) = Inl e"
  by (simp_all add: negateE_def)

lemma negateE_negateE [simp]: "negateE (negateE r) = r"
  by (cases r) simp_all

definition with_operation :: "string \<Rightarrow> filter_condition \<Rightarrow> filter_condition" where
  "with_operation operation c = c\<lparr> fc_operator := (fc_operator c)\<lparr> fo_operation := operation \<rparr> \<rparr>"

lemma with_operation_values [simp]:
  "fc_leftValue (with_operation p c) = fc_leftValue c"
  "fc_rightValue (with_operation p c) = fc_rightValue c"
  "fo_type (fc_operator (with_operation p c)) = fo_type (fc_operator c)"
  "fo_rightType (fc_operator (with_operation p c)) = fo_rightType (fc_operator c)"
  "fo_singleValue (fc_operator (with_operation p c)) = fo_singleValue (fc_operator c)"
  "fo_operation (fc_operator (with_operation p c)) = p"
  by (simp_all add: with_operation_def)

lemma with_operation_parsed [simp]:
  "parseFilterConditionValues env (with_operation p c) options m = parseFilterConditionValues env c options m"
  unfolding parseFilterConditionValues_def parse_sides_def Let_def with_operation_values ..

lemma negations_of:
  "negations ''string'' =
     [(''equals'', ''notEquals''), (''contains'', ''notContains''), (''startsWith'', ''notStartsWith''),
      (''endsWith'', ''notEndsWith''), (''regex'', ''notRegex''), (''empty'', ''notEmpty'')]"
  "negations ''number'' = [(''equals'', ''notEquals''), (''empty'', ''notEmpty'')]"
  "negations ''boolean'' = [(''equals'', ''notEquals''), (''true'', ''false''), (''empty'', ''notEmpty'')]"
  "negations ''array'' =
     [(''contains'', ''notContains''), (''lengthEquals'', ''lengthNotEquals''), (''empty'', ''notEmpty'')]"
  "negations ''object'' = [(''empty'', ''notEmpty'')]"
  "negations ''dateTime'' = [(''empty'', ''notEmpty'')]"
  by (simp_all add: negations_def)

lemmas negation_pairs = negations_of list.set prod.inject insert_iff empty_iff

lemma string_negation:
  assumes "(p, q) \<in> set (negations ''string'')"
  shows "\<exists>b. string_condition env ic p l r = Some b
       \<and> string_condition env ic q l r = Some (negateE b)"
  using assms unfolding negation_pairs
  by (elim disjE conjE FalseE) (simp_all add: string_condition_def Let_def negateE_def)

lemma number_negation:
  assumes "(p, q) \<in> set (negations ''number'')"
  shows "\<exists>b. number_condition env p ex l r = Some b
       \<and> number_condition env q ex l r = Some (negateE b)"
  using assms unfolding negation_pairs
  by (elim disjE conjE FalseE) (simp_all add: number_condition_def Let_def)

lemma boolean_negation:
  assumes "(p, q) \<in> set (negations ''boolean'')"
  shows "\<exists>b. boolean_condition p ex l r = Some b
       \<and> boolean_condition q ex l r = Some (negateE b)"
  using assms unfolding negation_pairs
  by (elim disjE conjE FalseE) (simp_all add: boolean_condition_def Let_def)

lemma array_negation:
  assumes "(p, q) \<in> set (negations ''array'')"
  shows "\<exists>b. array_condition env ic p l r = Some b
       \<and> array_condition env ic q l r = Some (negateE b)"
  using assms unfolding negation_pairs
  by (elim disjE conjE FalseE) (simp_all add: array_condition_def Let_def)

lemma object_negation:
  assumes "(p, q) \<in> set (negations ''object'')"
  shows "\<exists>b. object_condition p l = Some b
       \<and> object_condition q l = Some (negateE b)"
  using assms unfolding negation_pairs
  by (elim disjE conjE FalseE) (simp_all add: object_condition_def Let_def)

lemma date_negation:
  assumes "(p, q) \<in> set (negations ''dateTime'')"
  shows "\<exists>b. date_condition p ex l r = Some b
       \<and> date_condition q ex l r = Some (negateE b)"
  using assms unfolding negation_pairs
  by (elim disjE conjE FalseE) (simp_all add: date_condition_def Let_def)

definition known_types :: "string set" where
  "known_types = {''string'', ''number'', ''boolean'', ''array'', ''object'', ''dateTime''}"

lemma typed_negation:
  assumes "(p, q) \<in> set (negations type)" and "type \<in> known_types"
  shows "\<exists>b. typed_condition env ic type p ex l r = Some b \<and> typed_condition env ic type q ex l r = Some (negateE b)"
  using assms(2, 1) unfolding known_types_def
  by (elim insertE emptyE)
     (simp_all add: typed_condition_def string_negation number_negation boolean_negation array_negation
        object_negation date_negation)

definition not_exists_pair :: "string \<times> string \<Rightarrow> bool" where
  "not_exists_pair pq = (fst pq \<noteq> ''exists'' \<and> fst pq \<noteq> ''notExists'' \<and> snd pq \<noteq> ''exists'' \<and> snd pq \<noteq> ''notExists'')"

lemma negation_exists:
  assumes "(p, q) \<in> set (negations type)" and "type \<in> known_types"
  shows "p \<noteq> ''exists'' \<and> p \<noteq> ''notExists'' \<and> q \<noteq> ''exists'' \<and> q \<noteq> ''notExists''"
proof -
  have "list_all not_exists_pair (negations type)"
    using assms(2) unfolding known_types_def
    by (elim insertE emptyE) (simp_all add: negations_of not_exists_pair_def)
  then have "not_exists_pair (p, q)" using assms(1) unfolding list_all_iff by (rule bspec)
  then show ?thesis by (simp add: not_exists_pair_def)
qed

lemma negation_cases:
  assumes "negation type p = Some q"
  obtains "p = ''exists''" "q = ''notExists''" | "p = ''notExists''" "q = ''exists''"
    | "(p, q) \<in> set (negations type)" | "(q, p) \<in> set (negations type)"
proof -
  define pairs where "pairs = (''exists'', ''notExists'') # negations type"
  have "(p, q) \<in> set (pairs @ map (\<lambda>(p, q). (q, p)) pairs)"
    using assms unfolding negation_def Let_def pairs_def [symmetric] by (rule map_of_SomeD)
  then have "(p, q) \<in> set pairs \<or> (q, p) \<in> set pairs" by auto
  then show thesis using that unfolding pairs_def list.set insert_iff prod.inject by blast
qed

definition negatable :: "filter_condition \<Rightarrow> bool" where
  "negatable c = (fo_type (fc_operator c) \<in> known_types
     \<and> negation (fo_type (fc_operator c)) (fo_operation (fc_operator c)) \<noteq> None)"

definition negate_condition :: "filter_condition \<Rightarrow> filter_condition" where
  "negate_condition c = (case negation (fo_type (fc_operator c)) (fo_operation (fc_operator c)) of
      None \<Rightarrow> c
    | Some q \<Rightarrow> with_operation q c)"

lemma negate_condition_result:
  assumes "negatable c"
  shows "executeFilterCondition env (negate_condition c) options m = negateE (executeFilterCondition env c options m)"
proof -
  let ?t = "fo_type (fc_operator c)" and ?p = "fo_operation (fc_operator c)"
  obtain q where q: "negation ?t ?p = Some q" and known: "?t \<in> known_types"
    using assms by (auto simp: negatable_def)
  show ?thesis
  proof (cases "parseFilterConditionValues env c options m")
    case (Inl e)
    then show ?thesis by (simp add: negate_condition_def q executeFilterCondition_def)
  next
    case (Inr lr)
    obtain l r where lr: "lr = (l, r)" by (cases lr)
    note parsed = Inr [unfolded lr]
    have typed: ?thesis if "typed_condition env (\<not> fi_caseSensitive options) ?t q (exists_value l) l r = Some (negateE b)"
        and "typed_condition env (\<not> fi_caseSensitive options) ?t ?p (exists_value l) l r = Some b"
        and "?p \<notin> {''exists'', ''notExists''}" and "q \<notin> {''exists'', ''notExists''}" for b
      using that by (simp add: negate_condition_def q executeFilterCondition_def parsed)
    show ?thesis
      using q
    proof (cases rule: negation_cases)
      case 3
      then show ?thesis using typed typed_negation [OF 3 known] negation_exists [OF 3 known] by blast
    next
      case 4
      obtain b where "typed_condition env (\<not> fi_caseSensitive options) ?t q (exists_value l) l r = Some b"
        and "typed_condition env (\<not> fi_caseSensitive options) ?t ?p (exists_value l) l r = Some (negateE b)"
        using typed_negation [OF 4 known] by blast
      then show ?thesis using typed [of "negateE b"] negation_exists [OF 4 known] by simp
    qed (use q in \<open>simp_all add: negate_condition_def executeFilterCondition_def parsed\<close>)
  qed
qed

section \<open>Whole filters\<close>

definition negate_filter :: "filter_value \<Rightarrow> filter_value" where
  "negate_filter fv = fv\<lparr> fv_conditions := map negate_condition (fv_conditions fv),
     fv_combinator := (if fv_combinator fv = ''and'' then ''or'' else ''and'') \<rparr>"

lemma someE_negate:
  "(\<And>x. x \<in> set xs \<Longrightarrow> q (f x) = negateE (p x)) \<Longrightarrow> someE q (map f xs) = negateE (everyE p xs)"
proof (induction xs)
  case (Cons x xs)
  then show ?case by (cases "p x") simp_all
qed simp

lemma everyE_negate:
  "(\<And>x. x \<in> set xs \<Longrightarrow> q (f x) = negateE (p x)) \<Longrightarrow> everyE q (map f xs) = negateE (someE p xs)"
proof (induction xs)
  case (Cons x xs)
  then show ?case by (cases "p x") simp_all
qed simp

lemma enumerate0_map: "enumerate0 (map f xs) = map (\<lambda>(i, x). (i, f x)) (enumerate0 xs)"
  by (simp add: enumerate0_def zip_map2)

lemma conditionPass_negate:
  assumes "(i, c) \<in> set (enumerate0 (fv_conditions fv))" and "\<forall>c \<in> set (fv_conditions fv). negatable c"
  shows "conditionPass env (negate_filter fv) k (i, negate_condition c) = negateE (conditionPass env fv k (i, c))"
proof -
  have "negatable c" using assms by (auto simp: set_enumerate0)
  then show ?thesis by (simp add: conditionPass_def negate_filter_def negate_condition_result)
qed

text \<open>
  C20: De Morgan. A filter whose conditions are all replaced by their negations, with \<^verbatim>\<open>and\<close> and
  \<^verbatim>\<open>or\<close> exchanged, keeps exactly the items the first one drops, and fails with the same error on those on
  which the first one fails.
\<close>

theorem executeFilter_negated:
  assumes "\<forall>c \<in> set (fv_conditions fv). negatable c" and "fv_combinator fv \<in> {''and'', ''or''}"
  shows "executeFilter env (negate_filter fv) k = negateE (executeFilter env fv k)"
proof -
  let ?f = "\<lambda>(i, c). (i, negate_condition c)"
  have pass: "conditionPass env (negate_filter fv) k (?f x) = negateE (conditionPass env fv k x)"
    if "x \<in> set (enumerate0 (fv_conditions fv))" for x
    using conditionPass_negate [OF _ assms(1)] that by (cases x) simp
  have some: "someE (conditionPass env (negate_filter fv) k) (map ?f (enumerate0 (fv_conditions fv)))
      = negateE (everyE (conditionPass env fv k) (enumerate0 (fv_conditions fv)))"
    by (rule someE_negate) (rule pass)
  have every: "everyE (conditionPass env (negate_filter fv) k) (map ?f (enumerate0 (fv_conditions fv)))
      = negateE (someE (conditionPass env fv k) (enumerate0 (fv_conditions fv)))"
    by (rule everyE_negate) (rule pass)
  show ?thesis
    using assms(2) some every
    by (auto simp: executeFilter_def negate_filter_def enumerate0_map)
qed

text \<open>
  A filter on a number and a list, and the same filter negated: 5 is at least not 3, and the list contains the
  text \<^verbatim>\<open>b\<close>, in upper case.
\<close>

definition sample_env :: value_env where
  "sample_env = \<lparr> fe_num_string = (\<lambda>r. ''0''), fe_date_string = (\<lambda>d. ''date''), fe_lower = (\<lambda>s. s),
     fe_locale_lower = map (\<lambda>c. if c = CHR ''B'' then CHR ''b'' else c), fe_stringify = (\<lambda>j. ''json''),
     fe_json_parse = (\<lambda>s. None), fe_parse_object = (\<lambda>s. if s = ''null'' then Some JNull else None),
     fe_parse_date = (\<lambda>s. None), fe_url_protocol = (\<lambda>s. None), fe_regexp = (\<lambda>r flags s. Inr (contains r s)) \<rparr>"

definition sample_condition :: "string \<Rightarrow> string \<Rightarrow> fval \<Rightarrow> fval \<Rightarrow> filter_condition" where
  "sample_condition type operation left right =
     \<lparr> fc_leftValue = left, fc_rightValue = right,
       fc_operator = \<lparr> fo_type = type, fo_operation = operation, fo_rightType = Some ''any'', fo_singleValue = False \<rparr> \<rparr>"

definition sample_filter :: filter_value where
  "sample_filter = \<lparr> fv_options = \<lparr> fi_caseSensitive = False, fi_strict = True, fi_version = 3 \<rparr>,
     fv_conditions = [sample_condition ''number'' ''notEquals'' (VJson (JNum 5)) (VJson (JNum 3)),
       sample_condition ''array'' ''contains'' (VJson (JArr [JStr ''a'', JStr ''B''])) (VJson (JStr ''b''))],
     fv_combinator = ''and'' \<rparr>"

lemma sample_negatable: "\<forall>c \<in> set (fv_conditions sample_filter). negatable c"
  by code_simp

lemma executeFilter_negated_witness:
  "executeFilter sample_env sample_filter 0 = Inr True
   \<and> executeFilter sample_env (negate_filter sample_filter) 0 = Inr False"
proof -
  have "fv_combinator sample_filter \<in> {''and'', ''or''}" by (simp add: sample_filter_def)
  from executeFilter_negated [OF sample_negatable this, of sample_env 0]
  have "executeFilter sample_env (negate_filter sample_filter) 0 = negateE (executeFilter sample_env sample_filter 0)" .
  moreover have "executeFilter sample_env sample_filter 0 = Inr True" by code_simp
  ultimately show ?thesis by simp
qed

lemma parseSingleFilterValue_type_witness:
  "parseSingleFilterValue sample_env (VJson (JStr ''12'')) ''number'' False 2 = Some (VJson (JNum 12))
   \<and> of_filter_type ''number'' (VJson (JNum 12))"
proof -
  have parsed: "parseSingleFilterValue sample_env (VJson (JStr ''12'')) ''number'' False 2 = Some (VJson (JNum 12))"
    by code_simp
  then show ?thesis using parseSingleFilterValue_type [OF parsed] by blast
qed

section \<open>What filters keep\<close>

lemma everyE_True: "everyE p xs = Inr True \<longleftrightarrow> (\<forall>x \<in> set xs. p x = Inr True)"
proof (induction xs)
  case (Cons x xs)
  then show ?case by (cases "p x") auto
qed simp

lemma someE_False: "someE p xs = Inr False \<longleftrightarrow> (\<forall>x \<in> set xs. p x = Inr False)"
proof (induction xs)
  case (Cons x xs)
  then show ?case by (cases "p x") auto
qed simp

theorem executeFilter_and_keeps:
  assumes "fv_combinator fv = ''and''"
  shows "executeFilter env fv k = Inr True
     \<longleftrightarrow> (\<forall>ic \<in> set (enumerate0 (fv_conditions fv)). conditionPass env fv k ic = Inr True)"
  using assms by (simp add: executeFilter_def everyE_True)

theorem executeFilter_or_drops:
  assumes "fv_combinator fv = ''or''"
  shows "executeFilter env fv k = Inr False
     \<longleftrightarrow> (\<forall>ic \<in> set (enumerate0 (fv_conditions fv)). conditionPass env fv k ic = Inr False)"
  using assms by (simp add: executeFilter_def someE_False)

section \<open>Numbers\<close>

text \<open>Between two numbers, the six comparisons are those of the order of the rationals.\<close>

theorem number_conditions_ordered:
  fixes a b :: rat
  defines "l \<equiv> VJson (JNum a)" and "r \<equiv> VJson (JNum b)"
  shows "number_condition env ''equals'' ex l r = Some (Inr (a = b))"
    and "number_condition env ''lt'' ex l r = Some (Inr (a < b))"
    and "number_condition env ''gt'' ex l r = Some (Inr (a > b))"
    and "number_condition env ''lte'' ex l r = Some (Inr (a \<le> b))"
    and "number_condition env ''gte'' ex l r = Some (Inr (a \<ge> b))"
  unfolding l_def r_def
  by (simp_all add: number_condition_def val_same_def same_value_def val_less_def primitive_def to_primitive_def
      number_of_def not_less)

text \<open>
  Since version 3 an empty text is no number: it is converted to \<^verbatim>\<open>null\<close>, and \<^verbatim>\<open>empty\<close> holds. But the
  comparison of JavaScript turns \<^verbatim>\<open>null\<close> back into 0, so that it is at least 0 and at most 0, and neither
  equal to 0 nor different in order.
\<close>

definition empty_number :: "string \<Rightarrow> bool res" where
  "empty_number operation = executeFilterCondition sample_env
     (sample_condition ''number'' operation (VJson (JStr [])) (VJson (JNum 0)))
     \<lparr> fi_caseSensitive = False, fi_strict = False, fi_version = 3 \<rparr> (execute_metadata 0 0)"

theorem empty_number_compared:
  "map empty_number [''empty'', ''equals'', ''gt'', ''lt'', ''gte'', ''lte'']
     = [Inr True, Inr False, Inr False, Inr False, Inr True, Inr True]"
  by code_simp

text \<open>Of a missing date, neither \<^verbatim>\<open>equals\<close> nor \<^verbatim>\<open>notEquals\<close> holds.\<close>

theorem missing_date_compared:
  assumes "\<not> val_truthy l \<or> \<not> val_truthy r"
  shows "date_condition ''equals'' ex l r = Some (Inr False)"
    and "date_condition ''notEquals'' ex l r = Some (Inr False)"
  using assms by (simp_all add: date_condition_def)

section \<open>Issues\<close>

text \<open>No issue is ever reported, whatever the values and the types of the conditions.\<close>

theorem validateFilterParameter_nothing: "validateFilterParameter env fv = []"
proof -
  have "foldl (\<lambda>issues (index, condition). issues) [] xs = ([] :: string list obj)"
    for xs :: "(nat \<times> filter_condition) list"
    by (induction xs) auto
  then show ?thesis by (simp add: validateFilterParameter_def Let_def)
qed

text \<open>The text \<^verbatim>\<open>null\<close> is accepted as an object.\<close>

theorem null_text_is_object:
  "validateFieldType sample_env (VJson (JStr ''null'')) ''object'' (filter_type_options False) = Some (VJson JNull)"
  by code_simp

end
