(* ===== verification/Field_Properties.thy ===== *)
theory Field_Properties
  imports Filter_Properties
begin

text \<open>
  What the validation of fields promises: form fields have allowed keys only and their texts are escaped, texts that
  are accepted as times and tokens have the shape of one; and the text that escaping misses.
\<close>

section \<open>Form fields\<close>

definition no_markup :: "string \<Rightarrow> bool" where
  "no_markup s = (CHR ''<'' \<notin> set s \<and> CHR ''>'' \<notin> set s)"

lemma escape_html_no_markup: "no_markup (escape_html s)"
  by (induction s) (auto simp: no_markup_def escape_html_def escape_char_def)

text \<open>What becomes of one field while its keys are processed.\<close>

definition form_key_done :: "value_env \<Rightarrow> json obj \<Rightarrow> json obj \<Rightarrow> string \<Rightarrow> bool" where
  "form_key_done env rs fs k =
     (k \<in> set ALLOWED_FORM_FIELDS_KEYS
      \<and> (k \<noteq> ''fieldOptions'' \<longrightarrow> mget fs k = map_option (form_value env k) (mget rs k))
      \<and> (k = ''fieldOptions'' \<longrightarrow> (\<forall>s. mget rs k \<noteq> Some (JStr s))))"

definition form_keys_done :: "value_env \<Rightarrow> string set \<Rightarrow> json obj \<Rightarrow> json obj \<Rightarrow> bool" where
  "form_keys_done env ks rs fs =
     (map fst fs = map fst rs \<and> (\<forall>k. k \<notin> ks \<longrightarrow> mget fs k = mget rs k) \<and> (\<forall>k. k \<in> ks \<longrightarrow> form_key_done env rs fs k))"

lemma form_options_no_text: "form_options i (JStr s) \<noteq> Inr v'"
  by (simp add: form_options_def)

lemma form_key_result:
  assumes "form_key env i k fs = Inr fs'" and "mget fs k = Some x"
  shows "map fst fs' = map fst fs" and "k' \<noteq> k \<Longrightarrow> mget fs' k' = mget fs k'"
    and "mget fs k = mget rs k \<Longrightarrow> form_key_done env rs fs' k"
proof -
  let ?v = "form_value env k x"
  have allowed: "k \<in> set ALLOWED_FORM_FIELDS_KEYS" using assms(1) by (simp add: form_key_def split: if_splits)
  have "(k \<noteq> ''fieldOptions'' \<and> fs' = mset_at k ?v fs)
      \<or> (k = ''fieldOptions'' \<and> (\<exists>v'. form_options i ?v = Inr v' \<and> fs' = mset_at k v' (mset_at k ?v fs)))"
    using assms by (auto simp: form_key_def Let_def bindE_eq_Inr split: if_splits)
  then obtain v' where step: "k \<noteq> ''fieldOptions'' \<and> fs' = mset_at k ?v fs
      \<or> k = ''fieldOptions'' \<and> form_options i ?v = Inr v' \<and> fs' = mset_at k v' (mset_at k ?v fs)" by blast
  have key: "k \<in> fst ` set fs" using map_of_SomeD [OF assms(2)] by force
  then have twice: "map fst (mset_at k a fs) = map fst fs" "map fst (mset_at k b (mset_at k a fs)) = map fst fs" for a b
    by (simp_all only: keys_set set_map [symmetric] if_True)
  show "map fst fs' = map fst fs" using step twice by (elim disjE conjE) simp_all
  show "k' \<noteq> k \<Longrightarrow> mget fs' k' = mget fs k'" using step by (elim disjE conjE) simp_all
  assume "mget fs k = mget rs k"
  then have rs: "mget rs k = Some x" using assms(2) by simp
  from step show "form_key_done env rs fs' k"
  proof (elim disjE conjE)
    assume "k \<noteq> ''fieldOptions''" "fs' = mset_at k ?v fs"
    then show ?thesis using allowed rs by (simp add: form_key_done_def)
  next
    assume "k = ''fieldOptions''" "form_options i ?v = Inr v'"
    moreover have "x \<noteq> JStr s" for s using calculation by (auto simp: form_value_def form_options_no_text)
    ultimately show ?thesis using allowed rs by (simp add: form_key_done_def)
  qed
qed

lemma form_keys_fold:
  assumes "foldE (form_key env i) ks fs = Inr fs'" and "form_keys_done env ready rs fs"
    and "distinct ks" "set ks \<inter> ready = {}" "set ks \<subseteq> fst ` set rs"
  shows "form_keys_done env (ready \<union> set ks) rs fs'"
  using assms
proof (induction ks arbitrary: fs ready)
  case (Cons k ks)
  from Cons.prems(1) obtain a where a: "form_key env i k fs = Inr a" "foldE (form_key env i) ks a = Inr fs'"
    by (auto simp: bindE_eq_Inr)
  have k: "k \<notin> ready" "k \<in> fst ` set rs" using Cons.prems(4,5) by auto
  then obtain x where x: "mget rs k = Some x" by (cases "mget rs k") (auto simp: map_of_eq_None_iff)
  have same: "mget fs k = mget rs k" using Cons.prems(2) k(1) by (simp add: form_keys_done_def)
  note r = form_key_result [OF a(1) same [unfolded x]]
  have "form_keys_done env (insert k ready) rs a"
    unfolding form_keys_done_def
  proof (intro conjI allI impI)
    show "map fst a = map fst rs" using r(1) Cons.prems(2) by (simp add: form_keys_done_def)
    show "mget a k' = mget rs k'" if "k' \<notin> insert k ready" for k'
      using r(2) [of k'] that Cons.prems(2) by (simp add: form_keys_done_def)
    show "form_key_done env rs a k'" if "k' \<in> insert k ready" for k'
    proof (cases "k' = k")
      case True
      then show ?thesis using r(3) [OF same] by simp
    next
      case False
      then have "form_key_done env rs fs k'" using that Cons.prems(2) by (simp add: form_keys_done_def)
      then show ?thesis using r(2) [OF False] by (simp add: form_key_done_def)
    qed
  qed
  from Cons.IH [OF a(2) this] Cons.prems(3-5) show ?case by (simp add: insert_commute)
qed simp

definition raw_fields_wf :: "json list \<Rightarrow> bool" where
  "raw_fields_wf raw = list_all (\<lambda>r. case r of JObj rs \<Rightarrow> distinct (map fst rs) | _ \<Rightarrow> True) raw"

lemma form_field_result:
  assumes "form_field env (i, r) fs = Inr fs'"
  obtains f where "fs' = fs @ [f]"
    "\<And>rs. r = JObj rs \<Longrightarrow> \<exists>ob. f = JObj ob \<and> foldE (form_key env i) (obj_keys rs) rs = Inr ob"
  using assms by (cases r) (auto simp: form_field_def bindE_eq_Inr split: list.splits)

lemma form_fields_fold:
  assumes "foldE (form_field env) is fs = Inr fs'"
  shows "\<exists>new. fs' = fs @ new \<and> list_all2 (\<lambda>(i, r) f. \<forall>rs. r = JObj rs \<longrightarrow>
     (\<exists>ob. f = JObj ob \<and> foldE (form_key env i) (obj_keys rs) rs = Inr ob)) is new"
  using assms
proof (induction "is" arbitrary: fs)
  case (Cons ir "is")
  obtain i r where ir: "ir = (i, r)" by (cases ir)
  from Cons.prems obtain a where a: "form_field env (i, r) fs = Inr a" "foldE (form_field env) is a = Inr fs'"
    by (auto simp: bindE_eq_Inr ir)
  obtain f where f: "a = fs @ [f]"
    "\<And>rs. r = JObj rs \<Longrightarrow> \<exists>ob. f = JObj ob \<and> foldE (form_key env i) (obj_keys rs) rs = Inr ob"
    using form_field_result [OF a(1)] by metis
  from Cons.IH [OF a(2)] obtain new where "fs' = a @ new" and new: "list_all2 (\<lambda>(i, r) f. \<forall>rs. r = JObj rs \<longrightarrow>
     (\<exists>ob. f = JObj ob \<and> foldE (form_key env i) (obj_keys rs) rs = Inr ob)) is new" by blast
  then show ?case using f by (intro exI [of _ "f # new"]) (simp add: ir)
qed simp

text \<open>What an accepted field is, compared with the field of the JSON at its place.\<close>

definition form_field_escaped :: "value_env \<Rightarrow> json obj \<Rightarrow> json obj \<Rightarrow> bool" where
  "form_field_escaped env rs fs =
     (map fst fs = map fst rs \<and> set (map fst rs) \<subseteq> set ALLOWED_FORM_FIELDS_KEYS
      \<and> (\<forall>k. k \<noteq> ''fieldOptions'' \<longrightarrow> mget fs k = map_option (form_value env k) (mget rs k))
      \<and> (\<forall>k s. mget rs k = Some (JStr s) \<and> k \<noteq> ''html'' \<longrightarrow> (\<exists>t. mget fs k = Some (JStr t) \<and> no_markup t)))"

lemma form_keys_done_escaped:
  assumes "form_keys_done env (fst ` set rs) rs fs"
  shows "form_field_escaped env rs fs"
proof -
  have key: "form_key_done env rs fs k" if "mget rs k \<noteq> None" for k
    using assms that by (auto simp: form_keys_done_def map_of_eq_None_iff)
  have keys: "map fst fs = map fst rs" using assms by (simp add: form_keys_done_def)
  have allowed: "set (map fst rs) \<subseteq> set ALLOWED_FORM_FIELDS_KEYS"
  proof
    fix k assume "k \<in> set (map fst rs)"
    then have "mget rs k \<noteq> None" by (simp add: map_of_eq_None_iff)
    from key [OF this] show "k \<in> set ALLOWED_FORM_FIELDS_KEYS" by (simp add: form_key_done_def)
  qed
  have no_key: "mget fs k = None" if "mget rs k = None" for k
    using that arg_cong [OF keys, of set] by (simp add: map_of_eq_None_iff)
  have "mget fs k = map_option (form_value env k) (mget rs k)" if "k \<noteq> ''fieldOptions''" for k
    using key [of k] no_key [of k] that by (cases "mget rs k") (simp_all add: form_key_done_def)
  moreover have "\<exists>t. mget fs k = Some (JStr t) \<and> no_markup t" if "mget rs k = Some (JStr s)" "k \<noteq> ''html''" for k s
    using key [of k] that escape_html_no_markup by (auto simp: form_key_done_def form_value_def)
  ultimately show ?thesis using keys allowed by (simp add: form_field_escaped_def)
qed

lemma form_key_fold_escaped:
  assumes "foldE (form_key env i) (obj_keys rs) rs = Inr fs" and "distinct (map fst rs)"
  shows "form_field_escaped env rs fs"
proof -
  have "form_keys_done env {} rs rs" by (simp add: form_keys_done_def)
  from form_keys_fold [OF assms(1) this] assms(2) have "form_keys_done env (fst ` set rs) rs fs" by simp
  then show ?thesis by (rule form_keys_done_escaped)
qed

lemma only_application_errors_Inr: "only_application_errors r = Inr x \<longleftrightarrow> r = Inr x"
  by (auto simp: only_application_errors_def split: sum.splits js_error.splits)

text \<open>
  C22: the fields of a form that are accepted are, one by one, those of the JSON (the keys of an object being different): each
  has the same keys, all of them allowed; every value that is a text in the JSON, except \<^verbatim>\<open>html\<close>, is escaped, so that it has
  no angle bracket; and every value but the options of a dropdown is the converted one. Values that only the conversion
  turns into texts, arrays and objects, and the options of dropdowns are not escaped, see \<open>array_is_not_escaped\<close>.
\<close>

theorem form_fields_escaped:
  assumes "tryToParseJsonToFormFields env v = Inr accepted"
    and "fe_parse_object env (string_of env v) = Some (JArr raw)" and "raw_fields_wf raw"
  shows "list_all2 (\<lambda>r f. case r of
       JObj rs \<Rightarrow> (case f of JObj fs \<Rightarrow> form_field_escaped env rs fs | _ \<Rightarrow> False)
     | _ \<Rightarrow> True) raw accepted"
proof -
  have "foldE (form_field env) (enumerate0 raw) [] = Inr accepted"
    using assms(1,2) by (simp add: tryToParseJsonToFormFields_def only_application_errors_Inr)
  from form_fields_fold [OF this] have fields: "list_all2 (\<lambda>(i, r) f. \<forall>rs. r = JObj rs \<longrightarrow>
     (\<exists>ob. f = JObj ob \<and> foldE (form_key env i) (obj_keys rs) rs = Inr ob)) (enumerate0 raw) accepted" by simp
  show ?thesis
    unfolding list_all2_conv_all_nth
  proof (intro conjI allI impI)
    show "length raw = length accepted" using list_all2_lengthD [OF fields] by (simp add: enumerate0_def)
    fix k assume k: "k < length raw"
    have "\<forall>rs. raw ! k = JObj rs \<longrightarrow>
        (\<exists>ob. accepted ! k = JObj ob \<and> foldE (form_key env k) (obj_keys rs) rs = Inr ob)"
      using list_all2_nthD [OF fields, of k] k by (simp add: enumerate0_def)
    moreover have "raw ! k = JObj rs \<Longrightarrow> distinct (map fst rs)" for rs
      using assms(3) k unfolding raw_fields_wf_def list_all_length by fastforce
    ultimately show "case raw ! k of
        JObj rs \<Rightarrow> (case accepted ! k of JObj fs \<Rightarrow> form_field_escaped env rs fs | _ \<Rightarrow> False) | _ \<Rightarrow> True"
      using form_key_fold_escaped by (auto split: json.split)
  qed
qed

definition form_env :: "json \<Rightarrow> value_env" where
  "form_env raw = sample_env\<lparr> fe_parse_object := (\<lambda>s. Some raw) \<rparr>"

definition form_raw :: "json list" where
  "form_raw = [JObj [(''fieldLabel'', JStr ''a<b''), (''fieldType'', JStr ''dropdown''),
     (''fieldOptions'', JArr [JObj [(''option'', JStr ''x'')]])]]"

lemma form_fields_escaped_witness:
  "tryToParseJsonToFormFields (form_env (JArr form_raw)) (VJson (JStr ''json''))
     = Inr [JObj [(''fieldLabel'', JStr ''a&lt;b''), (''fieldType'', JStr ''dropdown''),
         (''fieldOptions'', JObj [(''values'', JArr [JObj [(''option'', JStr ''x'')]])])]]
   \<and> form_field_escaped (form_env (JArr form_raw))
       [(''fieldLabel'', JStr ''a<b''), (''fieldType'', JStr ''dropdown''),
         (''fieldOptions'', JArr [JObj [(''option'', JStr ''x'')]])]
       [(''fieldLabel'', JStr ''a&lt;b''), (''fieldType'', JStr ''dropdown''),
         (''fieldOptions'', JObj [(''values'', JArr [JObj [(''option'', JStr ''x'')]])])]"
proof -
  have run: "tryToParseJsonToFormFields (form_env (JArr form_raw)) (VJson (JStr ''json''))
     = Inr [JObj [(''fieldLabel'', JStr ''a&lt;b''), (''fieldType'', JStr ''dropdown''),
         (''fieldOptions'', JObj [(''values'', JArr [JObj [(''option'', JStr ''x'')]])])]]"
    by code_simp
  have "fe_parse_object (form_env (JArr form_raw)) s = Some (JArr form_raw)" for s by (simp add: form_env_def)
  moreover have "raw_fields_wf form_raw" by (simp add: raw_fields_wf_def form_raw_def)
  ultimately show ?thesis using run form_fields_escaped [OF run] by (simp add: form_raw_def)
qed

text \<open>
  An array is turned into a text by \<^verbatim>\<open>String\<close>, and that text is not escaped, nor are the options of a dropdown.
\<close>

theorem array_is_not_escaped:
  "tryToParseJsonToFormFields (form_env (JArr [JObj [(''fieldLabel'', JArr [JStr ''<b>''])]])) (VJson (JStr ''json''))
     = Inr [JObj [(''fieldLabel'', JStr ''<b>'')]]"
  by code_simp

section \<open>Times and tokens\<close>

lemma re_digits_iff: "r \<in> set (re_digits n s) \<longleftrightarrow> (\<exists>d. s = d @ r \<and> length d = n \<and> list_all is_digit d)"
  by (auto simp: re_digits_def intro: exI [of _ "take n s"])

lemma re_char_iff: "r \<in> set (re_char cs s) \<longleftrightarrow> (\<exists>c \<in> cs. s = c # r)"
  by (auto simp: re_char_def split: list.splits if_splits)

lemma re_then_iff: "r \<in> set (re_then p q s) \<longleftrightarrow> (\<exists>m. m \<in> set (p s) \<and> r \<in> set (q m))"
  by (auto simp: re_then_def)

text \<open>A text that is accepted as a time begins with hours and minutes, two digits each.\<close>

theorem tryToParseTime_shape:
  assumes "tryToParseTime env v = Some v'"
  shows "v' = VJson (JStr (string_of env v))
    \<and> (\<exists>hh mm rest. string_of env v = hh @ [CHR '':''] @ mm @ rest \<and> length hh = 2 \<and> length mm = 2
        \<and> list_all is_digit (hh @ mm))"
proof -
  have v': "v' = VJson (JStr (string_of env v))" and "is_time (string_of env v)"
    using assms by (auto simp: tryToParseTime_def split: if_splits)
  then obtain m n where "m \<in> set (re_digits 2 (string_of env v))" "n \<in> set (re_colon_pair m)"
    unfolding is_time_def re_then_iff by (elim exE conjE)
  then have "\<exists>hh mm. string_of env v = hh @ [CHR '':''] @ mm @ n \<and> length hh = 2 \<and> length mm = 2
      \<and> list_all is_digit (hh @ mm)"
    unfolding re_colon_pair_def re_then_iff re_digits_iff re_char_iff by auto
  with v' show ?thesis by blast
qed

lemma times_checked:
  "map is_time [''09:30'', ''09:30:15'', ''09:30+0100'', ''09:30-1'', ''09:30:15+0100-01:30'', ''9:30'', ''09:30+'', ''09:30+010'']
     = [True, True, True, True, True, False, False, False]"
  by code_simp

lemma tokens_checked: "map is_jwt [''a.b.'', ''a-1.b_2.c.d='', ''a..c'', ''a.b'', ''a.b.c!''] = [True, True, False, False, False]"
  by code_simp

end
