(* ===== verification/Spec2Isabelle.thy ===== *)
theory Spec2Isabelle
  imports Graph_Properties Partial_Properties Workflow_Properties Partial_Run_Properties Executions_Properties Diff_Properties Broker_Properties Parameter_Properties Leadership_Properties Augment_Properties Filter_Properties Field_Properties
begin

text \<open>
  This is a verification development for the workflow engine of n8n: the code that, given a workflow
  (nodes and connections), decides which nodes to execute, in which order, with which items.

  \<^bold>\<open>The program.\<close> A workflow (\<^verbatim>\<open>packages/workflow/src/workflow.ts\<close>) holds nodes by name and two
  connection objects, by source and by destination, which the functions of \<^verbatim>\<open>packages/workflow/src/common\<close>
  search and invert. \<^verbatim>\<open>WorkflowExecute\<close> (\<^verbatim>\<open>packages/core/src/execution-engine/workflow-execute.ts\<close>)
  executes it: \<^verbatim>\<open>run\<close> starts at a trigger, \<^verbatim>\<open>runPartialWorkflow2\<close> computes with the
  functions of \<^verbatim>\<open>partial-execution-utils\<close>, on a \<^verbatim>\<open>DirectedGraph\<close> read from the workflow, what must be
  executed again for a destination, and both end in the loop of \<^verbatim>\<open>processRunExecutionData\<close>: it takes
  an entry from the execution stack, runs the node (with retries), stores the result in the run data, puts the
  nodes connected to its outputs on the stack or, when they have several inputs, into the waiting entries, and releases waiting
  nodes when the stack is empty. A node may instead ask for other nodes to be run first (\<^verbatim>\<open>requests-response.ts\<close>).

  \<^bold>\<open>Foundations.\<close> \<open>N8n_Prelude\<close>: errors as values (\<open>js_error + 'a\<close>, \<open>bindE\<close>,
  \<open>foldE\<close>), JavaScript objects, Maps and Sets as association lists and lists in insertion order,
  arrays with holes, decimal numerals in keys, and the lemmas on them that all theories share. \<open>N8n_Types\<close>: nodes,
  connections, items, run data, stack and waiting entries (\<^verbatim>\<open>interfaces.ts\<close>).

  \<^bold>\<open>Connections and workflows.\<close>
  \<open>Connections_Map\<close> (\<^verbatim>\<open>common/*.ts\<close>): searches with depth over the nested objects and their inversion;
  a search returns the ends of walks, the inversion is the converse relation.
  \<open>Connections_Diff\<close> (\<^verbatim>\<open>connections-diff.ts\<close>): differences of two connection objects are exact.
  \<open>Graph_Utils\<close> (\<^verbatim>\<open>graph/graph-utils.ts\<close>): the test whether a selection of nodes can be extracted as a
  sub-workflow. \<open>Workflow_Class\<close>, \<open>Workflow_BFS\<close>, \<open>Workflow_Start\<close>
  (\<^verbatim>\<open>workflow.ts\<close>): state and setters, queries, renaming, the breadth-first searches, the start node.
  Properties in \<open>Workflow_Properties\<close>.

  \<^bold>\<open>Graphs.\<close> \<open>Directed_Graph\<close> (\<^verbatim>\<open>directed-graph.ts\<close>): state, editing, searches.
  \<open>Marking_Search\<close>: the interface of a recursive search with a shared list of visited keys; it is
  interpreted for the three searches in \<open>Graph_Search\<close>, which also holds the invariant \<open>wf_graph\<close> and that all
  editing keeps it. \<open>Graph_Edit\<close>: keys of connections, cloning, \<^verbatim>\<open>removeNode\<close>,
  \<^verbatim>\<open>filterDisabledNodes\<close>. \<open>Tarjan_SCC\<close>: strongly connected components.
  \<open>Graph_Conversion\<close>: conversions from and to workflows, with the round trip.
  \<open>Find_Subgraph\<close>, \<open>Rewire_Graph\<close>, \<open>Handle_Cycles\<close>: the functions of those names. Properties in
  \<open>Graph_Properties\<close>.

  \<^bold>\<open>Partial executions.\<close> \<open>Run_Data_Queries\<close> (\<^verbatim>\<open>get-incoming-data.ts\<close>,
  \<^verbatim>\<open>run-data-utils.ts\<close>, \<^verbatim>\<open>clean-run-data.ts\<close>), \<open>Start_Nodes\<close>, \<open>Source_Groups\<close>,
  \<open>Recreate_Stack\<close>, \<open>Find_Trigger\<close>: the steps; \<open>Partial_Run\<close>: \<^verbatim>\<open>runPartialWorkflow2\<close>, which
  composes them with the engine. Properties in \<open>Partial_Properties\<close> and \<open>Partial_Run_Properties\<close>.

  \<^bold>\<open>The engine.\<close> \<open>Engine_State\<close>: the state of an execution and its small operations.
  \<open>Engine_Waiting\<close>: \<^verbatim>\<open>addNodeToBeExecuted\<close>, on every branch. \<open>Join_Queues\<close>: an abstract
  specification of a node with several inputs, one queue of data per input; \<open>Engine_Join\<close>: one call implements a
  step of it while the waiting entries have no gap; \<open>Join_Runs\<close>: sequences of calls implement it while no input runs ahead
  (else data can be lost). \<open>Engine_Release\<close>: the release of waiting nodes when the stack is empty.
  \<open>Engine_Items\<close>: preparing the input, \<^verbatim>\<open>runNode\<close>, paired items, the error output.
  \<open>Engine_Requests\<close>: requests of nodes and their resumption. \<open>Engine_Tries\<close>: the tries of one entry.
  \<open>Engine_Loop\<close>: storing the result, the successors, one iteration (\<open>exec_step\<close>, whose outcomes are
  continue, break, return and throw), the loop, and its end.
  Lemmas: \<open>Engine_Frame\<close> holds the interfaces (locales) of relations between states that every operation keeps;
  they are interpreted in \<open>Engine_Runs\<close> (the filter of nodes, the hooks, execution indices),
  \<open>Engine_Calls\<close> (the number of calls of node code) and \<open>Engine_Termination\<close> (a weight that decreases in
  every iteration). \<open>Engine_Liveness\<close>: what a release leaves waiting, namely nodes that lack required inputs and those after them. \<open>Engine_Outputs\<close>: items of the
  outputs. \<open>Request_Order\<close>: the order on the stack. Properties in \<open>Engine_Properties\<close>. \<open>Sample_Data\<close>
  and \<open>Engine_Samples\<close> hold the concrete nodes, graphs and node code of the witnesses.

  \<^bold>\<open>How the code is read.\<close> A \<^verbatim>\<open>throw\<close> is a value \<open>Inl\<close>; of the error objects the class and the message
  the code uses are kept. Where a function throws after it has changed state that remains visible, the result is a
  pair of the state and an optional error. \<^verbatim>\<open>null\<close>, \<^verbatim>\<open>undefined\<close> and a hole of an array are one value,
  \<open>None\<close>, except where the code distinguishes them. Objects that are compared by identity carry it as a field
  (\<open>n_ref\<close>). Assignments to properties of a shared node change every occurrence of it
  (\<open>mutate_graph\<close>, \<open>map_graph\<close>, \<open>update_node\<close>). Plain objects enumerate integer-like keys first, in ascending
  order (\<open>obj_keys\<close>); inherited properties of \<^verbatim>\<open>Object.prototype\<close> are not modelled. Strings are compared by code
  unit where the code uses the default order; \<^verbatim>\<open>localeCompare\<close> is a parameter. Sorting with an inconsistent
  comparison is modelled by what the engine's sort does with it, which the text beside the definition explains.

  \<^bold>\<open>Parameters.\<close> Node code is \<open>ev_code\<close>: what the \<open>k\<close>-th call returns or throws, so that no assumption on
  nodes is built in; triggers, polling and declarative nodes are code as well. Node types, the default parameters of
  nodes (\<^verbatim>\<open>getNodeParameters\<close>), the outputs of a node, the issues of a node, paired item lookup, binary data
  conversion, the timeout, \<^verbatim>\<open>JSON.stringify\<close> and the regular expressions of \<^verbatim>\<open>applyAccessPatterns\<close>
  are parameters, too.

  \<^bold>\<open>Loops.\<close> All searches are total functions with termination proofs, except
  \<^verbatim>\<open>getParentMainInputNode\<close>, which need not return. The main loop takes the number of iterations as fuel and answers
  \<open>None\<close> when it is used up. \<open>run_terminates\<close> and \<open>runPartialWorkflow2_terminates\<close> show that enough
  fuel exists for acyclic main connections in the order \<^verbatim>\<open>v1\<close>: the weight of the initial state, where a node weighs one
  more than its successors together.

  \<^bold>\<open>The executions of a process.\<close> Around the engine, \<^verbatim>\<open>packages/cli/src\<close> limits how many executions run at
  the same time. \<open>Concurrency_Control\<close>: the queue of waiting executions (\<^verbatim>\<open>concurrency-queue.ts\<close>), the service
  that has one for production and one for evaluation executions (\<^verbatim>\<open>concurrency-control.service.ts\<close>), and an abstract
  specification of a queue as a semaphore. \<open>Active_Executions\<close>: \<^verbatim>\<open>active-executions.ts\<close>, with one step of
  \<open>active_step\<close> for what happens between two awaits (a call of \<^verbatim>\<open>add\<close> up to its reservation and after it, a settled
  promise, every other operation, and the removal of a waiting execution that is stopped); the steps come in any order, the answers
  of the database are arguments. Every step keeps the count of the held slots (\<open>slots_ok\<close>), where every removal may
  add one above the limit (\<open>process_run\<close> counts them). Properties in \<open>Executions_Properties\<close>: the limit, progress of
  waiting calls, and three operations that break the count. The shutdown, which switches the limits off, is an operation of its own
  and no step.

  \<^bold>\<open>Task runners.\<close> \<open>Task_Broker\<close>: \<^verbatim>\<open>task-broker.service.ts\<close>, which matches the requests for tasks with
  the offers of runners. \<open>broker_step\<close> has every message, every timer (which may fire at any time) and the continuations of
  \<^verbatim>\<open>acceptOffer\<close> after an answer; the messages that are sent are collected in the state, the supply of identifiers
  (\<^verbatim>\<open>nanoid\<close>) is a parameter that gives different ones. \<open>Broker_Matching\<close>: what the matching loop does, per type of
  task; \<open>Broker_Invariants\<close>: the invariant of all reachable states; \<open>Broker_Properties\<close>: fairness, unique assignment,
  and the tasks and requests that are left behind.

  \<^bold>\<open>Several main processes.\<close> \<open>Leader_Election\<close>: the election of a leader by a key in Redis
  (\<^verbatim>\<open>multi-main-setup.ee.ts\<close>, \<^verbatim>\<open>leader-election-client.ts\<close>) for any number of hosts. A command
  is sent, executed and answered in separate steps of \<open>cluster_step\<close>; it may be lost before or after its execution, and the
  lease may end at any time. The locale \<open>cluster_invariant\<close> is interpreted for the state of every host and, without
  the end of leases, for who holds the key; \<open>calm\<close> times are those in which the election settles.
  \<open>Wait_Tracker\<close>: \<^verbatim>\<open>wait-tracker.ts\<close>, with timers that are live or only remembered.
  \<open>Leadership_Properties\<close> composes them: the events a host emits are the starts and stops of its tracker.

  \<^bold>\<open>Versions of workflows.\<close> \<open>Workflow_Diff\<close>: \<^verbatim>\<open>workflow-diff.ts\<close>, which compares versions
  (with \<open>Connections_Diff\<close> for their connections) and groups a history by rules. The loop of \<^verbatim>\<open>groupWorkflows\<close> over
  an array that shrinks is shown to be a fold (\<open>keep\<close>), \<^verbatim>\<open>stringContainsParts\<close> to be \<open>subseq\<close> of the
  library; \<open>Diff_Properties\<close> composes them: grouping by additive changes loses nothing.

  \<^bold>\<open>Parameters of nodes.\<close> What a node is given as parameters (\<^verbatim>\<open>node-helpers.ts\<close>).
  \<open>Parameter_Order\<close>: which properties the display rules of a property are about and the order of resolution. Its
  loop has fuel; every step lowers \<open>resolve_measure\<close>, so \<open>resolve_fuel\<close> is enough. The locale
  \<open>dependency_source\<close> is what the resolution needs of the dependencies. \<open>Parameter_Conditions\<close>:
  truth, numbers, strings and comparison of JSON values as JavaScript has them, \<^verbatim>\<open>checkConditions\<close>, features and
  \<^verbatim>\<open>displayParameter\<close>. \<open>Node_Parameters\<close>: \<^verbatim>\<open>getNodeParameters\<close> for simple properties,
  collections and fixed collections; the recursion ends by the size of the descriptions, and the object of display values that
  grows during the loop is kept apart from one computed before (\<open>display_values\<close>). \<^verbatim>\<open>get\<close> and
  \<^verbatim>\<open>isEqual\<close> of lodash, regular expressions and the printing of numbers are parameters (\<open>param_env\<close>);
  numbers are rationals. Properties, and the guarantees the code gives up, in \<open>Parameter_Properties\<close>.

  \<^bold>\<open>Values of fields and filters.\<close> \<open>Type_Validation\<close>: the conversion of values to the types of
  fields, form fields included (\<^verbatim>\<open>type-validation.ts\<close>); dates are milliseconds, and reading dates, JSON and
  URLs, regular expressions given as values, lower case and the printing of values are parameters (\<open>value_env\<close>).
  \<open>Filter_Conditions\<close>: the conditions of the nodes If, Filter and Switch (\<^verbatim>\<open>filter-parameter.ts\<close>), one
  function per type of operator. \<open>Filter_Properties\<close>: the types of converted values, negation and De Morgan, and where
  the code breaks what one expects of comparisons and of validation. \<open>Field_Properties\<close>: escaping of form fields, and
  the text it misses; the shape of times.

  \<^bold>\<open>Data given to nodes.\<close> \<open>Augment_Object\<close>: the copy-on-write proxies of
  \<^verbatim>\<open>augment-object.ts\<close>, in a heap in which code reads, assigns and deletes through the references it holds; the
  invariant says that no cell the code can reach holds a reference into the data. \<open>Augment_Properties\<close>: isolation,
  and the two operations that break it: asking for the descriptor of a property, and defining one.

  \<^bold>\<open>Not modelled.\<close> Promises and cancellation inside the engine (the code between two awaits is one step, cancellation is the
  timeout parameter), lifecycle hooks (only that they are called), static data saving, tracing beyond its tags, and the
  parts of the packages around the engine: execution contexts of nodes, routing of declarative nodes, expression
  evaluation, the issues of parameters, activation of triggers, the database, the rest of the server and the editor. They are listed in the manifest with the reason.
\<close>

end
